(* ===== verification/Prelude.thy ===== *)
theory Prelude
  imports Main "HOL-Library.Word" "HOL-Library.List_Lexorder"
begin

text \<open>
  Shared vocabulary of the development: the machine integer and byte types, the error type of
  \<^verbatim>\<open>src/error.rs\<close>, the result type that keeps error returns and panics apart, the
  bounds-checked slice operations of Rust, the little- and big-endian integer codecs of its
  standard library, and the generic lemmas on lists and slices that the page, row, log and index
  theories use.
\<close>

section \<open>Machine integers and bytes\<close>

type_synonym u8 = "8 word"
type_synonym u16 = "16 word"
type_synonym u32 = "32 word"
type_synonym u64 = "64 word"
type_synonym i64 = "64 word"
type_synonym bytes = "u8 list"

text \<open>A Rust \<^verbatim>\<open>String\<close> or \<^verbatim>\<open>&str\<close>: its UTF-8 bytes.\<close>

type_synonym rstring = "bytes"

named_theorems res_simps \<open>evaluation of results and bounds-checked accesses\<close>
named_theorems layout \<open>lengths and positions in byte layouts\<close>

text \<open>\<^verbatim>\<open>n as u16\<close>, \<^verbatim>\<open>n as u32\<close> and \<^verbatim>\<open>n as u64\<close> of a \<^verbatim>\<open>usize\<close>: truncation.\<close>

abbreviation as_u16 :: "nat \<Rightarrow> u16" where "as_u16 n \<equiv> of_nat n"
abbreviation as_u32 :: "nat \<Rightarrow> u32" where "as_u32 n \<equiv> of_nat n"
abbreviation as_u64 :: "nat \<Rightarrow> u64" where "as_u64 n \<equiv> of_nat n"

lemma unat_as_u16 [simp]: "unat (as_u16 n) = n mod 65536"
  by (simp add: unat_of_nat)

lemma unat_as_u32 [simp]: "unat (as_u32 n) = n mod 4294967296"
  by (simp add: unat_of_nat)

lemma unat_u8_lt [simp]: "unat (b :: u8) < 256"
  using unsigned_less [of b] by simp

lemma unat_u16_lt [simp]: "unat (v :: u16) < 65536"
  using unsigned_less [of v] by simp

lemma unat_u32_lt [simp]: "unat (v :: u32) < 4294967296"
  using unsigned_less [of v] by simp

lemma unat_u64_lt [simp]: "unat (v :: u64) < 18446744073709551616"
  using unsigned_less [of v] by simp

lemma sint_of_small:
  "- 2147483648 \<le> d \<Longrightarrow> d < 2147483648 \<Longrightarrow> sint (word_of_int d :: 32 word) = d"
  by (simp add: sint_sbintrunc' signed_take_bit_int_eq_self)

section \<open>Errors and results\<close>

datatype boogy_error =
    Io string
  | Corruption string
  | TableNotFound rstring
  | TableExists rstring
  | RowNotFound string
  | DuplicateKey u64
  | SchemaMismatch string
  | TypeMismatch string
  | IndexNotFound rstring
  | IndexExists rstring
  | UniqueViolation rstring
  | TableLocked rstring
  | DecryptionFailed string
  | InvalidKey string
  | RowTooLarge nat
  | PageFull
  | TransactionConflict
  | VectorCollectionNotFound rstring
  | VectorCollectionExists rstring
  | VectorDimensionMismatch u32 u32
  | VectorError string

text \<open>
  Message payloads keep the fixed text of the source's \<^verbatim>\<open>format!\<close> strings without the
  interpolated numbers; names of tables, indexes and collections are kept.
  A call ends with a value, with an error returned to the caller, or with a panic (an
  out-of-bounds slice, a failed assertion, an arithmetic underflow).
\<close>

datatype fault = Fail boogy_error | Panicked

type_synonym 'a res = "fault + 'a"

definition res_bind :: "'a res \<Rightarrow> ('a \<Rightarrow> 'b res) \<Rightarrow> 'b res" where
  "res_bind m f = (case m of Inl e \<Rightarrow> Inl e | Inr x \<Rightarrow> f x)"

lemma res_bind_Inl [simp, res_simps]: "res_bind (Inl e) f = Inl e"
  by (simp add: res_bind_def)

lemma res_bind_Inr [simp, res_simps]: "res_bind (Inr x) f = f x"
  by (simp add: res_bind_def)

lemma res_bind_eq_Inr: "res_bind m f = Inr y \<longleftrightarrow> (\<exists>x. m = Inr x \<and> f x = Inr y)"
  by (cases m) simp_all

lemma res_bind_eq_Inl:
  "res_bind m f = Inl e \<longleftrightarrow> m = Inl e \<or> (\<exists>x. m = Inr x \<and> f x = Inl e)"
  by (cases m) simp_all

lemma res_bind_assoc: "res_bind (res_bind m f) g = res_bind m (\<lambda>x. res_bind (f x) g)"
  by (cases m) simp_all

lemma res_bind_cong [fundef_cong]:
  "m = m' \<Longrightarrow> (\<And>x. m' = Inr x \<Longrightarrow> f x = f' x) \<Longrightarrow> res_bind m f = res_bind m' f'"
  by (cases m') simp_all

text \<open>An assertion (\<^verbatim>\<open>assert!\<close>): a panic when it does not hold.\<close>

definition must :: "bool \<Rightarrow> unit res" where
  "must b = (if b then Inr () else Inl Panicked)"

lemma must_True [simp, res_simps]: "must True = Inr ()"
  by (simp add: must_def)

lemma must_False [simp, res_simps]: "must False = Inl Panicked"
  by (simp add: must_def)

text \<open>\<^verbatim>\<open>if !ok { return Err(e) }\<close>.\<close>

definition ensure :: "bool \<Rightarrow> boogy_error \<Rightarrow> unit res" where
  "ensure b e = (if b then Inr () else Inl (Fail e))"

lemma ensure_True [simp, res_simps]: "ensure True e = Inr ()"
  by (simp add: ensure_def)

lemma ensure_False [simp, res_simps]: "ensure False e = Inl (Fail e)"
  by (simp add: ensure_def)

text \<open>
  Loops over a range: one collects a value per step, the other threads a state; both stop at the
  first error or panic.
\<close>

fun res_map :: "('a \<Rightarrow> 'b res) \<Rightarrow> 'a list \<Rightarrow> 'b list res" where
  "res_map f [] = Inr []"
| "res_map f (x # xs) =
     res_bind (f x) (\<lambda>y. res_bind (res_map f xs) (\<lambda>ys. Inr (y # ys)))"

fun res_fold :: "('a \<Rightarrow> 's \<Rightarrow> 's res) \<Rightarrow> 'a list \<Rightarrow> 's \<Rightarrow> 's res" where
  "res_fold f [] s = Inr s"
| "res_fold f (x # xs) s = res_bind (f x s) (res_fold f xs)"

lemma res_map_Inr: "(\<And>x. x \<in> set xs \<Longrightarrow> f x = Inr (g x)) \<Longrightarrow> res_map f xs = Inr (map g xs)"
  by (induction xs) simp_all

lemma res_fold_append: "res_fold f (xs @ ys) s = res_bind (res_fold f xs s) (res_fold f ys)"
  by (induction xs arbitrary: s) (auto simp: res_bind_def split: sum.splits)

text \<open>
  \<^verbatim>\<open>if let Ok(x)\<close> and \<^verbatim>\<open>.ok()\<close>: an error is dropped, a panic is not. The
  short-circuiting \<^verbatim>\<open>all\<close> and \<^verbatim>\<open>any\<close> of an iterator.
\<close>

definition res_ok :: "'a res \<Rightarrow> 'a option res" where
  "res_ok m = (case m of Inr x \<Rightarrow> Inr (Some x) | Inl (Fail _) \<Rightarrow> Inr None | Inl Panicked \<Rightarrow> Inl Panicked)"

lemma res_ok_simps [simp, res_simps]:
  "res_ok (Inr x) = Inr (Some x)" "res_ok (Inl (Fail e)) = Inr None" "res_ok (Inl Panicked) = Inl Panicked"
  by (simp_all add: res_ok_def)

fun res_all :: "('a \<Rightarrow> bool res) \<Rightarrow> 'a list \<Rightarrow> bool res" where
  "res_all f [] = Inr True"
| "res_all f (x # xs) = res_bind (f x) (\<lambda>b. if b then res_all f xs else Inr False)"

fun res_any :: "('a \<Rightarrow> bool res) \<Rightarrow> 'a list \<Rightarrow> bool res" where
  "res_any f [] = Inr False"
| "res_any f (x # xs) = res_bind (f x) (\<lambda>b. if b then Inr True else res_any f xs)"

lemma res_all_Inr: "(\<And>x. x \<in> set xs \<Longrightarrow> f x = Inr (P x)) \<Longrightarrow> res_all f xs = Inr (list_all P xs)"
  by (induction xs) auto

lemma res_any_Inr: "(\<And>x. x \<in> set xs \<Longrightarrow> f x = Inr (P x)) \<Longrightarrow> res_any f xs = Inr (list_ex P xs)"
  by (induction xs) auto

text \<open>
  Operations on a mutable state: the outcome and the state after it. An error return keeps the
  changes made before it, as \<^verbatim>\<open>&mut\<close> state does.
\<close>

type_synonym ('s, 'a) sm = "'s \<Rightarrow> 'a res \<times> 's"

definition sm_ret :: "'a \<Rightarrow> ('s, 'a) sm" where
  "sm_ret x s = (Inr x, s)"

definition sm_bind :: "('s, 'a) sm \<Rightarrow> ('a \<Rightarrow> ('s, 'b) sm) \<Rightarrow> ('s, 'b) sm" where
  "sm_bind m f s = (case m s of (Inl e, s') \<Rightarrow> (Inl e, s') | (Inr x, s') \<Rightarrow> f x s')"

definition sm_lift :: "'a res \<Rightarrow> ('s, 'a) sm" where
  "sm_lift r s = (r, s)"

definition sm_view :: "('s \<Rightarrow> 'a res) \<Rightarrow> ('s, 'a) sm" where
  "sm_view f s = (f s, s)"

definition sm_modify :: "('s \<Rightarrow> 's) \<Rightarrow> ('s, unit) sm" where
  "sm_modify f s = (Inr (), f s)"

fun sm_fold :: "('a \<Rightarrow> ('s, unit) sm) \<Rightarrow> 'a list \<Rightarrow> ('s, unit) sm" where
  "sm_fold f [] = sm_ret ()"
| "sm_fold f (x # xs) = sm_bind (f x) (\<lambda>_. sm_fold f xs)"

lemma sm_run [simp, res_simps]:
  "sm_ret x s = (Inr x, s)" "sm_lift r s = (r, s)" "sm_view f s = (f s, s)"
  "sm_modify g s = (Inr (), g s)"
  by (simp_all add: sm_ret_def sm_lift_def sm_view_def sm_modify_def)

lemma sm_bind_Inr: "m s = (Inr x, s') \<Longrightarrow> sm_bind m f s = f x s'"
  by (simp add: sm_bind_def)

lemma sm_bind_Inl: "m s = (Inl e, s') \<Longrightarrow> sm_bind m f s = (Inl e, s')"
  by (simp add: sm_bind_def)

lemma sm_bind_run [simp]:
  "sm_bind (sm_ret x) f s = f x s"
  "sm_bind (sm_modify g) k s = k () (g s)"
  "sm_bind (sm_lift (Inr x)) f s = f x s"
  "sm_bind (sm_lift (Inl e)) f s = (Inl e, s)"
  by (simp_all add: sm_bind_def)

lemma sm_bind_view:
  "sm_bind (sm_view g) f s = (case g s of Inl e \<Rightarrow> (Inl e, s) | Inr x \<Rightarrow> f x s)"
  by (simp add: sm_bind_def split: sum.split)

lemma sm_bind_view_Inr: "g s = Inr x \<Longrightarrow> sm_bind (sm_view g) f s = f x s"
  by (simp add: sm_bind_view)

lemma sm_bind_eq_Inr:
  "sm_bind m f s = (Inr y, s'') \<longleftrightarrow> (\<exists>x s'. m s = (Inr x, s') \<and> f x s' = (Inr y, s''))"
  by (auto simp: sm_bind_def split: prod.splits sum.splits)

lemma sm_bind_assoc: "sm_bind (sm_bind m f) g = sm_bind m (\<lambda>x. sm_bind (f x) g)"
  by (rule ext) (auto simp: sm_bind_def split: prod.splits sum.splits)

lemma sm_bind_ret [simp]: "sm_bind m sm_ret = m"
  by (rule ext) (auto simp: sm_bind_def split: prod.split sum.split)

lemma sm_bind_cong [fundef_cong]:
  "m s = m' s' \<Longrightarrow> s = s' \<Longrightarrow> (\<And>x t. m' s' = (Inr x, t) \<Longrightarrow> f x t = f' x t) \<Longrightarrow>
     sm_bind m f s = sm_bind m' f' s'"
  by (auto simp: sm_bind_def split: prod.splits sum.splits)

section \<open>Bounds-checked slices\<close>

definition sub_bytes :: "bytes \<Rightarrow> nat \<Rightarrow> nat \<Rightarrow> bytes" where
  "sub_bytes d s e = take (e - s) (drop s d)"

text \<open>\<^verbatim>\<open>&d[s..e]\<close> and \<^verbatim>\<open>d[i]\<close>: a panic out of range.\<close>

definition slice :: "bytes \<Rightarrow> nat \<Rightarrow> nat \<Rightarrow> bytes res" where
  "slice d s e = (if s \<le> e \<and> e \<le> length d then Inr (sub_bytes d s e) else Inl Panicked)"

definition byte_at :: "bytes \<Rightarrow> nat \<Rightarrow> u8 res" where
  "byte_at d i = (if i < length d then Inr (d ! i) else Inl Panicked)"

text \<open>\<^verbatim>\<open>d[off..off + src.len()].copy_from_slice(src)\<close>: a panic out of range.\<close>

definition blit :: "bytes \<Rightarrow> nat \<Rightarrow> bytes \<Rightarrow> bytes" where
  "blit d off src = take off d @ src @ drop (off + length src) d"

definition copy_at :: "bytes \<Rightarrow> nat \<Rightarrow> bytes \<Rightarrow> bytes res" where
  "copy_at d off src =
     (if off + length src \<le> length d then Inr (blit d off src) else Inl Panicked)"

lemma slice_Inr [res_simps]:
  "s \<le> e \<Longrightarrow> e \<le> length d \<Longrightarrow> slice d s e = Inr (sub_bytes d s e)"
  by (simp add: slice_def)

lemma slice_eq_Inr:
  "slice d s e = Inr b \<longleftrightarrow> s \<le> e \<and> e \<le> length d \<and> b = sub_bytes d s e"
  by (auto simp: slice_def)

lemma byte_at_Inr [res_simps]: "i < length d \<Longrightarrow> byte_at d i = Inr (d ! i)"
  by (simp add: byte_at_def)

lemma copy_at_Inr [res_simps]:
  "off + length src \<le> length d \<Longrightarrow> copy_at d off src = Inr (blit d off src)"
  by (simp add: copy_at_def)

lemma copy_at_Panic [res_simps]:
  "length d < off + length src \<Longrightarrow> copy_at d off src = Inl Panicked"
  by (simp add: copy_at_def)

lemma copy_at_eq_Inr:
  "copy_at d off src = Inr d' \<longleftrightarrow> off + length src \<le> length d \<and> d' = blit d off src"
  by (auto simp: copy_at_def)

lemma length_sub_bytes [layout]:
  "length (sub_bytes d s e) = min (e - s) (length d - s)"
  by (simp add: sub_bytes_def)

lemma length_sub_bytes_le [simp]:
  "e \<le> length d \<Longrightarrow> length (sub_bytes d s e) = e - s"
  by (simp add: sub_bytes_def)

lemma length_blit [simp, layout]:
  "off + length src \<le> length d \<Longrightarrow> length (blit d off src) = length d"
  by (simp add: blit_def)

lemma sub_bytes_all [simp]: "sub_bytes d 0 (length d) = d"
  by (simp add: sub_bytes_def)

lemma sub_bytes_empty [simp]: "sub_bytes d s s = []"
  by (simp add: sub_bytes_def)

lemma sub_bytes_to_end: "sub_bytes d s (length d) = drop s d"
  by (simp add: sub_bytes_def)

lemma nth_sub_bytes:
  "s + i < e \<Longrightarrow> e \<le> length d \<Longrightarrow> sub_bytes d s e ! i = d ! (s + i)"
  by (simp add: sub_bytes_def)

lemma nth_blit:
  assumes "off + length src \<le> length d" "i < length d"
  shows "blit d off src ! i =
    (if i < off then d ! i else if i < off + length src then src ! (i - off) else d ! i)"
  using assms by (auto simp: blit_def nth_append min_def)

text \<open>What a read sees after a write: the bytes written, or the old bytes when disjoint.\<close>

lemma sub_bytes_blit_same:
  assumes "off + length src \<le> length d" "e = off + length src"
  shows "sub_bytes (blit d off src) off e = src"
  using assms by (simp add: blit_def sub_bytes_def)

lemma sub_bytes_blit_disjoint:
  assumes "off + length src \<le> length d" "e \<le> off \<or> off + length src \<le> s"
  shows "sub_bytes (blit d off src) s e = sub_bytes d s e"
proof (rule nth_equalityI)
  show "length (sub_bytes (blit d off src) s e) = length (sub_bytes d s e)"
    using assms(1) by (simp add: length_sub_bytes)
next
  fix i assume "i < length (sub_bytes (blit d off src) s e)"
  then have i: "i < e - s" "i < length d - s"
    using assms(1) by (simp_all add: length_sub_bytes)
  then show "sub_bytes (blit d off src) s e ! i = sub_bytes d s e ! i"
    using assms by (auto simp: sub_bytes_def nth_blit)
qed

lemma sub_bytes_append_left:
  "e \<le> length a \<Longrightarrow> sub_bytes (a @ b) s e = sub_bytes a s e"
  by (cases "s \<le> e") (simp_all add: sub_bytes_def)

lemma sub_bytes_append_right:
  "length a \<le> s \<Longrightarrow> sub_bytes (a @ b) s e = sub_bytes b (s - length a) (e - length a)"
  by (auto simp: sub_bytes_def)

lemma sub_bytes_middle:
  "s = length a \<Longrightarrow> e = length a + length b \<Longrightarrow> sub_bytes (a @ b @ c) s e = b"
  by (simp add: sub_bytes_def)

lemma sub_bytes_prefix:
  "s = 0 \<Longrightarrow> e = length b \<Longrightarrow> sub_bytes (b @ c) s e = b"
  by (simp add: sub_bytes_def)

lemma sub_bytes_sub_bytes:
  "s + e' \<le> e \<Longrightarrow> sub_bytes (sub_bytes d s e) s' e' = sub_bytes d (s + s') (s + e')"
  by (simp add: sub_bytes_def drop_take add.commute min_def)

text \<open>Reading one block out of a concatenation of blocks.\<close>

lemma drop_concat_take: "drop (length (concat (take i bs))) (concat bs) = concat (drop i bs)"
  by (metis append_eq_conv_conj append_take_drop_id concat_append)

lemma sub_bytes_concat:
  assumes "i < length bs" "s = length (concat (take i bs))" "e = s + length (bs ! i)"
  shows "sub_bytes (concat bs) s e = bs ! i"
  using assms by (simp add: sub_bytes_def drop_concat_take Cons_nth_drop_Suc [symmetric])

lemma length_concat_const:
  "(\<And>b. b \<in> set bs \<Longrightarrow> length b = w) \<Longrightarrow> length (concat bs) = w * length bs"
  by (induction bs) simp_all

lemma length_concat_take_Suc:
  "i < length bs \<Longrightarrow>
     length (concat (take (Suc i) bs)) = length (concat (take i bs)) + length (bs ! i)"
  by (simp add: take_Suc_conv_app_nth)

lemma length_concat_take_le: "length (concat (take i bs)) \<le> length (concat bs)"
  by (metis append_take_drop_id concat_append le_add1 length_append)

lemma length_concat_take_mono:
  "i \<le> j \<Longrightarrow> length (concat (take i bs)) \<le> length (concat (take j bs))"
  by (metis length_concat_take_le min.absorb1 take_take)

section \<open>Integer codecs\<close>

text \<open>
  \<^verbatim>\<open>to_le_bytes\<close> and \<^verbatim>\<open>from_le_bytes\<close> of the unsigned integers, least significant
  byte first; the big-endian forms reverse the bytes.
\<close>

fun le_enc :: "nat \<Rightarrow> nat \<Rightarrow> bytes" where
  "le_enc 0 x = []"
| "le_enc (Suc k) x = of_nat (x mod 256) # le_enc k (x div 256)"

lemma le_enc_numeral:
  "le_enc (numeral k) x = of_nat (x mod 256) # le_enc (pred_numeral k) (x div 256)"
  by (simp only: numeral_eq_Suc le_enc.simps)

fun le_dec :: "bytes \<Rightarrow> nat" where
  "le_dec [] = 0"
| "le_dec (b # bs) = unat b + 256 * le_dec bs"

lemma length_le_enc [simp, layout]: "length (le_enc k x) = k"
  by (induction k arbitrary: x) simp_all

lemma le_dec_enc: "le_dec (le_enc k x) = x mod 256 ^ k"
proof (induction k arbitrary: x)
  case (Suc k)
  have "le_dec (le_enc (Suc k) x) = x mod 256 + 256 * (x div 256 mod 256 ^ k)"
    by (simp add: Suc.IH unat_of_nat)
  also have "\<dots> = x mod 256 ^ Suc k"
    by (simp add: mod_mult2_eq add.commute)
  finally show ?case .
qed simp

lemma le_dec_bound: "le_dec bs < 256 ^ length bs"
proof (induction bs)
  case (Cons b bs)
  have "unat b + 256 * le_dec bs < 256 + 256 * le_dec bs"
    using unat_u8_lt [of b] by linarith
  also have "\<dots> \<le> 256 * 256 ^ length bs"
    using Cons.IH by (metis Suc_leI mult_Suc_right mult_le_mono2)
  finally show ?case by simp
qed simp

lemma le_enc_dec: "length bs = k \<Longrightarrow> le_enc k (le_dec bs) = bs"
proof (induction bs arbitrary: k)
  case (Cons b bs)
  have "(unat b + 256 * le_dec bs) mod 256 = unat b"
    using unat_u8_lt [of b] by simp
  moreover have "(unat b + 256 * le_dec bs) div 256 = le_dec bs"
    using unat_u8_lt [of b] by simp
  ultimately show ?case
    using Cons by (auto simp: Cons.IH)
qed simp

lemma le_dec_inj: "length a = length b \<Longrightarrow> le_dec a = le_dec b \<Longrightarrow> a = b"
  by (metis le_enc_dec)

definition u16_to_le :: "u16 \<Rightarrow> bytes" where "u16_to_le v = le_enc 2 (unat v)"
definition u32_to_le :: "u32 \<Rightarrow> bytes" where "u32_to_le v = le_enc 4 (unat v)"
definition u64_to_le :: "u64 \<Rightarrow> bytes" where "u64_to_le v = le_enc 8 (unat v)"
definition u64_to_be :: "u64 \<Rightarrow> bytes" where "u64_to_be v = rev (le_enc 8 (unat v))"

definition u16_from_le :: "bytes \<Rightarrow> u16" where "u16_from_le bs = of_nat (le_dec bs)"
definition u32_from_le :: "bytes \<Rightarrow> u32" where "u32_from_le bs = of_nat (le_dec bs)"
definition u64_from_le :: "bytes \<Rightarrow> u64" where "u64_from_le bs = of_nat (le_dec bs)"
definition u64_from_be :: "bytes \<Rightarrow> u64" where "u64_from_be bs = of_nat (le_dec (rev bs))"

text \<open>
  The contract of a fixed-width codec, and what every user of one needs: reading a field that was
  just written, reading a field that another write left alone, and that encodings determine values.
\<close>

locale fixed_codec =
  fixes enc :: "'a \<Rightarrow> bytes"
    and dec :: "bytes \<Rightarrow> 'a"
    and width :: nat
  assumes dec_enc: "dec (enc v) = v"
    and enc_width: "length (enc v) = width"
    and enc_dec: "length b = width \<Longrightarrow> enc (dec b) = b"
begin

lemma enc_inj: "enc v = enc w \<longleftrightarrow> v = w"
  by (metis dec_enc)

lemma dec_inj: "length a = width \<Longrightarrow> length b = width \<Longrightarrow> dec a = dec b \<longleftrightarrow> a = b"
  by (metis enc_dec)

lemma read_written:
  "off + width \<le> length d \<Longrightarrow> e = off + width \<Longrightarrow> dec (sub_bytes (blit d off (enc v)) off e) = v"
  by (simp add: sub_bytes_blit_same enc_width dec_enc)

lemma read_other:
  "off + width \<le> length d \<Longrightarrow> e \<le> off \<or> off + width \<le> s \<Longrightarrow>
     dec (sub_bytes (blit d off (enc v)) s e) = dec (sub_bytes d s e)"
  by (simp add: sub_bytes_blit_disjoint enc_width)

lemma read_prefix: "s = 0 \<Longrightarrow> e = width \<Longrightarrow> dec (sub_bytes (enc v @ r) s e) = v"
  by (simp add: sub_bytes_prefix enc_width dec_enc)

lemma read_middle:
  "s = length a \<Longrightarrow> e = length a + width \<Longrightarrow> dec (sub_bytes (a @ enc v @ r) s e) = v"
  by (simp add: sub_bytes_middle enc_width dec_enc)

lemma enc_append_eq: "enc v @ r = enc w @ r' \<longleftrightarrow> v = w \<and> r = r'"
  by (metis append_eq_append_conv enc_inj enc_width)

end

interpretation u16_le: fixed_codec u16_to_le u16_from_le 2
proof
  fix v :: u16
  show "u16_from_le (u16_to_le v) = v"
    by (simp add: u16_from_le_def u16_to_le_def le_dec_enc)
next
  fix b :: bytes assume b: "length b = 2"
  then have "le_dec b < 2 ^ 16" using le_dec_bound [of b] by simp
  with b show "u16_to_le (u16_from_le b) = b"
    by (simp add: u16_from_le_def u16_to_le_def le_enc_dec)
qed (simp add: u16_to_le_def)

interpretation u32_le: fixed_codec u32_to_le u32_from_le 4
proof
  fix v :: u32
  show "u32_from_le (u32_to_le v) = v"
    by (simp add: u32_from_le_def u32_to_le_def le_dec_enc)
next
  fix b :: bytes assume b: "length b = 4"
  then have "le_dec b < 2 ^ 32" using le_dec_bound [of b] by simp
  with b show "u32_to_le (u32_from_le b) = b"
    by (simp add: u32_from_le_def u32_to_le_def le_enc_dec)
qed (simp add: u32_to_le_def)

interpretation u64_le: fixed_codec u64_to_le u64_from_le 8
proof
  fix v :: u64
  show "u64_from_le (u64_to_le v) = v"
    by (simp add: u64_from_le_def u64_to_le_def le_dec_enc)
next
  fix b :: bytes assume b: "length b = 8"
  then have "le_dec b < 2 ^ 64" using le_dec_bound [of b] by simp
  with b show "u64_to_le (u64_from_le b) = b"
    by (simp add: u64_from_le_def u64_to_le_def le_enc_dec unat_of_nat)
qed (simp add: u64_to_le_def)

interpretation u64_be: fixed_codec u64_to_be u64_from_be 8
proof
  fix v :: u64
  show "u64_from_be (u64_to_be v) = v"
    by (simp add: u64_from_be_def u64_to_be_def le_dec_enc)
next
  fix b :: bytes assume b: "length b = 8"
  then have "le_dec (rev b) < 2 ^ 64" using le_dec_bound [of "rev b"] by simp
  with b show "u64_to_be (u64_from_be b) = b"
    by (simp add: u64_from_be_def u64_to_be_def le_enc_dec unat_of_nat)
qed (simp add: u64_to_be_def)

lemmas codec_width [simp, layout] =
  u16_le.enc_width u32_le.enc_width u64_le.enc_width u64_be.enc_width

lemmas codec_dec_enc [simp] =
  u16_le.dec_enc u32_le.dec_enc u64_le.dec_enc u64_be.dec_enc

end
