(* ===== verification/Floats.thy ===== *)
theory Floats
  imports Prelude
begin

unbundle bit_operations_syntax

text \<open>
  The operations of Rust's \<^verbatim>\<open>f64\<close> that the sources use, on bit patterns: NaN and sign tests,
  \<^verbatim>\<open>partial_cmp\<close>, and the casts \<^verbatim>\<open>i64 as f64\<close> (round to nearest, ties to even)
  and \<^verbatim>\<open>f64 as i64\<close> (truncation, saturating, NaN to 0). The lemmas relate the comparison to
  the integer order of \<open>f64_key\<close>.
\<close>

section \<open>Orderings\<close>

datatype ordering = Less | Equal | Greater

fun ordering_rank :: "ordering \<Rightarrow> int" where
  "ordering_rank Less = - 1"
| "ordering_rank Equal = 0"
| "ordering_rank Greater = 1"

lemma ordering_rank_inject: "ordering_rank a = ordering_rank b \<longleftrightarrow> a = b"
  by (cases a; cases b) simp_all

instantiation ordering :: linorder
begin

definition less_eq_ordering :: "ordering \<Rightarrow> ordering \<Rightarrow> bool" where
  "less_eq_ordering a b \<longleftrightarrow> ordering_rank a \<le> ordering_rank b"

definition less_ordering :: "ordering \<Rightarrow> ordering \<Rightarrow> bool" where
  "less_ordering a b \<longleftrightarrow> ordering_rank a < ordering_rank b"

instance
  by standard (auto simp: less_eq_ordering_def less_ordering_def ordering_rank_inject)

end

definition cmp :: "'a::linorder \<Rightarrow> 'a \<Rightarrow> ordering" where
  "cmp a b = (if a < b then Less else if a = b then Equal else Greater)"

fun reverse_ordering :: "ordering \<Rightarrow> ordering" where
  "reverse_ordering Less = Greater"
| "reverse_ordering Equal = Equal"
| "reverse_ordering Greater = Less"

lemma cmp_simps [simp]:
  "cmp a b = Less \<longleftrightarrow> a < b" "cmp a b = Equal \<longleftrightarrow> a = b" "cmp a b = Greater \<longleftrightarrow> b < a"
  by (auto simp: cmp_def)

lemma cmp_refl [simp]: "cmp a a = Equal"
  by simp

lemma cmp_reverse: "cmp b a = reverse_ordering (cmp a b)"
  by (cases a b rule: linorder_cases) (auto simp: cmp_def)

lemma reverse_reverse [simp]: "reverse_ordering (reverse_ordering a) = a"
  by (cases a) simp_all

lemma cmp_le_Equal: "cmp a b \<le> Equal \<longleftrightarrow> a \<le> b"
  by (cases a b rule: linorder_cases) (auto simp: cmp_def less_eq_ordering_def)

section \<open>Bit patterns of f64\<close>

type_synonym f64 = "64 word"

definition f64_abs :: "f64 \<Rightarrow> u64" where
  "f64_abs b = b AND 0x7FFFFFFFFFFFFFFF"

definition f64_is_nan :: "f64 \<Rightarrow> bool" where
  "f64_is_nan b \<longleftrightarrow> 0x7FF0000000000000 < f64_abs b"

definition f64_is_sign_negative :: "f64 \<Rightarrow> bool" where
  "f64_is_sign_negative b \<longleftrightarrow> 0x8000000000000000 \<le> b"

text \<open>
  Sign and magnitude as one integer: non-NaN values compare as these integers do, both zeros
  having key 0.
\<close>

definition f64_key :: "f64 \<Rightarrow> int" where
  "f64_key b = (if f64_is_sign_negative b then - uint (f64_abs b) else uint (f64_abs b))"

definition f64_partial_cmp :: "f64 \<Rightarrow> f64 \<Rightarrow> ordering option" where
  "f64_partial_cmp a b =
     (if f64_is_nan a \<or> f64_is_nan b then None else Some (cmp (f64_key a) (f64_key b)))"

lemma f64_partial_cmp_Some:
  "\<not> f64_is_nan a \<Longrightarrow> \<not> f64_is_nan b \<Longrightarrow>
     f64_partial_cmp a b = Some (cmp (f64_key a) (f64_key b))"
  by (simp add: f64_partial_cmp_def)

section \<open>Casts\<close>

fun bit_len :: "nat \<Rightarrow> nat" where
  "bit_len n = (if n = 0 then 0 else Suc (bit_len (n div 2)))"

declare bit_len.simps [simp del]

lemma bit_len_bounds: "n > 0 \<Longrightarrow> 2 ^ (bit_len n - 1) \<le> n \<and> n < 2 ^ bit_len n"
proof (induction n rule: bit_len.induct)
  case (1 n)
  show ?case
  proof (cases "n div 2 = 0")
    case True
    with "1.prems" have "n = 1" by simp
    then show ?thesis by (simp add: bit_len.simps)
  next
    case False
    with "1.IH" "1.prems" have IH: "2 ^ (bit_len (n div 2) - 1) \<le> n div 2"
      "n div 2 < 2 ^ bit_len (n div 2)" by simp_all
    from False have pos: "0 < bit_len (n div 2)"
      by (simp add: bit_len.simps [of "n div 2"])
    have "2 ^ bit_len (n div 2) = 2 * (2::nat) ^ (bit_len (n div 2) - 1)"
      using pos by (metis power_minus_mult mult.commute)
    moreover have "p \<le> n div 2 \<Longrightarrow> n div 2 < 2 * p \<Longrightarrow> 2 * p \<le> n \<and> n < 2 * (2 * p)" for p :: nat
      by arith
    ultimately show ?thesis
      using IH "1.prems" by (simp add: bit_len.simps [of n])
  qed
qed

text \<open>Division by a power of two, rounded to nearest with ties to even.\<close>

definition round_shift :: "nat \<Rightarrow> nat \<Rightarrow> nat" where
  "round_shift m k =
     (let q = m div 2 ^ k; r = m mod 2 ^ k; half = 2 ^ (k - 1)
      in if half < r \<or> (r = half \<and> odd q) then Suc q else q)"

definition i64_as_f64 :: "i64 \<Rightarrow> f64" where
  "i64_as_f64 v =
     (let m = nat \<bar>sint v\<bar>; e = bit_len m - 1;
          frac = (if e \<le> 52 then m * 2 ^ (52 - e) else round_shift m (e - 52));
          bits = (of_nat ((e + 1022) * 2 ^ 52 + frac) :: u64)
      in if m = 0 then 0 else if sint v < 0 then bits OR 0x8000000000000000 else bits)"

definition f64_as_i64 :: "f64 \<Rightarrow> i64" where
  "f64_as_i64 b =
     (let e = unat (f64_abs b) div 2 ^ 52; m = unat (f64_abs b) mod 2 ^ 52 + 2 ^ 52;
          mag = (if e < 1023 then 0 else if e \<le> 1075 then m div 2 ^ (1075 - e)
                 else m * 2 ^ (e - 1075))
      in if f64_is_nan b then 0
         else if f64_is_sign_negative b
           then (if 2 ^ 63 \<le> mag then 0x8000000000000000 else - of_nat mag)
           else (if 2 ^ 63 \<le> mag then 0x7FFFFFFFFFFFFFFF else of_nat mag))"

text \<open>Known values: 1.0, -2.0, 2 to the 53 plus 1 (not representable), and 1.5 truncated.\<close>

lemma i64_as_f64_samples:
  "i64_as_f64 1 = 0x3FF0000000000000"
  "i64_as_f64 (- 2) = 0xC000000000000000"
  "i64_as_f64 9007199254740993 = i64_as_f64 9007199254740992"
  by (simp_all add: i64_as_f64_def bit_len.simps round_shift_def Let_def)

lemma f64_as_i64_samples:
  "f64_as_i64 0x3FF8000000000000 = 1"
  "f64_as_i64 0xBFF8000000000000 = - 1"
  "f64_as_i64 0x7FF0000000000000 = 0x7FFFFFFFFFFFFFFF"
  "f64_as_i64 0x7FF8000000000000 = 0"
  by (simp_all add: f64_as_i64_def f64_abs_def f64_is_nan_def f64_is_sign_negative_def Let_def)

end
