(* ===== verification/Search.thy ===== *)
theory Search
  imports Floats
begin

text \<open>
  The binary search that \<^verbatim>\<open>src/row.rs\<close>, \<^verbatim>\<open>src/btree.rs\<close> and
  \<^verbatim>\<open>src/index.rs\<close> each write out over their own directory: \<open>bsearch\<close> is its loop, a
  probe is the comparison of the key at an index with the target. The locale states what a
  directory must provide; its lemmas say where the loop stops. The theories of rows, leaf pages and
  index pages interpret it.
\<close>

function bsearch :: "(nat \<Rightarrow> ordering res) \<Rightarrow> nat \<Rightarrow> nat \<Rightarrow> (nat \<times> bool) res" where
  "bsearch probe lo hi =
     (if lo < hi then
        let mid = lo + (hi - lo) div 2 in
        res_bind (probe mid) (\<lambda>r. case r of
            Less \<Rightarrow> bsearch probe (mid + 1) hi
          | Greater \<Rightarrow> bsearch probe lo mid
          | Equal \<Rightarrow> Inr (mid, True))
      else Inr (lo, False))"
  by pat_completeness auto
termination
  by (relation "measure (\<lambda>(probe, lo, hi). hi - lo)") auto

declare bsearch.simps [simp del]

locale ordered_directory =
  fixes valid :: "'d \<Rightarrow> bool"
    and size_of :: "'d \<Rightarrow> nat"
    and key_at :: "'d \<Rightarrow> nat \<Rightarrow> 'k::linorder"
    and probe :: "'d \<Rightarrow> 'k \<Rightarrow> nat \<Rightarrow> ordering res"
  assumes probe_cmp: "valid d \<Longrightarrow> i < size_of d \<Longrightarrow> probe d k i = Inr (cmp (key_at d i) k)"
    and keys_mono: "valid d \<Longrightarrow> i < j \<Longrightarrow> j < size_of d \<Longrightarrow> key_at d i \<le> key_at d j"
begin

lemma bsearch_stops:
  assumes "valid d" "lo \<le> hi" "hi \<le> size_of d"
    and "\<forall>i < lo. key_at d i < k" "\<forall>i. hi \<le> i \<and> i < size_of d \<longrightarrow> k < key_at d i"
  shows "(\<exists>p < size_of d. bsearch (probe d k) lo hi = Inr (p, True) \<and> key_at d p = k)
    \<or> (\<exists>p \<le> size_of d. bsearch (probe d k) lo hi = Inr (p, False)
        \<and> (\<forall>i < p. key_at d i < k) \<and> (\<forall>i. p \<le> i \<and> i < size_of d \<longrightarrow> k < key_at d i))"
  using assms(2-)
proof (induction "hi - lo" arbitrary: lo hi rule: less_induct)
  case less
  show ?case
  proof (cases "lo < hi")
    case False
    then have "bsearch (probe d k) lo hi = Inr (lo, False)" by (simp add: bsearch.simps [of _ lo hi])
    with False less.prems show ?thesis by (intro disjI2 exI [of _ lo]) auto
  next
    case True
    define mid where "mid = lo + (hi - lo) div 2"
    have mid: "lo \<le> mid" "mid < hi" "mid < size_of d"
      using True less.prems unfolding mid_def by simp_all
    have step: "bsearch (probe d k) lo hi = (case cmp (key_at d mid) k of
        Less \<Rightarrow> bsearch (probe d k) (mid + 1) hi
      | Greater \<Rightarrow> bsearch (probe d k) lo mid
      | Equal \<Rightarrow> Inr (mid, True))"
      using True probe_cmp [OF assms(1) mid(3)]
      by (subst bsearch.simps) (auto simp: Let_def simp flip: mid_def split: ordering.split)
    show ?thesis
    proof (cases "cmp (key_at d mid) k")
      case Less
      have "\<forall>i < mid + 1. key_at d i < k"
      proof (intro allI impI)
        fix i assume "i < mid + 1"
        then have "key_at d i \<le> key_at d mid"
          using keys_mono [OF assms(1) _ mid(3), of i] by (cases "i = mid") auto
        with Less show "key_at d i < k" by simp
      qed
      moreover have "bsearch (probe d k) lo hi = bsearch (probe d k) (mid + 1) hi"
        using step Less by (simp only: ordering.case)
      ultimately show ?thesis
        using less.hyps [of hi "mid + 1"] less.prems mid by simp
    next
      case Equal
      then have "bsearch (probe d k) lo hi = Inr (mid, True)"
        using step by (simp only: ordering.case)
      with Equal mid show ?thesis by auto
    next
      case Greater
      then have next_lo: "bsearch (probe d k) lo hi = bsearch (probe d k) lo mid"
        using step by (simp only: ordering.case)
      have "\<forall>i. mid \<le> i \<and> i < size_of d \<longrightarrow> k < key_at d i"
      proof (intro allI impI)
        fix i assume i: "mid \<le> i \<and> i < size_of d"
        then have "key_at d mid \<le> key_at d i"
          using keys_mono [OF assms(1), of mid i] by (cases "mid = i") auto
        with Greater show "k < key_at d i" by simp
      qed
      with next_lo less.hyps [of mid lo] less.prems mid show ?thesis by simp
    qed
  qed
qed

text \<open>The search over the whole directory: found exactly when the key is there.\<close>

lemma search_found:
  assumes "valid d" "i < size_of d" "key_at d i = k"
  shows "\<exists>p < size_of d. bsearch (probe d k) 0 (size_of d) = Inr (p, True) \<and> key_at d p = k"
proof -
  have "\<forall>i. size_of d \<le> i \<and> i < size_of d \<longrightarrow> k < key_at d i" by auto
  with bsearch_stops [OF assms(1), of 0 "size_of d" k]
  consider "\<exists>p < size_of d. bsearch (probe d k) 0 (size_of d) = Inr (p, True) \<and> key_at d p = k"
    | p where "\<forall>i < p. key_at d i < k" "\<forall>i. p \<le> i \<and> i < size_of d \<longrightarrow> k < key_at d i"
    by auto
  then show ?thesis
    using assms(2,3) by cases (auto, metis less_irrefl linorder_not_le)
qed

lemma search_not_found:
  assumes "valid d" "\<And>i. i < size_of d \<Longrightarrow> key_at d i \<noteq> k"
  shows "\<exists>p \<le> size_of d. bsearch (probe d k) 0 (size_of d) = Inr (p, False)
    \<and> (\<forall>i < p. key_at d i < k) \<and> (\<forall>i. p \<le> i \<and> i < size_of d \<longrightarrow> k < key_at d i)"
proof -
  have "\<forall>i. size_of d \<le> i \<and> i < size_of d \<longrightarrow> k < key_at d i" by auto
  with bsearch_stops [OF assms(1), of 0 "size_of d" k] assms(2) show ?thesis
    by auto
qed

end

locale strict_directory = ordered_directory +
  assumes keys_strict: "valid d \<Longrightarrow> i < j \<Longrightarrow> j < size_of d \<Longrightarrow> key_at d i < key_at d j"
begin

lemma key_at_inj: "valid d \<Longrightarrow> i < size_of d \<Longrightarrow> j < size_of d \<Longrightarrow> key_at d i = key_at d j \<Longrightarrow> i = j"
  by (metis keys_strict less_irrefl linorder_neqE_nat)

lemma search_at:
  assumes "valid d" "i < size_of d"
  shows "bsearch (probe d (key_at d i)) 0 (size_of d) = Inr (i, True)"
  using search_found [OF assms(1,2) refl] key_at_inj [OF assms(1) _ assms(2)] by auto

end

end
