(* ===== verification/Row_Codec.thy ===== *)
theory Row_Codec
  imports Values Search "HOL-Library.Multiset"
begin

text \<open>
  \<^verbatim>\<open>src/row.rs\<close>: the binary row format (rowid, column count, offset directory sorted by
  column id, column data), its encoder and decoders, the single-column lookups by binary search on
  the directory, and the in-place patching of one or several columns. The lemmas give the layout of
  an encoded row, the round trips, the agreement of every lookup with the decoded columns, and the
  agreement of a patch with re-encoding.
\<close>

section \<open>Values\<close>

fun encode_value :: "bytes \<Rightarrow> db_value \<Rightarrow> bytes" where
  "encode_value buf Null = buf @ [0]"
| "encode_value buf (Text s) = buf @ [1] @ u32_to_le (as_u32 (length s)) @ s"
| "encode_value buf (Integer i) = buf @ [2] @ u64_to_le i"
| "encode_value buf (Real f) = buf @ [3] @ u64_to_le f"
| "encode_value buf (Blob b) = buf @ [4] @ u32_to_le (as_u32 (length b)) @ b"
| "encode_value buf (Boolean b) = buf @ [5] @ [if b then 1 else 0]"

definition encode_value_to_vec :: "db_value \<Rightarrow> bytes" where
  "encode_value_to_vec v = encode_value [] v"

definition ensure_bytes :: "bytes \<Rightarrow> nat \<Rightarrow> nat \<Rightarrow> unit res" where
  "ensure_bytes data off need = ensure (off + need \<le> length data) (Corruption ''truncated'')"

definition u16_at :: "bytes \<Rightarrow> nat \<Rightarrow> u16 res" where
  "u16_at d i = res_bind (slice d i (i + 2)) (\<lambda>b. Inr (u16_from_le b))"

definition u32_at :: "bytes \<Rightarrow> nat \<Rightarrow> u32 res" where
  "u32_at d i = res_bind (slice d i (i + 4)) (\<lambda>b. Inr (u32_from_le b))"

definition u64_at :: "bytes \<Rightarrow> nat \<Rightarrow> u64 res" where
  "u64_at d i = res_bind (slice d i (i + 8)) (\<lambda>b. Inr (u64_from_le b))"

definition decode_text :: "bytes \<Rightarrow> (db_value \<times> nat) res" where
  "decode_text data =
     res_bind (ensure_bytes data 1 4) (\<lambda>_.
     res_bind (u32_at data 1) (\<lambda>l. let len = unat l in
     res_bind (ensure_bytes data 5 len) (\<lambda>_.
     res_bind (slice data 5 (5 + len)) (\<lambda>s.
     if utf8_valid s then Inr (Text s, 5 + len)
     else Inl (Fail (Corruption ''invalid utf8''))))))"

definition decode_blob :: "bytes \<Rightarrow> (db_value \<times> nat) res" where
  "decode_blob data =
     res_bind (ensure_bytes data 1 4) (\<lambda>_.
     res_bind (u32_at data 1) (\<lambda>l. let len = unat l in
     res_bind (ensure_bytes data 5 len) (\<lambda>_.
     res_bind (slice data 5 (5 + len)) (\<lambda>b. Inr (Blob b, 5 + len)))))"

definition decode_value :: "bytes \<Rightarrow> (db_value \<times> nat) res" where
  "decode_value data =
     res_bind (ensure_bytes data 0 1) (\<lambda>_.
     res_bind (byte_at data 0) (\<lambda>tag.
     if tag = 0 then Inr (Null, 1)
     else if tag = 1 then decode_text data
     else if tag = 2 then
       res_bind (ensure_bytes data 1 8) (\<lambda>_. res_bind (u64_at data 1) (\<lambda>i. Inr (Integer i, 9)))
     else if tag = 3 then
       res_bind (ensure_bytes data 1 8) (\<lambda>_. res_bind (u64_at data 1) (\<lambda>f. Inr (Real f, 9)))
     else if tag = 4 then decode_blob data
     else if tag = 5 then
       res_bind (ensure_bytes data 1 1) (\<lambda>_.
       res_bind (byte_at data 1) (\<lambda>b. Inr (Boolean (b \<noteq> 0), 2)))
     else Inl (Fail (Corruption ''unknown type tag''))))"

section \<open>Rows\<close>

type_synonym columns = "(u16 \<times> db_value) list"

fun encode_columns :: "columns \<Rightarrow> bytes \<Rightarrow> (u16 \<times> u16) list \<Rightarrow> bytes \<times> (u16 \<times> u16) list" where
  "encode_columns [] col_data offsets = (col_data, offsets)"
| "encode_columns ((col_id, val) # rest) col_data offsets =
     encode_columns rest (encode_value col_data val)
       (offsets @ [(col_id, as_u16 (length col_data))])"

definition encode_dir :: "(u16 \<times> u16) list \<Rightarrow> bytes" where
  "encode_dir offsets = concat (map (\<lambda>(c, o'). u16_to_le c @ u16_to_le o') offsets)"

definition encode_row :: "u64 \<Rightarrow> columns \<Rightarrow> bytes" where
  "encode_row rowid columns =
     (let sorted = sort_key fst columns;
          (col_data, offsets) = encode_columns sorted [] []
      in u64_to_le rowid @ u16_to_le (as_u16 (length columns)) @ encode_dir offsets @ col_data)"

record decoded_row =
  dr_id :: u64
  dr_columns :: columns

definition decode_column :: "bytes \<Rightarrow> nat \<Rightarrow> nat \<Rightarrow> nat \<Rightarrow> (u16 \<times> db_value) res" where
  "decode_column data dir_start col_data_start i =
     (let entry = dir_start + i * 4 in
      res_bind (u16_at data entry) (\<lambda>col_id.
      res_bind (u16_at data (entry + 2)) (\<lambda>off.
      res_bind (slice data (col_data_start + unat off) (length data)) (\<lambda>rest.
      res_bind (decode_value rest) (\<lambda>(v, _). Inr (col_id, v))))))"

definition decode_row :: "bytes \<Rightarrow> decoded_row res" where
  "decode_row data =
     res_bind (ensure_bytes data 0 8) (\<lambda>_.
     res_bind (u64_at data 0) (\<lambda>id.
     res_bind (ensure_bytes data 8 2) (\<lambda>_.
     res_bind (u16_at data 8) (\<lambda>n. let num_cols = unat n in
     res_bind (ensure_bytes data 10 (num_cols * 4)) (\<lambda>_.
     res_bind (res_map (decode_column data 10 (10 + num_cols * 4)) [0..<num_cols]) (\<lambda>cols.
     Inr \<lparr>dr_id = id, dr_columns = cols\<rparr>))))))"

definition extract_id :: "bytes \<Rightarrow> u64 res" where
  "extract_id data = res_bind (ensure_bytes data 0 8) (\<lambda>_. u64_at data 0)"

text \<open>
  The comparison of one directory entry with the wanted column, with and without the length check
  that the extractors make and \<^verbatim>\<open>patch_row\<close> does not.
\<close>

definition dir_probe :: "bytes \<Rightarrow> u16 \<Rightarrow> nat \<Rightarrow> ordering res" where
  "dir_probe data target i = res_bind (u16_at data (10 + i * 4)) (\<lambda>c. Inr (cmp c target))"

definition dir_probe_checked :: "bytes \<Rightarrow> u16 \<Rightarrow> nat \<Rightarrow> ordering res" where
  "dir_probe_checked data target i =
     res_bind (ensure_bytes data (10 + i * 4) 4) (\<lambda>_. dir_probe data target i)"

definition value_start :: "bytes \<Rightarrow> nat \<Rightarrow> nat \<Rightarrow> nat res" where
  "value_start data num_cols i =
     res_bind (u16_at data (10 + i * 4 + 2)) (\<lambda>off. Inr (10 + num_cols * 4 + unat off))"

definition value_end :: "bytes \<Rightarrow> nat \<Rightarrow> nat \<Rightarrow> nat res" where
  "value_end data num_cols i =
     (if i + 1 < num_cols then value_start data num_cols (i + 1) else Inr (length data))"

definition extract_column_raw :: "bytes \<Rightarrow> u16 \<Rightarrow> bytes option res" where
  "extract_column_raw data target =
     res_bind (ensure_bytes data 0 8) (\<lambda>_.
     res_bind (ensure_bytes data 8 2) (\<lambda>_.
     res_bind (u16_at data 8) (\<lambda>n. let num_cols = unat n in
     if num_cols = 0 then Inr None
     else res_bind (bsearch (dir_probe_checked data target) 0 num_cols) (\<lambda>(mid, found).
     if found then
       res_bind (value_start data num_cols mid) (\<lambda>s.
       res_bind (value_end data num_cols mid) (\<lambda>e.
       res_bind (slice data s e) (\<lambda>raw. Inr (Some raw))))
     else Inr None))))"

definition extract_column :: "bytes \<Rightarrow> u16 \<Rightarrow> db_value option res" where
  "extract_column data target =
     res_bind (ensure_bytes data 0 8) (\<lambda>_.
     res_bind (ensure_bytes data 8 2) (\<lambda>_.
     res_bind (u16_at data 8) (\<lambda>n. let num_cols = unat n in
     if num_cols = 0 then Inr None
     else res_bind (bsearch (dir_probe_checked data target) 0 num_cols) (\<lambda>(mid, found).
     if found then
       res_bind (value_start data num_cols mid) (\<lambda>s.
       res_bind (slice data s (length data)) (\<lambda>rest.
       res_bind (decode_value rest) (\<lambda>(v, _). Inr (Some v))))
     else Inr None))))"

section \<open>Patching\<close>

text \<open>
  One directory entry after the changed column: its offset moves by the size difference, computed
  in \<^verbatim>\<open>i32\<close> (an \<^verbatim>\<open>isize\<close> cast to \<^verbatim>\<open>i32\<close> keeps the low 32 bits; the addition
  panics on overflow).
\<close>

definition shift_offset :: "int \<Rightarrow> nat \<Rightarrow> bytes \<Rightarrow> bytes res" where
  "shift_offset size_diff i result =
     (let e = 10 + i * 4; d = sint (word_of_int size_diff :: 32 word) in
      res_bind (u16_at result (e + 2)) (\<lambda>old_off.
      let new_off = uint old_off + d in
      if 2147483647 < new_off then Inl Panicked
      else if new_off < 0 \<or> 65535 < new_off
        then Inl (Fail (Corruption ''row offset overflow during patch''))
      else copy_at result (e + 2) (u16_to_le (word_of_int new_off))))"

definition patch_row :: "bytes \<Rightarrow> u16 \<Rightarrow> db_value \<Rightarrow> bytes res" where
  "patch_row data target new_val =
     res_bind (ensure_bytes data 0 10) (\<lambda>_.
     res_bind (u16_at data 8) (\<lambda>n. let num_cols = unat n in
     if num_cols = 0 then Inr data
     else res_bind (bsearch (dir_probe data target) 0 num_cols) (\<lambda>(col_idx, found).
     if \<not> found then Inr data
     else
       res_bind (value_start data num_cols col_idx) (\<lambda>old_start.
       res_bind (value_end data num_cols col_idx) (\<lambda>old_end.
       res_bind (must (old_start \<le> old_end)) (\<lambda>_.
       let new_encoded = encode_value_to_vec new_val;
           size_diff = int (length new_encoded) - int (old_end - old_start) in
       if size_diff = 0 then
         res_bind (slice data old_start old_end) (\<lambda>_. copy_at data old_start new_encoded)
       else
         res_bind (slice data 0 old_start) (\<lambda>before.
         res_bind (slice data old_end (length data)) (\<lambda>after.
         res_fold (shift_offset size_diff) [col_idx + 1..<num_cols]
           (before @ new_encoded @ after)))))))))"

fun patch_row_multi :: "bytes \<Rightarrow> columns \<Rightarrow> bytes res" where
  "patch_row_multi result [] = Inr result"
| "patch_row_multi result ((col_id, val) # patches) =
     res_bind (patch_row result col_id val) (\<lambda>r. patch_row_multi r patches)"

section \<open>Values round trip\<close>

text \<open>
  What the format can hold: the 32-bit length prefixes of text and blobs must not wrap.
\<close>

fun value_fits :: "db_value \<Rightarrow> bool" where
  "value_fits (Text s) \<longleftrightarrow> utf8_valid s \<and> length s < 4294967296"
| "value_fits (Blob b) \<longleftrightarrow> length b < 4294967296"
| "value_fits _ = True"

lemma encode_value_append: "encode_value buf v = buf @ encode_value_to_vec v"
  by (cases v) (simp_all add: encode_value_to_vec_def)

lemma encode_value_to_vec_simps [simp]:
  "encode_value_to_vec Null = [0]"
  "encode_value_to_vec (Text s) = 1 # u32_to_le (as_u32 (length s)) @ s"
  "encode_value_to_vec (Integer i) = 2 # u64_to_le i"
  "encode_value_to_vec (Real f) = 3 # u64_to_le f"
  "encode_value_to_vec (Blob b) = 4 # u32_to_le (as_u32 (length b)) @ b"
  "encode_value_to_vec (Boolean c) = [5, if c then 1 else 0]"
  by (simp_all add: encode_value_to_vec_def)

lemma encode_value_nonempty: "0 < length (encode_value_to_vec v)"
  by (cases v) simp_all

lemma u16_at_Inr: "i + 2 \<le> length d \<Longrightarrow> u16_at d i = Inr (u16_from_le (sub_bytes d i (i + 2)))"
  by (simp add: u16_at_def slice_def)

lemma u32_at_Inr: "i + 4 \<le> length d \<Longrightarrow> u32_at d i = Inr (u32_from_le (sub_bytes d i (i + 4)))"
  by (simp add: u32_at_def slice_def)

lemma u64_at_Inr: "i + 8 \<le> length d \<Longrightarrow> u64_at d i = Inr (u64_from_le (sub_bytes d i (i + 8)))"
  by (simp add: u64_at_def slice_def)

lemma ensure_bytes_ok [simp]: "off + need \<le> length d \<Longrightarrow> ensure_bytes d off need = Inr ()"
  by (simp add: ensure_bytes_def)

lemma sub_bytes_Cons_shift: "0 < s \<Longrightarrow> sub_bytes (x # d) s e = sub_bytes d (s - 1) (e - 1)"
  by (cases s; cases e) (simp_all add: sub_bytes_def)

text \<open>Reading at a position where a codec wrote, inside a longer byte string.\<close>

lemma u16_at_middle: "i = length a \<Longrightarrow> u16_at (a @ u16_to_le v @ r) i = Inr v"
  by (simp add: u16_at_Inr u16_le.read_middle)

lemma u32_at_middle: "i = length a \<Longrightarrow> u32_at (a @ u32_to_le v @ r) i = Inr v"
  by (simp add: u32_at_Inr u32_le.read_middle)

lemma u64_at_middle: "i = length a \<Longrightarrow> u64_at (a @ u64_to_le v @ r) i = Inr v"
  by (simp add: u64_at_Inr u64_le.read_middle)

lemma decode_encode_value:
  assumes "value_fits v"
  shows "decode_value (encode_value_to_vec v @ r) = Inr (v, length (encode_value_to_vec v))"
proof (cases v)
  case (Text s)
  let ?d = "1 # u32_to_le (as_u32 (length s)) @ s @ r"
  have "u32_at ?d 1 = Inr (as_u32 (length s))"
    using u32_at_middle [of 1 "[1]" "as_u32 (length s)" "s @ r"] by simp
  moreover have "slice ?d 5 (5 + length s) = Inr s"
    using sub_bytes_middle [of 5 "1 # u32_to_le (as_u32 (length s))" "5 + length s" s r]
    by (simp add: slice_def)
  ultimately show ?thesis
    using assms Text by (simp add: decode_value_def decode_text_def byte_at_def Let_def)
next
  case (Blob b)
  let ?d = "4 # u32_to_le (as_u32 (length b)) @ b @ r"
  have "u32_at ?d 1 = Inr (as_u32 (length b))"
    using u32_at_middle [of 1 "[4]" "as_u32 (length b)" "b @ r"] by simp
  moreover have "slice ?d 5 (5 + length b) = Inr b"
    using sub_bytes_middle [of 5 "4 # u32_to_le (as_u32 (length b))" "5 + length b" b r]
    by (simp add: slice_def)
  ultimately show ?thesis
    using assms Blob by (simp add: decode_value_def decode_blob_def byte_at_def Let_def)
next
  case (Integer i)
  then show ?thesis
    using u64_at_middle [of 1 "[2]" i r] by (simp add: decode_value_def byte_at_def)
next
  case (Real f)
  then show ?thesis
    using u64_at_middle [of 1 "[3]" f r] by (simp add: decode_value_def byte_at_def)
qed (simp_all add: decode_value_def byte_at_def)

section \<open>The layout of an encoded row\<close>

definition col_blocks :: "columns \<Rightarrow> bytes list" where
  "col_blocks cs = map (\<lambda>(_, v). encode_value_to_vec v) cs"

text \<open>Where the data of column \<open>i\<close> starts, before truncation to 16 bits.\<close>

definition col_offset :: "columns \<Rightarrow> nat \<Rightarrow> nat" where
  "col_offset cs i = length (concat (take i (col_blocks cs)))"

definition dir_of :: "columns \<Rightarrow> (u16 \<times> u16) list" where
  "dir_of cs = map (\<lambda>i. (fst (cs ! i), as_u16 (col_offset cs i))) [0..<length cs]"

definition row_image :: "u64 \<Rightarrow> columns \<Rightarrow> bytes" where
  "row_image rowid cs =
     u64_to_le rowid @ u16_to_le (as_u16 (length cs)) @ encode_dir (dir_of cs)
       @ concat (col_blocks cs)"

lemma col_blocks_simps [simp]:
  "col_blocks [] = []" "col_blocks ((c, v) # cs) = encode_value_to_vec v # col_blocks cs"
  "length (col_blocks cs) = length cs"
  by (simp_all add: col_blocks_def)

lemma nth_col_blocks: "i < length cs \<Longrightarrow> col_blocks cs ! i = encode_value_to_vec (snd (cs ! i))"
  by (simp add: col_blocks_def case_prod_unfold)

lemma col_offset_0 [simp]: "col_offset cs 0 = 0"
  by (simp add: col_offset_def)

lemma col_offset_all: "col_offset cs (length cs) = length (concat (col_blocks cs))"
  by (simp add: col_offset_def)

lemma col_offset_Suc:
  "i < length cs \<Longrightarrow>
     col_offset cs (Suc i) = col_offset cs i + length (encode_value_to_vec (snd (cs ! i)))"
  by (simp add: col_offset_def length_concat_take_Suc nth_col_blocks)

lemma col_offset_le: "col_offset cs i \<le> length (concat (col_blocks cs))"
  by (simp add: col_offset_def length_concat_take_le)

lemma col_offset_mono: "i \<le> j \<Longrightarrow> col_offset cs i \<le> col_offset cs j"
  by (simp add: col_offset_def length_concat_take_mono)

lemma length_dir_of [simp]: "length (dir_of cs) = length cs"
  by (simp add: dir_of_def)

lemma length_encode_dir [simp, layout]: "length (encode_dir os) = 4 * length os"
  by (induction os) (auto simp: encode_dir_def)

lemma encode_columns_eq:
  "encode_columns cs d os =
     (d @ concat (col_blocks cs),
      os @ map (\<lambda>i. (fst (cs ! i), as_u16 (length d + col_offset cs i))) [0..<length cs])"
proof (induction cs arbitrary: d os)
  case (Cons p cs)
  obtain c v where p: "p = (c, v)" by (cases p)
  have "[0..<length (p # cs)] = 0 # map Suc [0..<length cs]"
    by (simp add: upt_conv_Cons map_Suc_upt del: upt_Suc)
  then show ?case
    using p by (simp add: Cons.IH encode_value_append col_offset_def add.assoc del: upt_Suc)
qed simp

lemma encode_row_image: "encode_row rowid cols = row_image rowid (sort_key fst cols)"
  by (simp add: encode_row_def encode_columns_eq row_image_def dir_of_def Let_def)

text \<open>A directory entry is read back whatever bytes follow the directory.\<close>

definition dir_image :: "u64 \<Rightarrow> (u16 \<times> u16) list \<Rightarrow> bytes \<Rightarrow> bytes" where
  "dir_image rowid os rest =
     u64_to_le rowid @ u16_to_le (as_u16 (length os)) @ encode_dir os @ rest"

lemma row_image_dir: "row_image rowid cs = dir_image rowid (dir_of cs) (concat (col_blocks cs))"
  by (simp add: row_image_def dir_image_def)

lemma length_dir_image [simp, layout]:
  "length (dir_image rowid os rest) = 10 + 4 * length os + length rest"
  by (simp add: dir_image_def)

lemma encode_dir_split:
  "i < length os \<Longrightarrow> encode_dir os =
     encode_dir (take i os) @ u16_to_le (fst (os ! i)) @ u16_to_le (snd (os ! i))
       @ encode_dir (drop (Suc i) os)"
  by (subst id_take_nth_drop [of i os]) (auto simp: encode_dir_def case_prod_unfold)

lemma dir_image_id: "u64_at (dir_image rowid os rest) 0 = Inr rowid"
  using u64_at_middle [of 0 "[]" rowid] by (simp add: dir_image_def)

lemma dir_image_count: "u16_at (dir_image rowid os rest) 8 = Inr (as_u16 (length os))"
  using u16_at_middle [of 8 "u64_to_le rowid"] by (simp add: dir_image_def)

lemma dir_image_col:
  assumes "i < length os"
  shows "u16_at (dir_image rowid os rest) (10 + i * 4) = Inr (fst (os ! i))"
proof -
  have "10 + i * 4 = length (u64_to_le rowid @ u16_to_le (as_u16 (length os)) @ encode_dir (take i os))"
    using assms by simp
  from u16_at_middle [OF this, of "fst (os ! i)"] show ?thesis
    using assms by (simp add: dir_image_def encode_dir_split [of i os])
qed

lemma dir_image_off:
  assumes "i < length os"
  shows "u16_at (dir_image rowid os rest) (10 + i * 4 + 2) = Inr (snd (os ! i))"
proof -
  have "10 + i * 4 + 2 = length (u64_to_le rowid @ u16_to_le (as_u16 (length os))
      @ encode_dir (take i os) @ u16_to_le (fst (os ! i)))"
    using assms by simp
  from u16_at_middle [OF this, of "snd (os ! i)"] show ?thesis
    using assms by (simp add: dir_image_def encode_dir_split [of i os])
qed

section \<open>Decoding what was encoded\<close>

text \<open>
  Rows the format represents: fewer than 65536 columns, every column data offset within 16 bits,
  every value within its length prefix. The last column may be of any size.
\<close>

definition row_fits :: "columns \<Rightarrow> bool" where
  "row_fits cs \<longleftrightarrow> length cs < 65536 \<and> (\<forall>i < length cs. col_offset cs i < 65536)
     \<and> (\<forall>p \<in> set cs. value_fits (snd p))"

lemma row_fitsD:
  assumes "row_fits cs"
  shows "length cs < 65536" "i < length cs \<Longrightarrow> col_offset cs i < 65536"
    "i < length cs \<Longrightarrow> value_fits (snd (cs ! i))"
  using assms by (simp_all add: row_fits_def)

lemma length_row_image:
  "length (row_image rowid cs) = 10 + 4 * length cs + length (concat (col_blocks cs))"
  by (simp add: row_image_dir)

lemma row_image_ensure: "off + need \<le> 10 \<Longrightarrow> ensure_bytes (row_image rowid cs) off need = Inr ()"
  by (simp add: length_row_image)

lemma row_image_count: "row_fits cs \<Longrightarrow> u16_at (row_image rowid cs) 8 = Inr (as_u16 (length cs))"
  by (simp add: row_image_dir dir_image_count)

lemma row_image_id: "u64_at (row_image rowid cs) 0 = Inr rowid"
  by (simp add: row_image_dir dir_image_id)

lemma row_image_col: "i < length cs \<Longrightarrow> u16_at (row_image rowid cs) (10 + i * 4) = Inr (fst (cs ! i))"
  using dir_image_col [of i "dir_of cs"] by (simp add: row_image_dir dir_of_def)

lemma row_image_off:
  "i < length cs \<Longrightarrow> u16_at (row_image rowid cs) (10 + i * 4 + 2) = Inr (as_u16 (col_offset cs i))"
  using dir_image_off [of i "dir_of cs"] by (simp add: row_image_dir dir_of_def)

lemma value_start_image:
  "row_fits cs \<Longrightarrow> i < length cs \<Longrightarrow>
     value_start (row_image rowid cs) (length cs) i = Inr (10 + length cs * 4 + col_offset cs i)"
  using row_fitsD(2) [of cs i] by (simp add: value_start_def row_image_off [simplified])

lemma value_end_image:
  assumes "row_fits cs" "i < length cs"
  shows "value_end (row_image rowid cs) (length cs) i = Inr (10 + length cs * 4 + col_offset cs (Suc i))"
proof (cases "i + 1 < length cs")
  case True
  with assms show ?thesis by (simp add: value_end_def value_start_image)
next
  case False
  with assms have "Suc i = length cs" by simp
  then show ?thesis by (simp add: value_end_def length_row_image col_offset_all)
qed

lemma row_image_data:
  "sub_bytes (row_image rowid cs) (10 + length cs * 4 + s) (10 + length cs * 4 + e) =
     sub_bytes (concat (col_blocks cs)) s e"
proof -
  let ?hd = "u64_to_le rowid @ u16_to_le (as_u16 (length cs)) @ encode_dir (dir_of cs)"
  have "length ?hd = 10 + length cs * 4" by simp
  then show ?thesis
    using sub_bytes_append_right [of ?hd "10 + length cs * 4 + s" "concat (col_blocks cs)"]
    by (simp add: row_image_def)
qed

lemma slice_value:
  assumes "i < length cs"
  shows "slice (row_image rowid cs) (10 + length cs * 4 + col_offset cs i)
    (10 + length cs * 4 + col_offset cs (Suc i)) = Inr (encode_value_to_vec (snd (cs ! i)))"
proof -
  have "sub_bytes (concat (col_blocks cs)) (col_offset cs i) (col_offset cs (Suc i)) = col_blocks cs ! i"
    by (rule sub_bytes_concat) (use assms in \<open>simp_all add: col_offset_def length_concat_take_Suc\<close>)
  moreover have "col_offset cs (Suc i) \<le> length (concat (col_blocks cs))"
    by (rule col_offset_le)
  ultimately show ?thesis
    using assms by (simp add: slice_def row_image_data nth_col_blocks length_row_image col_offset_mono)
qed

lemma slice_value_rest:
  assumes "i < length cs"
  shows "slice (row_image rowid cs) (10 + length cs * 4 + col_offset cs i) (length (row_image rowid cs))
    = Inr (encode_value_to_vec (snd (cs ! i)) @ concat (drop (Suc i) (col_blocks cs)))"
proof -
  let ?d = "concat (col_blocks cs)"
  have "sub_bytes ?d (col_offset cs i) (length ?d) = concat (drop i (col_blocks cs))"
    by (simp add: sub_bytes_to_end col_offset_def drop_concat_take)
  also have "\<dots> = encode_value_to_vec (snd (cs ! i)) @ concat (drop (Suc i) (col_blocks cs))"
    using assms by (simp add: Cons_nth_drop_Suc [symmetric] nth_col_blocks)
  finally show ?thesis
    using assms col_offset_le [of cs i] row_image_data [of rowid cs "col_offset cs i" "length ?d"]
    by (simp add: slice_def length_row_image add.commute add.left_commute mult.commute)
qed

lemma decode_column_image:
  assumes "row_fits cs" "i < length cs"
  shows "decode_column (row_image rowid cs) 10 (10 + length cs * 4) i = Inr (cs ! i)"
  using assms row_fitsD(2,3) [OF assms(1), of i]
  by (simp add: decode_column_def Let_def row_image_col row_image_off [simplified] slice_value_rest
      decode_encode_value)

lemma decode_row_image:
  assumes "row_fits cs"
  shows "decode_row (row_image rowid cs) = Inr \<lparr>dr_id = rowid, dr_columns = cs\<rparr>"
proof -
  have "res_map (decode_column (row_image rowid cs) 10 (10 + length cs * 4)) [0..<length cs]
    = Inr (map (\<lambda>i. cs ! i) [0..<length cs])"
    using assms by (intro res_map_Inr) (simp add: decode_column_image)
  then show ?thesis
    using assms row_fitsD(1) [OF assms]
    by (simp add: decode_row_def row_image_id row_image_count length_row_image map_nth)
qed

section \<open>Single-column lookups\<close>

definition row_dir_valid :: "u64 \<times> columns \<Rightarrow> bool" where
  "row_dir_valid d \<longleftrightarrow> row_fits (snd d) \<and> sorted_wrt (<) (map fst (snd d))"

definition row_dir_key :: "u64 \<times> columns \<Rightarrow> nat \<Rightarrow> u16" where
  "row_dir_key d i = fst (snd d ! i)"

lemma dir_probe_image:
  "i < length cs \<Longrightarrow> dir_probe (row_image rowid cs) k i = Inr (cmp (fst (cs ! i)) k)"
  by (simp add: dir_probe_def row_image_col)

lemma dir_probe_checked_image:
  "i < length cs \<Longrightarrow> dir_probe_checked (row_image rowid cs) k i = Inr (cmp (fst (cs ! i)) k)"
  by (simp add: dir_probe_checked_def dir_probe_image length_row_image)

interpretation row_dir: strict_directory row_dir_valid "\<lambda>d. length (snd d)" row_dir_key
    "\<lambda>d. dir_probe_checked (row_image (fst d) (snd d))"
  by unfold_locales
    (auto simp: row_dir_valid_def row_dir_key_def dir_probe_checked_image sorted_wrt_iff_nth_less
      intro: less_imp_le)

interpretation patch_dir: strict_directory row_dir_valid "\<lambda>d. length (snd d)" row_dir_key
    "\<lambda>d. dir_probe (row_image (fst d) (snd d))"
  by unfold_locales
    (auto simp: row_dir_valid_def row_dir_key_def dir_probe_image sorted_wrt_iff_nth_less
      intro: less_imp_le)

lemma extract_column_at:
  assumes "row_dir_valid (rowid, cs)" "i < length cs"
  shows "extract_column (row_image rowid cs) (fst (cs ! i)) = Inr (Some (snd (cs ! i)))"
    and "extract_column_raw (row_image rowid cs) (fst (cs ! i)) =
      Inr (Some (encode_value_to_vec (snd (cs ! i))))"
proof -
  have fits: "row_fits cs" using assms by (simp add: row_dir_valid_def)
  have s: "bsearch (dir_probe_checked (row_image rowid cs) (fst (cs ! i))) 0 (length cs) = Inr (i, True)"
    using row_dir.search_at [OF assms(1)] assms(2) by (simp add: row_dir_key_def)
  note facts = s row_image_count [OF fits] row_fitsD(1,3) [OF fits] row_image_ensure Let_def
    value_start_image [OF fits] value_end_image [OF fits] slice_value slice_value_rest
    decode_encode_value
  show "extract_column (row_image rowid cs) (fst (cs ! i)) = Inr (Some (snd (cs ! i)))"
    using assms(2) by (simp add: extract_column_def facts del: length_0_conv)
  show "extract_column_raw (row_image rowid cs) (fst (cs ! i)) =
      Inr (Some (encode_value_to_vec (snd (cs ! i))))"
    using assms(2) by (simp add: extract_column_raw_def facts del: length_0_conv)
qed

lemma extract_column_absent:
  assumes "row_dir_valid (rowid, cs)" "c \<notin> fst ` set cs"
  shows "extract_column (row_image rowid cs) c = Inr None"
    and "extract_column_raw (row_image rowid cs) c = Inr None"
proof -
  have fits: "row_fits cs" using assms by (simp add: row_dir_valid_def)
  have "\<And>i. i < length (snd (rowid, cs)) \<Longrightarrow> row_dir_key (rowid, cs) i \<noteq> c"
    using assms(2) by (force simp: row_dir_key_def)
  from row_dir.search_not_found [OF assms(1) this]
  obtain p where "bsearch (dir_probe_checked (row_image rowid cs) c) 0 (length cs) = Inr (p, False)"
    by auto
  then show "extract_column (row_image rowid cs) c = Inr None"
    and "extract_column_raw (row_image rowid cs) c = Inr None"
    using row_image_count [OF fits] row_fitsD(1) [OF fits]
    by (simp_all add: extract_column_def extract_column_raw_def length_row_image Let_def)
qed

section \<open>Patching agrees with re-encoding\<close>

lemma length_concat_update:
  "k < length bs \<Longrightarrow> length (concat (bs[k := y])) + length (bs ! k) = length (concat bs) + length y"
proof (induction bs arbitrary: k)
  case (Cons b bs)
  then show ?case by (cases k) auto
qed simp

lemma col_blocks_update:
  "k < length cs \<Longrightarrow> col_blocks (cs[k := (c, v)]) = (col_blocks cs)[k := encode_value_to_vec v]"
  by (simp add: col_blocks_def map_update)

lemma col_offset_update_before:
  "i \<le> k \<Longrightarrow> k < length cs \<Longrightarrow> col_offset (cs[k := (c, v)]) i = col_offset cs i"
  by (simp add: col_offset_def col_blocks_update)

lemma col_offset_update_after:
  assumes "k < i" "i \<le> length cs"
  shows "col_offset (cs[k := (c, v)]) i + length (encode_value_to_vec (snd (cs ! k)))
    = col_offset cs i + length (encode_value_to_vec v)"
proof -
  have "take i ((col_blocks cs)[k := encode_value_to_vec v]) =
      (take i (col_blocks cs))[k := encode_value_to_vec v]"
    by (simp add: take_update_swap)
  then show ?thesis
    using length_concat_update [of k "take i (col_blocks cs)" "encode_value_to_vec v"] assms
    by (simp add: col_offset_def col_blocks_update nth_col_blocks)
qed

lemma blit_middle: "length y = length x \<Longrightarrow> n = length a \<Longrightarrow> blit (a @ x @ b) n y = a @ y @ b"
  by (simp add: blit_def)

lemma dir_image_set_offset:
  assumes "i < length os"
  shows "copy_at (dir_image rowid os rest) (10 + i * 4 + 2) (u16_to_le w) =
    Inr (dir_image rowid (os[i := (fst (os ! i), w)]) rest)"
proof -
  let ?hd = "u64_to_le rowid @ u16_to_le (as_u16 (length os)) @ encode_dir (take i os)
    @ u16_to_le (fst (os ! i))"
  let ?tl = "encode_dir (drop (Suc i) os) @ rest"
  have n: "10 + i * 4 + 2 = length ?hd" using assms by simp
  have "dir_image rowid os rest = ?hd @ u16_to_le (snd (os ! i)) @ ?tl"
    using assms by (simp add: dir_image_def encode_dir_split [of i os])
  then have "blit (dir_image rowid os rest) (10 + i * 4 + 2) (u16_to_le w) = ?hd @ u16_to_le w @ ?tl"
    using blit_middle [OF _ n, of "u16_to_le w" "u16_to_le (snd (os ! i))" ?tl] by simp
  also have "\<dots> = dir_image rowid (os[i := (fst (os ! i), w)]) rest"
    using assms by (simp add: dir_image_def encode_dir_split [of i "os[i := (fst (os ! i), w)]"])
  finally show ?thesis using assms by (simp add: copy_at_def)
qed

text \<open>The directory while the fix-up loop runs: entries before \<open>j\<close> hold the new offsets.\<close>

definition mixed_dir :: "columns \<Rightarrow> columns \<Rightarrow> nat \<Rightarrow> (u16 \<times> u16) list" where
  "mixed_dir cs cs' j =
     map (\<lambda>i. (fst (cs ! i), as_u16 (col_offset (if i < j then cs' else cs) i))) [0..<length cs]"

lemma length_mixed_dir [simp]: "length (mixed_dir cs cs' j) = length cs"
  by (simp add: mixed_dir_def)

lemma mixed_dir_Suc:
  "j < length cs \<Longrightarrow> (mixed_dir cs cs' j)[j := (fst (cs ! j), as_u16 (col_offset cs' j))]
     = mixed_dir cs cs' (Suc j)"
  by (rule nth_equalityI) (auto simp: mixed_dir_def nth_list_update less_Suc_eq)

lemma shift_offset_step:
  assumes k: "k < j" "j < length cs" and cs': "cs' = cs[k := (fst (cs ! k), v)]"
    and fits: "row_fits cs" "row_fits cs'"
    and small: "length (encode_value_to_vec v) < 2147483648"
      "length (encode_value_to_vec (snd (cs ! k))) < 2147483648"
    and d: "d = int (length (encode_value_to_vec v)) - int (length (encode_value_to_vec (snd (cs ! k))))"
  shows "shift_offset d j (dir_image rowid (mixed_dir cs cs' j) rest)
    = Inr (dir_image rowid (mixed_dir cs cs' (Suc j)) rest)"
proof -
  have sd: "sint (word_of_int d :: 32 word) = d"
    using small unfolding d by (intro sint_of_small) simp_all
  have off: "col_offset cs j < 65536" "col_offset cs' j < 65536"
    using row_fitsD(2) [OF fits(1), of j] row_fitsD(2) [OF fits(2), of j] k cs' by simp_all
  have "int (col_offset cs j) + d = int (col_offset cs' j)"
    using col_offset_update_after [of k j cs "fst (cs ! k)" v] k unfolding d cs' by linarith
  moreover have "uint (as_u16 (col_offset cs j)) = int (col_offset cs j)"
    using off(1) by (simp add: uint_nat)
  ultimately have moved: "uint (as_u16 (col_offset cs j)) + d = int (col_offset cs' j)"
    by simp
  have rd: "u16_at (dir_image rowid (mixed_dir cs cs' j) rest) (10 + j * 4 + 2)
      = Inr (as_u16 (col_offset cs j))"
    using dir_image_off [of j "mixed_dir cs cs' j"] k by (simp add: mixed_dir_def)
  have wr: "copy_at (dir_image rowid (mixed_dir cs cs' j) rest) (10 + j * 4 + 2)
      (u16_to_le (as_u16 (col_offset cs' j))) = Inr (dir_image rowid (mixed_dir cs cs' (Suc j)) rest)"
    using dir_image_set_offset [of j "mixed_dir cs cs' j"] k
    by (simp add: mixed_dir_Suc [symmetric]) (simp add: mixed_dir_def)
  show ?thesis
    unfolding shift_offset_def Let_def rd sd res_bind_Inr moved
    using off(2) wr by simp
qed

lemma shift_offset_loop:
  assumes "k < j" "j \<le> length cs" "cs' = cs[k := (fst (cs ! k), v)]"
    and "row_fits cs" "row_fits cs'"
    and "length (encode_value_to_vec v) < 2147483648"
      "length (encode_value_to_vec (snd (cs ! k))) < 2147483648"
    and "d = int (length (encode_value_to_vec v)) - int (length (encode_value_to_vec (snd (cs ! k))))"
  shows "res_fold (shift_offset d) [j..<length cs] (dir_image rowid (mixed_dir cs cs' j) rest)
    = Inr (dir_image rowid (mixed_dir cs cs' (length cs)) rest)"
  using assms(2,1)
proof (induction j rule: inc_induct)
  case (step j)
  then show ?case
    using shift_offset_step [OF step.prems step.hyps(2) assms(3-)]
    by (simp add: upt_conv_Cons)
qed simp

lemma mixed_dir_start:
  assumes "k < length cs" "cs' = cs[k := (fst (cs ! k), v)]"
  shows "mixed_dir cs cs' (Suc k) = dir_of cs"
  using assms by (intro nth_equalityI) (auto simp: mixed_dir_def dir_of_def col_offset_update_before)

lemma mixed_dir_end:
  assumes "k < length cs" "cs' = cs[k := (fst (cs ! k), v)]"
  shows "mixed_dir cs cs' (length cs) = dir_of cs'"
  using assms by (intro nth_equalityI) (auto simp: mixed_dir_def dir_of_def nth_list_update)

lemma row_image_split:
  assumes "k < length cs"
  shows "\<exists>a b. length a = 10 + length cs * 4 + col_offset cs k
    \<and> row_image rowid cs = a @ encode_value_to_vec (snd (cs ! k)) @ b
    \<and> (\<forall>y. a @ y @ b = dir_image rowid (dir_of cs) (concat ((col_blocks cs)[k := y])))"
proof -
  let ?a = "u64_to_le rowid @ u16_to_le (as_u16 (length cs)) @ encode_dir (dir_of cs)
    @ concat (take k (col_blocks cs))"
  let ?b = "concat (drop (Suc k) (col_blocks cs))"
  have upd: "concat ((col_blocks cs)[k := y]) = concat (take k (col_blocks cs)) @ y @ ?b" for y
    using assms by (simp add: upd_conv_take_nth_drop)
  have "(col_blocks cs)[k := encode_value_to_vec (snd (cs ! k))] = col_blocks cs"
    using assms by (metis col_blocks_simps(3) list_update_id nth_col_blocks)
  with upd [of "encode_value_to_vec (snd (cs ! k))"]
  have "row_image rowid cs = ?a @ encode_value_to_vec (snd (cs ! k)) @ ?b"
    by (simp add: row_image_def)
  moreover have "length ?a = 10 + length cs * 4 + col_offset cs k"
    by (simp add: col_offset_def)
  moreover have "?a @ y @ ?b = dir_image rowid (dir_of cs) (concat ((col_blocks cs)[k := y]))" for y
    by (simp add: upd dir_image_def)
  ultimately show ?thesis by blast
qed

lemma patch_row_image:
  assumes valid: "row_dir_valid (rowid, cs)" and k: "k < length cs"
    and cs': "cs' = cs[k := (fst (cs ! k), v)]" and fits': "row_fits cs'"
    and small: "length (encode_value_to_vec v) < 2147483648"
      "length (encode_value_to_vec (snd (cs ! k))) < 2147483648"
  shows "patch_row (row_image rowid cs) (fst (cs ! k)) v = Inr (row_image rowid cs')"
proof -
  let ?new = "encode_value_to_vec v" and ?old = "encode_value_to_vec (snd (cs ! k))"
  let ?d = "int (length ?new) - int (length ?old)"
  from valid have fits: "row_fits cs" by (simp add: row_dir_valid_def)
  have s: "bsearch (dir_probe (row_image rowid cs) (fst (cs ! k))) 0 (length cs) = Inr (k, True)"
    using patch_dir.search_at [OF valid] k by (simp add: row_dir_key_def)
  obtain a b where a: "length a = 10 + length cs * 4 + col_offset cs k"
    and row: "row_image rowid cs = a @ ?old @ b"
    and put: "\<And>y. a @ y @ b = dir_image rowid (dir_of cs) (concat ((col_blocks cs)[k := y]))"
    using row_image_split [OF k, of rowid] by blast
  have data: "a @ ?new @ b = dir_image rowid (dir_of cs) (concat (col_blocks cs'))"
    using put k cs' by (simp add: col_blocks_update)
  have e: "10 + length cs * 4 + col_offset cs (Suc k) = length a + length ?old"
    using a k by (simp add: col_offset_Suc)
  note ends = value_start_image [OF fits k, of rowid] value_end_image [OF fits k, of rowid]
  have same: "copy_at (a @ ?old @ b) (length a) ?new = Inr (row_image rowid cs')"
    and no_shift: "dir_of cs' = dir_of cs" if "?d = 0"
  proof -
    have "col_offset cs' i = col_offset cs i" if "i \<le> length cs" for i
      using that \<open>?d = 0\<close> col_offset_update_after [of k i cs "fst (cs ! k)" v]
        col_offset_update_before [of i k cs "fst (cs ! k)" v] k cs' by (cases "i \<le> k") auto
    then show "dir_of cs' = dir_of cs"
      using k cs' by (intro nth_equalityI) (auto simp: dir_of_def nth_list_update)
    then show "copy_at (a @ ?old @ b) (length a) ?new = Inr (row_image rowid cs')"
      using data \<open>?d = 0\<close> blit_middle [of ?new ?old "length a" a b]
      by (simp add: copy_at_def row_image_dir)
  qed
  have moved: "res_fold (shift_offset ?d) [k + 1..<length cs] (a @ ?new @ b) = Inr (row_image rowid cs')"
    using shift_offset_loop [of k "Suc k" cs cs' v ?d rowid "concat (col_blocks cs')"]
      k cs' fits fits' small
    by (simp add: data mixed_dir_start [OF k refl] mixed_dir_end [OF k refl] row_image_dir)
  show ?thesis
    using ends s row_fitsD(1) [OF fits] k same moved row_image_count [OF fits, of rowid]
      row_image_ensure [of 0 10 rowid cs]
    unfolding patch_row_def row e a [symmetric]
    by (simp add: row Let_def slice_def sub_bytes_def del: length_0_conv)
qed

section \<open>The codec over unsorted columns\<close>

text \<open>A row a table can store: distinct columns that fit the format.\<close>

definition row_ok :: "columns \<Rightarrow> bool" where
  "row_ok cols \<longleftrightarrow> distinct (map fst cols) \<and> row_fits (sort_key fst cols)"

text \<open>The effect of an assignment on the columns.\<close>

definition set_column :: "u16 \<Rightarrow> db_value \<Rightarrow> columns \<Rightarrow> columns" where
  "set_column c v cols = map (\<lambda>(d, w). (d, if d = c then v else w)) cols"

lemma map_fst_set_column [simp]: "map fst (set_column c v cols) = map fst cols"
  by (simp add: set_column_def case_prod_unfold comp_def)

lemma sort_key_distinct:
  "distinct (map fst cols) \<Longrightarrow> sorted_wrt (<) (map fst (sort_key fst cols))"
  by (simp add: strict_sorted_iff distinct_map)

lemma row_ok_valid: "row_ok cols \<Longrightarrow> row_dir_valid (r, sort_key fst cols)"
  by (simp add: row_ok_def row_dir_valid_def sort_key_distinct)

lemma sort_key_set_column:
  assumes "distinct (map fst cols)"
  shows "sort_key fst (set_column c v cols) = set_column c v (sort_key fst cols)"
proof (rule sort_key_inj_key_eq)
  show "mset (set_column c v cols) = mset (set_column c v (sort_key fst cols))"
    by (simp add: set_column_def mset_map)
  have "distinct (map fst (set_column c v cols))" using assms by simp
  then show "inj_on fst (set (set_column c v cols))" by (simp only: distinct_map)
qed simp

lemma set_column_at:
  assumes "distinct (map fst cs)" "k < length cs"
  shows "cs[k := (fst (cs ! k), v)] = set_column (fst (cs ! k)) v cs"
proof (rule nth_equalityI)
  fix i assume "i < length (cs[k := (fst (cs ! k), v)])"
  then show "cs[k := (fst (cs ! k), v)] ! i = set_column (fst (cs ! k)) v cs ! i"
    using assms nth_eq_iff_index_eq [OF assms(1), of i k]
    by (auto simp: set_column_def nth_list_update case_prod_unfold prod_eq_iff)
qed (simp add: set_column_def)

lemma set_column_absent: "c \<notin> fst ` set cols \<Longrightarrow> set_column c v cols = cols"
  by (force simp: set_column_def intro: map_idI)

lemma map_of_sort_key: "distinct (map fst cols) \<Longrightarrow> map_of (sort_key fst cols) = map_of cols"
  by (rule map_of_eqI) (auto simp: map_of_eq_Some_iff distinct_map intro!: map_of_inject_set
      [THEN iffD2, THEN fun_cong])

lemma patch_row_absent:
  assumes "row_dir_valid (rowid, cs)" "c \<notin> fst ` set cs"
  shows "patch_row (row_image rowid cs) c v = Inr (row_image rowid cs)"
proof -
  have fits: "row_fits cs" using assms by (simp add: row_dir_valid_def)
  have "\<And>i. i < length (snd (rowid, cs)) \<Longrightarrow> row_dir_key (rowid, cs) i \<noteq> c"
    using assms(2) by (force simp: row_dir_key_def)
  from patch_dir.search_not_found [OF assms(1) this]
  obtain p where "bsearch (dir_probe (row_image rowid cs) c) 0 (length cs) = Inr (p, False)"
    by auto
  then show ?thesis
    using row_image_count [OF fits] row_fitsD(1) [OF fits]
    by (simp add: patch_row_def length_row_image Let_def)
qed

definition value_small :: "db_value \<Rightarrow> bool" where
  "value_small v \<longleftrightarrow> length (encode_value_to_vec v) < 2147483648"

lemma patch_row_ok:
  assumes ok: "row_ok cols" "row_ok (set_column c v cols)"
    and small: "value_small v" "\<forall>w \<in> snd ` set cols. value_small w"
  shows "patch_row (encode_row r cols) c v = Inr (encode_row r (set_column c v cols))"
proof (cases "c \<in> fst ` set cols")
  case False
  then show ?thesis
    using patch_row_absent [OF row_ok_valid [OF ok(1)], of c] by (simp add: encode_row_image set_column_absent)
next
  case True
  let ?cs = "sort_key fst cols"
  from ok(1) have d: "distinct (map fst cols)" "distinct (map fst ?cs)"
    by (simp_all add: row_ok_def distinct_map)
  from True obtain k where k: "k < length ?cs" "fst (?cs ! k) = c"
    by (metis (no_types, lifting) in_set_conv_nth imageE set_sort)
  have new: "?cs[k := (c, v)] = sort_key fst (set_column c v cols)"
    using set_column_at [OF d(2) k(1)] k(2) by (simp add: sort_key_set_column [OF d(1)])
  have "value_small (snd (?cs ! k))" using small(2) k(1) by (metis imageI nth_mem set_sort)
  then show ?thesis
    using patch_row_image [OF row_ok_valid [OF ok(1)] k(1), of _ v] k(2) small(1) ok(2) new
    by (simp add: encode_row_image row_ok_def value_small_def)
qed

section \<open>Decoding never runs out of its input\<close>

lemma u32_at_ok: "i + 4 \<le> length d \<Longrightarrow> \<exists>v. u32_at d i = Inr v"
  by (simp add: u32_at_Inr)

lemma u64_at_ok: "i + 8 \<le> length d \<Longrightarrow> \<exists>v. u64_at d i = Inr v"
  by (simp add: u64_at_Inr)

lemma ensure_bytes_cases:
  "ensure_bytes d off need = (if off + need \<le> length d then Inr ()
     else Inl (Fail (Corruption ''truncated'')))"
  by (simp add: ensure_bytes_def)

lemmas decode_cases = ensure_bytes_cases u32_at_Inr u64_at_Inr slice_def byte_at_def Let_def

lemma decode_text_bounded:
  "decode_text d \<noteq> Inl Panicked \<and> (\<forall>v n. decode_text d = Inr (v, n) \<longrightarrow> n \<le> length d)"
  by (auto simp: decode_text_def decode_cases)

lemma decode_blob_bounded:
  "decode_blob d \<noteq> Inl Panicked \<and> (\<forall>v n. decode_blob d = Inr (v, n) \<longrightarrow> n \<le> length d)"
  by (auto simp: decode_blob_def decode_cases)

lemma wrapped_column:
  assumes "length b = 65536"
  shows "extract_column (row_image r [(0, Blob b), (1, Integer i)]) 1
    = res_bind (decode_value (b @ encode_value_to_vec (Integer i))) (\<lambda>(v, _). Inr (Some v))"
proof -
  let ?cs = "[(0, Blob b), (1, Integer i)]"
  have n: "u16_at (row_image r ?cs) 8 = Inr 2"
    using dir_image_count [of r "dir_of ?cs" "concat (col_blocks ?cs)"] by (simp add: row_image_dir)
  have s: "bsearch (dir_probe_checked (row_image r ?cs) 1) 0 2 = Inr (1, True)"
    by (simp add: bsearch.simps [of _ 0 2] dir_probe_checked_image cmp_def)
  have "col_offset ?cs 1 = 65541"
    using assms by (simp add: col_offset_def)
  then have st: "value_start (row_image r ?cs) 2 (Suc 0) = Inr 23"
    using row_image_off [of 1 ?cs r] by (simp add: value_start_def)
  have len: "65541 \<le> length (concat (col_blocks ?cs))"
    using assms by simp
  have "sub_bytes (row_image r ?cs) 23 (length (row_image r ?cs)) =
      sub_bytes (concat (col_blocks ?cs)) 5 (length (concat (col_blocks ?cs)))"
    using row_image_data [of r ?cs 5 "length (concat (col_blocks ?cs))"]
    by (simp add: length_row_image)
  also have "\<dots> = drop 5 (concat (col_blocks ?cs))"
    by (rule sub_bytes_to_end)
  also have "\<dots> = b @ encode_value_to_vec (Integer i)"
    by simp
  finally have sl: "slice (row_image r ?cs) 23 (length (row_image r ?cs))
      = Inr (b @ encode_value_to_vec (Integer i))"
    using assms by (simp add: slice_def length_row_image)
  show ?thesis
    unfolding extract_column_def
    by (simp only: row_image_ensure n res_bind_Inr Let_def)
       (simp add: s st sl row_image_ensure)
qed

lemma wrapped_column_read:
  assumes "length b = 65536" "b ! 0 = 0"
  shows "extract_column (row_image r [(0, Blob b), (1, Integer i)]) 1 = Inr (Some Null)"
proof -
  obtain bs where "b = 0 # bs" using assms by (cases b) auto
  then show ?thesis unfolding wrapped_column [OF assms(1)] by (simp add: decode_value_def byte_at_def row_image_ensure)
qed

lemma wrapped_column_error:
  assumes "length b = 65536" "5 < b ! 0"
  shows "extract_column (row_image r [(0, Blob b), (1, Integer i)]) 1 = Inl (Fail (Corruption ''unknown type tag''))"
proof -
  obtain x bs where "b = x # bs" "5 < x" using assms by (cases b) auto
  then show ?thesis unfolding wrapped_column [OF assms(1)] by (auto simp: decode_value_def byte_at_def row_image_ensure)
qed

lemma sort_key_two: "sort_key fst [(0 :: u16, v), (1, w)] = [(0, v), (1, w)]"
  by simp

lemma extract_column_row:
  assumes "row_ok cols"
  shows "extract_column (encode_row r cols) c = Inr (map_of cols c)"
    and "extract_column_raw (encode_row r cols) c = Inr (map_option encode_value_to_vec (map_of cols c))"
proof -
  have "extract_column (encode_row r cols) c = Inr (map_of cols c)
    \<and> extract_column_raw (encode_row r cols) c = Inr (map_option encode_value_to_vec (map_of cols c))"
  proof (cases "c \<in> fst ` set cols")
    case False
    then show ?thesis
      using extract_column_absent [OF row_ok_valid [OF assms], of c r] map_of_eq_None_iff [of cols c]
      by (simp add: encode_row_image)
  next
    case True
    then obtain k where k: "k < length (sort_key fst cols)" "fst (sort_key fst cols ! k) = c"
      by (metis (no_types, lifting) in_set_conv_nth imageE set_sort)
    then have "map_of (sort_key fst cols) c = Some (snd (sort_key fst cols ! k))"
      using assms nth_mem [OF k(1)] by (auto simp: row_ok_def distinct_map intro!: map_of_is_SomeI)
    with k assms show ?thesis
      using extract_column_at [OF row_ok_valid [OF assms] k(1), of r]
      by (simp add: encode_row_image map_of_sort_key row_ok_def)
  qed
  then show "extract_column (encode_row r cols) c = Inr (map_of cols c)"
    and "extract_column_raw (encode_row r cols) c = Inr (map_option encode_value_to_vec (map_of cols c))"
    by simp_all
qed

lemma extract_id_encode_row: "extract_id (encode_row r cols) = Inr r"
  using row_image_id [of r "sort_key fst cols"] row_image_ensure [of 0 8 r "sort_key fst cols"]
  by (simp add: extract_id_def encode_row_image)

section \<open>Properties\<close>

text \<open>C15. Decoding an encoded row gives back its rowid and its columns in ascending order of
  column id, for every row the format can represent.\<close>

theorem decode_row_encode_row:
  assumes "row_fits (sort_key fst cols)"
  shows "decode_row (encode_row r cols) = Inr \<lparr>dr_id = r, dr_columns = sort_key fst cols\<rparr>"
  using assms by (simp add: encode_row_image decode_row_image)

lemma row_fits_sample: "row_fits [(1, Text [104, 105]), (3, Integer 7)]"
  by (auto simp: row_fits_def col_offset_def less_Suc_eq utf8_valid.simps)

lemma sort_key_sample:
  "sort_key fst [(3 :: u16, Integer 7), (1, Text [104, 105])] = [(1, Text [104, 105]), (3, Integer 7)]"
  by (simp add: word_le_nat_alt)

theorem decode_row_encode_row_witness:
  "decode_row (encode_row 9 [(3, Integer 7), (1, Text [104, 105])]) =
     Inr \<lparr>dr_id = 9, dr_columns = [(1, Text [104, 105]), (3, Integer 7)]\<rparr>"
  using decode_row_encode_row [of "[(3, Integer 7), (1, Text [104, 105])]" 9] row_fits_sample
  by (simp only: sort_key_sample)

text \<open>C16. Looking one column up in an encoded row through the offset directory gives exactly the
  value the columns assign to it, and nothing for a column that was not stored.\<close>

theorem extract_column_encode_row:
  assumes "row_ok cols"
  shows "extract_column (encode_row r cols) c = Inr (map_of cols c)"
  by (rule extract_column_row(1) [OF assms])

lemma row_ok_sample: "row_ok [(3, Integer 7), (1, Text [104, 105])]"
  using row_fits_sample by (simp only: row_ok_def sort_key_sample) simp

theorem extract_column_encode_row_witness:
  "extract_column (encode_row 9 [(3, Integer 7), (1, Text [104, 105])]) 3 = Inr (Some (Integer 7))
    \<and> extract_column (encode_row 9 [(3, Integer 7), (1, Text [104, 105])]) 2 = Inr None"
  by (simp add: extract_column_encode_row [OF row_ok_sample])

text \<open>Patching one column of a stored row in place gives byte for byte the encoding of the row
  with that column changed: later directory entries move by the change of size, and a row without
  the column comes back unchanged. Values are below 2 GiB, where the 32-bit difference is exact.\<close>

theorem patch_row_encode_row:
  assumes "row_ok cols" "row_ok (set_column c v cols)"
    and "value_small v" "\<forall>w \<in> snd ` set cols. value_small w"
  shows "patch_row (encode_row r cols) c v = Inr (encode_row r (set_column c v cols))"
  using assms by (rule patch_row_ok)

theorem patch_row_encode_row_witness:
  "patch_row (encode_row 9 [(3, Integer 7), (1, Null)]) 1 (Boolean True) =
     Inr (encode_row 9 [(3, Integer 7), (1, Boolean True)])"
proof -
  have "row_ok [(3, Integer 7), (1, Null)]" "row_ok [(3, Integer 7), (1, Boolean True)]"
    by (simp_all add: row_ok_def row_fits_def col_offset_def less_Suc_eq)
  then show ?thesis
    using patch_row_encode_row [of "[(3, Integer 7), (1, Null)]" 1 "Boolean True" 9]
    by (simp add: set_column_def value_small_def)
qed

text \<open>C19. Decoding a value from arbitrary bytes never panics, and a value it returns ends within
  the input: truncated or corrupt bytes are reported as errors.\<close>

theorem decode_value_bounded:
  "case decode_value d of Inl e \<Rightarrow> e \<noteq> Panicked | Inr (v, n) \<Rightarrow> n \<le> length d"
proof (cases d)
  case (Cons t r)
  then show ?thesis
    using decode_text_bounded [of d] decode_blob_bounded [of d]
    by (auto simp: decode_value_def decode_cases split: sum.splits)
qed (simp add: decode_value_def decode_cases)

text \<open>C20. Column offsets are stored in 16 bits without a check: behind a blob of 65536 zero bytes
  the offset of the next column wraps to 5, and the integer stored there reads back as null.\<close>

theorem encode_row_offset_wraps:
  "extract_column (encode_row r [(0, Blob (replicate 65536 0)), (1, Integer i)]) 1 = Inr (Some Null)"
  using wrapped_column_read [of "replicate 65536 0" r i]
  by (simp only: encode_row_image sort_key_two length_replicate) simp

end
