(* ===== verification/Pages.thy ===== *)
theory Pages
  imports Row_Codec
begin

text \<open>
  \<^verbatim>\<open>src/page.rs\<close>: the 4096-byte page. A page is its byte array; \<open>page_ok\<close> states the
  length that the array type guarantees. The header holds a magic number, the type flags, a row
  count, the free-space offset and the two leaf links; the last four bytes hold a checksum of the
  rest. The hash function \<open>crc\<close> (\<^verbatim>\<open>crc32fast::hash\<close>) is a parameter. The lemmas show
  that header fields are independent of each other and of the data area, and that validation
  accepts exactly the pages whose magic and checksum are right.
\<close>

type_synonym page = bytes

abbreviation PAGE_SIZE :: nat where "PAGE_SIZE \<equiv> 4096"
abbreviation PAGE_HEADER_SIZE :: nat where "PAGE_HEADER_SIZE \<equiv> 16"
abbreviation CHECKSUM_SIZE :: nat where "CHECKSUM_SIZE \<equiv> 4"
abbreviation PAGE_LEAF :: u16 where "PAGE_LEAF \<equiv> 1"
abbreviation PAGE_BRANCH :: u16 where "PAGE_BRANCH \<equiv> 2"
abbreviation PAGE_SYSTEM :: u16 where "PAGE_SYSTEM \<equiv> 4"
abbreviation PAGE_FREE :: u16 where "PAGE_FREE \<equiv> 8"
abbreviation PAGE_OVERFLOW :: u16 where "PAGE_OVERFLOW \<equiv> 16"
abbreviation MAGIC :: u16 where "MAGIC \<equiv> 0xB00D"

definition page_ok :: "page \<Rightarrow> bool" where
  "page_ok p \<longleftrightarrow> length p = PAGE_SIZE"

section \<open>Header accessors\<close>

definition magic :: "page \<Rightarrow> u16" where
  "magic p = u16_from_le (sub_bytes p 0 2)"

definition set_magic :: "page \<Rightarrow> u16 \<Rightarrow> page" where
  "set_magic p v = blit p 0 (u16_to_le v)"

definition flags :: "page \<Rightarrow> u16" where
  "flags p = u16_from_le (sub_bytes p 2 4)"

definition set_flags :: "page \<Rightarrow> u16 \<Rightarrow> page" where
  "set_flags p v = blit p 2 (u16_to_le v)"

definition is_leaf :: "page \<Rightarrow> bool" where
  "is_leaf p \<longleftrightarrow> flags p AND PAGE_LEAF \<noteq> 0"

definition is_branch :: "page \<Rightarrow> bool" where
  "is_branch p \<longleftrightarrow> flags p AND PAGE_BRANCH \<noteq> 0"

definition is_overflow :: "page \<Rightarrow> bool" where
  "is_overflow p \<longleftrightarrow> flags p AND PAGE_OVERFLOW \<noteq> 0"

definition num_rows :: "page \<Rightarrow> u16" where
  "num_rows p = u16_from_le (sub_bytes p 4 6)"

definition set_num_rows :: "page \<Rightarrow> u16 \<Rightarrow> page" where
  "set_num_rows p v = blit p 4 (u16_to_le v)"

definition free_space_offset :: "page \<Rightarrow> u16" where
  "free_space_offset p = u16_from_le (sub_bytes p 6 8)"

definition set_free_space_offset :: "page \<Rightarrow> u16 \<Rightarrow> page" where
  "set_free_space_offset p v = blit p 6 (u16_to_le v)"

definition next_leaf :: "page \<Rightarrow> u32" where
  "next_leaf p = u32_from_le (sub_bytes p 8 12)"

definition set_next_leaf :: "page \<Rightarrow> u32 \<Rightarrow> page" where
  "set_next_leaf p v = blit p 8 (u32_to_le v)"

definition prev_leaf :: "page \<Rightarrow> u32" where
  "prev_leaf p = u32_from_le (sub_bytes p 12 16)"

definition set_prev_leaf :: "page \<Rightarrow> u32 \<Rightarrow> page" where
  "set_prev_leaf p v = blit p 12 (u32_to_le v)"

definition overflow_payload_len :: "page \<Rightarrow> u16" where
  "overflow_payload_len p = num_rows p"

definition set_overflow_payload_len :: "page \<Rightarrow> u16 \<Rightarrow> page" where
  "set_overflow_payload_len p v = set_num_rows p v"

definition overflow_next :: "page \<Rightarrow> u32" where
  "overflow_next p = next_leaf p"

definition set_overflow_next :: "page \<Rightarrow> u32 \<Rightarrow> page" where
  "set_overflow_next p v = set_next_leaf p v"

section \<open>Checksum\<close>

definition update_checksum :: "(bytes \<Rightarrow> u32) \<Rightarrow> page \<Rightarrow> page" where
  "update_checksum crc p =
     blit p (PAGE_SIZE - 4) (u32_to_le (crc (sub_bytes p 0 (PAGE_SIZE - 4))))"

definition verify_checksum :: "(bytes \<Rightarrow> u32) \<Rightarrow> page \<Rightarrow> bool" where
  "verify_checksum crc p \<longleftrightarrow>
     u32_from_le (sub_bytes p (PAGE_SIZE - 4) PAGE_SIZE) = crc (sub_bytes p 0 (PAGE_SIZE - 4))"

definition page_validate :: "(bytes \<Rightarrow> u32) \<Rightarrow> page \<Rightarrow> unit res" where
  "page_validate crc p =
     res_bind (ensure (magic p = MAGIC) (Corruption ''bad page magic'')) (\<lambda>_.
       ensure (verify_checksum crc p) (Corruption ''page checksum mismatch''))"

definition page_from_bytes :: "(bytes \<Rightarrow> u32) \<Rightarrow> bytes \<Rightarrow> page res" where
  "page_from_bytes crc d = res_bind (page_validate crc d) (\<lambda>_. Inr d)"

section \<open>Constructors\<close>

definition page_default :: page where
  "page_default = replicate PAGE_SIZE 0"

definition new_leaf :: "(bytes \<Rightarrow> u32) \<Rightarrow> page" where
  "new_leaf crc =
     (let p = set_magic page_default MAGIC;
          p = set_flags p PAGE_LEAF;
          p = set_num_rows p 0;
          p = set_free_space_offset p (as_u16 PAGE_HEADER_SIZE + 0);
          p = set_next_leaf p 0;
          p = set_prev_leaf p 0
      in update_checksum crc p)"

definition new_branch :: "(bytes \<Rightarrow> u32) \<Rightarrow> page" where
  "new_branch crc =
     (let p = set_magic page_default MAGIC;
          p = set_flags p PAGE_BRANCH;
          p = set_num_rows p 0
      in update_checksum crc p)"

definition new_system :: "(bytes \<Rightarrow> u32) \<Rightarrow> page" where
  "new_system crc =
     (let p = set_magic page_default MAGIC;
          p = set_flags p PAGE_SYSTEM
      in update_checksum crc p)"

definition new_overflow :: "(bytes \<Rightarrow> u32) \<Rightarrow> page" where
  "new_overflow crc =
     (let p = set_magic page_default MAGIC;
          p = set_flags p PAGE_OVERFLOW
      in update_checksum crc p)"

section \<open>Row offsets\<close>

definition row_offset :: "page \<Rightarrow> u16 \<Rightarrow> u16 res" where
  "row_offset p i = u16_at p (PAGE_HEADER_SIZE + unat i * 2)"

definition set_row_offset :: "page \<Rightarrow> u16 \<Rightarrow> u16 \<Rightarrow> page res" where
  "set_row_offset p i off = copy_at p (PAGE_HEADER_SIZE + unat i * 2) (u16_to_le off)"

definition page_free_space :: "page \<Rightarrow> nat res" where
  "page_free_space p =
     (let offset_array_end = PAGE_HEADER_SIZE + unat (num_rows p) * 2 + 2;
          row_data_start = unat (free_space_offset p)
      in if row_data_start \<le> offset_array_end then Inr 0
         else if row_data_start \<le> PAGE_SIZE - 4 then Inr (PAGE_SIZE - 4 - row_data_start)
         else Inl Panicked)"

section \<open>Header fields are independent\<close>

text \<open>
  The contract of a header field: reading after setting it, and that setting it leaves every byte
  range apart from its own alone.
\<close>

locale header_field =
  fixes get :: "page \<Rightarrow> 'a"
    and put :: "page \<Rightarrow> 'a \<Rightarrow> page"
    and first :: nat
    and past :: nat
  assumes range: "first \<le> past" "past \<le> 16"
    and get_put: "page_ok p \<Longrightarrow> get (put p v) = v"
    and put_ok: "page_ok p \<Longrightarrow> page_ok (put p v)"
    and put_frame: "page_ok p \<Longrightarrow> e \<le> first \<or> past \<le> s \<Longrightarrow> sub_bytes (put p v) s e = sub_bytes p s e"
    and get_local: "sub_bytes p first past = sub_bytes q first past \<Longrightarrow> get p = get q"
begin

lemma put_data: "page_ok p \<Longrightarrow> 16 \<le> s \<Longrightarrow> sub_bytes (put p v) s e = sub_bytes p s e"
  using put_frame range by auto

lemma blit_data:
  assumes "16 \<le> off" "off + length src \<le> length p"
  shows "get (blit p off src) = get p"
  using assms range by (intro get_local sub_bytes_blit_disjoint) auto

end

lemma blit_field:
  "page_ok p \<Longrightarrow> off + length src \<le> PAGE_SIZE \<Longrightarrow> page_ok (blit p off src)"
  by (simp add: page_ok_def)

lemma blit_frame:
  "page_ok p \<Longrightarrow> off + length src \<le> PAGE_SIZE \<Longrightarrow> e \<le> off \<or> off + length src \<le> s \<Longrightarrow>
     sub_bytes (blit p off src) s e = sub_bytes p s e"
  by (simp add: page_ok_def sub_bytes_blit_disjoint)

lemma read_u16_field:
  "page_ok p \<Longrightarrow> off + 2 \<le> PAGE_SIZE \<Longrightarrow> e = off + 2 \<Longrightarrow>
     u16_from_le (sub_bytes (blit p off (u16_to_le v)) off e) = v"
  by (simp add: page_ok_def u16_le.read_written)

lemma read_u32_field:
  "page_ok p \<Longrightarrow> off + 4 \<le> PAGE_SIZE \<Longrightarrow> e = off + 4 \<Longrightarrow>
     u32_from_le (sub_bytes (blit p off (u32_to_le v)) off e) = v"
  by (simp add: page_ok_def u32_le.read_written)

interpretation magic_field: header_field magic set_magic 0 2
  by unfold_locales
    (auto simp: magic_def set_magic_def blit_field read_u16_field blit_frame [where off = 0, simplified])

interpretation flags_field: header_field flags set_flags 2 4
  by unfold_locales
    (simp_all add: flags_def set_flags_def blit_field blit_frame read_u16_field)

interpretation rows_field: header_field num_rows set_num_rows 4 6
  by unfold_locales
    (simp_all add: num_rows_def set_num_rows_def blit_field blit_frame read_u16_field)

interpretation free_field: header_field free_space_offset set_free_space_offset 6 8
  by unfold_locales
    (simp_all add: free_space_offset_def set_free_space_offset_def blit_field blit_frame read_u16_field)

interpretation next_field: header_field next_leaf set_next_leaf 8 12
  by unfold_locales
    (simp_all add: next_leaf_def set_next_leaf_def blit_field blit_frame read_u32_field)

interpretation prev_field: header_field prev_leaf set_prev_leaf 12 16
  by unfold_locales
    (simp_all add: prev_leaf_def set_prev_leaf_def blit_field blit_frame read_u32_field)

lemmas put_ok [simp] =
  magic_field.put_ok flags_field.put_ok rows_field.put_ok free_field.put_ok next_field.put_ok
  prev_field.put_ok

lemmas get_put [simp] =
  magic_field.get_put flags_field.get_put rows_field.get_put free_field.get_put
  next_field.get_put prev_field.get_put

lemmas put_data [simp] =
  magic_field.put_data flags_field.put_data rows_field.put_data free_field.put_data
  next_field.put_data prev_field.put_data

lemmas blit_data [simp] =
  magic_field.blit_data flags_field.blit_data rows_field.blit_data free_field.blit_data
  next_field.blit_data prev_field.blit_data

text \<open>Every field keeps its value when another field is set.\<close>

lemma magic_put [simp]:
  assumes "page_ok p"
  shows "magic (set_flags p f) = magic p" "magic (set_num_rows p n) = magic p"
    "magic (set_free_space_offset p n) = magic p" "magic (set_next_leaf p l) = magic p"
    "magic (set_prev_leaf p l) = magic p"
  using assms by (simp_all add: magic_def set_flags_def set_num_rows_def set_free_space_offset_def
      set_next_leaf_def set_prev_leaf_def blit_frame)

lemma flags_put [simp]:
  assumes "page_ok p"
  shows "flags (set_magic p m) = flags p" "flags (set_num_rows p n) = flags p"
    "flags (set_free_space_offset p n) = flags p" "flags (set_next_leaf p l) = flags p"
    "flags (set_prev_leaf p l) = flags p"
  using assms by (simp_all add: flags_def set_magic_def set_num_rows_def set_free_space_offset_def
      set_next_leaf_def set_prev_leaf_def blit_frame)

lemma num_rows_put [simp]:
  assumes "page_ok p"
  shows "num_rows (set_magic p m) = num_rows p" "num_rows (set_flags p f) = num_rows p"
    "num_rows (set_free_space_offset p n) = num_rows p" "num_rows (set_next_leaf p l) = num_rows p"
    "num_rows (set_prev_leaf p l) = num_rows p"
  using assms by (simp_all add: num_rows_def set_magic_def set_flags_def set_free_space_offset_def
      set_next_leaf_def set_prev_leaf_def blit_frame)

lemma free_space_offset_put [simp]:
  assumes "page_ok p"
  shows "free_space_offset (set_magic p m) = free_space_offset p"
    "free_space_offset (set_flags p f) = free_space_offset p"
    "free_space_offset (set_num_rows p n) = free_space_offset p"
    "free_space_offset (set_next_leaf p l) = free_space_offset p"
    "free_space_offset (set_prev_leaf p l) = free_space_offset p"
  using assms by (simp_all add: free_space_offset_def set_magic_def set_flags_def set_num_rows_def
      set_next_leaf_def set_prev_leaf_def blit_frame)

lemma next_leaf_put [simp]:
  assumes "page_ok p"
  shows "next_leaf (set_magic p m) = next_leaf p" "next_leaf (set_flags p f) = next_leaf p"
    "next_leaf (set_num_rows p n) = next_leaf p" "next_leaf (set_free_space_offset p n) = next_leaf p"
    "next_leaf (set_prev_leaf p l) = next_leaf p"
  using assms by (simp_all add: next_leaf_def set_magic_def set_flags_def set_num_rows_def
      set_free_space_offset_def set_prev_leaf_def blit_frame)

lemma prev_leaf_put [simp]:
  assumes "page_ok p"
  shows "prev_leaf (set_magic p m) = prev_leaf p" "prev_leaf (set_flags p f) = prev_leaf p"
    "prev_leaf (set_num_rows p n) = prev_leaf p" "prev_leaf (set_free_space_offset p n) = prev_leaf p"
    "prev_leaf (set_next_leaf p l) = prev_leaf p"
  using assms by (simp_all add: prev_leaf_def set_magic_def set_flags_def set_num_rows_def
      set_free_space_offset_def set_next_leaf_def blit_frame)

section \<open>Validation\<close>

lemma update_checksum_ok [simp]: "page_ok p \<Longrightarrow> page_ok (update_checksum crc p)"
  by (simp add: update_checksum_def blit_field)

lemma update_checksum_body [simp]:
  "page_ok p \<Longrightarrow> e \<le> 4092 \<Longrightarrow> sub_bytes (update_checksum crc p) s e = sub_bytes p s e"
  by (simp add: update_checksum_def blit_frame)

lemma update_checksum_fields [simp]:
  assumes "page_ok p"
  shows "magic (update_checksum crc p) = magic p" "flags (update_checksum crc p) = flags p"
    "num_rows (update_checksum crc p) = num_rows p"
    "free_space_offset (update_checksum crc p) = free_space_offset p"
    "next_leaf (update_checksum crc p) = next_leaf p"
    "prev_leaf (update_checksum crc p) = prev_leaf p"
  using assms by (simp_all add: magic_def flags_def num_rows_def free_space_offset_def next_leaf_def
      prev_leaf_def)

lemma verify_update_checksum [simp]: "page_ok p \<Longrightarrow> verify_checksum crc (update_checksum crc p)"
  by (simp add: verify_checksum_def)
     (simp add: update_checksum_def page_ok_def u32_le.read_written)

lemma page_from_bytes_eq:
  "page_from_bytes crc d = Inr p \<longleftrightarrow> p = d \<and> magic d = MAGIC \<and> verify_checksum crc d"
  by (auto simp: page_from_bytes_def page_validate_def ensure_def)

lemma page_from_bytes_Inr:
  "magic d = MAGIC \<Longrightarrow> verify_checksum crc d \<Longrightarrow> page_from_bytes crc d = Inr d"
  by (simp add: page_from_bytes_eq)

lemma page_default_ok [simp]: "page_ok page_default"
  by (simp add: page_ok_def page_default_def)

lemma new_pages_ok [simp]:
  "page_ok (new_leaf crc)" "page_ok (new_branch crc)" "page_ok (new_system crc)"
  "page_ok (new_overflow crc)"
  by (simp_all add: new_leaf_def new_branch_def new_system_def new_overflow_def Let_def)

lemma new_pages_magic [simp]:
  "magic (new_leaf crc) = MAGIC" "magic (new_branch crc) = MAGIC" "magic (new_system crc) = MAGIC"
  "magic (new_overflow crc) = MAGIC"
  by (simp_all add: new_leaf_def new_branch_def new_system_def new_overflow_def Let_def)

lemma new_pages_flags [simp]:
  "flags (new_leaf crc) = PAGE_LEAF" "flags (new_branch crc) = PAGE_BRANCH"
  "flags (new_system crc) = PAGE_SYSTEM" "flags (new_overflow crc) = PAGE_OVERFLOW"
  by (simp_all add: new_leaf_def new_branch_def new_system_def new_overflow_def Let_def)

lemma new_pages_valid [simp]:
  "verify_checksum crc (new_leaf crc)" "verify_checksum crc (new_branch crc)"
  "verify_checksum crc (new_system crc)" "verify_checksum crc (new_overflow crc)"
  by (simp_all add: new_leaf_def new_branch_def new_system_def new_overflow_def Let_def)

lemma new_leaf_fields [simp]:
  "num_rows (new_leaf crc) = 0" "free_space_offset (new_leaf crc) = 16"
  "next_leaf (new_leaf crc) = 0" "prev_leaf (new_leaf crc) = 0"
  by (simp_all add: new_leaf_def Let_def)

lemma row_offset_Inr:
  "page_ok p \<Longrightarrow> unat i < 2040 \<Longrightarrow>
     row_offset p i = Inr (u16_from_le (sub_bytes p (16 + unat i * 2) (18 + unat i * 2)))"
  by (simp add: row_offset_def u16_at_Inr page_ok_def)

lemma set_row_offset_Inr:
  "page_ok p \<Longrightarrow> unat i < 2040 \<Longrightarrow>
     set_row_offset p i off = Inr (blit p (16 + unat i * 2) (u16_to_le off))"
  by (simp add: set_row_offset_def copy_at_def page_ok_def)

section \<open>Properties\<close>

text \<open>A page read back from its bytes is accepted exactly when its magic number and its
  checksum match, and stamping the checksum makes any page with the right magic acceptable without
  changing a byte before the checksum field.\<close>

theorem stamped_page_accepted:
  assumes "page_ok p" "magic p = MAGIC"
  shows "page_from_bytes crc (update_checksum crc p) = Inr (update_checksum crc p)
    \<and> sub_bytes (update_checksum crc p) 0 4092 = sub_bytes p 0 4092"
  using assms by (simp add: page_from_bytes_eq)

theorem stamped_page_accepted_witness:
  "page_from_bytes (\<lambda>_. 7) (update_checksum (\<lambda>_. 7) (new_leaf (\<lambda>_. 7)))
     = Inr (update_checksum (\<lambda>_. 7) (new_leaf (\<lambda>_. 7)))"
  using stamped_page_accepted [of "new_leaf (\<lambda>_. 7)" "\<lambda>_. 7"] by simp

end
