(* ===== verification/Page_File.thy ===== *)
theory Page_File
  imports Pages "HOL-Library.AList"
begin

text \<open>
  \<^verbatim>\<open>src/file.rs\<close>: the page file with its shared cache, and the write guard with its overlay of
  dirty pages. The file on disk is a byte string; the only I/O error modelled is reading past its
  end. The guard locks the write state that lives in the file, so one record holds everything; the
  dirty map is an association list in some iteration order of the \<^verbatim>\<open>HashMap\<close>. A registered
  cipher is its page encryption function. Reads fill the cache: \<open>read_page\<close> is that operation,
  \<open>view_page\<close> the result a reader gets, and the lemmas show that filling never changes a later
  result. They also give the laws of the overlay (read your writes, discard, publication on commit)
  and the persistence of a synced file.
\<close>

type_synonym cipher_fn = "bytes \<Rightarrow> page res"
type_synonym dirty_map = "(u32 \<times> page) list"

record page_file =
  pf_disk :: bytes
  pf_num_pages :: u32
  pf_pages :: "page option list"
  pf_dirty :: dirty_map
  pf_new_count :: u32
  pf_ciphers :: "(u32 \<times> cipher_fn) list"

type_synonym 'a guarded = "(page_file, 'a) sm"

abbreviation ENCRYPTED_PAYLOAD_SIZE :: nat where "ENCRYPTED_PAYLOAD_SIZE \<equiv> 4068"

section \<open>The page file\<close>

definition page_file_open :: "bytes \<Rightarrow> page_file" where
  "page_file_open contents =
     (let num_pages = as_u32 (length contents div PAGE_SIZE)
      in \<lparr>pf_disk = contents, pf_num_pages = num_pages,
          pf_pages = replicate (unat num_pages) None,
          pf_dirty = [], pf_new_count = 0, pf_ciphers = []\<rparr>)"

definition page_count :: "page_file \<Rightarrow> u32" where
  "page_count f = pf_num_pages f"

definition read_page_raw :: "page_file \<Rightarrow> u32 \<Rightarrow> bytes res" where
  "read_page_raw f n =
     (let offset = unat n * PAGE_SIZE
      in if offset + PAGE_SIZE \<le> length (pf_disk f)
         then Inr (sub_bytes (pf_disk f) offset (offset + PAGE_SIZE))
         else Inl (Fail (Io ''failed to fill whole buffer'')))"

definition read_page_from_disk :: "(bytes \<Rightarrow> u32) \<Rightarrow> page_file \<Rightarrow> u32 \<Rightarrow> page res" where
  "read_page_from_disk crc f n = res_bind (read_page_raw f n) (page_from_bytes crc)"

definition cache_get :: "page option list \<Rightarrow> u32 \<Rightarrow> page option" where
  "cache_get c n = (if unat n < length c then c ! unat n else None)"

definition cache_put :: "page option list \<Rightarrow> u32 \<Rightarrow> page \<Rightarrow> page option list" where
  "cache_put c n p = (c @ replicate (unat n + 1 - length c) None)[unat n := Some p]"

definition read_page :: "(bytes \<Rightarrow> u32) \<Rightarrow> u32 \<Rightarrow> page guarded" where
  "read_page crc n f =
     (if pf_num_pages f \<le> n then (Inl (Fail (Corruption ''page out of range'')), f)
      else case cache_get (pf_pages f) n of
        Some p \<Rightarrow> (Inr p, f)
      | None \<Rightarrow> (case read_page_from_disk crc f n of
          Inl e \<Rightarrow> (Inl e, f)
        | Inr p \<Rightarrow> (Inr p, f\<lparr>pf_pages := cache_put (pf_pages f) n p\<rparr>)))"

definition view_page :: "(bytes \<Rightarrow> u32) \<Rightarrow> page_file \<Rightarrow> u32 \<Rightarrow> page res" where
  "view_page crc f n = fst (read_page crc n f)"

text \<open>Writing past the end of a file fills the gap with zeros.\<close>

definition disk_write :: "bytes \<Rightarrow> nat \<Rightarrow> bytes \<Rightarrow> bytes" where
  "disk_write d off bs = blit (d @ replicate (off + length bs - length d) 0) off bs"

definition put_page_direct :: "u32 \<Rightarrow> page \<Rightarrow> unit guarded" where
  "put_page_direct n p f =
     (let np = pf_num_pages f;
          f = f\<lparr>pf_disk := disk_write (pf_disk f) (unat n * PAGE_SIZE) p\<rparr>
      in if np \<le> n \<and> n = - 1 then (Inl Panicked, f)
         else let f = (if np \<le> n then f\<lparr>pf_num_pages := n + 1\<rparr> else f)
              in (Inr (), f\<lparr>pf_pages := cache_put (pf_pages f) n p\<rparr>))"

definition put_cached_page :: "u32 \<Rightarrow> page \<Rightarrow> page_file \<Rightarrow> page_file" where
  "put_cached_page n p f = f\<lparr>pf_pages := cache_put (pf_pages f) n p\<rparr>"

definition is_cached :: "page_file \<Rightarrow> u32 \<Rightarrow> bool" where
  "is_cached f n = (case cache_get (pf_pages f) n of Some _ \<Rightarrow> True | None \<Rightarrow> False)"

definition register_page_cipher :: "u32 \<Rightarrow> cipher_fn \<Rightarrow> page_file \<Rightarrow> page_file" where
  "register_page_cipher n c f = f\<lparr>pf_ciphers := AList.update n c (pf_ciphers f)\<rparr>"

definition sync_slot :: "nat \<times> page option \<Rightarrow> unit guarded" where
  "sync_slot = (\<lambda>(i, slot) f. case slot of
     None \<Rightarrow> (Inr (), f)
   | Some p \<Rightarrow>
       let n = as_u32 i; offset = unat n * PAGE_SIZE in
       (case map_of (pf_ciphers f) n of
          Some c \<Rightarrow> (case res_bind (slice p 0 ENCRYPTED_PAYLOAD_SIZE) c of
              Inl e \<Rightarrow> (Inl e, f)
            | Inr enc \<Rightarrow> (Inr (), f\<lparr>pf_disk := disk_write (pf_disk f) offset enc\<rparr>))
        | None \<Rightarrow> (Inr (), f\<lparr>pf_disk := disk_write (pf_disk f) offset p\<rparr>)))"

definition sync_all :: "unit guarded" where
  "sync_all f = sm_fold sync_slot (enumerate 0 (pf_pages f)) f"

section \<open>The write guard\<close>

definition guard_read_page :: "(bytes \<Rightarrow> u32) \<Rightarrow> u32 \<Rightarrow> page guarded" where
  "guard_read_page crc n f =
     (case map_of (pf_dirty f) n of Some p \<Rightarrow> (Inr p, f) | None \<Rightarrow> read_page crc n f)"

definition guard_view :: "(bytes \<Rightarrow> u32) \<Rightarrow> page_file \<Rightarrow> u32 \<Rightarrow> page res" where
  "guard_view crc f n =
     (case map_of (pf_dirty f) n of Some p \<Rightarrow> Inr p | None \<Rightarrow> view_page crc f n)"

definition peek_dirty :: "page_file \<Rightarrow> u32 \<Rightarrow> page option" where
  "peek_dirty f n = map_of (pf_dirty f) n"

definition put_page :: "u32 \<Rightarrow> page \<Rightarrow> unit guarded" where
  "put_page n p = sm_modify (\<lambda>f. f\<lparr>pf_dirty := AList.update n p (pf_dirty f)\<rparr>)"

text \<open>
  \<^verbatim>\<open>write_page\<close> copies the page into the overlay and hands out a reference to it; the caller's
  changes are put back with \<open>put_page\<close>.
\<close>

definition write_page :: "(bytes \<Rightarrow> u32) \<Rightarrow> u32 \<Rightarrow> page guarded" where
  "write_page crc n f =
     (case map_of (pf_dirty f) n of
        Some p \<Rightarrow> (Inr p, f)
      | None \<Rightarrow> sm_bind (guard_read_page crc n) (\<lambda>p. sm_bind (put_page n p) (\<lambda>_. sm_ret p)) f)"

definition allocate_page :: "u32 guarded" where
  "allocate_page f =
     (if 2 ^ 32 \<le> unat (pf_num_pages f) + unat (pf_new_count f)
      then (Inl (Fail (Corruption ''page count overflow'')), f)
      else if pf_new_count f = - 1 then (Inl Panicked, f)
      else let n = pf_num_pages f + pf_new_count f
           in (Inr n, f\<lparr>pf_new_count := pf_new_count f + 1,
                        pf_dirty := AList.update n page_default (pf_dirty f)\<rparr>))"

definition publish :: "u32 \<times> page \<Rightarrow> page option list \<Rightarrow> page option list res" where
  "publish = (\<lambda>(n, p) c. if unat n < length c then Inr (c[unat n := Some p]) else Inl Panicked)"

definition commit_guard :: "(u32 \<times> page) list guarded" where
  "commit_guard f =
     (let after_images = pf_dirty f; np = pf_num_pages f; k = pf_new_count f in
      if 2 ^ 32 \<le> unat np + unat k then (Inl Panicked, f)
      else
        let cache = pf_pages f @ replicate (unat np + unat k - length (pf_pages f)) None in
        (case res_fold publish (pf_dirty f) cache of
           Inl e \<Rightarrow> (Inl e, f)
         | Inr cache' \<Rightarrow>
             (Inr after_images,
              f\<lparr>pf_pages := cache', pf_num_pages := np + k, pf_dirty := [], pf_new_count := 0\<rparr>)))"

definition discard_guard :: "page_file \<Rightarrow> page_file" where
  "discard_guard f = f\<lparr>pf_dirty := [], pf_new_count := 0\<rparr>"

fun inject_dirty :: "dirty_map \<Rightarrow> page_file \<Rightarrow> page_file" where
  "inject_dirty [] f = f"
| "inject_dirty ((n, p) # rest) f =
     inject_dirty rest
       (if map_of (pf_dirty f) n = None then f\<lparr>pf_dirty := AList.update n p (pf_dirty f)\<rparr> else f)"

definition drain_dirty :: "page_file \<Rightarrow> dirty_map \<times> page_file" where
  "drain_dirty f = (pf_dirty f, f\<lparr>pf_dirty := []\<rparr>)"

definition set_new_page_count :: "u32 \<Rightarrow> page_file \<Rightarrow> page_file" where
  "set_new_page_count k f = f\<lparr>pf_new_count := k\<rparr>"

section \<open>The cache is invisible\<close>

lemma length_cache_put: "length (cache_put c n p) = max (length c) (unat n + 1)"
  by (simp add: cache_put_def)

lemma cache_get_put: "cache_get (cache_put c n p) m = (if m = n then Some p else cache_get c m)"
proof (cases "m = n")
  case True
  then show ?thesis by (simp add: cache_get_def cache_put_def)
next
  case False
  then have "unat m \<noteq> unat n" by (simp add: word_unat_eq_iff)
  with False show ?thesis
    by (auto simp: cache_get_def cache_put_def nth_append nth_list_update)
qed

lemma view_page_eq:
  "view_page crc f n =
     (if pf_num_pages f \<le> n then Inl (Fail (Corruption ''page out of range''))
      else case cache_get (pf_pages f) n of Some p \<Rightarrow> Inr p | None \<Rightarrow> read_page_from_disk crc f n)"
  by (simp add: view_page_def read_page_def split: option.split sum.split)

lemma read_page_run: "\<exists>f'. read_page crc n f = (view_page crc f n, f')
    \<and> view_page crc f' = view_page crc f \<and> pf_num_pages f' = pf_num_pages f
    \<and> pf_dirty f' = pf_dirty f \<and> pf_new_count f' = pf_new_count f \<and> pf_disk f' = pf_disk f"
proof (cases "pf_num_pages f \<le> n \<or> cache_get (pf_pages f) n \<noteq> None \<or>
    (\<exists>e. read_page_from_disk crc f n = Inl e)")
  case True
  then show ?thesis
    by (intro exI [of _ f]) (auto simp: read_page_def view_page_def split: option.split)
next
  case False
  then obtain p where p: "cache_get (pf_pages f) n = None" "read_page_from_disk crc f n = Inr p"
    by (cases "read_page_from_disk crc f n") auto
  let ?f = "f\<lparr>pf_pages := cache_put (pf_pages f) n p\<rparr>"
  have "read_page crc n f = (view_page crc f n, ?f)"
    using False p by (simp add: read_page_def view_page_def)
  moreover have "read_page_from_disk crc ?f m = read_page_from_disk crc f m" for m
    by (simp add: read_page_from_disk_def read_page_raw_def Let_def)
  then have "view_page crc ?f m = view_page crc f m" for m
    using p by (simp add: view_page_eq cache_get_put cong: option.case_cong)
  ultimately show ?thesis by (intro exI [of _ ?f]) auto
qed

section \<open>The laws of the overlay\<close>

text \<open>The first page number that has not been handed out.\<close>

definition guard_next :: "page_file \<Rightarrow> nat" where
  "guard_next f = unat (pf_num_pages f) + unat (pf_new_count f)"

text \<open>
  What a writer relies on. Reads see the latest write, \<open>write\<close> hands out the current page
  without changing what is read, and allocation returns the next number, with the page zeroed. The
  lemmas are the two ways the trees use it: changing a page in place, and filling a fresh one.
\<close>

locale page_store =
  fixes view :: "'s \<Rightarrow> u32 \<Rightarrow> page res"
    and put :: "u32 \<Rightarrow> page \<Rightarrow> ('s, unit) sm"
    and "write" :: "u32 \<Rightarrow> ('s, page) sm"
    and alloc :: "('s, u32) sm"
    and next_free :: "'s \<Rightarrow> nat"
  assumes put_run: "\<exists>s'. put n p s = (Inr (), s') \<and> view s' = (view s)(n := Inr p)
      \<and> next_free s' = next_free s"
    and write_run: "\<exists>s'. write n s = (view s n, s') \<and> view s' = view s
      \<and> next_free s' = next_free s"
    and alloc_run: "next_free s < 2 ^ 32 - 1 \<Longrightarrow>
      \<exists>s'. alloc s = (Inr (of_nat (next_free s)), s')
        \<and> view s' = (view s)(of_nat (next_free s) := Inr page_default)
        \<and> next_free s' = Suc (next_free s)"
begin

lemma modify_run:
  assumes "view s n = Inr p" "g p = Inr p'"
  shows "\<exists>s'. sm_bind (write n) (\<lambda>p. sm_bind (sm_lift (g p)) (\<lambda>p'. sm_bind (put n p') k)) s = k () s'
    \<and> view s' = (view s)(n := Inr p') \<and> next_free s' = next_free s"
proof -
  obtain s1 where s1: "write n s = (Inr p, s1)" "view s1 = view s" "next_free s1 = next_free s"
    using write_run [of n s] assms(1) by auto
  obtain s2 where s2: "put n p' s1 = (Inr (), s2)" "view s2 = (view s1)(n := Inr p')"
      "next_free s2 = next_free s1"
    using put_run [of n p' s1] by auto
  show ?thesis
    using s1 s2 assms(2)
    by (intro exI [of _ s2]) (simp add: sm_bind_Inr [where m = "write n"] sm_bind_Inr [where m = "put n p'"])
qed

lemma write_fails:
  assumes "view s n = Inl e"
  shows "\<exists>s'. sm_bind (write n) k s = (Inl e, s') \<and> view s' = view s"
  using write_run [of n s] assms by (auto simp: sm_bind_Inl)

lemma alloc_put_run:
  assumes "next_free s < 2 ^ 32 - 1"
  shows "\<exists>s'. sm_bind alloc (\<lambda>n. sm_bind (put n (g n)) (\<lambda>_. k n)) s = k (of_nat (next_free s)) s'
    \<and> view s' = (view s)(of_nat (next_free s) := Inr (g (of_nat (next_free s))))
    \<and> next_free s' = Suc (next_free s)"
proof -
  let ?n = "of_nat (next_free s) :: u32"
  obtain s1 where s1: "alloc s = (Inr ?n, s1)" "view s1 = (view s)(?n := Inr page_default)"
      "next_free s1 = Suc (next_free s)"
    using alloc_run [OF assms] by auto
  obtain s2 where s2: "put ?n (g ?n) s1 = (Inr (), s2)" "view s2 = (view s1)(?n := Inr (g ?n))"
      "next_free s2 = next_free s1"
    using put_run [of ?n "g ?n" s1] by auto
  show ?thesis
    using s1 s2 by (intro exI [of _ s2]) (simp add: sm_bind_Inr [where m = alloc]
        sm_bind_Inr [where m = "put ?n (g ?n)"])
qed

end

lemma view_page_cong:
  "pf_num_pages f = pf_num_pages g \<Longrightarrow> pf_pages f = pf_pages g \<Longrightarrow> pf_disk f = pf_disk g \<Longrightarrow>
     view_page crc f = view_page crc g"
  by (intro ext)
     (simp add: view_page_eq read_page_from_disk_def read_page_raw_def Let_def cong: option.case_cong)

lemma guard_view_cong:
  assumes "pf_num_pages f = pf_num_pages g" "pf_pages f = pf_pages g" "pf_disk f = pf_disk g"
    and "map_of (pf_dirty f) = map_of (pf_dirty g)"
  shows "guard_view crc f = guard_view crc g"
  using view_page_cong [OF assms(1-3), of crc] assms(4)
  by (intro ext) (simp add: guard_view_def cong: option.case_cong)

lemma guard_view_put:
  "guard_view crc (f\<lparr>pf_dirty := AList.update n p (pf_dirty f)\<rparr>) = (guard_view crc f)(n := Inr p)"
  using view_page_cong [of "f\<lparr>pf_dirty := AList.update n p (pf_dirty f)\<rparr>" f crc]
  by (intro ext) (simp add: guard_view_def update_conv cong: option.case_cong)

lemma guard_read_page_run:
  "\<exists>f'. guard_read_page crc n f = (guard_view crc f n, f') \<and> guard_view crc f' = guard_view crc f
    \<and> guard_next f' = guard_next f"
proof (cases "map_of (pf_dirty f) n")
  case None
  obtain f' where f': "read_page crc n f = (view_page crc f n, f')" "view_page crc f' = view_page crc f"
      "pf_num_pages f' = pf_num_pages f" "pf_dirty f' = pf_dirty f" "pf_new_count f' = pf_new_count f"
    using read_page_run [of crc n f] by auto
  then have "guard_view crc f' = guard_view crc f"
    by (intro ext) (simp add: guard_view_def cong: option.case_cong)
  with None f' show ?thesis
    by (intro exI [of _ f']) (simp add: guard_read_page_def guard_view_def guard_next_def)
next
  case (Some p)
  then show ?thesis
    by (intro exI [of _ f]) (simp add: guard_read_page_def guard_view_def)
qed

lemma write_page_run:
  "\<exists>f'. write_page crc n f = (guard_view crc f n, f') \<and> guard_view crc f' = guard_view crc f
    \<and> guard_next f' = guard_next f"
proof (cases "map_of (pf_dirty f) n")
  case None
  obtain f1 where f1: "guard_read_page crc n f = (guard_view crc f n, f1)"
      "guard_view crc f1 = guard_view crc f" "guard_next f1 = guard_next f"
    using guard_read_page_run [of crc n f] by auto
  show ?thesis
  proof (cases "guard_view crc f n")
    case (Inl e)
    with None f1 show ?thesis
      by (intro exI [of _ f1]) (simp add: write_page_def sm_bind_Inl)
  next
    case (Inr p)
    let ?f = "f1\<lparr>pf_dirty := AList.update n p (pf_dirty f1)\<rparr>"
    have "(guard_view crc f)(n := Inr p) = guard_view crc f"
      using Inr by auto
    with None f1 Inr show ?thesis
      by (intro exI [of _ ?f])
         (simp add: write_page_def sm_bind_Inr put_page_def guard_view_put guard_next_def)
  qed
next
  case (Some p)
  then show ?thesis
    by (intro exI [of _ f]) (simp add: write_page_def guard_view_def)
qed

lemma allocate_page_run:
  assumes "guard_next f < 2 ^ 32 - 1"
  shows "\<exists>f'. allocate_page f = (Inr (of_nat (guard_next f)), f')
    \<and> guard_view crc f' = (guard_view crc f)(of_nat (guard_next f) := Inr page_default)
    \<and> guard_next f' = Suc (guard_next f)"
proof -
  let ?k = "pf_new_count f"
  have k: "unat ?k < 4294967295" using assms by (simp add: guard_next_def)
  then have ne: "?k \<noteq> - 1" by (auto simp: unsigned_minus_1_eq_mask mask_eq_exp_minus_1)
  have suc: "unat (?k + 1) = unat ?k + 1"
    using k by (subst unat_add_lem [THEN iffD1]) simp_all
  have n: "pf_num_pages f + ?k = of_nat (guard_next f)"
    by (simp add: guard_next_def)
  let ?d = "AList.update (of_nat (guard_next f)) page_default (pf_dirty f)"
  let ?f = "f\<lparr>pf_new_count := ?k + 1, pf_dirty := ?d\<rparr>"
  have "allocate_page f = (Inr (of_nat (guard_next f)), ?f)"
    using assms ne n by (simp add: allocate_page_def Let_def guard_next_def)
  moreover have "guard_view crc ?f = guard_view crc (f\<lparr>pf_dirty := ?d\<rparr>)"
    by (rule guard_view_cong) simp_all
  moreover have "guard_next ?f = Suc (guard_next f)"
    using suc by (simp add: guard_next_def)
  ultimately show ?thesis
    by (intro exI [of _ ?f]) (simp add: guard_view_put)
qed

interpretation guard_store: page_store "guard_view crc" put_page "write_page crc" allocate_page
    guard_next for crc
proof
  fix n p s
  show "\<exists>s'. put_page n p s = (Inr (), s') \<and> guard_view crc s' = (guard_view crc s)(n := Inr p)
      \<and> guard_next s' = guard_next s"
    by (simp add: put_page_def guard_view_put guard_next_def)
qed (rule write_page_run, rule allocate_page_run)

section \<open>Publication\<close>

text \<open>
  The invariant of the write state: one page per number, nothing beyond the allocated range, and
  every allocated page still in the overlay.
\<close>

definition guard_ok :: "page_file \<Rightarrow> bool" where
  "guard_ok f \<longleftrightarrow> distinct (map fst (pf_dirty f))
     \<and> (\<forall>n \<in> fst ` set (pf_dirty f). unat n < guard_next f)
     \<and> (\<forall>n. unat (pf_num_pages f) \<le> unat n \<and> unat n < guard_next f \<longrightarrow> n \<in> fst ` set (pf_dirty f))"

lemma publish_fold:
  assumes "distinct (map fst d)" "\<forall>n \<in> fst ` set d. unat n < length c"
  shows "\<exists>c'. res_fold publish d c = Inr c' \<and> length c' = length c
    \<and> (\<forall>n. cache_get c' n = (case map_of d n of Some p \<Rightarrow> Some p | None \<Rightarrow> cache_get c n))"
  using assms
proof (induction d arbitrary: c)
  case (Cons x d)
  obtain n p where x: "x = (n, p)" by (cases x)
  let ?c = "c[unat n := Some p]"
  obtain c' where c': "res_fold publish d ?c = Inr c'" "length c' = length c"
    "\<forall>m. cache_get c' m = (case map_of d m of Some p \<Rightarrow> Some p | None \<Rightarrow> cache_get ?c m)"
    using Cons.IH [of ?c] Cons.prems by auto
  have n: "unat n < length c" "map_of d n = None"
    using Cons.prems by (auto simp: x map_of_eq_None_iff)
  have "cache_get ?c m = (if m = n then Some p else cache_get c m)" for m
    using n by (auto simp: cache_get_def nth_list_update word_unat_eq_iff)
  with c' n show ?case
    by (auto simp: x publish_def split: option.split)
qed simp

lemma commit_guard_run:
  assumes ok: "guard_ok f" and small: "guard_next f < 2 ^ 32"
  shows "\<exists>f'. commit_guard f = (Inr (pf_dirty f), f') \<and> view_page crc f' = guard_view crc f
    \<and> guard_view crc f' = guard_view crc f \<and> pf_dirty f' = [] \<and> pf_disk f' = pf_disk f
    \<and> guard_next f' = guard_next f"
proof -
  let ?c = "pf_pages f @ replicate (guard_next f - length (pf_pages f)) None"
  have "\<forall>n \<in> fst ` set (pf_dirty f). unat n < length ?c"
    using ok by (auto simp: guard_ok_def)
  then obtain c' where c': "res_fold publish (pf_dirty f) ?c = Inr c'"
    "\<forall>n. cache_get c' n = (case map_of (pf_dirty f) n of Some p \<Rightarrow> Some p | None \<Rightarrow> cache_get ?c n)"
    using publish_fold [of "pf_dirty f" ?c] ok by (auto simp: guard_ok_def)
  let ?f = "f\<lparr>pf_pages := c', pf_num_pages := pf_num_pages f + pf_new_count f,
    pf_dirty := [], pf_new_count := 0\<rparr>"
  have run: "commit_guard f = (Inr (pf_dirty f), ?f)"
    using small c'(1) by (simp add: commit_guard_def guard_next_def Let_def)
  have np: "unat (pf_num_pages f + pf_new_count f) = guard_next f"
    using small by (simp add: guard_next_def unat_word_ariths)
  have pad: "cache_get ?c n = cache_get (pf_pages f) n" for n
    by (auto simp: cache_get_def nth_append)
  have "view_page crc ?f n = guard_view crc f n" for n
  proof (cases "guard_next f \<le> unat n")
    case True
    then have "map_of (pf_dirty f) n = None" "pf_num_pages f \<le> n"
      using ok by (force simp: guard_ok_def map_of_eq_None_iff guard_next_def word_le_nat_alt)+
    with True np show ?thesis
      by (simp add: view_page_eq guard_view_def word_le_nat_alt)
  next
    case False
    then have in': "\<not> pf_num_pages f + pf_new_count f \<le> n"
      using np by (simp add: word_le_nat_alt)
    show ?thesis
    proof (cases "map_of (pf_dirty f) n")
      case None
      then have "n \<notin> fst ` set (pf_dirty f)" by (simp add: map_of_eq_None_iff)
      then have "\<not> pf_num_pages f \<le> n"
        using ok False by (force simp: guard_ok_def word_le_nat_alt)
      then show ?thesis
        using None in' c'(2) pad
        by (simp add: view_page_eq guard_view_def read_page_from_disk_def read_page_raw_def Let_def
            cong: option.case_cong)
    next
      case (Some p)
      then show ?thesis
        using in' c'(2) by (simp add: view_page_eq guard_view_def)
    qed
  qed
  then have "view_page crc ?f = guard_view crc f" by (rule ext)
  moreover have "guard_view crc ?f n = view_page crc ?f n" for n
    by (simp add: guard_view_def)
  moreover have "guard_next ?f = guard_next f" using np by (simp add: guard_next_def)
  ultimately show ?thesis using run by (intro exI [of _ ?f]) auto
qed

lemma guard_ok_open: "guard_ok (page_file_open d)"
  by (simp add: guard_ok_def guard_next_def page_file_open_def Let_def)

lemma guard_ok_discard: "guard_ok (discard_guard f)"
  by (simp add: guard_ok_def guard_next_def discard_guard_def)

lemma discard_guard_view: "guard_view crc (discard_guard f) = view_page crc f"
proof -
  have "view_page crc (discard_guard f) = view_page crc f"
    by (rule view_page_cong) (simp_all add: discard_guard_def)
  then show ?thesis by (intro ext) (simp add: guard_view_def discard_guard_def)
qed

lemma guard_ok_put:
  assumes "guard_ok f" "unat n < guard_next f"
  shows "guard_ok (f\<lparr>pf_dirty := AList.update n p (pf_dirty f)\<rparr>)"
  using assms by (auto simp: guard_ok_def guard_next_def distinct_update dom_update)

section \<open>Syncing and reopening\<close>

lemma length_disk_write: "length (disk_write d off bs) = max (length d) (off + length bs)"
  by (simp add: disk_write_def)

lemma disk_write_read: "sub_bytes (disk_write d off bs) off (off + length bs) = bs"
  unfolding disk_write_def by (rule sub_bytes_blit_same) simp_all

lemma disk_write_other:
  assumes "e \<le> off \<or> off + length bs \<le> s" "e \<le> length d"
  shows "sub_bytes (disk_write d off bs) s e = sub_bytes d s e"
  using assms unfolding disk_write_def
  by (subst sub_bytes_blit_disjoint) (auto simp: sub_bytes_append_left)

definition raw_page :: "bytes \<Rightarrow> nat \<Rightarrow> page option" where
  "raw_page d i = (if i * PAGE_SIZE + PAGE_SIZE \<le> length d
     then Some (sub_bytes d (i * PAGE_SIZE) (i * PAGE_SIZE + PAGE_SIZE)) else None)"

lemma raw_page_write:
  assumes "page_ok p" "raw_page d j = Some q \<or> j = i"
  shows "raw_page (disk_write d (i * PAGE_SIZE) p) j = (if j = i then Some p else raw_page d j)"
proof (cases "j = i")
  case True
  with assms(1) disk_write_read [of d "i * PAGE_SIZE" p] show ?thesis
    by (simp add: raw_page_def length_disk_write page_ok_def)
next
  case False
  with assms have "j * PAGE_SIZE + PAGE_SIZE \<le> length d" "length p = PAGE_SIZE"
    by (auto simp: raw_page_def page_ok_def split: if_splits)
  moreover have "j * PAGE_SIZE + PAGE_SIZE \<le> i * PAGE_SIZE \<or> i * PAGE_SIZE + PAGE_SIZE \<le> j * PAGE_SIZE"
    using False by linarith
  ultimately show ?thesis
    using False by (simp add: raw_page_def length_disk_write disk_write_other)
qed

lemma nth_tail_shift: "Suc k \<le> j \<Longrightarrow> (s # c) ! (j - k) = c ! (j - Suc k)"
  by (simp add: nth_Cons')

lemma sync_fold:
  assumes "pf_ciphers f = []" "\<forall>p. Some p \<in> set c \<longrightarrow> page_ok p" "k + length c < 2 ^ 32"
  shows "\<exists>d. sm_fold sync_slot (enumerate k c) f = (Inr (), f\<lparr>pf_disk := d\<rparr>)
    \<and> (\<forall>j q. raw_page (pf_disk f) j = Some q \<longrightarrow> (\<forall>p. k \<le> j \<longrightarrow> j < k + length c \<longrightarrow> c ! (j - k) \<noteq> Some p)
         \<longrightarrow> raw_page d j = Some q)
    \<and> (\<forall>i p. i < length c \<longrightarrow> c ! i = Some p \<longrightarrow> raw_page d (k + i) = Some p)
    \<and> length d \<le> max (length (pf_disk f)) ((k + length c) * PAGE_SIZE)"
  using assms
proof (induction c arbitrary: k f)
  case Nil
  then show ?case by (intro exI [of _ "pf_disk f"]) simp
next
  case (Cons s c)
  show ?case
  proof (cases s)
    case None
    obtain d where d: "sm_fold sync_slot (enumerate (Suc k) c) f = (Inr (), f\<lparr>pf_disk := d\<rparr>)"
      "\<And>j q. raw_page (pf_disk f) j = Some q \<Longrightarrow>
         (\<forall>p. Suc k \<le> j \<longrightarrow> j < Suc k + length c \<longrightarrow> c ! (j - Suc k) \<noteq> Some p) \<Longrightarrow> raw_page d j = Some q"
      "\<And>i p. i < length c \<Longrightarrow> c ! i = Some p \<Longrightarrow> raw_page d (Suc k + i) = Some p"
      "length d \<le> max (length (pf_disk f)) ((Suc k + length c) * PAGE_SIZE)"
      using Cons.IH [of f "Suc k"] Cons.prems by auto
    show ?thesis
    proof (intro exI [of _ d] conjI allI impI)
      show "sm_fold sync_slot (enumerate k (s # c)) f = (Inr (), f\<lparr>pf_disk := d\<rparr>)"
        using None d(1) by (simp add: sm_bind_Inr sync_slot_def)
    next
      fix j q assume q: "raw_page (pf_disk f) j = Some q"
        and nt: "\<forall>p. k \<le> j \<longrightarrow> j < k + length (s # c) \<longrightarrow> (s # c) ! (j - k) \<noteq> Some p"
      have "\<forall>p. Suc k \<le> j \<longrightarrow> j < Suc k + length c \<longrightarrow> c ! (j - Suc k) \<noteq> Some p"
        using nt nth_tail_shift [of k j s c] by auto
      with d(2) [OF q] show "raw_page d j = Some q" by blast
    next
      show "length d \<le> max (length (pf_disk f)) ((k + length (s # c)) * PAGE_SIZE)"
        using d(4) by simp
    next
      fix i p assume "i < length (s # c)" "(s # c) ! i = Some p"
      then show "raw_page d (k + i) = Some p"
        using None d(3) by (cases i) auto
    qed
  next
    case (Some p)
    let ?f = "f\<lparr>pf_disk := disk_write (pf_disk f) (k * PAGE_SIZE) p\<rparr>"
    have ok: "page_ok p" using Cons.prems Some by simp
    obtain d where d: "sm_fold sync_slot (enumerate (Suc k) c) ?f = (Inr (), ?f\<lparr>pf_disk := d\<rparr>)"
      "\<And>j q. raw_page (pf_disk ?f) j = Some q \<Longrightarrow>
         (\<forall>p. Suc k \<le> j \<longrightarrow> j < Suc k + length c \<longrightarrow> c ! (j - Suc k) \<noteq> Some p) \<Longrightarrow> raw_page d j = Some q"
      "\<And>i p. i < length c \<Longrightarrow> c ! i = Some p \<Longrightarrow> raw_page d (Suc k + i) = Some p"
      "length d \<le> max (length (pf_disk ?f)) ((Suc k + length c) * PAGE_SIZE)"
      using Cons.IH [of ?f "Suc k"] Cons.prems by auto
    have here: "sync_slot (k, s) f = (Inr (), ?f)"
      using Cons.prems Some by (simp add: sync_slot_def Let_def)
    show ?thesis
    proof (intro exI [of _ d] conjI allI impI)
      show "sm_fold sync_slot (enumerate k (s # c)) f = (Inr (), f\<lparr>pf_disk := d\<rparr>)"
        using here d(1) by (simp add: sm_bind_Inr)
    next
      fix j q assume q: "raw_page (pf_disk f) j = Some q"
        and nt: "\<forall>p. k \<le> j \<longrightarrow> j < k + length (s # c) \<longrightarrow> (s # c) ! (j - k) \<noteq> Some p"
      have "j \<noteq> k" using nt Some by auto
      then have "raw_page (pf_disk ?f) j = Some q"
        using raw_page_write [OF ok, of "pf_disk f" j q k] q by simp
      moreover have "\<forall>p. Suc k \<le> j \<longrightarrow> j < Suc k + length c \<longrightarrow> c ! (j - Suc k) \<noteq> Some p"
        using nt nth_tail_shift [of k j s c] by auto
      ultimately show "raw_page d j = Some q" using d(2) by blast
    next
      show "length d \<le> max (length (pf_disk f)) ((k + length (s # c)) * PAGE_SIZE)"
        using d(4) ok by (simp add: length_disk_write page_ok_def)
    next
      fix i r assume i: "i < length (s # c)" "(s # c) ! i = Some r"
      show "raw_page d (k + i) = Some r"
      proof (cases i)
        case 0
        have "raw_page (pf_disk ?f) k = Some p"
          using raw_page_write [OF ok, of "pf_disk f" k _ k] by simp
        moreover have "r = p" using i 0 Some by simp
        ultimately show ?thesis using d(2) [of k p] 0 by simp
      next
        case (Suc i')
        with i d(3) [of i' r] show ?thesis by simp
      qed
    qed
  qed
qed

lemma raw_page_view:
  assumes "raw_page d (unat n) = Some p" "length d div PAGE_SIZE < 2 ^ 32"
  shows "view_page crc (page_file_open d) n = page_from_bytes crc p"
proof -
  from assms(1) have len: "unat n * PAGE_SIZE + PAGE_SIZE \<le> length d"
    and p: "p = sub_bytes d (unat n * PAGE_SIZE) (unat n * PAGE_SIZE + PAGE_SIZE)"
    by (auto simp: raw_page_def split: if_splits)
  from len have "unat n < length d div PAGE_SIZE" by simp
  with assms(2) have "\<not> as_u32 (length d div PAGE_SIZE) \<le> n"
    by (simp add: word_le_nat_alt)
  moreover have "cache_get (replicate k None) n = None" for k
    by (simp add: cache_get_def)
  ultimately show ?thesis
    using len p by (simp add: view_page_eq page_file_open_def Let_def read_page_from_disk_def
        read_page_raw_def)
qed

section \<open>Properties\<close>

text \<open>Reading a page may fill the shared cache, but no later read of any page, from the file or
  through the write guard, can tell the difference, and the write state is untouched.\<close>

theorem read_page_cache_invisible:
  "fst (read_page crc m (snd (read_page crc n f))) = fst (read_page crc m f)
    \<and> guard_view crc (snd (read_page crc n f)) = guard_view crc f
    \<and> pf_dirty (snd (read_page crc n f)) = pf_dirty f"
proof -
  obtain f' where f': "read_page crc n f = (view_page crc f n, f')" "view_page crc f' = view_page crc f"
      "pf_dirty f' = pf_dirty f"
    using read_page_run [of crc n f] by auto
  then have "guard_view crc f' = guard_view crc f"
    by (intro ext) (simp add: guard_view_def cong: option.case_cong)
  with f' show ?thesis by (simp flip: view_page_def)
qed

text \<open>C17. Committing a write guard publishes exactly what the writer saw: afterwards readers get,
  for every page number, the page (or the error) the guard returned before, the overlay is empty
  and the after-images handed to the log are the dirty pages.\<close>

theorem commit_publishes_overlay:
  assumes "guard_ok f" "guard_next f < 2 ^ 32"
  shows "\<exists>f'. commit_guard f = (Inr (pf_dirty f), f') \<and> view_page crc f' = guard_view crc f
    \<and> guard_view crc f' = guard_view crc f \<and> pf_dirty f' = [] \<and> guard_next f' = guard_next f"
  using commit_guard_run [OF assms, of crc] by auto

theorem commit_publishes_overlay_witness:
  "\<exists>f'. commit_guard (snd (allocate_page (page_file_open []))) = (Inr [(0, page_default)], f')
    \<and> view_page (\<lambda>_. 0) f' 0 = Inr page_default"
proof -
  let ?f = "snd (allocate_page (page_file_open []))"
  have f: "?f = (page_file_open [])\<lparr>pf_new_count := 1, pf_dirty := [(0, page_default)]\<rparr>"
    by (simp add: allocate_page_def page_file_open_def Let_def)
  have next1: "guard_next ?f = 1"
    unfolding f by (simp add: guard_next_def page_file_open_def Let_def)
  have "n = 0" if "unat n < 1" for n :: u32
    using that by (simp add: unat_eq_zero)
  then have ok: "guard_ok ?f"
    unfolding guard_ok_def next1 by (auto simp: f)
  have "pf_dirty ?f = [(0, page_default)]" "guard_view (\<lambda>_. 0) ?f 0 = Inr page_default"
    by (simp_all add: f guard_view_def)
  then show ?thesis
    using commit_publishes_overlay [OF ok, of "\<lambda>_. 0"] next1 by auto
qed

text \<open>Discarding a write guard rolls back: the guard reads as the committed file does, the
  committed pages are what they were, and the next allocation reuses the discarded numbers.\<close>

theorem discard_rolls_back:
  "guard_view crc (discard_guard f) = view_page crc f \<and> view_page crc (discard_guard f) = view_page crc f
    \<and> guard_next (discard_guard f) = unat (page_count f)"
  using discard_guard_view [of crc f] view_page_cong [of "discard_guard f" f crc]
  by (simp add: discard_guard_def guard_next_def page_count_def)

text \<open>C18. A synced file survives a reopen: after \<^verbatim>\<open>sync_all\<close> without encrypted pages,
  opening the bytes on disk reads back every page of the cache.\<close>

theorem sync_all_reopen:
  assumes "pf_ciphers f = []" "\<forall>p. Some p \<in> set (pf_pages f) \<longrightarrow> page_ok p"
    and "length (pf_pages f) < 2 ^ 32" "length (pf_disk f) div PAGE_SIZE < 2 ^ 32"
  shows "\<exists>f'. sync_all f = (Inr (), f') \<and>
    (\<forall>n p. cache_get (pf_pages f) n = Some p \<longrightarrow>
       view_page crc (page_file_open (pf_disk f')) n = page_from_bytes crc p)"
proof -
  obtain d where d: "sync_all f = (Inr (), f\<lparr>pf_disk := d\<rparr>)"
    "\<And>i p. i < length (pf_pages f) \<Longrightarrow> pf_pages f ! i = Some p \<Longrightarrow> raw_page d i = Some p"
    "length d \<le> max (length (pf_disk f)) (length (pf_pages f) * PAGE_SIZE)"
    using sync_fold [OF assms(1,2), of 0] assms(3) by (auto simp: sync_all_def)
  have "length d div PAGE_SIZE \<le> max (length (pf_disk f)) (length (pf_pages f) * PAGE_SIZE) div PAGE_SIZE"
    using d(3) by (rule div_le_mono)
  also have "\<dots> < 2 ^ 32"
    using assms(3,4) by (cases "length (pf_disk f) \<le> length (pf_pages f) * PAGE_SIZE") (simp_all add: max_def)
  finally have small: "length d div PAGE_SIZE < 2 ^ 32" .
  show ?thesis
  proof (intro exI [of _ "f\<lparr>pf_disk := d\<rparr>"] conjI impI allI d(1))
    fix n p assume "cache_get (pf_pages f) n = Some p"
    then show "view_page crc (page_file_open (pf_disk (f\<lparr>pf_disk := d\<rparr>))) n = page_from_bytes crc p"
      using d(2) [of "unat n" p] raw_page_view [of d n p crc] small
      by (auto simp: cache_get_def split: if_splits)
  qed
qed

theorem sync_all_reopen_witness:
  "\<exists>f'. sync_all ((page_file_open [])\<lparr>pf_pages := [None, Some (new_leaf (\<lambda>_. 7))]\<rparr>) = (Inr (), f')
    \<and> view_page (\<lambda>_. 7) (page_file_open (pf_disk f')) 1 = Inr (new_leaf (\<lambda>_. 7))"
  using sync_all_reopen [of "(page_file_open [])\<lparr>pf_pages := [None, Some (new_leaf (\<lambda>_. 7))]\<rparr>" "\<lambda>_. 7"]
  by (auto simp: page_file_open_def cache_get_def page_from_bytes_Inr)

end
