(* ===== verification/Overflow.thy ===== *)
theory Overflow
  imports Page_File
begin

text \<open>
  \<^verbatim>\<open>src/overflow.rs\<close> and the two halves of \<^verbatim>\<open>src/btree.rs\<close> that use it: a row too
  large for a leaf is cut into an inline part, which ends in a ten-byte trailer, and a chain of
  overflow pages. \<open>write_overflow_row\<close> writes the chain back to front; \<open>reassemble_row\<close>, over
  any page reader, is the loop of \<^verbatim>\<open>reassemble_row_reader\<close> and
  \<^verbatim>\<open>reassemble_row_writer\<close>. The lemmas show that the loop follows a chain to its end, that
  the writer builds one, and what the trailer test mistakes for a trailer.
\<close>

abbreviation OVERFLOW_PAYLOAD_MAX :: nat where "OVERFLOW_PAYLOAD_MAX \<equiv> 4076"
abbreviation OVERFLOW_MAGIC :: bytes where "OVERFLOW_MAGIC \<equiv> [0xFF, 0xFE]"
abbreviation OVERFLOW_TRAILER_SIZE :: nat where "OVERFLOW_TRAILER_SIZE \<equiv> 10"
abbreviation MAX_REASSEMBLE_SIZE :: nat where "MAX_REASSEMBLE_SIZE \<equiv> 64 * 1024 * 1024"

definition has_overflow :: "bytes \<Rightarrow> bool" where
  "has_overflow row_bytes \<longleftrightarrow>
     \<not> length row_bytes < OVERFLOW_TRAILER_SIZE \<and>
     (let trailer_start = length row_bytes - OVERFLOW_TRAILER_SIZE in
        row_bytes ! trailer_start = 0xFF \<and> row_bytes ! (trailer_start + 1) = 0xFE)"

definition decode_overflow_trailer :: "bytes \<Rightarrow> (nat \<times> u32 \<times> u32) res" where
  "decode_overflow_trailer row_bytes =
     res_bind (must (OVERFLOW_TRAILER_SIZE \<le> length row_bytes)) (\<lambda>_.
     let trailer_start = length row_bytes - OVERFLOW_TRAILER_SIZE in
     res_bind (u32_at row_bytes (trailer_start + 2)) (\<lambda>first_page.
     res_bind (u32_at row_bytes (trailer_start + 6)) (\<lambda>remaining_len.
     Inr (trailer_start, first_page, remaining_len))))"

definition append_overflow_trailer :: "bytes \<Rightarrow> u32 \<Rightarrow> u32 \<Rightarrow> bytes" where
  "append_overflow_trailer buf first_page remaining_len =
     buf @ OVERFLOW_MAGIC @ u32_to_le first_page @ u32_to_le remaining_len"

definition build_overflow_page :: "(bytes \<Rightarrow> u32) \<Rightarrow> bytes \<Rightarrow> u32 \<Rightarrow> page res" where
  "build_overflow_page crc data next_page =
     res_bind (must (length data \<le> OVERFLOW_PAYLOAD_MAX)) (\<lambda>_.
     res_bind (copy_at (new_overflow crc) PAGE_HEADER_SIZE data) (\<lambda>p.
     let p = set_overflow_payload_len p (as_u16 (length data));
         p = set_overflow_next p next_page
     in Inr (update_checksum crc p)))"

definition read_overflow_payload :: "page \<Rightarrow> bytes res" where
  "read_overflow_payload p =
     slice p PAGE_HEADER_SIZE (PAGE_HEADER_SIZE + unat (overflow_payload_len p))"

section \<open>Reassembling a row\<close>

function reassemble_loop ::
  "(u32 \<Rightarrow> page res) \<Rightarrow> nat \<Rightarrow> nat \<Rightarrow> u32 \<Rightarrow> nat \<Rightarrow> bytes \<Rightarrow> bytes res" where
  "reassemble_loop rd max_iterations iterations current left full =
     (if current \<noteq> 0 \<and> 0 < left then
        if max_iterations < iterations + 1
        then Inl (Fail (Corruption ''overflow chain cycle detected''))
        else
          res_bind (rd current) (\<lambda>p.
          res_bind (read_overflow_payload p) (\<lambda>payload.
          let n = min (length payload) left in
          reassemble_loop rd max_iterations (iterations + 1) (overflow_next p) (left - n)
            (full @ take n payload)))
      else Inr full)"
  by pat_completeness auto
termination
  by (relation "measure (\<lambda>(rd, mx, it, c, l, f). mx - it)") auto

declare reassemble_loop.simps [simp del]

definition reassemble_row :: "(u32 \<Rightarrow> page res) \<Rightarrow> bytes \<Rightarrow> bytes res" where
  "reassemble_row rd row_bytes =
     (if \<not> has_overflow row_bytes then Inr row_bytes
      else
        res_bind (decode_overflow_trailer row_bytes) (\<lambda>(inline_len, first_page, remaining).
        let total = inline_len + unat remaining in
        if MAX_REASSEMBLE_SIZE < total
        then Inl (Fail (Corruption ''overflow row exceeds safety limit''))
        else
          res_bind (slice row_bytes 0 inline_len) (\<lambda>full.
          reassemble_loop rd (unat remaining div OVERFLOW_PAYLOAD_MAX + 2) 0 first_page
            (unat remaining) full)))"

definition reassemble_row_reader :: "(bytes \<Rightarrow> u32) \<Rightarrow> bytes \<Rightarrow> page_file \<Rightarrow> bytes res" where
  "reassemble_row_reader crc row_bytes f = reassemble_row (view_page crc f) row_bytes"

definition reassemble_row_writer :: "(bytes \<Rightarrow> u32) \<Rightarrow> bytes \<Rightarrow> page_file \<Rightarrow> bytes res" where
  "reassemble_row_writer crc row_bytes f = reassemble_row (guard_view crc f) row_bytes"

section \<open>Writing a row\<close>

fun chunks :: "nat \<Rightarrow> bytes \<Rightarrow> bytes list" where
  "chunks k xs = (if xs = [] \<or> k = 0 then [] else take k xs # chunks k (drop k xs))"

declare chunks.simps [simp del]

fun write_chunks :: "(bytes \<Rightarrow> u32) \<Rightarrow> bytes list \<Rightarrow> u32 \<Rightarrow> u32 \<Rightarrow> u32 guarded" where
  "write_chunks crc [] next_page first_page = sm_ret first_page"
| "write_chunks crc (chunk # rest) next_page first_page =
     sm_bind allocate_page (\<lambda>page_no.
     sm_bind (sm_lift (build_overflow_page crc chunk next_page)) (\<lambda>p.
     sm_bind (put_page page_no p) (\<lambda>_.
     write_chunks crc rest page_no page_no)))"

definition write_overflow_row :: "(bytes \<Rightarrow> u32) \<Rightarrow> bytes \<Rightarrow> nat \<Rightarrow> bytes guarded" where
  "write_overflow_row crc row_data max_inline =
     sm_bind (sm_lift (must (OVERFLOW_TRAILER_SIZE \<le> max_inline))) (\<lambda>_.
     let inline_data_len = max_inline - OVERFLOW_TRAILER_SIZE in
     sm_bind (sm_lift (slice row_data inline_data_len (length row_data))) (\<lambda>overflow_data.
     sm_bind (write_chunks crc (rev (chunks OVERFLOW_PAYLOAD_MAX overflow_data)) 0 0) (\<lambda>first_page.
     sm_bind (sm_lift (slice row_data 0 inline_data_len)) (\<lambda>inline.
     sm_ret (append_overflow_trailer inline first_page (as_u32 (length overflow_data)))))))"

section \<open>Chains\<close>

fun chain :: "(u32 \<Rightarrow> page res) \<Rightarrow> u32 \<Rightarrow> (u32 \<times> bytes) list \<Rightarrow> bool" where
  "chain rd cur [] \<longleftrightarrow> cur = 0"
| "chain rd cur ((n, c) # rest) \<longleftrightarrow>
     cur = n \<and> n \<noteq> 0 \<and> (\<exists>p. rd n = Inr p \<and> read_overflow_payload p = Inr c
       \<and> chain rd (overflow_next p) rest)"

lemma chain_frame:
  "(\<And>n c. (n, c) \<in> set cs \<Longrightarrow> rd' n = rd n) \<Longrightarrow> chain rd cur cs \<Longrightarrow> chain rd' cur cs"
  by (induction rd cur cs rule: chain.induct) (simp, fastforce)

lemma reassemble_loop_chain:
  assumes "chain rd cur cs" "left = length (concat (map snd cs))" "it + length cs \<le> mx"
    and "\<forall>c \<in> set cs. snd c \<noteq> []"
  shows "reassemble_loop rd mx it cur left full = Inr (full @ concat (map snd cs))"
  using assms
proof (induction rd cur cs arbitrary: it left full rule: chain.induct)
  case (1 rd cur)
  then show ?case by (simp add: reassemble_loop.simps)
next
  case (2 rd cur n c rest)
  from "2.prems"(1) obtain p where p: "rd n = Inr p" "read_overflow_payload p = Inr c"
    "chain rd (overflow_next p) rest" "cur = n" "n \<noteq> 0" by auto
  have left: "0 < left" "min (length c) left = length c" "left - length c = length (concat (map snd rest))"
    using "2.prems"(2,4) by auto
  show ?case
    using p left "2.prems"(3,4)
    by (subst reassemble_loop.simps) (auto simp: Let_def intro: "2.IH" [THEN trans])
qed

lemma reassemble_loop_end: "reassemble_loop rd mx it 0 left full = Inr full"
  by (subst reassemble_loop.simps) simp

lemma length_append_trailer:
  "length (append_overflow_trailer buf fp rl) = length buf + 10"
  by (simp add: append_overflow_trailer_def)

lemma has_overflow_append: "has_overflow (append_overflow_trailer buf fp rl)"
  by (simp add: has_overflow_def append_overflow_trailer_def nth_append Let_def)

lemma decode_append_trailer:
  "decode_overflow_trailer (append_overflow_trailer buf fp rl) = Inr (length buf, fp, rl)"
  using u32_at_middle [of "length buf + 2" "buf @ OVERFLOW_MAGIC" fp "u32_to_le rl"]
    u32_at_middle [of "length buf + 6" "buf @ OVERFLOW_MAGIC @ u32_to_le fp" rl "[]"]
  by (simp add: decode_overflow_trailer_def length_append_trailer)
     (simp add: append_overflow_trailer_def)

lemma reassemble_row_chain:
  assumes "chain rd fp cs" "unat rl = length (concat (map snd cs))" "\<forall>c \<in> set cs. snd c \<noteq> []"
    and "length cs \<le> unat rl div OVERFLOW_PAYLOAD_MAX + 2"
    and "length buf + unat rl \<le> MAX_REASSEMBLE_SIZE"
  shows "reassemble_row rd (append_overflow_trailer buf fp rl) = Inr (buf @ concat (map snd cs))"
proof -
  have "slice (append_overflow_trailer buf fp rl) 0 (length buf) = Inr buf"
    by (simp add: slice_def append_overflow_trailer_def sub_bytes_prefix)
  then show ?thesis
    using reassemble_loop_chain [OF assms(1,2) _ assms(3), of 0] assms(4,5)
    by (simp add: reassemble_row_def has_overflow_append decode_append_trailer Let_def)
qed

section \<open>The writer builds a chain\<close>

lemma concat_chunks: "0 < k \<Longrightarrow> concat (chunks k xs) = xs"
proof (induction k xs rule: chunks.induct)
  case (1 k xs)
  then show ?case by (subst chunks.simps) auto
qed

lemma chunks_bounds: "c \<in> set (chunks k xs) \<Longrightarrow> c \<noteq> [] \<and> length c \<le> k"
proof (induction k xs rule: chunks.induct)
  case (1 k xs)
  then show ?case by (subst (asm) chunks.simps) (auto split: if_splits)
qed

lemma length_chunks: "0 < k \<Longrightarrow> length (chunks k xs) \<le> length xs div k + 1"
proof (induction k xs rule: chunks.induct)
  case (1 k xs)
  show ?case
  proof (cases "length xs \<le> k")
    case True
    then have "drop k xs = []" by simp
    moreover have "chunks k [] = []" by (simp add: chunks.simps)
    ultimately show ?thesis by (subst chunks.simps) auto
  next
    case False
    then have "length xs div k = (length xs - k) div k + 1"
      using "1.prems" by (simp add: le_div_geq)
    moreover have "chunks k xs = take k xs # chunks k (drop k xs)"
      using False "1.prems" by (subst chunks.simps) auto
    moreover have "xs \<noteq> []" using False by auto
    ultimately show ?thesis using "1.IH" "1.prems" by simp
  qed
qed

lemma build_overflow_page_run:
  assumes "length c \<le> OVERFLOW_PAYLOAD_MAX"
  shows "\<exists>p. build_overflow_page crc c nx = Inr p \<and> page_ok p \<and> read_overflow_payload p = Inr c
    \<and> overflow_next p = nx"
proof -
  let ?b = "blit (new_overflow crc) 16 c"
  let ?q = "set_next_leaf (set_num_rows ?b (as_u16 (length c))) nx"
  let ?p = "update_checksum crc ?q"
  have new: "length (new_overflow crc) = 4096"
    using new_pages_ok(4) [of crc] by (simp add: page_ok_def)
  then have b: "copy_at (new_overflow crc) PAGE_HEADER_SIZE c = Inr ?b" "page_ok ?b"
    using assms by (simp_all add: copy_at_def page_ok_def)
  have "sub_bytes ?p 16 (16 + length c) = sub_bytes ?b 16 (16 + length c)"
    using b(2) assms by simp
  also have "\<dots> = c"
    using new assms by (intro sub_bytes_blit_same) simp_all
  finally have "sub_bytes ?p 16 (16 + length c) = c" .
  moreover have "overflow_payload_len ?p = as_u16 (length c)" "overflow_next ?p = nx" "page_ok ?p"
    using b(2) by (simp_all add: overflow_payload_len_def overflow_next_def)
  ultimately have "read_overflow_payload ?p = Inr c"
    using assms by (simp add: read_overflow_payload_def slice_def page_ok_def)
  moreover have "build_overflow_page crc c nx = Inr ?p"
    using assms b(1) by (simp add: build_overflow_page_def set_overflow_payload_len_def
        set_overflow_next_def Let_def)
  ultimately show ?thesis
    using \<open>page_ok ?p\<close> \<open>overflow_next ?p = nx\<close> by blast
qed

text \<open>Changes confined to fresh pages: everything below the old allocation point reads as before.\<close>

definition grows :: "(bytes \<Rightarrow> u32) \<Rightarrow> page_file \<Rightarrow> page_file \<Rightarrow> bool" where
  "grows crc f f' \<longleftrightarrow> guard_next f \<le> guard_next f'
     \<and> (\<forall>n. unat n < guard_next f \<longrightarrow> guard_view crc f' n = guard_view crc f n)"

lemma grows_refl: "grows crc f f"
  by (simp add: grows_def)

lemma grows_trans: "grows crc f g \<Longrightarrow> grows crc g h \<Longrightarrow> grows crc f h"
  by (auto simp: grows_def)

lemma write_chunks_run:
  assumes "chain (guard_view crc f) next_page done" "\<forall>(n, c) \<in> set done. unat n < guard_next f"
    and "\<forall>c \<in> set cs. length c \<le> OVERFLOW_PAYLOAD_MAX"
    and "0 < guard_next f" "guard_next f + length cs < 2 ^ 32"
  shows "\<exists>f' ns. write_chunks crc cs next_page next_page f = (Inr (hd (rev ns @ [next_page])), f')
    \<and> length ns = length cs \<and> (\<forall>n \<in> set ns. guard_next f \<le> unat n \<and> unat n < guard_next f')
    \<and> chain (guard_view crc f') (hd (rev ns @ [next_page])) (zip (rev ns) (rev cs) @ done)
    \<and> grows crc f f' \<and> guard_next f' = guard_next f + length cs"
  using assms
proof (induction cs arbitrary: next_page "done" f)
  case Nil
  then show ?case by (intro exI [of _ f] exI [of _ "[]"]) (simp add: grows_refl)
next
  case (Cons c cs)
  let ?n = "of_nat (guard_next f) :: u32"
  have n: "unat ?n = guard_next f" using Cons.prems(5) by simp
  then have n0: "?n \<noteq> 0" using Cons.prems(4) by (auto simp: word_unat_eq_iff)
  obtain p where p: "build_overflow_page crc c next_page = Inr p"
    "read_overflow_payload p = Inr c" "overflow_next p = next_page"
    using build_overflow_page_run [of c crc next_page] Cons.prems(3) by auto
  obtain f1 where f1: "allocate_page f = (Inr ?n, f1)"
    "guard_view crc f1 = (guard_view crc f)(?n := Inr page_default)" "guard_next f1 = Suc (guard_next f)"
    using allocate_page_run [of f crc] Cons.prems(5) by auto
  obtain f2 where f2: "put_page ?n p f1 = (Inr (), f2)"
    "guard_view crc f2 = (guard_view crc f1)(?n := Inr p)" "guard_next f2 = guard_next f1"
    using guard_store.put_run [of ?n p f1 crc] by auto
  have view: "guard_view crc f2 = (guard_view crc f)(?n := Inr p)" using f1 f2 by simp
  have step: "write_chunks crc (c # cs) next_page next_page f = write_chunks crc cs ?n ?n f2"
    using f1(1) f2(1) p(1) by (simp add: sm_bind_def)
  have old: "guard_view crc f2 m = guard_view crc f m" if "unat m < guard_next f" for m
    using that n view by (auto simp: word_unat_eq_iff)
  have "chain (guard_view crc f2) next_page done"
    using chain_frame [OF _ Cons.prems(1), of "guard_view crc f2"] old Cons.prems(2) by fastforce
  then have "chain (guard_view crc f2) ?n ((?n, c) # done)"
    using p view n0 by simp
  moreover have "\<forall>(m, c) \<in> set ((?n, c) # done). unat m < guard_next f2"
    using Cons.prems(2) n f1(3) f2(3) by fastforce
  ultimately obtain f' ns where ih:
    "write_chunks crc cs ?n ?n f2 = (Inr (hd (rev ns @ [?n])), f')" "length ns = length cs"
    "\<forall>m \<in> set ns. guard_next f2 \<le> unat m \<and> unat m < guard_next f'"
    "chain (guard_view crc f') (hd (rev ns @ [?n])) (zip (rev ns) (rev cs) @ (?n, c) # done)"
    "grows crc f2 f'" "guard_next f' = guard_next f2 + length cs"
    using Cons.IH [of f2 ?n "(?n, c) # done"] Cons.prems(3-5) f1(3) f2(3) by auto
  have "grows crc f f2" using old f1(3) f2(3) by (simp add: grows_def)
  then show ?case
    using step ih n f1(3) f2(3) grows_trans
    by (intro exI [of _ f'] exI [of _ "?n # ns"]) (auto simp: hd_append)
qed

section \<open>Stored rows\<close>

text \<open>
  The bytes in a leaf stand for a row: any reader that agrees on the given overflow pages
  reassembles it.
\<close>

definition stands_for :: "(u32 \<Rightarrow> page res) \<Rightarrow> u32 set \<Rightarrow> bytes \<Rightarrow> bytes \<Rightarrow> bool" where
  "stands_for rd ps inline row \<longleftrightarrow>
     (\<forall>rd'. (\<forall>n \<in> ps. rd' n = rd n) \<longrightarrow> reassemble_row rd' inline = Inr row)"

lemma stands_for_read: "stands_for rd ps inline row \<Longrightarrow> reassemble_row rd inline = Inr row"
  by (simp add: stands_for_def)

lemma stands_for_frame:
  "stands_for rd ps inline row \<Longrightarrow> (\<And>n. n \<in> ps \<Longrightarrow> rd' n = rd n) \<Longrightarrow> stands_for rd' ps inline row"
  by (simp add: stands_for_def)

lemma stands_for_inline: "\<not> has_overflow row \<Longrightarrow> stands_for rd {} row row"
  by (simp add: stands_for_def reassemble_row_def)

lemma write_overflow_row_run:
  assumes "4064 \<le> length row" "length row \<le> MAX_REASSEMBLE_SIZE"
    and "0 < guard_next f" "guard_next f + length row div OVERFLOW_PAYLOAD_MAX + 1 < 2 ^ 32"
  shows "\<exists>f' inline ps. write_overflow_row crc row 4074 f = (Inr inline, f')
    \<and> length inline = 4074 \<and> take 4064 inline = take 4064 row
    \<and> stands_for (guard_view crc f') ps inline row
    \<and> (\<forall>n \<in> ps. guard_next f \<le> unat n \<and> unat n < guard_next f') \<and> grows crc f f'
    \<and> guard_next f' \<le> guard_next f + length row div OVERFLOW_PAYLOAD_MAX + 1"
proof -
  let ?o = "drop 4064 row" and ?cs = "rev (chunks OVERFLOW_PAYLOAD_MAX (drop 4064 row))"
  have len: "length (chunks OVERFLOW_PAYLOAD_MAX ?o) \<le> length ?o div OVERFLOW_PAYLOAD_MAX + 1"
    by (rule length_chunks) simp
  have "length ?o div OVERFLOW_PAYLOAD_MAX \<le> length row div OVERFLOW_PAYLOAD_MAX"
    by (rule div_le_mono) simp
  with len have n: "length ?cs \<le> length row div OVERFLOW_PAYLOAD_MAX + 1" by simp
  have small: "\<forall>c \<in> set ?cs. length c \<le> OVERFLOW_PAYLOAD_MAX"
    using chunks_bounds by fastforce
  obtain f' ns where w:
    "write_chunks crc ?cs 0 0 f = (Inr (hd (rev ns @ [0])), f')" "length ns = length ?cs"
    "\<forall>n \<in> set ns. guard_next f \<le> unat n \<and> unat n < guard_next f'"
    "chain (guard_view crc f') (hd (rev ns @ [0])) (zip (rev ns) (rev ?cs))"
    "grows crc f f'" "guard_next f' = guard_next f + length ?cs"
    using write_chunks_run [of crc f 0 "[]" ?cs] assms(3,4) n small by auto
  let ?fp = "hd (rev ns @ [0])" and ?rl = "as_u32 (length ?o)"
  let ?inline = "append_overflow_trailer (take 4064 row) ?fp ?rl" and ?z = "zip (rev ns) (rev ?cs)"
  have z: "map snd ?z = chunks OVERFLOW_PAYLOAD_MAX ?o" using w(2) by simp
  have rl: "unat ?rl = length ?o" using assms(2) by simp
  have "stands_for (guard_view crc f') (set ns) ?inline row"
    unfolding stands_for_def
  proof (intro allI impI)
    fix rd assume rd: "\<forall>n \<in> set ns. rd n = guard_view crc f' n"
    have "chain rd ?fp ?z"
      by (rule chain_frame [OF _ w(4)]) (use rd in \<open>auto dest: set_zip_leftD\<close>)
    moreover have "\<forall>c \<in> set ?z. snd c \<noteq> []"
      using chunks_bounds by (fastforce dest: set_zip_rightD)
    moreover have "length ?z \<le> unat ?rl div OVERFLOW_PAYLOAD_MAX + 2"
      using len rl w(2) by simp
    moreover have "unat ?rl = length (concat (map snd ?z))"
      using rl by (simp only: z) (simp add: concat_chunks)
    moreover have "length (take 4064 row) + unat ?rl \<le> MAX_REASSEMBLE_SIZE"
      using assms(1,2) rl by simp
    ultimately have "reassemble_row rd ?inline = Inr (take 4064 row @ concat (map snd ?z))"
      by (intro reassemble_row_chain)
    then show "reassemble_row rd ?inline = Inr row"
      by (simp only: z) (simp add: concat_chunks)
  qed
  moreover have "write_overflow_row crc row 4074 f = (Inr ?inline, f')"
    using assms(1) w(1) by (simp add: write_overflow_row_def Let_def slice_def sub_bytes_to_end
        sub_bytes_def sm_bind_Inr [where m = "write_chunks crc ?cs 0 0"])
  moreover have "length ?inline = 4074" "take 4064 ?inline = take 4064 row"
    using assms(1) by (simp_all add: length_append_trailer append_overflow_trailer_def)
  ultimately show ?thesis
    using w(3,5,6) n by (intro exI [of _ f'] exI [of _ ?inline] exI [of _ "set ns"]) simp
qed

section \<open>Properties\<close>

text \<open>C21. A row too large for a leaf survives being cut: after the write of its overflow chain, the
  inline part is as long as a leaf allows, the writer reassembles exactly the row from it, and only
  freshly allocated pages were touched.\<close>

theorem overflow_row_roundtrip:
  assumes "4064 \<le> length row" "length row \<le> MAX_REASSEMBLE_SIZE"
    and "0 < guard_next f" "guard_next f + length row div OVERFLOW_PAYLOAD_MAX + 1 < 2 ^ 32"
  shows "\<exists>f' inline. write_overflow_row crc row 4074 f = (Inr inline, f')
    \<and> length inline = 4074 \<and> reassemble_row_writer crc inline f' = Inr row \<and> grows crc f f'"
  using write_overflow_row_run [OF assms, of crc] stands_for_read
  by (fastforce simp: reassemble_row_writer_def)

theorem overflow_row_roundtrip_witness:
  "\<exists>f' inline. write_overflow_row (\<lambda>_. 0) (replicate 5000 7) 4074
       (snd (allocate_page (page_file_open []))) = (Inr inline, f')
     \<and> length inline = 4074 \<and> reassemble_row_writer (\<lambda>_. 0) inline f' = Inr (replicate 5000 7)"
proof -
  have "guard_next (snd (allocate_page (page_file_open []))) = 1"
    by (simp add: guard_next_def page_file_open_def allocate_page_def Let_def)
  then show ?thesis
    using overflow_row_roundtrip [of "replicate 5000 7" "snd (allocate_page (page_file_open []))" "\<lambda>_. 0"]
    by auto
qed

lemma false_trailer_bytes:
  "\<exists>a. length a = 19 \<and> encode_row r [(0, Integer 65279), (1, Boolean True)] =
     append_overflow_trailer a 0 0x01050000"
proof -
  let ?a = "u64_to_le r @ u16_to_le 2 @ u16_to_le 0 @ u16_to_le 0 @ u16_to_le 1 @ u16_to_le 9 @ [2]"
  have "sort_key fst [(0 :: u16, Integer 65279), (1, Boolean True)] = [(0, Integer 65279), (1, Boolean True)]"
    by simp
  moreover have "u64_to_le 65279 @ [5, 1] = OVERFLOW_MAGIC @ u32_to_le 0 @ u32_to_le 0x01050000"
    by (simp add: u64_to_le_def u32_to_le_def le_enc_numeral)
  ultimately have "encode_row r [(0, Integer 65279), (1, Boolean True)] =
      append_overflow_trailer ?a 0 0x01050000"
    by (simp add: encode_row_def encode_dir_def append_overflow_trailer_def Let_def)
  then show ?thesis by (intro exI [of _ ?a]) simp
qed

text \<open>C26. The trailer test is not exact: the two-column row \<open>(65279, true)\<close> ends in bytes that read
  as a trailer with first page 0, so reading it back through any page reader drops its last ten
  bytes without an error.\<close>

theorem false_trailer_truncates:
  "\<exists>a. reassemble_row rd (encode_row r [(0, Integer 65279), (1, Boolean True)]) = Inr a
     \<and> a = take 19 (encode_row r [(0, Integer 65279), (1, Boolean True)])
     \<and> length (encode_row r [(0, Integer 65279), (1, Boolean True)]) = 29"
proof -
  obtain a where a: "length a = 19" "encode_row r [(0, Integer 65279), (1, Boolean True)] =
     append_overflow_trailer a 0 0x01050000"
    using false_trailer_bytes by blast
  have "reassemble_row rd (append_overflow_trailer a 0 0x01050000) = Inr a"
    using a(1) by (simp add: reassemble_row_def has_overflow_append decode_append_trailer) (simp add: slice_def append_overflow_trailer_def sub_bytes_prefix reassemble_loop_end)
  with a show ?thesis
    by (intro exI [of _ a]) (simp add: length_append_trailer, simp add: append_overflow_trailer_def)
qed

end
