(* ===== verification/Leaf_Page.thy ===== *)
theory Leaf_Page
  imports Overflow
begin

text \<open>
  The leaf page helpers of \<^verbatim>\<open>src/btree.rs\<close>: row bounds, the binary search for a rowid,
  and the routines that rebuild a leaf from a snapshot of it (with a row inserted, with rows left
  out or replaced, or a range of the rows for a split). Each routine keeps the loop and the state of
  the source. \<open>leaf_page\<close> is the abstraction: the page is a leaf with the given links whose
  rows are the given byte strings. The lemmas show that every routine equals the placement of a row
  list, which is proved once to build a leaf, so each implements an operation on the row list.
\<close>

section \<open>Reading a leaf\<close>

definition row_bounds :: "page \<Rightarrow> nat \<Rightarrow> nat \<Rightarrow> (nat \<times> nat) res" where
  "row_bounds p i n =
     res_bind (row_offset p (as_u16 i)) (\<lambda>s.
     if i + 1 < n then res_bind (row_offset p (as_u16 (i + 1))) (\<lambda>e. Inr (unat s, unat e))
     else Inr (unat s, unat (free_space_offset p)))"

definition raw_row_offset :: "page \<Rightarrow> nat \<Rightarrow> u16 res" where
  "raw_row_offset data i = u16_at data (PAGE_HEADER_SIZE + i * 2)"

definition raw_free_space_offset :: "page \<Rightarrow> u16" where
  "raw_free_space_offset data = u16_from_le (sub_bytes data 6 8)"

definition row_bounds_raw :: "page \<Rightarrow> nat \<Rightarrow> nat \<Rightarrow> (nat \<times> nat) res" where
  "row_bounds_raw data i n =
     res_bind (raw_row_offset data i) (\<lambda>s.
     if i + 1 < n then res_bind (raw_row_offset data (i + 1)) (\<lambda>e. Inr (unat s, unat e))
     else Inr (unat s, unat (raw_free_space_offset data)))"

definition leaf_probe :: "page \<Rightarrow> nat \<Rightarrow> u64 \<Rightarrow> nat \<Rightarrow> ordering res" where
  "leaf_probe p n rowid mid =
     res_bind (row_bounds p mid n) (\<lambda>(s, e).
     res_bind (slice p s e) (\<lambda>d.
     res_bind (extract_id d) (\<lambda>mid_id. Inr (cmp mid_id rowid))))"

definition find_insertion_point :: "page \<Rightarrow> u64 \<Rightarrow> (nat \<times> bool) res" where
  "find_insertion_point p rowid =
     (let n = unat (num_rows p)
      in if n = 0 then Inr (0, False) else bsearch (leaf_probe p n rowid) 0 n)"

section \<open>Rebuilding a leaf\<close>

text \<open>Source row \<open>i\<close> of the snapshot: its size (\<^verbatim>\<open>e - s\<close>) and its bytes.\<close>

definition src_size :: "page \<Rightarrow> nat \<Rightarrow> nat \<Rightarrow> nat res" where
  "src_size snapshot i n =
     res_bind (row_bounds_raw snapshot i n) (\<lambda>(s, e).
     res_bind (must (s \<le> e)) (\<lambda>_. Inr (e - s)))"

definition src_row :: "page \<Rightarrow> nat \<Rightarrow> nat \<Rightarrow> bytes res" where
  "src_row snapshot i n = res_bind (row_bounds_raw snapshot i n) (\<lambda>(s, e). slice snapshot s e)"

definition place_row :: "page \<Rightarrow> nat \<Rightarrow> bytes \<Rightarrow> nat \<Rightarrow> page res" where
  "place_row p write_pos r dst_idx =
     res_bind (copy_at p write_pos r) (\<lambda>p. set_row_offset p (as_u16 dst_idx) (as_u16 write_pos))"

definition clear_leaf :: "page \<Rightarrow> u32 \<Rightarrow> u32 \<Rightarrow> page" where
  "clear_leaf p nx pv =
     (let p = set_flags p PAGE_LEAF;
          p = set_num_rows p 0;
          p = set_next_leaf p nx;
          p = set_prev_leaf p pv
      in blit p PAGE_HEADER_SIZE (replicate (PAGE_SIZE - CHECKSUM_SIZE - PAGE_HEADER_SIZE) 0))"

definition finish_leaf :: "page \<Rightarrow> nat \<Rightarrow> nat \<Rightarrow> page" where
  "finish_leaf p tot write_pos =
     set_free_space_offset (set_num_rows p (as_u16 tot)) (as_u16 write_pos)"

definition insert_step ::
  "page \<Rightarrow> nat \<Rightarrow> nat \<Rightarrow> bytes \<Rightarrow> nat \<Rightarrow> page \<times> nat \<times> nat \<Rightarrow> (page \<times> nat \<times> nat) res" where
  "insert_step snapshot old_count insert_pos new_row dst_idx = (\<lambda>(p, write_pos, src_idx).
     if dst_idx = insert_pos then
       res_bind (place_row p write_pos new_row dst_idx) (\<lambda>p.
       Inr (p, write_pos + length new_row, src_idx))
     else
       res_bind (src_row snapshot src_idx old_count) (\<lambda>r.
       res_bind (place_row p write_pos r dst_idx) (\<lambda>p.
       Inr (p, write_pos + length r, src_idx + 1))))"

definition write_leaf_with_insert :: "page \<Rightarrow> page \<Rightarrow> nat \<Rightarrow> nat \<Rightarrow> bytes \<Rightarrow> page res" where
  "write_leaf_with_insert p snapshot old_count insert_pos new_row =
     (let tot = old_count + 1;
          p = clear_leaf p (next_leaf snapshot) (prev_leaf snapshot)
      in res_bind
           (res_fold (insert_step snapshot old_count insert_pos new_row) [0..<tot]
              (p, PAGE_HEADER_SIZE + tot * 2, 0))
           (\<lambda>(p, write_pos, _). Inr (finish_leaf p tot write_pos)))"

definition skip_step ::
  "page \<Rightarrow> nat \<Rightarrow> nat list \<Rightarrow> nat \<Rightarrow> page \<times> nat \<times> nat \<times> nat \<Rightarrow> (page \<times> nat \<times> nat \<times> nat) res" where
  "skip_step snapshot old_count skip_indices src_idx = (\<lambda>(p, write_pos, dst_idx, skip_ptr).
     if skip_ptr < length skip_indices \<and> skip_indices ! skip_ptr = src_idx
     then Inr (p, write_pos, dst_idx, skip_ptr + 1)
     else
       res_bind (src_row snapshot src_idx old_count) (\<lambda>r.
       res_bind (place_row p write_pos r dst_idx) (\<lambda>p.
       Inr (p, write_pos + length r, dst_idx + 1, skip_ptr))))"

definition write_leaf_without_multiple :: "page \<Rightarrow> page \<Rightarrow> nat \<Rightarrow> nat list \<Rightarrow> page res" where
  "write_leaf_without_multiple p snapshot old_count skip_indices =
     res_bind (must (length skip_indices \<le> old_count)) (\<lambda>_.
     let tot = old_count - length skip_indices in
     res_bind
       (res_fold (skip_step snapshot old_count skip_indices) [0..<old_count]
          (clear_leaf p 0 0, PAGE_HEADER_SIZE + tot * 2, 0, 0))
       (\<lambda>(p, write_pos, _). Inr (finish_leaf p tot write_pos)))"

definition without_step ::
  "page \<Rightarrow> nat \<Rightarrow> nat \<Rightarrow> nat \<Rightarrow> page \<times> nat \<times> nat \<Rightarrow> (page \<times> nat \<times> nat) res" where
  "without_step snapshot old_count skip_pos src_idx = (\<lambda>(p, write_pos, dst_idx).
     if src_idx = skip_pos then Inr (p, write_pos, dst_idx)
     else
       res_bind (src_row snapshot src_idx old_count) (\<lambda>r.
       res_bind (place_row p write_pos r dst_idx) (\<lambda>p.
       Inr (p, write_pos + length r, dst_idx + 1))))"

definition write_leaf_without :: "page \<Rightarrow> page \<Rightarrow> nat \<Rightarrow> nat \<Rightarrow> page res" where
  "write_leaf_without p snapshot old_count skip_pos =
     res_bind (must (1 \<le> old_count)) (\<lambda>_.
     let tot = old_count - 1 in
     res_bind
       (res_fold (without_step snapshot old_count skip_pos) [0..<old_count]
          (clear_leaf p 0 0, PAGE_HEADER_SIZE + tot * 2, 0))
       (\<lambda>(p, write_pos, _). Inr (finish_leaf p tot write_pos)))"

type_synonym replacements = "(nat \<times> bytes) list"

definition repl_size_step :: "page \<Rightarrow> nat \<Rightarrow> replacements \<Rightarrow> nat \<Rightarrow> nat \<times> nat \<Rightarrow> (nat \<times> nat) res" where
  "repl_size_step snapshot old_count reps src_idx = (\<lambda>(tot, repl_ptr).
     if repl_ptr < length reps \<and> fst (reps ! repl_ptr) = src_idx
     then Inr (tot + length (snd (reps ! repl_ptr)), repl_ptr + 1)
     else res_bind (src_size snapshot src_idx old_count) (\<lambda>l. Inr (tot + l, repl_ptr)))"

definition repl_step ::
  "page \<Rightarrow> nat \<Rightarrow> replacements \<Rightarrow> nat \<Rightarrow> page \<times> nat \<times> nat \<Rightarrow> (page \<times> nat \<times> nat) res" where
  "repl_step snapshot old_count reps src_idx = (\<lambda>(p, write_pos, repl_ptr).
     if repl_ptr < length reps \<and> fst (reps ! repl_ptr) = src_idx then
       let new_data = snd (reps ! repl_ptr) in
       res_bind (place_row p write_pos new_data src_idx) (\<lambda>p.
       Inr (p, write_pos + length new_data, repl_ptr + 1))
     else
       res_bind (src_row snapshot src_idx old_count) (\<lambda>r.
       res_bind (place_row p write_pos r src_idx) (\<lambda>p.
       Inr (p, write_pos + length r, repl_ptr))))"

text \<open>The result pairs the page with the source's flag: false when the rows no longer fit.\<close>

definition write_leaf_with_replacements ::
  "(bytes \<Rightarrow> u32) \<Rightarrow> page \<Rightarrow> page \<Rightarrow> nat \<Rightarrow> replacements \<Rightarrow> (page \<times> bool) res" where
  "write_leaf_with_replacements crc p snapshot old_count reps =
     (let data_start = PAGE_HEADER_SIZE + old_count * 2 in
      res_bind (res_fold (repl_size_step snapshot old_count reps) [0..<old_count] (0, 0)) (\<lambda>(tot, _).
      if PAGE_SIZE < data_start + tot + CHECKSUM_SIZE then Inr (p, False)
      else
        let p = clear_leaf p (next_leaf snapshot) (prev_leaf snapshot) in
        res_bind (res_fold (repl_step snapshot old_count reps) [0..<old_count] (p, data_start, 0))
          (\<lambda>(p, write_pos, _).
           Inr (update_checksum crc (finish_leaf p old_count write_pos), True))))"

text \<open>Row \<open>vi\<close> of the rows with \<open>new_row\<close> inserted at \<open>insert_pos\<close>.\<close>

definition orig_idx :: "nat \<Rightarrow> nat \<Rightarrow> nat" where
  "orig_idx insert_pos vi = (if vi < insert_pos then vi else vi - 1)"

definition virtual_row :: "page \<Rightarrow> nat \<Rightarrow> nat \<Rightarrow> bytes \<Rightarrow> nat \<Rightarrow> bytes res" where
  "virtual_row snapshot old_count insert_pos new_row vi =
     (if vi = insert_pos then Inr new_row
      else src_row snapshot (orig_idx insert_pos vi) old_count)"

definition range_step ::
  "page \<Rightarrow> nat \<Rightarrow> nat \<Rightarrow> bytes \<Rightarrow> nat \<Rightarrow> nat \<Rightarrow> page \<times> nat \<Rightarrow> (page \<times> nat) res" where
  "range_step snapshot old_count insert_pos new_row range_start dst_idx = (\<lambda>(p, write_pos).
     res_bind (virtual_row snapshot old_count insert_pos new_row (range_start + dst_idx)) (\<lambda>r.
     res_bind (place_row p write_pos r dst_idx) (\<lambda>p. Inr (p, write_pos + length r))))"

definition write_leaf_range ::
  "page \<Rightarrow> page \<Rightarrow> nat \<Rightarrow> nat \<Rightarrow> bytes \<Rightarrow> nat \<Rightarrow> nat \<Rightarrow> page res" where
  "write_leaf_range p snapshot old_count insert_pos new_row range_start range_end =
     res_bind (must (range_start \<le> range_end)) (\<lambda>_.
     let count = range_end - range_start in
     res_bind
       (res_fold (range_step snapshot old_count insert_pos new_row range_start) [0..<count]
          (clear_leaf p 0 0, PAGE_HEADER_SIZE + count * 2))
       (\<lambda>(p, write_pos). Inr (finish_leaf p count write_pos)))"

definition extract_id_at_virtual_pos :: "page \<Rightarrow> nat \<Rightarrow> nat \<Rightarrow> bytes \<Rightarrow> nat \<Rightarrow> u64 res" where
  "extract_id_at_virtual_pos snapshot old_count insert_pos new_row vi =
     res_bind (virtual_row snapshot old_count insert_pos new_row vi) extract_id"

section \<open>The split point for a row with overflow\<close>

definition virtual_size :: "page \<Rightarrow> nat \<Rightarrow> nat \<Rightarrow> bytes \<Rightarrow> nat \<Rightarrow> nat res" where
  "virtual_size snapshot old_count insert_pos new_row vi =
     (if vi = insert_pos then Inr (length new_row)
      else src_size snapshot (orig_idx insert_pos vi) old_count)"

definition half_size :: "nat \<Rightarrow> nat \<Rightarrow> nat" where
  "half_size k data = PAGE_HEADER_SIZE + k * 2 + data + CHECKSUM_SIZE"

fun split_scan :: "nat list \<Rightarrow> nat list \<Rightarrow> nat \<Rightarrow> nat \<Rightarrow> nat" where
  "split_scan sizes [] data_sum best = best"
| "split_scan sizes (mid # mids) data_sum best =
     (let data_sum = data_sum + sizes ! (mid - 1)
      in if half_size mid data_sum \<le> PAGE_SIZE then split_scan sizes mids data_sum mid else best)"

fun split_fallback :: "nat list \<Rightarrow> nat \<Rightarrow> nat list \<Rightarrow> nat \<Rightarrow> nat" where
  "split_fallback sizes tot [] data_sum = tot div 2"
| "split_fallback sizes tot (mid # mids) data_sum =
     (if half_size mid data_sum \<le> PAGE_SIZE
         \<and> half_size (tot - mid) (sum_list (drop mid sizes)) \<le> PAGE_SIZE
      then mid
      else split_fallback sizes tot mids (data_sum + sizes ! mid))"

definition find_overflow_split_point :: "page \<Rightarrow> nat \<Rightarrow> nat \<Rightarrow> bytes \<Rightarrow> nat \<Rightarrow> nat res" where
  "find_overflow_split_point snapshot old_count insert_pos new_row tot =
     res_bind (res_map (virtual_size snapshot old_count insert_pos new_row) [0..<tot]) (\<lambda>sizes.
     let best = split_scan sizes [1..<tot] 0 1 in
     res_bind (must (best \<le> tot)) (\<lambda>_.
     if half_size (tot - best) (sum_list (drop best sizes)) \<le> PAGE_SIZE then Inr best
     else res_bind (must (0 < length sizes)) (\<lambda>_.
       Inr (split_fallback sizes tot [1..<tot] (sizes ! 0)))))"

section \<open>The abstraction\<close>

definition row_start :: "bytes list \<Rightarrow> nat \<Rightarrow> nat" where
  "row_start rows i = 16 + length rows * 2 + length (concat (take i rows))"

definition leaf_size :: "bytes list \<Rightarrow> nat" where
  "leaf_size rows = 16 + length rows * 2 + length (concat rows) + 4"

definition leaf_page :: "page \<Rightarrow> u32 \<Rightarrow> u32 \<Rightarrow> bytes list \<Rightarrow> bool" where
  "leaf_page p nx pv rows \<longleftrightarrow>
     page_ok p \<and> magic p = MAGIC \<and> flags p = PAGE_LEAF \<and> num_rows p = as_u16 (length rows)
     \<and> next_leaf p = nx \<and> prev_leaf p = pv
     \<and> free_space_offset p = as_u16 (row_start rows (length rows)) \<and> leaf_size rows \<le> PAGE_SIZE
     \<and> (\<forall>i < length rows. sub_bytes p (16 + i * 2) (18 + i * 2) = u16_to_le (as_u16 (row_start rows i)))
     \<and> (\<forall>i < length rows. sub_bytes p (row_start rows i) (row_start rows (Suc i)) = rows ! i)"

lemma row_start_Suc:
  "i < length rows \<Longrightarrow> row_start rows (Suc i) = row_start rows i + length (rows ! i)"
  by (simp add: row_start_def length_concat_take_Suc)

lemma row_start_le: "row_start rows i \<le> row_start rows (length rows)"
  by (simp add: row_start_def length_concat_take_le)

lemma row_start_end: "row_start rows (length rows) = leaf_size rows - 4"
  by (simp add: row_start_def leaf_size_def)

lemma leaf_pageD:
  assumes "leaf_page p nx pv rows"
  shows "page_ok p" "magic p = MAGIC" "flags p = PAGE_LEAF" "num_rows p = as_u16 (length rows)"
    "next_leaf p = nx" "prev_leaf p = pv" "leaf_size rows \<le> PAGE_SIZE" "length p = 4096"
    "unat (num_rows p) = length rows" "is_leaf p" "length rows < 2039"
    "row_start rows i \<le> 4092"
proof -
  show "page_ok p" "magic p = MAGIC" "flags p = PAGE_LEAF" "num_rows p = as_u16 (length rows)"
    "next_leaf p = nx" "prev_leaf p = pv" "leaf_size rows \<le> PAGE_SIZE"
    using assms by (simp_all add: leaf_page_def)
  then show "length p = 4096" "is_leaf p" "length rows < 2039" "unat (num_rows p) = length rows"
    by (simp_all add: page_ok_def is_leaf_def leaf_size_def)
  show "row_start rows i \<le> 4092"
    using \<open>leaf_size rows \<le> PAGE_SIZE\<close> row_start_le [of rows i] by (simp add: row_start_end)
qed

section \<open>Reading a represented leaf\<close>

lemma leaf_slot:
  assumes "leaf_page p nx pv rows" "i < length rows"
  shows "u16_at p (16 + i * 2) = Inr (as_u16 (row_start rows i))"
proof -
  note d = leaf_pageD [OF assms(1)]
  have "sub_bytes p (16 + i * 2) (18 + i * 2) = u16_to_le (as_u16 (row_start rows i))"
    using assms by (simp add: leaf_page_def)
  then show ?thesis
    using d(8,11) assms(2) by (simp add: u16_at_Inr add.commute)
qed

lemma leaf_row_bounds:
  assumes "leaf_page p nx pv rows" "i < length rows"
  shows "row_bounds p i (length rows) = Inr (row_start rows i, row_start rows (Suc i))"
    and "row_bounds_raw p i (length rows) = Inr (row_start rows i, row_start rows (Suc i))"
proof -
  note d = leaf_pageD [OF assms(1)]
  have free: "free_space_offset p = as_u16 (row_start rows (length rows))"
    using assms(1) by (simp add: leaf_page_def)
  have small: "row_start rows j mod 65536 = row_start rows j" for j
    using d(12) [of j] by simp
  have i: "i mod 65536 = i" "Suc i < length rows \<Longrightarrow> Suc i mod 65536 = Suc i"
    using assms(2) d(11) by simp_all
  have last: "\<not> Suc i < length rows \<Longrightarrow> length rows = Suc i" using assms(2) by simp
  show "row_bounds p i (length rows) = Inr (row_start rows i, row_start rows (Suc i))"
    using leaf_slot [OF assms] leaf_slot [OF assms(1), of "Suc i"] free last
    by (auto simp: row_bounds_def row_offset_def i small simp del: of_nat_Suc)
  show "row_bounds_raw p i (length rows) = Inr (row_start rows i, row_start rows (Suc i))"
    using leaf_slot [OF assms] leaf_slot [OF assms(1), of "Suc i"] free last
    by (auto simp: row_bounds_raw_def raw_row_offset_def raw_free_space_offset_def
        free_space_offset_def small)
qed

lemma leaf_slice:
  assumes "leaf_page p nx pv rows" "i < length rows"
  shows "slice p (row_start rows i) (row_start rows (Suc i)) = Inr (rows ! i)"
  using assms leaf_pageD(8,12) [OF assms(1)] leaf_pageD(12) [OF assms(1), of "Suc i"]
  by (simp add: slice_def leaf_page_def row_start_Suc)

lemma leaf_src:
  assumes "leaf_page p nx pv rows" "i < length rows"
  shows "src_row p i (length rows) = Inr (rows ! i)"
    and "src_size p i (length rows) = Inr (length (rows ! i))"
  using leaf_row_bounds(2) [OF assms] leaf_slice [OF assms] assms(2)
  by (simp_all add: src_row_def src_size_def row_start_Suc)

text \<open>The rowid of stored row bytes, and leaves in rowid order.\<close>

definition row_id :: "bytes \<Rightarrow> u64" where
  "row_id r = u64_from_le (sub_bytes r 0 8)"

definition rows_sorted :: "bytes list \<Rightarrow> bool" where
  "rows_sorted rows \<longleftrightarrow> (\<forall>r \<in> set rows. 8 \<le> length r) \<and> sorted_wrt (<) (map row_id rows)"

lemma extract_id_row: "8 \<le> length r \<Longrightarrow> extract_id r = Inr (row_id r)"
  by (simp add: extract_id_def row_id_def u64_at_Inr)

lemma leaf_probe_row:
  assumes "leaf_page p nx pv rows" "i < length rows" "8 \<le> length (rows ! i)"
  shows "leaf_probe p (length rows) k i = Inr (cmp (row_id (rows ! i)) k)"
  using leaf_row_bounds(1) [OF assms(1,2)] leaf_slice [OF assms(1,2)] assms(3)
  by (simp add: leaf_probe_def extract_id_row)

definition leaf_dir_valid :: "page \<times> bytes list \<Rightarrow> bool" where
  "leaf_dir_valid d \<longleftrightarrow> (\<exists>nx pv. leaf_page (fst d) nx pv (snd d)) \<and> rows_sorted (snd d)"

interpretation leaf_dir: strict_directory leaf_dir_valid "\<lambda>d. length (snd d)"
    "\<lambda>d i. row_id (snd d ! i)" "\<lambda>d. leaf_probe (fst d) (length (snd d))"
proof
  fix d k i assume "leaf_dir_valid d" "i < length (snd d)"
  then show "leaf_probe (fst d) (length (snd d)) k i = Inr (cmp (row_id (snd d ! i)) k)"
    by (auto simp: leaf_dir_valid_def rows_sorted_def intro: leaf_probe_row)
next
  fix d i j assume d: "leaf_dir_valid d" "i < j" "j < length (snd d)"
  then have "sorted_wrt (<) (map row_id (snd d))" by (simp add: leaf_dir_valid_def rows_sorted_def)
  with d show "row_id (snd d ! i) < row_id (snd d ! j)" by (simp add: sorted_wrt_iff_nth_less)
  then show "row_id (snd d ! i) \<le> row_id (snd d ! j)" by simp
qed

lemma find_insertion_point_found:
  assumes "leaf_page p nx pv rows" "rows_sorted rows" "i < length rows" "row_id (rows ! i) = k"
  shows "find_insertion_point p k = Inr (i, True)"
proof -
  have "leaf_dir_valid (p, rows)" using assms by (auto simp: leaf_dir_valid_def)
  from leaf_dir.search_at [OF this, of i] show ?thesis
    using assms leaf_pageD(9) [OF assms(1)] by (auto simp: find_insertion_point_def Let_def)
qed

lemma find_insertion_point_absent:
  assumes "leaf_page p nx pv rows" "rows_sorted rows" "k \<notin> row_id ` set rows"
  shows "\<exists>i \<le> length rows. find_insertion_point p k = Inr (i, False)
    \<and> (\<forall>r \<in> set (take i rows). row_id r < k) \<and> (\<forall>r \<in> set (drop i rows). k < row_id r)"
proof (cases "rows = []")
  case True
  then show ?thesis
    using leaf_pageD(9) [OF assms(1)] by (simp add: find_insertion_point_def)
next
  case False
  have "leaf_dir_valid (p, rows)" using assms by (auto simp: leaf_dir_valid_def)
  from leaf_dir.search_not_found [OF this, of k] assms(3) obtain i where i: "i \<le> length rows"
    "bsearch (leaf_probe p (length rows) k) 0 (length rows) = Inr (i, False)"
    "\<forall>j < i. row_id (rows ! j) < k" "\<forall>j. i \<le> j \<and> j < length rows \<longrightarrow> k < row_id (rows ! j)"
    by (force simp: in_set_conv_nth)
  then have "\<forall>r \<in> set (take i rows). row_id r < k" "\<forall>r \<in> set (drop i rows). k < row_id r"
    by (auto simp: in_set_conv_nth)
  with i False show ?thesis
    using leaf_pageD(9) [OF assms(1)] by (auto simp: find_insertion_point_def Let_def)
qed

section \<open>Placing a list of rows\<close>

fun place_all :: "bytes list \<Rightarrow> nat \<Rightarrow> nat \<Rightarrow> page \<Rightarrow> (page \<times> nat) res" where
  "place_all [] dst wp p = Inr (p, wp)"
| "place_all (r # rs) dst wp p =
     res_bind (place_row p wp r dst) (place_all rs (dst + 1) (wp + length r))"

text \<open>A page whose header is set and where the first \<open>k\<close> of the rows are in place.\<close>

definition placed :: "u32 \<Rightarrow> u32 \<Rightarrow> bytes list \<Rightarrow> nat \<Rightarrow> page \<Rightarrow> bool" where
  "placed nx pv rows k p \<longleftrightarrow>
     page_ok p \<and> magic p = MAGIC \<and> flags p = PAGE_LEAF \<and> next_leaf p = nx \<and> prev_leaf p = pv
     \<and> (\<forall>i < k. sub_bytes p (16 + i * 2) (18 + i * 2) = u16_to_le (as_u16 (row_start rows i)))
     \<and> (\<forall>i < k. sub_bytes p (row_start rows i) (row_start rows (Suc i)) = rows ! i)"

lemma placed_clear:
  assumes "page_ok p" "magic p = MAGIC"
  shows "placed nx pv rows 0 (clear_leaf p nx pv)"
proof -
  define q where "q = set_prev_leaf (set_next_leaf (set_num_rows (set_flags p PAGE_LEAF) 0) nx) pv"
  have "page_ok q" "magic q = MAGIC" "flags q = PAGE_LEAF" "next_leaf q = nx" "prev_leaf q = pv"
    using assms by (simp_all add: q_def)
  moreover have "clear_leaf p nx pv = blit q 16 (replicate 4076 0)"
    by (simp add: clear_leaf_def q_def)
  ultimately show ?thesis by (simp add: placed_def page_ok_def)
qed

lemma row_start_mono: "i \<le> j \<Longrightarrow> row_start rows i \<le> row_start rows j"
  by (simp add: row_start_def length_concat_take_mono)

lemma place_row_placed:
  assumes pl: "placed nx pv rows k p" and k: "k < length rows" and size: "leaf_size rows \<le> PAGE_SIZE"
  shows "\<exists>p'. place_row p (row_start rows k) (rows ! k) k = Inr p' \<and> placed nx pv rows (Suc k) p'"
proof -
  let ?q = "blit p (row_start rows k) (rows ! k)"
  let ?r = "blit ?q (16 + k * 2) (u16_to_le (as_u16 (row_start rows k)))"
  have p: "page_ok p" "length p = 4096" using pl by (simp_all add: placed_def page_ok_def)
  have n: "length rows < 2040" using size by (simp add: leaf_size_def)
  have fit: "row_start rows k + length (rows ! k) \<le> 4092"
    using size row_start_le [of rows "Suc k"] k by (simp add: row_start_Suc row_start_end)
  have q: "page_ok ?q" using p fit by (simp add: page_ok_def)
  have r: "page_ok ?r" using q k n by (simp add: page_ok_def)
  have lo: "16 + length rows * 2 \<le> row_start rows i" for i by (simp add: row_start_def)
  have run: "place_row p (row_start rows k) (rows ! k) k = Inr ?r"
    using p fit k n by (simp add: place_row_def copy_at_def set_row_offset_def)
  have slots: "sub_bytes ?r (16 + i * 2) (18 + i * 2) = u16_to_le (as_u16 (row_start rows i))"
    if "i < Suc k" for i
  proof (cases "i = k")
    case True
    then show ?thesis using q k n by (simp add: sub_bytes_blit_same page_ok_def)
  next
    case False
    with that k have "sub_bytes ?r (16 + i * 2) (18 + i * 2) = sub_bytes ?q (16 + i * 2) (18 + i * 2)"
      using q n by (intro sub_bytes_blit_disjoint) (auto simp: page_ok_def)
    also have "\<dots> = sub_bytes p (16 + i * 2) (18 + i * 2)"
      using that k p fit lo [of k] by (intro sub_bytes_blit_disjoint) auto
    finally show ?thesis using pl that False by (simp add: placed_def)
  qed
  have data: "sub_bytes ?r (row_start rows i) (row_start rows (Suc i)) = rows ! i"
    if "i < Suc k" for i
  proof -
    have "sub_bytes ?r (row_start rows i) (row_start rows (Suc i))
        = sub_bytes ?q (row_start rows i) (row_start rows (Suc i))"
      using q k n lo [of i] by (intro sub_bytes_blit_disjoint) (auto simp: page_ok_def)
    also have "\<dots> = rows ! i"
    proof (cases "i = k")
      case True
      then show ?thesis using p fit k by (simp add: row_start_Suc sub_bytes_blit_same)
    next
      case False
      with that have "row_start rows (Suc i) \<le> row_start rows k" by (simp add: row_start_mono)
      then have "sub_bytes ?q (row_start rows i) (row_start rows (Suc i))
          = sub_bytes p (row_start rows i) (row_start rows (Suc i))"
        using p fit by (intro sub_bytes_blit_disjoint) auto
      then show ?thesis using pl that False by (simp add: placed_def)
    qed
    finally show ?thesis .
  qed
  have hdr: "16 \<le> row_start rows k" using lo [of k] by simp
  have "placed nx pv rows (Suc k) ?r"
    using pl p q r fit k n hdr slots data by (simp add: placed_def page_ok_def)
  with run show ?thesis by blast
qed

lemma place_all_placed:
  assumes "placed nx pv rows k p" "k \<le> length rows" "leaf_size rows \<le> PAGE_SIZE"
  shows "\<exists>p'. place_all (drop k rows) k (row_start rows k) p =
      Inr (p', row_start rows (length rows)) \<and> placed nx pv rows (length rows) p'"
  using assms(2,1)
proof (induction k arbitrary: p rule: inc_induct)
  case base
  then show ?case by simp
next
  case (step k)
  obtain p1 where p1: "place_row p (row_start rows k) (rows ! k) k = Inr p1"
    "placed nx pv rows (Suc k) p1"
    using place_row_placed [OF step.prems step.hyps(2) assms(3)] by blast
  with step.IH [OF p1(2)] step.hyps(2) show ?case
    by (simp add: Cons_nth_drop_Suc [symmetric] row_start_Suc)
qed

lemma finish_placed:
  assumes "placed nx pv rows (length rows) p" "leaf_size rows \<le> PAGE_SIZE"
  shows "leaf_page (finish_leaf p (length rows) (row_start rows (length rows))) nx pv rows"
proof -
  have lo: "16 \<le> row_start rows i" for i by (simp add: row_start_def)
  show ?thesis
    using assms by (simp add: placed_def leaf_page_def finish_leaf_def lo)
qed

text \<open>Placing all rows on a cleared page builds the leaf.\<close>

lemma place_all_leaf:
  assumes "page_ok p" "magic p = MAGIC" "leaf_size rows \<le> PAGE_SIZE"
  shows "\<exists>p'. place_all rows 0 (16 + length rows * 2) (clear_leaf p nx pv) =
      Inr (p', row_start rows (length rows))
    \<and> leaf_page (finish_leaf p' (length rows) (row_start rows (length rows))) nx pv rows"
  using place_all_placed [OF placed_clear [OF assms(1,2)], of rows] finish_placed assms(3)
  by (fastforce simp: row_start_def)

lemma leaf_page_update_checksum:
  assumes "leaf_page p nx pv rows"
  shows "leaf_page (update_checksum crc p) nx pv rows"
proof -
  note d = leaf_pageD [OF assms]
  have "sub_bytes (update_checksum crc p) s e = sub_bytes p s e" if "e \<le> 4092" for s e
    using d(1) that by simp
  then show ?thesis
    using assms d(1,11) leaf_pageD(12) [OF assms] by (auto simp: leaf_page_def)
qed

lemma leaf_page_links:
  assumes "leaf_page p nx pv rows"
  shows "leaf_page (set_next_leaf p nx') nx' pv rows" "leaf_page (set_prev_leaf p pv') nx pv' rows"
proof -
  have lo: "16 \<le> row_start rows i" for i by (simp add: row_start_def)
  show "leaf_page (set_next_leaf p nx') nx' pv rows" "leaf_page (set_prev_leaf p pv') nx pv' rows"
    using assms by (simp_all add: leaf_page_def lo)
qed

lemma leaf_page_new: "leaf_page (new_leaf crc) 0 0 []"
  by (simp add: leaf_page_def row_start_def leaf_size_def)

section \<open>The routines place row lists\<close>

definition inserted :: "nat \<Rightarrow> bytes \<Rightarrow> bytes list \<Rightarrow> bytes list" where
  "inserted pos r rows = take pos rows @ r # drop pos rows"

definition virtual_nth :: "nat \<Rightarrow> bytes \<Rightarrow> bytes list \<Rightarrow> nat \<Rightarrow> bytes" where
  "virtual_nth pos r rows vi = (if vi = pos then r else rows ! orig_idx pos vi)"

lemma inserted_ne [simp]: "inserted pos r rows \<noteq> []"
  by (simp add: inserted_def)

lemma length_inserted [simp]: "pos \<le> length rows \<Longrightarrow> length (inserted pos r rows) = Suc (length rows)"
  by (simp add: inserted_def)

lemma nth_inserted:
  "pos \<le> length rows \<Longrightarrow> vi \<le> length rows \<Longrightarrow> inserted pos r rows ! vi = virtual_nth pos r rows vi"
  by (auto simp: inserted_def virtual_nth_def orig_idx_def nth_append nth_Cons' min_def)

lemma set_inserted: "pos \<le> length rows \<Longrightarrow> set (inserted pos r rows) = insert r (set rows)"
  unfolding inserted_def by (metis Un_insert_right append_take_drop_id list.simps(15) set_append)

lemma inserted_map:
  "pos \<le> length rows \<Longrightarrow> inserted pos r rows = map (virtual_nth pos r rows) [0..<Suc (length rows)]"
  by (rule nth_equalityI) (simp_all add: nth_inserted less_Suc_eq_le del: upt_Suc)

lemma virtual_row_leaf:
  assumes "leaf_page s nx pv rows" "pos \<le> length rows" "vi \<le> length rows"
  shows "virtual_row s (length rows) pos r vi = Inr (virtual_nth pos r rows vi)"
    and "virtual_size s (length rows) pos r vi = Inr (length (virtual_nth pos r rows vi))"
  using leaf_src [OF assms(1), of "orig_idx pos vi"] assms(2,3)
  by (auto simp: virtual_row_def virtual_size_def virtual_nth_def orig_idx_def)

lemma insert_fold:
  assumes s: "leaf_page s nx pv rows" and pos: "pos \<le> length rows"
  shows "dst \<le> Suc (length rows) \<Longrightarrow>
    res_fold (insert_step s (length rows) pos r) [dst..<Suc (length rows)]
        (p, wp, if dst \<le> pos then dst else dst - 1) =
      res_bind (place_all (map (virtual_nth pos r rows) [dst..<Suc (length rows)]) dst wp p)
        (\<lambda>(p, wp). Inr (p, wp, length rows))"
proof (induction dst arbitrary: p wp rule: inc_induct)
  case base
  then show ?case using pos by simp
next
  case (step dst)
  have src: "dst \<noteq> pos \<Longrightarrow> src_row s (if dst \<le> pos then dst else dst - 1) (length rows)
      = Inr (virtual_nth pos r rows dst)"
    using virtual_row_leaf(1) [OF s pos, of dst r] step.hyps(2)
    by (auto simp: virtual_row_def orig_idx_def)
  have ptr: "dst \<noteq> pos \<Longrightarrow> (if dst \<le> pos then dst else dst - 1) + 1 = (if Suc dst \<le> pos then Suc dst else Suc dst - 1)"
    "dst = pos \<Longrightarrow> (if dst \<le> pos then dst else dst - 1) = (if Suc dst \<le> pos then Suc dst else Suc dst - 1)"
    by auto
  show ?case
  proof (cases "dst = pos")
    case True
    then show ?thesis
      using step.hyps(2) step.IH
      by (simp add: upt_conv_Cons insert_step_def virtual_nth_def res_bind_assoc del: upt_Suc)
  next
    case False
    have "insert_step s (length rows) pos r dst (p, wp, if dst \<le> pos then dst else dst - 1)
      = res_bind (place_row p wp (virtual_nth pos r rows dst) dst) (\<lambda>p.
          Inr (p, wp + length (virtual_nth pos r rows dst),
               if Suc dst \<le> pos then Suc dst else Suc dst - 1))"
      using src [OF False] ptr(1) [OF False] False by (simp add: insert_step_def)
    then show ?thesis
      using step.hyps(2) step.IH
      by (simp add: upt_conv_Cons res_bind_assoc del: upt_Suc)
  qed
qed

lemma write_leaf_with_insert_leaf:
  assumes s: "leaf_page s nx pv rows" and pos: "pos \<le> length rows"
    and p: "page_ok p" "magic p = MAGIC"
    and size: "leaf_size (inserted pos r rows) \<le> PAGE_SIZE"
  shows "\<exists>p'. write_leaf_with_insert p s (length rows) pos r = Inr p'
    \<and> leaf_page p' nx pv (inserted pos r rows)"
proof -
  obtain p' where p': "place_all (inserted pos r rows) 0 (16 + Suc (length rows) * 2) (clear_leaf p nx pv) =
      Inr (p', row_start (inserted pos r rows) (Suc (length rows)))"
    "leaf_page (finish_leaf p' (Suc (length rows)) (row_start (inserted pos r rows) (Suc (length rows))))
      nx pv (inserted pos r rows)"
    using place_all_leaf [OF p size, of nx pv] pos by auto
  have "write_leaf_with_insert p s (length rows) pos r = Inr (finish_leaf p' (Suc (length rows))
      (row_start (inserted pos r rows) (Suc (length rows))))"
    using insert_fold [OF s pos, of 0 r] p'(1) leaf_pageD(5,6) [OF s] pos
    by (simp add: write_leaf_with_insert_def Let_def inserted_map del: upt_Suc)
  with p'(2) show ?thesis by blast
qed

lemma range_fold:
  assumes s: "leaf_page s nx pv rows" and pos: "pos \<le> length rows"
    and "start + n \<le> Suc (length rows)"
  shows "dst \<le> n \<Longrightarrow>
    res_fold (range_step s (length rows) pos r start) [dst..<n] (p, wp) =
      place_all (map (\<lambda>d. virtual_nth pos r rows (start + d)) [dst..<n]) dst wp p"
proof (induction dst arbitrary: p wp rule: inc_induct)
  case (step dst)
  then show ?case
    using virtual_row_leaf(1) [OF s pos, of "start + dst" r] assms(3)
    by (simp add: upt_conv_Cons range_step_def res_bind_assoc)
qed simp

lemma take_drop_inserted:
  assumes "pos \<le> length rows" "start + n \<le> Suc (length rows)"
  shows "take n (drop start (inserted pos r rows)) =
    map (\<lambda>d. virtual_nth pos r rows (start + d)) [0..<n]"
  using assms by (intro nth_equalityI) (simp_all add: nth_inserted)

lemma write_leaf_range_leaf:
  assumes s: "leaf_page s nx pv rows" and pos: "pos \<le> length rows"
    and p: "page_ok p" "magic p = MAGIC" and "a \<le> b" "b \<le> Suc (length rows)"
    and R: "R = take (b - a) (drop a (inserted pos r rows))" and size: "leaf_size R \<le> PAGE_SIZE"
  shows "\<exists>p'. write_leaf_range p s (length rows) pos r a b = Inr p' \<and> leaf_page p' 0 0 R"
proof -
  have len: "length R = b - a" using assms(5,6) pos by (simp add: R)
  have R': "R = map (\<lambda>d. virtual_nth pos r rows (a + d)) [0..<b - a]"
    using take_drop_inserted [OF pos, of a "b - a" r] assms(5,6) by (simp add: R)
  obtain p' where p': "place_all R 0 (16 + (b - a) * 2) (clear_leaf p 0 0) = Inr (p', row_start R (b - a))"
    "leaf_page (finish_leaf p' (b - a) (row_start R (b - a))) 0 0 R"
    using place_all_leaf [OF p size, of 0 0] len by auto
  have "write_leaf_range p s (length rows) pos r a b = Inr (finish_leaf p' (b - a) (row_start R (b - a)))"
    using range_fold [OF s pos, of a "b - a" 0 r] p'(1) assms(5,6)
    by (simp add: write_leaf_range_def Let_def R' [symmetric])
  with p'(2) show ?thesis by blast
qed

lemma without_fold:
  assumes s: "leaf_page s nx pv rows" and "\<forall>i \<in> set js. i < length rows"
  shows "res_fold (without_step s (length rows) k) js (p, wp, dst) =
    res_bind (place_all (map ((!) rows) (filter (\<lambda>j. j \<noteq> k) js)) dst wp p)
      (\<lambda>(p, wp). Inr (p, wp, dst + length (filter (\<lambda>j. j \<noteq> k) js)))"
  using assms(2)
proof (induction js arbitrary: p wp dst)
  case (Cons j js)
  then show ?case
    using leaf_src(1) [OF s, of j] by (simp add: without_step_def res_bind_assoc)
qed simp

definition removed :: "nat \<Rightarrow> bytes list \<Rightarrow> bytes list" where
  "removed k rows = take k rows @ drop (Suc k) rows"

lemma filter_neq_upt: "k < n \<Longrightarrow> filter (\<lambda>j. j \<noteq> k) [0..<n] = [0..<k] @ [Suc k..<n]"
proof -
  assume k: "k < n"
  then have "[0..<n] = [0..<k] @ k # [Suc k..<n]"
    using upt_add_eq_append [of 0 k "n - k"] by (simp add: upt_conv_Cons)
  moreover have "filter (\<lambda>j. j \<noteq> k) [0..<k] = [0..<k]" "filter (\<lambda>j. j \<noteq> k) [Suc k..<n] = [Suc k..<n]"
    by (simp_all add: filter_id_conv)
  ultimately show ?thesis by simp
qed

lemma removed_map:
  assumes "k < length rows"
  shows "removed k rows = map ((!) rows) (filter (\<lambda>j. j \<noteq> k) [0..<length rows])"
proof -
  have "map ((!) rows) [Suc k..<length rows] = drop (Suc k) rows"
    by (intro nth_equalityI) simp_all
  moreover have "map ((!) rows) [0..<k] = take k rows"
    using assms by (intro nth_equalityI) simp_all
  ultimately show ?thesis using assms by (simp add: removed_def filter_neq_upt)
qed

lemma length_removed: "k < length rows \<Longrightarrow> length (removed k rows) = length rows - 1"
  by (simp add: removed_def)

lemma leaf_size_subrows:
  assumes "rows' = map ((!) rows) (filter P [0..<length rows])"
  shows "leaf_size rows' \<le> leaf_size rows"
proof -
  have "length (concat (map ((!) rows) (filter P js))) \<le> length (concat (map ((!) rows) js))" for js
    by (induction js) auto
  from this [of "[0..<length rows]"] have "length (concat rows') \<le> length (concat rows)"
    using assms by (simp add: map_nth)
  moreover have "length rows' \<le> length rows"
    using length_filter_le [of P "[0..<length rows]"] assms by simp
  ultimately show ?thesis by (simp add: leaf_size_def)
qed

lemma write_leaf_without_leaf:
  assumes s: "leaf_page s nx pv rows" and k: "k < length rows" and p: "page_ok p" "magic p = MAGIC"
  shows "\<exists>p'. write_leaf_without p s (length rows) k = Inr p' \<and> leaf_page p' 0 0 (removed k rows)"
proof -
  have size: "leaf_size (removed k rows) \<le> PAGE_SIZE"
    using leaf_size_subrows [OF removed_map [OF k]] leaf_pageD(7) [OF s] by simp
  obtain p' where p': "place_all (removed k rows) 0 (16 + (length rows - 1) * 2) (clear_leaf p 0 0) =
      Inr (p', row_start (removed k rows) (length rows - 1))"
    "leaf_page (finish_leaf p' (length rows - 1) (row_start (removed k rows) (length rows - 1)))
      0 0 (removed k rows)"
    using place_all_leaf [OF p size, of 0 0] length_removed [OF k] by auto
  have "write_leaf_without p s (length rows) k = Inr (finish_leaf p' (length rows - 1)
      (row_start (removed k rows) (length rows - 1)))"
    using without_fold [OF s, of "[0..<length rows]" k] p'(1) k
    by (simp add: write_leaf_without_def Let_def removed_map [OF k, symmetric])
  with p'(2) show ?thesis by blast
qed

text \<open>Leaving several rows out.\<close>

definition kept :: "nat list \<Rightarrow> bytes list \<Rightarrow> bytes list" where
  "kept sks rows = map ((!) rows) (filter (\<lambda>j. j \<notin> set sks) [0..<length rows])"

lemma skip_fold:
  assumes s: "leaf_page s nx pv rows" and srt: "sorted_wrt (<) sks"
  shows "i \<le> length rows \<Longrightarrow> ptr \<le> length sks \<Longrightarrow> \<forall>x \<in> set (drop ptr sks). i \<le> x \<and> x < length rows \<Longrightarrow>
    res_fold (skip_step s (length rows) sks) [i..<length rows] (p, wp, dst, ptr) =
      res_bind (place_all (map ((!) rows) (filter (\<lambda>j. j \<notin> set (drop ptr sks)) [i..<length rows])) dst wp p)
        (\<lambda>(p, wp). Inr (p, wp, dst + length (filter (\<lambda>j. j \<notin> set (drop ptr sks)) [i..<length rows]), length sks))"
proof (induction i arbitrary: p wp dst ptr rule: inc_induct)
  case base
  then have "drop ptr sks = []" by (cases "drop ptr sks") auto
  with base show ?case by simp
next
  case (step i)
  show ?case
  proof (cases "ptr < length sks \<and> sks ! ptr = i")
    case True
    then have dr: "drop ptr sks = i # drop (Suc ptr) sks" by (metis Cons_nth_drop_Suc)
    have "sorted_wrt (<) (drop ptr sks)" using srt by (simp add: sorted_wrt_drop)
    then have later: "\<forall>x \<in> set (drop (Suc ptr) sks). Suc i \<le> x \<and> x < length rows"
      using step.prems(2) by (auto simp: dr)
    have "filter (\<lambda>j. j \<notin> set (drop ptr sks)) [i..<length rows] =
        filter (\<lambda>j. j \<notin> set (drop (Suc ptr) sks)) [Suc i..<length rows]"
      using step.hyps(2) by (simp add: dr upt_conv_Cons) (rule filter_cong, auto)
    then show ?thesis
      using step.IH [OF _ later, of p wp dst] True step.hyps(2)
      by (simp add: upt_conv_Cons skip_step_def)
  next
    case False
    have "i \<notin> set (drop ptr sks)"
    proof
      assume i: "i \<in> set (drop ptr sks)"
      then have ptr: "ptr < length sks" by (cases "ptr < length sks") auto
      have "sorted_wrt (<) (drop ptr sks)" using srt by (simp add: sorted_wrt_drop)
      moreover have "drop ptr sks = sks ! ptr # drop (Suc ptr) sks"
        using ptr by (metis Cons_nth_drop_Suc)
      ultimately show False using i False ptr step.prems(2) by fastforce
    qed
    moreover have "\<forall>x \<in> set (drop ptr sks). Suc i \<le> x \<and> x < length rows"
      using step.prems(2) calculation by (metis Suc_leI le_neq_implies_less)
    ultimately show ?thesis
      using step.IH [OF step.prems(1)] False step.hyps(2) leaf_src(1) [OF s, of i]
      by (auto simp: upt_conv_Cons skip_step_def res_bind_assoc)
  qed
qed

lemma length_kept:
  assumes "sorted_wrt (<) sks" "\<forall>x \<in> set sks. x < length rows"
  shows "length (kept sks rows) = length rows - length sks"
proof -
  have "filter (\<lambda>j. j \<notin> set sks) [0..<length rows] = filter (\<lambda>j. \<not> j \<in> set sks) [0..<length rows]" ..
  have "length (filter (\<lambda>j. j \<in> set sks) [0..<length rows]) = card (set sks)"
  proof -
    have "set (filter (\<lambda>j. j \<in> set sks) [0..<length rows]) = set sks"
      using assms(2) by auto
    then show ?thesis
      by (metis distinct_card distinct_filter distinct_upt)
  qed
  also have "\<dots> = length sks" using assms(1) by (simp add: distinct_card strict_sorted_iff)
  finally have "length (filter (\<lambda>j. j \<in> set sks) [0..<length rows]) = length sks" .
  then show ?thesis
    using sum_length_filter_compl [of "\<lambda>j. j \<in> set sks" "[0..<length rows]"]
    by (simp add: kept_def)
qed

lemma write_leaf_without_multiple_leaf:
  assumes s: "leaf_page s nx pv rows" and p: "page_ok p" "magic p = MAGIC"
    and sks: "sorted_wrt (<) sks" "\<forall>x \<in> set sks. x < length rows"
  shows "\<exists>p'. write_leaf_without_multiple p s (length rows) sks = Inr p' \<and> leaf_page p' 0 0 (kept sks rows)"
proof -
  have len: "length (kept sks rows) = length rows - length sks" by (rule length_kept [OF sks])
  have "set sks \<subseteq> {..<length rows}" using sks(2) by auto
  then have "length sks \<le> length rows"
    using card_mono [of "{..<length rows}" "set sks"] sks(1)
    by (simp add: distinct_card strict_sorted_iff)
  have size: "leaf_size (kept sks rows) \<le> PAGE_SIZE"
    using leaf_size_subrows [OF kept_def, of sks rows] leaf_pageD(7) [OF s] by linarith
  obtain p' where p': "place_all (kept sks rows) 0 (16 + (length rows - length sks) * 2) (clear_leaf p 0 0) =
      Inr (p', row_start (kept sks rows) (length rows - length sks))"
    "leaf_page (finish_leaf p' (length rows - length sks)
       (row_start (kept sks rows) (length rows - length sks))) 0 0 (kept sks rows)"
    using place_all_leaf [OF p size, of 0 0] len by auto
  have "write_leaf_without_multiple p s (length rows) sks = Inr (finish_leaf p' (length rows - length sks)
      (row_start (kept sks rows) (length rows - length sks)))"
    using skip_fold [OF s sks(1), of 0 0] p'(1) sks(2) \<open>length sks \<le> length rows\<close>
    by (simp add: write_leaf_without_multiple_def Let_def kept_def [symmetric])
  with p'(2) show ?thesis by blast
qed

text \<open>Replacing rows.\<close>

definition replaced_nth :: "replacements \<Rightarrow> bytes list \<Rightarrow> nat \<Rightarrow> bytes" where
  "replaced_nth reps rows j = (case map_of reps j of Some r \<Rightarrow> r | None \<Rightarrow> rows ! j)"

definition replaced :: "replacements \<Rightarrow> bytes list \<Rightarrow> bytes list" where
  "replaced reps rows = map (replaced_nth reps rows) [0..<length rows]"

lemma reps_step:
  assumes srt: "sorted_wrt (<) (map fst reps)" and "\<forall>x \<in> fst ` set (drop ptr reps). i \<le> x \<and> x < n"
  shows "ptr < length reps \<and> fst (reps ! ptr) = i \<Longrightarrow>
      drop ptr reps = (i, snd (reps ! ptr)) # drop (Suc ptr) reps
      \<and> (\<forall>x \<in> fst ` set (drop (Suc ptr) reps). Suc i \<le> x \<and> x < n)"
    and "\<not> (ptr < length reps \<and> fst (reps ! ptr) = i) \<Longrightarrow>
      map_of (drop ptr reps) i = None \<and> (\<forall>x \<in> fst ` set (drop ptr reps). Suc i \<le> x \<and> x < n)"
proof -
  have d: "sorted_wrt (<) (map fst (drop ptr reps))" using srt by (simp add: drop_map [symmetric] sorted_wrt_drop)
  show "drop ptr reps = (i, snd (reps ! ptr)) # drop (Suc ptr) reps
      \<and> (\<forall>x \<in> fst ` set (drop (Suc ptr) reps). Suc i \<le> x \<and> x < n)"
    if h: "ptr < length reps \<and> fst (reps ! ptr) = i"
  proof -
    from h have dr: "drop ptr reps = (i, snd (reps ! ptr)) # drop (Suc ptr) reps"
      by (metis Cons_nth_drop_Suc prod.collapse)
    with d assms(2) show "drop ptr reps = (i, snd (reps ! ptr)) # drop (Suc ptr) reps
      \<and> (\<forall>x \<in> fst ` set (drop (Suc ptr) reps). Suc i \<le> x \<and> x < n)" by auto
  qed
  show "map_of (drop ptr reps) i = None \<and> (\<forall>x \<in> fst ` set (drop ptr reps). Suc i \<le> x \<and> x < n)"
    if h: "\<not> (ptr < length reps \<and> fst (reps ! ptr) = i)"
  proof -
    have "i \<notin> fst ` set (drop ptr reps)"
    proof
      assume i: "i \<in> fst ` set (drop ptr reps)"
      then have ptr: "ptr < length reps" by (cases "ptr < length reps") auto
      then have dr: "drop ptr reps = reps ! ptr # drop (Suc ptr) reps"
        by (metis Cons_nth_drop_Suc)
      have "\<forall>x \<in> set (drop (Suc ptr) reps). fst (reps ! ptr) < fst x" using d by (simp add: dr)
      moreover have "i \<le> fst (reps ! ptr)" using assms(2) by (simp add: dr)
      ultimately show False using i h ptr by (auto simp: dr)
    qed
    then show "map_of (drop ptr reps) i = None \<and> (\<forall>x \<in> fst ` set (drop ptr reps). Suc i \<le> x \<and> x < n)"
      using assms(2) unfolding map_of_eq_None_iff by (metis Suc_leI le_neq_implies_less)
  qed
qed

lemma replaced_tail:
  assumes "drop ptr reps = (i, r) # drop (Suc ptr) reps" "i < n"
  shows "map (replaced_nth (drop ptr reps) rows) [i..<n] =
    r # map (replaced_nth (drop (Suc ptr) reps) rows) [Suc i..<n]"
  using assms(2) by (simp add: assms(1) replaced_nth_def upt_conv_Cons)

lemma repl_fold:
  assumes s: "leaf_page s nx pv rows" and srt: "sorted_wrt (<) (map fst reps)"
  shows "i \<le> length rows \<Longrightarrow> \<forall>x \<in> fst ` set (drop ptr reps). i \<le> x \<and> x < length rows \<Longrightarrow>
    res_bind (res_fold (repl_step s (length rows) reps) [i..<length rows] (p, wp, ptr))
        (\<lambda>(p, wp, _). k p wp) =
      res_bind (place_all (map (replaced_nth (drop ptr reps) rows) [i..<length rows]) i wp p)
        (\<lambda>(p, wp). k p wp)"
proof (induction i arbitrary: p wp ptr rule: inc_induct)
  case base
  then show ?case by auto
next
  case (step i)
  note st = reps_step [OF srt step.prems]
  show ?case
  proof (cases "ptr < length reps \<and> fst (reps ! ptr) = i")
    case True
    then have dr: "drop ptr reps = (i, snd (reps ! ptr)) # drop (Suc ptr) reps" using st(1) by blast
    show ?thesis
      unfolding replaced_tail [OF dr step.hyps(2)]
      using True step.IH [of "Suc ptr"] st(1) step.hyps(2)
      by (simp add: upt_conv_Cons repl_step_def res_bind_assoc Let_def)
  next
    case False
    then have "replaced_nth (drop ptr reps) rows i = rows ! i"
      using st(2) by (simp add: replaced_nth_def)
    then show ?thesis
      using False step.IH [of ptr] st(2) step.hyps(2) leaf_src(1) [OF s, of i]
      by (auto simp: upt_conv_Cons repl_step_def res_bind_assoc)
  qed
qed

lemma repl_size_fold:
  assumes s: "leaf_page s nx pv rows" and srt: "sorted_wrt (<) (map fst reps)"
  shows "i \<le> length rows \<Longrightarrow> \<forall>x \<in> fst ` set (drop ptr reps). i \<le> x \<and> x < length rows \<Longrightarrow>
    \<exists>ptr'. res_fold (repl_size_step s (length rows) reps) [i..<length rows] (t, ptr) =
      Inr (t + length (concat (map (replaced_nth (drop ptr reps) rows) [i..<length rows])), ptr')"
proof (induction i arbitrary: t ptr rule: inc_induct)
  case base
  then show ?case by simp
next
  case (step i)
  note st = reps_step [OF srt step.prems]
  show ?case
  proof (cases "ptr < length reps \<and> fst (reps ! ptr) = i")
    case True
    then have dr: "drop ptr reps = (i, snd (reps ! ptr)) # drop (Suc ptr) reps" using st(1) by blast
    show ?thesis
      unfolding replaced_tail [OF dr step.hyps(2)]
      using True step.IH [where ptr = "Suc ptr" and t = "t + length (snd (reps ! ptr))"]
        st(1) step.hyps(2)
      by (simp add: upt_conv_Cons repl_size_step_def add.assoc)
  next
    case False
    then have "replaced_nth (drop ptr reps) rows i = rows ! i"
      using st(2) by (simp add: replaced_nth_def)
    then show ?thesis
      using False step.IH [where ptr = ptr and t = "t + length (rows ! i)"] st(2) step.hyps(2)
        leaf_src(2) [OF s, of i]
      by (auto simp: upt_conv_Cons repl_size_step_def add.assoc)
  qed
qed

lemma length_replaced [simp]: "length (replaced reps rows) = length rows"
  by (simp add: replaced_def)

lemma write_leaf_with_replacements_leaf:
  assumes s: "leaf_page s nx pv rows" and p: "page_ok p" "magic p = MAGIC"
    and reps: "sorted_wrt (<) (map fst reps)" "\<forall>x \<in> fst ` set reps. x < length rows"
  shows "\<exists>p'. write_leaf_with_replacements crc p s (length rows) reps =
      Inr (p', leaf_size (replaced reps rows) \<le> PAGE_SIZE)
    \<and> (if leaf_size (replaced reps rows) \<le> PAGE_SIZE then leaf_page p' nx pv (replaced reps rows)
       else p' = p)"
proof -
  obtain ptr where size: "res_fold (repl_size_step s (length rows) reps) [0..<length rows] (0, 0) =
      Inr (length (concat (replaced reps rows)), ptr)"
    using repl_size_fold [OF s reps(1), of 0 0 0] reps(2) by (auto simp: replaced_def)
  show ?thesis
  proof (cases "leaf_size (replaced reps rows) \<le> PAGE_SIZE")
    case False
    then show ?thesis
      using size by (simp add: write_leaf_with_replacements_def Let_def leaf_size_def)
  next
    case True
    obtain p' where p': "place_all (replaced reps rows) 0 (16 + length rows * 2) (clear_leaf p nx pv) =
        Inr (p', row_start (replaced reps rows) (length rows))"
      "leaf_page (finish_leaf p' (length rows) (row_start (replaced reps rows) (length rows))) nx pv
        (replaced reps rows)"
      using place_all_leaf [OF p True, of nx pv] by auto
    have "write_leaf_with_replacements crc p s (length rows) reps =
        Inr (update_checksum crc (finish_leaf p' (length rows)
          (row_start (replaced reps rows) (length rows))), True)"
      using size True p'(1) leaf_pageD(5,6) [OF s] reps(2)
        repl_fold [OF s reps(1), of 0 0 "clear_leaf p nx pv" "16 + length rows * 2"
          "\<lambda>p wp. Inr (update_checksum crc (finish_leaf p (length rows) wp), True)"]
      by (simp add: write_leaf_with_replacements_def Let_def leaf_size_def replaced_def)
    then show ?thesis
      using True leaf_page_update_checksum [OF p'(2), of crc] by (intro exI conjI) simp_all
  qed
qed

section \<open>Splitting\<close>

lemma extract_id_at_virtual_pos_leaf:
  assumes "leaf_page s nx pv rows" "pos \<le> length rows" "vi \<le> length rows"
    and "\<forall>x \<in> insert r (set rows). 8 \<le> length x"
  shows "extract_id_at_virtual_pos s (length rows) pos r vi = Inr (row_id (inserted pos r rows ! vi))"
proof -
  have "inserted pos r rows ! vi \<in> set (inserted pos r rows)"
    using assms(2,3) by (intro nth_mem) simp
  then have "8 \<le> length (inserted pos r rows ! vi)"
    using assms(2,4) by (auto simp: set_inserted)
  then show ?thesis
    using virtual_row_leaf(1) [OF assms(1-3), of r] assms(2,3)
    by (simp add: extract_id_at_virtual_pos_def nth_inserted extract_id_row)
qed

lemma half_size_rows: "half_size (length rows) (sum_list (map length rows)) = leaf_size rows"
  by (simp add: half_size_def leaf_size_def length_concat)

definition both_fit :: "nat list \<Rightarrow> nat \<Rightarrow> bool" where
  "both_fit sz mid \<longleftrightarrow> half_size mid (sum_list (take mid sz)) \<le> PAGE_SIZE
     \<and> half_size (length sz - mid) (sum_list (drop mid sz)) \<le> PAGE_SIZE"

lemma split_scan_fits:
  assumes "k \<le> length sz" "1 \<le> k" "1 \<le> best" "best < length sz"
    and "half_size best (sum_list (take best sz)) \<le> PAGE_SIZE"
  shows "let b = split_scan sz [k..<length sz] (sum_list (take (k - 1) sz)) best in
    1 \<le> b \<and> b < length sz \<and> half_size b (sum_list (take b sz)) \<le> PAGE_SIZE"
  using assms(1-5)
proof (induction k arbitrary: best rule: inc_induct)
  case (step k)
  have sum: "sum_list (take (k - 1) sz) + sz ! (k - 1) = sum_list (take k sz)"
    using step.hyps(2) step.prems(1) take_Suc_conv_app_nth [of "k - 1" sz] by simp
  show ?case
    using step.IH [of k] step.IH [of best] step.prems step.hyps(2) sum
    by (simp add: upt_conv_Cons Let_def)
qed simp

lemma split_fallback_fits:
  assumes "k \<le> length sz" "1 \<le> k"
  shows "let m = split_fallback sz (length sz) [k..<length sz] (sum_list (take k sz)) in
    (\<exists>mid. k \<le> mid \<and> mid < length sz \<and> both_fit sz mid) \<longrightarrow> both_fit sz m \<and> k \<le> m \<and> m < length sz"
    and "\<not> (\<exists>mid. k \<le> mid \<and> mid < length sz \<and> both_fit sz mid) \<Longrightarrow>
      split_fallback sz (length sz) [k..<length sz] (sum_list (take k sz)) = length sz div 2"
proof -
  have "(let m = split_fallback sz (length sz) [k..<length sz] (sum_list (take k sz)) in
      if \<exists>mid. k \<le> mid \<and> mid < length sz \<and> both_fit sz mid
      then both_fit sz m \<and> k \<le> m \<and> m < length sz else m = length sz div 2)"
    using assms(1,2)
  proof (induction k rule: inc_induct)
    case (step k)
    have sum: "sum_list (take k sz) + sz ! k = sum_list (take (Suc k) sz)"
      using step.hyps(2) by (simp add: take_Suc_conv_app_nth)
    show ?case
    proof (cases "both_fit sz k")
      case True
      then show ?thesis
        using step.hyps(2) by (auto simp: upt_conv_Cons both_fit_def)
    next
      case False
      have "(\<exists>mid. k \<le> mid \<and> mid < length sz \<and> both_fit sz mid) \<longleftrightarrow>
          (\<exists>mid. Suc k \<le> mid \<and> mid < length sz \<and> both_fit sz mid)"
        using False by (metis Suc_leD Suc_leI le_neq_implies_less)
      moreover have "split_fallback sz (length sz) [k..<length sz] (sum_list (take k sz)) =
          split_fallback sz (length sz) [Suc k..<length sz] (sum_list (take (Suc k) sz))"
        using False step.hyps(2) sum by (auto simp: upt_conv_Cons both_fit_def)
      ultimately show ?thesis
        using step.IH step.prems by (auto simp: Let_def split: if_splits)
    qed
  qed (auto simp: Let_def)
  then show "let m = split_fallback sz (length sz) [k..<length sz] (sum_list (take k sz)) in
    (\<exists>mid. k \<le> mid \<and> mid < length sz \<and> both_fit sz mid) \<longrightarrow> both_fit sz m \<and> k \<le> m \<and> m < length sz"
    and "\<not> (\<exists>mid. k \<le> mid \<and> mid < length sz \<and> both_fit sz mid) \<Longrightarrow>
      split_fallback sz (length sz) [k..<length sz] (sum_list (take k sz)) = length sz div 2"
    by (auto simp: Let_def split: if_splits)
qed

lemma virtual_sizes:
  assumes "leaf_page s nx pv rows" "pos \<le> length rows"
  shows "res_map (virtual_size s (length rows) pos r) [0..<Suc (length rows)] =
    Inr (map length (inserted pos r rows))"
proof -
  have "res_map (virtual_size s (length rows) pos r) [0..<Suc (length rows)] =
      Inr (map (\<lambda>vi. length (virtual_nth pos r rows vi)) [0..<Suc (length rows)])"
    by (rule res_map_Inr) (auto intro!: virtual_row_leaf(2) [OF assms])
  then show ?thesis by (simp add: inserted_map [OF assms(2)] comp_def del: upt_Suc)
qed

lemma both_fit_rows:
  "mid \<le> length rows \<Longrightarrow> both_fit (map length rows) mid \<longleftrightarrow>
     leaf_size (take mid rows) \<le> PAGE_SIZE \<and> leaf_size (drop mid rows) \<le> PAGE_SIZE"
  using half_size_rows [of "take mid rows"] half_size_rows [of "drop mid rows"]
  by (simp add: both_fit_def take_map drop_map)

text \<open>The split point works whenever a split into two pages exists, and is the middle otherwise.\<close>

lemma find_overflow_split_point_leaf:
  assumes s: "leaf_page s nx pv rows" and pos: "pos \<le> length rows" and ne: "rows \<noteq> []"
    and one: "\<forall>x \<in> insert r (set rows). length x \<le> 4074"
  shows "\<exists>m. find_overflow_split_point s (length rows) pos r (Suc (length rows)) = Inr m
    \<and> (if \<exists>mid. 1 \<le> mid \<and> mid \<le> length rows \<and> both_fit (map length (inserted pos r rows)) mid
       then 1 \<le> m \<and> m \<le> length rows \<and> both_fit (map length (inserted pos r rows)) m
       else m = Suc (length rows) div 2)"
proof -
  let ?sz = "map length (inserted pos r rows)"
  have len: "length ?sz = Suc (length rows)" using pos by simp
  have "inserted pos r rows ! 0 \<in> set (inserted pos r rows)"
    using pos by (intro nth_mem) simp
  then have "length (inserted pos r rows ! 0) \<le> 4074"
    using one pos by (auto simp: set_inserted)
  then have first: "half_size 1 (sum_list (take 1 ?sz)) \<le> PAGE_SIZE"
    using len pos by (cases "inserted pos r rows") (auto simp: half_size_def)
  define b where "b = split_scan ?sz [Suc 0..<Suc (length rows)] 0 (Suc 0)"
  have b: "1 \<le> b" "b < Suc (length rows)" "half_size b (sum_list (take b ?sz)) \<le> PAGE_SIZE"
    using split_scan_fits [of 1 ?sz 1] first len ne inserted_ne
    by (simp_all add: b_def Let_def Suc_le_eq del: upt_Suc)
  have sum1: "?sz ! 0 = sum_list (take 1 ?sz)"
    using len by (cases ?sz) auto
  note fb = split_fallback_fits [of 1 ?sz, unfolded sum1 [symmetric] len]
  have run: "find_overflow_split_point s (length rows) pos r (Suc (length rows)) =
    Inr (if half_size (Suc (length rows) - b) (sum_list (drop b ?sz)) \<le> PAGE_SIZE then b
         else split_fallback ?sz (Suc (length rows)) [1..<Suc (length rows)] (?sz ! 0))"
    using b(2) len virtual_sizes [OF s pos, of r]
    by (simp add: find_overflow_split_point_def b_def [symmetric] Let_def del: upt_Suc)
  show ?thesis
  proof (cases "half_size (Suc (length rows) - b) (sum_list (drop b ?sz)) \<le> PAGE_SIZE")
    case True
    then have "both_fit ?sz b" using b(3) len by (simp add: both_fit_def)
    with True b run show ?thesis by auto
  next
    case False
    show ?thesis
    proof (cases "\<exists>mid. 1 \<le> mid \<and> mid < Suc (length rows) \<and> both_fit ?sz mid")
      case True
      then show ?thesis
        using fb(1) run False by (auto simp: Let_def less_Suc_eq_le)
    next
      case no: False
      then show ?thesis
        using fb(2) run False by (auto simp: less_Suc_eq_le)
    qed
  qed
qed

text \<open>Rows that do not fit: placing them runs past the page.\<close>

lemma place_row_cases:
  assumes "page_ok p"
  shows "place_row p wp r dst = Inl Panicked \<or>
    (\<exists>p'. place_row p wp r dst = Inr p' \<and> page_ok p' \<and> wp + length r \<le> 4096)"
  using assms by (auto simp: place_row_def copy_at_def set_row_offset_def page_ok_def)

lemma place_all_too_big:
  assumes "page_ok p" "4096 < wp + length (concat rs)" "rs \<noteq> []"
  shows "place_all rs dst wp p = Inl Panicked"
  using assms
proof (induction rs arbitrary: dst wp p)
  case (Cons r rs)
  from place_row_cases [OF Cons.prems(1), of wp r dst] show ?case
  proof (elim disjE exE conjE)
    fix p' assume p': "place_row p wp r dst = Inr p'" "page_ok p'" "wp + length r \<le> 4096"
    then have "rs \<noteq> []" using Cons.prems(2) by auto
    with Cons.IH [OF p'(2), of "wp + length r"] p' Cons.prems(2) show ?thesis by simp
  qed simp
qed simp

lemma write_leaf_range_too_big:
  assumes s: "leaf_page s nx pv rows" and pos: "pos \<le> length rows"
    and p: "page_ok p" and "a < b" "b \<le> Suc (length rows)"
    and R: "R = take (b - a) (drop a (inserted pos r rows))" and big: "4100 < leaf_size R"
  shows "write_leaf_range p s (length rows) pos r a b = Inl Panicked"
proof -
  have len: "length R = b - a" using assms(4,5) pos by (simp add: R)
  have R': "R = map (\<lambda>d. virtual_nth pos r rows (a + d)) [0..<b - a]"
    using take_drop_inserted [OF pos, of a "b - a" r] assms(4,5) by (simp add: R)
  have "page_ok (clear_leaf p 0 0)"
    using p by (simp add: clear_leaf_def Let_def blit_field)
  moreover have "4096 < 16 + (b - a) * 2 + length (concat R)"
    using big len by (simp add: leaf_size_def)
  moreover have "R \<noteq> []" using len assms(4) by auto
  ultimately have "place_all R 0 (16 + (b - a) * 2) (clear_leaf p 0 0) = Inl Panicked"
    by (rule place_all_too_big)
  then show ?thesis
    using range_fold [OF s pos, of a "b - a" 0 r] assms(4,5)
    by (simp add: write_leaf_range_def Let_def R' [symmetric])
qed

lemma leaf_size_sum: "leaf_size rows = 20 + sum_list (map (\<lambda>r. 2 + length r) rows)"
  by (induction rows) (simp_all add: leaf_size_def)

lemma leaf_size_append: "leaf_size (xs @ ys) + 20 = leaf_size xs + leaf_size ys"
  by (simp add: leaf_size_sum)

lemma leaf_size_Cons: "leaf_size (r # rows) = 2 + length r + leaf_size rows"
  by (simp add: leaf_size_sum)

lemma leaf_size_min: "\<forall>r \<in> set rows. 8 \<le> length r \<Longrightarrow> rows \<noteq> [] \<Longrightarrow> 30 \<le> leaf_size rows"
  by (cases rows) (simp_all add: leaf_size_sum)

text \<open>A page-sized row strictly between two others fits on no side of any split.\<close>

lemma middle_sizes:
  assumes "\<forall>x \<in> set rows. 8 \<le> length x" "0 < pos" "pos < length rows" "length r = 4074"
  shows "pos < mid \<Longrightarrow> 4100 < leaf_size (take mid (inserted pos r rows))"
    and "mid \<le> pos \<Longrightarrow> 4100 < leaf_size (drop mid (inserted pos r rows))"
proof -
  have l: "30 \<le> leaf_size (take pos rows)" "30 \<le> leaf_size (drop pos rows)"
    using assms(1-3) by (auto intro!: leaf_size_min dest: in_set_takeD in_set_dropD)
  have ge: "20 \<le> leaf_size xs" for xs by (simp add: leaf_size_sum)
  show "4100 < leaf_size (take mid (inserted pos r rows))" if "pos < mid"
  proof -
    have "take mid (inserted pos r rows) = take pos rows @ r # take (mid - pos - 1) (drop pos rows)"
      using that assms(3) by (simp add: inserted_def take_Cons' )
    then show ?thesis
      using l(1) assms(4) ge [of "take (mid - pos - 1) (drop pos rows)"]
        leaf_size_append [of "take pos rows" "r # take (mid - pos - 1) (drop pos rows)"]
      by (simp add: leaf_size_Cons)
  qed
  show "4100 < leaf_size (drop mid (inserted pos r rows))" if "mid \<le> pos"
  proof -
    have "drop mid (inserted pos r rows) = drop mid (take pos rows) @ r # drop pos rows"
      using that assms(3) by (simp add: inserted_def)
    then show ?thesis
      using l(2) assms(4) ge [of "drop mid (take pos rows)"]
        leaf_size_append [of "drop mid (take pos rows)" "r # drop pos rows"]
      by (simp add: leaf_size_Cons)
  qed
qed

lemma middle_split_panics:
  assumes s: "leaf_page s nx pv rows" and srt: "rows_sorted rows" and pos: "0 < pos" "pos < length rows"
    and r: "length r = 4074"
  shows "\<exists>m \<ge> 1. find_overflow_split_point s (length rows) pos r (Suc (length rows)) = Inr m \<and> m \<le> length rows
    \<and> ((\<forall>p. page_ok p \<longrightarrow> write_leaf_range p s (length rows) pos r 0 m = Inl Panicked)
      \<or> (\<forall>p. page_ok p \<longrightarrow> write_leaf_range p s (length rows) pos r m (Suc (length rows)) = Inl Panicked)
        \<and> leaf_size (take m (inserted pos r rows)) \<le> PAGE_SIZE)"
proof -
  let ?R = "inserted pos r rows" and ?m = "Suc (length rows) div 2"
  have len8: "\<forall>x \<in> set rows. 8 \<le> length x" using srt by (simp add: rows_sorted_def)
  note mid = middle_sizes [OF len8 pos r]
  have small: "\<forall>x \<in> insert r (set rows). length x \<le> 4074"
  proof -
    have "length x \<le> 4074" if x: "x \<in> set rows" for x
    proof -
      obtain as bs where "rows = as @ x # bs" using x by (blast dest: split_list)
      then have "2 + length x + 20 \<le> leaf_size rows" by (simp add: leaf_size_sum)
      then show ?thesis using leaf_pageD(7) [OF s] by simp
    qed
    then show ?thesis using r by simp
  qed
  have "\<not> both_fit (map length ?R) k" if "1 \<le> k" "k \<le> length rows" for k
    using mid(1) [of k] mid(2) [of k] that pos by (cases "pos < k") (auto simp: both_fit_rows)
  then have none: "\<not> (\<exists>k. 1 \<le> k \<and> k \<le> length rows \<and> both_fit (map length ?R) k)" by blast
  have "rows \<noteq> []" using pos by auto
  then have m: "find_overflow_split_point s (length rows) pos r (Suc (length rows)) = Inr ?m"
    using find_overflow_split_point_leaf [OF s _ _ small, of pos] pos unfolding if_not_P [OF none]
    by auto
  have le: "?m \<le> length rows" "1 \<le> ?m" using pos by auto
  have R: "take ?m ?R = take (?m - 0) (drop 0 ?R)" "drop ?m ?R = take (Suc (length rows) - ?m) (drop ?m ?R)"
    using pos by simp_all
  show ?thesis
  proof (cases "pos < ?m")
    case True
    then have "\<forall>p. page_ok p \<longrightarrow> write_leaf_range p s (length rows) pos r 0 ?m = Inl Panicked"
      by (intro allI impI write_leaf_range_too_big [OF s _ _ _ _ R(1) mid(1) [OF True]])
        (use le pos in auto)
    with m le show ?thesis by blast
  next
    case False
    then have big: "4100 < leaf_size (drop ?m ?R)" using mid(2) [of ?m] by simp
    have "leaf_size (take ?m ?R) \<le> PAGE_SIZE"
    proof -
      have "take ?m ?R = take ?m rows" using False pos by (simp add: inserted_def)
      moreover have "leaf_size (take ?m rows) + leaf_size (drop ?m rows) = leaf_size rows + 20"
        using leaf_size_append [of "take ?m rows" "drop ?m rows"] by simp
      moreover have "20 \<le> leaf_size (drop ?m rows)" by (simp add: leaf_size_sum)
      ultimately show ?thesis using leaf_pageD(7) [OF s] by simp
    qed
    moreover have "\<forall>p. page_ok p \<longrightarrow> write_leaf_range p s (length rows) pos r ?m (Suc (length rows)) = Inl Panicked"
      by (intro allI impI write_leaf_range_too_big [OF s _ _ _ _ R(2) big]) (use le pos in auto)
    ultimately show ?thesis using m le by blast
  qed
qed

lemma leaf_exists:
  assumes "leaf_size rows \<le> PAGE_SIZE"
  shows "\<exists>p. leaf_page p nx pv rows"
  using place_all_leaf [OF new_pages_ok(1) [of "\<lambda>_. 0"] _ assms, of nx pv] by auto

text \<open>Two rows, with rowids 1 and 3, for the sample evaluations.\<close>

definition sample_rows :: "bytes list" where
  "sample_rows = [[1, 0, 0, 0, 0, 0, 0, 0, 9], [3, 0, 0, 0, 0, 0, 0, 0, 8]]"

lemma row_id_sample: "row_id [b, 0, 0, 0, 0, 0, 0, 0, x] = ucast b"
  by (simp add: row_id_def sub_bytes_def u64_from_le_def)

lemma sample_rows_ok: "rows_sorted sample_rows" "leaf_size sample_rows = 42" "length sample_rows = 2"
  by (simp_all add: sample_rows_def rows_sorted_def row_id_sample leaf_size_def)

section \<open>Properties\<close>

text \<open>The binary search of a leaf finds a rowid exactly when a row of the leaf has it, at that
  row, and otherwise returns the position that keeps the rows in rowid order.\<close>

theorem find_insertion_point_correct:
  assumes "leaf_page p nx pv rows" "rows_sorted rows"
  shows "\<exists>i found. find_insertion_point p k = Inr (i, found)
    \<and> (if k \<in> row_id ` set rows then found \<and> i < length rows \<and> row_id (rows ! i) = k
       else \<not> found \<and> i \<le> length rows \<and> (\<forall>r \<in> set (take i rows). row_id r < k)
         \<and> (\<forall>r \<in> set (drop i rows). k < row_id r))"
proof (cases "k \<in> row_id ` set rows")
  case True
  then obtain i where "i < length rows" "row_id (rows ! i) = k" by (auto simp: in_set_conv_nth)
  with True find_insertion_point_found [OF assms] show ?thesis by auto
next
  case False
  obtain i where "i \<le> length rows" "find_insertion_point p k = Inr (i, False)"
    "\<forall>r \<in> set (take i rows). row_id r < k" "\<forall>r \<in> set (drop i rows). k < row_id r"
    using find_insertion_point_absent [OF assms False] by auto
  with False show ?thesis by auto
qed

theorem find_insertion_point_correct_witness:
  "\<exists>p. leaf_page p 0 0 sample_rows \<and> find_insertion_point p 3 = Inr (1, True)"
proof -
  obtain p where p: "leaf_page p 0 0 sample_rows"
    using leaf_exists [of sample_rows 0 0] sample_rows_ok by auto
  then show ?thesis
    using find_insertion_point_correct [OF p sample_rows_ok(1), of 3]
    by (auto simp: sample_rows_def row_id_sample less_Suc_eq)
qed

text \<open>C22. Inserting a row into a leaf builds the leaf with the same links whose rows are the old rows
  with the new one at the insertion point, whenever the new row fits.\<close>

theorem write_leaf_with_insert_correct:
  assumes "leaf_page s nx pv rows" "pos \<le> length rows" "page_ok p" "magic p = MAGIC"
    and "leaf_size (take pos rows @ r # drop pos rows) \<le> PAGE_SIZE"
  shows "\<exists>p'. write_leaf_with_insert p s (length rows) pos r = Inr p'
    \<and> leaf_page p' nx pv (take pos rows @ r # drop pos rows)"
  using write_leaf_with_insert_leaf [OF assms(1-4), of r] assms(5) by (simp add: inserted_def)

theorem write_leaf_with_insert_correct_witness:
  "\<exists>p p'. leaf_page p 5 6 sample_rows \<and> write_leaf_with_insert p p 2 1 [2, 0, 0, 0, 0, 0, 0, 0, 7] = Inr p'
    \<and> leaf_page p' 5 6 [sample_rows ! 0, [2, 0, 0, 0, 0, 0, 0, 0, 7], sample_rows ! 1]"
proof -
  obtain p where p: "leaf_page p 5 6 sample_rows"
    using leaf_exists [of sample_rows 5 6] sample_rows_ok by auto
  then show ?thesis
    using write_leaf_with_insert_correct [OF p, of 1 p "[2, 0, 0, 0, 0, 0, 0, 0, 7]"]
      leaf_pageD(1,2) [OF p] sample_rows_ok(3)
    by (auto simp: sample_rows_def leaf_size_def numeral_2_eq_2)
qed

text \<open>Replacing rows of a leaf builds the leaf with exactly those rows changed and the links kept
  when the result fits on a page, and otherwise reports failure and leaves the page untouched.\<close>

theorem write_leaf_with_replacements_correct:
  assumes "leaf_page s nx pv rows" "page_ok p" "magic p = MAGIC"
    and "sorted_wrt (<) (map fst reps)" "\<forall>x \<in> fst ` set reps. x < length rows"
  shows "\<exists>p'. write_leaf_with_replacements crc p s (length rows) reps =
      Inr (p', leaf_size (replaced reps rows) \<le> PAGE_SIZE)
    \<and> (if leaf_size (replaced reps rows) \<le> PAGE_SIZE then leaf_page p' nx pv (replaced reps rows)
       else p' = p)"
  using assms by (rule write_leaf_with_replacements_leaf)

theorem write_leaf_with_replacements_correct_witness:
  "\<exists>p p'. leaf_page p 5 6 sample_rows
    \<and> write_leaf_with_replacements (\<lambda>_. 7) p p 2 [(1, [3, 0, 0, 0, 0, 0, 0, 0, 4, 4])] = Inr (p', True)
    \<and> leaf_page p' 5 6 [sample_rows ! 0, [3, 0, 0, 0, 0, 0, 0, 0, 4, 4]]"
proof -
  obtain p where p: "leaf_page p 5 6 sample_rows"
    using leaf_exists [of sample_rows 5 6] sample_rows_ok by auto
  then show ?thesis
    using write_leaf_with_replacements_correct [OF p, of p "[(1, [3, 0, 0, 0, 0, 0, 0, 0, 4, 4])]" "\<lambda>_. 7"]
      leaf_pageD(1,2) [OF p] sample_rows_ok(3)
    by (auto simp: sample_rows_def replaced_def replaced_nth_def leaf_size_def upt_rec numeral_2_eq_2)
qed

text \<open>Removing rows from a leaf builds the leaf with exactly the other rows in their order, its
  links cleared for the caller to set.\<close>

theorem write_leaf_without_multiple_correct:
  assumes "leaf_page s nx pv rows" "page_ok p" "magic p = MAGIC"
    and "sorted_wrt (<) sks" "\<forall>x \<in> set sks. x < length rows"
  shows "\<exists>p'. write_leaf_without_multiple p s (length rows) sks = Inr p'
    \<and> leaf_page p' 0 0 (map ((!) rows) (filter (\<lambda>j. j \<notin> set sks) [0..<length rows]))"
  using write_leaf_without_multiple_leaf [OF assms] by (simp add: kept_def)

theorem write_leaf_without_multiple_correct_witness:
  "\<exists>p p'. leaf_page p 5 6 sample_rows \<and> write_leaf_without_multiple p p 2 [0] = Inr p'
    \<and> leaf_page p' 0 0 [sample_rows ! 1]"
proof -
  obtain p where p: "leaf_page p 5 6 sample_rows"
    using leaf_exists [of sample_rows 5 6] sample_rows_ok by auto
  then show ?thesis
    using write_leaf_without_multiple_correct [OF p, of p "[0]"]
      leaf_pageD(1,2) [OF p] sample_rows_ok(3)
    by (auto simp: upt_rec)
qed

end
