(* ===== verification/Branch_Page.thy ===== *)
theory Branch_Page
  imports Leaf_Page
begin

text \<open>
  The branch page helpers of \<^verbatim>\<open>src/btree.rs\<close>: fixed 12-byte entries (child, key) behind
  the header and one more child at the end. \<open>branch_page\<close> is the abstraction to a list of children
  and a list of keys; the lemmas show that finding a child, collecting, rebuilding and inserting an
  entry are the corresponding operations on the two lists.
\<close>

definition get_branch_child :: "page \<Rightarrow> nat \<Rightarrow> u32 res" where
  "get_branch_child p idx = u32_at p (PAGE_HEADER_SIZE + idx * 12)"

definition get_branch_key :: "page \<Rightarrow> nat \<Rightarrow> u64 res" where
  "get_branch_key p idx = u64_at p (PAGE_HEADER_SIZE + idx * 12 + 4)"

fun find_child_loop :: "page \<Rightarrow> u64 \<Rightarrow> nat \<Rightarrow> nat list \<Rightarrow> (nat \<times> u32) res" where
  "find_child_loop p rowid n [] =
     res_bind (u32_at p (PAGE_HEADER_SIZE + n * 12)) (\<lambda>child. Inr (n, child))"
| "find_child_loop p rowid n (i # is) =
     res_bind (get_branch_key p i) (\<lambda>key.
     if rowid < key then res_bind (get_branch_child p i) (\<lambda>c. Inr (i, c))
     else find_child_loop p rowid n is)"

definition find_child :: "page \<Rightarrow> u64 \<Rightarrow> (nat \<times> u32) res" where
  "find_child p rowid =
     (let num_keys = unat (num_rows p) in find_child_loop p rowid num_keys [0..<num_keys])"

definition write_branch_entry :: "page \<Rightarrow> nat \<Rightarrow> u32 \<Rightarrow> u64 \<Rightarrow> page res" where
  "write_branch_entry p idx child key =
     (let offset = PAGE_HEADER_SIZE + idx * 12 in
      res_bind (copy_at p offset (u32_to_le child)) (\<lambda>p. copy_at p (offset + 4) (u64_to_le key)))"

definition set_branch_child :: "page \<Rightarrow> nat \<Rightarrow> u32 \<Rightarrow> page res" where
  "set_branch_child p idx child = copy_at p (PAGE_HEADER_SIZE + idx * 12) (u32_to_le child)"

definition collect_branch_flat :: "page \<Rightarrow> (u32 list \<times> u64 list) res" where
  "collect_branch_flat p =
     (let num_keys = unat (num_rows p) in
      res_bind (res_map (\<lambda>i. res_bind (get_branch_child p i) (\<lambda>c.
          res_bind (get_branch_key p i) (\<lambda>k. Inr (c, k)))) [0..<num_keys]) (\<lambda>entries.
      res_bind (get_branch_child p num_keys) (\<lambda>last.
      Inr (map fst entries @ [last], map snd entries))))"

text \<open>Indexing and \<^verbatim>\<open>Vec::insert\<close>: both panic out of range.\<close>

definition vec_get :: "'a list \<Rightarrow> nat \<Rightarrow> 'a res" where
  "vec_get xs i = (if i < length xs then Inr (xs ! i) else Inl Panicked)"

definition vec_insert :: "nat \<Rightarrow> 'a \<Rightarrow> 'a list \<Rightarrow> 'a list res" where
  "vec_insert i x xs = (if i \<le> length xs then Inr (take i xs @ x # drop i xs) else Inl Panicked)"

definition entry_step :: "u32 list \<Rightarrow> nat \<times> u64 \<Rightarrow> page \<Rightarrow> page res" where
  "entry_step children = (\<lambda>(i, key) p.
     res_bind (vec_get children i) (\<lambda>c. write_branch_entry p i c key))"

definition rebuild_branch_flat :: "page \<Rightarrow> u32 list \<Rightarrow> u64 list \<Rightarrow> page res" where
  "rebuild_branch_flat p children keys =
     (let p = set_flags p PAGE_BRANCH;
          p = set_num_rows p (as_u16 (length keys));
          p = blit p PAGE_HEADER_SIZE (replicate (PAGE_SIZE - CHECKSUM_SIZE - PAGE_HEADER_SIZE) 0)
      in res_bind (res_fold (entry_step children) (enumerate 0 keys) p) (\<lambda>p.
         res_bind (vec_get children (length keys)) (\<lambda>c. set_branch_child p (length keys) c)))"

definition insert_branch_entry :: "page \<Rightarrow> nat \<Rightarrow> u64 \<Rightarrow> u32 \<Rightarrow> page res" where
  "insert_branch_entry p child_idx key new_child =
     res_bind (collect_branch_flat p) (\<lambda>(children, keys).
     res_bind (vec_insert child_idx key keys) (\<lambda>new_keys.
     res_bind (vec_insert (child_idx + 1) new_child children) (\<lambda>new_children.
     res_bind (rebuild_branch_flat p new_children new_keys) (\<lambda>p.
     Inr (set_num_rows p (as_u16 (length new_keys)))))))"

section \<open>The abstraction\<close>

definition branch_page :: "page \<Rightarrow> u32 list \<Rightarrow> u64 list \<Rightarrow> bool" where
  "branch_page p cs ks \<longleftrightarrow>
     page_ok p \<and> magic p = MAGIC \<and> flags p = PAGE_BRANCH \<and> num_rows p = as_u16 (length ks)
     \<and> length cs = Suc (length ks) \<and> length ks \<le> 339
     \<and> (\<forall>i < length cs. sub_bytes p (16 + i * 12) (20 + i * 12) = u32_to_le (cs ! i))
     \<and> (\<forall>i < length ks. sub_bytes p (20 + i * 12) (28 + i * 12) = u64_to_le (ks ! i))"

lemma branch_pageD:
  assumes "branch_page p cs ks"
  shows "page_ok p" "magic p = MAGIC" "flags p = PAGE_BRANCH" "unat (num_rows p) = length ks"
    "length cs = Suc (length ks)" "length ks \<le> 339" "\<not> is_leaf p" "is_branch p" "length p = 4096"
  using assms by (simp_all add: branch_page_def is_leaf_def is_branch_def page_ok_def)

lemma branch_child:
  assumes "branch_page p cs ks" "i < length cs"
  shows "get_branch_child p i = Inr (cs ! i)"
proof -
  have "sub_bytes p (16 + i * 12) (20 + i * 12) = u32_to_le (cs ! i)"
    using assms by (simp add: branch_page_def)
  then show ?thesis
    using branch_pageD(5,6,9) [OF assms(1)] assms(2)
    by (simp add: get_branch_child_def u32_at_Inr add.commute)
qed

lemma branch_key:
  assumes "branch_page p cs ks" "i < length ks"
  shows "get_branch_key p i = Inr (ks ! i)"
proof -
  have "sub_bytes p (20 + i * 12) (28 + i * 12) = u64_to_le (ks ! i)"
    using assms by (simp add: branch_page_def)
  then show ?thesis
    using branch_pageD(5,6,9) [OF assms(1)] assms(2)
    by (simp add: get_branch_key_def u64_at_Inr add.commute)
qed

text \<open>The child a key is routed to: behind the last separator that is not above it.\<close>

definition route :: "'k::linorder list \<Rightarrow> 'k \<Rightarrow> nat" where
  "route ks k = length (takeWhile (\<lambda>x. x \<le> k) ks)"

lemma route_le: "route ks k \<le> length ks"
  by (simp add: route_def length_takeWhile_le)

lemma find_child_loop_branch:
  assumes b: "branch_page p cs ks" and "j \<le> length ks"
  shows "find_child_loop p k (length ks) [j..<length ks] =
    Inr (j + route (drop j ks) k, cs ! (j + route (drop j ks) k))"
  using assms(2)
proof (induction j rule: inc_induct)
  case base
  then show ?case
    using branch_child [OF b, of "length ks"] branch_pageD(5) [OF b]
    by (simp add: route_def get_branch_child_def)
next
  case (step j)
  then show ?case
    using branch_key [OF b, of j] branch_child [OF b, of j] branch_pageD(5) [OF b]
    by (auto simp: upt_conv_Cons route_def Cons_nth_drop_Suc [symmetric])
qed

lemma find_child_branch:
  "branch_page p cs ks \<Longrightarrow> find_child p k = Inr (route ks k, cs ! route ks k)"
  using find_child_loop_branch [of p cs ks 0 k] branch_pageD(4) [of p cs ks]
  by (simp add: find_child_def Let_def)

lemma collect_branch:
  assumes b: "branch_page p cs ks"
  shows "collect_branch_flat p = Inr (cs, ks)"
proof -
  have "res_map (\<lambda>i. res_bind (get_branch_child p i) (\<lambda>c. res_bind (get_branch_key p i)
      (\<lambda>k. Inr (c, k)))) [0..<length ks] = Inr (map (\<lambda>i. (cs ! i, ks ! i)) [0..<length ks])"
    using branch_child [OF b] branch_key [OF b] branch_pageD(5) [OF b] by (intro res_map_Inr) simp
  moreover have "map ((!) cs) [0..<length ks] @ [cs ! length ks] = cs"
    using branch_pageD(5) [OF b] by (intro nth_equalityI) (auto simp: nth_append less_Suc_eq)
  ultimately show ?thesis
    using branch_pageD(4,5) [OF b] branch_child [OF b, of "length ks"]
    by (simp add: collect_branch_flat_def Let_def comp_def map_nth)
qed

section \<open>Rebuilding\<close>

definition branch_placed :: "u32 list \<Rightarrow> u64 list \<Rightarrow> nat \<Rightarrow> page \<Rightarrow> bool" where
  "branch_placed cs ks i p \<longleftrightarrow>
     page_ok p \<and> magic p = MAGIC \<and> flags p = PAGE_BRANCH \<and> num_rows p = as_u16 (length ks)
     \<and> (\<forall>j < i. sub_bytes p (16 + j * 12) (20 + j * 12) = u32_to_le (cs ! j))
     \<and> (\<forall>j < i. sub_bytes p (20 + j * 12) (28 + j * 12) = u64_to_le (ks ! j))"

lemma entry_step_placed:
  assumes pl: "branch_placed cs ks i p" and i: "i < length ks" "length cs = Suc (length ks)"
    and n: "length ks \<le> 339"
  shows "\<exists>p'. entry_step cs (i, ks ! i) p = Inr p' \<and> branch_placed cs ks (Suc i) p'"
proof -
  let ?q = "blit p (16 + i * 12) (u32_to_le (cs ! i))"
  let ?r = "blit ?q (20 + i * 12) (u64_to_le (ks ! i))"
  have p: "page_ok p" "length p = 4096" using pl by (simp_all add: branch_placed_def page_ok_def)
  have q: "page_ok ?q" "length ?q = 4096" using p i n by (simp_all add: page_ok_def)
  have r: "page_ok ?r" using q i n by (simp add: page_ok_def)
  have run: "entry_step cs (i, ks ! i) p = Inr ?r"
    using p q i n
    by (simp add: entry_step_def vec_get_def write_branch_entry_def copy_at_def Let_def add.commute)
  have child: "sub_bytes ?r (16 + j * 12) (20 + j * 12) = u32_to_le (cs ! j)" if "j < Suc i" for j
  proof -
    have "sub_bytes ?r (16 + j * 12) (20 + j * 12) = sub_bytes ?q (16 + j * 12) (20 + j * 12)"
      using that q i n by (intro sub_bytes_blit_disjoint) auto
    also have "\<dots> = u32_to_le (cs ! j)"
    proof (cases "j = i")
      case True
      then show ?thesis using p i n by (simp add: sub_bytes_blit_same)
    next
      case False
      then have "sub_bytes ?q (16 + j * 12) (20 + j * 12) = sub_bytes p (16 + j * 12) (20 + j * 12)"
        using that p i n by (intro sub_bytes_blit_disjoint) auto
      then show ?thesis using pl that False by (simp add: branch_placed_def)
    qed
    finally show ?thesis .
  qed
  have key: "sub_bytes ?r (20 + j * 12) (28 + j * 12) = u64_to_le (ks ! j)" if "j < Suc i" for j
  proof (cases "j = i")
    case True
    then show ?thesis using q i n by (simp add: sub_bytes_blit_same)
  next
    case False
    then have "sub_bytes ?r (20 + j * 12) (28 + j * 12) = sub_bytes ?q (20 + j * 12) (28 + j * 12)"
      using that q i n by (intro sub_bytes_blit_disjoint) auto
    also have "\<dots> = sub_bytes p (20 + j * 12) (28 + j * 12)"
      using that False p i n by (intro sub_bytes_blit_disjoint) auto
    finally show ?thesis using pl that False by (simp add: branch_placed_def)
  qed
  have "branch_placed cs ks (Suc i) ?r"
    using pl p q r i n child key by (simp add: branch_placed_def)
  with run show ?thesis by blast
qed

lemma entries_placed:
  assumes "branch_placed cs ks i p" "i \<le> length ks" "length cs = Suc (length ks)" "length ks \<le> 339"
  shows "\<exists>p'. res_fold (entry_step cs) (enumerate i (drop i ks)) p = Inr p'
    \<and> branch_placed cs ks (length ks) p'"
  using assms(2,1)
proof (induction i arbitrary: p rule: inc_induct)
  case (step i)
  obtain p1 where "entry_step cs (i, ks ! i) p = Inr p1" "branch_placed cs ks (Suc i) p1"
    using entry_step_placed [OF step.prems step.hyps(2) assms(3,4)] by blast
  with step.IH step.hyps(2) show ?case
    by (simp add: Cons_nth_drop_Suc [symmetric])
qed auto

lemma rebuild_branch:
  assumes p: "page_ok p" "magic p = MAGIC" and n: "length cs = Suc (length ks)" "length ks \<le> 339"
  shows "\<exists>p'. rebuild_branch_flat p cs ks = Inr p' \<and> branch_page p' cs ks"
proof -
  define q where "q = set_num_rows (set_flags p PAGE_BRANCH) (as_u16 (length ks))"
  have "page_ok q" "magic q = MAGIC" "flags q = PAGE_BRANCH" "num_rows q = as_u16 (length ks)"
    using p by (simp_all add: q_def)
  then have "branch_placed cs ks 0 (blit q 16 (replicate 4076 0))"
    by (simp add: branch_placed_def page_ok_def)
  then obtain p1 where p1: "res_fold (entry_step cs) (enumerate 0 ks) (blit q 16 (replicate 4076 0)) = Inr p1"
    "branch_placed cs ks (length ks) p1"
    using entries_placed [of cs ks 0] n by auto
  have l: "length p1 = 4096" "page_ok p1" using p1(2) by (simp_all add: branch_placed_def page_ok_def)
  let ?r = "blit p1 (16 + length ks * 12) (u32_to_le (cs ! length ks))"
  have run: "rebuild_branch_flat p cs ks = Inr ?r"
    using p1(1) n l
    by (simp add: rebuild_branch_flat_def q_def [symmetric] Let_def vec_get_def set_branch_child_def copy_at_def)
  have old: "sub_bytes ?r s e = sub_bytes p1 s e" if "e \<le> 16 + length ks * 12" for s e
    using that l n by (intro sub_bytes_blit_disjoint) auto
  have new: "sub_bytes ?r (16 + length ks * 12) (20 + length ks * 12) = u32_to_le (cs ! length ks)"
    using l n by (simp add: sub_bytes_blit_same)
  have "branch_page ?r cs ks"
    using p1(2) l n new by (auto simp: branch_placed_def branch_page_def old less_Suc_eq page_ok_def)
  with run show ?thesis by blast
qed

lemma branch_page_update_checksum:
  "branch_page p cs ks \<Longrightarrow> branch_page (update_checksum crc p) cs ks"
  by (auto simp: branch_page_def)

lemma insert_branch:
  assumes b: "branch_page p cs ks" and i: "i \<le> length ks" and n: "length ks < 339"
  shows "\<exists>p'. insert_branch_entry p i k c = Inr p'
    \<and> branch_page p' (take (Suc i) cs @ c # drop (Suc i) cs) (take i ks @ k # drop i ks)"
proof -
  let ?cs = "take (Suc i) cs @ c # drop (Suc i) cs" and ?ks = "take i ks @ k # drop i ks"
  have len: "length ?cs = Suc (length ?ks)" "length ?ks \<le> 339" "length ?ks = Suc (length ks)"
    using i n branch_pageD(5) [OF b] by simp_all
  obtain p' where p': "rebuild_branch_flat p ?cs ?ks = Inr p'" "branch_page p' ?cs ?ks"
    using rebuild_branch [OF branch_pageD(1,2) [OF b] len(1,2)] by blast
  have "insert_branch_entry p i k c = Inr (set_num_rows p' (as_u16 (length ?ks)))"
    using p'(1) i branch_pageD(5) [OF b] collect_branch [OF b]
    by (simp add: insert_branch_entry_def vec_insert_def)
  moreover have "branch_page (set_num_rows p' (as_u16 (length ?ks))) ?cs ?ks"
    using p'(2) len(3) by (simp add: branch_page_def)
  ultimately show ?thesis by blast
qed

end
