(* ===== verification/Tree_Shape.thy ===== *)
theory Tree_Shape
  imports Branch_Page
begin

text \<open>
  What the row tree (\<^verbatim>\<open>src/btree.rs\<close>) and the index tree (\<^verbatim>\<open>src/index.rs\<close>)
  have in common: the abstract tree of pages, its leaves in order, the order invariant with
  separators, the doubly linked leaf chain on pages, and the two loops both files repeat, the descent
  to a leaf (bounded by \<^verbatim>\<open>MAX_TREE_DEPTH\<close>) and the walk along the chain (bounded by the
  number of pages). The locale is the contract of a branch page format; its lemmas say where the
  descent ends and what the walk sees.
\<close>

abbreviation MAX_TREE_DEPTH :: nat where "MAX_TREE_DEPTH \<equiv> 64"

type_synonym reader = "u32 \<Rightarrow> page res"

section \<open>The two loops\<close>

fun find_leaf :: "reader \<Rightarrow> (page \<Rightarrow> u32 res) \<Rightarrow> string \<Rightarrow> nat \<Rightarrow> u32 \<Rightarrow> u32 res" where
  "find_leaf rd child err 0 page_no = Inl (Fail (Corruption err))"
| "find_leaf rd child err (Suc k) page_no =
     res_bind (rd page_no) (\<lambda>p.
     if is_leaf p then Inr page_no
     else res_bind (child p) (find_leaf rd child err k))"

text \<open>
  A loop over the rows of a page that may end the whole scan: the flag is the early
  \<^verbatim>\<open>return Ok\<close>.
\<close>

fun fold_until :: "('a \<Rightarrow> 's \<Rightarrow> ('s \<times> bool) res) \<Rightarrow> 'a list \<Rightarrow> 's \<Rightarrow> ('s \<times> bool) res" where
  "fold_until f [] s = Inr (s, False)"
| "fold_until f (x # xs) s =
     res_bind (f x s) (\<lambda>(s, stop). if stop then Inr (s, True) else fold_until f xs s)"

fun walk ::
  "reader \<Rightarrow> (page \<Rightarrow> u32) \<Rightarrow> (page \<Rightarrow> 's \<Rightarrow> ('s \<times> bool) res) \<Rightarrow> string \<Rightarrow> nat \<Rightarrow> u32 \<Rightarrow> 's \<Rightarrow> 's res"
where
  "walk rd link visit err 0 current s = Inl (Fail (Corruption err))"
| "walk rd link visit err (Suc k) current s =
     res_bind (rd current) (\<lambda>p.
     res_bind (visit p s) (\<lambda>(s, stop).
     if stop \<or> link p = 0 then Inr s else walk rd link visit err k (link p) s))"

section \<open>Trees of pages\<close>

datatype 'k btree = BLeaf u32 "bytes list" | BNode u32 "'k btree list" "'k list"

fun root_of :: "'k btree \<Rightarrow> u32" where
  "root_of (BLeaf n rows) = n"
| "root_of (BNode n ts ks) = n"

fun leaves :: "'k btree \<Rightarrow> (u32 \<times> bytes list) list" where
  "leaves (BLeaf n rows) = [(n, rows)]"
| "leaves (BNode n ts ks) = concat (map leaves ts)"

fun nodes :: "'k btree \<Rightarrow> u32 list" where
  "nodes (BLeaf n rows) = []"
| "nodes (BNode n ts ks) = n # concat (map nodes ts)"

fun height :: "'k btree \<Rightarrow> nat" where
  "height (BLeaf n rows) = 1"
| "height (BNode n ts ks) = Suc (Max (set (0 # map height ts)))"

definition tree_pages :: "'k btree \<Rightarrow> u32 list" where
  "tree_pages t = nodes t @ map fst (leaves t)"

definition leaf_rows :: "(u32 \<times> bytes list) list \<Rightarrow> bytes list" where
  "leaf_rows ls = concat (map snd ls)"

definition tree_rows :: "'k btree \<Rightarrow> bytes list" where
  "tree_rows t = leaf_rows (leaves t)"

lemma leaf_rows_simps [simp]:
  "leaf_rows [] = []" "leaf_rows ((n, rows) # ls) = rows @ leaf_rows ls"
  "leaf_rows (as @ bs) = leaf_rows as @ leaf_rows bs"
  by (simp_all add: leaf_rows_def)

lemma tree_rows_simps [simp]:
  "tree_rows (BLeaf n rows) = rows" "tree_rows (BNode n ts ks) = concat (map tree_rows ts)"
proof -
  have "leaf_rows (concat (map leaves ts)) = concat (map (\<lambda>t. leaf_rows (leaves t)) ts)"
    by (induction ts) simp_all
  then show "tree_rows (BNode n ts ks) = concat (map tree_rows ts)"
    by (simp add: tree_rows_def [abs_def])
qed (simp add: tree_rows_def)

lemma set_rows_concat: "set (leaf_rows (concat (map leaves ts))) = (\<Union>t \<in> set ts. set (tree_rows t))"
  by (induction ts) (simp_all add: tree_rows_def)

lemma height_child: "t \<in> set ts \<Longrightarrow> height t < height (BNode n ts ks)"
  by (simp add: less_Suc_eq_le)

lemma height_pos: "0 < height t"
  by (cases t) simp_all

text \<open>
  Order: separators ascend strictly, keys left of a separator are below it and keys right of it are
  not.
\<close>

fun ordered :: "(bytes \<Rightarrow> 'k::linorder) \<Rightarrow> 'k btree \<Rightarrow> bool" where
  "ordered key (BLeaf n rows) \<longleftrightarrow> sorted_wrt (<) (map key rows)"
| "ordered key (BNode n ts ks) \<longleftrightarrow>
     length ts = Suc (length ks) \<and> sorted_wrt (<) ks \<and> (\<forall>t \<in> set ts. ordered key t)
     \<and> (\<forall>i < length ks. (\<forall>r \<in> set (tree_rows (ts ! i)). key r < ks ! i)
          \<and> (\<forall>r \<in> set (tree_rows (ts ! Suc i)). ks ! i \<le> key r))"

lemma ordered_before:
  assumes "ordered key (BNode n ts ks)" "i \<le> j" "j < length ks" "r \<in> set (tree_rows (ts ! i))"
  shows "key r < ks ! j"
proof -
  have "key r < ks ! i" using assms by simp
  moreover have "ks ! i \<le> ks ! j"
    using assms by (cases "i = j") (auto simp: sorted_wrt_iff_nth_less intro: less_imp_le)
  ultimately show ?thesis by simp
qed

lemma ordered_after:
  assumes "ordered key (BNode n ts ks)" "i < j" "j \<le> length ks" "r \<in> set (tree_rows (ts ! j))"
  shows "ks ! i \<le> key r"
proof -
  have "ks ! (j - 1) \<le> key r" using assms by (cases j) auto
  moreover have "ks ! i \<le> ks ! (j - 1)"
    using assms by (cases "i = j - 1") (auto simp: sorted_wrt_iff_nth_less intro: less_imp_le)
  ultimately show ?thesis by simp
qed

lemma sorted_wrt_concat:
  assumes "\<And>xs. xs \<in> set xss \<Longrightarrow> sorted_wrt R xs"
    and "\<And>i j x y. i < j \<Longrightarrow> j < length xss \<Longrightarrow> x \<in> set (xss ! i) \<Longrightarrow> y \<in> set (xss ! j) \<Longrightarrow> R x y"
  shows "sorted_wrt R (concat xss)"
  using assms
proof (induction xss)
  case (Cons xs xss)
  have "sorted_wrt R (concat xss)"
    using Cons.prems(1) Cons.prems(2) [of "Suc _" "Suc _"] by (intro Cons.IH) auto
  moreover have "\<forall>x \<in> set xs. \<forall>y \<in> set (concat xss). R x y"
    using Cons.prems(2) [of 0 "Suc _"] by (fastforce simp: in_set_conv_nth)
  ultimately show ?case using Cons.prems(1) by (simp add: sorted_wrt_append)
qed simp

lemma ordered_sorted: "ordered key t \<Longrightarrow> sorted_wrt (<) (map key (tree_rows t))"
proof (induction t)
  case (BNode n ts ks)
  have "sorted_wrt (<) (concat (map (\<lambda>t. map key (tree_rows t)) ts))"
  proof (rule sorted_wrt_concat)
    fix xs assume "xs \<in> set (map (\<lambda>t. map key (tree_rows t)) ts)"
    with BNode show "sorted_wrt (<) xs" by auto
  next
    fix i j x y assume ij: "i < j" "j < length (map (\<lambda>t. map key (tree_rows t)) ts)"
      and x: "x \<in> set (map (\<lambda>t. map key (tree_rows t)) ts ! i)"
      and y: "y \<in> set (map (\<lambda>t. map key (tree_rows t)) ts ! j)"
    then obtain r r' where r: "x = key r" "r \<in> set (tree_rows (ts ! i))"
      "y = key r'" "r' \<in> set (tree_rows (ts ! j))" by auto
    have l: "i < length ks" "j \<le> length ks" using ij BNode.prems by auto
    have "key r < ks ! i" using ordered_before [OF BNode.prems le_refl l(1) r(2)] .
    also have "ks ! i \<le> key r'" using ordered_after [OF BNode.prems ij(1) l(2) r(4)] .
    finally show "x < y" using r by simp
  qed
  then show ?case by (simp add: map_concat comp_def)
qed simp

text \<open>The separator position of a key, and the leaf it is routed to.\<close>

lemma route_bounds:
  assumes "i < route ks k" shows "ks ! i \<le> k"
  using assms unfolding route_def by (metis nth_mem set_takeWhileD takeWhile_nth)

lemma route_above: "route ks k < length ks \<Longrightarrow> k < ks ! route ks k"
  unfolding route_def by (metis linorder_not_le nth_length_takeWhile)

lemma route_lt: "length ts = Suc (length ks) \<Longrightarrow> route ks k < length ts"
  using route_le [of ks k] by simp

function leaf_for :: "'k::linorder btree \<Rightarrow> 'k \<Rightarrow> u32 \<times> bytes list" where
  "leaf_for (BLeaf n rows) k = (n, rows)"
| "leaf_for (BNode n ts ks) k =
     (if route ks k < length ts then leaf_for (ts ! route ks k) k else (n, []))"
  by pat_completeness auto
termination
  by (relation "measure (\<lambda>(t, k). height t)") (auto intro!: height_child nth_mem simp del: height.simps)

lemma leaf_for_split:
  assumes "ordered key t"
  shows "\<exists>as bs. leaves t = as @ leaf_for t k # bs
    \<and> (\<forall>r \<in> set (leaf_rows as). key r < k) \<and> (\<forall>r \<in> set (leaf_rows bs). k < key r)"
  using assms
proof (induction t k rule: leaf_for.induct)
  case (1 n rows k)
  then show ?case by (intro exI [of _ "[]"]) simp
next
  case (2 n ts ks k)
  let ?i = "route ks k"
  have i: "?i < length ts" using "2.prems" by (intro route_lt) simp
  then have "ordered key (ts ! ?i)" using "2.prems" by simp
  with "2.IH" i obtain as bs where IH: "leaves (ts ! ?i) = as @ leaf_for (ts ! ?i) k # bs"
    "\<forall>r \<in> set (leaf_rows as). key r < k" "\<forall>r \<in> set (leaf_rows bs). k < key r" by blast
  let ?as = "concat (map leaves (take ?i ts))" and ?bs = "concat (map leaves (drop (Suc ?i) ts))"
  have "leaves (BNode n ts ks) = ?as @ leaves (ts ! ?i) @ ?bs"
    by (subst id_take_nth_drop [OF i]) simp
  moreover have "key r < k" if r: "r \<in> set (leaf_rows ?as)" for r
  proof -
    from r obtain t where t: "t \<in> set (take ?i ts)" "r \<in> set (tree_rows t)"
      unfolding set_rows_concat by blast
    then obtain j where j: "j < ?i" "r \<in> set (tree_rows (ts ! j))"
      by (metis in_set_conv_nth length_take min_less_iff_conj nth_take)
    then have "key r < ks ! j" using ordered_before [OF "2.prems", of j j r] route_le [of ks k] by simp
    also have "\<dots> \<le> k" using j(1) by (rule route_bounds)
    finally show ?thesis .
  qed
  moreover have "k < key r" if r: "r \<in> set (leaf_rows ?bs)" for r
  proof -
    from r obtain t where t: "t \<in> set (drop (Suc ?i) ts)" "r \<in> set (tree_rows t)"
      unfolding set_rows_concat by blast
    then obtain j where j: "j < length ts - Suc ?i" "r \<in> set (tree_rows (ts ! (Suc ?i + j)))"
      using i by (auto simp: in_set_conv_nth)
    then have l: "?i < length ks" "Suc ?i + j \<le> length ks" using "2.prems" by auto
    then have "k < ks ! ?i" by (intro route_above)
    also have "\<dots> \<le> key r" using ordered_after [OF "2.prems" _ l(2) j(2), of ?i] by simp
    finally show ?thesis .
  qed
  ultimately show ?case
    using i IH by (intro exI [of _ "?as @ as"] exI [of _ "bs @ ?bs"]) auto
qed

section \<open>The leaf chain\<close>

definition first_page :: "(u32 \<times> bytes list) list \<Rightarrow> u32 \<Rightarrow> u32" where
  "first_page ls nx = (case ls of [] \<Rightarrow> nx | (n, _) # _ \<Rightarrow> n)"

definition last_page :: "u32 \<Rightarrow> (u32 \<times> bytes list) list \<Rightarrow> u32" where
  "last_page pv ls = (if ls = [] then pv else fst (last ls))"

fun chain_ok :: "reader \<Rightarrow> u32 \<Rightarrow> (u32 \<times> bytes list) list \<Rightarrow> u32 \<Rightarrow> bool" where
  "chain_ok rd pv [] nx \<longleftrightarrow> True"
| "chain_ok rd pv ((n, rows) # ls) nx \<longleftrightarrow>
     (\<exists>p. rd n = Inr p \<and> leaf_page p (first_page ls nx) pv rows) \<and> chain_ok rd n ls nx"

lemma page_end_simps [simp]:
  "first_page [] nx = nx" "first_page ((n, r) # ls) nx = n"
  "last_page pv [] = pv" "last_page pv ((n, r) # ls) = last_page n ls"
  by (simp_all add: first_page_def last_page_def)

lemma first_page_append: "first_page (as @ bs) nx = first_page as (first_page bs nx)"
  by (cases as) (auto simp: first_page_def)

lemma chain_ok_append:
  "chain_ok rd pv (as @ bs) nx \<longleftrightarrow>
     chain_ok rd pv as (first_page bs nx) \<and> chain_ok rd (last_page pv as) bs nx"
  by (induction as arbitrary: pv) (auto simp: first_page_append)

lemma chain_ok_frame:
  "(\<And>n. n \<in> fst ` set ls \<Longrightarrow> rd' n = rd n) \<Longrightarrow> chain_ok rd pv ls nx \<Longrightarrow> chain_ok rd' pv ls nx"
  by (induction ls arbitrary: pv) auto

lemma chain_ok_leaf:
  assumes "chain_ok rd pv (as @ (n, rows) # bs) nx"
  shows "\<exists>p. rd n = Inr p \<and> leaf_page p (first_page bs nx) (last_page pv as) rows"
  using assms by (simp add: chain_ok_append)

text \<open>A walk along the chain visits the row lists in order.\<close>

fun walk_rows :: "(bytes list \<Rightarrow> 's \<Rightarrow> 's \<times> bool) \<Rightarrow> bytes list list \<Rightarrow> 's \<Rightarrow> 's" where
  "walk_rows V [] s = s"
| "walk_rows V (rows # rest) s = (let (s', stop) = V rows s in if stop then s' else walk_rows V rest s')"

lemma walk_chain:
  assumes "chain_ok rd pv ls 0" "ls \<noteq> []" "length ls \<le> k" "0 \<notin> fst ` set ls"
    and V: "\<And>p nx pv rows s. leaf_page p nx pv rows \<Longrightarrow> rows \<in> snd ` set ls \<Longrightarrow> visit p s = Inr (V rows s)"
  shows "walk rd next_leaf visit err k (first_page ls 0) s = Inr (walk_rows V (map snd ls) s)"
  using assms(1-4) V
proof (induction ls arbitrary: pv k s)
  case (Cons l ls)
  obtain n rows where l: "l = (n, rows)" by (cases l)
  obtain p where p: "rd n = Inr p" "leaf_page p (first_page ls 0) pv rows"
    using Cons.prems(1) by (auto simp: l)
  obtain k' where k: "k = Suc k'" using Cons.prems(3) by (cases k) auto
  have vis: "visit p s = Inr (V rows s)" using Cons.prems(5) [OF p(2)] by (simp add: l)
  obtain s' stop where v: "V rows s = (s', stop)" by (cases "V rows s")
  show ?case
  proof (cases "ls = []")
    case True
    then show ?thesis using p vis v leaf_pageD(5) [OF p(2)] by (simp add: k l)
  next
    case False
    then have nx: "next_leaf p = first_page ls 0" "first_page ls 0 \<noteq> 0"
      using leaf_pageD(5) [OF p(2)] Cons.prems(4) by (auto simp: first_page_def split: list.splits)
    have "walk rd next_leaf visit err k' (first_page ls 0) s' = Inr (walk_rows V (map snd ls) s')"
      using False Cons.prems by (intro Cons.IH [of n]) (auto simp: l k)
    then show ?thesis using p vis v nx by (simp add: k l)
  qed
qed simp

section \<open>Loops over the rows of a leaf\<close>

text \<open>The row at index \<open>i\<close>, unless its bounds are not a proper range inside the page.\<close>

definition row_slice ::
  "(page \<Rightarrow> nat \<Rightarrow> nat \<Rightarrow> (nat \<times> nat) res) \<Rightarrow> page \<Rightarrow> nat \<Rightarrow> nat \<Rightarrow> bytes option res" where
  "row_slice bounds p i n =
     res_bind (bounds p i n) (\<lambda>(s, e).
     Inr (if s < e \<and> e \<le> PAGE_SIZE then Some (sub_bytes p s e) else None))"

definition on_row ::
  "(page \<Rightarrow> nat \<Rightarrow> nat \<Rightarrow> (nat \<times> nat) res) \<Rightarrow> page \<Rightarrow> (bytes \<Rightarrow> 's \<Rightarrow> ('s \<times> bool) res)
     \<Rightarrow> nat \<Rightarrow> 's \<Rightarrow> ('s \<times> bool) res" where
  "on_row bounds p g i s =
     res_bind (row_slice bounds p i (unat (num_rows p))) (\<lambda>d.
     case d of Some data \<Rightarrow> g data s | None \<Rightarrow> Inr (s, False))"

text \<open>The loops as pure folds over the rows that may stop early.\<close>

fun fold_stop :: "('a \<Rightarrow> 's \<Rightarrow> 's \<times> bool) \<Rightarrow> 'a list \<Rightarrow> 's \<Rightarrow> 's \<times> bool" where
  "fold_stop g [] s = (s, False)"
| "fold_stop g (x # xs) s = (let (s, stop) = g x s in if stop then (s, True) else fold_stop g xs s)"

lemma fold_until_map:
  "(\<And>i s. i \<in> set is \<Longrightarrow> f i s = g (h i) s) \<Longrightarrow> fold_until f is s = fold_until g (map h is) s"
  by (induction "is" arbitrary: s) (auto intro!: res_bind_cong)

lemma fold_until_pure:
  "(\<And>x s. x \<in> set xs \<Longrightarrow> f x s = Inr (g x s)) \<Longrightarrow> fold_until f xs s = Inr (fold_stop g xs s)"
  by (induction xs arbitrary: s) (auto simp: Let_def split: prod.split)

lemma fold_stop_append:
  "fold_stop g (xs @ ys) s =
     (if snd (fold_stop g xs s) then fold_stop g xs s else fold_stop g ys (fst (fold_stop g xs s)))"
  by (induction xs arbitrary: s) (auto simp: Let_def split: prod.split)

lemma fold_stop_never:
  "(\<And>x s. x \<in> set xs \<Longrightarrow> \<not> snd (g x s)) \<Longrightarrow> fold_stop g xs s = (fold (\<lambda>x s. fst (g x s)) xs s, False)"
proof (induction xs arbitrary: s)
  case (Cons x xs)
  then have "\<not> snd (g x s)" by simp
  moreover have "fold_stop g xs s = (fold (\<lambda>x s. fst (g x s)) xs s, False)" for s
    using Cons by simp
  ultimately show ?case by (simp add: Let_def case_prod_beta)
qed simp

lemma walk_rows_fold: "walk_rows (fold_stop g) rss s = fst (fold_stop g (concat rss) s)"
  by (induction rss arbitrary: s) (auto simp: fold_stop_append Let_def split: prod.split)

lemma walk_rows_fold_rev:
  "walk_rows (\<lambda>rows. fold_stop g (rev rows)) (rev rss) s = fst (fold_stop g (rev (concat rss)) s)"
proof -
  have "walk_rows (\<lambda>rows. fold_stop g (rev rows)) xss s = walk_rows (fold_stop g) (map rev xss) s" for xss s
    by (induction xss arbitrary: s) (simp_all add: Let_def case_prod_beta)
  then show ?thesis by (simp add: walk_rows_fold rev_concat rev_map)
qed

lemma row_slice_leaf:
  assumes "leaf_page p nx pv rows" "i < length rows" "rows ! i \<noteq> []"
    and "bounds = row_bounds \<or> bounds = row_bounds_raw"
  shows "row_slice bounds p i (unat (num_rows p)) = Inr (Some (rows ! i))"
proof -
  have "sub_bytes p (row_start rows i) (row_start rows (Suc i)) = rows ! i"
    using leaf_slice [OF assms(1,2)] by (simp add: slice_eq_Inr)
  moreover have "row_start rows i < row_start rows (Suc i)" "row_start rows (Suc i) \<le> PAGE_SIZE"
    using assms(2,3) leaf_pageD(12) [OF assms(1), of "Suc i"] by (simp_all add: row_start_Suc)
  ultimately show ?thesis
    using leaf_row_bounds [OF assms(1,2)] leaf_pageD(9) [OF assms(1)] assms(4)
    by (auto simp: row_slice_def)
qed

lemma leaf_fold:
  assumes "leaf_page p nx pv rows" "[] \<notin> set rows" "bounds = row_bounds \<or> bounds = row_bounds_raw"
  shows "fold_until (on_row bounds p f) [0..<unat (num_rows p)] s = fold_until f rows s"
    and "fold_until (on_row bounds p f) (rev [0..<unat (num_rows p)]) s = fold_until f (rev rows) s"
proof -
  have row: "on_row bounds p f i s = f (rows ! i) s" if "i < length rows" for i s
  proof -
    have "rows ! i \<noteq> []" using assms(2) nth_mem [OF that] by metis
    from row_slice_leaf [OF assms(1) that this assms(3)] show ?thesis by (simp add: on_row_def)
  qed
  have "map ((!) rows) [0..<length rows] = rows" by (simp add: map_nth)
  moreover have "map ((!) rows) (rev [0..<length rows]) = rev rows" by (simp add: map_nth rev_map [symmetric])
  moreover have "fold_until (on_row bounds p f) is s = fold_until f (map ((!) rows) is) s"
    if "set is \<subseteq> {..<length rows}" for "is"
    using that row by (intro fold_until_map) auto
  ultimately show "fold_until (on_row bounds p f) [0..<unat (num_rows p)] s = fold_until f rows s"
    and "fold_until (on_row bounds p f) (rev [0..<unat (num_rows p)]) s = fold_until f (rev rows) s"
    using leaf_pageD(9) [OF assms(1)] by (metis (no_types, lifting) atLeastLessThan_iff lessThan_iff set_rev set_upt subsetI)+
qed

text \<open>The walk against the chain visits the leaves in reverse.\<close>

lemma walk_chain_back:
  assumes "chain_ok rd 0 ls nx" "ls \<noteq> []" "length ls \<le> k" "0 \<notin> fst ` set ls"
    and V: "\<And>p nx pv rows s. leaf_page p nx pv rows \<Longrightarrow> rows \<in> snd ` set ls \<Longrightarrow> visit p s = Inr (V rows s)"
  shows "walk rd prev_leaf visit err k (last_page 0 ls) s = Inr (walk_rows V (rev (map snd ls)) s)"
  using assms(1-4) V
proof (induction ls arbitrary: nx k s rule: rev_induct)
  case (snoc l ls)
  obtain n rows where l: "l = (n, rows)" by (cases l)
  obtain p where p: "rd n = Inr p" "leaf_page p nx (last_page 0 ls) rows"
    using snoc.prems(1) by (auto simp: l chain_ok_append)
  obtain k' where k: "k = Suc k'" using snoc.prems(3) by (cases k) auto
  have vis: "visit p s = Inr (V rows s)" using snoc.prems(5) [OF p(2)] by (simp add: l)
  obtain s' stop where v: "V rows s = (s', stop)" by (cases "V rows s")
  have last: "last_page 0 (ls @ [l]) = n" by (simp add: last_page_def l)
  show ?case
  proof (cases "ls = []")
    case True
    then show ?thesis using p vis v leaf_pageD(6) [OF p(2)] by (simp add: k l)
  next
    case False
    then have nx: "prev_leaf p = last_page 0 ls" "last_page 0 ls \<noteq> 0"
      using leaf_pageD(6) [OF p(2)] snoc.prems(4) last_in_set [OF False]
      by (auto simp: last_page_def image_iff)
    have "walk rd prev_leaf visit err k' (last_page 0 ls) s' = Inr (walk_rows V (rev (map snd ls)) s')"
      using False snoc.prems by (intro snoc.IH [where nx = n]) (auto simp: l k chain_ok_append)
    then show ?thesis using p vis v nx last by (simp add: k l)
  qed
qed simp

section \<open>The contract of a branch page format\<close>

fun branches_at ::
  "(page \<Rightarrow> u32 list \<Rightarrow> 'k list \<Rightarrow> bool) \<Rightarrow> reader \<Rightarrow> 'k btree \<Rightarrow> bool" where
  "branches_at rep rd (BLeaf n rows) \<longleftrightarrow> True"
| "branches_at rep rd (BNode n ts ks) \<longleftrightarrow>
     (\<exists>p. rd n = Inr p \<and> rep p (map root_of ts) ks) \<and> (\<forall>t \<in> set ts. branches_at rep rd t)"

lemma branches_at_frame:
  "(\<And>n. n \<in> set (nodes t) \<Longrightarrow> rd' n = rd n) \<Longrightarrow> branches_at rep rd t \<Longrightarrow> branches_at rep rd' t"
  by (induction t) auto

locale branch_format =
  fixes rep :: "page \<Rightarrow> u32 list \<Rightarrow> 'k::linorder list \<Rightarrow> bool"
    and find :: "page \<Rightarrow> 'k \<Rightarrow> (nat \<times> u32) res"
    and child_at :: "page \<Rightarrow> nat \<Rightarrow> u32 res"
  assumes rep_not_leaf: "rep p cs ks \<Longrightarrow> \<not> is_leaf p"
    and rep_length: "rep p cs ks \<Longrightarrow> length cs = Suc (length ks)"
    and find_rep: "rep p cs ks \<Longrightarrow> find p k = Inr (route ks k, cs ! route ks k)"
    and child_rep: "rep p cs ks \<Longrightarrow> i \<le> length ks \<Longrightarrow> child_at p i = Inr (cs ! i)"
begin

text \<open>The descent for a key ends at the leaf the key is routed to.\<close>

lemma find_leaf_key:
  assumes "branches_at rep rd t" "chain_ok rd pv (as @ leaves t @ bs) nx" "height t \<le> k"
  shows "find_leaf rd (\<lambda>p. res_bind (find p key) (\<lambda>(_, c). Inr c)) err k (root_of t) =
    Inr (fst (leaf_for t key))"
  using assms
proof (induction t key arbitrary: k as bs rule: leaf_for.induct)
  case (1 n rows key)
  then obtain k' where k: "k = Suc k'" by (cases k) auto
  obtain p nx' pv' where "rd n = Inr p" "leaf_page p nx' pv' rows"
    using chain_ok_leaf [of rd pv as n rows bs nx] "1.prems"(2) by auto
  then show ?case using leaf_pageD(10) by (simp add: k)
next
  case (2 n ts ks key)
  obtain k' where k: "k = Suc k'" using "2.prems"(3) by (cases k) auto
  obtain p where p: "rd n = Inr p" "rep p (map root_of ts) ks" using "2.prems"(1) by auto
  have i: "route ks key < length ts"
    using rep_length [OF p(2)] by (intro route_lt) simp
  let ?t = "ts ! route ks key"
  have "leaves (BNode n ts ks) = concat (map leaves (take (route ks key) ts)) @ leaves ?t
      @ concat (map leaves (drop (Suc (route ks key)) ts))"
    by (subst id_take_nth_drop [OF i]) simp
  then have chain: "chain_ok rd pv ((as @ concat (map leaves (take (route ks key) ts))) @ leaves ?t
      @ (concat (map leaves (drop (Suc (route ks key)) ts)) @ bs)) nx"
    using "2.prems"(2) by simp
  have h: "height ?t \<le> k'"
    using height_child [of ?t ts n ks] i "2.prems"(3) k by simp
  have "branches_at rep rd ?t" using "2.prems"(1) i by simp
  from "2.IH" [OF i this chain h] show ?case
    using p i rep_not_leaf [OF p(2)] find_rep [OF p(2)] by (simp add: k)
qed

lemma leaves_ne: "branches_at rep rd t \<Longrightarrow> leaves t \<noteq> []"
proof (induction t)
  case (BNode n ts ks)
  then obtain p where "rep p (map root_of ts) ks" by auto
  then obtain t ts' where "ts = t # ts'" using rep_length by (cases ts) fastforce+
  with BNode show ?case by simp
qed simp

text \<open>Following the first child leads to the first leaf, following the last one to the last.\<close>

lemma find_leaf_first:
  assumes "branches_at rep rd t" "chain_ok rd pv (leaves t @ bs) nx" "height t \<le> k"
  shows "find_leaf rd (\<lambda>p. child_at p 0) err k (root_of t) = Inr (fst (hd (leaves t)))"
  using assms
proof (induction t arbitrary: k bs)
  case (BLeaf n rows)
  then obtain k' where k: "k = Suc k'" by (cases k) auto
  obtain p nx'' pv' where "rd n = Inr p" "leaf_page p nx'' pv' rows"
    using chain_ok_leaf [of rd pv "[]" n rows bs nx] BLeaf.prems(2) by auto
  then show ?case using leaf_pageD(10) by (simp add: k)
next
  case (BNode n ts ks)
  obtain k' where k: "k = Suc k'" using BNode.prems(3) by (cases k) auto
  obtain p where p: "rd n = Inr p" "rep p (map root_of ts) ks" using BNode.prems(1) by auto
  obtain t ts' where ts: "ts = t # ts'" using rep_length [OF p(2)] by (cases ts) auto
  have "height t \<le> k'" using height_child [of t ts n ks] BNode.prems(3) k ts by simp
  moreover have "chain_ok rd pv (leaves t @ (concat (map leaves ts') @ bs)) nx"
    using BNode.prems(2) ts by simp
  moreover have t: "branches_at rep rd t" using BNode.prems(1) ts by simp
  ultimately have "find_leaf rd (\<lambda>p. child_at p 0) err k' (root_of t) = Inr (fst (hd (leaves t)))"
    using BNode.IH ts by simp
  then show ?case
    using p rep_not_leaf [OF p(2)] child_rep [OF p(2), of 0] leaves_ne [OF t]
    by (simp add: k ts)
qed

lemma leaf_for_top:
  assumes "branches_at rep rd t" "\<And>x. x \<le> (K :: 'k)"
  shows "leaf_for t K = last (leaves t)"
  using assms(1)
proof (induction t)
  case (BNode n ts ks)
  obtain p where p: "rep p (map root_of ts) ks" using BNode.prems by auto
  have len: "length ts = Suc (length ks)" using rep_length [OF p] by simp
  have "takeWhile (\<lambda>x. x \<le> K) ks = ks" using assms(2) by (simp add: takeWhile_eq_all_conv)
  then have r: "route ks K = length ks" by (simp only: route_def)
  obtain ts' t where ts: "ts = ts' @ [t]" using len by (cases ts rule: rev_cases) auto
  have t: "branches_at rep rd t" using BNode.prems ts by simp
  then have "leaf_for t K = last (leaves t)" using BNode.IH ts by simp
  then show ?case
    using len r leaves_ne [OF t] by (simp add: ts last_append nth_append)
qed simp

lemma find_leaf_last:
  assumes "branches_at rep rd t" "chain_ok rd pv (as @ leaves t) nx" "height t \<le> k"
    and n: "\<And>p cs ks. rep p cs ks \<Longrightarrow> nkeys p = length ks"
  shows "find_leaf rd (\<lambda>p. child_at p (nkeys p)) err k (root_of t) = Inr (fst (last (leaves t)))"
  using assms(1-3)
proof (induction t arbitrary: k as)
  case (BLeaf m rows)
  then obtain k' where k: "k = Suc k'" by (cases k) auto
  obtain p nx'' pv' where "rd m = Inr p" "leaf_page p nx'' pv' rows"
    using chain_ok_leaf [of rd pv as m rows "[]" nx] BLeaf.prems(2) by auto
  then show ?case using leaf_pageD(10) by (simp add: k)
next
  case (BNode m ts ks)
  obtain k' where k: "k = Suc k'" using BNode.prems(3) by (cases k) auto
  obtain p where p: "rd m = Inr p" "rep p (map root_of ts) ks" using BNode.prems(1) by auto
  obtain ts' t where ts: "ts = ts' @ [t]"
    using rep_length [OF p(2)] by (cases ts rule: rev_cases) auto
  have len: "length ts' = length ks" using rep_length [OF p(2)] ts by simp
  have "height t \<le> k'" using height_child [of t ts m ks] BNode.prems(3) k ts by simp
  moreover have "chain_ok rd pv ((as @ concat (map leaves ts')) @ leaves t) nx"
    using BNode.prems(2) ts by simp
  moreover have t: "branches_at rep rd t" using BNode.prems(1) ts by simp
  ultimately have "find_leaf rd (\<lambda>p. child_at p (nkeys p)) err k' (root_of t) = Inr (fst (last (leaves t)))"
    using BNode.IH [of t "as @ concat (map leaves ts')" k'] ts by simp
  then show ?case
    using p rep_not_leaf [OF p(2)] child_rep [OF p(2), of "length ks"] n [OF p(2)] leaves_ne [OF t] len
    by (simp add: k ts nth_append)
qed

end

text \<open>The row tree's branch pages.\<close>

interpretation row_branch: branch_format branch_page find_child get_branch_child
proof
  fix p cs ks and i :: nat assume b: "branch_page p cs ks" and "i \<le> length ks"
  then show "get_branch_child p i = Inr (cs ! i)"
    using branch_child [OF b] branch_pageD(5) [OF b] by simp
qed (simp_all add: branch_pageD(5,7) find_child_branch)

end
