(* ===== verification/Tree_Edit.thy ===== *)
theory Tree_Edit
  imports Tree_Shape "HOL-Library.Multiset"
begin

text \<open>
  What the writers of both trees keep: \<open>in_range\<close> is the order invariant with every separator
  strictly inside the range of its subtree (so that a separator pushed up by a split stays in
  order, also next to emptied leaves). The lemmas edit a leaf in place, in the chain and in the
  tree; the locale proves once that an insertion which splits leaves and branches upward keeps the
  tree, given the contracts of the leaf and the branch operation.
\<close>

section \<open>Ranges\<close>

definition lo_le :: "'k::linorder option \<Rightarrow> 'k \<Rightarrow> bool" where
  "lo_le lo k \<longleftrightarrow> (case lo of None \<Rightarrow> True | Some l \<Rightarrow> l \<le> k)"

definition lt_hi :: "'k::linorder option \<Rightarrow> 'k \<Rightarrow> bool" where
  "lt_hi hi k \<longleftrightarrow> (case hi of None \<Rightarrow> True | Some h \<Rightarrow> k < h)"

definition lo_lt :: "'k::linorder option \<Rightarrow> 'k \<Rightarrow> bool" where
  "lo_lt lo k \<longleftrightarrow> (case lo of None \<Rightarrow> True | Some l \<Rightarrow> l < k)"

lemma bound_simps [simp]:
  "lo_le None k" "lt_hi None k" "lo_lt None k"
  "lo_le (Some l) k \<longleftrightarrow> l \<le> k" "lt_hi (Some h) k \<longleftrightarrow> k < h" "lo_lt (Some l) k \<longleftrightarrow> l < k"
  by (simp_all add: lo_le_def lt_hi_def lo_lt_def)

lemma bound_trans:
  "lo_le lo k \<Longrightarrow> k \<le> k' \<Longrightarrow> lo_le lo k'" "lo_le lo k \<Longrightarrow> k < k' \<Longrightarrow> lo_lt lo k'"
  "lt_hi hi k' \<Longrightarrow> k \<le> k' \<Longrightarrow> lt_hi hi k" "lo_lt lo k \<Longrightarrow> k \<le> k' \<Longrightarrow> lo_lt lo k'"
  "lo_lt lo k \<Longrightarrow> lo_le lo k"
  by (auto simp: lo_le_def lt_hi_def lo_lt_def split: option.splits)

definition ranges :: "'k option \<Rightarrow> 'k option \<Rightarrow> 'k list \<Rightarrow> ('k option \<times> 'k option) list" where
  "ranges lo hi ks = zip (lo # map Some ks) (map Some ks @ [hi])"

lemma ranges_simps [simp]:
  "ranges lo hi [] = [(lo, hi)]" "ranges lo hi (k # ks) = (lo, Some k) # ranges (Some k) hi ks"
  "length (ranges lo hi ks) = Suc (length ks)"
  by (simp_all add: ranges_def)

lemma ranges_append: "ranges lo hi (ks @ k # ks') = ranges lo (Some k) ks @ ranges (Some k) hi ks'"
  by (induction ks arbitrary: lo) simp_all

function in_range :: "(bytes \<Rightarrow> 'k::linorder) \<Rightarrow> 'k option \<Rightarrow> 'k option \<Rightarrow> 'k btree \<Rightarrow> bool" where
  "in_range key lo hi (BLeaf n rows) \<longleftrightarrow>
     sorted_wrt (<) (map key rows) \<and> (\<forall>r \<in> set rows. lo_le lo (key r) \<and> lt_hi hi (key r))"
| "in_range key lo hi (BNode n ts ks) \<longleftrightarrow>
     sorted_wrt (<) ks \<and> (\<forall>k \<in> set ks. lo_lt lo k \<and> lt_hi hi k)
     \<and> length ts = Suc (length ks)
     \<and> (\<forall>x \<in> set (zip ts (ranges lo hi ks)). in_range key (fst (snd x)) (snd (snd x)) (fst x))"
  by pat_completeness auto
termination
  by (relation "measure (\<lambda>(key, lo, hi, t). height t)")
     (auto dest!: set_zip_leftD intro!: height_child simp del: height.simps)

abbreviation child_ranges :: "(bytes \<Rightarrow> 'k::linorder) \<Rightarrow> 'k btree list \<Rightarrow> ('k option \<times> 'k option) list \<Rightarrow> bool" where
  "child_ranges key ts rs \<equiv> list_all2 (\<lambda>t r. in_range key (fst r) (snd r) t) ts rs"

lemma in_range_node:
  "in_range key lo hi (BNode n ts ks) \<longleftrightarrow>
     sorted_wrt (<) ks \<and> (\<forall>k \<in> set ks. lo_lt lo k \<and> lt_hi hi k) \<and> child_ranges key ts (ranges lo hi ks)"
  by (auto simp: list_all2_iff split_beta)

declare in_range.simps(2) [simp del]

lemma in_range_keys:
  "in_range key lo hi t \<Longrightarrow> r \<in> set (tree_rows t) \<Longrightarrow> lo_le lo (key r) \<and> lt_hi hi (key r)"
proof (induction t arbitrary: lo hi)
  case (BNode n ts ks)
  from BNode.prems(2) obtain t where "t \<in> set ts" "r \<in> set (tree_rows t)" by auto
  then obtain i where i: "i < length ts" "r \<in> set (tree_rows (ts ! i))" by (metis in_set_conv_nth)
  from BNode.prems(1) have ks: "sorted_wrt (<) ks" "\<forall>k \<in> set ks. lo_lt lo k \<and> lt_hi hi k"
    and ch: "child_ranges key ts (ranges lo hi ks)" by (simp_all add: in_range_node)
  let ?r = "ranges lo hi ks ! i"
  have "in_range key (fst ?r) (snd ?r) (ts ! i)" using ch i(1) by (simp add: list_all2_conv_all_nth)
  then have r: "lo_le (fst ?r) (key r)" "lt_hi (snd ?r) (key r)" using BNode.IH [of "ts ! i"] i by auto
  have len: "length ts = Suc (length ks)" using ch by (auto dest: list_all2_lengthD)
  have lo: "fst ?r = (if i = 0 then lo else Some (ks ! (i - 1)))" and hi: "snd ?r = (if i < length ks then Some (ks ! i) else hi)"
    using i(1) len by (auto simp: ranges_def nth_Cons nth_append split: nat.split)
  have "lo_le lo (key r)"
  proof (cases i)
    case (Suc j)
    then have "lo_lt lo (ks ! j)" "ks ! j \<le> key r" using r(1) lo ks(2) i(1) len by auto
    then show ?thesis by (blast intro: bound_trans)
  qed (use r(1) lo in simp)
  moreover have "lt_hi hi (key r)"
  proof (cases "i < length ks")
    case True
    then have "lt_hi hi (ks ! i)" "key r < ks ! i" using r(2) hi ks(2) by auto
    then show ?thesis by (blast intro: bound_trans less_imp_le)
  qed (use r(2) hi in simp)
  ultimately show ?case by simp
qed simp

lemma in_range_ordered: "in_range key lo hi t \<Longrightarrow> ordered key t"
proof (induction t arbitrary: lo hi)
  case (BNode n ts ks)
  from BNode.prems have ks: "sorted_wrt (<) ks" and ch: "child_ranges key ts (ranges lo hi ks)"
    by (simp_all add: in_range_node)
  have len: "length ts = Suc (length ks)" using ch by (auto dest: list_all2_lengthD)
  have child: "in_range key (fst (ranges lo hi ks ! i)) (snd (ranges lo hi ks ! i)) (ts ! i)" if "i < length ts" for i
    using ch that by (simp add: list_all2_conv_all_nth)
  have "\<forall>t \<in> set ts. ordered key t" using BNode.IH child by (metis in_set_conv_nth)
  moreover have "key r < ks ! i" if "i < length ks" "r \<in> set (tree_rows (ts ! i))" for i r
    using in_range_keys [OF child that(2)] that(1) len
    by (auto simp: ranges_def nth_append)
  moreover have "ks ! i \<le> key r" if "i < length ks" "r \<in> set (tree_rows (ts ! Suc i))" for i r
    using in_range_keys [OF child that(2)] that(1) len by (auto simp: ranges_def nth_append)
  ultimately show ?case using ks len by simp
qed simp

text \<open>A node cut at a separator, and a child replaced by two.\<close>

lemma in_range_cut:
  assumes "in_range key lo hi (BNode n ts ks)" "j < length ks"
  shows "in_range key lo (Some (ks ! j)) (BNode a (take (Suc j) ts) (take j ks))"
    and "in_range key (Some (ks ! j)) hi (BNode b (drop (Suc j) ts) (drop (Suc j) ks))"
    and "lo_lt lo (ks ! j)" "lt_hi hi (ks ! j)"
proof -
  have ks: "sorted_wrt (<) ks" "\<forall>k \<in> set ks. lo_lt lo k \<and> lt_hi hi k"
    and ch: "child_ranges key ts (ranges lo hi ks)" using assms(1) by (simp_all add: in_range_node)
  have split: "ks = take j ks @ ks ! j # drop (Suc j) ks" by (rule id_take_nth_drop [OF assms(2)])
  have len: "length ts = Suc (length ks)" using ch by (auto dest: list_all2_lengthD)
  have "child_ranges key (take (Suc j) ts @ drop (Suc j) ts)
      (ranges lo (Some (ks ! j)) (take j ks) @ ranges (Some (ks ! j)) hi (drop (Suc j) ks))"
    using ch ranges_append [of lo hi "take j ks" "ks ! j" "drop (Suc j) ks"]
    by (simp only: split [symmetric] append_take_drop_id)
  moreover have "length (take (Suc j) ts) = length (ranges lo (Some (ks ! j)) (take j ks))"
    using len assms(2) by simp
  ultimately have ch2: "child_ranges key (take (Suc j) ts) (ranges lo (Some (ks ! j)) (take j ks))"
    "child_ranges key (drop (Suc j) ts) (ranges (Some (ks ! j)) hi (drop (Suc j) ks))"
    using list_all2_append by blast+
  have s: "sorted_wrt (<) (take j ks @ ks ! j # drop (Suc j) ks)" using ks(1) split by metis
  then have lt: "\<forall>k \<in> set (take j ks). k < ks ! j" "\<forall>k \<in> set (drop (Suc j) ks). ks ! j < k"
    "sorted_wrt (<) (take j ks)" "sorted_wrt (<) (drop (Suc j) ks)"
    by (simp_all add: sorted_wrt_append)
  have b: "\<forall>k \<in> set (take j ks). lo_lt lo k" "\<forall>k \<in> set (drop (Suc j) ks). lt_hi hi k"
    using ks(2) by (auto dest: in_set_takeD in_set_dropD)
  show "in_range key lo (Some (ks ! j)) (BNode a (take (Suc j) ts) (take j ks))"
    "in_range key (Some (ks ! j)) hi (BNode b (drop (Suc j) ts) (drop (Suc j) ks))"
    using ch2 lt b by (simp_all add: in_range_node)
  show "lo_lt lo (ks ! j)" "lt_hi hi (ks ! j)" using ks(2) assms(2) by simp_all
qed

lemma child_range:
  assumes "in_range key lo hi (BNode n ts ks)" "i < length ts"
  obtains l h where "in_range key l h (ts ! i)"
    "ranges lo hi ks = take i (ranges lo hi ks) @ (l, h) # drop (Suc i) (ranges lo hi ks)"
    "l = (if i = 0 then lo else Some (ks ! (i - 1)))" "h = (if i < length ks then Some (ks ! i) else hi)"
proof -
  have ch: "child_ranges key ts (ranges lo hi ks)" using assms(1) by (simp add: in_range_node)
  have len: "length ts = Suc (length ks)" using ch by (auto dest: list_all2_lengthD)
  let ?l = "if i = 0 then lo else Some (ks ! (i - 1))" and ?h = "if i < length ks then Some (ks ! i) else hi"
  have n: "ranges lo hi ks ! i = (?l, ?h)"
    using assms(2) len by (auto simp: ranges_def nth_Cons nth_append split: nat.split)
  have "in_range key ?l ?h (ts ! i)" using list_all2_nthD [OF ch assms(2)] by (simp only: n fst_conv snd_conv)
  moreover have "ranges lo hi ks = take i (ranges lo hi ks) @ (?l, ?h) # drop (Suc i) (ranges lo hi ks)"
    using id_take_nth_drop [of i "ranges lo hi ks"] assms(2) len by (simp only: n ranges_simps(3))
  ultimately show ?thesis by (rule that [OF _ _ refl refl])
qed

lemma in_range_replace:
  assumes t: "in_range key lo hi (BNode n ts ks)" and i: "i < length ts"
    and r: "\<And>l h. in_range key l h (ts ! i) \<Longrightarrow> l = (if i = 0 then lo else Some (ks ! (i - 1))) \<Longrightarrow>
      h = (if i < length ks then Some (ks ! i) else hi) \<Longrightarrow> in_range key l h t'"
  shows "in_range key lo hi (BNode n (ts[i := t']) ks)"
proof -
  obtain l h where lh: "in_range key l h (ts ! i)"
    "ranges lo hi ks = take i (ranges lo hi ks) @ (l, h) # drop (Suc i) (ranges lo hi ks)"
    "l = (if i = 0 then lo else Some (ks ! (i - 1)))" "h = (if i < length ks then Some (ks ! i) else hi)"
    by (rule child_range [OF t i])
  have ch: "child_ranges key ts (ranges lo hi ks)" using t by (simp add: in_range_node)
  have len: "length ts = Suc (length ks)" using ch by (auto dest: list_all2_lengthD)
  have "ranges lo hi ks ! i = (l, h)"
    using lh(2) i len by (metis length_take min.absorb2 nth_append_length ranges_simps(3) less_imp_le)
  then have "child_ranges key (ts[i := t']) ((ranges lo hi ks)[i := (l, h)])"
    using ch r [OF lh(1,3,4)] by (intro list_all2_update_cong) auto
  moreover have "(ranges lo hi ks)[i := (l, h)] = ranges lo hi ks"
    using \<open>ranges lo hi ks ! i = (l, h)\<close> by (metis list_update_id)
  ultimately show ?thesis using t by (simp add: in_range_node)
qed

lemma ranges_insert:
  assumes "i \<le> length ks" "l = (if i = 0 then lo else Some (ks ! (i - 1)))"
    "h = (if i < length ks then Some (ks ! i) else hi)"
  shows "ranges lo hi (take i ks @ k # drop i ks) =
    take i (ranges lo hi ks) @ (l, Some k) # (Some k, h) # drop (Suc i) (ranges lo hi ks)"
  using assms
proof (induction ks arbitrary: i lo l)
  case (Cons a ks)
  show ?case
  proof (cases i)
    case (Suc j)
    then show ?thesis using Cons.prems Cons.IH [of j "if j = 0 then Some a else Some (ks ! (j - 1))" "Some a"]
      by (cases j) simp_all
  qed (use Cons.prems in simp)
qed simp

lemma in_range_split_child:
  assumes t: "in_range key lo hi (BNode n ts ks)" and i: "i < length ts"
    and r: "\<And>l h. in_range key l h (ts ! i) \<Longrightarrow> l = (if i = 0 then lo else Some (ks ! (i - 1))) \<Longrightarrow>
      h = (if i < length ks then Some (ks ! i) else hi) \<Longrightarrow>
      in_range key l (Some k) t1 \<and> in_range key (Some k) h t2 \<and> lo_lt l k \<and> lt_hi h k"
  shows "in_range key lo hi (BNode n (take i ts @ t1 # t2 # drop (Suc i) ts) (take i ks @ k # drop i ks))"
proof -
  obtain l h where lh: "in_range key l h (ts ! i)"
    "ranges lo hi ks = take i (ranges lo hi ks) @ (l, h) # drop (Suc i) (ranges lo hi ks)"
    "l = (if i = 0 then lo else Some (ks ! (i - 1)))" "h = (if i < length ks then Some (ks ! i) else hi)"
    by (rule child_range [OF t i])
  note r' = r [OF lh(1,3,4)]
  have ch: "child_ranges key ts (ranges lo hi ks)" and ks: "sorted_wrt (<) ks" "\<forall>k \<in> set ks. lo_lt lo k \<and> lt_hi hi k"
    using t by (simp_all add: in_range_node)
  have len: "length ts = Suc (length ks)" using ch by (auto dest: list_all2_lengthD)
  have ile: "i \<le> length ks" using i len by simp
  have "child_ranges key (take i ts) (take i (ranges lo hi ks))"
    "child_ranges key (drop (Suc i) ts) (drop (Suc i) (ranges lo hi ks))"
    using ch by (auto intro: list_all2_takeI list_all2_dropI)
  then have "child_ranges key (take i ts @ t1 # t2 # drop (Suc i) ts)
      (take i (ranges lo hi ks) @ (l, Some k) # (Some k, h) # drop (Suc i) (ranges lo hi ks))"
    using r' by (intro list_all2_appendI) auto
  moreover have before: "\<forall>x \<in> set (take i ks). x < k"
  proof (cases i)
    case (Suc j)
    then have "ks ! j < k" using r' lh(3) by simp
    moreover have "x \<le> ks ! j" if "x \<in> set (take i ks)" for x
      using that Suc ks(1) ile by (auto simp: in_set_conv_nth sorted_wrt_iff_nth_less less_Suc_eq intro: less_imp_le)
    ultimately show ?thesis by fastforce
  qed simp
  moreover have "\<forall>x \<in> set (drop i ks). k < x"
  proof (cases "i < length ks")
    case True
    then have "k < ks ! i" using r' lh(4) by simp
    moreover have "ks ! i \<le> x" if x: "x \<in> set (drop i ks)" for x
    proof -
      obtain m where "m < length ks - i" "x = ks ! (i + m)" using x by (auto simp: in_set_conv_nth)
      then show ?thesis using ks(1) by (cases m) (auto simp: sorted_wrt_iff_nth_less intro: less_imp_le)
    qed
    ultimately show ?thesis by fastforce
  qed simp
  ultimately have order: "\<forall>x \<in> set (take i ks). \<forall>y \<in> set (drop i ks). x < y" "\<forall>x \<in> set (take i ks). x < k"
    "\<forall>x \<in> set (drop i ks). k < x"
    "child_ranges key (take i ts @ t1 # t2 # drop (Suc i) ts)
      (take i (ranges lo hi ks) @ (l, Some k) # (Some k, h) # drop (Suc i) (ranges lo hi ks))"
    by (blast intro: less_trans)+
  have "sorted_wrt (<) (take i ks)" "sorted_wrt (<) (drop i ks)" using ks(1) by (simp_all add: sorted_wrt_take sorted_wrt_drop)
  moreover have "lo_lt lo k"
  proof (cases i)
    case (Suc j)
    then have "lo_lt lo (ks ! j)" "ks ! j < k" using ks(2) r' lh(3) ile by auto
    then show ?thesis by (blast intro: bound_trans less_imp_le)
  qed (use r' lh(3) in simp)
  moreover have "lt_hi hi k"
  proof (cases "i < length ks")
    case True
    then have "lt_hi hi (ks ! i)" "k < ks ! i" using ks(2) r' lh(4) by auto
    then show ?thesis by (blast intro: bound_trans less_imp_le)
  qed (use r' lh(4) in simp)
  ultimately show ?thesis
    using ks ranges_insert [OF ile lh(3,4), of k] order
    by (auto simp: in_range_node sorted_wrt_append dest: in_set_takeD in_set_dropD)
qed

section \<open>Editing leaves in place\<close>

fun map_leaves :: "(u32 \<Rightarrow> bytes list \<Rightarrow> bytes list) \<Rightarrow> 'k btree \<Rightarrow> 'k btree" where
  "map_leaves g (BLeaf n rows) = BLeaf n (g n rows)"
| "map_leaves g (BNode n ts ks) = BNode n (map (map_leaves g) ts) ks"

lemma map_leaves_same [simp]:
  "root_of (map_leaves g t) = root_of t" "nodes (map_leaves g t) = nodes t"
  "height (map_leaves g t) = height t"
  "leaves (map_leaves g t) = map (\<lambda>(n, rows). (n, g n rows)) (leaves t)"
proof -
  show "root_of (map_leaves g t) = root_of t" by (cases t) simp_all
  show "nodes (map_leaves g t) = nodes t" by (induction t) (simp_all add: comp_def cong: map_cong)
  show "height (map_leaves g t) = height t" by (induction t) (simp_all add: image_image cong: image_cong)
  show "leaves (map_leaves g t) = map (\<lambda>(n, rows). (n, g n rows)) (leaves t)"
    by (induction t) (simp_all add: map_concat comp_def cong: map_cong)
qed

lemma tree_pages_map_leaves [simp]: "tree_pages (map_leaves g t) = tree_pages t"
  by (simp add: tree_pages_def case_prod_unfold comp_def)

lemma branches_map_leaves: "branches_at rep rd (map_leaves g t) \<longleftrightarrow> branches_at rep rd t"
  by (induction t) (auto simp: comp_def)

lemma in_range_map_leaves:
  assumes "in_range key lo hi t"
    and "\<forall>(n, rows) \<in> set (leaves t). (sorted_wrt (<) (map key rows) \<longrightarrow> sorted_wrt (<) (map key (g n rows)))
      \<and> key ` set (g n rows) \<subseteq> key ` set rows"
  shows "in_range key lo hi (map_leaves g t)"
  using assms
proof (induction t arbitrary: lo hi)
  case (BLeaf n rows)
  then show ?case by (fastforce simp: image_subset_iff image_iff)
next
  case (BNode n ts ks)
  have "child_ranges key ts (ranges lo hi ks)" using BNode.prems(1) by (simp add: in_range_node)
  then have "child_ranges key (map (map_leaves g) ts) (ranges lo hi ks)"
    using BNode.IH BNode.prems(2) by (auto simp: list_all2_conv_all_nth)
  then show ?case using BNode.prems(1) by (simp add: in_range_node)
qed

text \<open>The chain after one leaf is rewritten, and after it is split in two.\<close>

lemma chain_edit:
  assumes "chain_ok rd pv (as @ (n, rows) # bs) nx" "n \<notin> fst ` set (as @ bs)"
    and "rd' n = Inr p'" "leaf_page p' (first_page bs nx) (last_page pv as) rows'"
    and "\<And>m. m \<in> fst ` set (as @ bs) \<Longrightarrow> rd' m = rd m"
  shows "chain_ok rd' pv (as @ (n, rows') # bs) nx"
proof -
  have c: "chain_ok rd pv as n" "chain_ok rd n bs nx" using assms(1) by (auto simp: chain_ok_append)
  have "chain_ok rd' pv as n" by (rule chain_ok_frame [OF _ c(1)]) (use assms(5) in auto)
  moreover have "chain_ok rd' n bs nx" by (rule chain_ok_frame [OF _ c(2)]) (use assms(5) in auto)
  ultimately show ?thesis using assms(3,4) by (simp add: chain_ok_append)
qed

lemma chain_split:
  assumes "chain_ok rd pv (as @ (n, rows) # bs) nx" "distinct (map fst (as @ (n, rows) # bs))"
    and "rd' n = Inr p1" "leaf_page p1 m (last_page pv as) rows1"
    and "rd' m = Inr p2" "leaf_page p2 (first_page bs nx) n rows2" "m \<notin> fst ` set (as @ (n, rows) # bs)"
    and next_leaf: "\<And>b rb bs'. bs = (b, rb) # bs' \<Longrightarrow> \<exists>q. rd' b = Inr q \<and> leaf_page q (first_page bs' nx) m rb"
    and same: "\<And>x. x \<in> fst ` set (as @ tl bs) \<Longrightarrow> rd' x = rd x"
  shows "chain_ok rd' pv (as @ (n, rows1) # (m, rows2) # bs) nx"
proof -
  have c: "chain_ok rd pv as n" "chain_ok rd n bs nx" using assms(1) by (auto simp: chain_ok_append)
  have "chain_ok rd' pv as n" by (rule chain_ok_frame [OF _ c(1)]) (use same in auto)
  moreover have "chain_ok rd' m bs nx"
  proof (cases bs)
    case (Cons x bs')
    obtain b rb where x: "x = (b, rb)" by (cases x)
    have "chain_ok rd b bs' nx" using c(2) Cons x by auto
    then have "chain_ok rd' b bs' nx" by (rule chain_ok_frame [rotated]) (use same Cons in auto)
    then show ?thesis using next_leaf [of b rb bs'] Cons x by auto
  qed simp
  ultimately show ?thesis using assms(3-6) by (simp add: chain_ok_append)
qed

text \<open>Rewriting one leaf with some of its keys keeps the branches, the chain and the key ranges.\<close>

lemma edit_leaf_tree:
  assumes b: "branches_at rep rd t" and c: "chain_ok rd 0 (leaves t) 0" and rng: "in_range key None None t"
    and d: "distinct (tree_pages t)" and split: "leaves t = as @ (n, rows) # bs"
    and p: "leaf_page p (first_page bs 0) (last_page 0 as) rows'"
    and rows': "sorted_wrt (<) (map key rows')" "key ` set rows' \<subseteq> key ` set rows"
  shows "\<exists>t'. branches_at rep (rd(n := Inr p)) t' \<and> chain_ok (rd(n := Inr p)) 0 (leaves t') 0 \<and> in_range key None None t'
    \<and> leaves t' = as @ (n, rows') # bs \<and> root_of t' = root_of t \<and> height t' = height t \<and> tree_pages t' = tree_pages t"
proof -
  let ?g = "\<lambda>m rs. if m = n then rows' else rs" and ?rd = "rd(n := Inr p)"
  let ?t = "map_leaves ?g t"
  have dl: "distinct (map fst (leaves t))" using d by (simp add: tree_pages_def)
  have n: "n \<notin> fst ` set (as @ bs)" using dl split by auto
  have nn: "n \<notin> set (nodes t)" using d split by (auto simp: tree_pages_def)
  have "map (\<lambda>(m, rs). (m, ?g m rs)) xs = xs" if "set xs \<subseteq> set (as @ bs)" for xs
    using that n by (intro map_idI) force
  then have "map (\<lambda>(m, rs). (m, ?g m rs)) as = as" "map (\<lambda>(m, rs). (m, ?g m rs)) bs = bs" by simp_all
  then have leaves: "leaves ?t = as @ (n, rows') # bs" by (simp only: map_leaves_same split map_append list.map) simp
  have "branches_at rep ?rd ?t"
    unfolding branches_map_leaves by (rule branches_at_frame [OF _ b]) (use nn in auto)
  moreover have "chain_ok ?rd 0 (leaves ?t) 0"
    unfolding leaves
    by (rule chain_edit [where rd = rd and rows = rows, OF _ n _ p]) (use c split n in auto)
  moreover have "in_range key None None ?t"
  proof (rule in_range_map_leaves [OF rng], clarify)
    fix m rs assume m: "(m, rs) \<in> set (leaves t)"
    have "m = n \<Longrightarrow> rs = rows" using m dl split by (auto dest: map_of_is_SomeI simp: image_iff)
    then show "(sorted_wrt (<) (map key rs) \<longrightarrow> sorted_wrt (<) (map key (?g m rs)))
      \<and> key ` set (?g m rs) \<subseteq> key ` set rs" using rows' by auto
  qed
  ultimately show ?thesis using leaves by (intro exI [of _ ?t]) simp
qed

section \<open>Insertion\<close>

datatype 'k insert_result = Fit | Split u32 'k

text \<open>
  The effect of an insertion on a stretch of the tree: the pages and rows of a list of subtrees
  (between the leaves \<open>as\<close> and \<open>bs\<close>) before it, the subtrees \<open>ts\<close> after it. One row \<open>r\<close> with key
  \<open>k\<close> has come in; \<open>Q\<close> says what it stands for, with the help of the fresh pages \<open>ps\<close>.
\<close>

definition forest_inserted ::
  "(page \<Rightarrow> u32 list \<Rightarrow> 'k::linorder list \<Rightarrow> bool) \<Rightarrow> (bytes \<Rightarrow> 'k) \<Rightarrow> 'k \<Rightarrow> (reader \<Rightarrow> u32 set \<Rightarrow> bytes \<Rightarrow> bool)
     \<Rightarrow> reader \<Rightarrow> nat \<Rightarrow> (u32 \<times> bytes list) list \<Rightarrow> (u32 \<times> bytes list) list \<Rightarrow> u32 list \<Rightarrow> bytes list
     \<Rightarrow> 'k btree list \<Rightarrow> reader \<Rightarrow> nat \<Rightarrow> bool"
where
  "forest_inserted rep key k Q rd fr as bs pgs rows ts rd' fr' \<longleftrightarrow>
     (\<exists>r ps ns xs ys.
        key r = k \<and> Q rd' ps r \<and> rows = xs @ ys \<and> concat (map tree_rows ts) = xs @ r # ys
        \<and> (\<forall>t \<in> set ts. branches_at rep rd' t) \<and> chain_ok rd' 0 (as @ concat (map leaves ts) @ bs) 0
        \<and> mset (concat (map tree_pages ts)) = mset pgs + mset ns \<and> distinct ns \<and> set ns \<inter> ps = {}
        \<and> (\<forall>n \<in> set ns \<union> ps. fr \<le> unat n \<and> unat n < fr')
        \<and> (\<forall>m. unat m < fr \<longrightarrow> m \<notin> set pgs \<union> fst ` set bs \<longrightarrow> rd' m = rd m))"

lemma mset_tree_pages: "mset (tree_pages (BNode n ts ks)) = add_mset n (mset (concat (map tree_pages ts)))"
proof -
  have "mset (concat (map nodes ts)) + mset (map fst (concat (map leaves ts))) = mset (concat (map tree_pages ts))"
    by (induction ts) (simp_all add: tree_pages_def)
  then show ?thesis by (simp add: tree_pages_def)
qed

lemma set_tree_pages: "set (tree_pages (BNode n ts ks)) = insert n (set (concat (map tree_pages ts)))"
  using mset_tree_pages [of n ts ks] by (metis set_mset_add_mset_insert set_mset_mset)

lemma set_concat_pages: "set (concat (map tree_pages ts)) = set (concat (map nodes ts)) \<union> fst ` set (concat (map leaves ts))"
  by (induction ts) (auto simp: tree_pages_def)

text \<open>The result for one child, as a result for the list of children.\<close>

lemma forest_replace:
  assumes f: "forest_inserted rep key k Q rd fr (as @ concat (map leaves (take i ts)))
      (concat (map leaves (drop (Suc i) ts)) @ bs) (tree_pages (ts ! i)) (tree_rows (ts ! i)) fs rd1 fr1"
    and i: "i < length ts" and b: "\<forall>t \<in> set ts. branches_at rep rd t"
    and d: "distinct (concat (map nodes ts) @ map fst (as @ concat (map leaves ts) @ bs))"
    and fr: "\<forall>n \<in> set (concat (map nodes ts)). unat n < fr"
  shows "forest_inserted rep key k Q rd fr as bs (concat (map tree_pages ts)) (concat (map tree_rows ts))
      (take i ts @ fs @ drop (Suc i) ts) rd1 fr1"
proof -
  obtain r ps ns xs ys where f: "key r = k" "Q rd1 ps r" "tree_rows (ts ! i) = xs @ ys"
    "concat (map tree_rows fs) = xs @ r # ys" "\<forall>t \<in> set fs. branches_at rep rd1 t"
    "chain_ok rd1 0 ((as @ concat (map leaves (take i ts))) @ concat (map leaves fs)
       @ (concat (map leaves (drop (Suc i) ts)) @ bs)) 0"
    "mset (concat (map tree_pages fs)) = mset (tree_pages (ts ! i)) + mset ns" "distinct ns" "set ns \<inter> ps = {}"
    "\<forall>n \<in> set ns \<union> ps. fr \<le> unat n \<and> unat n < fr1"
    "\<forall>m. unat m < fr \<longrightarrow> m \<notin> set (tree_pages (ts ! i)) \<union> fst ` set (concat (map leaves (drop (Suc i) ts)) @ bs)
       \<longrightarrow> rd1 m = rd m"
    using f unfolding forest_inserted_def by blast
  let ?a = "take i ts" and ?b = "drop (Suc i) ts"
  have ts: "ts = ?a @ ts ! i # ?b" by (rule id_take_nth_drop [OF i])
  have cm: "concat (map g ts) = concat (map g ?a) @ g (ts ! i) @ concat (map g ?b)" for g :: "'a btree \<Rightarrow> 'b list"
    by (subst ts) simp
  have cr: "concat (map tree_rows ts) = concat (map tree_rows ?a) @ tree_rows (ts ! i) @ concat (map tree_rows ?b)"
    and cn: "concat (map nodes ts) = concat (map nodes ?a) @ nodes (ts ! i) @ concat (map nodes ?b)"
    and cl: "concat (map leaves ts) = concat (map leaves ?a) @ leaves (ts ! i) @ concat (map leaves ?b)"
    and cp: "concat (map tree_pages ts) = concat (map tree_pages ?a) @ tree_pages (ts ! i) @ concat (map tree_pages ?b)"
    by (subst ts, simp)+
  have dN: "distinct (concat (map nodes ?a) @ nodes (ts ! i) @ concat (map nodes ?b))"
    using d unfolding cn distinct_append by blast
  have dL: "set (concat (map nodes ts)) \<inter> fst ` set (concat (map leaves ts) @ bs) = {}"
    using d unfolding distinct_append set_append set_map map_append by blast
  have other: "branches_at rep rd1 t" if t: "t \<in> set ?a \<union> set ?b" for t
  proof (rule branches_at_frame)
    show "branches_at rep rd t" using b t by (auto dest: in_set_takeD in_set_dropD)
    fix n assume n: "n \<in> set (nodes t)"
    then have n': "n \<in> set (concat (map nodes ?a)) \<union> set (concat (map nodes ?b))" using t by auto
    then have "n \<notin> set (nodes (ts ! i))" using dN by (simp only: distinct_append set_append) blast
    moreover have "n \<notin> fst ` set (concat (map leaves ts) @ bs)"
      using n' dL unfolding cn set_append by blast
    moreover have "unat n < fr" using n' fr by (auto simp: cn)
    ultimately show "rd1 n = rd n"
      using f(11) unfolding cl tree_pages_def set_append image_Un set_map by blast
  qed
  have "set (concat (map tree_pages ts)) = set (concat (map tree_pages ?a)) \<union> set (tree_pages (ts ! i)) \<union> set (concat (map tree_pages ?b))"
    by (simp add: cp Un_assoc)
  moreover have "fst ` set (concat (map leaves ?b)) \<subseteq> set (concat (map tree_pages ?b))"
    by (simp only: set_concat_pages) simp
  ultimately have "\<forall>m. unat m < fr \<longrightarrow> m \<notin> set (concat (map tree_pages ts)) \<union> fst ` set bs \<longrightarrow> rd1 m = rd m"
    using f(11) unfolding set_append image_Un by blast
  moreover have "mset (concat (map tree_pages (?a @ fs @ ?b))) = mset (concat (map tree_pages ts)) + mset ns"
    using f(7) by (simp add: cp)
  moreover have "concat (map tree_rows ts) = (concat (map tree_rows ?a) @ xs) @ (ys @ concat (map tree_rows ?b))"
    "concat (map tree_rows (?a @ fs @ ?b)) = (concat (map tree_rows ?a) @ xs) @ r # (ys @ concat (map tree_rows ?b))"
    using f(3,4) by (simp_all add: cr)
  moreover have "\<forall>t \<in> set (?a @ fs @ ?b). branches_at rep rd1 t" using f(5) other by auto
  moreover have "chain_ok rd1 0 (as @ concat (map leaves (?a @ fs @ ?b)) @ bs) 0" using f(6) by simp
  ultimately show ?thesis
    unfolding forest_inserted_def using f(1,2,8,9,10) by blast
qed

text \<open>The contract of the leaf operation, and of the branch operation that takes a separator.\<close>

definition leaf_result ::
  "(bytes \<Rightarrow> 'k::linorder) \<Rightarrow> 'k \<Rightarrow> (reader \<Rightarrow> u32 set \<Rightarrow> bytes \<Rightarrow> bool) \<Rightarrow> nat \<Rightarrow> u32 \<Rightarrow> u32 \<Rightarrow> u32
     \<Rightarrow> bytes list \<Rightarrow> reader \<Rightarrow> nat \<Rightarrow> 'k insert_result \<Rightarrow> reader \<Rightarrow> nat \<Rightarrow> bool"
where
  "leaf_result key k Q budget n nx pv rows rd fr res rd' fr' \<longleftrightarrow>
     (\<exists>r ps i. key r = k \<and> Q rd' ps r \<and> i \<le> length rows
        \<and> (\<forall>x \<in> set (take i rows). key x < k) \<and> (\<forall>x \<in> set (drop i rows). k < key x)
        \<and> fr \<le> fr' \<and> fr' \<le> fr + budget \<and> (\<forall>m \<in> ps. fr \<le> unat m \<and> unat m < fr')
        \<and> (case res of
             Fit \<Rightarrow> (\<exists>p. rd' n = Inr p \<and> leaf_page p nx pv (inserted i r rows))
               \<and> (\<forall>m. unat m < fr \<longrightarrow> m \<noteq> n \<longrightarrow> rd' m = rd m)
           | Split m sep \<Rightarrow> m \<notin> ps \<and> fr \<le> unat m \<and> unat m < fr' \<and>
               (\<exists>mid. 0 < mid \<and> mid < length (inserted i r rows) \<and> sep = key (inserted i r rows ! mid)
                  \<and> (\<exists>p. rd' n = Inr p \<and> leaf_page p m pv (take mid (inserted i r rows)))
                  \<and> (\<exists>p. rd' m = Inr p \<and> leaf_page p nx n (drop mid (inserted i r rows))))
               \<and> (\<forall>q nx' rs. nx \<noteq> 0 \<longrightarrow> rd nx = Inr q \<longrightarrow> leaf_page q nx' n rs \<longrightarrow>
                    (\<exists>q'. rd' nx = Inr q' \<and> leaf_page q' nx' m rs))
               \<and> (\<forall>x. unat x < fr \<longrightarrow> x \<noteq> n \<longrightarrow> nx = 0 \<or> x \<noteq> nx \<longrightarrow> rd' x = rd x)))"

definition branch_result ::
  "(page \<Rightarrow> u32 list \<Rightarrow> 'k::linorder list \<Rightarrow> bool) \<Rightarrow> u32 \<Rightarrow> u32 list \<Rightarrow> 'k list
     \<Rightarrow> reader \<Rightarrow> nat \<Rightarrow> 'k insert_result \<Rightarrow> reader \<Rightarrow> nat \<Rightarrow> bool"
where
  "branch_result rep n cs ks rd fr res rd' fr' \<longleftrightarrow>
     fr \<le> fr' \<and> fr' \<le> fr + 1 \<and> (\<forall>x. unat x < fr \<longrightarrow> x \<noteq> n \<longrightarrow> rd' x = rd x)
     \<and> (case res of
          Fit \<Rightarrow> \<exists>p. rd' n = Inr p \<and> rep p cs ks
        | Split m sep \<Rightarrow> fr \<le> unat m \<and> unat m < fr' \<and>
            (\<exists>mid. mid < length ks \<and> sep = ks ! mid
               \<and> (\<exists>p. rd' n = Inr p \<and> rep p (take (Suc mid) cs) (take mid ks))
               \<and> (\<exists>p. rd' m = Inr p \<and> rep p (drop (Suc mid) cs) (drop (Suc mid) ks))))"

definition subtree_inserted ::
  "(page \<Rightarrow> u32 list \<Rightarrow> 'k::linorder list \<Rightarrow> bool) \<Rightarrow> (bytes \<Rightarrow> 'k) \<Rightarrow> 'k \<Rightarrow> (reader \<Rightarrow> u32 set \<Rightarrow> bytes \<Rightarrow> bool)
     \<Rightarrow> ('k \<Rightarrow> bool) \<Rightarrow> 'k option \<Rightarrow> 'k option \<Rightarrow> reader \<Rightarrow> nat \<Rightarrow> (u32 \<times> bytes list) list \<Rightarrow> (u32 \<times> bytes list) list
     \<Rightarrow> 'k btree \<Rightarrow> 'k insert_result \<Rightarrow> reader \<Rightarrow> nat \<Rightarrow> bool"
where
  "subtree_inserted rep key k Q okk lo hi rd fr as bs t res rd' fr' \<longleftrightarrow> fr \<le> fr' \<and>
     (case res of
        Fit \<Rightarrow> \<exists>t'. forest_inserted rep key k Q rd fr as bs (tree_pages t) (tree_rows t) [t'] rd' fr'
          \<and> root_of t' = root_of t \<and> height t' \<le> height t \<and> in_range key lo hi t'
      | Split m sep \<Rightarrow> \<exists>t1 t2.
          forest_inserted rep key k Q rd fr as bs (tree_pages t) (tree_rows t) [t1, t2] rd' fr'
          \<and> root_of t1 = root_of t \<and> root_of t2 = m \<and> height t1 \<le> height t \<and> height t2 \<le> height t
          \<and> in_range key lo (Some sep) t1 \<and> in_range key (Some sep) hi t2
          \<and> lo_lt lo sep \<and> lt_hi hi sep \<and> okk sep)"

lemma inserted_sorted:
  assumes "sorted_wrt (<) (map key rows)" "i \<le> length rows"
    and "\<forall>x \<in> set (take i rows). key x < key r" "\<forall>x \<in> set (drop i rows). key r < key x"
  shows "sorted_wrt (<) (map key (inserted i r rows))"
proof -
  have "sorted_wrt (<) (map key (take i rows @ drop i rows))" using assms(1) by simp
  then have "sorted_wrt (<) (map key (take i rows))" "sorted_wrt (<) (map key (drop i rows))"
    "\<forall>x \<in> set (take i rows). \<forall>y \<in> set (drop i rows). key x < key y"
    unfolding map_append sorted_wrt_append by auto
  with assms(3,4) show ?thesis by (auto simp: inserted_def sorted_wrt_append)
qed

lemma leaf_inserted:
  assumes l: "leaf_result key k Q budget n (first_page bs 0) (last_page 0 as) rows rd fr res rd' fr'"
    and c: "chain_ok rd 0 (as @ (n, rows) # bs) 0" and d: "distinct (map fst (as @ (n, rows) # bs))"
    and z: "0 \<notin> fst ` set bs" and b: "\<forall>x \<in> fst ` set (as @ (n, rows) # bs). unat x < fr"
    and r: "in_range key lo hi (BLeaf n rows)" and lk: "lo_le lo k" "lt_hi hi k"
    and okk: "\<forall>x \<in> set rows. okk (key x)" "okk k"
  shows "subtree_inserted rep key k Q okk lo hi rd fr as bs (BLeaf n rows) res rd' fr'"
proof -
  obtain r ps i where f: "key r = k" "Q rd' ps r" "i \<le> length rows"
    "\<forall>x \<in> set (take i rows). key x < k" "\<forall>x \<in> set (drop i rows). k < key x"
    "fr \<le> fr'" "\<forall>m \<in> ps. fr \<le> unat m \<and> unat m < fr'"
    and res: "case res of
             Fit \<Rightarrow> (\<exists>p. rd' n = Inr p \<and> leaf_page p (first_page bs 0) (last_page 0 as) (inserted i r rows))
               \<and> (\<forall>m. unat m < fr \<longrightarrow> m \<noteq> n \<longrightarrow> rd' m = rd m)
           | Split m sep \<Rightarrow> m \<notin> ps \<and> fr \<le> unat m \<and> unat m < fr' \<and>
               (\<exists>mid. 0 < mid \<and> mid < length (inserted i r rows) \<and> sep = key (inserted i r rows ! mid)
                  \<and> (\<exists>p. rd' n = Inr p \<and> leaf_page p m (last_page 0 as) (take mid (inserted i r rows)))
                  \<and> (\<exists>p. rd' m = Inr p \<and> leaf_page p (first_page bs 0) n (drop mid (inserted i r rows))))
               \<and> (\<forall>q nx' rs. first_page bs 0 \<noteq> 0 \<longrightarrow> rd (first_page bs 0) = Inr q \<longrightarrow> leaf_page q nx' n rs \<longrightarrow>
                    (\<exists>q'. rd' (first_page bs 0) = Inr q' \<and> leaf_page q' nx' m rs))
               \<and> (\<forall>x. unat x < fr \<longrightarrow> x \<noteq> n \<longrightarrow> first_page bs 0 = 0 \<or> x \<noteq> first_page bs 0 \<longrightarrow> rd' x = rd x)"
    using l unfolding leaf_result_def by blast
  let ?rows = "inserted i r rows"
  have rows: "rows = take i rows @ drop i rows" "?rows = take i rows @ r # drop i rows"
    by (simp_all add: inserted_def)
  have sorted: "sorted_wrt (<) (map key ?rows)"
    using inserted_sorted [of key rows i r] r f by simp
  have bounds: "lo_le lo (key x) \<and> lt_hi hi (key x)" if "x \<in> set ?rows" for x
    using that r lk f(1,3) by (auto simp: set_inserted)
  have ok: "okk (key x)" if "x \<in> set ?rows" for x
    using that okk f(1,3) by (auto simp: set_inserted)
  show ?thesis
  proof (cases res)
    case Fit
    then obtain p where p: "rd' n = Inr p" "leaf_page p (first_page bs 0) (last_page 0 as) ?rows"
      "\<forall>m. unat m < fr \<longrightarrow> m \<noteq> n \<longrightarrow> rd' m = rd m" using res by auto
    have "chain_ok rd' 0 (as @ (n, ?rows) # bs) 0"
      by (rule chain_edit [where n = n and rd' = rd', OF c _ p(1,2)]) (use d b p(3) in auto)
    then have "forest_inserted rep key k Q rd fr as bs [n] rows [BLeaf n ?rows] rd' fr'"
      using f p(3) rows
      unfolding forest_inserted_def
      by (intro exI [of _ r] exI [of _ ps] exI [of _ "[]"] exI [of _ "take i rows"] exI [of _ "drop i rows"])
         (simp add: tree_pages_def)
    then show ?thesis
      using Fit f(6) sorted bounds by (auto simp: subtree_inserted_def tree_pages_def)
  next
    case (Split m sep)
    then obtain mid where m: "m \<notin> ps" "fr \<le> unat m" "unat m < fr'" "0 < mid" "mid < length ?rows"
      "sep = key (?rows ! mid)"
      and p: "\<exists>p. rd' n = Inr p \<and> leaf_page p m (last_page 0 as) (take mid ?rows)"
        "\<exists>p. rd' m = Inr p \<and> leaf_page p (first_page bs 0) n (drop mid ?rows)"
      and nx: "\<And>q nx' rs. first_page bs 0 \<noteq> 0 \<Longrightarrow> rd (first_page bs 0) = Inr q \<Longrightarrow> leaf_page q nx' n rs \<Longrightarrow>
                    (\<exists>q'. rd' (first_page bs 0) = Inr q' \<and> leaf_page q' nx' m rs)"
      and same: "\<And>x. unat x < fr \<Longrightarrow> x \<noteq> n \<Longrightarrow> first_page bs 0 = 0 \<or> x \<noteq> first_page bs 0 \<Longrightarrow> rd' x = rd x"
      using res by auto
    obtain p1 p2 where p12: "rd' n = Inr p1" "leaf_page p1 m (last_page 0 as) (take mid ?rows)"
      "rd' m = Inr p2" "leaf_page p2 (first_page bs 0) n (drop mid ?rows)" using p by blast
    have fresh: "m \<notin> fst ` set (as @ (n, rows) # bs)" using b m(2) by (meson leD)
    have chain: "chain_ok rd' 0 (as @ (n, take mid ?rows) # (m, drop mid ?rows) # bs) 0"
    proof (rule chain_split [where n = n and m = m and rd' = rd', OF c d p12(1,2,3,4) fresh])
      fix b rb bs' assume bs: "bs = (b, rb) # bs'"
      have "\<exists>q. rd b = Inr q \<and> leaf_page q (first_page bs' 0) n rb" using c bs by (simp add: chain_ok_append)
      then show "\<exists>q. rd' b = Inr q \<and> leaf_page q (first_page bs' 0) m rb"
        using nx bs z by fastforce
    next
      fix x assume x: "x \<in> fst ` set (as @ tl bs)"
      show "rd' x = rd x"
      proof (cases bs)
        case Nil
        then show ?thesis using x b d same [of x] by (auto simp: image_iff)
      next
        case (Cons y bs')
        then have "x \<in> fst ` set as \<union> fst ` set bs'" using x by auto
        moreover have "n \<notin> fst ` set as \<union> fst ` set bs'" "fst y \<notin> fst ` set as \<union> fst ` set bs'"
          using d Cons by auto
        moreover have "unat x < fr" using x b Cons by auto
        moreover have "first_page bs 0 = fst y" using Cons by (cases y) simp
        ultimately show ?thesis using same [of x] by metis
      qed
    qed
    have "forest_inserted rep key k Q rd fr as bs [n] rows [BLeaf n (take mid ?rows), BLeaf m (drop mid ?rows)] rd' fr'"
      unfolding forest_inserted_def
    proof (intro exI conjI)
      show "concat (map tree_rows [BLeaf n (take mid ?rows), BLeaf m (drop mid ?rows)]) = take i rows @ r # drop i rows"
        unfolding rows(2) [symmetric] by (simp only: list.map concat.simps tree_rows_simps append_Nil2 append_take_drop_id)
      show "mset (concat (map tree_pages [BLeaf n (take mid ?rows), BLeaf m (drop mid ?rows)])) = mset [n] + mset [m]"
        by (simp add: tree_pages_def)
      show "\<forall>x. unat x < fr \<longrightarrow> x \<notin> set [n] \<union> fst ` set bs \<longrightarrow> rd' x = rd x"
        using same by (cases bs) auto
    qed (use f m chain in auto)
    moreover have lt: "key x < sep" if "x \<in> set (take mid ?rows)" for x
      using that sorted m(5,6) by (auto simp: in_set_conv_nth sorted_wrt_iff_nth_less)
    moreover have ge: "sep \<le> key x" if x: "x \<in> set (drop mid ?rows)" for x
    proof -
      obtain j where "j < length ?rows - mid" "x = ?rows ! (mid + j)" using x by (auto simp: in_set_conv_nth)
      then show ?thesis
        using sorted m(6) by (cases j) (auto simp: sorted_wrt_iff_nth_less intro: less_imp_le)
    qed
    moreover have "lo_lt lo sep"
    proof -
      have "?rows ! 0 \<in> set (take mid ?rows)" using m(4,5) by (auto simp: in_set_conv_nth)
      then have "key (?rows ! 0) < sep" "lo_le lo (key (?rows ! 0))" using lt bounds by (auto dest: in_set_takeD)
      then show ?thesis by (blast intro: bound_trans)
    qed
    moreover have "lt_hi hi sep" "okk sep" using bounds ok m(5,6) by auto
    moreover have "sorted_wrt (<) (map key (take mid ?rows))" "sorted_wrt (<) (map key (drop mid ?rows))"
      using sorted by (simp_all add: take_map [symmetric] drop_map [symmetric] sorted_wrt_take sorted_wrt_drop)
    moreover have "\<forall>x \<in> set (take mid ?rows). lo_le lo (key x)" "\<forall>x \<in> set (drop mid ?rows). lt_hi hi (key x)"
      using bounds by (auto dest: in_set_takeD in_set_dropD)
    ultimately show ?thesis
      using Split f(6)
      by (simp add: subtree_inserted_def tree_pages_def)
         (intro exI [of _ "BLeaf n (take mid ?rows)"] exI [of _ "BLeaf m (drop mid ?rows)"], simp)
  qed
qed

lemma forest_frame:
  assumes F: "forest_inserted rep key k Q rd fr as bs pgs rows ts rd1 fr1"
    and Qf: "\<forall>rd rd' ps r. Q rd ps r \<longrightarrow> (\<forall>n \<in> ps. rd' n = rd n) \<longrightarrow> Q rd' ps r"
    and old: "\<forall>m \<in> set pgs \<union> fst ` set (as @ bs). unat m < fr \<and> m \<noteq> n" and n: "unat n < fr \<or> fr1 \<le> unat n"
    and le: "fr \<le> fr1" and same: "\<forall>x. unat x < fr1 \<longrightarrow> x \<noteq> n \<longrightarrow> rd' x = rd1 x"
  shows "\<exists>r ps ns xs ys. key r = k \<and> Q rd' ps r \<and> rows = xs @ ys \<and> concat (map tree_rows ts) = xs @ r # ys
    \<and> (\<forall>t \<in> set ts. branches_at rep rd' t) \<and> chain_ok rd' 0 (as @ concat (map leaves ts) @ bs) 0
    \<and> mset (concat (map tree_pages ts)) = mset pgs + mset ns \<and> distinct ns \<and> set ns \<inter> ps = {}
    \<and> (\<forall>n \<in> set ns \<union> ps. fr \<le> unat n \<and> unat n < fr1)
    \<and> (\<forall>m. unat m < fr \<longrightarrow> m \<notin> insert n (set pgs) \<union> fst ` set bs \<longrightarrow> rd' m = rd m)"
proof -
  obtain r ps ns xs ys where f: "key r = k" "Q rd1 ps r" "rows = xs @ ys" "concat (map tree_rows ts) = xs @ r # ys"
    "\<forall>t \<in> set ts. branches_at rep rd1 t" "chain_ok rd1 0 (as @ concat (map leaves ts) @ bs) 0"
    "mset (concat (map tree_pages ts)) = mset pgs + mset ns" "distinct ns" "set ns \<inter> ps = {}"
    "\<forall>n \<in> set ns \<union> ps. fr \<le> unat n \<and> unat n < fr1"
    "\<forall>m. unat m < fr \<longrightarrow> m \<notin> set pgs \<union> fst ` set bs \<longrightarrow> rd1 m = rd m"
    using F unfolding forest_inserted_def by blast
  have pages: "set (concat (map tree_pages ts)) = set pgs \<union> set ns"
    using f(7) by (metis set_mset_mset set_mset_union)
  have ok: "rd' x = rd1 x" if "x \<in> set pgs \<union> set ns \<union> ps \<union> fst ` set (as @ bs)" for x
  proof -
    have "unat x < fr1 \<and> x \<noteq> n"
    proof (cases "x \<in> set ns \<union> ps")
      case True
      then have "fr \<le> unat x" "unat x < fr1" using f(10) by blast+
      then show ?thesis using n by (metis leD)
    next
      case False
      then have "x \<in> set pgs \<union> fst ` set (as @ bs)" using that by blast
      then have "unat x < fr" "x \<noteq> n" using old by blast+
      then show ?thesis using le by simp
    qed
    then show ?thesis using same by blast
  qed
  have "\<forall>t \<in> set ts. branches_at rep rd' t"
  proof
    fix t assume t: "t \<in> set ts"
    then have "set (nodes t) \<subseteq> set (concat (map nodes ts))" by auto
    then have "set (nodes t) \<subseteq> set pgs \<union> set ns" unfolding pages [symmetric] set_concat_pages by blast
    then have "rd' x = rd1 x" if "x \<in> set (nodes t)" for x using ok that by blast
    then show "branches_at rep rd' t" using f(5) t by (blast intro: branches_at_frame)
  qed
  moreover have "chain_ok rd' 0 (as @ concat (map leaves ts) @ bs) 0"
  proof (rule chain_ok_frame [OF ok f(6)])
    fix x assume "x \<in> fst ` set (as @ concat (map leaves ts) @ bs)"
    then have "x \<in> fst ` set (as @ bs) \<union> set (concat (map tree_pages ts))"
      unfolding set_concat_pages set_append image_Un by blast
    then show "x \<in> set pgs \<union> set ns \<union> ps \<union> fst ` set (as @ bs)" using pages by blast
  qed
  moreover have "Q rd' ps r" using Qf f(2) ok by blast
  moreover have "\<forall>m. unat m < fr \<longrightarrow> m \<notin> insert n (set pgs) \<union> fst ` set bs \<longrightarrow> rd' m = rd m"
    using f(11) same le by auto
  ultimately show ?thesis using f by blast
qed

lemma node_inserted:
  assumes F: "forest_inserted rep key k Q rd fr as bs (concat (map tree_pages ts)) (concat (map tree_rows ts)) ts0 rd1 fr1"
    and Qf: "\<forall>rd rd' ps r. Q rd ps r \<longrightarrow> (\<forall>n \<in> ps. rd' n = rd n) \<longrightarrow> Q rd' ps r"
    and b: "branch_result rep n (map root_of ts0) ks0 rd1 fr1 res rd' fr'"
    and old: "\<forall>m \<in> set (concat (map tree_pages ts)) \<union> fst ` set (as @ bs). unat m < fr \<and> m \<noteq> n" "unat n < fr"
    and le: "fr \<le> fr1"
    and r: "in_range key lo hi (BNode n ts0 ks0)"
    and h: "\<forall>t \<in> set ts0. height t < height (BNode n ts ks)" and okk: "\<forall>k \<in> set ks0. okk k"
  shows "subtree_inserted rep key k Q okk lo hi rd fr as bs (BNode n ts ks) res rd' fr'"
proof -
  have b': "fr1 \<le> fr'" "\<forall>x. unat x < fr1 \<longrightarrow> x \<noteq> n \<longrightarrow> rd' x = rd1 x" using b by (auto simp: branch_result_def)
  obtain r' ps ns xs ys where f: "key r' = k" "Q rd' ps r'" "concat (map tree_rows ts) = xs @ ys"
    "concat (map tree_rows ts0) = xs @ r' # ys"
    "\<forall>t \<in> set ts0. branches_at rep rd' t" "chain_ok rd' 0 (as @ concat (map leaves ts0) @ bs) 0"
    "mset (concat (map tree_pages ts0)) = mset (concat (map tree_pages ts)) + mset ns" "distinct ns" "set ns \<inter> ps = {}"
    "\<forall>n \<in> set ns \<union> ps. fr \<le> unat n \<and> unat n < fr1"
    "\<forall>m. unat m < fr \<longrightarrow> m \<notin> insert n (set (concat (map tree_pages ts))) \<union> fst ` set bs \<longrightarrow> rd' m = rd m"
    using forest_frame [where n = n and rd' = rd', OF F Qf old(1) disjI1 [OF old(2)] le b'(2)] by blast
  have hN: "height (BNode m us ks') \<le> height (BNode n ts ks)" if "set us \<subseteq> set ts0" for m us and ks' :: "'a list"
  proof -
    have "\<forall>t \<in> set us. height t \<le> Max (set (0 # map height ts))" using h that by (fastforce simp: less_Suc_eq_le)
    then show ?thesis by simp
  qed
  show ?thesis
  proof (cases res)
    case Fit
    then obtain p where p: "rd' n = Inr p" "rep p (map root_of ts0) ks0" using b by (auto simp: branch_result_def)
    have "forest_inserted rep key k Q rd fr as bs (tree_pages (BNode n ts ks)) (tree_rows (BNode n ts ks))
        [BNode n ts0 ks0] rd' fr'"
      unfolding forest_inserted_def
    proof (intro exI conjI)
      show "mset (concat (map tree_pages [BNode n ts0 ks0])) = mset (tree_pages (BNode n ts ks)) + mset ns"
        using f(7) by (simp add: mset_tree_pages)
      show "\<forall>m. unat m < fr \<longrightarrow> m \<notin> set (tree_pages (BNode n ts ks)) \<union> fst ` set bs \<longrightarrow> rd' m = rd m"
        using f(11) unfolding set_tree_pages .
      show "\<forall>n \<in> set ns \<union> ps. fr \<le> unat n \<and> unat n < fr'" using f(10) b'(1) by (meson less_le_trans)
      show "tree_rows (BNode n ts ks) = xs @ ys" "concat (map tree_rows [BNode n ts0 ks0]) = xs @ r' # ys"
        using f(3,4) by simp_all
    qed (use f p in auto)
    then show ?thesis
      using Fit r hN [of ts0] le b'(1) by (auto simp: subtree_inserted_def simp del: height.simps intro!: exI [of _ "BNode n ts0 ks0"])
  next
    case (Split m sep)
    then obtain mid where m: "fr1 \<le> unat m" "unat m < fr'" "mid < length ks0" "sep = ks0 ! mid"
      and p: "\<exists>p. rd' n = Inr p \<and> rep p (take (Suc mid) (map root_of ts0)) (take mid ks0)"
        "\<exists>p. rd' m = Inr p \<and> rep p (drop (Suc mid) (map root_of ts0)) (drop (Suc mid) ks0)"
      using b by (auto simp: branch_result_def)
    let ?t1 = "BNode n (take (Suc mid) ts0) (take mid ks0)" and ?t2 = "BNode m (drop (Suc mid) ts0) (drop (Suc mid) ks0)"
    have cat: "concat (map g (take (Suc mid) ts0)) @ concat (map g (drop (Suc mid) ts0)) = concat (map g ts0)"
      for g :: "'a btree \<Rightarrow> 'b list" by (metis append_take_drop_id concat_append map_append)
    have catr: "concat (map tree_rows (take (Suc mid) ts0)) @ concat (map tree_rows (drop (Suc mid) ts0)) = concat (map tree_rows ts0)"
      and catl: "concat (map leaves (take (Suc mid) ts0)) @ concat (map leaves (drop (Suc mid) ts0)) = concat (map leaves ts0)"
      and catp: "concat (map tree_pages (take (Suc mid) ts0)) @ concat (map tree_pages (drop (Suc mid) ts0)) = concat (map tree_pages ts0)"
      by (metis append_take_drop_id concat_append map_append)+
    have "forest_inserted rep key k Q rd fr as bs (tree_pages (BNode n ts ks)) (tree_rows (BNode n ts ks))
        [?t1, ?t2] rd' fr'"
      unfolding forest_inserted_def
    proof (intro exI conjI)
      have "mset (concat (map tree_pages [?t1, ?t2])) = {#n, m#} + mset (concat (map tree_pages ts0))"
        unfolding catp [symmetric] by (simp add: mset_tree_pages)
      then show "mset (concat (map tree_pages [?t1, ?t2])) = mset (tree_pages (BNode n ts ks)) + mset (m # ns)"
        using f(7) by (simp add: mset_tree_pages)
      show "\<forall>m. unat m < fr \<longrightarrow> m \<notin> set (tree_pages (BNode n ts ks)) \<union> fst ` set bs \<longrightarrow> rd' m = rd m"
        using f(11) unfolding set_tree_pages .
      show "\<forall>x \<in> set (m # ns) \<union> ps. fr \<le> unat x \<and> unat x < fr'"
        using f(10) b'(1) m(1,2) le by (auto intro: less_le_trans order_trans)
      have "m \<notin> set ns \<union> ps" using f(10) m(1) by (meson leD)
      then show "distinct (m # ns)" "set (m # ns) \<inter> ps = {}" using f(8,9) by auto
      show "tree_rows (BNode n ts ks) = xs @ ys" "concat (map tree_rows [?t1, ?t2]) = xs @ r' # ys"
        using f(3,4) catr by simp_all
      show "chain_ok rd' 0 (as @ concat (map leaves [?t1, ?t2]) @ bs) 0" using f(6) catl by simp
      show "\<forall>t \<in> set [?t1, ?t2]. branches_at rep rd' t"
        using f(5) p by (auto simp: take_map drop_map dest: in_set_takeD in_set_dropD)
    qed (use f in auto)
    moreover have "height ?t1 \<le> height (BNode n ts ks)" "height ?t2 \<le> height (BNode n ts ks)"
      by (rule hN; auto dest: in_set_takeD in_set_dropD)+
    ultimately show ?thesis
      using Split in_range_cut [OF r m(3)] m(3,4) okk le b'(1)
      unfolding subtree_inserted_def
      by (simp del: height.simps) (intro exI [of _ ?t1] exI [of _ ?t2], simp del: height.simps)
  qed
qed


text \<open>The effect of an insertion on a whole tree.\<close>

definition tree_inserted ::
  "(page \<Rightarrow> u32 list \<Rightarrow> 'k::linorder list \<Rightarrow> bool) \<Rightarrow> (bytes \<Rightarrow> 'k) \<Rightarrow> 'k \<Rightarrow> (reader \<Rightarrow> u32 set \<Rightarrow> bytes \<Rightarrow> bool)
     \<Rightarrow> reader \<Rightarrow> nat \<Rightarrow> 'k btree \<Rightarrow> 'k btree \<Rightarrow> reader \<Rightarrow> nat \<Rightarrow> bool"
where
  "tree_inserted rep key k Q rd fr t t' rd' fr' \<longleftrightarrow>
     forest_inserted rep key k Q rd fr [] [] (tree_pages t) (tree_rows t) [t'] rd' fr'
     \<and> in_range key None None t' \<and> height t' \<le> Suc (height t)"

lemma root_grown:
  assumes sub: "subtree_inserted rep key k Q okk None None rd fr [] [] t (Split m sep) rd1 fr1"
    and Qf: "\<forall>rd rd' ps r. Q rd ps r \<longrightarrow> (\<forall>n \<in> ps. rd' n = rd n) \<longrightarrow> Q rd' ps r"
    and n: "unat n = fr1" and p: "rep p [root_of t, m] [sep]" and b: "\<forall>x \<in> set (tree_pages t). unat x < fr"
  shows "\<exists>t'. root_of t' = n \<and> tree_inserted rep key k Q rd fr t t' (rd1(n := Inr p)) (Suc fr1)"
proof -
  obtain t1 t2 where F: "forest_inserted rep key k Q rd fr [] [] (tree_pages t) (tree_rows t) [t1, t2] rd1 fr1"
    and t: "root_of t1 = root_of t" "root_of t2 = m" "height t1 \<le> height t" "height t2 \<le> height t"
      "in_range key None (Some sep) t1" "in_range key (Some sep) None t2" and le: "fr \<le> fr1"
    using sub by (auto simp: subtree_inserted_def)
  have old: "\<forall>m \<in> set (tree_pages t) \<union> fst ` set ([] @ []). unat m < fr \<and> m \<noteq> n"
    using b n le by auto
  have same: "\<forall>x. unat x < fr1 \<longrightarrow> x \<noteq> n \<longrightarrow> (rd1(n := Inr p)) x = rd1 x" by simp
  have "unat n < fr \<or> fr1 \<le> unat n" using n by simp
  from forest_frame [OF F Qf old this le same] obtain r ps ns xs ys where f: "key r = k" "Q (rd1(n := Inr p)) ps r" "tree_rows t = xs @ ys"
    "concat (map tree_rows [t1, t2]) = xs @ r # ys" "\<forall>t \<in> set [t1, t2]. branches_at rep (rd1(n := Inr p)) t"
    "chain_ok (rd1(n := Inr p)) 0 ([] @ concat (map leaves [t1, t2]) @ []) 0"
    "mset (concat (map tree_pages [t1, t2])) = mset (tree_pages t) + mset ns" "distinct ns" "set ns \<inter> ps = {}"
    "\<forall>n \<in> set ns \<union> ps. fr \<le> unat n \<and> unat n < fr1"
    "\<forall>m. unat m < fr \<longrightarrow> m \<notin> insert n (set (tree_pages t)) \<union> fst ` set ([] :: (u32 \<times> bytes list) list) \<longrightarrow> (rd1(n := Inr p)) m = rd m"
    by (elim exE conjE) (rule that)
  let ?t = "BNode n [t1, t2] [sep]"
  have fresh: "n \<notin> set ns \<union> ps" using f(10) n by auto
  have "forest_inserted rep key k Q rd fr [] [] (tree_pages t) (tree_rows t) [?t] (rd1(n := Inr p)) (Suc fr1)"
    unfolding forest_inserted_def
  proof (intro exI conjI)
    show "mset (concat (map tree_pages [?t])) = mset (tree_pages t) + mset (n # ns)"
      using f(7) by (simp add: mset_tree_pages)
    show "distinct (n # ns)" "set (n # ns) \<inter> ps = {}" using f(8,9) fresh by auto
    show "\<forall>x \<in> set (n # ns) \<union> ps. fr \<le> unat x \<and> unat x < Suc fr1" using f(10) n le by (auto intro: less_SucI)
    show "\<forall>t \<in> set [?t]. branches_at rep (rd1(n := Inr p)) t" using f(5) p t(1,2) by simp
    show "\<forall>m. unat m < fr \<longrightarrow> m \<notin> set (tree_pages t) \<union> fst ` set [] \<longrightarrow> (rd1(n := Inr p)) m = rd m"
      using f(11) n le by auto
  qed (use f in auto)
  moreover have "in_range key None None ?t" using t(5,6) by (simp add: in_range_node)
  moreover have "height ?t \<le> Suc (height t)" using t(3,4) by simp
  ultimately show ?thesis unfolding tree_inserted_def by (intro exI [of _ ?t]) simp
qed

lemma distinct_middle: "distinct ((n # xs @ ys @ zs) @ ws) \<Longrightarrow> distinct (ys @ ws)"
  by (simp only: distinct_append distinct.simps set_append append_Cons) blast

text \<open>
  The recursive insertion, over any branch format: descend to the leaf of the key, insert there,
  and hand a split to the branches on the way back. \<open>takes\<close> says which leaves the leaf operation
  can handle, \<open>budget\<close> bounds the pages it allocates.
\<close>

locale tree_insertion = branch_format rep find child_at
  for rep :: "page \<Rightarrow> u32 list \<Rightarrow> 'k::linorder list \<Rightarrow> bool"
    and find :: "page \<Rightarrow> 'k \<Rightarrow> (nat \<times> u32) res" and child_at :: "page \<Rightarrow> nat \<Rightarrow> u32 res" +
  fixes key :: "bytes \<Rightarrow> 'k" and k :: 'k and good :: "bytes \<Rightarrow> bool" and okk :: "'k \<Rightarrow> bool"
    and view :: "'s \<Rightarrow> reader" and next_free :: "'s \<Rightarrow> nat"
    and Q :: "reader \<Rightarrow> u32 set \<Rightarrow> bytes \<Rightarrow> bool" and takes :: "bytes list \<Rightarrow> bool" and budget :: nat
    and ins :: "nat \<Rightarrow> u32 \<Rightarrow> ('s, 'k insert_result) sm"
    and leaf_op :: "u32 \<Rightarrow> page \<Rightarrow> ('s, 'k insert_result) sm"
    and branch_op :: "u32 \<Rightarrow> nat \<Rightarrow> 'k \<Rightarrow> u32 \<Rightarrow> ('s, 'k insert_result) sm"
  assumes ins_Suc: "ins (Suc d) n = sm_bind (sm_view (\<lambda>s. view s n)) (\<lambda>p.
      if is_leaf p then leaf_op n p
      else sm_bind (sm_lift (find p k)) (\<lambda>(i, c). sm_bind (ins d c) (\<lambda>res.
        case res of Fit \<Rightarrow> sm_ret Fit | Split m sep \<Rightarrow> branch_op n i sep m)))"
    and Q_frame: "Q rd ps r \<Longrightarrow> (\<forall>n \<in> ps. rd' n = rd n) \<Longrightarrow> Q rd' ps r"
    and good_okk: "good r \<Longrightarrow> okk (key r)"
    and rep_okk: "rep p cs ks \<Longrightarrow> \<forall>x \<in> set ks. okk x"
    and leaf_run: "view s n = Inr p \<Longrightarrow> leaf_page p nx pv rows \<Longrightarrow> sorted_wrt (<) (map key rows) \<Longrightarrow>
      (\<forall>r \<in> set rows. good r \<and> key r \<noteq> k) \<Longrightarrow> takes rows \<Longrightarrow> okk k \<Longrightarrow>
      (nx \<noteq> 0 \<longrightarrow> nx \<noteq> n \<and> unat nx < next_free s \<and> (\<exists>q nx' rs. view s nx = Inr q \<and> leaf_page q nx' n rs)) \<Longrightarrow>
      unat n < next_free s \<Longrightarrow> next_free s + budget < 2 ^ 32 - 1 \<Longrightarrow>
      \<exists>res s'. leaf_op n p s = (Inr res, s')
        \<and> leaf_result key k Q budget n nx pv rows (view s) (next_free s) res (view s') (next_free s')"
    and branch_run: "view s n = Inr p \<Longrightarrow> rep p cs ks \<Longrightarrow> i \<le> length ks \<Longrightarrow> okk sep \<Longrightarrow>
      unat n < next_free s \<Longrightarrow> next_free s < 2 ^ 32 - 1 \<Longrightarrow>
      \<exists>res s'. branch_op n i sep m s = (Inr res, s')
        \<and> branch_result rep n (take (Suc i) cs @ m # drop (Suc i) cs) (take i ks @ sep # drop i ks)
            (view s) (next_free s) res (view s') (next_free s')"
begin

lemma insert_leaf:
  assumes "chain_ok (view s) 0 (as @ (n, rows) # bs) 0" "in_range key lo hi (BLeaf n rows)"
    and "lo_le lo k" "lt_hi hi k" "okk k" "\<forall>r \<in> set rows. good r \<and> key r \<noteq> k" "takes rows"
    and d: "distinct (map fst (as @ (n, rows) # bs))"
    and b: "\<forall>x \<in> fst ` set (as @ (n, rows) # bs). unat x < next_free s" and z: "0 \<notin> fst ` set bs"
    and space: "next_free s + budget < 2 ^ 32 - 1"
  shows "\<exists>res s'. ins (Suc d) n s = (Inr res, s')
    \<and> subtree_inserted rep key k Q okk lo hi (view s) (next_free s) as bs (BLeaf n rows) res (view s') (next_free s')
    \<and> next_free s' \<le> next_free s + budget"
proof -
  obtain p where p: "view s n = Inr p" "leaf_page p (first_page bs 0) (last_page 0 as) rows"
    using assms(1) by (auto simp: chain_ok_append)
  have nx: "first_page bs 0 \<noteq> 0 \<longrightarrow> first_page bs 0 \<noteq> n \<and> unat (first_page bs 0) < next_free s
      \<and> (\<exists>q nx' rs. view s (first_page bs 0) = Inr q \<and> leaf_page q nx' n rs)"
  proof (cases bs)
    case (Cons x bs')
    then show ?thesis using assms(1) d b by (cases x) (fastforce simp: chain_ok_append)
  qed simp
  have "sorted_wrt (<) (map key rows)" "unat n < next_free s" using assms(2) b by auto
  from leaf_run [OF p this(1) assms(6,7,5) nx this(2) space] obtain res s'
    where r: "leaf_op n p s = (Inr res, s')"
      "leaf_result key k Q budget n (first_page bs 0) (last_page 0 as) rows (view s) (next_free s) res (view s') (next_free s')"
    by blast
  have "ins (Suc d) n s = (Inr res, s')"
    using p leaf_pageD(10) [OF p(2)] r(1) by (simp add: ins_Suc sm_bind_view_Inr)
  moreover have "next_free s' \<le> next_free s + budget" using r(2) by (auto simp: leaf_result_def)
  moreover have "\<forall>x \<in> set rows. okk (key x)" using assms(6) good_okk by blast
  ultimately show ?thesis
    using leaf_inserted [OF r(2) assms(1) d z b assms(2-4)] assms(5) by blast
qed

lemma insert_node:
  assumes t: "branches_at rep (view s) (BNode n ts ks)"
    and ch: "chain_ok (view s) 0 (as @ concat (map leaves ts) @ bs) 0"
    and r: "in_range key lo hi (BNode n ts ks)" and lk: "lo_le lo k" "lt_hi hi k" and okk: "okk k"
    and d: "distinct (n # concat (map nodes ts) @ map fst (as @ concat (map leaves ts) @ bs))"
    and b: "\<forall>x \<in> insert n (set (concat (map nodes ts)) \<union> fst ` set (as @ concat (map leaves ts) @ bs)). unat x < next_free s"
    and i: "i = route ks k"
    and space: "next_free s1 < 2 ^ 32 - 1"
    and run: "ins h (root_of (ts ! i)) s = (Inr res, s1)"
    and sub: "\<And>l u. in_range key l u (ts ! i) \<Longrightarrow> lo_le l k \<Longrightarrow> lt_hi u k \<Longrightarrow>
      subtree_inserted rep key k Q okk l u (view s) (next_free s)
        (as @ concat (map leaves (take i ts))) (concat (map leaves (drop (Suc i) ts)) @ bs) (ts ! i) res
        (view s1) (next_free s1)"
  shows "\<exists>res s'. ins (Suc h) n s = (Inr res, s')
    \<and> subtree_inserted rep key k Q okk lo hi (view s) (next_free s) as bs (BNode n ts ks) res (view s') (next_free s')
    \<and> next_free s' \<le> Suc (next_free s1)"
proof -
  obtain p where p: "view s n = Inr p" "rep p (map root_of ts) ks" using t by auto
  have len: "length ts = Suc (length ks)" using rep_length [OF p(2)] by simp
  have ilt: "i < length ts" and ile: "i \<le> length ks" using route_lt [OF len] route_le i by auto
  obtain l u where lu: "in_range key l u (ts ! i)" "l = (if i = 0 then lo else Some (ks ! (i - 1)))"
    "u = (if i < length ks then Some (ks ! i) else hi)" using child_range [OF r ilt] by metis
  have lku: "lo_le l k" "lt_hi u k"
    using lu(2,3) lk route_bounds [of "i - 1" ks k] route_above [of ks k] by (auto simp: i)
  note sub = sub [OF lu(1) lku]
  have step: "ins (Suc h) n s = (case res of Fit \<Rightarrow> sm_ret Fit | Split m sep \<Rightarrow> branch_op n i sep m) s1"
    using p(1) rep_not_leaf [OF p(2)] find_rep [OF p(2), of k] run ilt
    by (simp add: ins_Suc sm_bind_view_Inr i [symmetric] sm_bind_Inr)
  have bt: "\<forall>t \<in> set ts. branches_at rep (view s) t" using t by simp
  have dd: "distinct (concat (map nodes ts) @ map fst (as @ concat (map leaves ts) @ bs))" using d by simp
  have bn: "\<forall>n \<in> set (concat (map nodes ts)). unat n < next_free s" using b by auto
  have pg: "set (concat (map tree_pages ts)) \<union> fst ` set (as @ bs)
      = set (concat (map nodes ts)) \<union> fst ` set (as @ concat (map leaves ts) @ bs)"
    unfolding set_concat_pages set_append image_Un by blast
  have nn: "n \<notin> set (concat (map nodes ts)) \<union> fst ` set (as @ concat (map leaves ts) @ bs)"
    using d by (simp only: distinct.simps set_append set_map) blast
  then have old: "\<forall>m \<in> set (concat (map tree_pages ts)) \<union> fst ` set (as @ bs). unat m < next_free s \<and> m \<noteq> n"
    "unat n < next_free s" unfolding pg using b by blast+
  have le: "next_free s \<le> next_free s1" using sub by (auto simp: subtree_inserted_def)
  have kid: "set (tree_pages (ts ! i)) \<union> fst ` set (concat (map leaves (drop (Suc i) ts)) @ bs)
      \<subseteq> set (concat (map tree_pages ts)) \<union> fst ` set (as @ bs)"
  proof -
    have "set (tree_pages (ts ! i)) \<subseteq> set (concat (map tree_pages ts))"
      using nth_mem [OF ilt] by auto
    moreover have "set (concat (map leaves (drop (Suc i) ts))) \<subseteq> set (concat (map leaves ts))"
      by (auto dest: in_set_dropD)
    ultimately show ?thesis unfolding set_concat_pages set_append image_Un by blast
  qed
  have hi: "height t < height (BNode n ts ks)" if "t \<in> set ts" for t using that by (rule height_child)
  have hci: "height (ts ! i) < height (BNode n ts ks)" using hi ilt by (metis nth_mem)
  have okks: "\<forall>x \<in> set ks. okk x" by (rule rep_okk [OF p(2)])
  have same: "view s1 n = view s n"
    if "forest_inserted rep key k Q (view s) (next_free s) (as @ concat (map leaves (take i ts)))
      (concat (map leaves (drop (Suc i) ts)) @ bs) (tree_pages (ts ! i)) (tree_rows (ts ! i)) fs (view s1) (next_free s1)" for fs
  proof -
    have "n \<notin> set (tree_pages (ts ! i)) \<union> fst ` set (concat (map leaves (drop (Suc i) ts)) @ bs)"
      using kid old(1) by blast
    then show ?thesis using that old(2) unfolding forest_inserted_def by blast
  qed
  have Qf: "\<forall>rd rd' ps r. Q rd ps r \<longrightarrow> (\<forall>n \<in> ps. rd' n = rd n) \<longrightarrow> Q rd' ps r" using Q_frame by blast
  show ?thesis
  proof (cases res)
    case Fit
    then obtain t' where f: "forest_inserted rep key k Q (view s) (next_free s) (as @ concat (map leaves (take i ts)))
      (concat (map leaves (drop (Suc i) ts)) @ bs) (tree_pages (ts ! i)) (tree_rows (ts ! i)) [t'] (view s1) (next_free s1)"
      "root_of t' = root_of (ts ! i)" "height t' \<le> height (ts ! i)" "in_range key l u t'"
      using sub by (auto simp: subtree_inserted_def)
    have upd: "take i ts @ [t'] @ drop (Suc i) ts = ts[i := t']" using ilt by (simp add: upd_conv_take_nth_drop)
    have F: "forest_inserted rep key k Q (view s) (next_free s) as bs (concat (map tree_pages ts))
        (concat (map tree_rows ts)) (ts[i := t']) (view s1) (next_free s1)"
      using forest_replace [OF f(1) ilt bt dd bn] unfolding upd .
    have roots: "map root_of (ts[i := t']) = map root_of ts"
      using ilt f(2) by (simp add: map_update list_update_same_conv)
    have B: "branch_result rep n (map root_of (ts[i := t'])) ks (view s1) (next_free s1) Fit (view s1) (next_free s1)"
      unfolding roots branch_result_def using same [OF f(1)] p by simp
    have R: "in_range key lo hi (BNode n (ts[i := t']) ks)"
      using f(4) lu by (intro in_range_replace [OF r ilt]) simp
    have H: "\<forall>t \<in> set (ts[i := t']). height t < height (BNode n ts ks)"
      using hi f(3) hci set_update_subset_insert [of ts i t'] by (auto simp del: height.simps)
    from node_inserted [OF F Qf B old le R H okks] show ?thesis using step Fit by auto
  next
    case (Split m sep)
    then obtain t1 t2 where f: "forest_inserted rep key k Q (view s) (next_free s) (as @ concat (map leaves (take i ts)))
      (concat (map leaves (drop (Suc i) ts)) @ bs) (tree_pages (ts ! i)) (tree_rows (ts ! i)) [t1, t2] (view s1) (next_free s1)"
      "root_of t1 = root_of (ts ! i)" "root_of t2 = m" "height t1 \<le> height (ts ! i)" "height t2 \<le> height (ts ! i)"
      "in_range key l (Some sep) t1" "in_range key (Some sep) u t2" "lo_lt l sep" "lt_hi u sep" "okk sep"
      using sub by (auto simp: subtree_inserted_def)
    let ?ts = "take i ts @ [t1, t2] @ drop (Suc i) ts" and ?ks = "take i ks @ sep # drop i ks"
    have F: "forest_inserted rep key k Q (view s) (next_free s) as bs (concat (map tree_pages ts))
        (concat (map tree_rows ts)) ?ts (view s1) (next_free s1)"
      by (rule forest_replace [OF f(1) ilt bt dd bn])
    have "view s1 n = Inr p" "unat n < next_free s1" using same [OF f(1)] p(1) old(2) le by auto
    from branch_run [OF this(1) p(2) ile f(10) this(2) space] obtain res' s' where
      op: "branch_op n i sep m s1 = (Inr res', s')" and
      B: "branch_result rep n (take (Suc i) (map root_of ts) @ m # drop (Suc i) (map root_of ts)) ?ks
            (view s1) (next_free s1) res' (view s') (next_free s')"
      by blast
    have roots: "map root_of ?ts = take (Suc i) (map root_of ts) @ m # drop (Suc i) (map root_of ts)"
      using ilt f(2,3) by (simp add: take_map drop_map take_Suc_conv_app_nth)
    have R: "in_range key lo hi (BNode n ?ts ?ks)"
      using in_range_split_child [OF r ilt, of sep t1 t2] f(6-9) lu by simp
    have H: "\<forall>t \<in> set ?ts. height t < height (BNode n ts ks)"
      using hi f(4,5) hci by (auto simp del: height.simps dest: in_set_takeD in_set_dropD)
    have "\<forall>x \<in> set ?ks. okk x" using okks f(10) by (auto dest: in_set_takeD in_set_dropD)
    from node_inserted [OF F Qf B [folded roots] old le R H this] show ?thesis
      using step Split op B by (auto simp: branch_result_def)
  qed
qed

lemma insert_subtree:
  assumes "branches_at rep (view s) t" "chain_ok (view s) 0 (as @ leaves t @ bs) 0" "in_range key lo hi t"
    and "lo_le lo k" "lt_hi hi k" "okk k" "\<forall>r \<in> set (tree_rows t). good r \<and> key r \<noteq> k"
    and "takes (snd (leaf_for t k))" "distinct (nodes t @ map fst (as @ leaves t @ bs))"
    and "\<forall>x \<in> set (nodes t) \<union> fst ` set (as @ leaves t @ bs). unat x < next_free s" "0 \<notin> fst ` set (leaves t @ bs)"
    and "height t \<le> d" "next_free s + budget + height t < 2 ^ 32"
  shows "\<exists>res s'. ins d (root_of t) s = (Inr res, s')
    \<and> subtree_inserted rep key k Q okk lo hi (view s) (next_free s) as bs t res (view s') (next_free s')
    \<and> next_free s' < next_free s + budget + height t"
  using assms
proof (induction t arbitrary: as bs lo hi d)
  case (BLeaf n rows)
  obtain d' where d: "d = Suc d'" using BLeaf.prems(12) by (cases d) auto
  have "next_free s + budget < 2 ^ 32 - 1" using BLeaf.prems(13) by simp
  then show ?case
    using insert_leaf [of s as n rows bs lo hi d'] BLeaf.prems d by (auto simp: less_Suc_eq_le)
next
  case (BNode n ts ks)
  obtain h where d: "d = Suc h" using BNode.prems(12) by (cases d) auto
  obtain p where p: "view s n = Inr p" "rep p (map root_of ts) ks" using BNode.prems(1) by auto
  define i where "i = route ks k"
  have i: "i < length ts" using rep_length [OF p(2)] route_lt [of ts ks k] by (simp add: i_def)
  let ?t = "ts ! i" and ?as = "as @ concat (map leaves (take i ts))" and ?bs = "concat (map leaves (drop (Suc i) ts)) @ bs"
  have mem: "?t \<in> set ts" using i by simp
  have ts: "ts = take i ts @ ?t # drop (Suc i) ts" by (rule id_take_nth_drop [OF i])
  have cl: "concat (map leaves ts) = concat (map leaves (take i ts)) @ leaves ?t @ concat (map leaves (drop (Suc i) ts))"
    and cn: "concat (map nodes ts) = concat (map nodes (take i ts)) @ nodes ?t @ concat (map nodes (drop (Suc i) ts))"
    by (subst ts, simp)+
  have ht: "height ?t < height (BNode n ts ks)" using mem by (rule height_child)
  have all: "as @ leaves (BNode n ts ks) @ bs = ?as @ leaves ?t @ ?bs" using cl by simp
  have IH: "\<exists>res s'. ins h (root_of ?t) s = (Inr res, s')
    \<and> subtree_inserted rep key k Q okk l u (view s) (next_free s) ?as ?bs ?t res (view s') (next_free s')
    \<and> next_free s' < next_free s + budget + height ?t"
    if "in_range key l u ?t" "lo_le l k" "lt_hi u k" for l u
  proof (rule BNode.IH [OF mem])
    show "branches_at rep (view s) ?t" using BNode.prems(1) mem by simp
    show "chain_ok (view s) 0 (?as @ leaves ?t @ ?bs) 0" using BNode.prems(2) unfolding all .
    show "\<forall>r \<in> set (tree_rows ?t). good r \<and> key r \<noteq> k" using BNode.prems(7) mem by auto
    show "takes (snd (leaf_for ?t k))" using BNode.prems(8) i by (simp add: i_def)
    show "distinct (nodes ?t @ map fst (?as @ leaves ?t @ ?bs))"
      using BNode.prems(9) unfolding all nodes.simps cn by (rule distinct_middle)
    show "\<forall>x \<in> set (nodes ?t) \<union> fst ` set (?as @ leaves ?t @ ?bs). unat x < next_free s"
      using BNode.prems(10) unfolding all nodes.simps cn set_append list.set by blast
    show "0 \<notin> fst ` set (leaves ?t @ ?bs)"
      using BNode.prems(11) unfolding leaves.simps cl set_append image_Un by blast
    show "height ?t \<le> h" using less_le_trans [OF ht BNode.prems(12)] d by (simp only: less_Suc_eq_le)
    show "next_free s + budget + height ?t < 2 ^ 32" using ht BNode.prems(13) by simp
  qed (use that BNode.prems(6) in auto)
  obtain l u where lu: "in_range key l u ?t" "l = (if i = 0 then lo else Some (ks ! (i - 1)))"
    "u = (if i < length ks then Some (ks ! i) else hi)" using child_range [OF BNode.prems(3) i] by metis
  have lku: "lo_le l k" "lt_hi u k"
    using lu(2,3) BNode.prems(4,5) route_bounds [of "i - 1" ks k] route_above [of ks k] by (auto simp: i_def)
  obtain res s1 where run: "ins h (root_of ?t) s = (Inr res, s1)" "next_free s1 < next_free s + budget + height ?t"
    using IH [OF lu(1) lku] by blast
  have sub: "subtree_inserted rep key k Q okk l u (view s) (next_free s) ?as ?bs ?t res (view s1) (next_free s1)"
    if "in_range key l u ?t" "lo_le l k" "lt_hi u k" for l u
    using IH [OF that] run(1) by simp
  have space: "next_free s1 < 2 ^ 32 - 1" using run(2) ht BNode.prems(13) by simp
  have "\<exists>res s'. ins (Suc h) n s = (Inr res, s')
    \<and> subtree_inserted rep key k Q okk lo hi (view s) (next_free s) as bs (BNode n ts ks) res (view s') (next_free s')
    \<and> next_free s' \<le> Suc (next_free s1)"
  proof (rule insert_node [OF BNode.prems(1) _ BNode.prems(3-6) _ _ i_def space run(1) sub])
    show "chain_ok (view s) 0 (as @ concat (map leaves ts) @ bs) 0" using BNode.prems(2) by simp
    show "distinct (n # concat (map nodes ts) @ map fst (as @ concat (map leaves ts) @ bs))"
      using BNode.prems(9) by simp
    show "\<forall>x \<in> insert n (set (concat (map nodes ts)) \<union> fst ` set (as @ concat (map leaves ts) @ bs)). unat x < next_free s"
      using BNode.prems(10) by simp
  qed
  then show ?case using d run(2) ht by (auto simp del: height.simps)
qed

text \<open>The whole insertion: a split of the root is taken up by a new branch page.\<close>

lemma insert_tree:
  assumes "branches_at rep (view s) t" "chain_ok (view s) 0 (leaves t) 0" "in_range key None None t"
    and "okk k" "\<forall>r \<in> set (tree_rows t). good r \<and> key r \<noteq> k" "takes (snd (leaf_for t k))"
    and "distinct (tree_pages t)" "\<forall>x \<in> set (tree_pages t). unat x < next_free s" "0 \<notin> set (tree_pages t)"
    and "height t \<le> d" "next_free s + budget + height t < 2 ^ 32 - 1"
    and grow: "\<And>s1 m sep. okk sep \<Longrightarrow> next_free s1 < 2 ^ 32 - 1 \<Longrightarrow> \<exists>p s'. grow (root_of t) m sep s1 = (Inr (of_nat (next_free s1)), s')
      \<and> view s' = (view s1)(of_nat (next_free s1) := Inr p) \<and> rep p [root_of t, m] [sep] \<and> next_free s' = Suc (next_free s1)"
  shows "\<exists>t' s'. sm_bind (ins d (root_of t)) (\<lambda>res. case res of Fit \<Rightarrow> sm_ret (root_of t) | Split m sep \<Rightarrow> grow (root_of t) m sep) s
      = (Inr (root_of t'), s')
    \<and> tree_inserted rep key k Q (view s) (next_free s) t t' (view s') (next_free s')
    \<and> next_free s \<le> next_free s' \<and> next_free s' \<le> next_free s + budget + height t"
proof -
  have pages: "set (tree_pages t) = set (nodes t) \<union> fst ` set (leaves t)" by (simp add: tree_pages_def)
  obtain res s1 where run: "ins d (root_of t) s = (Inr res, s1)"
    and sub: "subtree_inserted rep key k Q okk None None (view s) (next_free s) [] [] t res (view s1) (next_free s1)"
    and free: "next_free s1 < next_free s + budget + height t"
  proof -
    have d: "distinct (nodes t @ map fst ([] @ leaves t @ []))" using assms(7) by (simp add: tree_pages_def)
    have b: "\<forall>x \<in> set (nodes t) \<union> fst ` set ([] @ leaves t @ []). unat x < next_free s"
      using assms(8) unfolding pages by simp
    have z: "0 \<notin> fst ` set (leaves t @ [])" using assms(9) unfolding pages by simp
    have c: "chain_ok (view s) 0 ([] @ leaves t @ []) 0" using assms(2) by simp
    have sp: "next_free s + budget + height t < 2 ^ 32" using assms(11) by simp
    from insert_subtree [OF assms(1) c assms(3) _ _ assms(4,5,6) d b z assms(10) sp] that show ?thesis
      by auto
  qed
  have Qf: "\<forall>rd rd' ps r. Q rd ps r \<longrightarrow> (\<forall>n \<in> ps. rd' n = rd n) \<longrightarrow> Q rd' ps r" using Q_frame by blast
  have le: "next_free s \<le> next_free s1" using sub by (simp add: subtree_inserted_def)
  show ?thesis
  proof (cases res)
    case Fit
    then obtain t' where "forest_inserted rep key k Q (view s) (next_free s) [] [] (tree_pages t) (tree_rows t) [t'] (view s1) (next_free s1)"
      "root_of t' = root_of t" "height t' \<le> height t" "in_range key None None t'"
      using sub by (auto simp: subtree_inserted_def)
    then show ?thesis
      using run Fit le free by (intro exI [of _ t'] exI [of _ s1]) (simp add: sm_bind_Inr tree_inserted_def)
  next
    case (Split m sep)
    have "okk sep" using sub Split by (auto simp: subtree_inserted_def)
    moreover have space: "next_free s1 < 2 ^ 32 - 1" using free assms(11) by simp
    ultimately obtain p s' where g: "grow (root_of t) m sep s1 = (Inr (of_nat (next_free s1)), s')"
      "view s' = (view s1)(of_nat (next_free s1) := Inr p)" "rep p [root_of t, m] [sep]" "next_free s' = Suc (next_free s1)"
      using grow by blast
    have "unat (of_nat (next_free s1) :: u32) = next_free s1" using space by (simp add: take_bit_nat_eq_self unsigned_of_nat)
    from root_grown [OF sub [unfolded Split] Qf this g(3) assms(8)] obtain t' where
      "root_of t' = of_nat (next_free s1)" "tree_inserted rep key k Q (view s) (next_free s) t t' (view s') (next_free s')"
      by (auto simp: g(2,4))
    then show ?thesis
      using run Split le free g(1,4) by (intro exI [of _ t'] exI [of _ s']) (simp add: sm_bind_Inr)
  qed
qed

end

end
