(* ===== verification/Index_Page.thy ===== *)
theory Index_Page
  imports Tree_Edit
begin

text \<open>
  The page helpers of \<^verbatim>\<open>src/index.rs\<close>. Leaf pages have the layout of the row tree's leaves
  with entries (a length and a key) in place of rows, and the same rebuild loops, so those are the
  routines of \<open>Leaf_Page\<close> applied to the entry bytes. Branch pages have 42-byte entries: a child, a
  length, and the first 36 bytes of a key. \<open>idx_branch\<close> is the abstraction of a branch page to a list
  of children and a list of keys of at most 36 bytes.
\<close>

section \<open>Leaf entries\<close>

abbreviation IDX_BRANCH_ENTRY_SIZE :: nat where "IDX_BRANCH_ENTRY_SIZE \<equiv> 42"
abbreviation IDX_BRANCH_KEY_MAX :: nat where "IDX_BRANCH_KEY_MAX \<equiv> 36"

definition encode_entry :: "bytes \<Rightarrow> bytes" where
  "encode_entry key = u16_to_le (as_u16 (length key)) @ key"

text \<open>\<^verbatim>\<open>decode_leaf_entry\<close> and \<^verbatim>\<open>decode_leaf_entry_raw\<close> differ in how they read the bounds.\<close>

definition decode_entry_at ::
  "(page \<Rightarrow> nat \<Rightarrow> nat \<Rightarrow> (nat \<times> nat) res) \<Rightarrow> page \<Rightarrow> nat \<Rightarrow> nat \<Rightarrow> bytes option res" where
  "decode_entry_at bounds p i num_entries =
     res_bind (bounds p i num_entries) (\<lambda>(start, past).
     if past < start + 2 \<or> PAGE_SIZE < past then Inr None
     else
       res_bind (u16_at p start) (\<lambda>len.
       let key_start = start + 2; key_end = key_start + unat len in
       if past < key_end then Inr None
       else res_bind (slice p key_start key_end) (\<lambda>k. Inr (Some k))))"

abbreviation idx_entry_bounds :: "page \<Rightarrow> nat \<Rightarrow> nat \<Rightarrow> (nat \<times> nat) res" where
  "idx_entry_bounds \<equiv> row_bounds"

abbreviation idx_entry_bounds_raw :: "page \<Rightarrow> nat \<Rightarrow> nat \<Rightarrow> (nat \<times> nat) res" where
  "idx_entry_bounds_raw \<equiv> row_bounds_raw"

definition decode_leaf_entry :: "page \<Rightarrow> nat \<Rightarrow> nat \<Rightarrow> bytes option res" where
  "decode_leaf_entry = decode_entry_at idx_entry_bounds"

definition decode_leaf_entry_raw :: "page \<Rightarrow> nat \<Rightarrow> nat \<Rightarrow> bytes option res" where
  "decode_leaf_entry_raw = decode_entry_at idx_entry_bounds_raw"

text \<open>A corrupted entry counts as smaller than the key.\<close>

definition idx_probe :: "page \<Rightarrow> bytes \<Rightarrow> nat \<Rightarrow> nat \<Rightarrow> ordering res" where
  "idx_probe p key n mid =
     res_bind (decode_leaf_entry p mid n) (\<lambda>d.
     Inr (case d of Some mid_key \<Rightarrow> cmp mid_key key | None \<Rightarrow> Less))"

definition find_idx_insertion_point :: "page \<Rightarrow> bytes \<Rightarrow> nat \<Rightarrow> nat res" where
  "find_idx_insertion_point p key num_entries =
     (if num_entries = 0 then Inr 0
      else res_bind (bsearch (idx_probe p key num_entries) 0 num_entries) (\<lambda>(pos, _). Inr pos))"

definition write_idx_leaf_with_insert :: "page \<Rightarrow> page \<Rightarrow> nat \<Rightarrow> nat \<Rightarrow> bytes \<Rightarrow> page res" where
  "write_idx_leaf_with_insert p snapshot old_count insert_pos new_key =
     write_leaf_with_insert p snapshot old_count insert_pos (encode_entry new_key)"

definition write_idx_leaf_without :: "page \<Rightarrow> page \<Rightarrow> nat \<Rightarrow> nat \<Rightarrow> page res" where
  "write_idx_leaf_without p snapshot old_count skip_pos = write_leaf_without p snapshot old_count skip_pos"

definition write_idx_leaf_range ::
  "page \<Rightarrow> page \<Rightarrow> nat \<Rightarrow> nat \<Rightarrow> bytes \<Rightarrow> nat \<Rightarrow> nat \<Rightarrow> page res" where
  "write_idx_leaf_range p snapshot old_count insert_pos new_key range_start range_end =
     write_leaf_range p snapshot old_count insert_pos (encode_entry new_key) range_start range_end"

definition extract_key_at_virtual_pos :: "page \<Rightarrow> nat \<Rightarrow> nat \<Rightarrow> bytes \<Rightarrow> nat \<Rightarrow> bytes res" where
  "extract_key_at_virtual_pos snapshot old_count insert_pos new_key virtual_pos =
     (if virtual_pos = insert_pos then Inr new_key
      else res_bind (decode_leaf_entry_raw snapshot (orig_idx insert_pos virtual_pos) old_count) (\<lambda>d.
        Inr (case d of Some k \<Rightarrow> k | None \<Rightarrow> [])))"

section \<open>Branch entries\<close>

definition get_idx_branch_child :: "page \<Rightarrow> nat \<Rightarrow> u32 res" where
  "get_idx_branch_child p idx = u32_at p (PAGE_HEADER_SIZE + idx * IDX_BRANCH_ENTRY_SIZE)"

definition get_idx_branch_key :: "page \<Rightarrow> nat \<Rightarrow> bytes res" where
  "get_idx_branch_key p idx =
     (let offset = PAGE_HEADER_SIZE + idx * IDX_BRANCH_ENTRY_SIZE + 4 in
      res_bind (u16_at p offset) (\<lambda>len.
      slice p (offset + 2) (offset + 2 + min (unat len) IDX_BRANCH_KEY_MAX)))"

fun find_idx_child_loop :: "page \<Rightarrow> bytes \<Rightarrow> nat \<Rightarrow> nat list \<Rightarrow> (nat \<times> u32) res" where
  "find_idx_child_loop p key n [] =
     res_bind (u32_at p (PAGE_HEADER_SIZE + n * IDX_BRANCH_ENTRY_SIZE)) (\<lambda>child. Inr (n, child))"
| "find_idx_child_loop p key n (i # is) =
     res_bind (get_idx_branch_key p i) (\<lambda>branch_key.
     if key < branch_key then res_bind (get_idx_branch_child p i) (\<lambda>c. Inr (i, c))
     else find_idx_child_loop p key n is)"

definition find_idx_child :: "page \<Rightarrow> bytes \<Rightarrow> (nat \<times> u32) res" where
  "find_idx_child p key =
     (let num_keys = unat (num_rows p) in find_idx_child_loop p key num_keys [0..<num_keys])"

definition write_idx_branch_entry :: "page \<Rightarrow> nat \<Rightarrow> u32 \<Rightarrow> bytes \<Rightarrow> page res" where
  "write_idx_branch_entry p idx child key =
     (let offset = PAGE_HEADER_SIZE + idx * IDX_BRANCH_ENTRY_SIZE;
          truncated_len = min (length key) IDX_BRANCH_KEY_MAX in
      res_bind (copy_at p offset (u32_to_le child)) (\<lambda>p.
      res_bind (copy_at p (offset + 4) (u16_to_le (as_u16 truncated_len))) (\<lambda>p.
      res_bind (copy_at p (offset + 6) (replicate IDX_BRANCH_KEY_MAX 0)) (\<lambda>p.
      copy_at p (offset + 6) (take truncated_len key)))))"

definition set_idx_branch_child :: "page \<Rightarrow> nat \<Rightarrow> u32 \<Rightarrow> page res" where
  "set_idx_branch_child p idx child = copy_at p (PAGE_HEADER_SIZE + idx * IDX_BRANCH_ENTRY_SIZE) (u32_to_le child)"

definition collect_idx_branch_flat :: "page \<Rightarrow> (u32 list \<times> bytes list) res" where
  "collect_idx_branch_flat p =
     (let num_keys = unat (num_rows p) in
      res_bind (res_map (\<lambda>i. res_bind (get_idx_branch_child p i) (\<lambda>c.
          res_bind (get_idx_branch_key p i) (\<lambda>k. Inr (c, k)))) [0..<num_keys]) (\<lambda>entries.
      res_bind (get_idx_branch_child p num_keys) (\<lambda>last.
      Inr (map fst entries @ [last], map snd entries))))"

definition idx_entry_step :: "u32 list \<Rightarrow> nat \<times> bytes \<Rightarrow> page \<Rightarrow> page res" where
  "idx_entry_step children = (\<lambda>(i, key) p.
     res_bind (vec_get children i) (\<lambda>c. write_idx_branch_entry p i c key))"

definition rebuild_idx_branch_flat :: "page \<Rightarrow> u32 list \<Rightarrow> bytes list \<Rightarrow> page res" where
  "rebuild_idx_branch_flat p children keys =
     (let p = set_flags p PAGE_BRANCH;
          p = set_num_rows p (as_u16 (length keys));
          p = blit p PAGE_HEADER_SIZE (replicate (PAGE_SIZE - CHECKSUM_SIZE - PAGE_HEADER_SIZE) 0)
      in res_bind (res_fold (idx_entry_step children) (enumerate 0 keys) p) (\<lambda>p.
         res_bind (vec_get children (length keys)) (\<lambda>c. set_idx_branch_child p (length keys) c)))"

definition insert_idx_branch_entry :: "page \<Rightarrow> nat \<Rightarrow> bytes \<Rightarrow> u32 \<Rightarrow> page res" where
  "insert_idx_branch_entry p child_idx key new_child =
     res_bind (collect_idx_branch_flat p) (\<lambda>(children, keys).
     res_bind (vec_insert child_idx key keys) (\<lambda>new_keys.
     res_bind (vec_insert (child_idx + 1) new_child children) (\<lambda>new_children.
     res_bind (rebuild_idx_branch_flat p new_children new_keys) (\<lambda>p.
     Inr (set_num_rows p (as_u16 (length new_keys)))))))"

section \<open>Leaf pages of entries\<close>

definition entry_key :: "bytes \<Rightarrow> bytes" where
  "entry_key r = take (unat (u16_from_le (sub_bytes r 0 2))) (drop 2 r)"

text \<open>The entries of keys that a branch can hold in full.\<close>

definition short_entry :: "bytes \<Rightarrow> bool" where
  "short_entry r \<longleftrightarrow> (\<exists>k. length k \<le> IDX_BRANCH_KEY_MAX \<and> r = encode_entry k)"

lemma entry_key_encode: "length k < 65536 \<Longrightarrow> entry_key (encode_entry k) = k"
  by (simp add: entry_key_def encode_entry_def u16_le.read_prefix)

lemma short_entryD:
  assumes "short_entry r"
  shows "r = encode_entry (entry_key r)" "length (entry_key r) \<le> 36" "2 \<le> length r" "length r \<le> 38"
proof -
  obtain k where k: "length k \<le> 36" "r = encode_entry k" using assms by (auto simp: short_entry_def)
  then have "entry_key r = k" using entry_key_encode [of k] by simp
  then show "r = encode_entry (entry_key r)" "length (entry_key r) \<le> 36" "2 \<le> length r" "length r \<le> 38"
    using k by (simp_all add: encode_entry_def)
qed

lemma short_entry_encode: "length k \<le> 36 \<Longrightarrow> short_entry (encode_entry k)"
  by (auto simp: short_entry_def)

lemma decode_entry_leaf:
  assumes p: "leaf_page p nx pv rows" and i: "i < length rows" and s: "short_entry (rows ! i)"
    and b: "bounds = row_bounds \<or> bounds = row_bounds_raw"
  shows "decode_entry_at bounds p i (length rows) = Inr (Some (entry_key (rows ! i)))"
proof -
  note d = short_entryD [OF s]
  let ?s = "row_start rows i" and ?k = "entry_key (rows ! i)"
  have e: "row_start rows (Suc i) = ?s + 2 + length ?k"
    using row_start_Suc [OF i] arg_cong [OF d(1), of length] by (simp add: encode_entry_def)
  have le: "row_start rows (Suc i) \<le> 4092" "length p = 4096" using leaf_pageD(8,12) [OF p] by auto
  have row: "sub_bytes p ?s (row_start rows (Suc i)) = encode_entry ?k"
    using leaf_slice [OF p i] d(1) by (simp add: slice_eq_Inr)
  have "sub_bytes p ?s (?s + 2) = sub_bytes (encode_entry ?k) 0 2" "sub_bytes p (?s + 2) (?s + 2 + length ?k) = drop 2 (encode_entry ?k)"
    unfolding row [symmetric] e by (simp_all add: sub_bytes_def min_def drop_take)
  then have "sub_bytes p ?s (?s + 2) = u16_to_le (as_u16 (length ?k))" "sub_bytes p (?s + 2) (?s + 2 + length ?k) = ?k"
    by (simp_all add: encode_entry_def sub_bytes_def)
  then show ?thesis
    using leaf_row_bounds [OF p i] b e le d(2)
    by (auto simp: decode_entry_at_def u16_at_Inr slice_def Let_def)
qed

text \<open>The binary search over the keys of a leaf.\<close>

definition entries_sorted :: "bytes list \<Rightarrow> bool" where
  "entries_sorted rows \<longleftrightarrow> (\<forall>r \<in> set rows. short_entry r) \<and> sorted_wrt (<) (map entry_key rows)"

definition idx_dir_valid :: "page \<times> bytes list \<Rightarrow> bool" where
  "idx_dir_valid = (\<lambda>(p, rows). (\<exists>nx pv. leaf_page p nx pv rows) \<and> entries_sorted rows)"

interpretation idx_dir: strict_directory idx_dir_valid "\<lambda>d. length (snd d)"
    "\<lambda>d i. entry_key (snd d ! i)" "\<lambda>d k. idx_probe (fst d) k (length (snd d))"
proof
  fix d k i assume "idx_dir_valid d" "i < length (snd d)"
  then show "idx_probe (fst d) k (length (snd d)) i = Inr (cmp (entry_key (snd d ! i)) k)"
    using decode_entry_leaf [of "fst d" _ _ "snd d" i row_bounds]
    by (auto simp: idx_dir_valid_def entries_sorted_def idx_probe_def decode_leaf_entry_def)
next
  fix d i j assume "idx_dir_valid d" "i < j" "j < length (snd d)"
  then show "entry_key (snd d ! i) < entry_key (snd d ! j)"
    by (auto simp: idx_dir_valid_def entries_sorted_def sorted_wrt_iff_nth_less)
  then show "entry_key (snd d ! i) \<le> entry_key (snd d ! j)" by simp
qed

lemma find_idx_insertion_point_absent:
  assumes "leaf_page p nx pv rows" "entries_sorted rows" "k \<notin> entry_key ` set rows"
  shows "\<exists>i \<le> length rows. find_idx_insertion_point p k (length rows) = Inr i
    \<and> (\<forall>r \<in> set (take i rows). entry_key r < k) \<and> (\<forall>r \<in> set (drop i rows). k < entry_key r)"
proof (cases "rows = []")
  case True
  then show ?thesis by (simp add: find_idx_insertion_point_def)
next
  case False
  have "idx_dir_valid (p, rows)" using assms by (auto simp: idx_dir_valid_def)
  from idx_dir.search_not_found [OF this, of k] assms(3) obtain i where i: "i \<le> length rows"
    "bsearch (idx_probe p k (length rows)) 0 (length rows) = Inr (i, False)"
    "\<forall>j < i. entry_key (rows ! j) < k" "\<forall>j. i \<le> j \<and> j < length rows \<longrightarrow> k < entry_key (rows ! j)"
    by (force simp: in_set_conv_nth)
  then have "\<forall>r \<in> set (take i rows). entry_key r < k" "\<forall>r \<in> set (drop i rows). k < entry_key r"
    by (auto simp: in_set_conv_nth)
  with i False show ?thesis by (auto simp: find_idx_insertion_point_def)
qed

lemma extract_key_leaf:
  assumes s: "leaf_page s nx pv rows" and pos: "pos \<le> length rows" "vi \<le> length rows"
    and short: "\<forall>r \<in> set rows. short_entry r" "length k \<le> 36"
  shows "extract_key_at_virtual_pos s (length rows) pos k vi = Inr (entry_key (inserted pos (encode_entry k) rows ! vi))"
proof (cases "vi = pos")
  case True
  then show ?thesis
    using pos short(2) entry_key_encode [of k]
    by (simp add: extract_key_at_virtual_pos_def nth_inserted virtual_nth_def)
next
  case False
  then have "orig_idx pos vi < length rows" using pos by (auto simp: orig_idx_def)
  then show ?thesis
    using False pos short(1) decode_entry_leaf [OF s, of "orig_idx pos vi" row_bounds_raw]
    by (simp add: extract_key_at_virtual_pos_def nth_inserted virtual_nth_def decode_leaf_entry_raw_def)
qed

section \<open>Branch pages\<close>

text \<open>The 38 bytes of a stored key.\<close>

definition key_slot :: "bytes \<Rightarrow> bytes" where
  "key_slot k = u16_to_le (as_u16 (length k)) @ k @ replicate (36 - length k) 0"

definition idx_branch :: "page \<Rightarrow> u32 list \<Rightarrow> bytes list \<Rightarrow> bool" where
  "idx_branch p cs ks \<longleftrightarrow>
     page_ok p \<and> magic p = MAGIC \<and> flags p = PAGE_BRANCH \<and> num_rows p = as_u16 (length ks)
     \<and> length cs = Suc (length ks) \<and> length ks \<le> 96 \<and> (\<forall>k \<in> set ks. length k \<le> 36)
     \<and> (\<forall>i < length cs. sub_bytes p (16 + i * 42) (20 + i * 42) = u32_to_le (cs ! i))
     \<and> (\<forall>i < length ks. sub_bytes p (20 + i * 42) (58 + i * 42) = key_slot (ks ! i))"

lemma idx_branchD:
  assumes "idx_branch p cs ks"
  shows "page_ok p" "magic p = MAGIC" "flags p = PAGE_BRANCH" "unat (num_rows p) = length ks"
    "length cs = Suc (length ks)" "length ks \<le> 96" "\<not> is_leaf p" "length p = 4096"
    "\<forall>k \<in> set ks. length k \<le> 36"
  using assms by (simp_all add: idx_branch_def is_leaf_def page_ok_def)

lemma idx_branch_child:
  assumes "idx_branch p cs ks" "i < length cs"
  shows "get_idx_branch_child p i = Inr (cs ! i)"
proof -
  have "sub_bytes p (16 + i * 42) (20 + i * 42) = u32_to_le (cs ! i)"
    using assms by (simp add: idx_branch_def)
  then show ?thesis
    using idx_branchD(5,6,8) [OF assms(1)] assms(2)
    by (simp add: get_idx_branch_child_def u32_at_Inr add.commute)
qed

lemma idx_branch_key:
  assumes "idx_branch p cs ks" "i < length ks"
  shows "get_idx_branch_key p i = Inr (ks ! i)"
proof -
  note d = idx_branchD [OF assms(1)]
  let ?o = "20 + i * 42" and ?k = "ks ! i"
  have slot: "sub_bytes p ?o (58 + i * 42) = key_slot ?k" using assms by (simp add: idx_branch_def)
  have k: "length ?k \<le> 36" using d(9) assms(2) by simp
  have "sub_bytes p ?o (?o + 2) = sub_bytes (key_slot ?k) 0 2"
    "sub_bytes p (?o + 2) (?o + 2 + length ?k) = sub_bytes (key_slot ?k) 2 (2 + length ?k)"
    using sub_bytes_sub_bytes [of ?o 2 "58 + i * 42" p 0] k
      sub_bytes_sub_bytes [of ?o "2 + length ?k" "58 + i * 42" p 2] unfolding slot by (simp_all add: add.assoc)
  then have "sub_bytes p ?o (?o + 2) = u16_to_le (as_u16 (length ?k))" "sub_bytes p (?o + 2) (?o + 2 + length ?k) = ?k"
    by (simp_all add: key_slot_def sub_bytes_def)
  then show ?thesis
    using d(6,8) assms(2) k by (simp add: get_idx_branch_key_def u16_at_Inr slice_def Let_def ac_simps)
qed

lemma find_idx_child_loop_branch:
  assumes b: "idx_branch p cs ks" and "j \<le> length ks"
  shows "find_idx_child_loop p k (length ks) [j..<length ks] =
    Inr (j + route (drop j ks) k, cs ! (j + route (drop j ks) k))"
  using assms(2)
proof (induction j rule: inc_induct)
  case base
  then show ?case
    using idx_branch_child [OF b, of "length ks"] idx_branchD(5) [OF b]
    by (simp add: route_def get_idx_branch_child_def)
next
  case (step j)
  then show ?case
    using idx_branch_key [OF b, of j] idx_branch_child [OF b, of j] idx_branchD(5) [OF b]
    by (auto simp: upt_conv_Cons route_def Cons_nth_drop_Suc [symmetric])
qed

lemma find_idx_child_branch:
  "idx_branch p cs ks \<Longrightarrow> find_idx_child p k = Inr (route ks k, cs ! route ks k)"
  using find_idx_child_loop_branch [of p cs ks 0 k] idx_branchD(4) [of p cs ks]
  by (simp add: find_idx_child_def Let_def)

lemma collect_idx_branch:
  assumes b: "idx_branch p cs ks"
  shows "collect_idx_branch_flat p = Inr (cs, ks)"
proof -
  have "res_map (\<lambda>i. res_bind (get_idx_branch_child p i) (\<lambda>c. res_bind (get_idx_branch_key p i)
      (\<lambda>k. Inr (c, k)))) [0..<length ks] = Inr (map (\<lambda>i. (cs ! i, ks ! i)) [0..<length ks])"
    using idx_branch_child [OF b] idx_branch_key [OF b] idx_branchD(5) [OF b] by (intro res_map_Inr) simp
  moreover have "map ((!) cs) [0..<length ks] @ [cs ! length ks] = cs"
    using idx_branchD(5) [OF b] by (intro nth_equalityI) (auto simp: nth_append less_Suc_eq)
  ultimately show ?thesis
    using idx_branchD(4,5) [OF b] idx_branch_child [OF b, of "length ks"]
    by (simp add: collect_idx_branch_flat_def Let_def comp_def map_nth)
qed

section \<open>Rebuilding a branch\<close>

lemma blit_append: "off + length a + length b \<le> length d \<Longrightarrow> blit (blit d off a) (off + length a) b = blit d off (a @ b)"
  by (simp add: blit_def ac_simps)

lemma blit_prefix:
  "length b \<le> length a \<Longrightarrow> off + length a \<le> length d \<Longrightarrow> blit (blit d off a) off b = blit d off (b @ drop (length b) a)"
  by (simp add: blit_def)

lemma write_idx_branch_entry_blit:
  assumes "length p = 4096" "i < 97" "length k \<le> 36"
  shows "write_idx_branch_entry p i c k = Inr (blit p (16 + i * 42) (u32_to_le c @ key_slot k))"
proof -
  let ?o = "16 + i * 42" and ?n = "u16_to_le (as_u16 (length k))" and ?z = "replicate 36 0 :: bytes"
  have "blit (blit (blit (blit p ?o (u32_to_le c)) (?o + 4) ?n) (?o + 6) ?z) (?o + 6) k =
      blit (blit p ?o (u32_to_le c @ ?n)) (?o + 6) (k @ replicate (36 - length k) 0)"
    using blit_append [of ?o "u32_to_le c" ?n p] assms
      blit_prefix [of k ?z "?o + 6" "blit (blit p ?o (u32_to_le c)) (?o + 4) ?n"] by simp
  also have "\<dots> = blit p ?o (u32_to_le c @ key_slot k)"
    using blit_append [of ?o "u32_to_le c @ ?n" "k @ replicate (36 - length k) 0" p] assms by (simp add: key_slot_def)
  finally show ?thesis using assms by (simp add: write_idx_branch_entry_def Let_def copy_at_def)
qed

lemma length_key_slot: "length k \<le> 36 \<Longrightarrow> length (key_slot k) = 38"
  by (simp add: key_slot_def)

definition idx_placed :: "u32 list \<Rightarrow> bytes list \<Rightarrow> nat \<Rightarrow> page \<Rightarrow> bool" where
  "idx_placed cs ks i p \<longleftrightarrow>
     page_ok p \<and> magic p = MAGIC \<and> flags p = PAGE_BRANCH \<and> num_rows p = as_u16 (length ks)
     \<and> (\<forall>j < i. sub_bytes p (16 + j * 42) (20 + j * 42) = u32_to_le (cs ! j)
          \<and> sub_bytes p (20 + j * 42) (58 + j * 42) = key_slot (ks ! j))"

lemma idx_entry_step_placed:
  assumes pl: "idx_placed cs ks i p" and i: "i < length ks" "length cs = Suc (length ks)"
    and n: "length ks \<le> 96" "\<forall>k \<in> set ks. length k \<le> 36"
  shows "\<exists>p'. idx_entry_step cs (i, ks ! i) p = Inr p' \<and> idx_placed cs ks (Suc i) p'"
proof -
  let ?e = "u32_to_le (cs ! i) @ key_slot (ks ! i)"
  let ?q = "blit p (16 + i * 42) ?e"
  have p: "page_ok p" "length p = 4096" using pl by (simp_all add: idx_placed_def page_ok_def)
  have k: "length (ks ! i) \<le> 36" using n(2) i(1) by simp
  note slot = length_key_slot [OF k]
  have q: "page_ok ?q" using p i n slot by (simp add: page_ok_def)
  have run: "idx_entry_step cs (i, ks ! i) p = Inr ?q"
    using write_idx_branch_entry_blit [OF p(2) _ k, of i "cs ! i"] i n by (simp add: idx_entry_step_def vec_get_def)
  have all: "sub_bytes ?q (16 + i * 42) (58 + i * 42) = ?e"
    using p i n slot by (intro sub_bytes_blit_same) simp_all
  have "sub_bytes ?q (16 + i * 42) (20 + i * 42) = sub_bytes ?e 0 4" "sub_bytes ?q (20 + i * 42) (58 + i * 42) = sub_bytes ?e 4 42"
    using sub_bytes_sub_bytes [of "16 + i * 42" 4 "58 + i * 42" ?q 0] sub_bytes_sub_bytes [of "16 + i * 42" 42 "58 + i * 42" ?q 4]
    unfolding all by (simp_all add: ac_simps)
  then have new: "sub_bytes ?q (16 + i * 42) (20 + i * 42) = u32_to_le (cs ! i)"
    "sub_bytes ?q (20 + i * 42) (58 + i * 42) = key_slot (ks ! i)"
    using slot by (simp_all add: sub_bytes_def)
  have old: "sub_bytes ?q s e = sub_bytes p s e" if "e \<le> 16 + i * 42" for s e
    using that p i n slot by (intro sub_bytes_blit_disjoint) auto
  have "sub_bytes ?q (16 + j * 42) (20 + j * 42) = u32_to_le (cs ! j)
      \<and> sub_bytes ?q (20 + j * 42) (58 + j * 42) = key_slot (ks ! j)" if "j < Suc i" for j
  proof (cases "j = i")
    case False
    with that have "20 + j * 42 \<le> 16 + i * 42" "58 + j * 42 \<le> 16 + i * 42" by auto
    then show ?thesis using pl False that by (simp add: idx_placed_def old)
  qed (simp add: new)
  then have "idx_placed cs ks (Suc i) ?q"
    using pl p q i n slot by (simp add: idx_placed_def)
  with run show ?thesis by blast
qed

lemma idx_entries_placed:
  assumes "idx_placed cs ks i p" "i \<le> length ks" "length cs = Suc (length ks)" "length ks \<le> 96" "\<forall>k \<in> set ks. length k \<le> 36"
  shows "\<exists>p'. res_fold (idx_entry_step cs) (enumerate i (drop i ks)) p = Inr p' \<and> idx_placed cs ks (length ks) p'"
  using assms(2,1)
proof (induction i arbitrary: p rule: inc_induct)
  case (step i)
  obtain p1 where "idx_entry_step cs (i, ks ! i) p = Inr p1" "idx_placed cs ks (Suc i) p1"
    using idx_entry_step_placed [OF step.prems step.hyps(2) assms(3-5)] by blast
  with step.IH step.hyps(2) show ?case
    by (simp add: Cons_nth_drop_Suc [symmetric])
qed auto

lemma rebuild_idx_branch:
  assumes p: "page_ok p" "magic p = MAGIC" and n: "length cs = Suc (length ks)" "length ks \<le> 96" "\<forall>k \<in> set ks. length k \<le> 36"
  shows "\<exists>p'. rebuild_idx_branch_flat p cs ks = Inr p' \<and> idx_branch p' cs ks"
proof -
  define q where "q = set_num_rows (set_flags p PAGE_BRANCH) (as_u16 (length ks))"
  have "page_ok q" "magic q = MAGIC" "flags q = PAGE_BRANCH" "num_rows q = as_u16 (length ks)"
    using p by (simp_all add: q_def)
  then have "idx_placed cs ks 0 (blit q 16 (replicate 4076 0))"
    by (simp add: idx_placed_def page_ok_def)
  then obtain p1 where p1: "res_fold (idx_entry_step cs) (enumerate 0 ks) (blit q 16 (replicate 4076 0)) = Inr p1"
    "idx_placed cs ks (length ks) p1"
    using idx_entries_placed [of cs ks 0] n by auto
  have l: "length p1 = 4096" "page_ok p1" using p1(2) by (simp_all add: idx_placed_def page_ok_def)
  let ?r = "blit p1 (16 + length ks * 42) (u32_to_le (cs ! length ks))"
  have run: "rebuild_idx_branch_flat p cs ks = Inr ?r"
    using p1(1) n l
    by (simp add: rebuild_idx_branch_flat_def q_def [symmetric] Let_def vec_get_def set_idx_branch_child_def copy_at_def)
  have old: "sub_bytes ?r s e = sub_bytes p1 s e" if "e \<le> 16 + length ks * 42" for s e
    using that l n by (intro sub_bytes_blit_disjoint) auto
  have new: "sub_bytes ?r (16 + length ks * 42) (20 + length ks * 42) = u32_to_le (cs ! length ks)"
    using l n by (simp add: sub_bytes_blit_same)
  have "idx_branch ?r cs ks"
    using p1(2) l n new by (auto simp: idx_placed_def idx_branch_def old less_Suc_eq page_ok_def)
  with run show ?thesis by blast
qed

lemma idx_branch_update_checksum:
  "idx_branch p cs ks \<Longrightarrow> idx_branch (update_checksum crc p) cs ks"
  by (auto simp: idx_branch_def)

lemma insert_idx_branch:
  assumes b: "idx_branch p cs ks" and i: "i \<le> length ks" and n: "length ks < 96" "length k \<le> 36"
  shows "\<exists>p'. insert_idx_branch_entry p i k c = Inr p'
    \<and> idx_branch p' (take (Suc i) cs @ c # drop (Suc i) cs) (take i ks @ k # drop i ks)"
proof -
  let ?cs = "take (Suc i) cs @ c # drop (Suc i) cs" and ?ks = "take i ks @ k # drop i ks"
  have len: "length ?cs = Suc (length ?ks)" "length ?ks \<le> 96" "length ?ks = Suc (length ks)" "\<forall>k \<in> set ?ks. length k \<le> 36"
    using i n idx_branchD(5,9) [OF b] by (auto dest: in_set_takeD in_set_dropD)
  obtain p' where p': "rebuild_idx_branch_flat p ?cs ?ks = Inr p'" "idx_branch p' ?cs ?ks"
    using rebuild_idx_branch [OF idx_branchD(1,2) [OF b] len(1,2,4)] by blast
  have "insert_idx_branch_entry p i k c = Inr (set_num_rows p' (as_u16 (length ?ks)))"
    using p'(1) i idx_branchD(5) [OF b] collect_idx_branch [OF b]
    by (simp add: insert_idx_branch_entry_def vec_insert_def)
  moreover have "idx_branch (set_num_rows p' (as_u16 (length ?ks))) ?cs ?ks"
    using p'(2) len(3) by (simp add: idx_branch_def)
  ultimately show ?thesis by blast
qed

interpretation idx_tree: branch_format idx_branch find_idx_child get_idx_branch_child
proof
  fix p cs ks and i :: nat assume b: "idx_branch p cs ks" and "i \<le> length ks"
  then show "get_idx_branch_child p i = Inr (cs ! i)"
    using idx_branch_child [OF b] idx_branchD(5) [OF b] by simp
qed (simp_all add: idx_branchD(5,7) find_idx_child_branch)

end
