(* ===== verification/Filters.thy ===== *)
theory Filters
  imports Row_Codec
begin

text \<open>
  \<^verbatim>\<open>src/filter.rs\<close> and the row predicate of \<^verbatim>\<open>src/db.rs\<close>: filters over decoded
  values, the fast paths over the raw bytes of one column, and the predicate of a query over a row's
  bytes (\<open>filter_matches_row\<close>, \<open>row_passes\<close>). The \<^verbatim>\<open>unreachable!\<close> arms of the source are
  the operators handled before them. The lemmas show that a fast path which answers gives the answer
  of the decoded comparison, and that the predicate of a query over an encoded row is its meaning
  over the row's columns with stored defaults.
\<close>

datatype filter_op = FEq | FNe | FLt | FLe | FGt | FGe | FIn | FIsNull | FIsNotNull

record db_filter =
  fl_column :: rstring
  fl_op :: filter_op
  fl_value :: db_value
  fl_in_values :: "db_value list option"

definition mk_filter :: "filter_op \<Rightarrow> rstring \<Rightarrow> db_value \<Rightarrow> db_filter" where
  "mk_filter op column v = \<lparr>fl_column = column, fl_op = op, fl_value = v, fl_in_values = None\<rparr>"

definition filter_in_list :: "rstring \<Rightarrow> db_value list \<Rightarrow> db_filter" where
  "filter_in_list column vs =
     \<lparr>fl_column = column, fl_op = FIn, fl_value = Null, fl_in_values = Some vs\<rparr>"

definition filter_is_null :: "rstring \<Rightarrow> db_filter" where
  "filter_is_null column = mk_filter FIsNull column Null"

definition filter_is_not_null :: "rstring \<Rightarrow> db_filter" where
  "filter_is_not_null column = mk_filter FIsNotNull column Null"

fun ord_test :: "filter_op \<Rightarrow> ordering \<Rightarrow> bool" where
  "ord_test FEq ord \<longleftrightarrow> ord = Equal"
| "ord_test FNe ord \<longleftrightarrow> ord \<noteq> Equal"
| "ord_test FLt ord \<longleftrightarrow> ord = Less"
| "ord_test FLe ord \<longleftrightarrow> ord \<noteq> Greater"
| "ord_test FGt ord \<longleftrightarrow> ord = Greater"
| "ord_test FGe ord \<longleftrightarrow> ord \<noteq> Less"
| "ord_test _ ord \<longleftrightarrow> False"

definition eval_filter_in :: "db_value \<Rightarrow> db_value list \<Rightarrow> bool" where
  "eval_filter_in actual vs \<longleftrightarrow> list_ex (\<lambda>v. value_compare actual v = Some Equal) vs"

definition filter_matches :: "db_filter \<Rightarrow> db_value \<Rightarrow> bool" where
  "filter_matches f actual \<longleftrightarrow>
     (if fl_op f = FIn then
        (case fl_in_values f of
           Some vs \<Rightarrow> list_ex (\<lambda>v. value_compare actual v = Some Equal) vs
         | None \<Rightarrow> False)
      else if fl_op f = FIsNull then is_null actual
      else if fl_op f = FIsNotNull then \<not> is_null actual
      else case value_compare actual (fl_value f) of
          Some ord \<Rightarrow> ord_test (fl_op f) ord
        | None \<Rightarrow> False)"

definition eval_filter_op :: "db_value \<Rightarrow> filter_op \<Rightarrow> db_value \<Rightarrow> bool" where
  "eval_filter_op actual op expected \<longleftrightarrow>
     (if op = FIn then False
      else if op = FIsNull then is_null actual
      else if op = FIsNotNull then \<not> is_null actual
      else case value_compare actual expected of
          Some ord \<Rightarrow> ord_test op ord
        | None \<Rightarrow> False)"

section \<open>The raw fast paths\<close>

text \<open>Behind the tag: the 64-bit integer, and the length and the bytes of a text.\<close>

definition raw_i64 :: "bytes \<Rightarrow> i64 option" where
  "raw_i64 raw = (if length raw < 9 then None else Some (u64_from_le (sub_bytes raw 1 9)))"

definition raw_len :: "bytes \<Rightarrow> nat option" where
  "raw_len raw = (if length raw < 5 then None else Some (unat (u32_from_le (sub_bytes raw 1 5))))"

definition raw_text_eq :: "bytes \<Rightarrow> rstring \<Rightarrow> bool option" where
  "raw_text_eq raw s =
     (case raw_len raw of
        None \<Rightarrow> None
      | Some len \<Rightarrow>
          if len \<noteq> length s then Some False
          else if length raw < 5 + len then None
          else Some (sub_bytes raw 5 (5 + len) = s))"

definition eval_filter_raw :: "bytes \<Rightarrow> filter_op \<Rightarrow> db_value \<Rightarrow> bool option" where
  "eval_filter_raw raw op expected =
     (if op = FIn then None
      else if raw = [] then None
      else let tag = raw ! 0 in
        if op = FIsNull then Some (tag = 0)
        else if op = FIsNotNull then Some (tag \<noteq> 0)
        else case expected of
            Text s \<Rightarrow> if tag = 1 \<and> op = FEq then raw_text_eq raw s else None
          | Integer i \<Rightarrow>
              if tag = 2 then
                (case raw_i64 raw of
                   None \<Rightarrow> None
                 | Some a \<Rightarrow>
                     if op = FEq then Some (a = i) else Some (ord_test op (cmp (sint a) (sint i))))
              else None
          | _ \<Rightarrow> None)"

fun raw_in_ints :: "i64 \<Rightarrow> db_value list \<Rightarrow> bool option" where
  "raw_in_ints a [] = Some False"
| "raw_in_ints a (v # vs) =
     (case v of Integer i \<Rightarrow> if a = i then Some True else raw_in_ints a vs | _ \<Rightarrow> None)"

fun raw_in_texts :: "bytes \<Rightarrow> db_value list \<Rightarrow> bool option" where
  "raw_in_texts a [] = Some False"
| "raw_in_texts a (v # vs) =
     (case v of Text s \<Rightarrow> if a = s then Some True else raw_in_texts a vs | _ \<Rightarrow> None)"

definition eval_filter_raw_in :: "bytes \<Rightarrow> db_value list \<Rightarrow> bool option" where
  "eval_filter_raw_in raw vs =
     (if raw = [] \<or> vs = [] then Some False
      else let tag = raw ! 0 in
        if tag = 2 then
          (case raw_i64 raw of None \<Rightarrow> None | Some a \<Rightarrow> raw_in_ints a vs)
        else if tag = 1 then
          (case raw_len raw of
             None \<Rightarrow> None
           | Some len \<Rightarrow>
               if length raw < 5 + len then None else raw_in_texts (sub_bytes raw 5 (5 + len)) vs)
        else None)"

definition eval_filter_raw_full :: "bytes \<Rightarrow> db_filter \<Rightarrow> bool option" where
  "eval_filter_raw_full raw f =
     (if fl_op f = FIn then
        (case fl_in_values f of Some vs \<Rightarrow> eval_filter_raw_in raw vs | None \<Rightarrow> Some False)
      else eval_filter_raw raw (fl_op f) (fl_value f))"

section \<open>Sorting and paging options\<close>

datatype sort_dir = Asc | Desc

record db_sort =
  so_column :: rstring
  so_dir :: sort_dir

record find_options =
  fo_filters :: "db_filter list"
  fo_or_groups :: "db_filter list list"
  fo_sort :: "db_sort list"
  fo_limit :: "u32 option"
  fo_offset :: "u32 option"
  fo_include_total :: bool

definition find_options_default :: find_options where
  "find_options_default =
     \<lparr>fo_filters = [], fo_or_groups = [], fo_sort = [], fo_limit = None, fo_offset = None,
      fo_include_total = False\<rparr>"

section \<open>The predicate of a query on a row\<close>

definition AUTO_ID_COL :: rstring where
  "AUTO_ID_COL = [0x5F, 0x69, 0x64]"

definition stored_default :: "column_def list \<Rightarrow> u16 \<Rightarrow> db_value" where
  "stored_default col_defs col_id =
     (if unat col_id < length col_defs
      then (case cd_default (col_defs ! unat col_id) of Some v \<Rightarrow> v | None \<Rightarrow> Null)
      else Null)"

definition filter_matches_row ::
  "(rstring \<rightharpoonup> u16) \<Rightarrow> column_def list \<Rightarrow> bytes \<Rightarrow> db_filter \<Rightarrow> bool res" where
  "filter_matches_row col_name_to_id col_defs row f =
     (if fl_column f = AUTO_ID_COL then
        res_bind (res_ok (extract_id row)) (\<lambda>r. case r of
          Some row_id \<Rightarrow> Inr (filter_matches f (Integer row_id))
        | None \<Rightarrow> Inr False)
      else case col_name_to_id (fl_column f) of
          Some col_id \<Rightarrow>
            res_bind (res_ok (extract_column_raw row col_id)) (\<lambda>raw.
            let fast = (case raw of Some (Some b) \<Rightarrow> eval_filter_raw_full b f | _ \<Rightarrow> None) in
            case fast of
              Some result \<Rightarrow> Inr result
            | None \<Rightarrow>
                res_bind (res_ok (extract_column row col_id)) (\<lambda>v.
                case v of
                  Some (Some v) \<Rightarrow> Inr (filter_matches f v)
                | _ \<Rightarrow> Inr (filter_matches f (stored_default col_defs col_id))))
        | None \<Rightarrow> Inr (filter_matches f Null))"

definition row_passes ::
  "(rstring \<rightharpoonup> u16) \<Rightarrow> column_def list \<Rightarrow> bytes \<Rightarrow> db_filter list \<Rightarrow> db_filter list list \<Rightarrow> bool res"
where
  "row_passes col_name_to_id col_defs row filters or_groups =
     res_bind (res_all (filter_matches_row col_name_to_id col_defs row) filters) (\<lambda>b.
     if b then
       if or_groups = [] then Inr True
       else res_any (res_all (filter_matches_row col_name_to_id col_defs row)) or_groups
     else Inr False)"

section \<open>The fast paths agree with the decoded comparison\<close>

lemma raw_i64_enc [simp]: "raw_i64 (2 # u64_to_le i) = Some i"
  using u64_le.read_middle [of 1 "[2]" 9 i "[]"] by (simp add: raw_i64_def)

lemma raw_text_enc:
  "length s < 4294967296 \<Longrightarrow> raw_len (1 # u32_to_le (as_u32 (length s)) @ s) = Some (length s)"
  "sub_bytes (1 # u32_to_le (as_u32 (length s)) @ s) 5 (5 + length s) = s"
  using u32_le.read_middle [of 1 "[1]" 5 "as_u32 (length s)" s]
    sub_bytes_middle [of 5 "1 # u32_to_le (as_u32 (length s))" "5 + length s" s "[]"]
  by (simp_all add: raw_len_def)

lemma sint_eq: "sint a = sint (i :: i64) \<longleftrightarrow> a = i"
  by (metis signed_word_eqI)

lemma eval_filter_raw_agrees:
  assumes "value_fits v" "eval_filter_raw (encode_value_to_vec v) op expected = Some b"
  shows "b = eval_filter_op v op expected"
proof (cases "op = FIn \<or> op = FIsNull \<or> op = FIsNotNull")
  case True
  then show ?thesis using assms(2)
    by (cases v) (auto simp: eval_filter_raw_def eval_filter_op_def is_null_def Let_def)
next
  case op: False
  show ?thesis
  proof (cases v)
    case (Text s)
    then show ?thesis
      using assms op raw_text_enc [of s]
      by (cases expected)
         (auto simp: eval_filter_raw_def eval_filter_op_def raw_text_eq_def Let_def split: if_splits)
  next
    case (Integer i)
    then show ?thesis
      using assms(2) op
      by (cases expected)
         (auto simp: eval_filter_raw_def eval_filter_op_def sint_eq Let_def split: if_splits)
  qed (use assms(2) op in \<open>cases expected; simp add: eval_filter_raw_def eval_filter_op_def Let_def\<close>)+
qed

lemma raw_in_ints_agrees:
  "raw_in_ints i vs = Some b \<Longrightarrow> b = list_ex (\<lambda>v. value_compare (Integer i) v = Some Equal) vs"
  by (induction vs) (auto simp: sint_eq split: db_value.splits if_splits)

lemma raw_in_texts_agrees:
  "raw_in_texts s vs = Some b \<Longrightarrow> b = list_ex (\<lambda>v. value_compare (Text s) v = Some Equal) vs"
  by (induction vs) (auto split: db_value.splits if_splits)

lemma eval_filter_raw_in_agrees:
  assumes "value_fits v" "eval_filter_raw_in (encode_value_to_vec v) vs = Some b"
  shows "b = eval_filter_in v vs"
proof (cases "vs = []")
  case True
  with assms(2) show ?thesis by (simp add: eval_filter_raw_in_def eval_filter_in_def)
next
  case False
  then show ?thesis
    using assms raw_text_enc
    by (cases v) (auto simp: eval_filter_raw_in_def eval_filter_in_def Let_def
        dest: raw_in_ints_agrees raw_in_texts_agrees)
qed

lemma filter_matches_op:
  "fl_op f \<noteq> FIn \<Longrightarrow> filter_matches f v = eval_filter_op v (fl_op f) (fl_value f)"
  by (simp add: filter_matches_def eval_filter_op_def)

lemma filter_matches_in:
  "fl_op f = FIn \<Longrightarrow> filter_matches f v =
     (case fl_in_values f of Some vs \<Rightarrow> eval_filter_in v vs | None \<Rightarrow> False)"
  by (simp add: filter_matches_def eval_filter_in_def cong: option.case_cong)

lemma eval_filter_raw_full_agrees:
  assumes "value_fits v" "eval_filter_raw_full (encode_value_to_vec v) f = Some b"
  shows "b = filter_matches f v"
  using assms eval_filter_raw_agrees [OF assms(1)] eval_filter_raw_in_agrees [OF assms(1)]
  by (auto simp: eval_filter_raw_full_def filter_matches_op filter_matches_in split: if_splits option.splits)

section \<open>The meaning of the predicate\<close>

text \<open>The value a query sees in a column of a row.\<close>

definition seen_value :: "(rstring \<rightharpoonup> u16) \<Rightarrow> column_def list \<Rightarrow> u64 \<Rightarrow> columns \<Rightarrow> rstring \<Rightarrow> db_value" where
  "seen_value col_name_to_id col_defs rowid cols column =
     (if column = AUTO_ID_COL then Integer rowid
      else case col_name_to_id column of
          None \<Rightarrow> Null
        | Some c \<Rightarrow> (case map_of cols c of Some v \<Rightarrow> v | None \<Rightarrow> stored_default col_defs c))"

lemma filter_matches_row_run:
  assumes "row_ok cols"
  shows "filter_matches_row ids defs (encode_row r cols) f =
    Inr (filter_matches f (seen_value ids defs r cols (fl_column f)))"
proof (cases "fl_column f = AUTO_ID_COL \<or> ids (fl_column f) = None")
  case True
  then show ?thesis
    by (auto simp: filter_matches_row_def seen_value_def extract_id_encode_row)
next
  case False
  then obtain c where c: "ids (fl_column f) = Some c" by auto
  show ?thesis
  proof (cases "map_of cols c")
    case None
    with False c show ?thesis
      using extract_column_row [OF assms, of r c] by (simp add: filter_matches_row_def seen_value_def)
  next
    case (Some v)
    then have "value_fits v"
      using assms map_of_SomeD [OF Some] by (fastforce simp: row_ok_def row_fits_def)
    with Some False c show ?thesis
      using extract_column_row [OF assms, of r c] eval_filter_raw_full_agrees [of v f]
      by (auto simp: filter_matches_row_def seen_value_def Let_def split: option.split)
  qed
qed

section \<open>Properties\<close>

text \<open>The fast path of a filter over the raw bytes of a column, whenever it answers, answers as
  the filter does on the decoded value.\<close>

theorem raw_filter_agrees:
  assumes "value_fits v" "eval_filter_raw_full (encode_value_to_vec v) f = Some b"
  shows "filter_matches f v \<longleftrightarrow> b"
  using eval_filter_raw_full_agrees [OF assms] by simp

theorem raw_filter_agrees_witness:
  "filter_matches (mk_filter FLt [97] (Integer 5)) (Integer (- 3)) \<longleftrightarrow> True"
  by (rule raw_filter_agrees)
     (simp_all add: eval_filter_raw_full_def mk_filter_def eval_filter_raw_def Let_def)

text \<open>The predicate of a query over the bytes of a stored row: it holds exactly when every
  mandatory filter matches the value the query sees in its column (the rowid for the automatic key,
  the stored default for a column added later, null for an unknown one) and, if there are groups,
  every filter of some group does.\<close>

theorem row_passes_meaning:
  assumes "row_ok cols"
  shows "row_passes ids defs (encode_row r cols) filters groups =
    Inr (list_all (\<lambda>f. filter_matches f (seen_value ids defs r cols (fl_column f))) filters
      \<and> (groups = [] \<or> list_ex (list_all (\<lambda>f.
            filter_matches f (seen_value ids defs r cols (fl_column f)))) groups))"
  using filter_matches_row_run [OF assms, of ids defs r]
  by (simp add: row_passes_def res_all_Inr res_any_Inr)

theorem row_passes_meaning_witness:
  "row_passes [[97] \<mapsto> 1] [] (encode_row 9 [(3, Integer 7), (1, Text [104, 105])])
     [mk_filter FEq AUTO_ID_COL (Integer 9)] [[mk_filter FEq [97] (Text [104, 105])], []] = Inr True"
  by (subst row_passes_meaning [OF row_ok_sample])
     (simp add: mk_filter_def seen_value_def AUTO_ID_COL_def filter_matches_def)

end
