(* ===== verification/Cut_Row.thy ===== *)
theory Cut_Row
  imports Filters Overflow
begin

text \<open>
  Looking a column up in the inline part of a row that continues on overflow pages: the first 4064
  bytes of the encoded row and a trailer of 10 bytes. A value that ends in the inline part, and a
  column the row does not have, are found as in the whole row. A value that ends behind the inline part
  makes the slice of \<^verbatim>\<open>extract_column_raw\<close> leave the bytes, which panics.
\<close>

definition cut_row :: "bytes \<Rightarrow> bytes \<Rightarrow> bool" where
  "cut_row full r \<longleftrightarrow> length r = 4074 \<and> 4074 < length full \<and> take 4064 r = take 4064 full"

lemma slice_cut:
  assumes "cut_row full r" "e \<le> 4064"
  shows "slice r s e = slice full s e"
proof -
  have "take e (take 4064 r) = take e (take 4064 full)" using assms(1) by (simp add: cut_row_def del: take_take)
  then have "take e r = take e full" using assms(2) by (simp add: min_def)
  then show ?thesis using assms by (simp add: cut_row_def slice_def sub_bytes_def drop_take [symmetric])
qed

lemma read_cut:
  assumes "cut_row full r"
  shows "i + 2 \<le> 4064 \<Longrightarrow> u16_at r i = u16_at full i" "off + need \<le> 4064 \<Longrightarrow> ensure_bytes r off need = Inr ()"
  using assms slice_cut [OF assms, of "i + 2" i] by (simp_all add: u16_at_def cut_row_def ensure_bytes_def)

lemma sub_bytes_rest: "s \<le> e \<Longrightarrow> sub_bytes d s (length d) = sub_bytes d s e @ sub_bytes d e (length d)"
  using append_take_drop_id [of "e - s" "drop s d"] by (simp add: sub_bytes_def)

definition cut_dir_valid :: "bytes \<times> u64 \<times> columns \<Rightarrow> bool" where
  "cut_dir_valid d \<longleftrightarrow> row_dir_valid (snd d) \<and> cut_row (row_image (fst (snd d)) (snd (snd d))) (fst d)
     \<and> 10 + 4 * length (snd (snd d)) \<le> 4064"

lemma cut_probe:
  assumes "cut_row (row_image rowid cs) r" "10 + 4 * length cs \<le> 4064" "i < length cs"
  shows "dir_probe_checked r k i = Inr (cmp (fst (cs ! i)) k)"
  using assms read_cut [OF assms(1)] by (simp add: dir_probe_checked_def dir_probe_def row_image_col)

interpretation cut_dir: strict_directory cut_dir_valid "\<lambda>d. length (snd (snd d))" "\<lambda>d. row_dir_key (snd d)"
    "\<lambda>d. dir_probe_checked (fst d)"
  by unfold_locales
    (auto simp: cut_dir_valid_def row_dir_valid_def row_dir_key_def cut_probe sorted_wrt_iff_nth_less intro: less_imp_le)

lemma cut_value_start:
  assumes "row_fits cs" "cut_row (row_image rowid cs) r" "10 + 4 * length cs \<le> 4064" "i < length cs"
  shows "value_start r (length cs) i = Inr (10 + length cs * 4 + col_offset cs i)"
  using value_start_image [OF assms(1,4), of rowid] read_cut(1) [OF assms(2), of "10 + i * 4 + 2"] assms(3,4)
  by (simp add: value_start_def)

lemma cut_last:
  assumes "cut_row (row_image rowid cs) r"
  shows "4064 < 10 + length cs * 4 + col_offset cs (length cs)"
  using assms by (simp add: cut_row_def length_row_image col_offset_all)

lemma cut_extract_at:
  assumes v: "row_dir_valid (rowid, cs)" and c: "cut_row (row_image rowid cs) r" and i: "i < length cs"
    and e: "10 + length cs * 4 + col_offset cs (Suc i) \<le> 4064"
  shows "extract_column r (fst (cs ! i)) = Inr (Some (snd (cs ! i)))"
    and "extract_column_raw r (fst (cs ! i)) = Inr (Some (encode_value_to_vec (snd (cs ! i))))"
proof -
  have fits: "row_fits cs" using v by (simp add: row_dir_valid_def)
  have d: "10 + 4 * length cs \<le> 4064" using e by simp
  have dv: "cut_dir_valid (r, rowid, cs)" using v c d by (simp add: cut_dir_valid_def)
  have s: "bsearch (dir_probe_checked r (fst (cs ! i))) 0 (length cs) = Inr (i, True)"
    using cut_dir.search_at [OF dv] i by (simp add: row_dir_key_def)
  have nxt: "Suc i < length cs" using i e cut_last [OF c] by (cases "Suc i = length cs") auto
  have n: "u16_at r 8 = Inr (as_u16 (length cs))" using read_cut(1) [OF c] row_image_count [OF fits] by simp
  let ?s = "10 + length cs * 4 + col_offset cs i" and ?e = "10 + length cs * 4 + col_offset cs (Suc i)"
  have val: "slice r ?s ?e = Inr (encode_value_to_vec (snd (cs ! i)))"
    using slice_cut [OF c e] slice_value [OF i] by simp
  have se: "?s \<le> ?e" by (simp add: col_offset_mono)
  have rest: "slice r ?s (length r) = Inr (encode_value_to_vec (snd (cs ! i)) @ sub_bytes r ?e (length r))"
  proof -
    have "?e \<le> length r" using e c by (simp add: cut_row_def)
    moreover have "sub_bytes r ?s (length r) = sub_bytes r ?s ?e @ sub_bytes r ?e (length r)"
      by (rule sub_bytes_rest [OF se])
    ultimately show ?thesis using val se by (simp add: slice_def split: if_splits)
  qed
  note facts = s n row_fitsD(1,3) [OF fits] read_cut(2) [OF c] Let_def cut_value_start [OF fits c d] val rest decode_encode_value
  show "extract_column r (fst (cs ! i)) = Inr (Some (snd (cs ! i)))"
    using i by (simp add: extract_column_def facts del: length_0_conv)
  show "extract_column_raw r (fst (cs ! i)) = Inr (Some (encode_value_to_vec (snd (cs ! i))))"
    using i nxt by (simp add: extract_column_raw_def facts value_end_def del: length_0_conv)
qed

lemma cut_extract_absent:
  assumes v: "row_dir_valid (rowid, cs)" and c: "cut_row (row_image rowid cs) r" and d: "10 + 4 * length cs \<le> 4064"
    and k: "k \<notin> fst ` set cs"
  shows "extract_column_raw r k = Inr None"
proof -
  have fits: "row_fits cs" using v by (simp add: row_dir_valid_def)
  have dv: "cut_dir_valid (r, rowid, cs)" using v c d by (simp add: cut_dir_valid_def)
  have "row_dir_key (snd (r, rowid, cs)) i \<noteq> k" if "i < length (snd (snd (r, rowid, cs)))" for i
    using that k by (force simp: row_dir_key_def)
  from cut_dir.search_not_found [OF dv this]
  obtain p where "bsearch (dir_probe_checked r k) 0 (length cs) = Inr (p, False)" by auto
  then show ?thesis
    using row_image_count [OF fits] row_fitsD(1) [OF fits] read_cut [OF c] by (simp add: extract_column_raw_def Let_def)
qed

lemma cut_extract_panics:
  assumes v: "row_dir_valid (rowid, cs)" and c: "cut_row (row_image rowid cs) r" and d: "10 + 4 * length cs \<le> 4064"
    and i: "i < length cs" and e: "4074 < 10 + length cs * 4 + col_offset cs (if Suc i < length cs then Suc i else i)"
  shows "extract_column_raw r (fst (cs ! i)) = Inl Panicked"
proof -
  have fits: "row_fits cs" using v by (simp add: row_dir_valid_def)
  have dv: "cut_dir_valid (r, rowid, cs)" using v c d by (simp add: cut_dir_valid_def)
  have s: "bsearch (dir_probe_checked r (fst (cs ! i))) 0 (length cs) = Inr (i, True)"
    using cut_dir.search_at [OF dv] i by (simp add: row_dir_key_def)
  have n: "u16_at r 8 = Inr (as_u16 (length cs))" using read_cut(1) [OF c] row_image_count [OF fits] by simp
  have "length r = 4074" using c by (simp add: cut_row_def)
  then have "\<exists>x y. value_start r (length cs) i = Inr x \<and> value_end r (length cs) i = Inr y \<and> slice r x y = Inl Panicked"
    using e i cut_value_start [OF fits c d] by (cases "Suc i < length cs") (simp_all add: value_end_def slice_def)
  then show ?thesis
    using i s n row_fitsD(1) [OF fits] read_cut(2) [OF c] by (auto simp: extract_column_raw_def Let_def simp del: length_0_conv)
qed

text \<open>A text in the last column whose length is in the leaf and whose bytes are not all there.\<close>

lemma cut_text:
  assumes v: "row_dir_valid (rowid, cs)" and c: "cut_row (row_image rowid cs) r"
    and i: "i < length cs" "Suc i = length cs" "cs ! i = (k, Text t)"
    and s: "10 + length cs * 4 + col_offset cs i + 5 \<le> 4064" and e: "4074 < 10 + length cs * 4 + col_offset cs (Suc i)"
  shows "extract_column r k = Inl (Fail (Corruption ''truncated''))"
    and "\<exists>raw. extract_column_raw r k = Inr (Some (1 # raw))"
proof -
  have fits: "row_fits cs" using v by (simp add: row_dir_valid_def)
  have d: "10 + 4 * length cs \<le> 4064" using s by simp
  have dv: "cut_dir_valid (r, rowid, cs)" using v c d by (simp add: cut_dir_valid_def)
  have b: "bsearch (dir_probe_checked r k) 0 (length cs) = Inr (i, True)"
    using cut_dir.search_at [OF dv, of i] i(1,3) by (simp add: row_dir_key_def)
  have n: "u16_at r 8 = Inr (as_u16 (length cs))" using read_cut(1) [OF c] row_image_count [OF fits] by simp
  let ?s = "10 + length cs * 4 + col_offset cs i" and ?full = "row_image rowid cs"
  have len: "length r = 4074" using c by (simp add: cut_row_def)
  have t: "length t < 4294967296" using row_fitsD(3) [OF fits i(1)] i(3) by simp
  have size: "col_offset cs (Suc i) = col_offset cs i + 5 + length t"
    using col_offset_Suc [OF i(1)] i(3) by (simp add: nth_col_blocks [OF i(1)])
  have "slice ?full ?s (?s + 5 + length t) = Inr (1 # u32_to_le (as_u32 (length t)) @ t)"
    using slice_value [OF i(1), of rowid] i(3) size by (simp add: add.assoc)
  then have "sub_bytes ?full ?s (?s + 5 + length t) = 1 # u32_to_le (as_u32 (length t)) @ t" "?s + 5 + length t \<le> length ?full"
    by (simp_all add: slice_def split: if_splits)
  moreover have "sub_bytes ?full ?s (?s + 5) = take 5 (sub_bytes ?full ?s (?s + 5 + length t))"
    by (simp add: sub_bytes_def)
  ultimately have "slice ?full ?s (?s + 5) = Inr (1 # u32_to_le (as_u32 (length t)))" by (simp add: slice_def)
  then have hd: "sub_bytes r ?s (?s + 5) = 1 # u32_to_le (as_u32 (length t))"
    using slice_cut [OF c s, of ?s] by (simp add: slice_def split: if_splits)
  define junk where "junk = sub_bytes r (?s + 5) (length r)"
  have junk: "length junk < length t" using e size len s by (simp add: junk_def sub_bytes_def)
  have "sub_bytes r ?s (length r) = (1 # u32_to_le (as_u32 (length t))) @ junk"
    using sub_bytes_rest [of ?s "?s + 5" r] hd by (simp add: junk_def)
  then have rest: "slice r ?s (length r) = Inr (1 # u32_to_le (as_u32 (length t)) @ junk)" using s len by (simp add: slice_def)
  have dec: "decode_value (1 # u32_to_le (as_u32 (length t)) @ junk) = Inl (Fail (Corruption ''truncated''))"
  proof -
    have "u32_at (1 # u32_to_le (as_u32 (length t)) @ junk) 1 = Inr (as_u32 (length t))"
      using u32_at_middle [of 1 "[1]" "as_u32 (length t)" junk] by simp
    then show ?thesis using t junk by (simp add: decode_value_def decode_text_def byte_at_def ensure_bytes_def Let_def)
  qed
  note facts = b n row_fitsD(1) [OF fits] read_cut(2) [OF c] Let_def cut_value_start [OF fits c d] rest
  show "extract_column r k = Inl (Fail (Corruption ''truncated''))"
    using i(1) by (simp add: extract_column_def facts dec del: length_0_conv)
  show "\<exists>raw. extract_column_raw r k = Inr (Some (1 # raw))"
    using i(1,2) by (auto simp: extract_column_raw_def facts value_end_def simp del: length_0_conv)
qed

section \<open>Where a value ends\<close>

text \<open>The directory and the value of column \<open>c\<close>, if there is one, lie in the first 4064 bytes.\<close>

definition ends_inline :: "columns \<Rightarrow> u16 \<Rightarrow> bool" where
  "ends_inline cols c \<longleftrightarrow>
     (let cs = sort_key fst cols
      in 10 + 4 * length cs \<le> 4064
         \<and> (\<forall>i < length cs. fst (cs ! i) = c \<longrightarrow> 10 + length cs * 4 + col_offset cs (Suc i) \<le> 4064))"

text \<open>
  The directory does, and the value ends behind the 4074 bytes in the leaf; the end of the last value is
  not in the directory, so for the last column this is about its start.
\<close>

definition ends_behind :: "columns \<Rightarrow> u16 \<Rightarrow> bool" where
  "ends_behind cols c \<longleftrightarrow>
     (let cs = sort_key fst cols
      in 10 + 4 * length cs \<le> 4064
         \<and> (\<exists>i < length cs. fst (cs ! i) = c
               \<and> 4074 < 10 + length cs * 4 + col_offset cs (if Suc i < length cs then Suc i else i)))"

lemma cut_column:
  assumes "row_ok cols" "cut_row (encode_row rowid cols) r" "ends_inline cols c"
  shows "map_of cols c = Some v \<Longrightarrow> extract_column r c = Inr (Some v) \<and> extract_column_raw r c = Inr (Some (encode_value_to_vec v))"
    and "map_of cols c = None \<Longrightarrow> extract_column_raw r c = Inr None"
proof -
  let ?cs = "sort_key fst cols"
  have valid: "row_dir_valid (rowid, ?cs)" and cut: "cut_row (row_image rowid ?cs) r"
    using row_ok_valid [OF assms(1)] assms(2) by (simp_all add: encode_row_image)
  have d: "10 + 4 * length ?cs \<le> 4064" and e: "\<And>i. i < length ?cs \<Longrightarrow> fst (?cs ! i) = c \<Longrightarrow> 10 + length ?cs * 4 + col_offset ?cs (Suc i) \<le> 4064"
    using assms(3) by (simp_all add: ends_inline_def Let_def)
  have m: "map_of ?cs c = map_of cols c" using assms(1) by (simp add: map_of_sort_key row_ok_def)
  show "extract_column r c = Inr (Some v) \<and> extract_column_raw r c = Inr (Some (encode_value_to_vec v))" if "map_of cols c = Some v"
  proof -
    have "(c, v) \<in> set ?cs" using that m map_of_SomeD by metis
    then obtain i where i: "i < length ?cs" "?cs ! i = (c, v)" unfolding in_set_conv_nth by blast
    then show ?thesis using cut_extract_at [OF valid cut i(1)] e by simp
  qed
  show "extract_column_raw r c = Inr None" if "map_of cols c = None"
    using cut_extract_absent [OF valid cut d] that by (simp add: map_of_eq_None_iff)
qed

lemma cut_column_panics:
  assumes "row_ok cols" "cut_row (encode_row rowid cols) r" "ends_behind cols c"
  shows "extract_column_raw r c = Inl Panicked"
proof -
  let ?cs = "sort_key fst cols"
  have "row_dir_valid (rowid, ?cs)" "cut_row (row_image rowid ?cs) r"
    using row_ok_valid [OF assms(1)] assms(2) by (simp_all add: encode_row_image)
  then show ?thesis
    using cut_extract_panics [of rowid ?cs r] assms(3) by (auto simp: ends_behind_def Let_def)
qed

text \<open>The last column is a text; its length is in the leaf, its end behind the leaf.\<close>

definition text_cut :: "columns \<Rightarrow> u16 \<Rightarrow> bool" where
  "text_cut cols c \<longleftrightarrow>
     (let cs = sort_key fst cols; i = length cs - 1
      in cs \<noteq> [] \<and> fst (cs ! i) = c \<and> value_type (snd (cs ! i)) = Some TText
         \<and> 10 + length cs * 4 + col_offset cs i + 5 \<le> 4064 \<and> 4074 < 10 + length cs * 4 + col_offset cs (length cs))"

lemma cut_column_text:
  assumes "row_ok cols" "cut_row (encode_row rowid cols) r" "text_cut cols c"
  shows "extract_column r c = Inl (Fail (Corruption ''truncated''))" "\<exists>raw. extract_column_raw r c = Inr (Some (1 # raw))"
proof -
  let ?cs = "sort_key fst cols" and ?i = "length (sort_key fst cols) - 1"
  have v: "row_dir_valid (rowid, ?cs)" and c: "cut_row (row_image rowid ?cs) r"
    using row_ok_valid [OF assms(1)] assms(2) by (simp_all add: encode_row_image)
  have t: "?cs \<noteq> []" "fst (?cs ! ?i) = c" "value_type (snd (?cs ! ?i)) = Some TText"
    "10 + length ?cs * 4 + col_offset ?cs ?i + 5 \<le> 4064" "4074 < 10 + length ?cs * 4 + col_offset ?cs (length ?cs)"
    using assms(3) by (simp_all add: text_cut_def Let_def)
  have i: "?i < length ?cs" "Suc ?i = length ?cs" using t(1) by (cases ?cs; simp)+
  obtain s where s: "?cs ! ?i = (c, Text s)" using t(2,3) by (cases "?cs ! ?i"; cases "snd (?cs ! ?i)") auto
  show "extract_column r c = Inl (Fail (Corruption ''truncated''))" "\<exists>raw. extract_column_raw r c = Inr (Some (1 # raw))"
    using cut_text [OF v c i s t(4)] t(5) i(2) by simp_all
qed

text \<open>
  How a filtered scan over the cut row fails: a slice out of the row, or, for a comparison other than
  equality that the raw bytes do not decide, an error of \<^verbatim>\<open>extract_column\<close> on the cut bytes.
\<close>

definition cut_fault :: "columns \<Rightarrow> u16 \<Rightarrow> filter_op \<Rightarrow> fault \<Rightarrow> bool" where
  "cut_fault cols c op e \<longleftrightarrow>
     ends_behind cols c \<and> e = Panicked
     \<or> text_cut cols c \<and> op \<in> {FNe, FLt, FLe, FGt, FGe} \<and> e = Fail (Corruption ''truncated'')"

end
