(* ===== verification/Btree_Reader.thy ===== *)
theory Btree_Reader
  imports Tree_Edit Cut_Row
begin

text \<open>
  \<^verbatim>\<open>BTreeReader\<close> of \<^verbatim>\<open>src/btree.rs\<close> and the two read-only operations of
  \<^verbatim>\<open>BTreeWriter\<close>: point lookup, full and bounded scans, batch lookup, filtered scan and
  count, and the cursor scan in both directions. Each is its descent followed by a walk along the
  leaf chain; \<open>rd\<close> is the page reader and \<open>mx\<close> the bound on visited pages (the page count, a
  32-bit number, so that the counter cannot pass it). \<open>row_tree\<close> is the tree invariant. The lemmas
  turn every walk into a fold over the rows of the tree in key order.
\<close>

section \<open>Descents\<close>

definition child_for :: "u64 \<Rightarrow> page \<Rightarrow> u32 res" where
  "child_for rowid p = res_bind (find_child p rowid) (\<lambda>(_, c). Inr c)"

definition find_leftmost_leaf :: "reader \<Rightarrow> u32 \<Rightarrow> u32 res" where
  "find_leftmost_leaf rd root =
     find_leaf rd (\<lambda>p. get_branch_child p 0)
       ''B+ tree depth exceeds maximum in find_leftmost_leaf'' MAX_TREE_DEPTH root"

definition find_leaf_for_rowid :: "reader \<Rightarrow> u32 \<Rightarrow> u64 \<Rightarrow> u32 res" where
  "find_leaf_for_rowid rd root rowid =
     find_leaf rd (child_for rowid)
       ''B+ tree depth exceeds maximum in find_leaf_for_rowid'' MAX_TREE_DEPTH root"

definition find_rightmost_leaf :: "reader \<Rightarrow> u32 \<Rightarrow> u32 res" where
  "find_rightmost_leaf rd root =
     find_leaf rd (child_for (- 1))
       ''B+ tree depth exceeds maximum in find_rightmost_leaf'' MAX_TREE_DEPTH root"

definition search_leaf :: "reader \<Rightarrow> u64 \<Rightarrow> page \<Rightarrow> bytes option res" where
  "search_leaf rd rowid p =
     (let n = unat (num_rows p) in
      if n = 0 then Inr None
      else res_bind (find_insertion_point p rowid) (\<lambda>(pos, found).
        if found then
          res_bind (row_slice row_bounds p pos n) (\<lambda>d.
          case d of
            Some raw \<Rightarrow> res_bind (reassemble_row rd raw) (\<lambda>full. Inr (Some full))
          | None \<Rightarrow> Inr None)
        else Inr None))"

fun search_recursive :: "reader \<Rightarrow> string \<Rightarrow> nat \<Rightarrow> u32 \<Rightarrow> u64 \<Rightarrow> bytes option res" where
  "search_recursive rd err 0 page_no rowid = Inl (Fail (Corruption err))"
| "search_recursive rd err (Suc k) page_no rowid =
     res_bind (rd page_no) (\<lambda>p.
     if is_leaf p then search_leaf rd rowid p
     else res_bind (find_child p rowid) (\<lambda>(_, c). search_recursive rd err k c rowid))"

section \<open>Operations\<close>

type_synonym hits = "(u64 \<times> bytes) list"

definition search :: "reader \<Rightarrow> u32 \<Rightarrow> u64 \<Rightarrow> bytes option res" where
  "search rd root rowid =
     search_recursive rd ''B+ tree depth exceeds maximum in search'' MAX_TREE_DEPTH root rowid"

definition push_row :: "reader \<Rightarrow> bytes \<Rightarrow> hits \<Rightarrow> (hits \<times> bool) res" where
  "push_row rd data results =
     res_bind (reassemble_row rd data) (\<lambda>full.
     res_bind (extract_id full) (\<lambda>id. Inr (results @ [(id, full)], False)))"

definition scan_all :: "reader \<Rightarrow> nat \<Rightarrow> u32 \<Rightarrow> hits res" where
  "scan_all rd mx root =
     res_bind (find_leftmost_leaf rd root) (\<lambda>first_leaf.
     walk rd next_leaf
       (\<lambda>p. fold_until (on_row row_bounds p (push_row rd)) [0..<unat (num_rows p)])
       ''leaf chain cycle detected in scan_all'' mx first_leaf [])"

definition cap_reached :: "nat option \<Rightarrow> hits \<Rightarrow> bool" where
  "cap_reached stop_after results \<longleftrightarrow> (case stop_after of Some cap \<Rightarrow> cap \<le> length results | None \<Rightarrow> False)"

definition keep_row :: "reader \<Rightarrow> (bytes \<Rightarrow> bool res) \<Rightarrow> bytes \<Rightarrow> hits \<Rightarrow> (hits \<times> bool) res" where
  "keep_row rd keep data results =
     res_bind (reassemble_row rd data) (\<lambda>full.
     res_bind (keep full) (\<lambda>b.
     if b then res_bind (extract_id full) (\<lambda>id. Inr (results @ [(id, full)], False))
     else Inr (results, False)))"

definition scan_all_matching ::
  "reader \<Rightarrow> nat \<Rightarrow> u32 \<Rightarrow> (bytes \<Rightarrow> bool res) \<Rightarrow> nat option \<Rightarrow> hits res" where
  "scan_all_matching rd mx root keep stop_after =
     res_bind (find_leftmost_leaf rd root) (\<lambda>first_leaf.
     walk rd next_leaf
       (\<lambda>p results.
          res_bind
            (fold_until (\<lambda>i results.
                if cap_reached stop_after results then Inr (results, True)
                else on_row row_bounds p (keep_row rd keep) i results)
              [0..<unat (num_rows p)] results)
            (\<lambda>(results, stop). Inr (results, stop \<or> cap_reached stop_after results)))
       ''leaf chain cycle detected in scan_all_matching'' mx first_leaf [])"

text \<open>The state of a batch lookup: the rows found and the rowids from \<^verbatim>\<open>rid_idx\<close> on.\<close>

definition take_wanted ::
  "reader \<Rightarrow> bytes \<Rightarrow> bytes list \<times> u64 list \<Rightarrow> ((bytes list \<times> u64 list) \<times> bool) res" where
  "take_wanted rd data = (\<lambda>(results, rest).
     res_bind (res_ok (extract_id data)) (\<lambda>r.
     case r of
       None \<Rightarrow> Inr ((results, rest), False)
     | Some rowid \<Rightarrow>
         (case dropWhile (\<lambda>rid. rid < rowid) rest of
            [] \<Rightarrow> Inr ((results, []), True)
          | rid # rest' \<Rightarrow>
              if rid = rowid then
                res_bind (reassemble_row rd data) (\<lambda>full. Inr ((results @ [full], rest'), False))
              else Inr ((results, rid # rest'), False))))"

definition multi_get_sorted :: "reader \<Rightarrow> nat \<Rightarrow> u32 \<Rightarrow> u64 list \<Rightarrow> bytes list res" where
  "multi_get_sorted rd mx root rowids =
     (case rowids of
        [] \<Rightarrow> Inr []
      | rid # _ \<Rightarrow>
          res_bind (find_leaf_for_rowid rd root rid) (\<lambda>leaf.
          res_bind
            (walk rd next_leaf
              (\<lambda>p s. res_bind (fold_until (on_row row_bounds p (take_wanted rd)) [0..<unat (num_rows p)] s)
                 (\<lambda>((results, rest), stop). Inr ((results, rest), stop \<or> rest = [])))
              ''leaf chain cycle detected in multi_get_sorted'' mx leaf ([], rowids))
            (\<lambda>(results, _). Inr results)))"

text \<open>
  One row of a filtered scan: the inline bytes decide when the column is found there or the row has
  no overflow part; otherwise the row is reassembled, and the whole row is handed on.
\<close>

definition or_null :: "db_value option \<Rightarrow> db_value" where
  "or_null v = (case v of Some v \<Rightarrow> v | None \<Rightarrow> Null)"

definition filtered_match ::
  "reader \<Rightarrow> u16 \<Rightarrow> filter_op \<Rightarrow> db_value \<Rightarrow> db_value option \<Rightarrow> bytes \<Rightarrow> (bool \<times> bytes option) res" where
  "filtered_match rd col op val absent_default data =
     res_bind (res_ok (extract_column_raw data col)) (\<lambda>raw.
     case raw of
       Some (Some b) \<Rightarrow>
         (case eval_filter_raw b op val of
            Some m \<Rightarrow> Inr (m, None)
          | None \<Rightarrow>
              res_bind (extract_column data col) (\<lambda>v. Inr (eval_filter_op (or_null v) op val, None)))
     | _ \<Rightarrow>
         if has_overflow data then
           res_bind (reassemble_row rd data) (\<lambda>full.
           res_bind (extract_column full col) (\<lambda>v.
           let actual = (case v of Some v \<Rightarrow> v | None \<Rightarrow> or_null absent_default)
           in Inr (eval_filter_op actual op val, Some full)))
         else Inr (eval_filter_op (or_null absent_default) op val, None))"



definition count_row ::
  "reader \<Rightarrow> u16 \<Rightarrow> filter_op \<Rightarrow> db_value \<Rightarrow> bytes \<Rightarrow> nat \<Rightarrow> (nat \<times> bool) res" where
  "count_row rd col op val data k =
     res_bind (filtered_match rd col op val None data) (\<lambda>(m, _).
     Inr (if m then k + 1 else k, False))"

definition count_filtered :: "reader \<Rightarrow> nat \<Rightarrow> u32 \<Rightarrow> u16 \<Rightarrow> filter_op \<Rightarrow> db_value \<Rightarrow> nat res" where
  "count_filtered rd mx root col op val =
     res_bind (find_leftmost_leaf rd root) (\<lambda>first_leaf.
     walk rd next_leaf
       (\<lambda>p. fold_until (on_row row_bounds_raw p (count_row rd col op val)) [0..<unat (num_rows p)])
       ''leaf chain cycle detected in count_filtered'' mx first_leaf 0)"

text \<open>
  The cursor scan. Its state is the batch and the resume token, which is set when the batch is full
  and one more candidate shows up.
\<close>

definition beyond :: "sort_dir \<Rightarrow> u64 option \<Rightarrow> u64 \<Rightarrow> bool" where
  "beyond dir after rowid \<longleftrightarrow>
     (case after of None \<Rightarrow> True | Some rid \<Rightarrow> (case dir of Asc \<Rightarrow> \<not> rowid \<le> rid | Desc \<Rightarrow> \<not> rid \<le> rowid))"

definition last_rowid :: "hits \<Rightarrow> u64 option" where
  "last_rowid results = (if results = [] then None else Some (fst (last results)))"

definition batch_row ::
  "reader \<Rightarrow> sort_dir \<Rightarrow> u64 option \<Rightarrow> nat \<Rightarrow> (bytes \<Rightarrow> bool res) \<Rightarrow> bytes
     \<Rightarrow> hits \<times> u64 option \<Rightarrow> ((hits \<times> u64 option) \<times> bool) res" where
  "batch_row rd dir after limit keep data = (\<lambda>(results, resume).
     res_bind (res_ok (extract_id data)) (\<lambda>r.
     case r of
       None \<Rightarrow> Inr ((results, resume), False)
     | Some rowid \<Rightarrow>
         if \<not> beyond dir after rowid then Inr ((results, resume), False)
         else if limit \<le> length results then Inr ((results, last_rowid results), True)
         else
           res_bind (reassemble_row rd data) (\<lambda>full.
           res_bind (keep full) (\<lambda>b.
           Inr ((if b then results @ [(rowid, full)] else results, resume), False)))))"

definition scan_from ::
  "reader \<Rightarrow> nat \<Rightarrow> u32 \<Rightarrow> u64 option \<Rightarrow> sort_dir \<Rightarrow> u32 \<Rightarrow> (bytes \<Rightarrow> bool res) \<Rightarrow> (hits \<times> u64 option) res"
where
  "scan_from rd mx root after dir limit keep =
     (if limit = 0 then Inr ([], None)
      else case dir of
        Asc \<Rightarrow>
          res_bind (case after of
              Some rid \<Rightarrow> find_leaf_for_rowid rd root rid
            | None \<Rightarrow> find_leftmost_leaf rd root) (\<lambda>start_leaf.
          walk rd next_leaf
            (\<lambda>p. fold_until (on_row row_bounds p (batch_row rd Asc after (unat limit) keep))
               [0..<unat (num_rows p)])
            ''leaf chain cycle detected in scan_from(Asc)'' mx start_leaf ([], None))
      | Desc \<Rightarrow>
          res_bind (case after of
              Some rid \<Rightarrow> find_leaf_for_rowid rd root rid
            | None \<Rightarrow> find_rightmost_leaf rd root) (\<lambda>start_leaf.
          walk rd prev_leaf
            (\<lambda>p. fold_until (on_row row_bounds p (batch_row rd Desc after (unat limit) keep))
               (rev [0..<unat (num_rows p)]))
            ''leaf chain cycle detected in scan_from(Desc)'' mx start_leaf ([], None)))"

section \<open>The row tree\<close>

text \<open>
  The row stored by the bytes in a leaf, and the invariant: the pages read through \<open>rd\<close> are the tree
  \<open>t\<close>, with its leaf chain complete, keys in order, no page used twice or numbered 0, and every
  stored row readable from the overflow pages \<open>P\<close>, with the rowid of its inline bytes.
\<close>

definition row_at :: "reader \<Rightarrow> bytes \<Rightarrow> bytes" where
  "row_at rd r = (case reassemble_row rd r of Inr full \<Rightarrow> full | Inl _ \<Rightarrow> [])"

definition stored :: "reader \<Rightarrow> u32 set \<Rightarrow> bytes \<Rightarrow> bool" where
  "stored rd P r \<longleftrightarrow> 8 \<le> length r
     \<and> (\<exists>full. stands_for rd P r full \<and> 8 \<le> length full \<and> row_id full = row_id r)"

definition row_tree :: "reader \<Rightarrow> u32 set \<Rightarrow> u64 btree \<Rightarrow> bool" where
  "row_tree rd P t \<longleftrightarrow>
     branches_at branch_page rd t \<and> chain_ok rd 0 (leaves t) 0 \<and> in_range row_id None None t
     \<and> 0 \<notin> set (tree_pages t) \<and> distinct (tree_pages t) \<and> P \<inter> set (tree_pages t) = {}
     \<and> (\<forall>r \<in> set (tree_rows t). stored rd P r)"

definition entry_of :: "reader \<Rightarrow> bytes \<Rightarrow> u64 \<times> bytes" where
  "entry_of rd r = (row_id r, row_at rd r)"

definition contents :: "reader \<Rightarrow> u64 btree \<Rightarrow> hits" where
  "contents rd t = map (entry_of rd) (tree_rows t)"

lemma stored_row:
  assumes "stored rd P r"
  shows "8 \<le> length r" "r \<noteq> []" "reassemble_row rd r = Inr (row_at rd r)" "extract_id r = Inr (row_id r)"
    "extract_id (row_at rd r) = Inr (row_id r)"
proof -
  obtain full where full: "stands_for rd P r full" "8 \<le> length full" "row_id full = row_id r"
    using assms by (auto simp: stored_def)
  have r: "reassemble_row rd r = Inr full" using full(1) by (rule stands_for_read)
  then have at: "row_at rd r = full" by (simp add: row_at_def)
  show "8 \<le> length r" using assms by (simp add: stored_def)
  then show "r \<noteq> []" "extract_id r = Inr (row_id r)" by (auto simp: extract_id_row)
  show "reassemble_row rd r = Inr (row_at rd r)" "extract_id (row_at rd r) = Inr (row_id r)"
    using r at full by (simp_all add: extract_id_row)
qed

lemma row_treeD:
  assumes "row_tree rd P t"
  shows "branches_at branch_page rd t" "chain_ok rd 0 (leaves t) 0" "ordered row_id t"
    "0 \<notin> fst ` set (leaves t)" "distinct (map fst (leaves t))" "leaves t \<noteq> []"
    "\<And>r. r \<in> set (tree_rows t) \<Longrightarrow> stored rd P r"
  using assms row_branch.leaves_ne in_range_ordered by (auto simp: row_tree_def tree_pages_def)

lemma row_tree_visit:
  assumes t: "row_tree rd P t" and split: "leaves t = as @ bs" "bs \<noteq> []" and mx: "length bs \<le> mx"
    and visit: "\<And>p nx pv rows s. leaf_page p nx pv rows \<Longrightarrow> [] \<notin> set rows \<Longrightarrow>
      set rows \<subseteq> set (leaf_rows bs) \<Longrightarrow> visit p s = Inr (V rows s)"
  shows "walk rd next_leaf visit err mx (first_page bs 0) s = Inr (walk_rows V (map snd bs) s)"
proof -
  note d = row_treeD [OF t]
  have "set rows \<subseteq> set (leaf_rows bs) \<and> [] \<notin> set rows" if "rows \<in> snd ` set bs" for rows
    using that d(7) split stored_row(2) by (force simp: tree_rows_def leaf_rows_def)
  moreover have "chain_ok rd (last_page 0 as) bs 0" using d(2) split(1) by (simp add: chain_ok_append)
  ultimately show ?thesis
    using d(4) split mx visit by (intro walk_chain) auto
qed

lemma row_tree_walk:
  assumes t: "row_tree rd P t" and split: "leaves t = as @ bs" "bs \<noteq> []" and mx: "length bs \<le> mx"
    and f: "\<And>r s. r \<in> set (leaf_rows bs) \<Longrightarrow> f r s = Inr (g r s)"
    and b: "bounds = row_bounds \<or> bounds = row_bounds_raw"
  shows "walk rd next_leaf (\<lambda>p. fold_until (on_row bounds p f) [0..<unat (num_rows p)]) err mx
      (first_page bs 0) s = Inr (fst (fold_stop g (leaf_rows bs) s))"
proof -
  have "fold_until (on_row bounds p f) [0..<unat (num_rows p)] s = Inr (fold_stop g rows s)"
    if "leaf_page p nx pv rows" "[] \<notin> set rows" "set rows \<subseteq> set (leaf_rows bs)" for p nx pv rows s
    using leaf_fold(1) [OF that(1,2) b, of f s] fold_until_pure [of rows f g s] f that(3) by auto
  from row_tree_visit [OF t split mx this] show ?thesis
    by (simp add: walk_rows_fold leaf_rows_def)
qed

lemma find_leaf_row:
  assumes "row_tree rd P t" "height t \<le> k"
  shows "find_leaf rd (child_for key) err k (root_of t) = Inr (fst (leaf_for t key))"
    and "find_leaf rd (\<lambda>p. get_branch_child p 0) err k (root_of t) = Inr (first_page (leaves t) 0)"
proof -
  note d = row_treeD [OF assms(1)]
  show "find_leaf rd (child_for key) err k (root_of t) = Inr (fst (leaf_for t key))"
    using row_branch.find_leaf_key [of rd t 0 "[]" "[]" 0 k key err] d(1,2) assms(2)
    by (simp add: child_for_def [abs_def])
  show "find_leaf rd (\<lambda>p. get_branch_child p 0) err k (root_of t) = Inr (first_page (leaves t) 0)"
    using row_branch.find_leaf_first [of rd t 0 "[]" 0 k err] d(1,2,6) assms(2)
    by (simp add: first_page_def split: list.splits)
qed

lemma leftmost_walk:
  assumes "row_tree rd P t" "height t \<le> MAX_TREE_DEPTH" "length (leaves t) \<le> mx"
    and "\<And>r s. r \<in> set (tree_rows t) \<Longrightarrow> f r s = Inr (g r s)"
    and "bounds = row_bounds \<or> bounds = row_bounds_raw"
  shows "res_bind (find_leftmost_leaf rd (root_of t)) (\<lambda>first_leaf.
      walk rd next_leaf (\<lambda>p. fold_until (on_row bounds p f) [0..<unat (num_rows p)]) err mx first_leaf s)
    = Inr (fst (fold_stop g (tree_rows t) s))"
  using row_tree_walk [OF assms(1), of "[]" "leaves t" mx f g bounds err s] row_treeD(6) [OF assms(1)]
    assms find_leaf_row(2) [OF assms(1,2)]
  by (simp add: find_leftmost_leaf_def tree_rows_def)





section \<open>Lookup and full scan\<close>

lemma search_recursive_find:
  "search_recursive rd err k pg rowid =
     res_bind (find_leaf rd (child_for rowid) err k pg) (\<lambda>n. res_bind (rd n) (search_leaf rd rowid))"
proof (induction k arbitrary: pg)
  case (Suc k)
  have child: "child_for rowid p = (case find_child p rowid of Inl e \<Rightarrow> Inl e | Inr (_, c) \<Rightarrow> Inr c)" for p
    by (simp add: child_for_def res_bind_def split: sum.split)
  show ?case
  proof (cases "rd pg")
    case (Inr p)
    then show ?thesis by (cases "find_child p rowid") (auto simp: child Suc.IH)
  qed simp
qed simp

lemma sorted_keys_unique:
  assumes "sorted_wrt (<) (map key rs)" "r \<in> set rs" "r' \<in> set rs" "key r = (key r' :: 'k::linorder)"
  shows "r = r'"
proof -
  have "inj_on key (set rs)" using assms(1) strict_sorted_iff [of "map key rs"] by (simp add: distinct_map)
  with assms show ?thesis by (auto dest: inj_onD)
qed

lemma map_of_rows:
  assumes "sorted_wrt (<) (map row_id rs)"
  shows "map_of (map (entry_of rd) rs) k =
    (if k \<in> row_id ` set rs then Some (row_at rd (THE r. r \<in> set rs \<and> row_id r = k)) else None)"
proof (cases "k \<in> row_id ` set rs")
  case True
  then obtain r where r: "r \<in> set rs" "row_id r = k" by auto
  have the: "(THE r. r \<in> set rs \<and> row_id r = k) = r"
    using r sorted_keys_unique [OF assms] by (intro the_equality) auto
  have "distinct (map fst (map (entry_of rd) rs))"
    using assms strict_sorted_iff [of "map row_id rs"] by (simp add: comp_def entry_of_def)
  with True r the show ?thesis by (auto intro!: map_of_is_SomeI simp: entry_of_def)
qed (auto simp: map_of_eq_None_iff entry_of_def)

lemma map_of_row:
  assumes "sorted_wrt (<) (map row_id rs)" "r \<in> set rs"
  shows "map_of (map (entry_of rd) rs) (row_id r) = Some (row_at rd r)"
proof -
  have "(THE x. x \<in> set rs \<and> row_id x = row_id r) = r"
    using sorted_keys_unique [OF assms(1) _ assms(2)] assms(2) by (intro the_equality) auto
  then show ?thesis using assms by (simp add: map_of_rows)
qed

lemma search_run:
  assumes t: "row_tree rd P t" and h: "height t \<le> k"
  shows "search_recursive rd err k (root_of t) key = Inr (map_of (contents rd t) key)"
proof -
  note d = row_treeD [OF t]
  obtain n rows where leaf: "leaf_for t key = (n, rows)" by (cases "leaf_for t key")
  obtain as bs where split: "leaves t = as @ (n, rows) # bs" "\<forall>r \<in> set (leaf_rows as). row_id r < key"
    "\<forall>r \<in> set (leaf_rows bs). key < row_id r"
    using leaf_for_split [OF d(3), of key] leaf by auto
  then have rows: "tree_rows t = leaf_rows as @ rows @ leaf_rows bs" by (simp add: tree_rows_def)
  obtain p where p: "rd n = Inr p" "leaf_page p (first_page bs 0) (last_page 0 as) rows"
    using chain_ok_leaf d(2) split(1) by metis
  have sorted: "sorted_wrt (<) (map row_id (tree_rows t))" by (rule ordered_sorted [OF d(3)])
  then have rs: "rows_sorted rows"
    using d(7) stored_row(1) rows by (fastforce simp: rows_sorted_def sorted_wrt_append)
  have run: "search_recursive rd err k (root_of t) key = search_leaf rd key p"
    using find_leaf_row(1) [OF t h] leaf p(1) by (simp add: search_recursive_find)
  show ?thesis
  proof (cases "key \<in> row_id ` set rows")
    case False
    then have "map_of (contents rd t) key = None"
      using split(2,3) rows by (auto simp: contents_def map_of_eq_None_iff entry_of_def)
    moreover have "search_leaf rd key p = Inr None"
      using find_insertion_point_absent [OF p(2) rs False] by (auto simp: search_leaf_def Let_def)
    ultimately show ?thesis using run by simp
  next
    case True
    then obtain i where i: "i < length rows" "row_id (rows ! i) = key" by (auto simp: in_set_conv_nth)
    have st: "stored rd P (rows ! i)" using d(7) i(1) rows by simp
    have "row_slice row_bounds p i (unat (num_rows p)) = Inr (Some (rows ! i))"
      using row_slice_leaf [OF p(2) i(1) stored_row(2) [OF st]] by simp
    then have "search_leaf rd key p = Inr (Some (row_at rd (rows ! i)))"
      using find_insertion_point_found [OF p(2) rs i] i(1) leaf_pageD(9) [OF p(2)] stored_row(3) [OF st]
      by (auto simp: search_leaf_def Let_def)
    then show ?thesis
      using run map_of_row [OF sorted, of "rows ! i" rd] i rows by (simp add: contents_def)
  qed
qed

lemma scan_all_run:
  assumes t: "row_tree rd P t" and h: "height t \<le> MAX_TREE_DEPTH" "length (leaves t) \<le> mx"
  shows "scan_all rd mx (root_of t) = Inr (contents rd t)"
proof -
  let ?g = "\<lambda>r s. (s @ [entry_of rd r], False)"
  have "push_row rd r s = Inr (?g r s)" if "r \<in> set (tree_rows t)" for r s
    using stored_row [OF row_treeD(7) [OF t that]] by (simp add: push_row_def entry_of_def)
  then have "scan_all rd mx (root_of t) = Inr (fst (fold_stop ?g (tree_rows t) []))"
    unfolding scan_all_def by (intro leftmost_walk [OF t h]) auto
  moreover have "fold (\<lambda>r s. s @ [entry_of rd r]) rs s = s @ map (entry_of rd) rs" for rs s
    by (induction rs arbitrary: s) simp_all
  ultimately show ?thesis by (simp add: fold_stop_never contents_def)
qed

section \<open>Bounded scan and batch lookup\<close>

text \<open>A page-level check that agrees with the row-level one does not change the result.\<close>

lemma walk_rows_end:
  assumes "\<And>x s. finished s \<Longrightarrow> g x s = (s, True)"
  shows "walk_rows (\<lambda>rows s. (fst (fold_stop g rows s), snd (fold_stop g rows s) \<or> finished (fst (fold_stop g rows s))))
      rss s = fst (fold_stop g (concat rss) s)"
proof (induction rss arbitrary: s)
  case (Cons rows rss)
  have "fst (fold_stop g xs s) = s" if "finished s" for xs s
    using assms [OF that] by (cases xs) simp_all
  with Cons show ?case by (simp add: fold_stop_append)
qed simp

definition take_opt :: "nat option \<Rightarrow> 'a list \<Rightarrow> 'a list" where
  "take_opt n xs = (case n of None \<Rightarrow> xs | Some k \<Rightarrow> take k xs)"

lemma capped_fold:
  assumes "\<And>r s. g r s = (if cap_reached n s then (s, True) else (if K r then s @ [e r] else s, False))"
    and "take_opt n s = s"
  shows "fst (fold_stop g xs s) = take_opt n (s @ map e (filter K xs))"
  using assms(2)
proof (induction xs arbitrary: s)
  case (Cons x xs)
  show ?case
  proof (cases "cap_reached n s")
    case True
    then show ?thesis using Cons.prems by (auto simp: assms(1) cap_reached_def take_opt_def split: option.splits)
  next
    case False
    then have "take_opt n (s @ [e x]) = s @ [e x]"
      by (auto simp: cap_reached_def take_opt_def split: option.splits)
    with False Cons show ?thesis by (simp add: assms(1))
  qed
qed simp

lemma scan_all_matching_run:
  assumes t: "row_tree rd P t" and h: "height t \<le> MAX_TREE_DEPTH" "length (leaves t) \<le> mx"
    and K: "\<And>e. e \<in> set (contents rd t) \<Longrightarrow> keep (snd e) = Inr (K (snd e))"
  shows "scan_all_matching rd mx (root_of t) keep n =
    Inr (take_opt n (filter (\<lambda>e. K (snd e)) (contents rd t)))"
proof -
  define g where "g r s = (if cap_reached n s then (s, True)
    else (if K (row_at rd r) then s @ [entry_of rd r] else s, False))" for r s
  let ?f = "\<lambda>p i s. if cap_reached n s then Inr (s, True) else on_row row_bounds p (keep_row rd keep) i s"
  let ?V = "\<lambda>rows s. (fst (fold_stop g rows s), snd (fold_stop g rows s) \<or> cap_reached n (fst (fold_stop g rows s)))"
  have row: "keep_row rd keep r s = Inr (if K (row_at rd r) then s @ [entry_of rd r] else s, False)"
    if "r \<in> set (tree_rows t)" for r s
    using stored_row [OF row_treeD(7) [OF t that]] K [of "entry_of rd r"] that
    by (auto simp: keep_row_def entry_of_def contents_def)
  have "fold_until (?f p) [0..<unat (num_rows p)] s = Inr (fold_stop g rows s)"
    if p: "leaf_page p nx pv rows" "[] \<notin> set rows" "set rows \<subseteq> set (leaf_rows (leaves t))" for p nx pv rows s
  proof -
    have sl: "row_slice row_bounds p i (unat (num_rows p)) = Inr (Some (rows ! i))"
      if "i < length rows" for i
      using row_slice_leaf [OF p(1) that] p(2) nth_mem [OF that] by metis
    have "?f p i s = Inr (g (rows ! i) s)" if "i < length rows" for i s
      using row [of "rows ! i"] p(3) nth_mem [OF that] sl [OF that] by (auto simp: on_row_def g_def tree_rows_def)
    then have "fold_until (?f p) [0..<length rows] s = fold_until (\<lambda>r s. Inr (g r s)) (map ((!) rows) [0..<length rows]) s"
      by (intro fold_until_map) simp
    then show ?thesis
      using leaf_pageD(9) [OF p(1)] fold_until_pure [of rows "\<lambda>r s. Inr (g r s)" g s] by (simp add: map_nth)
  qed
  then have "walk rd next_leaf (\<lambda>p s. res_bind (fold_until (?f p) [0..<unat (num_rows p)] s)
       (\<lambda>(s, stop). Inr (s, stop \<or> cap_reached n s))) err mx (first_page (leaves t) 0) []
     = Inr (walk_rows ?V (map snd (leaves t)) [])" for err
    using row_tree_visit [OF t, of "[]" "leaves t" mx _ ?V err "[]"] row_treeD(6) [OF t] h(2)
    by (simp add: case_prod_beta)
  moreover have "walk_rows ?V (map snd (leaves t)) [] = fst (fold_stop g (tree_rows t) [])"
    using walk_rows_end [of "cap_reached n" g] by (simp add: g_def tree_rows_def leaf_rows_def)
  moreover have "fst (fold_stop g (tree_rows t) []) =
      take_opt n ([] @ map (entry_of rd) (filter (\<lambda>r. K (row_at rd r)) (tree_rows t)))"
    by (rule capped_fold) (auto simp: g_def take_opt_def split: option.split)
  ultimately show ?thesis
    using find_leaf_row(2) [OF t h(1)]
    by (simp add: scan_all_matching_def find_leftmost_leaf_def contents_def filter_map comp_def entry_of_def)
qed

definition wanted :: "reader \<Rightarrow> bytes \<Rightarrow> bytes list \<times> u64 list \<Rightarrow> (bytes list \<times> u64 list) \<times> bool" where
  "wanted rd r = (\<lambda>(results, rest).
     (case dropWhile (\<lambda>rid. rid < row_id r) rest of
        [] \<Rightarrow> ((results, []), True)
      | rid # rest' \<Rightarrow>
          if rid = row_id r then ((results @ [row_at rd r], rest'), False)
          else ((results, rid # rest'), False)))"

lemma dropWhile_less_mem:
  "sorted rest \<Longrightarrow> k \<le> (x :: 'k::linorder) \<Longrightarrow> x \<in> set rest \<longleftrightarrow> x \<in> set (dropWhile (\<lambda>y. y < k) rest)"
  by (induction rest) auto

lemma wanted_fold:
  assumes "sorted rest" "sorted_wrt (<) (map row_id rs)"
  shows "fst (fst (fold_stop (wanted rd) rs (results, rest))) =
    results @ map (row_at rd) (filter (\<lambda>r. row_id r \<in> set rest) rs)"
  using assms
proof (induction rs arbitrary: results rest)
  case (Cons r rs)
  define d where "d = dropWhile (\<lambda>rid. rid < row_id r) rest"
  have sd: "sorted d" using Cons.prems(1) by (simp add: d_def sorted_dropWhile)
  have later: "row_id r < row_id x" if "x \<in> set rs" for x using Cons.prems(2) that by simp
  have mem: "row_id x \<in> set rest \<longleftrightarrow> row_id x \<in> set d" if "x \<in> set (r # rs)" for x
    unfolding d_def using that later Cons.prems(1) by (intro dropWhile_less_mem) (auto intro: less_imp_le)
  then have flt: "filter (\<lambda>x. row_id x \<in> set rest) (r # rs) = filter (\<lambda>x. row_id x \<in> set d) (r # rs)"
    by (intro filter_cong) auto
  have sorted: "sorted_wrt (<) (map row_id rs)" using Cons.prems(2) by simp
  show ?case
  proof (cases d)
    case Nil
    then show ?thesis by (simp only: flt) (simp add: wanted_def d_def [symmetric])
  next
    case (Cons rid rest')
    have ge: "row_id r \<le> rid" using Cons dropWhile_eq_Cons_conv [of "\<lambda>rid. rid < row_id r" rest rid rest']
      by (simp only: d_def) (simp add: not_less)
    show ?thesis
    proof (cases "rid = row_id r")
      case True
      have "filter (\<lambda>x. row_id x \<in> set d) rs = filter (\<lambda>x. row_id x \<in> set rest') rs"
      proof (intro filter_cong refl)
        fix x assume "x \<in> set rs"
        then have "row_id x \<noteq> row_id r" using later [of x] by simp
        then show "(row_id x \<in> set d) = (row_id x \<in> set rest')" using True Cons by simp
      qed
      then show ?thesis
        using Cons.IH [OF _ sorted, of rest'] sd True Cons \<open>d = rid # rest'\<close>
        by (simp only: flt) (simp add: wanted_def d_def [symmetric])
    next
      case False
      then have "row_id r \<notin> set d" using ge sd Cons by auto
      then show ?thesis
        using Cons.IH [OF sd sorted] False Cons \<open>d = rid # rest'\<close>
        by (simp only: flt) (simp add: wanted_def d_def [symmetric])
    qed
  qed
qed simp

lemma multi_get_sorted_run:
  assumes t: "row_tree rd P t" and h: "height t \<le> MAX_TREE_DEPTH" "length (leaves t) \<le> mx"
    and rids: "sorted rowids"
  shows "multi_get_sorted rd mx (root_of t) rowids =
    Inr (map snd (filter (\<lambda>e. fst e \<in> set rowids) (contents rd t)))"
proof (cases rowids)
  case Nil
  then show ?thesis by (simp add: multi_get_sorted_def)
next
  case (Cons rid rids')
  note d = row_treeD [OF t]
  obtain as bs where split: "leaves t = as @ leaf_for t rid # bs" "\<forall>r \<in> set (leaf_rows as). row_id r < rid"
    using leaf_for_split [OF d(3), of rid] by auto
  let ?bs = "leaf_for t rid # bs"
  have rows: "tree_rows t = leaf_rows as @ leaf_rows ?bs"
    unfolding tree_rows_def split(1) by (simp only: leaf_rows_simps)
  let ?V = "\<lambda>rows s. (fst (fold_stop (wanted rd) rows s), snd (fold_stop (wanted rd) rows s)
      \<or> snd (fst (fold_stop (wanted rd) rows s)) = [])"
  have row: "take_wanted rd r s = Inr (wanted rd r s)" if "r \<in> set (tree_rows t)" for r s
    using stored_row [OF d(7) [OF that]]
    by (simp add: take_wanted_def wanted_def case_prod_beta del: dropWhile_eq_Nil_conv split: list.split)
  have "fold_until (on_row row_bounds p (take_wanted rd)) [0..<unat (num_rows p)] s =
      Inr (fold_stop (wanted rd) rows s)"
    if p: "leaf_page p nx pv rows" "[] \<notin> set rows" "set rows \<subseteq> set (leaf_rows ?bs)" for p nx pv rows s
    using leaf_fold(1) [OF p(1,2), of row_bounds "take_wanted rd" s] row p(3) rows
      fold_until_pure [of rows "take_wanted rd" "wanted rd" s] by auto
  then have "walk rd next_leaf (\<lambda>p s. res_bind (fold_until (on_row row_bounds p (take_wanted rd)) [0..<unat (num_rows p)] s)
       (\<lambda>((results, rest), stop). Inr ((results, rest), stop \<or> rest = []))) err mx (first_page ?bs 0) ([], rowids)
     = Inr (walk_rows ?V (map snd ?bs) ([], rowids))" for err
    using row_tree_visit [OF t split(1), of mx _ ?V err "([], rowids)"] h(2) split(1)
    by (simp add: case_prod_beta)
  moreover have "walk_rows ?V (map snd ?bs) ([], rowids) = fst (fold_stop (wanted rd) (leaf_rows ?bs) ([], rowids))"
    unfolding leaf_rows_def by (rule walk_rows_end) (auto simp: wanted_def)
  moreover have "first_page ?bs 0 = fst (leaf_for t rid)" by (simp add: first_page_def case_prod_beta)
  ultimately have run: "multi_get_sorted rd mx (root_of t) rowids =
      Inr (fst (fst (fold_stop (wanted rd) (leaf_rows ?bs) ([], rowids))))"
    using find_leaf_row(1) [OF t h(1)] Cons
    by (simp add: multi_get_sorted_def find_leaf_for_rowid_def case_prod_beta)
  have "sorted_wrt (<) (map row_id (leaf_rows ?bs))"
    using ordered_sorted [OF d(3)] by (simp only: rows map_append sorted_wrt_append)
  from wanted_fold [OF rids this, of rd "[]"]
  have "fst (fst (fold_stop (wanted rd) (leaf_rows ?bs) ([], rowids))) =
      map (row_at rd) (filter (\<lambda>r. row_id r \<in> set rowids) (leaf_rows ?bs))" by simp
  moreover have "filter (\<lambda>r. row_id r \<in> set rowids) (leaf_rows as) = []"
    using split(2) rids Cons by (fastforce simp: filter_empty_conv)
  ultimately show ?thesis
    by (simp only: run contents_def rows)
       (simp add: filter_map comp_def entry_of_def)
qed

section \<open>The cursor scan\<close>

definition cursor_row ::
  "reader \<Rightarrow> (u64 \<Rightarrow> bool) \<Rightarrow> nat \<Rightarrow> (bytes \<Rightarrow> bool) \<Rightarrow> bytes \<Rightarrow> hits \<times> u64 option \<Rightarrow> (hits \<times> u64 option) \<times> bool"
where
  "cursor_row rd B limit K r = (\<lambda>(results, resume).
     if \<not> B (row_id r) then ((results, resume), False)
     else if limit \<le> length results then ((results, last_rowid results), True)
     else ((if K (row_at rd r) then results @ [entry_of rd r] else results, resume), False))"

definition cursor_hits :: "(u64 \<Rightarrow> bool) \<Rightarrow> (bytes \<Rightarrow> bool) \<Rightarrow> hits \<Rightarrow> hits" where
  "cursor_hits B K es = filter (\<lambda>e. B (fst e) \<and> K (snd e)) es"

lemma cursor_fold:
  assumes "length results \<le> limit" "0 < limit"
  shows "\<exists>res tok. fst (fold_stop (cursor_row rd B limit K) xs (results, None)) = (res, tok) \<and> length res \<le> limit
    \<and> (case tok of None \<Rightarrow> res = results @ cursor_hits B K (map (entry_of rd) xs)
       | Some _ \<Rightarrow> length res = limit \<and> tok = last_rowid res
           \<and> (\<exists>ys zs. xs = ys @ zs \<and> res = results @ cursor_hits B K (map (entry_of rd) ys)))"
  using assms(1)
proof (induction xs arbitrary: results)
  case (Cons x xs)
  show ?case
  proof (cases "B (row_id x) \<and> limit \<le> length results")
    case True
    then show ?thesis
      using Cons.prems assms(2) by (auto simp: cursor_row_def cursor_hits_def last_rowid_def intro: exI [of _ "[]"])
  next
    case False
    let ?r = "if B (row_id x) \<and> K (row_at rd x) then results @ [entry_of rd x] else results"
    have step: "fst (fold_stop (cursor_row rd B limit K) (x # xs) (results, None)) =
        fst (fold_stop (cursor_row rd B limit K) xs (?r, None))"
      using False by (auto simp: cursor_row_def)
    have hits: "?r @ cursor_hits B K (map (entry_of rd) ys) = results @ cursor_hits B K (map (entry_of rd) (x # ys))" for ys
      by (simp add: cursor_hits_def entry_of_def)
    have "length ?r \<le> limit" using False Cons.prems by auto
    from Cons.IH [OF this] obtain res tok where ih:
      "fst (fold_stop (cursor_row rd B limit K) xs (?r, None)) = (res, tok)" "length res \<le> limit"
      "case tok of None \<Rightarrow> res = ?r @ cursor_hits B K (map (entry_of rd) xs)
       | Some _ \<Rightarrow> length res = limit \<and> tok = last_rowid res
           \<and> (\<exists>ys zs. xs = ys @ zs \<and> res = ?r @ cursor_hits B K (map (entry_of rd) ys))"
      by blast
    have "case tok of None \<Rightarrow> res = results @ cursor_hits B K (map (entry_of rd) (x # xs))
       | Some _ \<Rightarrow> length res = limit \<and> tok = last_rowid res
           \<and> (\<exists>ys zs. x # xs = ys @ zs \<and> res = results @ cursor_hits B K (map (entry_of rd) ys))"
    proof (cases tok)
      case None
      then show ?thesis using ih(3) hits by simp
    next
      case (Some rid)
      then obtain ys zs where "xs = ys @ zs" "res = ?r @ cursor_hits B K (map (entry_of rd) ys)"
        using ih(3) by auto
      then have "x # xs = (x # ys) @ zs \<and> res = results @ cursor_hits B K (map (entry_of rd) (x # ys))"
        using hits [of ys] by simp
      then have "\<exists>ys zs. x # xs = ys @ zs \<and> res = results @ cursor_hits B K (map (entry_of rd) ys)"
        by blast
      moreover have "length res = limit" "tok = last_rowid res" using ih(3) Some by auto
      ultimately show ?thesis unfolding Some option.case by blast
    qed
    then show ?thesis using ih(1,2) step by auto
  qed
qed (auto simp: cursor_hits_def)

text \<open>
  What a batch promises: all hits when there is no token, and otherwise a full batch whose
  continuation from the token is exactly the rest.
\<close>

definition batch_ok :: "sort_dir \<Rightarrow> nat \<Rightarrow> hits \<Rightarrow> hits \<times> u64 option \<Rightarrow> bool" where
  "batch_ok dir limit hits b \<longleftrightarrow>
     (case snd b of
        None \<Rightarrow> fst b = hits \<and> length (fst b) \<le> limit
      | Some rid \<Rightarrow> length (fst b) = limit
          \<and> hits = fst b @ filter (\<lambda>e. beyond dir (Some rid) (fst e)) hits)"

lemma filter_after:
  assumes "sorted_wrt R (as @ bs)" "as \<noteq> []" "\<And>x y. R x y \<Longrightarrow> \<not> R y x"
  shows "filter (R (last as)) (as @ bs) = bs"
proof -
  have irr: "\<not> R x x" for x using assms(3) by blast
  have "\<not> R (last as) x" if "x \<in> set as" for x
  proof -
    obtain as' l where as: "as = as' @ [l]" using assms(2) by (cases as rule: rev_cases) auto
    then have "x = l \<or> R x l" using assms(1) that by (auto simp: sorted_wrt_append)
    then show ?thesis using as irr assms(3) by auto
  qed
  moreover have "R (last as) x" if "x \<in> set bs" for x
    using assms(1,2) that by (auto simp: sorted_wrt_append)
  ultimately show ?thesis by (simp add: filter_empty_conv filter_id_conv)
qed

lemma cursor_batch:
  assumes lim: "0 < limit" and s: "sorted_wrt (\<lambda>a b. beyond dir (Some a) b) (map row_id xs)"
  shows "batch_ok dir limit (cursor_hits B K (map (entry_of rd) xs))
    (fst (fold_stop (cursor_row rd B limit K) xs ([], None)))"
proof -
  let ?h = "\<lambda>xs. cursor_hits B K (map (entry_of rd) xs)"
  obtain res tok where f: "fst (fold_stop (cursor_row rd B limit K) xs ([], None)) = (res, tok)" "length res \<le> limit"
    "case tok of None \<Rightarrow> res = ?h xs
     | Some _ \<Rightarrow> length res = limit \<and> tok = last_rowid res \<and> (\<exists>ys zs. xs = ys @ zs \<and> res = ?h ys)"
    using cursor_fold [OF _ lim, of "[]" rd B K xs] by (simp only: append_Nil list.size) blast
  show ?thesis
  proof (cases tok)
    case None
    then show ?thesis using f by (simp add: batch_ok_def)
  next
    case (Some rid)
    with f(3) obtain ys zs where ys: "xs = ys @ zs" "res = ?h ys" "length res = limit" "tok = last_rowid res"
      by auto
    then have ne: "res \<noteq> []" "rid = fst (last res)" using lim Some by (auto simp: last_rowid_def)
    let ?R = "\<lambda>a b :: u64 \<times> bytes. beyond dir (Some (fst a)) (fst b)"
    have "sorted_wrt ?R (map (entry_of rd) xs)" using s by (simp add: sorted_wrt_map entry_of_def)
    then have "sorted_wrt ?R (?h xs)" by (simp add: cursor_hits_def sorted_wrt_filter)
    then have "sorted_wrt ?R (res @ ?h zs)" using ys by (simp add: cursor_hits_def)
    from filter_after [OF this ne(1)] have "filter (?R (last res)) (res @ ?h zs) = ?h zs"
      by (auto simp: beyond_def split: sort_dir.splits)
    then show ?thesis
      using f(1) Some ys ne(2) by (simp add: batch_ok_def cursor_hits_def)
  qed
qed

lemma batch_row_stored:
  assumes "stored rd P r" "keep (row_at rd r) = Inr (K (row_at rd r))"
  shows "batch_row rd dir after limit keep r s = Inr (cursor_row rd (beyond dir after) limit K r s)"
  using stored_row [OF assms(1)] assms(2)
  by (cases s) (simp add: batch_row_def cursor_row_def entry_of_def)

definition in_dir :: "sort_dir \<Rightarrow> 'a list \<Rightarrow> 'a list" where
  "in_dir dir xs = (case dir of Asc \<Rightarrow> xs | Desc \<Rightarrow> rev xs)"

lemma scan_from_asc:
  assumes t: "row_tree rd P t" and h: "height t \<le> MAX_TREE_DEPTH" "length (leaves t) \<le> mx"
    and K: "\<And>e. e \<in> set (contents rd t) \<Longrightarrow> keep (snd e) = Inr (K (snd e))" and lim: "limit \<noteq> 0"
  shows "\<exists>xs. scan_from rd mx (root_of t) after Asc limit keep =
      Inr (fst (fold_stop (cursor_row rd (beyond Asc after) (unat limit) K) xs ([], None)))
    \<and> (\<exists>ys. tree_rows t = ys @ xs \<and> (\<forall>r \<in> set ys. \<not> beyond Asc after (row_id r)))"
proof -
  note d = row_treeD [OF t]
  obtain as bs where split: "leaves t = as @ bs" "bs \<noteq> []"
    and start: "(case after of Some rid \<Rightarrow> find_leaf_for_rowid rd (root_of t) rid
      | None \<Rightarrow> find_leftmost_leaf rd (root_of t)) = Inr (first_page bs 0)"
    and before: "\<forall>r \<in> set (leaf_rows as). \<not> beyond Asc after (row_id r)"
  proof (cases after)
    case None
    then show ?thesis
      using that [of "[]" "leaves t"] d(6) find_leaf_row(2) [OF t h(1)] by (simp add: find_leftmost_leaf_def)
  next
    case (Some rid)
    obtain as bs where "leaves t = as @ leaf_for t rid # bs" "\<forall>r \<in> set (leaf_rows as). row_id r < rid"
      using leaf_for_split [OF d(3), of rid] by auto
    then show ?thesis
      using that [of as "leaf_for t rid # bs"] Some find_leaf_row(1) [OF t h(1)]
      by (force simp: find_leaf_for_rowid_def beyond_def first_page_def case_prod_beta intro: less_imp_le)
  qed
  have rows: "tree_rows t = leaf_rows as @ leaf_rows bs" by (simp add: tree_rows_def split(1))
  have "batch_row rd Asc after (unat limit) keep r s =
      Inr (cursor_row rd (beyond Asc after) (unat limit) K r s)" if "r \<in> set (leaf_rows bs)" for r s
    using that rows d(7) K [of "entry_of rd r"] by (intro batch_row_stored) (auto simp: contents_def entry_of_def)
  from row_tree_walk [where mx = mx and bounds = row_bounds, OF t split _ this] h(2) split(1) start lim before rows
  show ?thesis by (intro exI [of _ "leaf_rows bs"]) (auto simp: scan_from_def)
qed

lemma row_tree_walk_back:
  assumes t: "row_tree rd P t" and split: "leaves t = as @ bs" "as \<noteq> []" and mx: "length as \<le> mx"
    and f: "\<And>r s. r \<in> set (leaf_rows as) \<Longrightarrow> f r s = Inr (g r s)"
  shows "walk rd prev_leaf (\<lambda>p. fold_until (on_row row_bounds p f) (rev [0..<unat (num_rows p)])) err mx
      (last_page 0 as) s = Inr (fst (fold_stop g (rev (leaf_rows as)) s))"
proof -
  note d = row_treeD [OF t]
  have visit: "fold_until (on_row row_bounds p f) (rev [0..<unat (num_rows p)]) s = Inr (fold_stop g (rev rows) s)"
    if p: "leaf_page p nx pv rows" and rows: "rows \<in> snd ` set as" for p nx pv rows s
  proof -
    have "set rows \<subseteq> set (leaf_rows as)" "[] \<notin> set rows"
      using rows d(7) split stored_row(2) by (force simp: tree_rows_def leaf_rows_def)+
    then show ?thesis
      using leaf_fold(2) [OF p, of row_bounds f s] fold_until_pure [of "rev rows" f g s] f by auto
  qed
  have "chain_ok rd 0 as (first_page bs 0)" using d(2) split(1) by (simp add: chain_ok_append)
  then have "walk rd prev_leaf (\<lambda>p. fold_until (on_row row_bounds p f) (rev [0..<unat (num_rows p)])) err mx
      (last_page 0 as) s = Inr (walk_rows (\<lambda>rows. fold_stop g (rev rows)) (rev (map snd as)) s)"
    using d(4) split mx visit by (intro walk_chain_back) auto
  then show ?thesis by (simp add: walk_rows_fold_rev leaf_rows_def)
qed

lemma scan_from_desc:
  assumes t: "row_tree rd P t" and h: "height t \<le> MAX_TREE_DEPTH" "length (leaves t) \<le> mx"
    and K: "\<And>e. e \<in> set (contents rd t) \<Longrightarrow> keep (snd e) = Inr (K (snd e))" and lim: "limit \<noteq> 0"
  shows "\<exists>xs. scan_from rd mx (root_of t) after Desc limit keep =
      Inr (fst (fold_stop (cursor_row rd (beyond Desc after) (unat limit) K) xs ([], None)))
    \<and> (\<exists>ys. rev (tree_rows t) = ys @ xs \<and> (\<forall>r \<in> set ys. \<not> beyond Desc after (row_id r)))"
proof -
  note d = row_treeD [OF t]
  obtain as l bs where split: "leaves t = (as @ [l]) @ bs"
    and start: "(case after of Some rid \<Rightarrow> find_leaf_for_rowid rd (root_of t) rid
      | None \<Rightarrow> find_rightmost_leaf rd (root_of t)) = Inr (fst l)"
    and above: "\<forall>r \<in> set (leaf_rows bs). \<not> beyond Desc after (row_id r)"
  proof (cases after)
    case None
    have "leaf_for t (- 1) = last (leaves t)" by (rule row_branch.leaf_for_top [OF d(1)]) simp
    then show ?thesis
      using that [of "butlast (leaves t)" "last (leaves t)" "[]"] d(6) None find_leaf_row(1) [OF t h(1)]
      by (simp add: find_rightmost_leaf_def)
  next
    case (Some rid)
    obtain as bs where "leaves t = as @ leaf_for t rid # bs" "\<forall>r \<in> set (leaf_rows bs). rid < row_id r"
      using leaf_for_split [OF d(3), of rid] by auto
    then show ?thesis
      using that [of as "leaf_for t rid" bs] Some find_leaf_row(1) [OF t h(1)]
      by (auto simp: find_leaf_for_rowid_def beyond_def less_imp_le)
  qed
  have rows: "tree_rows t = leaf_rows (as @ [l]) @ leaf_rows bs"
    by (simp only: tree_rows_def split leaf_rows_simps(3))
  have f: "batch_row rd Desc after (unat limit) keep r s =
      Inr (cursor_row rd (beyond Desc after) (unat limit) K r s)" if "r \<in> set (leaf_rows (as @ [l]))" for r s
    using that rows d(7) K [of "entry_of rd r"] by (intro batch_row_stored) (auto simp: contents_def entry_of_def)
  have "length (as @ [l]) \<le> mx" "last_page 0 (as @ [l]) = fst l"
    using h(2) split by (simp_all add: last_page_def)
  with row_tree_walk_back [where mx = mx, OF t split _ _ f] start lim above rows
  show ?thesis
    by (intro exI [of _ "rev (leaf_rows (as @ [l]))"])
       (auto simp: scan_from_def intro!: exI [of _ "rev (leaf_rows bs)"])
qed

lemma scan_from_run:
  assumes t: "row_tree rd P t" and h: "height t \<le> MAX_TREE_DEPTH" "length (leaves t) \<le> mx"
    and K: "\<And>e. e \<in> set (contents rd t) \<Longrightarrow> keep (snd e) = Inr (K (snd e))" and lim: "limit \<noteq> 0"
  shows "\<exists>b. scan_from rd mx (root_of t) after dir limit keep = Inr b
    \<and> batch_ok dir (unat limit) (cursor_hits (beyond dir after) K (in_dir dir (contents rd t))) b"
proof -
  obtain xs ys where run: "scan_from rd mx (root_of t) after dir limit keep =
      Inr (fst (fold_stop (cursor_row rd (beyond dir after) (unat limit) K) xs ([], None)))"
    and ys: "in_dir dir (tree_rows t) = ys @ xs" "\<forall>r \<in> set ys. \<not> beyond dir after (row_id r)"
    using scan_from_asc [where K = K and keep = keep, OF t h K lim, of after]
      scan_from_desc [where K = K and keep = keep, OF t h K lim, of after]
    by (cases dir) (force simp: in_dir_def)+
  have "sorted_wrt (<) (map row_id (tree_rows t))" by (rule ordered_sorted [OF row_treeD(3) [OF t]])
  then have "sorted_wrt (\<lambda>a b. beyond dir (Some a) b) (map row_id (in_dir dir (tree_rows t)))"
    by (cases dir) (auto simp: in_dir_def beyond_def sorted_wrt_rev rev_map [symmetric] not_le)
  then have sorted: "sorted_wrt (\<lambda>a b. beyond dir (Some a) b) (map row_id xs)"
    by (simp add: ys(1) sorted_wrt_append)
  have "0 < unat limit" using lim by (simp add: word_neq_0_conv unat_gt_0)
  from cursor_batch [OF this sorted, of "beyond dir after" K rd]
  have "batch_ok dir (unat limit) (cursor_hits (beyond dir after) K (map (entry_of rd) xs))
      (fst (fold_stop (cursor_row rd (beyond dir after) (unat limit) K) xs ([], None)))" .
  moreover have "in_dir dir (contents rd t) = map (entry_of rd) (ys @ xs)"
    unfolding ys(1) [symmetric] by (cases dir) (simp_all add: in_dir_def contents_def rev_map)
  then have "cursor_hits (beyond dir after) K (in_dir dir (contents rd t)) =
      cursor_hits (beyond dir after) K (map (entry_of rd) xs)"
    using ys(2) by (simp add: cursor_hits_def entry_of_def filter_empty_conv)
  ultimately show ?thesis using run by simp
qed

section \<open>Filtered scan and count\<close>

text \<open>
  Leaves whose rows are encodings of columns, in the leaf or, cut behind 4064 bytes, with the rest on
  overflow pages. A filtered scan handles the rows of the first kind, and those of the second whose
  filter column ends in the leaf or is absent.
\<close>

definition encoded_rows :: "reader \<Rightarrow> (bytes \<Rightarrow> columns) \<Rightarrow> bytes list \<Rightarrow> bool" where
  "encoded_rows rd cols_of rs \<longleftrightarrow>
     (\<forall>r \<in> set rs. row_ok (cols_of r) \<and> row_at rd r = encode_row (row_id r) (cols_of r)
        \<and> (has_overflow r \<longrightarrow> cut_row (row_at rd r) r))"

definition filter_ready :: "(bytes \<Rightarrow> columns) \<Rightarrow> u16 \<Rightarrow> bytes \<Rightarrow> bool" where
  "filter_ready cols_of c r \<longleftrightarrow> (has_overflow r \<longrightarrow> ends_inline (cols_of r) c)"

definition column_or :: "db_value option \<Rightarrow> columns \<Rightarrow> u16 \<Rightarrow> db_value" where
  "column_or absent_default cols c = (case map_of cols c of Some v \<Rightarrow> v | None \<Rightarrow> or_null absent_default)"

lemma filtered_match_ready:
  assumes rows: "encoded_rows rd cols_of rs" "r \<in> set rs" and st: "stored rd P r" and ready: "filter_ready cols_of c r"
  shows "\<exists>full. filtered_match rd c op val dflt r = Inr (eval_filter_op (column_or dflt (cols_of r) c) op val, full)
    \<and> (full = None \<or> full = Some (row_at rd r))"
proof -
  have r: "row_ok (cols_of r)" "row_at rd r = encode_row (row_id r) (cols_of r)" "has_overflow r \<Longrightarrow> cut_row (row_at rd r) r"
    using rows by (auto simp: encoded_rows_def)
  have plain: "row_at rd r = r" if "\<not> has_overflow r" using that by (simp add: row_at_def reassemble_row_def)
  have full: "extract_column (row_at rd r) c = Inr (map_of (cols_of r) c)"
    "extract_column_raw (row_at rd r) c = Inr (map_option encode_value_to_vec (map_of (cols_of r) c))"
    using extract_column_row [OF r(1), of "row_id r" c] r(2) by simp_all
  have read: "reassemble_row rd r = Inr (row_at rd r)" by (rule stored_row(3) [OF st])
  show ?thesis
  proof (cases "map_of (cols_of r) c")
    case None
    have "extract_column_raw r c = Inr None"
    proof (cases "has_overflow r")
      case True
      then show ?thesis using cut_column(2) [OF r(1), of "row_id r" r c] r(2,3) ready None by (simp add: filter_ready_def)
    qed (use full(2) plain None in simp)
    then show ?thesis using full(1) read None by (simp add: filtered_match_def column_or_def)
  next
    case (Some v)
    have ex: "extract_column r c = Inr (Some v)" "extract_column_raw r c = Inr (Some (encode_value_to_vec v))"
    proof (atomize (full), cases "has_overflow r")
      case True
      then show "extract_column r c = Inr (Some v) \<and> extract_column_raw r c = Inr (Some (encode_value_to_vec v))"
        using cut_column(1) [OF r(1), of "row_id r" r c v] r(2,3) ready Some by (simp add: filter_ready_def)
    qed (use full plain Some in simp)
    have "value_fits v" using r(1) map_of_SomeD [OF Some] by (fastforce simp: row_ok_def row_fits_def)
    then show ?thesis
      using Some ex eval_filter_raw_agrees [of v op val]
      by (auto simp: filtered_match_def column_or_def or_null_def split: option.split)
  qed
qed








lemma count_filtered_run:
  assumes t: "row_tree rd P t" and h: "height t \<le> MAX_TREE_DEPTH" "length (leaves t) \<le> mx"
    and rows: "encoded_rows rd cols_of (tree_rows t)" "\<forall>r \<in> set (tree_rows t). filter_ready cols_of c r"
  shows "count_filtered rd mx (root_of t) c op val =
    Inr (length (filter (\<lambda>r. eval_filter_op (column_or None (cols_of r) c) op val) (tree_rows t)))"
proof -
  let ?M = "\<lambda>r. eval_filter_op (column_or None (cols_of r) c) op val"
  let ?g = "\<lambda>r k. (if ?M r then k + 1 else k :: nat, False)"
  have "count_row rd c op val r k = Inr (?g r k)" if "r \<in> set (tree_rows t)" for r k
    using filtered_match_ready [OF rows(1) that row_treeD(7) [OF t that], of c op val None] rows(2) that
    by (auto simp: count_row_def)
  then have "count_filtered rd mx (root_of t) c op val = Inr (fst (fold_stop ?g (tree_rows t) 0))"
    unfolding count_filtered_def by (intro leftmost_walk [OF t h]) auto
  moreover have "fold (\<lambda>r k. if ?M r then k + 1 else k) rs k = k + length (filter ?M rs)" for rs k
    by (induction rs arbitrary: k) simp_all
  ultimately show ?thesis by (simp add: fold_stop_never)
qed

section \<open>Bounds and samples\<close>

lemma chain_pages_bound:
  assumes c: "chain_ok (view_page crc f) 0 ls 0" and d: "distinct (map fst ls)"
  shows "length ls \<le> unat (page_count f)"
proof -
  have "unat n < unat (page_count f)" if "n \<in> fst ` set ls" for n
  proof -
    from that obtain rows as bs where "ls = as @ (n, rows) # bs"
      by (metis imageE prod.collapse split_list)
    then obtain p where "view_page crc f n = Inr p" using chain_ok_leaf c by metis
    then show ?thesis by (auto simp: view_page_eq page_count_def word_less_nat_alt not_le split: if_splits)
  qed
  then have "unat ` fst ` set ls \<subseteq> {..<unat (page_count f)}" by auto
  then have "card (unat ` fst ` set ls) \<le> unat (page_count f)"
    using card_mono [of "{..<unat (page_count f)}"] by fastforce
  moreover have "card (unat ` fst ` set ls) = length ls"
    using distinct_card [OF d] card_image [OF inj_onI, of "fst ` set ls" unat]
    by (simp add: word_unat_eq_iff)
  ultimately show ?thesis by simp
qed

lemma leaves_bound: "row_tree (view_page crc f) P t \<Longrightarrow> length (leaves t) \<le> unat (page_count f)"
  using chain_pages_bound row_treeD(2,5) by blast

definition sample_row :: "u8 \<Rightarrow> bytes" where
  "sample_row b = [b, 0, 0, 0, 0, 0, 0, 0, 7]"

definition sample_tree :: "u64 btree" where
  "sample_tree = BNode 3 [BLeaf 1 [sample_row 1, sample_row 2], BLeaf 2 [sample_row 5]] [5]"

lemma sample_row_stored: "stored rd P (sample_row b)" "row_at rd (sample_row b) = sample_row b"
  "row_id (sample_row b) = ucast b"
proof -
  have n: "\<not> has_overflow (sample_row b)" by (simp add: has_overflow_def sample_row_def)
  then have "stands_for rd P (sample_row b) (sample_row b)" by (simp add: stands_for_def reassemble_row_def)
  then show "stored rd P (sample_row b)" by (auto simp: stored_def sample_row_def)
  show "row_at rd (sample_row b) = sample_row b" using n by (simp add: row_at_def reassemble_row_def)
  show "row_id (sample_row b) = ucast b" by (simp add: sample_row_def row_id_sample)
qed

lemma sample_file:
  "\<exists>f. row_tree (view_page crc f) {} sample_tree \<and> pf_dirty f = [] \<and> page_count f = 4 \<and> pf_new_count f = 0"
proof -
  obtain p1 where p1: "leaf_page p1 2 0 [sample_row 1, sample_row 2]"
    using leaf_exists [of "[sample_row 1, sample_row 2]" 2 0] by (auto simp: leaf_size_def sample_row_def)
  obtain p2 where p2: "leaf_page p2 0 1 [sample_row 5]"
    using leaf_exists [of "[sample_row 5]" 0 1] by (auto simp: leaf_size_def sample_row_def)
  obtain p3 where p3: "branch_page p3 [1, 2] [5]"
    using rebuild_branch [of "new_branch crc" "[1, 2]" "[5]"] by auto
  let ?f = "(page_file_open [])\<lparr>pf_num_pages := 4, pf_pages := [None, Some p1, Some p2, Some p3]\<rparr>"
  have v: "view_page crc ?f 1 = Inr p1" "view_page crc ?f 2 = Inr p2" "view_page crc ?f 3 = Inr p3"
    by (simp_all add: view_page_eq cache_get_def word_le_nat_alt)
  have "row_tree (view_page crc ?f) {} sample_tree"
    using v p1 p2 p3 sample_row_stored
    by (simp add: row_tree_def sample_tree_def tree_pages_def in_range_node)
  then show ?thesis by (intro exI [of _ ?f]) (simp add: page_file_open_def page_count_def)
qed

lemma sample_tree_facts:
  "height sample_tree \<le> MAX_TREE_DEPTH" "root_of sample_tree = 3"
  "contents rd sample_tree = [(1, sample_row 1), (2, sample_row 2), (5, sample_row 5)]"
  by (simp_all add: sample_tree_def contents_def entry_of_def sample_row_stored)

section \<open>Properties\<close>

text \<open>C23. A point lookup in a file that holds a row tree answers as the map of the tree's contents: the
  whole row stored under the rowid, overflow part included, or nothing.\<close>

theorem search_correct:
  assumes "row_tree (view_page crc f) P t" "height t \<le> MAX_TREE_DEPTH"
  shows "search (view_page crc f) (root_of t) k = Inr (map_of (contents (view_page crc f) t) k)"
  unfolding search_def by (rule search_run [OF assms])

theorem search_correct_witness:
  "\<exists>f. row_tree (view_page (\<lambda>_. 0) f) {} sample_tree \<and> search (view_page (\<lambda>_. 0) f) 3 5 = Inr (Some (sample_row 5))
     \<and> search (view_page (\<lambda>_. 0) f) 3 4 = Inr None"
proof -
  obtain f where f: "row_tree (view_page (\<lambda>_. 0) f) {} sample_tree" using sample_file [of "\<lambda>_. 0"] by blast
  from search_correct [OF f sample_tree_facts(1)] f show ?thesis
    by (auto simp: sample_tree_facts)
qed

text \<open>A full scan returns every row of the tree exactly once, in rowid order: the walk along the
  leaf chain never meets the bound on visited pages.\<close>

theorem scan_all_correct:
  assumes "row_tree (view_page crc f) P t" "height t \<le> MAX_TREE_DEPTH"
  shows "scan_all (view_page crc f) (unat (page_count f)) (root_of t) = Inr (contents (view_page crc f) t)
    \<and> sorted_wrt (<) (map fst (contents (view_page crc f) t))"
  using scan_all_run [OF assms leaves_bound [OF assms(1)]] ordered_sorted [OF row_treeD(3) [OF assms(1)]]
  by (simp add: contents_def entry_of_def comp_def)

theorem scan_all_correct_witness:
  "\<exists>f. scan_all (view_page (\<lambda>_. 0) f) 4 3 = Inr [(1, sample_row 1), (2, sample_row 2), (5, sample_row 5)]"
proof -
  obtain f where f: "row_tree (view_page (\<lambda>_. 0) f) {} sample_tree" "page_count f = 4" using sample_file [of "\<lambda>_. 0"] by blast
  from scan_all_correct [OF f(1) sample_tree_facts(1)] f(2) show ?thesis
    by (auto simp: sample_tree_facts)
qed

text \<open>A batch lookup of ascending rowids returns exactly the rows of the tree with one of these
  rowids, in rowid order.\<close>

theorem multi_get_sorted_correct:
  assumes "row_tree (view_page crc f) P t" "height t \<le> MAX_TREE_DEPTH" "sorted rowids"
  shows "multi_get_sorted (view_page crc f) (unat (page_count f)) (root_of t) rowids =
    Inr (map snd (filter (\<lambda>e. fst e \<in> set rowids) (contents (view_page crc f) t)))"
  by (rule multi_get_sorted_run [OF assms(1,2) leaves_bound [OF assms(1)] assms(3)])

theorem multi_get_sorted_correct_witness:
  "\<exists>f. multi_get_sorted (view_page (\<lambda>_. 0) f) 4 3 [2, 3, 5] = Inr [sample_row 2, sample_row 5]"
proof -
  obtain f where f: "row_tree (view_page (\<lambda>_. 0) f) {} sample_tree" "page_count f = 4" using sample_file [of "\<lambda>_. 0"] by blast
  from multi_get_sorted_correct [OF f(1) sample_tree_facts(1), of "[2, 3, 5]"] f(2) show ?thesis
    by (auto simp: sample_tree_facts)
qed

text \<open>C24. One batch of the cursor scan, in either direction: without a resume token it holds every
  matching row strictly beyond the start, and with one it is full and the matching rows beyond the
  token are exactly those it left out, so a client that follows the tokens sees each row once.\<close>

theorem scan_from_batches:
  assumes "row_tree (view_page crc f) P t" "height t \<le> MAX_TREE_DEPTH" "limit \<noteq> 0"
  shows "\<exists>b. scan_from (view_page crc f) (unat (page_count f)) (root_of t) after dir limit (\<lambda>r. Inr (K r)) = Inr b
    \<and> batch_ok dir (unat limit)
         (cursor_hits (beyond dir after) K (in_dir dir (contents (view_page crc f) t))) b"
  by (rule scan_from_run [OF assms(1,2) leaves_bound [OF assms(1)] refl assms(3)])

theorem scan_from_batches_witness:
  "\<exists>f b. scan_from (view_page (\<lambda>_. 0) f) 4 3 (Some 5) Desc 1 (\<lambda>r. Inr True) = Inr b
     \<and> batch_ok Desc 1 [(2, sample_row 2), (1, sample_row 1)] b"
proof -
  obtain f where f: "row_tree (view_page (\<lambda>_. 0) f) {} sample_tree" "page_count f = 4" using sample_file [of "\<lambda>_. 0"] by blast
  have "cursor_hits (beyond Desc (Some 5)) (\<lambda>_. True) (in_dir Desc (contents (view_page (\<lambda>_. 0) f) sample_tree))
      = [(2, sample_row 2), (1, sample_row 1)]"
    by (simp add: sample_tree_facts in_dir_def cursor_hits_def beyond_def word_le_nat_alt)
  with scan_from_batches [OF f(1) sample_tree_facts(1), of 1 "Some 5" Desc "\<lambda>_. True"] f(2) show ?thesis
    by (auto simp: sample_tree_facts)
qed








end
