(* ===== verification/Page_Ops.thy ===== *)
theory Page_Ops
  imports Btree_Reader
begin

text \<open>
  What the writers of the row tree and of the index trees share: changing a page in place, placing a
  row in a leaf, splitting a leaf, and the branch operations over any branch format. The files
  \<^verbatim>\<open>src/btree.rs\<close> and \<^verbatim>\<open>src/index.rs\<close> hold the same code for different page
  formats; here the format is a parameter, with its laws in the locale \<open>branch_ops\<close>.
\<close>

section \<open>Operations\<close>

text \<open>\<^verbatim>\<open>write_page(n)?\<close> followed by changes \<open>g\<close> to the page it hands out.\<close>

definition edit_page :: "(bytes \<Rightarrow> u32) \<Rightarrow> u32 \<Rightarrow> (page \<Rightarrow> page res) \<Rightarrow> unit guarded" where
  "edit_page crc n g = sm_bind (write_page crc n) (\<lambda>p. sm_bind (sm_lift (g p)) (put_page n))"

text \<open>
  The split of a leaf: \<open>mid\<close> is where the code cuts the rows with the new one in place, \<open>sep\<close>
  the separator it reads there.
\<close>

definition split_leaf ::
  "(bytes \<Rightarrow> u32) \<Rightarrow> 'k res \<Rightarrow> u32 \<Rightarrow> page \<Rightarrow> nat \<Rightarrow> nat \<Rightarrow> bytes \<Rightarrow> nat \<Rightarrow> 'k insert_result guarded" where
  "split_leaf crc sep page_no snapshot n pos row mid =
     sm_bind allocate_page (\<lambda>new_page_no.
     sm_bind (sm_lift sep) (\<lambda>separator.
     sm_bind (edit_page crc page_no (\<lambda>p.
       res_bind (write_leaf_range p snapshot n pos row 0 mid) (\<lambda>p.
       Inr (update_checksum crc (set_prev_leaf (set_next_leaf p new_page_no) (prev_leaf snapshot)))))) (\<lambda>_.
     sm_bind (sm_lift (
       res_bind (write_leaf_range (new_leaf crc) snapshot n pos row mid (n + 1)) (\<lambda>p.
       Inr (update_checksum crc (set_next_leaf (set_prev_leaf p page_no) (next_leaf snapshot)))))) (\<lambda>right_page.
     sm_bind (put_page new_page_no right_page) (\<lambda>_.
     sm_bind (if next_leaf snapshot \<noteq> 0
       then edit_page crc (next_leaf snapshot) (\<lambda>p. Inr (update_checksum crc (set_prev_leaf p new_page_no)))
       else sm_ret ()) (\<lambda>_.
     sm_ret (Split new_page_no separator)))))))"

definition write_in_place ::
  "(bytes \<Rightarrow> u32) \<Rightarrow> u32 \<Rightarrow> page \<Rightarrow> nat \<Rightarrow> nat \<Rightarrow> bytes \<Rightarrow> 'k insert_result guarded" where
  "write_in_place crc page_no snapshot n pos row =
     sm_bind (edit_page crc page_no (\<lambda>p.
       res_bind (write_leaf_with_insert p snapshot n pos row) (\<lambda>p. Inr (update_checksum crc p))))
     (\<lambda>_. sm_ret Fit)"

text \<open>The bytes the page needs with one more row of the given length.\<close>

definition needed_size :: "page \<Rightarrow> nat \<Rightarrow> nat \<Rightarrow> nat" where
  "needed_size p n len =
     (let offset_array_start = PAGE_HEADER_SIZE + n * 2;
          current_free = unat (free_space_offset p);
          existing_data_size =
            (if offset_array_start < current_free then current_free - offset_array_start else 0)
      in PAGE_HEADER_SIZE + (n + 1) * 2 + existing_data_size + len + CHECKSUM_SIZE)"

definition split_branch ::
  "(bytes \<Rightarrow> u32) \<Rightarrow> (page \<Rightarrow> u32 list \<Rightarrow> 'k list \<Rightarrow> page res)
     \<Rightarrow> u32 \<Rightarrow> u32 list \<Rightarrow> 'k list \<Rightarrow> 'k insert_result guarded" where
  "split_branch crc rebuild page_no new_children new_keys =
     (let mid = length new_keys div 2 in
      sm_bind (sm_lift (vec_get new_keys mid)) (\<lambda>split_key.
      sm_bind (edit_page crc page_no (\<lambda>p.
        res_bind (rebuild p (take (mid + 1) new_children) (take mid new_keys)) (\<lambda>p.
        Inr (update_checksum crc p)))) (\<lambda>_.
      sm_bind allocate_page (\<lambda>new_page_no.
      sm_bind (sm_lift (rebuild (new_branch crc) (drop (mid + 1) new_children)
        (drop (mid + 1) new_keys))) (\<lambda>new_page.
      sm_bind (put_page new_page_no (update_checksum crc new_page)) (\<lambda>_.
      sm_ret (Split new_page_no split_key)))))))"

definition branch_insert ::
  "(bytes \<Rightarrow> u32) \<Rightarrow> nat \<Rightarrow> (page \<Rightarrow> nat \<Rightarrow> 'k \<Rightarrow> u32 \<Rightarrow> page res) \<Rightarrow> (page \<Rightarrow> (u32 list \<times> 'k list) res)
     \<Rightarrow> (page \<Rightarrow> u32 list \<Rightarrow> 'k list \<Rightarrow> page res)
     \<Rightarrow> u32 \<Rightarrow> nat \<Rightarrow> 'k \<Rightarrow> u32 \<Rightarrow> 'k insert_result guarded" where
  "branch_insert crc max_keys insert_entry collect rebuild page_no child_idx separator new_child =
     sm_bind (sm_view (\<lambda>f. guard_view crc f page_no)) (\<lambda>p.
     if unat (num_rows p) < max_keys then
       sm_bind (edit_page crc page_no (\<lambda>p.
         res_bind (insert_entry p child_idx separator new_child) (\<lambda>p.
         Inr (update_checksum crc p)))) (\<lambda>_. sm_ret Fit)
     else
       sm_bind (sm_lift (collect p)) (\<lambda>(children, keys).
       sm_bind (sm_lift (vec_insert child_idx separator keys)) (\<lambda>new_keys.
       sm_bind (sm_lift (vec_insert (child_idx + 1) new_child children)) (\<lambda>new_children.
       split_branch crc rebuild page_no new_children new_keys))))"

definition branch_root ::
  "(bytes \<Rightarrow> u32) \<Rightarrow> (page \<Rightarrow> nat \<Rightarrow> u32 \<Rightarrow> 'k \<Rightarrow> page res) \<Rightarrow> (page \<Rightarrow> nat \<Rightarrow> u32 \<Rightarrow> page res)
     \<Rightarrow> u32 \<Rightarrow> u32 \<Rightarrow> 'k \<Rightarrow> u32 guarded" where
  "branch_root crc write_entry set_child root new_page separator =
     sm_bind allocate_page (\<lambda>new_root.
     sm_bind (sm_lift (
       res_bind (write_entry (new_branch crc) 0 root separator) (\<lambda>p.
       res_bind (set_child p 1 new_page) (\<lambda>p.
       Inr (update_checksum crc (set_num_rows p 1)))))) (\<lambda>root_page.
     sm_bind (put_page new_root root_page) (\<lambda>_. sm_ret new_root)))"

section \<open>Running them\<close>

lemma edit_run:
  assumes "guard_view crc f n = Inr p" "g p = Inr p'"
  shows "\<exists>f'. edit_page crc n g f = (Inr (), f') \<and> guard_view crc f' = (guard_view crc f)(n := Inr p')
    \<and> guard_next f' = guard_next f"
  using guard_store.modify_run [of crc f n p g p' sm_ret] assms by (simp add: edit_page_def)

lemma alloc_default_run:
  assumes "guard_next f < 2 ^ 32 - 1" "unat n = guard_next f"
  shows "\<exists>f1. allocate_page f = (Inr n, f1) \<and> guard_view crc f1 = (guard_view crc f)(n := Inr page_default)
    \<and> guard_next f1 = Suc (guard_next f)"
proof -
  have "n = of_nat (guard_next f)" by (simp add: assms(2) [symmetric])
  then show ?thesis using allocate_page_run [OF assms(1), of crc] by auto
qed

lemma put_run:
  "\<exists>f'. put_page n p f = (Inr (), f') \<and> guard_view crc f' = (guard_view crc f)(n := Inr p)
    \<and> guard_next f' = guard_next f"
  using guard_store.put_run [of n p f crc] by blast

lemma sm_bind_ex:
  assumes "\<exists>s1. m s = (Inr x, s1) \<and> P s1" "\<And>s1. P s1 \<Longrightarrow> \<exists>s'. f x s1 = (Inr y, s') \<and> R s'"
  shows "\<exists>s'. sm_bind m f s = (Inr y, s') \<and> R s'"
  using assms by (auto simp: sm_bind_def)

lemma write_in_place_run:
  assumes "guard_view crc f n = Inr p" "leaf_page p nx pv rows" "pos \<le> length rows"
    and "leaf_size (inserted pos r rows) \<le> PAGE_SIZE"
  shows "\<exists>f' q. write_in_place crc n p (length rows) pos r f = (Inr Fit, f')
    \<and> guard_view crc f' = (guard_view crc f)(n := Inr q) \<and> leaf_page q nx pv (inserted pos r rows)
    \<and> guard_next f' = guard_next f"
proof -
  obtain q where q: "write_leaf_with_insert p p (length rows) pos r = Inr q" "leaf_page q nx pv (inserted pos r rows)"
    using write_leaf_with_insert_leaf [OF assms(2,3) leaf_pageD(1,2) [OF assms(2)] assms(4)] by blast
  let ?g = "\<lambda>q. res_bind (write_leaf_with_insert q p (length rows) pos r) (\<lambda>q. Inr (update_checksum crc q))"
  have "?g p = Inr (update_checksum crc q)" using q(1) by simp
  from edit_run [OF assms(1), of ?g, OF this] obtain f' where
    "edit_page crc n ?g f = (Inr (), f')" "guard_view crc f' = (guard_view crc f)(n := Inr (update_checksum crc q))"
    "guard_next f' = guard_next f" by blast
  then show ?thesis
    using leaf_page_update_checksum [OF q(2)]
    by (intro exI [of _ f'] exI [of _ "update_checksum crc q"]) (simp add: write_in_place_def sm_bind_Inr)
qed

lemma write_in_place_result:
  assumes v: "guard_view crc f n = Inr p" and p: "leaf_page p nx pv rows" and n: "unat n < guard_next f"
    and pos: "pos \<le> length rows" "\<forall>x \<in> set (take pos rows). key x < k" "\<forall>x \<in> set (drop pos rows). k < key x"
    and fit: "leaf_size (inserted pos r rows) \<le> PAGE_SIZE"
    and Q: "Q (guard_view crc f1) ps r" and Qf: "\<forall>rd rd' ps r. Q rd ps r \<longrightarrow> (\<forall>n \<in> ps. rd' n = rd n) \<longrightarrow> Q rd' ps r"
    and r: "key r = k" and ps: "\<forall>x \<in> ps. guard_next f \<le> unat x \<and> unat x < guard_next f1"
    and g: "grows crc f f1" and b: "guard_next f1 \<le> guard_next f + budget"
  shows "\<exists>res f'. write_in_place crc n p (length rows) pos r f1 = (Inr res, f')
    \<and> leaf_result key k Q budget n nx pv rows (guard_view crc f) (guard_next f) res (guard_view crc f') (guard_next f')"
proof -
  have v1: "guard_view crc f1 n = Inr p" using g v n by (simp add: grows_def)
  obtain f' q where f': "write_in_place crc n p (length rows) pos r f1 = (Inr (Fit :: 'a insert_result), f')"
    "guard_view crc f' = (guard_view crc f1)(n := Inr q)" "leaf_page q nx pv (inserted pos r rows)"
    "guard_next f' = guard_next f1" using write_in_place_run [OF v1 p pos(1) fit] by blast
  have "n \<notin> ps" using ps n by auto
  then have "\<forall>m \<in> ps. guard_view crc f' m = guard_view crc f1 m" by (auto simp: f'(2))
  then have "Q (guard_view crc f') ps r" using Qf Q by blast
  then have "leaf_result key k Q budget n nx pv rows (guard_view crc f) (guard_next f) Fit (guard_view crc f') (guard_next f')"
    using f' pos b ps g r unfolding leaf_result_def insert_result.case grows_def
    by (intro exI [of _ r] exI [of _ ps] exI [of _ pos]) auto
  with f'(1) show ?thesis by blast
qed

text \<open>The page that a range of the rows is written to, linked and checksummed.\<close>

lemma write_half:
  assumes "leaf_page s nx pv rows" "pos \<le> length rows" "page_ok p" "magic p = MAGIC" "a \<le> b" "b \<le> Suc (length rows)"
    and "leaf_size (take (b - a) (drop a (inserted pos r rows))) \<le> PAGE_SIZE"
  obtains q where "write_leaf_range p s (length rows) pos r a b = Inr q"
    "leaf_page (update_checksum crc (set_prev_leaf (set_next_leaf q nx') pv')) nx' pv' (take (b - a) (drop a (inserted pos r rows)))"
    "leaf_page (update_checksum crc (set_next_leaf (set_prev_leaf q pv') nx')) nx' pv' (take (b - a) (drop a (inserted pos r rows)))"
  using write_leaf_range_leaf [OF assms(1-6) refl assms(7)] leaf_page_links leaf_page_update_checksum by blast

lemma split_leaf_run:
  assumes v: "guard_view crc f n = Inr p" and p: "leaf_page p nx pv rows"
    and pos: "pos \<le> length rows"
    and mid: "0 < mid" "mid \<le> length rows"
    and fits: "leaf_size (take mid (inserted pos r rows)) \<le> PAGE_SIZE" "leaf_size (drop mid (inserted pos r rows)) \<le> PAGE_SIZE"
    and nx: "nx \<noteq> 0 \<longrightarrow> nx \<noteq> n \<and> unat nx < guard_next f \<and> (\<exists>q nx' rs. guard_view crc f nx = Inr q \<and> leaf_page q nx' n rs)"
    and n: "unat n < guard_next f" and space: "guard_next f < 2 ^ 32 - 1" and m: "unat m = guard_next f"
  shows "\<exists>f'. split_leaf crc (Inr sep) n p (length rows) pos r mid f = (Inr (Split m sep), f')
    \<and> guard_next f' = Suc (guard_next f)
    \<and> (\<exists>q. guard_view crc f' n = Inr q \<and> leaf_page q m pv (take mid (inserted pos r rows)))
    \<and> (\<exists>q. guard_view crc f' m = Inr q \<and> leaf_page q nx n (drop mid (inserted pos r rows)))
    \<and> (\<forall>q nx' rs. nx \<noteq> 0 \<longrightarrow> guard_view crc f nx = Inr q \<longrightarrow> leaf_page q nx' n rs \<longrightarrow>
         (\<exists>q'. guard_view crc f' nx = Inr q' \<and> leaf_page q' nx' m rs))
    \<and> (\<forall>x. x \<noteq> m \<longrightarrow> x \<noteq> n \<longrightarrow> nx = 0 \<or> x \<noteq> nx \<longrightarrow> guard_view crc f' x = guard_view crc f x)"
proof -
  let ?R = "inserted pos r rows"
  have ne: "m \<noteq> n" "nx \<noteq> 0 \<Longrightarrow> nx \<noteq> m" "nx \<noteq> 0 \<Longrightarrow> n \<noteq> nx" using n m nx by auto
  obtain q1 where q1: "write_leaf_range p p (length rows) pos r 0 mid = Inr q1"
    "leaf_page (update_checksum crc (set_prev_leaf (set_next_leaf q1 m) pv)) m pv (take mid ?R)"
    using write_half [OF p pos leaf_pageD(1,2) [OF p], of 0 mid r crc m pv] mid fits(1) by auto
  obtain q2 where q2: "write_leaf_range (new_leaf crc) p (length rows) pos r mid (Suc (length rows)) = Inr q2"
    "leaf_page (update_checksum crc (set_next_leaf (set_prev_leaf q2 n) nx)) nx n (drop mid ?R)"
    using write_half [OF p pos, of "new_leaf crc" mid "Suc (length rows)" r crc nx n] mid fits(2) pos by auto
  let ?p1 = "update_checksum crc (set_prev_leaf (set_next_leaf q1 m) pv)"
    and ?p2 = "update_checksum crc (set_next_leaf (set_prev_leaf q2 n) nx)"
  obtain f1 where f1: "allocate_page f = (Inr m, f1)"
    "guard_view crc f1 = (guard_view crc f)(m := Inr page_default)" "guard_next f1 = Suc (guard_next f)"
    using alloc_default_run [OF space m] by blast
  let ?g = "\<lambda>q. res_bind (write_leaf_range q p (length rows) pos r 0 mid) (\<lambda>q.
      Inr (update_checksum crc (set_prev_leaf (set_next_leaf q m) (prev_leaf p))))"
  have "guard_view crc f1 n = Inr p" "?g p = Inr ?p1" using f1(2) v ne(1) q1(1) leaf_pageD(6) [OF p] by simp_all
  from edit_run [OF this(1), of ?g, OF this(2)] obtain f2 where f2: "edit_page crc n ?g f1 = (Inr (), f2)"
    "guard_view crc f2 = (guard_view crc f1)(n := Inr ?p1)" "guard_next f2 = guard_next f1" by blast
  obtain f3 where f3: "put_page m ?p2 f2 = (Inr (), f3)"
    "guard_view crc f3 = (guard_view crc f2)(m := Inr ?p2)" "guard_next f3 = guard_next f2"
    using put_run by blast
  let ?fix = "if nx \<noteq> 0 then edit_page crc nx (\<lambda>p. Inr (update_checksum crc (set_prev_leaf p m))) else sm_ret ()"
  have run: "split_leaf crc (Inr sep) n p (length rows) pos r mid f =
      sm_bind ?fix (\<lambda>_. sm_ret (Split m sep)) f3"
    using f1(1) f2(1) q2(1) f3(1) leaf_pageD(5) [OF p]
    by (simp add: split_leaf_def sm_bind_Inr [where m = allocate_page] sm_bind_Inr [where m = "edit_page crc n ?g"]
        sm_bind_Inr [where m = "put_page m ?p2"])
  have v3: "guard_view crc f3 = (guard_view crc f)(n := Inr ?p1, m := Inr ?p2)"
    unfolding f3(2) f2(2) f1(2) using ne(1) by (auto simp: fun_eq_iff)
  have n3: "guard_next f3 = Suc (guard_next f)" using f1(3) f2(3) f3(3) by simp
  show ?thesis
  proof (cases "nx = 0")
    case True
    then show ?thesis using run v3 n3 ne q1(2) q2(2) by (intro exI [of _ f3]) (simp add: sm_bind_def)
  next
    case False
    then obtain q nx' rs where q: "guard_view crc f nx = Inr q" "leaf_page q nx' n rs" using nx by blast
    have "guard_view crc f3 nx = Inr q" using v3 q(1) False nx ne(2) by simp
    from edit_run [OF this, of "\<lambda>p. Inr (update_checksum crc (set_prev_leaf p m))", OF refl] obtain f4
      where f4: "?fix f3 = (Inr (), f4)"
        "guard_view crc f4 = (guard_view crc f3)(nx := Inr (update_checksum crc (set_prev_leaf q m)))"
        "guard_next f4 = guard_next f3"
      using False by auto
    have "leaf_page (update_checksum crc (set_prev_leaf q m)) nx' m rs" if "leaf_page q nx' n rs" for nx' rs
      using that by (intro leaf_page_update_checksum leaf_page_links)
    then show ?thesis
      using run f4 v3 n3 ne q1(2) q2(2) q False nx by (intro exI [of _ f4]) (simp add: sm_bind_Inr)
  qed
qed

lemma leaf_row_size:
  assumes "leaf_page p nx pv rows" "x \<in> set rows" shows "length x \<le> 4074"
proof -
  obtain as bs where "rows = as @ x # bs" using assms(2) by (blast dest: split_list)
  then have "2 + length x + 20 \<le> leaf_size rows" by (simp add: leaf_size_sum)
  then show ?thesis using leaf_pageD(7) [OF assms(1)] by simp
qed

lemma needed_size_leaf:
  assumes "leaf_page p nx pv rows" "pos \<le> length rows"
  shows "needed_size p (length rows) (length r) = leaf_size (inserted pos r rows)"
proof -
  have "unat (free_space_offset p) = row_start rows (length rows)"
    using assms(1) leaf_pageD(12) [OF assms(1), of "length rows"] by (simp add: leaf_page_def)
  moreover have "length (concat (inserted pos r rows)) = length (concat rows) + length r"
    unfolding inserted_def by (metis (no_types, lifting) add.commute add.left_commute append_take_drop_id concat.simps(2)
        concat_append length_append)
  ultimately show ?thesis using assms(2) by (simp add: needed_size_def Let_def row_start_def leaf_size_def)
qed

lemma split_leaf_result:
  assumes v: "guard_view crc f n = Inr p" and p: "leaf_page p nx pv rows"
    and Q: "Q (guard_view crc f) ps r" and Qf: "\<forall>rd rd' ps r. Q rd ps r \<longrightarrow> (\<forall>n \<in> ps. rd' n = rd n) \<longrightarrow> Q rd' ps r"
    and r: "key r = k" and pos: "pos \<le> length rows"
    and ord: "\<forall>x \<in> set (take pos rows). key x < k" "\<forall>x \<in> set (drop pos rows). k < key x"
    and mid: "0 < mid" "mid \<le> length rows"
    and fits: "leaf_size (take mid (inserted pos r rows)) \<le> PAGE_SIZE" "leaf_size (drop mid (inserted pos r rows)) \<le> PAGE_SIZE"
    and nx: "nx \<noteq> 0 \<longrightarrow> nx \<noteq> n \<and> unat nx < fr \<and> (\<exists>q nx' rs. guard_view crc f nx = Inr q \<and> leaf_page q nx' n rs)"
    and n: "unat n < fr" and space: "guard_next f < 2 ^ 32 - 1" "fr \<le> guard_next f" "guard_next f + 1 \<le> fr + budget"
    and ps: "\<forall>x \<in> ps. fr \<le> unat x \<and> unat x < guard_next f"
    and old: "\<forall>x. unat x < fr \<longrightarrow> guard_view crc f x = rd x"
  shows "\<exists>res f'. split_leaf crc (Inr (key (inserted pos r rows ! mid))) n p (length rows) pos r mid f = (Inr res, f')
    \<and> leaf_result key k Q budget n nx pv rows rd fr res (guard_view crc f') (guard_next f')"
proof -
  define m :: u32 where "m = of_nat (guard_next f)"
  have m: "unat m = guard_next f" using space(1) by (simp add: m_def take_bit_nat_eq_self unsigned_of_nat)
  have nx': "nx \<noteq> 0 \<longrightarrow> nx \<noteq> n \<and> unat nx < guard_next f \<and> (\<exists>q nx' rs. guard_view crc f nx = Inr q \<and> leaf_page q nx' n rs)"
    using nx space(2) by auto
  have n': "unat n < guard_next f" using n space(2) by simp
  from split_leaf_run [OF v p pos mid fits nx' n' space(1) m, of "key (inserted pos r rows ! mid)"] obtain f' where
    run: "split_leaf crc (Inr (key (inserted pos r rows ! mid))) n p (length rows) pos r mid f = (Inr (Split m (key (inserted pos r rows ! mid))), f')"
    and gn: "guard_next f' = Suc (guard_next f)"
    and l: "\<exists>q. guard_view crc f' n = Inr q \<and> leaf_page q m pv (take mid (inserted pos r rows))"
    and rr: "\<exists>q. guard_view crc f' m = Inr q \<and> leaf_page q nx n (drop mid (inserted pos r rows))"
    and nn: "\<forall>q nx' rs. nx \<noteq> 0 \<longrightarrow> guard_view crc f nx = Inr q \<longrightarrow> leaf_page q nx' n rs \<longrightarrow>
         (\<exists>q'. guard_view crc f' nx = Inr q' \<and> leaf_page q' nx' m rs)"
    and same: "\<forall>x. x \<noteq> m \<longrightarrow> x \<noteq> n \<longrightarrow> nx = 0 \<or> x \<noteq> nx \<longrightarrow> guard_view crc f' x = guard_view crc f x"
    by blast
  obtain p1 p2 where l: "guard_view crc f' n = Inr p1" "leaf_page p1 m pv (take mid (inserted pos r rows))"
    and rr: "guard_view crc f' m = Inr p2" "leaf_page p2 nx n (drop mid (inserted pos r rows))"
    using l rr by blast
  have psm: "m \<notin> ps" using ps m by auto
  have "guard_view crc f' x = guard_view crc f x" if x: "x \<in> ps" for x
  proof -
    have "x \<noteq> n" "x \<noteq> m" "nx = 0 \<or> x \<noteq> nx" using ps x n nx psm by (auto simp: not_less [symmetric])
    then show ?thesis using same by blast
  qed
  then have Q': "Q (guard_view crc f') ps r" using Qf Q by blast
  have "leaf_result key k Q budget n nx pv rows rd fr
      (Split m (key (inserted pos r rows ! mid))) (guard_view crc f') (guard_next f')"
    unfolding leaf_result_def insert_result.case
  proof (intro exI conjI)
    show "key r = k" by (rule r)
    show "\<forall>x \<in> ps. fr \<le> unat x \<and> unat x < guard_next f'" using ps gn by auto
    show "\<forall>q nx' rs. nx \<noteq> 0 \<longrightarrow> rd nx = Inr q \<longrightarrow> leaf_page q nx' n rs \<longrightarrow>
        (\<exists>q'. guard_view crc f' nx = Inr q' \<and> leaf_page q' nx' m rs)"
      using nn old nx by metis
    show "\<forall>x. unat x < fr \<longrightarrow> x \<noteq> n \<longrightarrow> nx = 0 \<or> x \<noteq> nx \<longrightarrow> guard_view crc f' x = rd x"
      using same old m space(2) by (metis leD)
  qed (rule l rr | use Q' pos ord mid space gn m psm in simp)+
  with run show ?thesis by blast
qed

section \<open>The contract of the branch operations\<close>

text \<open>
  A branch format with room for \<open>cap\<close> keys satisfying \<open>okk\<close>, its pages read back by \<open>collect\<close>,
  rebuilt from two lists, and extended by one entry.
\<close>

locale branch_ops = branch_format rep find child_at
  for rep :: "page \<Rightarrow> u32 list \<Rightarrow> 'k::linorder list \<Rightarrow> bool"
    and find :: "page \<Rightarrow> 'k \<Rightarrow> (nat \<times> u32) res" and child_at :: "page \<Rightarrow> nat \<Rightarrow> u32 res" +
  fixes okk :: "'k \<Rightarrow> bool" and cap :: nat
    and insert_entry :: "page \<Rightarrow> nat \<Rightarrow> 'k \<Rightarrow> u32 \<Rightarrow> page res" and collect :: "page \<Rightarrow> (u32 list \<times> 'k list) res"
    and rebuild :: "page \<Rightarrow> u32 list \<Rightarrow> 'k list \<Rightarrow> page res"
    and write_entry :: "page \<Rightarrow> nat \<Rightarrow> u32 \<Rightarrow> 'k \<Rightarrow> page res" and set_child :: "page \<Rightarrow> nat \<Rightarrow> u32 \<Rightarrow> page res"
  assumes rep_page: "rep p cs ks \<Longrightarrow> page_ok p \<and> magic p = MAGIC \<and> unat (num_rows p) = length ks
      \<and> length ks \<le> cap \<and> (\<forall>k \<in> set ks. okk k)"
    and cap_pos: "0 < cap"
    and rep_checksum: "rep p cs ks \<Longrightarrow> rep (update_checksum crc p) cs ks"
    and collect_rep: "rep p cs ks \<Longrightarrow> collect p = Inr (cs, ks)"
    and rebuild_rep: "page_ok p \<Longrightarrow> magic p = MAGIC \<Longrightarrow> length cs = Suc (length ks) \<Longrightarrow> length ks \<le> cap \<Longrightarrow>
      \<forall>k \<in> set ks. okk k \<Longrightarrow> \<exists>p'. rebuild p cs ks = Inr p' \<and> rep p' cs ks"
    and insert_rep: "rep p cs ks \<Longrightarrow> i \<le> length ks \<Longrightarrow> length ks < cap \<Longrightarrow> okk k \<Longrightarrow>
      \<exists>p'. insert_entry p i k c = Inr p' \<and> rep p' (take (Suc i) cs @ c # drop (Suc i) cs) (take i ks @ k # drop i ks)"
    and root_rep: "okk k \<Longrightarrow> \<exists>q. res_bind (write_entry (new_branch crc) 0 c k) (\<lambda>p. res_bind (set_child p 1 c') (\<lambda>p.
      Inr (set_num_rows p 1))) = Inr q \<and> rep q [c, c'] [k]"
begin

lemma edit_branch_run:
  assumes "guard_view crc f n = Inr p" "g p = Inr q" "rep q cs ks"
  shows "\<exists>f' q'. edit_page crc n (\<lambda>p. res_bind (g p) (\<lambda>p. Inr (update_checksum crc p))) f = (Inr (), f')
    \<and> guard_view crc f' = (guard_view crc f)(n := Inr q') \<and> rep q' cs ks \<and> guard_next f' = guard_next f"
  using edit_run [OF assms(1), of "\<lambda>p. res_bind (g p) (\<lambda>p. Inr (update_checksum crc p))" "update_checksum crc q"]
    assms(2) rep_checksum [OF assms(3)] by auto

lemma split_branch_run:
  assumes v: "guard_view crc f n = Inr p" "page_ok p" "magic p = MAGIC"
    and len: "length cs = Suc (length ks)" "0 < length ks" "length ks \<le> 2 * cap" "\<forall>k \<in> set ks. okk k"
    and n: "unat n < guard_next f" and space: "guard_next f < 2 ^ 32 - 1"
  shows "\<exists>res f'. split_branch crc rebuild n cs ks f = (Inr res, f')
    \<and> branch_result rep n cs ks (guard_view crc f) (guard_next f) res (guard_view crc f') (guard_next f')"
proof -
  let ?mid = "length ks div 2"
  define m :: u32 where "m = of_nat (guard_next f)"
  have m: "unat m = guard_next f" using space by (simp add: m_def take_bit_nat_eq_self unsigned_of_nat)
  have mid: "?mid < length ks" using len(2) by simp
  have "length (take (Suc ?mid) cs) = Suc (length (take ?mid ks))" "length (take ?mid ks) \<le> cap"
    "length (drop (Suc ?mid) cs) = Suc (length (drop (Suc ?mid) ks))" "length (drop (Suc ?mid) ks) \<le> cap"
    "\<forall>k \<in> set (take ?mid ks). okk k" "\<forall>k \<in> set (drop (Suc ?mid) ks). okk k"
    using len mid by (auto simp: Suc_diff_Suc dest: in_set_takeD in_set_dropD)
  note l = this
  obtain q1 where q1: "rebuild p (take (Suc ?mid) cs) (take ?mid ks) = Inr q1"
    "rep q1 (take (Suc ?mid) cs) (take ?mid ks)" using rebuild_rep [OF v(2,3) l(1,2,5)] by blast
  obtain q2 where q2: "rebuild (new_branch crc) (drop (Suc ?mid) cs) (drop (Suc ?mid) ks) = Inr q2"
    "rep q2 (drop (Suc ?mid) cs) (drop (Suc ?mid) ks)"
    using rebuild_rep [of "new_branch crc", OF _ _ l(3,4,6)] by auto
  let ?e = "edit_page crc n (\<lambda>p. res_bind (rebuild p (take (Suc ?mid) cs) (take ?mid ks)) (\<lambda>p.
      Inr (update_checksum crc p)))"
  obtain f1 q1' where f1: "?e f = (Inr (), f1)" "guard_view crc f1 = (guard_view crc f)(n := Inr q1')"
    "rep q1' (take (Suc ?mid) cs) (take ?mid ks)" "guard_next f1 = guard_next f"
    using edit_branch_run [OF v(1), of "\<lambda>p. rebuild p (take (Suc ?mid) cs) (take ?mid ks)", OF q1] by blast
  have "guard_next f1 < 2 ^ 32 - 1" "unat m = guard_next f1" using space m f1(4) by simp_all
  from alloc_default_run [OF this, of crc] obtain f2 where f2: "allocate_page f1 = (Inr m, f2)"
    "guard_view crc f2 = (guard_view crc f1)(m := Inr page_default)" "guard_next f2 = Suc (guard_next f1)" by blast
  obtain f3 where f3: "put_page m (update_checksum crc q2) f2 = (Inr (), f3)"
    "guard_view crc f3 = (guard_view crc f2)(m := Inr (update_checksum crc q2))" "guard_next f3 = guard_next f2"
    using put_run by blast
  have run: "split_branch crc rebuild n cs ks f = (Inr (Split m (ks ! ?mid)), f3)"
    using f1(1) f2(1) f3(1) q2(1) mid
    by (simp add: split_branch_def Let_def vec_get_def sm_bind_Inr [where m = ?e] sm_bind_Inr [where m = allocate_page]
        sm_bind_Inr [where m = "put_page m (update_checksum crc q2)"])
  have "m \<noteq> n" using m n by auto
  then have view: "guard_view crc f3 = (guard_view crc f)(n := Inr q1', m := Inr (update_checksum crc q2))"
    unfolding f3(2) f2(2) f1(2) by (auto simp: fun_eq_iff)
  have "branch_result rep n cs ks (guard_view crc f) (guard_next f) (Split m (ks ! ?mid)) (guard_view crc f3) (guard_next f3)"
    unfolding branch_result_def insert_result.case view
  proof (intro conjI exI)
    show "\<forall>x. unat x < guard_next f \<longrightarrow> x \<noteq> n \<longrightarrow>
      ((guard_view crc f)(n := Inr q1', m := Inr (update_checksum crc q2))) x = guard_view crc f x"
      using m by auto
    show "rep q1' (take (Suc ?mid) cs) (take ?mid ks)" by (rule f1(3))
    show "rep (update_checksum crc q2) (drop (Suc ?mid) cs) (drop (Suc ?mid) ks)"
      by (rule rep_checksum [OF q2(2)])
  qed (use m f1(4) f2(3) f3(3) mid \<open>m \<noteq> n\<close> in simp_all)
  with run show ?thesis by blast
qed

lemma branch_insert_run:
  assumes v: "guard_view crc f n = Inr p" and p: "rep p cs ks" and i: "i \<le> length ks" and sep: "okk sep"
    and n: "unat n < guard_next f" and space: "guard_next f < 2 ^ 32 - 1"
  shows "\<exists>res f'. branch_insert crc cap insert_entry collect rebuild n i sep m f = (Inr res, f')
    \<and> branch_result rep n (take (Suc i) cs @ m # drop (Suc i) cs) (take i ks @ sep # drop i ks)
        (guard_view crc f) (guard_next f) res (guard_view crc f') (guard_next f')"
proof -
  note d = rep_page [OF p] rep_length [OF p]
  let ?cs = "take (Suc i) cs @ m # drop (Suc i) cs" and ?ks = "take i ks @ sep # drop i ks"
  show ?thesis
  proof (cases "length ks < cap")
    case True
    obtain q where q: "insert_entry p i sep m = Inr q" "rep q ?cs ?ks"
      using insert_rep [OF p i True sep] by blast
    let ?e = "edit_page crc n (\<lambda>p. res_bind (insert_entry p i sep m) (\<lambda>p. Inr (update_checksum crc p)))"
    obtain f' q' where f': "?e f = (Inr (), f')" "guard_view crc f' = (guard_view crc f)(n := Inr q')"
      "rep q' ?cs ?ks" "guard_next f' = guard_next f"
      using edit_branch_run [OF v, of "\<lambda>p. insert_entry p i sep m", OF q] by blast
    have "branch_insert crc cap insert_entry collect rebuild n i sep m f = (Inr Fit, f')"
      using v f'(1) True d(1) by (simp add: branch_insert_def sm_bind_view_Inr sm_bind_Inr Let_def)
    moreover have "branch_result rep n ?cs ?ks (guard_view crc f) (guard_next f) Fit (guard_view crc f') (guard_next f')"
      using f'(2-4) by (simp add: branch_result_def)
    ultimately show ?thesis by blast
  next
    case False
    have len: "length ?cs = Suc (length ?ks)" "0 < length ?ks" "length ?ks \<le> 2 * cap" "i \<le> length cs"
      "\<forall>k \<in> set ?ks. okk k" using d i sep cap_pos by (auto dest: in_set_takeD in_set_dropD)
    have "branch_insert crc cap insert_entry collect rebuild n i sep m f = split_branch crc rebuild n ?cs ?ks f"
      using v False d i by (simp add: branch_insert_def sm_bind_view_Inr Let_def collect_rep [OF p] vec_insert_def)
    then show ?thesis using split_branch_run [OF v _ _ len(1-3,5) n space] d(1) by simp
  qed
qed

lemma branch_root_run:
  assumes "guard_next f < 2 ^ 32 - 1" "okk sep"
  shows "\<exists>p f'. branch_root crc write_entry set_child root m sep f = (Inr (of_nat (guard_next f)), f')
    \<and> guard_view crc f' = (guard_view crc f)(of_nat (guard_next f) := Inr p) \<and> rep p [root, m] [sep]
    \<and> guard_next f' = Suc (guard_next f)"
proof -
  let ?n = "of_nat (guard_next f) :: u32"
  have n: "unat ?n = guard_next f" using assms by (simp add: take_bit_nat_eq_self unsigned_of_nat)
  obtain q where q: "res_bind (write_entry (new_branch crc) 0 root sep) (\<lambda>p. res_bind (set_child p 1 m) (\<lambda>p.
      Inr (update_checksum crc (set_num_rows p 1)))) = Inr q" "rep q [root, m] [sep]" using root_rep [OF assms(2), of crc root m] rep_checksum [of _ "[root, m]" "[sep]" crc] by (fastforce simp: res_bind_eq_Inr)
  obtain f1 where f1: "allocate_page f = (Inr ?n, f1)" "guard_view crc f1 = (guard_view crc f)(?n := Inr page_default)"
    "guard_next f1 = Suc (guard_next f)" using alloc_default_run [OF assms(1) n] by blast
  obtain f2 where f2: "put_page ?n q f1 = (Inr (), f2)" "guard_view crc f2 = (guard_view crc f1)(?n := Inr q)"
    "guard_next f2 = guard_next f1" using put_run by blast
  have "branch_root crc write_entry set_child root m sep f = (Inr ?n, f2)"
    using f1(1) f2(1) q(1) by (simp add: branch_root_def sm_bind_Inr)
  then show ?thesis using f1 f2 q(2) by (intro exI [of _ q] exI [of _ f2]) simp
qed

end

end
