(* ===== verification/Btree_Writer.thy ===== *)
theory Btree_Writer
  imports Page_Ops
begin

text \<open>
  \<^verbatim>\<open>BTreeWriter\<close> of \<^verbatim>\<open>src/btree.rs\<close>: creation, insertion with leaf and branch splits and overflow
  rows, deletion, the bulk delete and update, and the reads through the write guard. Recursive
  descents take the remaining depth as fuel (the code counts up to \<^verbatim>\<open>MAX_TREE_DEPTH\<close>), the walks
  along the leaf chain the bound on visited pages. The contracts of the leaf and of the branch
  operation discharge the laws of \<open>tree_insertion\<close>, which gives the insertion into the whole tree.
\<close>

section \<open>Creation\<close>

definition btree_create :: "(bytes \<Rightarrow> u32) \<Rightarrow> u32 guarded" where
  "btree_create crc =
     sm_bind allocate_page (\<lambda>page_no.
     sm_bind (put_page page_no (new_leaf crc)) (\<lambda>_. sm_ret page_no))"

section \<open>Insertion\<close>

abbreviation MAX_SINGLE_ROW :: nat where "MAX_SINGLE_ROW \<equiv> 4074"

definition insert_into_leaf ::
  "(bytes \<Rightarrow> u32) \<Rightarrow> u32 \<Rightarrow> page \<Rightarrow> u64 \<Rightarrow> bytes \<Rightarrow> u64 insert_result guarded" where
  "insert_into_leaf crc page_no p rowid row_data =
     (let n = unat (num_rows p) in
      sm_bind (sm_lift (find_insertion_point p rowid)) (\<lambda>(pos, found).
      if found then sm_lift (Inl (Fail (DuplicateKey rowid)))
      else if needed_size p n (length row_data) \<le> PAGE_SIZE then
        write_in_place crc page_no p n pos row_data
      else if MAX_SINGLE_ROW < length row_data then
        sm_bind (write_overflow_row crc row_data MAX_SINGLE_ROW) (\<lambda>inline.
        if needed_size p n (length inline) \<le> PAGE_SIZE then
          write_in_place crc page_no p n pos inline
        else
          sm_bind (sm_lift (find_overflow_split_point p n pos inline (n + 1))) (\<lambda>mid.
          split_leaf crc (extract_id_at_virtual_pos p n pos inline mid) page_no p n pos inline mid))
      else
        let mid = (n + 1) div 2 in
        split_leaf crc (extract_id_at_virtual_pos p n pos row_data mid) page_no p n pos row_data mid))"

definition insert_into_branch ::
  "(bytes \<Rightarrow> u32) \<Rightarrow> u32 \<Rightarrow> nat \<Rightarrow> u64 \<Rightarrow> u32 \<Rightarrow> u64 insert_result guarded" where
  "insert_into_branch crc =
     branch_insert crc ((PAGE_SIZE - PAGE_HEADER_SIZE - 4 - CHECKSUM_SIZE) div 12)
       insert_branch_entry collect_branch_flat rebuild_branch_flat"

fun insert_recursive :: "(bytes \<Rightarrow> u32) \<Rightarrow> nat \<Rightarrow> u32 \<Rightarrow> u64 \<Rightarrow> bytes \<Rightarrow> u64 insert_result guarded" where
  "insert_recursive crc 0 page_no rowid row_data =
     sm_lift (Inl (Fail (Corruption ''B+ tree depth exceeds maximum in insert_recursive'')))"
| "insert_recursive crc (Suc d) page_no rowid row_data =
     sm_bind (sm_view (\<lambda>f. guard_view crc f page_no)) (\<lambda>p.
     if is_leaf p then
       sm_bind (sm_view (\<lambda>f. guard_view crc f page_no)) (\<lambda>p. insert_into_leaf crc page_no p rowid row_data)
     else
       sm_bind (sm_lift (find_child p rowid)) (\<lambda>(child_idx, child_page_no).
       sm_bind (insert_recursive crc d child_page_no rowid row_data) (\<lambda>result.
       case result of
         Fit \<Rightarrow> sm_ret Fit
       | Split new_page separator \<Rightarrow> insert_into_branch crc page_no child_idx separator new_page)))"

definition grow_root :: "(bytes \<Rightarrow> u32) \<Rightarrow> u32 \<Rightarrow> u32 \<Rightarrow> u64 \<Rightarrow> u32 guarded" where
  "grow_root crc = branch_root crc write_branch_entry set_branch_child"

definition btree_insert :: "(bytes \<Rightarrow> u32) \<Rightarrow> u32 \<Rightarrow> u64 \<Rightarrow> bytes \<Rightarrow> u32 guarded" where
  "btree_insert crc root rowid row_data =
     sm_bind (insert_recursive crc MAX_TREE_DEPTH root rowid row_data) (\<lambda>result.
     case result of
       Fit \<Rightarrow> sm_ret root
     | Split new_page separator \<Rightarrow> grow_root crc root new_page separator)"

section \<open>Deletion\<close>

text \<open>The pages of a deleted row's overflow chain stay allocated: the trailer is only decoded.\<close>

definition check_overflow :: "page \<Rightarrow> nat \<Rightarrow> nat \<Rightarrow> unit res" where
  "check_overflow p pos n =
     res_bind (row_slice row_bounds p pos n) (\<lambda>d.
     case d of
       Some row_data \<Rightarrow>
         if has_overflow row_data then res_bind (decode_overflow_trailer row_data) (\<lambda>_. Inr ()) else Inr ()
     | None \<Rightarrow> Inr ())"

definition delete_from_leaf :: "(bytes \<Rightarrow> u32) \<Rightarrow> u32 \<Rightarrow> u64 \<Rightarrow> page \<Rightarrow> bool guarded" where
  "delete_from_leaf crc page_no rowid p =
     (let n = unat (num_rows p) in
      if n = 0 then sm_ret False
      else
        sm_bind (sm_lift (find_insertion_point p rowid)) (\<lambda>(pos, found).
        if \<not> found then sm_ret False
        else
          sm_bind (sm_lift (check_overflow p pos n)) (\<lambda>_.
          sm_bind (edit_page crc page_no (\<lambda>w.
            res_bind (write_leaf_without w p n pos) (\<lambda>w.
            Inr (update_checksum crc (set_prev_leaf (set_next_leaf w (next_leaf p)) (prev_leaf p)))))) (\<lambda>_.
          sm_ret True))))"

fun delete_recursive :: "(bytes \<Rightarrow> u32) \<Rightarrow> nat \<Rightarrow> u32 \<Rightarrow> u64 \<Rightarrow> bool guarded" where
  "delete_recursive crc 0 page_no rowid =
     sm_lift (Inl (Fail (Corruption ''B+ tree depth exceeds maximum in delete_recursive'')))"
| "delete_recursive crc (Suc d) page_no rowid =
     sm_bind (sm_view (\<lambda>f. guard_view crc f page_no)) (\<lambda>p.
     if is_leaf p then
       sm_bind (sm_view (\<lambda>f. guard_view crc f page_no)) (delete_from_leaf crc page_no rowid)
     else sm_bind (sm_lift (find_child p rowid)) (\<lambda>(_, c). delete_recursive crc d c rowid))"

definition btree_delete :: "(bytes \<Rightarrow> u32) \<Rightarrow> u32 \<Rightarrow> u64 \<Rightarrow> bool guarded" where
  "btree_delete crc root rowid = delete_recursive crc MAX_TREE_DEPTH root rowid"

section \<open>Reading through the guard\<close>

definition search_w :: "(bytes \<Rightarrow> u32) \<Rightarrow> u32 \<Rightarrow> u64 \<Rightarrow> bytes option guarded" where
  "search_w crc root rowid = sm_view (\<lambda>f.
     search_recursive (guard_view crc f) ''B+ tree depth exceeds maximum in search_recursive_w''
       MAX_TREE_DEPTH root rowid)"

definition find_leftmost_leaf_w :: "(bytes \<Rightarrow> u32) \<Rightarrow> page_file \<Rightarrow> u32 \<Rightarrow> u32 res" where
  "find_leftmost_leaf_w crc f root =
     find_leaf (guard_view crc f) (\<lambda>p. get_branch_child p 0)
       ''B+ tree depth exceeds maximum in find_leftmost_leaf_w'' MAX_TREE_DEPTH root"

text \<open>\<^verbatim>\<open>page_count() + new_page_count()\<close>, in 32 bits.\<close>

definition max_pages_w :: "page_file \<Rightarrow> nat res" where
  "max_pages_w f = res_bind (must (guard_next f < 2 ^ 32)) (\<lambda>_. Inr (guard_next f))"

definition scan_all_w :: "(bytes \<Rightarrow> u32) \<Rightarrow> u32 \<Rightarrow> hits guarded" where
  "scan_all_w crc root = sm_view (\<lambda>f.
     res_bind (find_leftmost_leaf_w crc f root) (\<lambda>first_leaf.
     res_bind (max_pages_w f) (\<lambda>mx.
     walk (guard_view crc f) next_leaf
       (\<lambda>p. fold_until (on_row row_bounds p (push_row (guard_view crc f))) [0..<unat (num_rows p)])
       ''leaf chain cycle detected in scan_all_w'' mx first_leaf [])))"

section \<open>Bulk changes\<close>

text \<open>The loop along the leaf chain of the two bulk operations: \<open>visit\<close> changes the page.\<close>

fun walk_w ::
  "(bytes \<Rightarrow> u32) \<Rightarrow> (u32 \<Rightarrow> page \<Rightarrow> 'a \<Rightarrow> 'a guarded) \<Rightarrow> string \<Rightarrow> nat \<Rightarrow> u32 \<Rightarrow> 'a \<Rightarrow> 'a guarded" where
  "walk_w crc visit err 0 current acc = sm_lift (Inl (Fail (Corruption err)))"
| "walk_w crc visit err (Suc k) current acc =
     sm_bind (sm_view (\<lambda>f. guard_view crc f current)) (\<lambda>p.
     sm_bind (visit current p acc) (\<lambda>acc.
     if next_leaf p = 0 then sm_ret acc else walk_w crc visit err k (next_leaf p) acc))"

text \<open>The rows of a page that satisfy the predicate, with their position and their whole row.\<close>

definition match_row ::
  "reader \<Rightarrow> (bytes \<Rightarrow> bool res) \<Rightarrow> page \<Rightarrow> nat \<Rightarrow> (nat \<times> bytes) option res" where
  "match_row rd pred p i =
     res_bind (row_slice row_bounds_raw p i (unat (num_rows p))) (\<lambda>d.
     case d of
       None \<Rightarrow> Inr None
     | Some data \<Rightarrow>
         res_bind (pred data) (\<lambda>m.
         if m then res_bind (reassemble_row rd data) (\<lambda>full. Inr (Some (i, full))) else Inr None))"

text \<open>\<^verbatim>\<open>if let Ok(id) = row::extract_id(&full)\<close> keeps a row only when its rowid can be read.\<close>

definition delete_match :: "reader \<Rightarrow> (bytes \<Rightarrow> bool res) \<Rightarrow> page \<Rightarrow> nat \<Rightarrow> (nat \<times> u64 \<times> bytes) list res" where
  "delete_match rd pred p i =
     res_bind (match_row rd pred p i) (\<lambda>m.
     case m of
       None \<Rightarrow> Inr []
     | Some (i, full) \<Rightarrow> Inr (case extract_id full of Inr rid \<Rightarrow> [(i, rid, full)] | Inl _ \<Rightarrow> []))"

definition delete_visit ::
  "(bytes \<Rightarrow> u32) \<Rightarrow> (bytes \<Rightarrow> bool res) \<Rightarrow> u32 \<Rightarrow> page \<Rightarrow> hits \<Rightarrow> hits guarded" where
  "delete_visit crc pred current p deleted =
     (let n = unat (num_rows p) in
      sm_bind (sm_view (\<lambda>f. res_map (delete_match (guard_view crc f) pred p) [0..<n])) (\<lambda>ms.
      let ms = concat ms in
      sm_bind
        (if ms = [] then sm_ret ()
         else edit_page crc current (\<lambda>w.
           res_bind (write_leaf_without_multiple w p n (map fst ms)) (\<lambda>w.
           Inr (update_checksum crc (set_prev_leaf (set_next_leaf w (next_leaf p)) (prev_leaf p))))))
        (\<lambda>_. sm_ret (deleted @ map snd ms))))"

definition delete_matching :: "(bytes \<Rightarrow> u32) \<Rightarrow> u32 \<Rightarrow> (bytes \<Rightarrow> bool res) \<Rightarrow> hits guarded" where
  "delete_matching crc root pred =
     sm_bind (sm_view (\<lambda>f. find_leftmost_leaf_w crc f root)) (\<lambda>first_leaf.
     sm_bind (sm_view max_pages_w) (\<lambda>mx.
     walk_w crc (delete_visit crc pred) ''leaf chain cycle detected in delete_matching'' mx first_leaf []))"

type_synonym changes = "(u64 \<times> bytes \<times> bytes) list"

definition update_match ::
  "reader \<Rightarrow> (bytes \<Rightarrow> bool res) \<Rightarrow> (bytes \<Rightarrow> bytes res) \<Rightarrow> page \<Rightarrow> nat
     \<Rightarrow> (nat \<times> bytes \<times> u64 \<times> bytes) list res" where
  "update_match rd pred updater p i =
     res_bind (match_row rd pred p i) (\<lambda>m.
     case m of
       None \<Rightarrow> Inr []
     | Some (i, full) \<Rightarrow>
         res_bind (updater full) (\<lambda>new_bytes.
         Inr (case extract_id full of Inr rid \<Rightarrow> [(i, new_bytes, rid, full)] | Inl _ \<Rightarrow> [])))"

definition update_visit ::
  "(bytes \<Rightarrow> u32) \<Rightarrow> (bytes \<Rightarrow> bool res) \<Rightarrow> (bytes \<Rightarrow> bytes res) \<Rightarrow> u32 \<Rightarrow> page
     \<Rightarrow> changes \<times> changes \<Rightarrow> (changes \<times> changes) guarded" where
  "update_visit crc pred updater current p = (\<lambda>(updated, overflow).
     let n = unat (num_rows p) in
     sm_bind (sm_view (\<lambda>f. res_map (update_match (guard_view crc f) pred updater p) [0..<n])) (\<lambda>ms.
     let reps = concat ms; entries = map (\<lambda>(_, new_bytes, rid, old_bytes). (rid, old_bytes, new_bytes)) reps in
     if reps = [] then sm_ret (updated, overflow)
     else
       sm_bind (write_page crc current) (\<lambda>w.
       sm_bind (sm_lift (write_leaf_with_replacements crc w p n
         (map (\<lambda>(i, new_bytes, _). (i, new_bytes)) reps))) (\<lambda>(w, fits).
       if fits then sm_bind (put_page current w) (\<lambda>_. sm_ret (updated @ entries, overflow))
       else sm_bind (put_page current p) (\<lambda>_. sm_ret (updated, overflow @ entries))))))"

definition update_matching ::
  "(bytes \<Rightarrow> u32) \<Rightarrow> u32 \<Rightarrow> (bytes \<Rightarrow> bool res) \<Rightarrow> (bytes \<Rightarrow> bytes res) \<Rightarrow> (changes \<times> changes) guarded" where
  "update_matching crc root pred updater =
     sm_bind (sm_view (\<lambda>f. find_leftmost_leaf_w crc f root)) (\<lambda>first_leaf.
     sm_bind (sm_view max_pages_w) (\<lambda>mx.
     walk_w crc (update_visit crc pred updater) ''leaf chain cycle detected in update_matching'' mx first_leaf
       ([], [])))"

section \<open>The leaf operation\<close>

text \<open>
  The leaves that can take a row: it fits, or both parts fit when the rows are cut in the middle. A
  row longer than a page leaves an inline part that fills a page of its own, so it can only
  go to one end of the leaf.
\<close>

definition leaf_pos :: "u64 \<Rightarrow> bytes list \<Rightarrow> nat" where
  "leaf_pos rowid rows = length (takeWhile (\<lambda>r. row_id r < rowid) rows)"

definition leaf_takes :: "u64 \<Rightarrow> bytes \<Rightarrow> bytes list \<Rightarrow> bool" where
  "leaf_takes rowid row rows \<longleftrightarrow>
     (let pos = leaf_pos rowid rows; R = inserted pos row rows; mid = Suc (length rows) div 2
      in if length row \<le> MAX_SINGLE_ROW
         then leaf_size R \<le> PAGE_SIZE \<or> leaf_size (take mid R) \<le> PAGE_SIZE \<and> leaf_size (drop mid R) \<le> PAGE_SIZE
         else pos = 0 \<or> pos = length rows)"

definition row_budget :: "bytes \<Rightarrow> nat" where
  "row_budget row = length row div OVERFLOW_PAYLOAD_MAX + 2"

text \<open>What the bytes put into a leaf stand for, and the rows the code can store.\<close>

definition row_for :: "u64 \<Rightarrow> bytes \<Rightarrow> reader \<Rightarrow> u32 set \<Rightarrow> bytes \<Rightarrow> bool" where
  "row_for rowid row rd ps r \<longleftrightarrow> stands_for rd ps r row \<and> 8 \<le> length r \<and> row_id r = rowid"

definition storable :: "u64 \<Rightarrow> bytes \<Rightarrow> bool" where
  "storable rowid row \<longleftrightarrow> 8 \<le> length row \<and> row_id row = rowid \<and> length row \<le> MAX_REASSEMBLE_SIZE
     \<and> (length row \<le> MAX_SINGLE_ROW \<longrightarrow> \<not> has_overflow row)"

lemma row_for_frame: "row_for k row rd ps r \<Longrightarrow> (\<forall>n \<in> ps. rd' n = rd n) \<Longrightarrow> row_for k row rd' ps r"
  using stands_for_frame by (auto simp: row_for_def)

lemma row_for_frames: "\<forall>rd rd' ps r. row_for k row rd ps r \<longrightarrow> (\<forall>n \<in> ps. rd' n = rd n) \<longrightarrow> row_for k row rd' ps r"
  using row_for_frame by blast

text \<open>The separator the code reads in the snapshot is the rowid at the cut.\<close>

lemma row_split:
  assumes "leaf_page p nx pv rows" "\<forall>x \<in> set rows. 8 \<le> length x" "row_for k row rd ps r" "pos \<le> length rows" "mid \<le> length rows"
  shows "split_leaf crc (extract_id_at_virtual_pos p (length rows) pos r mid) n p (length rows) pos r mid =
    split_leaf crc (Inr (row_id (inserted pos r rows ! mid))) n p (length rows) pos r mid"
  using extract_id_at_virtual_pos_leaf [OF assms(1,4,5), of r] assms(2,3) by (simp add: row_for_def)

lemma leaf_pos_unique:
  assumes "i \<le> length rows" "\<forall>r \<in> set (take i rows). row_id r < k" "\<forall>r \<in> set (drop i rows). k < row_id r"
  shows "leaf_pos k rows = i"
proof -
  have "takeWhile (\<lambda>r. row_id r < k) (take i rows @ drop i rows) = take i rows"
    using assms(2,3) by (cases "drop i rows") (auto simp: takeWhile_append takeWhile_eq_all_conv simp del: append_take_drop_id)
  then show ?thesis using assms(1) by (simp add: leaf_pos_def)
qed

lemma insert_into_leaf_run:
  assumes v: "guard_view crc f n = Inr p" and p: "leaf_page p nx pv rows" and srt: "sorted_wrt (<) (map row_id rows)"
    and ok: "\<forall>r \<in> set rows. 8 \<le> length r \<and> row_id r \<noteq> k" and takes: "leaf_takes k row rows" and st: "storable k row"
    and nx: "nx \<noteq> 0 \<longrightarrow> nx \<noteq> n \<and> unat nx < guard_next f \<and> (\<exists>q nx' rs. guard_view crc f nx = Inr q \<and> leaf_page q nx' n rs)"
    and n: "unat n < guard_next f" and space: "guard_next f + row_budget row < 2 ^ 32 - 1"
  shows "\<exists>res f'. insert_into_leaf crc n p k row f = (Inr res, f')
    \<and> leaf_result row_id k (row_for k row) (row_budget row) n nx pv rows (guard_view crc f) (guard_next f) res
        (guard_view crc f') (guard_next f')"
proof -
  have len: "\<forall>r \<in> set rows. 8 \<le> length r" using ok by blast
  have rs: "rows_sorted rows" using srt len by (simp add: rows_sorted_def)
  have "k \<notin> row_id ` set rows" using ok by auto
  from find_insertion_point_absent [OF p rs this] obtain pos where pos: "pos \<le> length rows"
    "find_insertion_point p k = Inr (pos, False)" "\<forall>r \<in> set (take pos rows). row_id r < k"
    "\<forall>r \<in> set (drop pos rows). k < row_id r" by blast
  have lp: "leaf_pos k rows = pos" by (rule leaf_pos_unique [OF pos(1,3,4)])
  have row: "8 \<le> length row" "row_id row = k" using st by (simp_all add: storable_def)
  note needed = needed_size_leaf [OF p pos(1)]
  have b2: "2 \<le> row_budget row" by (simp add: row_budget_def)
  have place: "\<exists>res f'. write_in_place crc n p (length rows) pos r f1 = (Inr res, f')
    \<and> leaf_result row_id k (row_for k row) (row_budget row) n nx pv rows (guard_view crc f) (guard_next f) res
        (guard_view crc f') (guard_next f')"
    if fit: "leaf_size (inserted pos r rows) \<le> PAGE_SIZE" and Q: "row_for k row (guard_view crc f1) ps r"
      and ps: "\<forall>x \<in> ps. guard_next f \<le> unat x \<and> unat x < guard_next f1" and g: "grows crc f f1"
      and b: "guard_next f1 \<le> guard_next f + row_budget row" for r ps f1
  proof -
    have "row_id r = k" using Q by (simp add: row_for_def)
    from write_in_place_result [where Q = "row_for k row", OF v p n pos(1,3,4) fit Q row_for_frames this ps g b]
    show ?thesis .
  qed
  show ?thesis
  proof (cases "leaf_size (inserted pos row rows) \<le> PAGE_SIZE")
    case True
    then have "\<not> has_overflow row" using st leaf_size_append [of "take pos rows" "row # drop pos rows"]
      by (auto simp: storable_def inserted_def leaf_size_sum)
    then have "row_for k row (guard_view crc f) {} row" using row stands_for_inline by (simp add: row_for_def)
    from place [OF True this _ grows_refl] show ?thesis
      using True pos(2) needed leaf_pageD(9) [OF p] by (simp add: insert_into_leaf_def Let_def)
  next
    case big: False
    show ?thesis
    proof (cases "length row \<le> MAX_SINGLE_ROW")
      case True
      let ?mid = "Suc (length rows) div 2"
      have "rows \<noteq> []" using big True pos(1) by (auto simp: inserted_def leaf_size_def)
      then have mid: "0 < ?mid" "?mid \<le> length rows" by (cases rows; simp)+
      have fits: "leaf_size (take ?mid (inserted pos row rows)) \<le> PAGE_SIZE" "leaf_size (drop ?mid (inserted pos row rows)) \<le> PAGE_SIZE"
        using takes big True by (simp_all add: leaf_takes_def lp Let_def)
      have "\<not> has_overflow row" using st True by (simp add: storable_def)
      then have Q: "row_for k row (guard_view crc f) {} row" using row stands_for_inline by (simp add: row_for_def)
      have "guard_next f < 2 ^ 32 - 1" "guard_next f + 1 \<le> guard_next f + row_budget row" using space b2 by simp_all
      from split_leaf_result [where Q = "row_for k row", OF v p Q row_for_frames row(2) pos(1,3,4) mid fits nx n this(1) order_refl this(2)]
      show ?thesis
        using True big pos(2) needed leaf_pageD(9) [OF p] row_split [OF p len Q pos(1) mid(2)]
        by (simp add: insert_into_leaf_def Let_def)
    next
      case False
      have next0: "0 < guard_next f" using n by simp
      have cond: "4064 \<le> length row" "length row \<le> MAX_REASSEMBLE_SIZE"
        "guard_next f + length row div OVERFLOW_PAYLOAD_MAX + 1 < 2 ^ 32"
        using False st space by (simp_all add: storable_def row_budget_def)
      obtain f1 inl ps where w: "write_overflow_row crc row 4074 f = (Inr inl, f1)" "length inl = 4074"
        "take 4064 inl = take 4064 row" "stands_for (guard_view crc f1) ps inl row"
        "\<forall>n \<in> ps. guard_next f \<le> unat n \<and> unat n < guard_next f1" "grows crc f f1"
        "guard_next f1 \<le> guard_next f + length row div OVERFLOW_PAYLOAD_MAX + 1"
        using write_overflow_row_run [OF cond(1,2) next0 cond(3)] by blast
      have "sub_bytes inl 0 8 = sub_bytes row 0 8"
        using arg_cong [OF w(3), of "take 8"] by (simp add: sub_bytes_def)
      then have inl_id: "row_id inl = k" using row by (simp add: row_id_def)
      then have Q: "row_for k row (guard_view crc f1) ps inl" using w(2,4) by (simp add: row_for_def)
      have le: "guard_next f1 + 1 \<le> guard_next f + row_budget row" using w(7) by (simp add: row_budget_def)
      have start: "insert_into_leaf crc n p k row f =
          (if leaf_size (inserted pos inl rows) \<le> PAGE_SIZE then write_in_place crc n p (length rows) pos inl f1
           else sm_bind (sm_lift (find_overflow_split_point p (length rows) pos inl (Suc (length rows)))) (\<lambda>mid.
             split_leaf crc (extract_id_at_virtual_pos p (length rows) pos inl mid) n p (length rows) pos inl mid) f1)"
        using False big pos(2) needed [of row] needed [of inl] leaf_pageD(9) [OF p] w(1)
        by (simp add: insert_into_leaf_def Let_def sm_bind_Inr)
      show ?thesis
      proof (cases "leaf_size (inserted pos inl rows) \<le> PAGE_SIZE")
        case True
        from place [OF True Q w(5,6)] le show ?thesis unfolding start using True by simp
      next
        case no: False
        have ne: "rows \<noteq> []" using no w(2) pos(1) by (auto simp: inserted_def leaf_size_def)
        have ends: "pos = 0 \<or> pos = length rows" using takes False by (simp add: leaf_takes_def lp Let_def)
        have one: "\<forall>x \<in> insert inl (set rows). length x \<le> 4074" using w(2) leaf_row_size [OF p] by auto
        define j where "j = (if pos = 0 then 1 else length rows)"
        have "leaf_size [inl] \<le> PAGE_SIZE" using w(2) by (simp add: leaf_size_def)
        then have "1 \<le> j \<and> j \<le> length rows \<and> both_fit (map length (inserted pos inl rows)) j"
          using ends ne pos(1) leaf_pageD(7) [OF p] both_fit_rows [of 1 "inl # rows"]
            both_fit_rows [of "length rows" "rows @ [inl]"]
          by (auto simp: j_def inserted_def Suc_le_eq simp del: list.map map_append)
        then have ex: "\<exists>mid. 1 \<le> mid \<and> mid \<le> length rows \<and> both_fit (map length (inserted pos inl rows)) mid" by blast
        obtain m where m: "find_overflow_split_point p (length rows) pos inl (Suc (length rows)) = Inr m"
          "1 \<le> m" "m \<le> length rows" "both_fit (map length (inserted pos inl rows)) m"
          using find_overflow_split_point_leaf [OF p pos(1) ne one] unfolding if_P [OF ex] by blast
        have fits: "leaf_size (take m (inserted pos inl rows)) \<le> PAGE_SIZE" "leaf_size (drop m (inserted pos inl rows)) \<le> PAGE_SIZE"
          using m(3,4) pos(1) by (simp_all add: both_fit_rows)
        have v1: "guard_view crc f1 n = Inr p" and old: "\<forall>x. unat x < guard_next f \<longrightarrow> guard_view crc f1 x = guard_view crc f x"
          and mono: "guard_next f \<le> guard_next f1"
          using w(6) v n by (simp_all add: grows_def)
        have nx1: "nx \<noteq> 0 \<longrightarrow> nx \<noteq> n \<and> unat nx < guard_next f \<and> (\<exists>q nx' rs. guard_view crc f1 nx = Inr q \<and> leaf_page q nx' n rs)"
          using nx old by auto
        have sp: "guard_next f1 < 2 ^ 32 - 1" using le space by simp
        have "0 < m" using m(2) by simp
        from split_leaf_result [where Q = "row_for k row", OF v1 p Q row_for_frames inl_id pos(1,3,4) this m(3) fits nx1 n sp mono le w(5) old]
        show ?thesis
          unfolding start using no m(1) row_split [OF p len Q pos(1) m(3)] by simp
      qed
    qed
  qed
qed

section \<open>The branch operation\<close>

lemma branch_flags: "flags (new_branch crc) = PAGE_BRANCH"
  by (simp add: new_branch_def Let_def)

lemma root_page:
  "\<exists>q. res_bind (write_branch_entry (new_branch crc) 0 root sep) (\<lambda>p. res_bind (set_branch_child p 1 m) (\<lambda>p.
      Inr (set_num_rows p 1))) = Inr q \<and> branch_page q [root, m] [sep]"
proof -
  let ?b = "blit (blit (blit (new_branch crc) 16 (u32_to_le root)) 20 (u64_to_le sep)) 28 (u32_to_le m)"
  have l: "length (new_branch crc) = 4096" using new_pages_ok(2) [of crc] by (simp add: page_ok_def)
  have "write_branch_entry (new_branch crc) 0 root sep = Inr (blit (blit (new_branch crc) 16 (u32_to_le root)) 20 (u64_to_le sep))"
    using l by (simp add: write_branch_entry_def copy_at_def)
  moreover have "set_branch_child (blit (blit (new_branch crc) 16 (u32_to_le root)) 20 (u64_to_le sep)) 1 m = Inr ?b"
    using l by (simp add: set_branch_child_def copy_at_def)
  moreover have "branch_page (set_num_rows ?b 1) [root, m] [sep]"
  proof -
    have "sub_bytes ?b 16 20 = u32_to_le root" "sub_bytes ?b 20 28 = u64_to_le sep" "sub_bytes ?b 28 32 = u32_to_le m"
      using l by (simp_all add: sub_bytes_blit_same sub_bytes_blit_disjoint)
    moreover have ok: "page_ok (blit (new_branch crc) 16 (u32_to_le root))"
      "page_ok (blit (blit (new_branch crc) 16 (u32_to_le root)) 20 (u64_to_le sep))" "page_ok ?b"
      using l by (simp_all add: page_ok_def)
    moreover have "magic ?b = MAGIC" "flags ?b = PAGE_BRANCH"
      using l by (simp_all add: branch_flags)
    ultimately show ?thesis by (simp add: branch_page_def less_Suc_eq)
  qed
  ultimately show ?thesis by auto
qed

interpretation row_branch_ops: branch_ops branch_page find_child get_branch_child "\<lambda>_. True" 339
    insert_branch_entry collect_branch_flat rebuild_branch_flat write_branch_entry set_branch_child
proof unfold_locales
  fix p cs ks i k c assume "branch_page p cs ks" "i \<le> length ks" "length ks < 339"
  then show "\<exists>p'. insert_branch_entry p i k c = Inr p'
    \<and> branch_page p' (take (Suc i) cs @ c # drop (Suc i) cs) (take i ks @ k # drop i ks)"
    by (rule insert_branch)
qed (simp_all add: branch_pageD(1,2,4,6) branch_page_update_checksum collect_branch rebuild_branch root_page [simplified])

section \<open>Insertion into the tree\<close>

interpretation row_insertion: tree_insertion branch_page find_child get_branch_child row_id k "\<lambda>r. 8 \<le> length r"
    "\<lambda>_. True" "guard_view crc" guard_next "row_for k row" "\<lambda>rows. leaf_takes k row rows \<and> storable k row" "row_budget row"
    "\<lambda>d n. insert_recursive crc d n k row"
    "\<lambda>n p. sm_bind (sm_view (\<lambda>f. guard_view crc f n)) (\<lambda>p. insert_into_leaf crc n p k row)"
    "insert_into_branch crc" for crc k row
proof unfold_locales
  fix f n p nx pv rows
  assume "guard_view crc f n = Inr p" "leaf_page p nx pv rows" "sorted_wrt (<) (map row_id rows)"
    "\<forall>r \<in> set rows. 8 \<le> length r \<and> row_id r \<noteq> k" "leaf_takes k row rows \<and> storable k row"
    "nx \<noteq> 0 \<longrightarrow> nx \<noteq> n \<and> unat nx < guard_next f \<and> (\<exists>q nx' rs. guard_view crc f nx = Inr q \<and> leaf_page q nx' n rs)"
    "unat n < guard_next f" "guard_next f + row_budget row < 2 ^ 32 - 1"
  then show "\<exists>res f'. sm_bind (sm_view (\<lambda>f. guard_view crc f n)) (\<lambda>p. insert_into_leaf crc n p k row) f = (Inr res, f')
    \<and> leaf_result row_id k (row_for k row) (row_budget row) n nx pv rows (guard_view crc f) (guard_next f) res
        (guard_view crc f') (guard_next f')"
    using insert_into_leaf_run [of crc f n p nx pv rows k row] by (simp add: sm_bind_view_Inr)
next
  fix f n p cs ks i sep m
  assume "guard_view crc f n = Inr p" "branch_page p cs ks" "i \<le> length ks" "unat n < guard_next f" "guard_next f < 2 ^ 32 - 1"
  then show "\<exists>res f'. insert_into_branch crc n i sep m f = (Inr res, f')
    \<and> branch_result branch_page n (take (Suc i) cs @ m # drop (Suc i) cs) (take i ks @ sep # drop i ks)
        (guard_view crc f) (guard_next f) res (guard_view crc f') (guard_next f')"
    using row_branch_ops.branch_insert_run [of crc f n p cs ks i sep m] by (simp add: insert_into_branch_def)
qed (simp_all add: row_for_frame cong: if_cong)

end
