(* ===== verification/Row_Tree.thy ===== *)
theory Row_Tree
  imports Btree_Writer
begin

text \<open>
  The row tree as the write guard sees it: \<open>tree_in\<close> is the invariant (a well-formed tree whose
  pages and overflow pages have been allocated) that every operation of \<^verbatim>\<open>BTreeWriter\<close> keeps, and
  the effect of each operation on the tree's contents, the list of rowids and rows in order.
\<close>

section \<open>The invariant\<close>

definition tree_in :: "(bytes \<Rightarrow> u32) \<Rightarrow> page_file \<Rightarrow> u32 set \<Rightarrow> u64 btree \<Rightarrow> bool" where
  "tree_in crc f P t \<longleftrightarrow> row_tree (guard_view crc f) P t
     \<and> (\<forall>n \<in> set (tree_pages t) \<union> P. unat n < guard_next f)"

abbreviation guard_contents :: "(bytes \<Rightarrow> u32) \<Rightarrow> page_file \<Rightarrow> u64 btree \<Rightarrow> hits" where
  "guard_contents crc f t \<equiv> contents (guard_view crc f) t"

lemma stored_frame:
  assumes "stored rd P r" "\<forall>n \<in> P. rd' n = rd n"
  shows "stored rd' P r" "row_at rd' r = row_at rd r" "entry_of rd' r = entry_of rd r"
proof -
  obtain full where full: "stands_for rd P r full" "8 \<le> length full" "row_id full = row_id r" "8 \<le> length r"
    using assms(1) by (auto simp: stored_def)
  have s: "stands_for rd' P r full" using stands_for_frame [OF full(1)] assms(2) by blast
  then show "stored rd' P r" using full by (auto simp: stored_def)
  show "row_at rd' r = row_at rd r"
    using stands_for_read [OF s] stands_for_read [OF full(1)] by (simp add: row_at_def)
  then show "entry_of rd' r = entry_of rd r" by (simp add: entry_of_def)
qed

lemma stored_mono: "stored rd P r \<Longrightarrow> P \<subseteq> P' \<Longrightarrow> stored rd P' r"
  unfolding stored_def stands_for_def by blast

lemma contents_frame:
  assumes "\<forall>r \<in> set rows. stored rd P r" "\<forall>n \<in> P. rd' n = rd n"
  shows "map (entry_of rd') rows = map (entry_of rd) rows"
  using stored_frame(3) [OF _ assms(2)] assms(1) by (intro map_cong) auto

lemma contents_keys: "fst ` set (contents rd t) = row_id ` set (tree_rows t)"
  by (force simp: contents_def entry_of_def)

lemma contents_sorted: "row_tree rd P t \<Longrightarrow> sorted_wrt (<) (map fst (contents rd t))"
  using ordered_sorted row_treeD(3) by (fastforce simp: contents_def entry_of_def comp_def)

lemma insort_middle:
  assumes "sorted_wrt (<) (map fst (xs @ e # ys) :: u64 list)"
  shows "insort_key fst e (xs @ ys) = xs @ e # ys"
  using assms
proof (induction xs)
  case Nil
  then show ?case by (cases ys) (auto simp: less_imp_le)
qed (auto simp: not_le)

section \<open>Insertion\<close>

lemma tree_inserted_rows:
  assumes ins: "tree_inserted branch_page row_id k (row_for k row) rd fr t t' rd' fr'"
    and t: "row_tree rd P t" and old: "\<forall>n \<in> set (tree_pages t) \<union> P. unat n < fr" and row: "8 \<le> length row" "row_id row = k"
  shows "\<exists>P'. row_tree rd' P' t' \<and> (fr \<le> fr' \<longrightarrow> (\<forall>n \<in> set (tree_pages t') \<union> P'. unat n < fr')) \<and> P \<subseteq> P'
    \<and> (\<forall>n \<in> set (tree_pages t') \<union> P'. n \<in> set (tree_pages t) \<union> P \<or> fr \<le> unat n)
    \<and> (\<exists>xs ys. contents rd t = xs @ ys \<and> contents rd' t' = xs @ (k, row) # ys)
    \<and> (\<forall>m. unat m < fr \<longrightarrow> m \<notin> set (tree_pages t) \<longrightarrow> rd' m = rd m)"
proof -
  note d = row_treeD [OF t]
  have PT: "P \<inter> set (tree_pages t) = {}" and Z: "0 \<notin> set (tree_pages t)" and D: "distinct (tree_pages t)"
    using t by (simp_all add: row_tree_def)
  from ins have F: "forest_inserted branch_page row_id k (row_for k row) rd fr [] [] (tree_pages t) (tree_rows t) [t'] rd' fr'"
    and r': "in_range row_id None None t'" by (simp_all add: tree_inserted_def)
  from F obtain r ps ns xs ys where f: "row_id r = k" "row_for k row rd' ps r" "tree_rows t = xs @ ys"
    "tree_rows t' = xs @ r # ys" "branches_at branch_page rd' t'" "chain_ok rd' 0 (leaves t') 0"
    "mset (tree_pages t') = mset (tree_pages t) + mset ns" "distinct ns" "set ns \<inter> ps = {}"
    "\<forall>n \<in> set ns \<union> ps. fr \<le> unat n \<and> unat n < fr'"
    "\<forall>m. unat m < fr \<longrightarrow> m \<notin> set (tree_pages t) \<longrightarrow> rd' m = rd m"
    unfolding forest_inserted_def by auto
  have pages: "set (tree_pages t') = set (tree_pages t) \<union> set ns" using f(7) by (metis set_mset_mset set_mset_union)
  have frame: "\<forall>n \<in> P. rd' n = rd n" using f(11) PT old by blast
  have fresh: "n \<notin> set (tree_pages t) \<union> P" if "n \<in> set ns \<union> ps" for n using that f(10) old by (meson leD)
  have "root_of t \<in> set (tree_pages t)" by (cases t) (simp_all add: tree_pages_def)
  then have "0 < fr" using old by fastforce
  then have nz: "0 \<notin> set ns" using f(10) by (metis Un_iff leD unat_0)
  let ?P = "P \<union> ps"
  have st: "stored rd' ?P x" if "x \<in> set (tree_rows t)" for x
    using stored_mono [OF stored_frame(1) [OF d(7) [OF that] frame]] by blast
  have "stands_for rd' ?P r row" "8 \<le> length r" using f(2) unfolding row_for_def stands_for_def by blast+
  then have str: "stored rd' ?P r" and at: "row_at rd' r = row"
    using row f(1) stands_for_read [of rd' ?P r row] by (auto simp: stored_def row_at_def)
  have "\<forall>x \<in> set (tree_rows t'). stored rd' ?P x" using st str f(3,4) by auto
  moreover have "distinct (tree_pages t')"
  proof -
    have "distinct (tree_pages t @ ns)" using D f(8) fresh by auto
    moreover have "mset (tree_pages t @ ns) = mset (tree_pages t')" using f(7) by simp
    ultimately show ?thesis using mset_eq_imp_distinct_iff by blast
  qed
  moreover have "?P \<inter> set (tree_pages t') = {}" unfolding pages using PT f(9) fresh by blast
  ultimately have "row_tree rd' ?P t'" using f(5,6) r' Z nz pages by (simp add: row_tree_def)
  moreover have "\<forall>n \<in> set (tree_pages t') \<union> ?P. unat n < fr'" if "fr \<le> fr'"
    unfolding pages using old f(10) that by (meson UnE less_le_trans Un_iff)
  moreover have "contents rd' t' = map (entry_of rd) xs @ (k, row) # map (entry_of rd) ys"
    using f(1,3,4) at contents_frame [of "xs @ ys" rd P rd'] d(7) frame
    by (simp add: contents_def entry_of_def [of rd' r])
  moreover have "contents rd t = map (entry_of rd) xs @ map (entry_of rd) ys" using f(3) by (simp add: contents_def)
  moreover have "\<forall>n \<in> set (tree_pages t') \<union> ?P. n \<in> set (tree_pages t) \<union> P \<or> fr \<le> unat n"
    unfolding pages using f(10) by blast
  ultimately show ?thesis using f(11) by (intro exI [of _ ?P]) blast
qed

lemma btree_insert_run:
  assumes t: "tree_in crc f P t" and h: "height t \<le> MAX_TREE_DEPTH" and st: "storable k row"
    and takes: "leaf_takes k row (snd (leaf_for t k))" and new: "k \<notin> fst ` set (guard_contents crc f t)"
    and space: "guard_next f + row_budget row + height t < 2 ^ 32 - 1"
  shows "\<exists>t' P' f'. btree_insert crc (root_of t) k row f = (Inr (root_of t'), f') \<and> tree_in crc f' P' t'
    \<and> guard_contents crc f' t' = insort_key fst (k, row) (guard_contents crc f t)
    \<and> height t' \<le> Suc (height t) \<and> P \<subseteq> P' \<and> guard_next f \<le> guard_next f'
    \<and> guard_next f' \<le> guard_next f + row_budget row + height t
    \<and> (\<forall>n \<in> set (tree_pages t') \<union> P'. n \<in> set (tree_pages t) \<union> P \<or> guard_next f \<le> unat n)
    \<and> (\<forall>m. unat m < guard_next f \<longrightarrow> m \<notin> set (tree_pages t) \<longrightarrow> guard_view crc f' m = guard_view crc f m)"
proof -
  have rt: "row_tree (guard_view crc f) P t" and old: "\<forall>n \<in> set (tree_pages t) \<union> P. unat n < guard_next f"
    using t by (simp_all add: tree_in_def)
  note d = row_treeD [OF rt]
  have rows: "\<forall>r \<in> set (tree_rows t). 8 \<le> length r \<and> row_id r \<noteq> k"
    using d(7) new contents_keys [of "guard_view crc f" t] stored_row(1) by blast
  have rng: "in_range row_id None None t" "distinct (tree_pages t)" "0 \<notin> set (tree_pages t)" using rt by (simp_all add: row_tree_def)
  have b: "\<forall>x \<in> set (tree_pages t). unat x < guard_next f" using old by blast
  have grow: "\<exists>p s'. grow_root crc (root_of t) m sep s1 = (Inr (of_nat (guard_next s1)), s')
      \<and> guard_view crc s' = (guard_view crc s1)(of_nat (guard_next s1) := Inr p) \<and> branch_page p [root_of t, m] [sep]
      \<and> guard_next s' = Suc (guard_next s1)" if "True" "guard_next s1 < 2 ^ 32 - 1" for s1 m sep
    using row_branch_ops.branch_root_run [OF that(2) TrueI] by (simp add: grow_root_def)
  have tk: "leaf_takes k row (snd (leaf_for t k)) \<and> storable k row" using takes st by simp
  obtain t' f' where run: "btree_insert crc (root_of t) k row f = (Inr (root_of t'), f')"
    and ins: "tree_inserted branch_page row_id k (row_for k row) (guard_view crc f) (guard_next f) t t' (guard_view crc f') (guard_next f')"
    and le: "guard_next f \<le> guard_next f'" "guard_next f' \<le> guard_next f + row_budget row + height t"
    using row_insertion.insert_tree [where grow = "grow_root crc", OF d(1,2) rng(1) TrueI rows tk rng(2) b rng(3) h space grow]
    unfolding btree_insert_def by blast
  have "8 \<le> length row" "row_id row = k" using st by (simp_all add: storable_def)
  from tree_inserted_rows [OF ins rt old this] obtain P' xs ys where P': "row_tree (guard_view crc f') P' t'"
    "\<forall>n \<in> set (tree_pages t') \<union> P'. unat n < guard_next f'" "P \<subseteq> P'"
    "guard_contents crc f t = xs @ ys" "guard_contents crc f' t' = xs @ (k, row) # ys"
    "\<forall>n \<in> set (tree_pages t') \<union> P'. n \<in> set (tree_pages t) \<union> P \<or> guard_next f \<le> unat n"
    "\<forall>m. unat m < guard_next f \<longrightarrow> m \<notin> set (tree_pages t) \<longrightarrow> guard_view crc f' m = guard_view crc f m"
    using le(1) by blast
  have "guard_contents crc f' t' = insort_key fst (k, row) (guard_contents crc f t)"
    using contents_sorted [OF P'(1)] unfolding P'(4,5) by (rule insort_middle [symmetric])
  moreover have "height t' \<le> Suc (height t)" using ins by (simp add: tree_inserted_def)
  ultimately show ?thesis using run P' le by (auto simp: tree_in_def)
qed

text \<open>A rowid that is taken: the error, and nothing changes.\<close>

lemma find_leaf_step:
  assumes "find_leaf rd (child_for k) err (Suc d) pg = Inr n" "rd pg = Inr p"
  shows "is_leaf p \<Longrightarrow> n = pg"
    and "\<not> is_leaf p \<Longrightarrow> \<exists>i c. find_child p k = Inr (i, c) \<and> find_leaf rd (child_for k) err d c = Inr n"
  using assms by (auto simp: child_for_def res_bind_def split: sum.splits)

lemma find_leaf_page: "find_leaf rd child err (Suc d) pg = Inr n \<Longrightarrow> \<exists>p. rd pg = Inr p"
  by (cases "rd pg") auto

lemma insert_recursive_error:
  assumes "find_leaf (guard_view crc f) (child_for k) err d pg = Inr n" "guard_view crc f n = Inr p"
    and "insert_into_leaf crc n p k row f = (Inl e, f')"
  shows "insert_recursive crc d pg k row f = (Inl e, f')"
  using assms(1)
proof (induction d arbitrary: pg)
  case (Suc d)
  obtain q where q: "guard_view crc f pg = Inr q" using find_leaf_page [OF Suc.prems] by blast
  show ?case
  proof (cases "is_leaf q")
    case True
    then show ?thesis using find_leaf_step(1) [OF Suc.prems q] q assms(2,3) by (simp add: sm_bind_view_Inr)
  next
    case False
    then obtain i c where c: "find_child q k = Inr (i, c)" "find_leaf (guard_view crc f) (child_for k) err d c = Inr n"
      using find_leaf_step(2) [OF Suc.prems q] by blast
    then show ?thesis using q False Suc.IH by (simp add: sm_bind_view_Inr sm_bind_Inl)
  qed
qed simp

lemma delete_recursive_leaf:
  assumes "find_leaf (guard_view crc f) (child_for k) err d pg = Inr n" "guard_view crc f n = Inr p"
  shows "delete_recursive crc d pg k f = delete_from_leaf crc n k p f"
  using assms(1)
proof (induction d arbitrary: pg)
  case (Suc d)
  obtain q where q: "guard_view crc f pg = Inr q" using find_leaf_page [OF Suc.prems] by blast
  show ?case
  proof (cases "is_leaf q")
    case True
    then show ?thesis using find_leaf_step(1) [OF Suc.prems q] q assms(2) by (simp add: sm_bind_view_Inr)
  next
    case False
    then obtain i c where c: "find_child q k = Inr (i, c)" "find_leaf (guard_view crc f) (child_for k) err d c = Inr n"
      using find_leaf_step(2) [OF Suc.prems q] by blast
    then show ?thesis using q False Suc.IH by (simp add: sm_bind_view_Inr)
  qed
qed simp

text \<open>The leaf of a key, in its place in the chain.\<close>

lemma tree_leaf:
  assumes t: "row_tree rd P t" and h: "height t \<le> MAX_TREE_DEPTH"
  obtains n rows p as bs where "leaves t = as @ (n, rows) # bs" "leaf_for t k = (n, rows)"
    "find_leaf rd (child_for k) err MAX_TREE_DEPTH (root_of t) = Inr n" "rd n = Inr p"
    "leaf_page p (first_page bs 0) (last_page 0 as) rows" "rows_sorted rows"
    "\<forall>r \<in> set (leaf_rows as). row_id r < k" "\<forall>r \<in> set (leaf_rows bs). k < row_id r"
proof -
  note d = row_treeD [OF t]
  obtain as bs where ab: "leaves t = as @ leaf_for t k # bs" "\<forall>r \<in> set (leaf_rows as). row_id r < k"
    "\<forall>r \<in> set (leaf_rows bs). k < row_id r" using leaf_for_split [OF d(3)] by blast
  obtain n rows where n: "leaf_for t k = (n, rows)" by (cases "leaf_for t k")
  obtain p where p: "rd n = Inr p" "leaf_page p (first_page bs 0) (last_page 0 as) rows"
    using d(2) ab(1) n by (auto simp: chain_ok_append)
  have "tree_rows t = leaf_rows as @ rows @ leaf_rows bs" using ab(1) n by (simp add: tree_rows_def)
  then have "sorted_wrt (<) (map row_id rows)" "\<forall>r \<in> set rows. 8 \<le> length r"
    using ordered_sorted [OF d(3)] d(7) stored_row(1) by (auto simp: sorted_wrt_append)
  then have "rows_sorted rows" by (simp add: rows_sorted_def)
  then show ?thesis using that ab n p find_leaf_row(1) [OF t h, of k err] by simp
qed

lemma btree_insert_duplicate:
  assumes t: "tree_in crc f P t" and h: "height t \<le> MAX_TREE_DEPTH" and k: "k \<in> fst ` set (guard_contents crc f t)"
  shows "btree_insert crc (root_of t) k row f = (Inl (Fail (DuplicateKey k)), f)"
proof -
  have rt: "row_tree (guard_view crc f) P t" using t by (simp add: tree_in_def)
  from tree_leaf [OF rt h, of k "''''"] obtain n rows p as bs where l: "leaves t = as @ (n, rows) # bs"
    "find_leaf (guard_view crc f) (child_for k) '''' MAX_TREE_DEPTH (root_of t) = Inr n" "guard_view crc f n = Inr p"
    "leaf_page p (first_page bs 0) (last_page 0 as) rows" "rows_sorted rows"
    "\<forall>r \<in> set (leaf_rows as). row_id r < k" "\<forall>r \<in> set (leaf_rows bs). k < row_id r" by metis
  have "tree_rows t = leaf_rows as @ rows @ leaf_rows bs" using l(1) by (simp add: tree_rows_def)
  then have "k \<in> row_id ` set rows" using k l(6,7) unfolding contents_keys by auto
  then obtain i where i: "i < length rows" "row_id (rows ! i) = k" by (auto simp: in_set_conv_nth)
  have "insert_into_leaf crc n p k row f = (Inl (Fail (DuplicateKey k)), f)"
    using find_insertion_point_found [OF l(4,5) i] by (simp add: insert_into_leaf_def Let_def)
  from insert_recursive_error [OF l(2,3) this] show ?thesis by (simp add: btree_insert_def sm_bind_Inl)
qed

section \<open>Rewriting one leaf\<close>

lemma row_tree_edit:
  assumes t: "row_tree rd P t" and split: "leaves t = as @ (n, rows) # bs"
    and p: "leaf_page p (first_page bs 0) (last_page 0 as) rows'"
    and rows': "sorted_wrt (<) (map row_id rows')" "row_id ` set rows' \<subseteq> row_id ` set rows" "\<forall>r \<in> set rows'. stored rd P r"
  shows "\<exists>t'. row_tree (rd(n := Inr p)) P t' \<and> leaves t' = as @ (n, rows') # bs
    \<and> root_of t' = root_of t \<and> height t' = height t \<and> tree_pages t' = tree_pages t"
proof -
  let ?rd = "rd(n := Inr p)"
  note d = row_treeD [OF t]
  have PT: "P \<inter> set (tree_pages t) = {}" "0 \<notin> set (tree_pages t)" "distinct (tree_pages t)" "in_range row_id None None t"
    using t by (simp_all add: row_tree_def)
  from edit_leaf_tree [OF d(1,2) PT(4,3) split p rows'(1,2)] obtain t' where t':
    "branches_at branch_page ?rd t'" "chain_ok ?rd 0 (leaves t') 0" "in_range row_id None None t'"
    "leaves t' = as @ (n, rows') # bs" "root_of t' = root_of t" "height t' = height t" "tree_pages t' = tree_pages t"
    by blast
  have old: "\<forall>m \<in> P. ?rd m = rd m" using PT(1) split by (auto simp: tree_pages_def)
  have "\<forall>r \<in> set (tree_rows t'). stored ?rd P r"
  proof
    fix r assume "r \<in> set (tree_rows t')"
    then have "r \<in> set rows' \<or> r \<in> set (tree_rows t)" unfolding tree_rows_def t'(4) split by auto
    then have "stored rd P r" using rows'(3) d(7) by blast
    then show "stored ?rd P r" using stored_frame(1) old by blast
  qed
  then have "row_tree ?rd P t'" using t' PT by (simp add: row_tree_def)
  then show ?thesis using t' by blast
qed

section \<open>Deletion\<close>

lemma check_overflow_ok:
  assumes "leaf_page p nx pv rows" "i < length rows" "8 \<le> length (rows ! i)"
  shows "check_overflow p i (length rows) = Inr ()"
proof -
  have "rows ! i \<noteq> []" using assms(3) by auto
  from row_slice_leaf [OF assms(1,2) this, of row_bounds]
  have slice: "row_slice row_bounds p i (length rows) = Inr (Some (rows ! i))" using leaf_pageD(9) [OF assms(1)] by simp
  have "\<exists>x. decode_overflow_trailer (rows ! i) = Inr x" if "has_overflow (rows ! i)"
    using that by (auto simp: has_overflow_def decode_overflow_trailer_def u32_at_Inr Let_def)
  then show ?thesis using slice by (auto simp: check_overflow_def)
qed

lemma removed_filter:
  assumes "sorted_wrt (<) (map key rows)" "i < length rows"
  shows "removed i rows = filter (\<lambda>r. key r \<noteq> (key (rows ! i) :: 'k::linorder)) rows"
proof -
  have rows: "rows = take i rows @ rows ! i # drop (Suc i) rows" by (rule id_take_nth_drop [OF assms(2)])
  then have "sorted_wrt (<) (map key (take i rows @ rows ! i # drop (Suc i) rows))" using assms(1) by simp
  then have "\<forall>r \<in> set (take i rows). key r < key (rows ! i)" "\<forall>r \<in> set (drop (Suc i) rows). key (rows ! i) < key r"
    by (simp_all add: sorted_wrt_append)
  then have "filter (\<lambda>r. key r \<noteq> key (rows ! i)) (take i rows) = take i rows"
    "filter (\<lambda>r. key r \<noteq> key (rows ! i)) (drop (Suc i) rows) = drop (Suc i) rows"
    by (auto simp: filter_id_conv dest!: bspec)
  then have "filter (\<lambda>r. key r \<noteq> key (rows ! i)) (take i rows @ rows ! i # drop (Suc i) rows)
      = take i rows @ drop (Suc i) rows" by simp
  then show ?thesis using rows by (simp add: removed_def)
qed

lemma delete_from_leaf_run:
  assumes v: "guard_view crc f n = Inr p" and p: "leaf_page p nx pv rows" and srt: "rows_sorted rows"
  shows "\<exists>f' q. delete_from_leaf crc n k p f = (Inr (k \<in> row_id ` set rows), f')
    \<and> guard_view crc f' = (guard_view crc f)(n := Inr q) \<and> leaf_page q nx pv (filter (\<lambda>r. row_id r \<noteq> k) rows)
    \<and> guard_next f' = guard_next f"
proof (cases "k \<in> row_id ` set rows")
  case True
  then obtain i where i: "i < length rows" "row_id (rows ! i) = k" by (auto simp: in_set_conv_nth)
  have "8 \<le> length (rows ! i)" using srt i(1) by (simp add: rows_sorted_def)
  note chk = check_overflow_ok [OF p i(1) this]
  obtain q where q: "write_leaf_without p p (length rows) i = Inr q" "leaf_page q 0 0 (removed i rows)"
    using write_leaf_without_leaf [OF p i(1) leaf_pageD(1,2) [OF p]] by blast
  let ?q = "update_checksum crc (set_prev_leaf (set_next_leaf q nx) pv)"
  have lq: "leaf_page ?q nx pv (removed i rows)"
    using leaf_page_links(2) [OF leaf_page_links(1) [OF q(2), of nx], of pv] by (rule leaf_page_update_checksum)
  let ?g = "\<lambda>w. res_bind (write_leaf_without w p (length rows) i) (\<lambda>w.
      Inr (update_checksum crc (set_prev_leaf (set_next_leaf w (next_leaf p)) (prev_leaf p))))"
  have "?g p = Inr ?q" using q(1) leaf_pageD(5,6) [OF p] by simp
  from edit_run [OF v, of ?g, OF this] obtain f' where f': "edit_page crc n ?g f = (Inr (), f')"
    "guard_view crc f' = (guard_view crc f)(n := Inr ?q)" "guard_next f' = guard_next f" by blast
  have "removed i rows = filter (\<lambda>r. row_id r \<noteq> k) rows"
    using removed_filter [of row_id rows i] srt i by (simp add: rows_sorted_def)
  moreover have "rows \<noteq> []" using i(1) by auto
  ultimately show ?thesis
    using True find_insertion_point_found [OF p srt i] chk f' lq leaf_pageD(9) [OF p]
    by (intro exI [of _ f'] exI [of _ ?q]) (simp add: delete_from_leaf_def Let_def sm_bind_Inr)
next
  case False
  then obtain i where "find_insertion_point p k = Inr (i, False)" using find_insertion_point_absent [OF p srt] by blast
  moreover have "filter (\<lambda>r. row_id r \<noteq> k) rows = rows" using False by (auto simp: filter_id_conv)
  moreover have "(guard_view crc f)(n := Inr p) = guard_view crc f" using v by auto
  ultimately show ?thesis
    using False p leaf_pageD(9) [OF p]
    by (intro exI [of _ f] exI [of _ p]) (simp add: delete_from_leaf_def Let_def)
qed

lemma filter_contents:
  "map (entry_of rd) (filter (\<lambda>r. row_id r \<noteq> k) rows) = filter (\<lambda>e. fst e \<noteq> k) (map (entry_of rd) rows)"
  by (simp add: filter_map comp_def entry_of_def)

lemma find_leaf_update:
  assumes "rd n = Inr p" "is_leaf p" "is_leaf q"
  shows "find_leaf (rd(n := Inr q)) child err d root = find_leaf rd child err d root"
  using assms by (induction d arbitrary: root) (auto intro!: res_bind_cong)

lemma btree_delete_run:
  assumes t: "tree_in crc f P t" and h: "height t \<le> MAX_TREE_DEPTH"
  shows "\<exists>t' f'. btree_delete crc (root_of t) k f = (Inr (k \<in> fst ` set (guard_contents crc f t)), f')
    \<and> tree_in crc f' P t' \<and> root_of t' = root_of t \<and> height t' = height t \<and> tree_pages t' = tree_pages t
    \<and> guard_contents crc f' t' = filter (\<lambda>e. fst e \<noteq> k) (guard_contents crc f t)
    \<and> guard_next f' = guard_next f \<and> snd (leaf_for t' k) = filter (\<lambda>r. row_id r \<noteq> k) (snd (leaf_for t k))
    \<and> (\<forall>m. m \<notin> set (tree_pages t) \<longrightarrow> guard_view crc f' m = guard_view crc f m)"
proof -
  have rt: "row_tree (guard_view crc f) P t" and old: "\<forall>n \<in> set (tree_pages t) \<union> P. unat n < guard_next f"
    using t by (simp_all add: tree_in_def)
  note d = row_treeD [OF rt]
  from tree_leaf [OF rt h, of k "''''"] obtain n rows p as bs where l: "leaves t = as @ (n, rows) # bs"
    "find_leaf (guard_view crc f) (child_for k) '''' MAX_TREE_DEPTH (root_of t) = Inr n" "guard_view crc f n = Inr p"
    "leaf_page p (first_page bs 0) (last_page 0 as) rows" "rows_sorted rows"
    "\<forall>r \<in> set (leaf_rows as). row_id r < k" "\<forall>r \<in> set (leaf_rows bs). k < row_id r" "leaf_for t k = (n, rows)" by metis
  have all: "tree_rows t = leaf_rows as @ rows @ leaf_rows bs" using l(1) by (simp add: tree_rows_def)
  obtain f' q where f': "delete_from_leaf crc n k p f = (Inr (k \<in> row_id ` set rows), f')"
    "guard_view crc f' = (guard_view crc f)(n := Inr q)"
    "leaf_page q (first_page bs 0) (last_page 0 as) (filter (\<lambda>r. row_id r \<noteq> k) rows)" "guard_next f' = guard_next f"
    using delete_from_leaf_run [OF l(3,4,5)] by blast
  have srt: "sorted_wrt (<) (map row_id (filter (\<lambda>r. row_id r \<noteq> k) rows))"
    using l(5) by (simp add: rows_sorted_def sorted_wrt_map sorted_wrt_filter)
  have keys: "row_id ` set (filter (\<lambda>r. row_id r \<noteq> k) rows) \<subseteq> row_id ` set rows"
    and st: "\<forall>r \<in> set (filter (\<lambda>r. row_id r \<noteq> k) rows). stored (guard_view crc f) P r" using d(7) all by auto
  from row_tree_edit [OF rt l(1) f'(3) srt keys st] obtain t' where t': "row_tree (guard_view crc f') P t'"
    "leaves t' = as @ (n, filter (\<lambda>r. row_id r \<noteq> k) rows) # bs" "root_of t' = root_of t" "height t' = height t"
    "tree_pages t' = tree_pages t" unfolding f'(2) by blast
  have h': "height t' \<le> MAX_TREE_DEPTH" using h t'(4) by simp
  from tree_leaf [OF t'(1) h', of k "''''"] obtain rows1 n1 as1 bs1 where r1: "leaves t' = as1 @ (n1, rows1) # bs1"
    "leaf_for t' k = (n1, rows1)" "find_leaf (guard_view crc f') (child_for k) '''' MAX_TREE_DEPTH (root_of t') = Inr n1" by metis
  have "n1 = n"
    using r1(3) l(2) t'(3) find_leaf_update [where rd = "guard_view crc f", OF l(3) leaf_pageD(10) [OF l(4)] leaf_pageD(10) [OF f'(3)]] by (simp add: f'(2))
  then have "(n, rows1) \<in> set (leaves t')" unfolding r1(1) by simp
  moreover have "(n, filter (\<lambda>r. row_id r \<noteq> k) rows) \<in> set (leaves t')" unfolding t'(2) by simp
  ultimately have "rows1 = filter (\<lambda>r. row_id r \<noteq> k) rows"
    using eq_key_imp_eq_value [OF row_treeD(5) [OF t'(1)]] by metis
  then have leaf: "snd (leaf_for t' k) = filter (\<lambda>r. row_id r \<noteq> k) (snd (leaf_for t k))"
    using r1(2) l(8) by simp
  have n: "n \<in> set (tree_pages t)" "n \<notin> P" using l(1) rt by (auto simp: tree_pages_def row_tree_def)
  have "filter (\<lambda>r. row_id r \<noteq> k) (leaf_rows as) = leaf_rows as" "filter (\<lambda>r. row_id r \<noteq> k) (leaf_rows bs) = leaf_rows bs"
    using l(6,7) by (auto simp: filter_id_conv)
  then have rows': "tree_rows t' = filter (\<lambda>r. row_id r \<noteq> k) (tree_rows t)"
    unfolding all by (simp add: tree_rows_def t'(2))
  have "map (entry_of (guard_view crc f')) (tree_rows t') = map (entry_of (guard_view crc f)) (tree_rows t')"
    by (rule contents_frame [where P = P]) (use d(7) rows' n(2) f'(2) in auto)
  then have "guard_contents crc f' t' = filter (\<lambda>e. fst e \<noteq> k) (guard_contents crc f t)"
    by (simp only: contents_def rows' filter_contents)
  moreover have "(k \<in> row_id ` set rows) = (k \<in> fst ` set (guard_contents crc f t))"
    unfolding contents_keys all using l(6,7) by auto
  ultimately show ?thesis
    using t' f' old n leaf delete_recursive_leaf [OF l(2,3)]
    by (intro exI [of _ t'] exI [of _ f']) (auto simp: btree_delete_def tree_in_def)
qed

section \<open>Creation\<close>

lemma btree_create_run:
  assumes "0 < guard_next f" "guard_next f < 2 ^ 32 - 1"
  shows "\<exists>n f'. btree_create crc f = (Inr n, f') \<and> unat n = guard_next f \<and> tree_in crc f' {} (BLeaf n [])
    \<and> guard_next f' = Suc (guard_next f) \<and> (\<forall>m. m \<noteq> n \<longrightarrow> guard_view crc f' m = guard_view crc f m)"
proof -
  let ?n = "of_nat (guard_next f) :: u32"
  have n: "unat ?n = guard_next f" using assms by (simp add: take_bit_nat_eq_self unsigned_of_nat)
  obtain f1 where f1: "allocate_page f = (Inr ?n, f1)" "guard_view crc f1 = (guard_view crc f)(?n := Inr page_default)"
    "guard_next f1 = Suc (guard_next f)" using alloc_default_run [OF assms(2) n] by blast
  obtain f2 where f2: "put_page ?n (new_leaf crc) f1 = (Inr (), f2)"
    "guard_view crc f2 = (guard_view crc f1)(?n := Inr (new_leaf crc))" "guard_next f2 = guard_next f1" using put_run by blast
  have "?n \<noteq> 0" using n assms(1) by (metis less_irrefl unat_0)
  then have "tree_in crc f2 {} (BLeaf ?n [])"
    using f2 f1 n leaf_page_new by (auto simp: tree_in_def row_tree_def tree_pages_def)
  then show ?thesis using f1 f2 n by (intro exI [of _ ?n] exI [of _ f2]) (simp add: btree_create_def sm_bind_Inr)
qed

section \<open>The walk that rewrites leaves\<close>

text \<open>A visit turns the rows \<open>rows\<close> of a leaf into \<open>g rows\<close> and its accumulator by \<open>A\<close>.\<close>

definition visits ::
  "(bytes \<Rightarrow> u32) \<Rightarrow> u32 set \<Rightarrow> reader \<Rightarrow> (u32 \<Rightarrow> page \<Rightarrow> 'a \<Rightarrow> 'a guarded) \<Rightarrow> (bytes list \<Rightarrow> 'a \<Rightarrow> 'a)
     \<Rightarrow> (bytes list \<Rightarrow> bytes list) \<Rightarrow> bool" where
  "visits crc P rd0 visit A g \<longleftrightarrow> (\<forall>f n p nx pv rows acc.
     guard_view crc f n = Inr p \<longrightarrow> leaf_page p nx pv rows \<longrightarrow> rows_sorted rows \<longrightarrow>
     (\<forall>r \<in> set rows. stored (guard_view crc f) P r) \<longrightarrow> (\<forall>m \<in> P. guard_view crc f m = rd0 m) \<longrightarrow>
     (\<exists>f' q. visit n p acc f = (Inr (A rows acc), f') \<and> guard_view crc f' = (guard_view crc f)(n := Inr q)
        \<and> leaf_page q nx pv (g rows) \<and> guard_next f' = guard_next f))"

definition keeps_rows :: "u32 set \<Rightarrow> reader \<Rightarrow> (bytes list \<Rightarrow> bytes list) \<Rightarrow> bool" where
  "keeps_rows P rd0 g \<longleftrightarrow> (\<forall>rows rd. rows_sorted rows \<longrightarrow> (\<forall>r \<in> set rows. stored rd P r) \<longrightarrow>
     (\<forall>m \<in> P. rd m = rd0 m) \<longrightarrow>
     rows_sorted (g rows) \<and> row_id ` set (g rows) \<subseteq> row_id ` set rows \<and> (\<forall>r \<in> set (g rows). stored rd P r))"

lemma walk_w_run:
  assumes step: "visits crc P rd0 visit A g" and g: "keeps_rows P rd0 g"
    and "row_tree (guard_view crc f) P t" "leaves t = as @ bs" "bs \<noteq> []" "length bs \<le> k" "\<forall>m \<in> P. guard_view crc f m = rd0 m"
  shows "\<exists>f' t'. walk_w crc visit err k (first_page bs 0) acc f = (Inr (fold A (map snd bs) acc), f')
    \<and> row_tree (guard_view crc f') P t' \<and> leaves t' = as @ map (\<lambda>(n, rows). (n, g rows)) bs
    \<and> root_of t' = root_of t \<and> height t' = height t \<and> tree_pages t' = tree_pages t
    \<and> guard_next f' = guard_next f \<and> (\<forall>m. m \<notin> fst ` set bs \<longrightarrow> guard_view crc f' m = guard_view crc f m)"
  using assms(3-7)
proof (induction bs arbitrary: as f t k acc)
  case (Cons b bs)
  obtain n rows where b: "b = (n, rows)" by (cases b)
  obtain k' where k: "k = Suc k'" using Cons.prems(4) by (cases k) auto
  note d = row_treeD [OF Cons.prems(1)]
  have split: "leaves t = as @ (n, rows) # bs" using Cons.prems(2) b by simp
  obtain p where p: "guard_view crc f n = Inr p" "leaf_page p (first_page bs 0) (last_page 0 as) rows"
    using d(2) split by (auto simp: chain_ok_append)
  have all: "tree_rows t = leaf_rows as @ rows @ leaf_rows bs" using split by (simp add: tree_rows_def)
  then have st: "\<forall>r \<in> set rows. stored (guard_view crc f) P r" using d(7) by auto
  then have srt: "rows_sorted rows"
    using ordered_sorted [OF d(3)] all stored_row(1) by (auto simp: rows_sorted_def sorted_wrt_append)
  obtain f1 q where f1: "visit n p acc f = (Inr (A rows acc), f1)" "guard_view crc f1 = (guard_view crc f)(n := Inr q)"
    "leaf_page q (first_page bs 0) (last_page 0 as) (g rows)" "guard_next f1 = guard_next f"
    using step p srt st Cons.prems(5) unfolding visits_def by blast
  have gr: "sorted_wrt (<) (map row_id (g rows))" "row_id ` set (g rows) \<subseteq> row_id ` set rows"
    "\<forall>r \<in> set (g rows). stored (guard_view crc f) P r" using g srt st Cons.prems(5) unfolding keeps_rows_def rows_sorted_def by blast+
  from row_tree_edit [OF Cons.prems(1) split f1(3) gr] obtain t1 where t1: "row_tree (guard_view crc f1) P t1"
    "leaves t1 = (as @ [(n, g rows)]) @ bs" "root_of t1 = root_of t" "height t1 = height t" "tree_pages t1 = tree_pages t"
    unfolding f1(2) by auto
  have run: "walk_w crc visit err k (first_page (b # bs) 0) acc f =
      (if first_page bs 0 = 0 then (Inr (A rows acc), f1)
       else walk_w crc visit err k' (first_page bs 0) (A rows acc) f1)"
    using p f1(1) leaf_pageD(5) [OF p(2)] by (simp add: k b sm_bind_view_Inr sm_bind_Inr)
  have nP: "n \<notin> P" using Cons.prems(1) split by (auto simp: row_tree_def tree_pages_def)
  show ?case
  proof (cases "bs = []")
    case True
    then show ?thesis using run t1 f1(2,4) b by (intro exI [of _ f1] exI [of _ t1]) (simp del: fun_upd_apply, simp)
  next
    case False
    then have "first_page bs 0 \<in> fst ` set (leaves t)" using split by (cases bs) auto
    then have nz: "first_page bs 0 \<noteq> 0" using d(4) by metis
    have "\<forall>m \<in> P. guard_view crc f1 m = rd0 m" using Cons.prems(5) nP f1(2) by auto
    moreover have "length bs \<le> k'" using Cons.prems(4) k by simp
    ultimately obtain f' t' where
      "walk_w crc visit err k' (first_page bs 0) (A rows acc) f1 = (Inr (fold A (map snd bs) (A rows acc)), f')"
      "row_tree (guard_view crc f') P t'" "leaves t' = (as @ [(n, g rows)]) @ map (\<lambda>(n, rows). (n, g rows)) bs"
      "root_of t' = root_of t1" "height t' = height t1" "tree_pages t' = tree_pages t1" "guard_next f' = guard_next f1"
      "\<forall>m. m \<notin> fst ` set bs \<longrightarrow> guard_view crc f' m = guard_view crc f1 m"
      using Cons.IH [OF t1(1,2) False] by blast
    then show ?thesis using run nz t1 f1 b by (intro exI [of _ f'] exI [of _ t']) simp
  qed
qed simp

lemma tree_leaves_bound:
  assumes "tree_in crc f P t" shows "length (leaves t) \<le> guard_next f"
proof -
  have old: "\<forall>n \<in> set (tree_pages t). unat n < guard_next f" and d: "distinct (map fst (leaves t))"
    using assms row_treeD(5) by (auto simp: tree_in_def)
  have "unat ` fst ` set (leaves t) \<subseteq> {..<guard_next f}" using old by (auto simp: tree_pages_def)
  then have "card (unat ` fst ` set (leaves t)) \<le> guard_next f"
    using card_mono [of "{..<guard_next f}"] by fastforce
  moreover have "card (unat ` fst ` set (leaves t)) = length (leaves t)"
    using distinct_card [OF d] card_image [OF inj_onI, of "fst ` set (leaves t)" unat]
    by (simp add: word_unat_eq_iff)
  ultimately show ?thesis by simp
qed

text \<open>The same from the leftmost leaf of a tree, as the bulk operations start it.\<close>

lemma bulk_run:
  assumes step: "visits crc P (guard_view crc f0) visit A g" and g: "keeps_rows P (guard_view crc f0) g"
    and t: "tree_in crc f0 P t" and h: "height t \<le> MAX_TREE_DEPTH" and small: "guard_next f0 < 2 ^ 32"
  shows "\<exists>f' t'. sm_bind (sm_view (\<lambda>f. find_leftmost_leaf_w crc f (root_of t))) (\<lambda>first_leaf.
      sm_bind (sm_view max_pages_w) (\<lambda>mx. walk_w crc visit err mx first_leaf acc)) f0
      = (Inr (fold A (map snd (leaves t)) acc), f')
    \<and> tree_in crc f' P t' \<and> leaves t' = map (\<lambda>(n, rows). (n, g rows)) (leaves t)
    \<and> root_of t' = root_of t \<and> height t' = height t \<and> tree_pages t' = tree_pages t \<and> guard_next f' = guard_next f0
    \<and> (\<forall>m. m \<notin> set (tree_pages t) \<longrightarrow> guard_view crc f' m = guard_view crc f0 m)"
proof -
  have rt: "row_tree (guard_view crc f0) P t" and old: "\<forall>n \<in> set (tree_pages t) \<union> P. unat n < guard_next f0"
    using t by (simp_all add: tree_in_def)
  note d = row_treeD [OF rt]
  have len: "length (leaves t) \<le> guard_next f0" by (rule tree_leaves_bound [OF t])
  have "leaves t = [] @ leaves t" "\<forall>m \<in> P. guard_view crc f0 m = guard_view crc f0 m" by simp_all
  from walk_w_run [OF step g rt this(1) d(6) len this(2), where acc = acc and err = err] obtain f' t' where
    "walk_w crc visit err (guard_next f0) (first_page (leaves t) 0) acc f0 = (Inr (fold A (map snd (leaves t)) acc), f')"
    "row_tree (guard_view crc f') P t'" "leaves t' = map (\<lambda>(n, rows). (n, g rows)) (leaves t)"
    "root_of t' = root_of t" "height t' = height t" "tree_pages t' = tree_pages t"
    "guard_next f' = guard_next f0" "\<forall>m. m \<notin> fst ` set (leaves t) \<longrightarrow> guard_view crc f' m = guard_view crc f0 m"
    unfolding append_Nil by blast
  then show ?thesis
    using find_leaf_row(2) [OF rt h] small old
    by (intro exI [of _ f'] exI [of _ t'])
      (auto simp: find_leftmost_leaf_w_def sm_bind_view max_pages_w_def tree_in_def tree_pages_def)
qed

section \<open>Bulk deletion\<close>

lemma filter_upt_nth: "map ((!) xs) (filter (\<lambda>i. K (xs ! i)) [0..<length xs]) = filter K xs"
  using filter_map [of K "(!) xs" "[0..<length xs]"] by (simp add: map_nth comp_def)

lemma concat_singletons: "concat (map (\<lambda>i. if K i then [h i] else []) is) = map h (filter K is)"
  by (induction "is") simp_all

lemma match_row_stored:
  assumes p: "leaf_page p nx pv rows" and i: "i < length rows" and st: "stored rd P (rows ! i)"
  shows "match_row rd (\<lambda>r. Inr (K r)) p i = Inr (if K (rows ! i) then Some (i, row_at rd (rows ! i)) else None)"
  using row_slice_leaf [OF p i stored_row(2) [OF st], of row_bounds_raw] stored_row(3) [OF st]
  by (simp add: match_row_def)

lemma delete_matches:
  assumes p: "leaf_page p nx pv rows" and st: "\<forall>r \<in> set rows. stored rd P r"
  shows "res_map (delete_match rd (\<lambda>r. Inr (K r)) p) [0..<length rows] =
    Inr (map (\<lambda>i. if K (rows ! i) then [(i, entry_of rd (rows ! i))] else []) [0..<length rows])"
proof (rule res_map_Inr)
  fix i assume "i \<in> set [0..<length rows]"
  then have i: "i < length rows" "stored rd P (rows ! i)" using st by auto
  show "delete_match rd (\<lambda>r. Inr (K r)) p i = Inr (if K (rows ! i) then [(i, entry_of rd (rows ! i))] else [])"
    using match_row_stored [OF p i] stored_row(5) [OF i(2)] by (simp add: delete_match_def entry_of_def)
qed

lemma delete_visit_run:
  "visits crc P rd0 (delete_visit crc (\<lambda>r. Inr (K r)))
     (\<lambda>rows acc. acc @ map (entry_of rd0) (filter K rows)) (filter (\<lambda>r. \<not> K r))"
  unfolding visits_def
proof (intro allI impI)
  fix f n p nx pv rows and acc :: hits
  assume v: "guard_view crc f n = Inr p" and p: "leaf_page p nx pv rows" and "rows_sorted rows"
    and st: "\<forall>r \<in> set rows. stored (guard_view crc f) P r" and same: "\<forall>m \<in> P. guard_view crc f m = rd0 m"
  let ?rd = "guard_view crc f" and ?is = "filter (\<lambda>i. K (rows ! i)) [0..<length rows]"
  have out: "map (\<lambda>i. entry_of ?rd (rows ! i)) ?is = map (entry_of rd0) (filter K rows)"
  proof -
    have "map (\<lambda>i. entry_of ?rd (rows ! i)) ?is = map (entry_of ?rd) (map ((!) rows) ?is)" by simp
    also have "\<dots> = map (entry_of rd0) (filter K rows)"
      unfolding filter_upt_nth by (rule contents_frame [symmetric, where P = P]) (use st same in auto)
    finally show ?thesis .
  qed
  have ms: "res_map (delete_match ?rd (\<lambda>r. Inr (K r)) p) [0..<length rows] =
      Inr (map (\<lambda>i. if K (rows ! i) then [(i, entry_of ?rd (rows ! i))] else []) [0..<length rows])"
    by (rule delete_matches [OF p st])
  note cs = concat_singletons [of "\<lambda>i. K (rows ! i)" "\<lambda>i. (i, entry_of ?rd (rows ! i))" "[0..<length rows]"]
  have kept: "kept ?is rows = filter (\<lambda>r. \<not> K r) rows"
  proof -
    have "filter (\<lambda>j. j \<notin> set ?is) [0..<length rows] = filter (\<lambda>j. \<not> K (rows ! j)) [0..<length rows]"
      by (rule filter_cong) auto
    then show ?thesis by (simp add: kept_def filter_upt_nth [of _ "\<lambda>r. \<not> K r"])
  qed
  show "\<exists>f' q. delete_visit crc (\<lambda>r. Inr (K r)) n p acc f = (Inr (acc @ map (entry_of rd0) (filter K rows)), f')
    \<and> guard_view crc f' = ?rd(n := Inr q) \<and> leaf_page q nx pv (filter (\<lambda>r. \<not> K r) rows) \<and> guard_next f' = guard_next f"
  proof (cases "?is = []")
    case True
    have "filter K rows = []" using True filter_upt_nth [of rows K] by (metis list.map_disc_iff)
    moreover from this have "filter (\<lambda>r. \<not> K r) rows = rows" by (auto simp: filter_id_conv filter_empty_conv)
    moreover have "?rd(n := Inr p) = ?rd" using v by auto
    ultimately show ?thesis
      using p ms cs True leaf_pageD(9) [OF p]
      by (intro exI [of _ f] exI [of _ p]) (simp add: delete_visit_def Let_def sm_bind_view_Inr)
  next
    case False
    have "sorted_wrt (<) ?is" "\<forall>x \<in> set ?is. x < length rows" by (auto intro: sorted_wrt_filter)
    from write_leaf_without_multiple_leaf [OF p leaf_pageD(1,2) [OF p] this] obtain q where
      q: "write_leaf_without_multiple p p (length rows) ?is = Inr q" "leaf_page q 0 0 (filter (\<lambda>r. \<not> K r) rows)"
      unfolding kept by blast
    let ?q = "update_checksum crc (set_prev_leaf (set_next_leaf q nx) pv)"
    have lq: "leaf_page ?q nx pv (filter (\<lambda>r. \<not> K r) rows)"
      using leaf_page_links(2) [OF leaf_page_links(1) [OF q(2), of nx], of pv] by (rule leaf_page_update_checksum)
    let ?g = "\<lambda>w. res_bind (write_leaf_without_multiple w p (length rows) ?is) (\<lambda>w.
        Inr (update_checksum crc (set_prev_leaf (set_next_leaf w (next_leaf p)) (prev_leaf p))))"
    have "?g p = Inr ?q" using q(1) leaf_pageD(5,6) [OF p] by simp
    from edit_run [OF v, of ?g, OF this] obtain f' where f': "edit_page crc n ?g f = (Inr (), f')"
      "guard_view crc f' = ?rd(n := Inr ?q)" "guard_next f' = guard_next f" by blast
    then show ?thesis
      using ms cs False lq out leaf_pageD(9) [OF p]
      by (intro exI [of _ f'] exI [of _ ?q]) (simp add: delete_visit_def Let_def sm_bind_view_Inr sm_bind_Inr comp_def del: concat_eq_Nil_conv)
  qed
qed

lemma leaf_rows_map: "leaf_rows (map (\<lambda>(n, rows). (n, filter K rows)) ls) = filter K (leaf_rows ls)"
  by (induction ls) auto

lemma fold_append: "fold (\<lambda>x acc. acc @ h x) xs acc = acc @ concat (map h xs)"
  by (induction xs arbitrary: acc) simp_all

lemma delete_matching_run:
  assumes t: "tree_in crc f P t" and h: "height t \<le> MAX_TREE_DEPTH" and small: "guard_next f < 2 ^ 32"
  shows "\<exists>t' f'. delete_matching crc (root_of t) (\<lambda>r. Inr (K r)) f =
      (Inr (map (entry_of (guard_view crc f)) (filter K (tree_rows t))), f')
    \<and> tree_in crc f' P t' \<and> root_of t' = root_of t \<and> height t' = height t \<and> tree_pages t' = tree_pages t
    \<and> guard_contents crc f' t' = map (entry_of (guard_view crc f)) (filter (\<lambda>r. \<not> K r) (tree_rows t))
    \<and> guard_next f' = guard_next f
    \<and> (\<forall>m. m \<notin> set (tree_pages t) \<longrightarrow> guard_view crc f' m = guard_view crc f m)"
proof -
  let ?rd = "guard_view crc f"
  have "keeps_rows P ?rd (filter (\<lambda>r. \<not> K r))"
    by (auto simp: keeps_rows_def rows_sorted_def sorted_wrt_map sorted_wrt_filter)
  from bulk_run [OF delete_visit_run this t h small, where acc = "[]" and err = "''leaf chain cycle detected in delete_matching''"]
  obtain f' t' where r: "delete_matching crc (root_of t) (\<lambda>r. Inr (K r)) f =
      (Inr (fold (\<lambda>rows acc. acc @ map (entry_of ?rd) (filter K rows)) (map snd (leaves t)) []), f')"
    "tree_in crc f' P t'" "leaves t' = map (\<lambda>(n, rows). (n, filter (\<lambda>r. \<not> K r) rows)) (leaves t)"
    "root_of t' = root_of t" "height t' = height t" "tree_pages t' = tree_pages t" "guard_next f' = guard_next f"
    "\<forall>m. m \<notin> set (tree_pages t) \<longrightarrow> guard_view crc f' m = ?rd m"
    unfolding delete_matching_def by blast
  have rt: "row_tree ?rd P t" using t by (simp add: tree_in_def)
  have rows': "tree_rows t' = filter (\<lambda>r. \<not> K r) (tree_rows t)" by (simp add: tree_rows_def r(3) leaf_rows_map)
  have "\<forall>m \<in> P. guard_view crc f' m = ?rd m" using r(8) rt by (auto simp: row_tree_def)
  then have "map (entry_of (guard_view crc f')) (tree_rows t') = map (entry_of ?rd) (tree_rows t')"
    using row_treeD(7) [OF rt] by (intro contents_frame [where P = P]) (auto simp: rows')
  then have "guard_contents crc f' t' = map (entry_of ?rd) (filter (\<lambda>r. \<not> K r) (tree_rows t))"
    by (simp only: contents_def rows')
  moreover have "concat (map (\<lambda>x. map (entry_of ?rd) (filter K (snd x))) ls) = map (entry_of ?rd) (filter K (leaf_rows ls))" for ls
    by (induction ls) (auto simp: leaf_rows_def)
  ultimately show ?thesis using r by (intro exI [of _ t'] exI [of _ f']) (simp add: fold_append tree_rows_def comp_def)
qed

section \<open>Bulk update\<close>

definition updated_rows :: "reader \<Rightarrow> (bytes \<Rightarrow> bool) \<Rightarrow> (bytes \<Rightarrow> bytes) \<Rightarrow> bytes list \<Rightarrow> bytes list" where
  "updated_rows rd K U rows = map (\<lambda>r. if K r then U (row_at rd r) else r) rows"

definition change_of :: "reader \<Rightarrow> (bytes \<Rightarrow> bytes) \<Rightarrow> bytes \<Rightarrow> u64 \<times> bytes \<times> bytes" where
  "change_of rd U r = (row_id r, row_at rd r, U (row_at rd r))"

definition update_fits :: "reader \<Rightarrow> (bytes \<Rightarrow> bool) \<Rightarrow> (bytes \<Rightarrow> bytes) \<Rightarrow> bytes list \<Rightarrow> bool" where
  "update_fits rd K U rows \<longleftrightarrow> leaf_size (updated_rows rd K U rows) \<le> PAGE_SIZE"

definition leaf_update :: "reader \<Rightarrow> (bytes \<Rightarrow> bool) \<Rightarrow> (bytes \<Rightarrow> bytes) \<Rightarrow> bytes list \<Rightarrow> bytes list" where
  "leaf_update rd K U rows = (if update_fits rd K U rows then updated_rows rd K U rows else rows)"

definition leaf_changes ::
  "reader \<Rightarrow> (bytes \<Rightarrow> bool) \<Rightarrow> (bytes \<Rightarrow> bytes) \<Rightarrow> bytes list \<Rightarrow> changes \<times> changes \<Rightarrow> changes \<times> changes" where
  "leaf_changes rd K U rows = (\<lambda>(u, ov). let es = map (change_of rd U) (filter K rows) in
     if update_fits rd K U rows then (u @ es, ov) else (u, ov @ es))"

text \<open>An updater that keeps the rowid and whose rows are stored as they are.\<close>

definition plain_updater :: "(bytes \<Rightarrow> bytes) \<Rightarrow> bool" where
  "plain_updater U \<longleftrightarrow> (\<forall>r. 8 \<le> length r \<longrightarrow> 8 \<le> length (U r) \<and> row_id (U r) = row_id r \<and> \<not> has_overflow (U r))"

lemma updated_row:
  assumes U: "plain_updater U" and st: "stored rd P r"
  shows "stored rd' P' (U (row_at rd r))" "row_id (U (row_at rd r)) = row_id r"
    "entry_of rd' (U (row_at rd r)) = (row_id r, U (row_at rd r))"
proof -
  have at: "8 \<le> length (row_at rd r)" "row_id (row_at rd r) = row_id r"
    using st stands_for_read by (auto simp: stored_def row_at_def)
  then have u: "8 \<le> length (U (row_at rd r))" "row_id (U (row_at rd r)) = row_id r" "\<not> has_overflow (U (row_at rd r))"
    using U by (simp_all add: plain_updater_def)
  then have "stands_for rd' P' (U (row_at rd r)) (U (row_at rd r))" by (simp add: stands_for_def reassemble_row_def)
  then show "stored rd' P' (U (row_at rd r))" using u by (auto simp: stored_def)
  show "row_id (U (row_at rd r)) = row_id r" by (rule u(2))
  show "entry_of rd' (U (row_at rd r)) = (row_id r, U (row_at rd r))"
    using u by (simp add: entry_of_def row_at_def reassemble_row_def)
qed

lemma update_keeps_rows:
  assumes "plain_updater U" shows "keeps_rows P rd0 (leaf_update rd0 K U)"
  unfolding keeps_rows_def
proof (intro allI impI)
  fix rows rd assume srt: "rows_sorted rows" and st: "\<forall>r \<in> set rows. stored rd P r" and same: "\<forall>m \<in> P. rd m = rd0 m"
  have st0: "stored rd0 P r" if "r \<in> set rows" for r using stored_frame(1) [of rd P r rd0] st same that by simp
  note u = updated_row [OF assms(1) st0]
  let ?rows = "updated_rows rd0 K U rows"
  have ids: "map row_id ?rows = map row_id rows" using u(2) by (auto simp: updated_rows_def)
  have "\<forall>r \<in> set ?rows. stored rd P r" using u(1) st by (auto simp: updated_rows_def)
  moreover from this have "\<forall>r \<in> set ?rows. 8 \<le> length r" using stored_row(1) by blast
  moreover have "row_id ` set ?rows = row_id ` set rows" using arg_cong [OF ids, of set] by simp
  ultimately show "rows_sorted (leaf_update rd0 K U rows) \<and> row_id ` set (leaf_update rd0 K U rows) \<subseteq> row_id ` set rows
      \<and> (\<forall>r \<in> set (leaf_update rd0 K U rows). stored rd P r)"
    using srt st ids by (simp add: leaf_update_def rows_sorted_def)
qed

lemma update_matches:
  assumes p: "leaf_page p nx pv rows" and st: "\<forall>r \<in> set rows. stored rd P r"
  shows "res_map (update_match rd (\<lambda>r. Inr (K r)) (\<lambda>r. Inr (U r)) p) [0..<length rows] =
    Inr (map (\<lambda>i. if K (rows ! i) then [(i, U (row_at rd (rows ! i)), row_id (rows ! i), row_at rd (rows ! i))] else [])
      [0..<length rows])"
proof (rule res_map_Inr)
  fix i assume "i \<in> set [0..<length rows]"
  then have i: "i < length rows" "stored rd P (rows ! i)" using st by auto
  show "update_match rd (\<lambda>r. Inr (K r)) (\<lambda>r. Inr (U r)) p i =
      Inr (if K (rows ! i) then [(i, U (row_at rd (rows ! i)), row_id (rows ! i), row_at rd (rows ! i))] else [])"
    using match_row_stored [OF p i] stored_row(5) [OF i(2)] by (simp add: update_match_def)
qed

lemma replaced_updated:
  "replaced (map (\<lambda>i. (i, U (row_at rd (rows ! i)))) (filter (\<lambda>i. K (rows ! i)) [0..<length rows])) rows =
     updated_rows rd K U rows"
proof (rule nth_equalityI)
  fix j assume "j < length (replaced (map (\<lambda>i. (i, U (row_at rd (rows ! i)))) (filter (\<lambda>i. K (rows ! i)) [0..<length rows])) rows)"
  then have j: "j < length rows" by simp
  have "map_of (map (\<lambda>i. (i, h i)) is) j = (if j \<in> set is then Some (h j) else None)" for h :: "nat \<Rightarrow> bytes" and "is"
    by (induction "is") auto
  then show "replaced (map (\<lambda>i. (i, U (row_at rd (rows ! i)))) (filter (\<lambda>i. K (rows ! i)) [0..<length rows])) rows ! j =
      updated_rows rd K U rows ! j"
    using j by (simp add: replaced_def replaced_nth_def updated_rows_def)
qed (simp add: updated_rows_def)

lemma update_visit_run:
  "visits crc P rd0 (update_visit crc (\<lambda>r. Inr (K r)) (\<lambda>r. Inr (U r))) (leaf_changes rd0 K U) (leaf_update rd0 K U)"
  unfolding visits_def
proof (intro allI impI)
  fix f n p nx pv rows and acc :: "changes \<times> changes"
  assume v: "guard_view crc f n = Inr p" and p: "leaf_page p nx pv rows" and "rows_sorted rows"
    and st: "\<forall>r \<in> set rows. stored (guard_view crc f) P r" and same: "\<forall>m \<in> P. guard_view crc f m = rd0 m"
  let ?rd = "guard_view crc f" and ?is = "filter (\<lambda>i. K (rows ! i)) [0..<length rows]"
  obtain u ov where acc: "acc = (u, ov)" by (cases acc)
  have at: "row_at ?rd r = row_at rd0 r" if "r \<in> set rows" for r
    using stored_frame(2) [of ?rd P r rd0] st same that by simp
  have new: "updated_rows ?rd K U rows = updated_rows rd0 K U rows" using at by (simp add: updated_rows_def)
  define rs where "rs = map (\<lambda>i. (i, U (row_at ?rd (rows ! i)), row_id (rows ! i), row_at ?rd (rows ! i))) ?is"
  have ms: "res_map (update_match ?rd (\<lambda>r. Inr (K r)) (\<lambda>r. Inr (U r)) p) [0..<length rows] = Inr mss \<Longrightarrow> concat mss = rs" for mss
    using update_matches [OF p st, of K U] by (auto simp: concat_singletons rs_def)
  obtain mss where mss: "res_map (update_match ?rd (\<lambda>r. Inr (K r)) (\<lambda>r. Inr (U r)) p) [0..<length rows] = Inr mss"
    using update_matches [OF p st, of K U] by blast
  have es: "map (\<lambda>(_, new_bytes, rid, old_bytes). (rid, old_bytes, new_bytes)) rs = map (change_of rd0 U) (filter K rows)"
  proof -
    have "map (\<lambda>(_, new_bytes, rid, old_bytes). (rid, old_bytes, new_bytes)) rs = map (change_of ?rd U) (map ((!) rows) ?is)"
      by (simp add: rs_def change_of_def)
    also have "\<dots> = map (change_of rd0 U) (filter K rows)" unfolding filter_upt_nth using at by (simp add: change_of_def)
    finally show ?thesis .
  qed
  have repl: "map (\<lambda>(i, new_bytes, _). (i, new_bytes)) rs = map (\<lambda>i. (i, U (row_at ?rd (rows ! i)))) ?is"
    by (simp add: rs_def)
  show "\<exists>f' q. update_visit crc (\<lambda>r. Inr (K r)) (\<lambda>r. Inr (U r)) n p acc f = (Inr (leaf_changes rd0 K U rows acc), f')
    \<and> guard_view crc f' = ?rd(n := Inr q) \<and> leaf_page q nx pv (leaf_update rd0 K U rows) \<and> guard_next f' = guard_next f"
  proof (cases "?is = []")
    case True
    have none: "filter K rows = []" using True filter_upt_nth [of rows K] by (metis list.map_disc_iff)
    then have "updated_rows rd0 K U rows = rows" by (auto simp: updated_rows_def filter_empty_conv intro: map_idI)
    then have "leaf_update rd0 K U rows = rows" "leaf_changes rd0 K U rows acc = acc"
      using none by (simp_all add: leaf_update_def leaf_changes_def acc)
    moreover have "?rd(n := Inr p) = ?rd" "rs = []" using v True by (auto simp: rs_def)
    ultimately show ?thesis
      using p ms [OF mss] mss leaf_pageD(9) [OF p] acc
      by (intro exI [of _ f] exI [of _ p]) (simp add: update_visit_def Let_def sm_bind_view_Inr del: concat_eq_Nil_conv)
  next
    case False
    let ?reps = "map (\<lambda>i. (i, U (row_at ?rd (rows ! i)))) ?is"
    have ne: "rs \<noteq> []" using False by (simp add: rs_def)
    have "sorted_wrt (<) (map fst ?reps)" "\<forall>x \<in> fst ` set ?reps. x < length rows"
      by (auto simp: comp_def intro: sorted_wrt_filter)
    from write_leaf_with_replacements_leaf [OF p leaf_pageD(1,2) [OF p] this, of crc]
    obtain q where q: "write_leaf_with_replacements crc p p (length rows) ?reps = Inr (q, update_fits rd0 K U rows)"
      "update_fits rd0 K U rows \<Longrightarrow> leaf_page q nx pv (updated_rows rd0 K U rows)"
      unfolding replaced_updated new update_fits_def by (auto split: if_splits)
    obtain f1 where f1: "write_page crc n f = (Inr p, f1)" "guard_view crc f1 = ?rd" "guard_next f1 = guard_next f"
      using write_page_run [of crc n f] v by auto
    let ?w = "if update_fits rd0 K U rows then q else p"
    obtain f2 where f2: "put_page n ?w f1 = (Inr (), f2)" "guard_view crc f2 = (guard_view crc f1)(n := Inr ?w)"
      "guard_next f2 = guard_next f1" using put_run by blast
    have "update_visit crc (\<lambda>r. Inr (K r)) (\<lambda>r. Inr (U r)) n p acc f = (Inr (leaf_changes rd0 K U rows acc), f2)"
      using mss ms [OF mss] ne es repl q(1) f1(1) f2(1) leaf_pageD(9) [OF p] acc
      by (cases "update_fits rd0 K U rows")
        (simp_all add: update_visit_def Let_def sm_bind_view_Inr sm_bind_Inr leaf_changes_def del: concat_eq_Nil_conv)
    moreover have "leaf_page ?w nx pv (leaf_update rd0 K U rows)" using q(2) p by (simp add: leaf_update_def)
    ultimately show ?thesis using f1(2,3) f2(2,3) by (intro exI [of _ f2] exI [of _ ?w]) simp
  qed
qed

lemma fold_changes:
  "fold (leaf_changes rd K U) rss (u, ov) =
     (u @ concat (map (\<lambda>rows. if update_fits rd K U rows then map (change_of rd U) (filter K rows) else []) rss),
      ov @ concat (map (\<lambda>rows. if update_fits rd K U rows then [] else map (change_of rd U) (filter K rows)) rss))"
  by (induction rss arbitrary: u ov) (simp_all add: leaf_changes_def Let_def)

lemma rows_leaf_unique:
  assumes "distinct (concat rss)" "rows \<in> set rss" "rows' \<in> set rss" "r \<in> set rows" "r \<in> set rows'"
  shows "rows = rows'"
  using assms unfolding distinct_concat_iff by blast

lemma update_entries:
  assumes srt: "sorted_wrt (<) (map row_id (concat rss))" and st: "\<forall>r \<in> set (concat rss). stored rd P r"
    and same: "\<forall>m \<in> P. rd' m = rd m" and U: "plain_updater U" and rows: "rows \<in> set rss"
    and u: "u = concat (map (\<lambda>rows. if update_fits rd K U rows then map (change_of rd U) (filter K rows) else []) rss)"
  shows "map (entry_of rd') (leaf_update rd K U rows) =
    map (\<lambda>e. if fst e \<in> fst ` set u then (fst e, U (snd e)) else e) (map (entry_of rd) rows)"
proof -
  have dist: "distinct (concat rss)" using srt strict_sorted_iff [of "map row_id (concat rss)"] by (simp add: distinct_map)
  have hit: "row_id r \<in> fst ` set u \<longleftrightarrow> K r \<and> update_fits rd K U rows" if r: "r \<in> set rows" for r
  proof
    assume "row_id r \<in> fst ` set u"
    then obtain rows' r' where r': "rows' \<in> set rss" "update_fits rd K U rows'" "r' \<in> set rows'" "K r'" "row_id r' = row_id r"
      by (auto simp: u change_of_def split: if_splits)
    have "r' = r" using sorted_keys_unique [OF srt, of r' r] r' r rows by auto
    then show "K r \<and> update_fits rd K U rows" using rows_leaf_unique [OF dist rows r'(1) r] r' by simp
  next
    assume "K r \<and> update_fits rd K U rows"
    then have "change_of rd U r \<in> set u" using r rows by (auto simp: u)
    then show "row_id r \<in> fst ` set u" by (force simp: change_of_def)
  qed
  have e: "entry_of rd' r = entry_of rd r" "entry_of rd' (U (row_at rd r)) = (row_id r, U (row_at rd r))" if r: "r \<in> set rows" for r
  proof -
    have "stored rd P r" using r rows st by auto
    then show "entry_of rd' r = entry_of rd r" "entry_of rd' (U (row_at rd r)) = (row_id r, U (row_at rd r))"
      using stored_frame(3) [OF _ same] updated_row(3) [OF U] by blast+
  qed
  show ?thesis
    using hit e by (auto simp: leaf_update_def updated_rows_def entry_of_def [of rd])
qed

text \<open>The changes of the matching rows in the leaves that satisfy \<open>sel\<close>, leaf after leaf.\<close>

definition changes_where :: "(bytes list \<Rightarrow> bool) \<Rightarrow> reader \<Rightarrow> (bytes \<Rightarrow> bool) \<Rightarrow> (bytes \<Rightarrow> bytes) \<Rightarrow> u64 btree \<Rightarrow> changes" where
  "changes_where sel rd K U t =
     concat (map (\<lambda>(_, rows). if sel rows then map (change_of rd U) (filter K rows) else []) (leaves t))"

lemma changes_where_rows:
  "changes_where sel rd K U t = concat (map (\<lambda>rows. if sel rows then map (change_of rd U) (filter K rows) else []) (map snd (leaves t)))"
  by (simp add: changes_where_def comp_def case_prod_unfold)

lemma update_matching_run:
  assumes t: "tree_in crc f P t" and h: "height t \<le> MAX_TREE_DEPTH" and small: "guard_next f < 2 ^ 32" and U: "plain_updater U"
    and u: "u = changes_where (update_fits (guard_view crc f) K U) (guard_view crc f) K U t"
    and ov: "ov = changes_where (\<lambda>rows. \<not> update_fits (guard_view crc f) K U rows) (guard_view crc f) K U t"
  shows "\<exists>t' f'. update_matching crc (root_of t) (\<lambda>r. Inr (K r)) (\<lambda>r. Inr (U r)) f = (Inr (u, ov), f')
    \<and> tree_in crc f' P t' \<and> root_of t' = root_of t \<and> height t' = height t \<and> tree_pages t' = tree_pages t
    \<and> guard_contents crc f' t' = map (\<lambda>e. if fst e \<in> fst ` set u then (fst e, U (snd e)) else e) (guard_contents crc f t)
    \<and> guard_next f' = guard_next f
    \<and> (\<forall>m. m \<notin> set (tree_pages t) \<longrightarrow> guard_view crc f' m = guard_view crc f m)"
proof -
  let ?rd = "guard_view crc f" and ?rss = "map snd (leaves t)"
  note u_def = u [unfolded changes_where_rows]
  have ov_def: "ov = concat (map (\<lambda>rows. if update_fits ?rd K U rows then [] else map (change_of ?rd U) (filter K rows)) ?rss)"
    unfolding ov changes_where_rows by (intro arg_cong [of _ _ concat] map_cong) simp_all
  from bulk_run [OF update_visit_run update_keeps_rows [OF U] t h small, where acc = "([], [])"
    and err = "''leaf chain cycle detected in update_matching''"]
  obtain f' t' where r: "update_matching crc (root_of t) (\<lambda>r. Inr (K r)) (\<lambda>r. Inr (U r)) f = (Inr (u, ov), f')"
    "tree_in crc f' P t'" "leaves t' = map (\<lambda>(n, rows). (n, leaf_update ?rd K U rows)) (leaves t)"
    "root_of t' = root_of t" "height t' = height t" "tree_pages t' = tree_pages t" "guard_next f' = guard_next f"
    "\<forall>m. m \<notin> set (tree_pages t) \<longrightarrow> guard_view crc f' m = ?rd m"
    unfolding update_matching_def fold_changes u_def ov_def append_Nil by blast
  have rt: "row_tree ?rd P t" using t by (simp add: tree_in_def)
  have rows: "tree_rows t = concat ?rss" by (simp add: tree_rows_def leaf_rows_def)
  have "\<forall>m \<in> P. guard_view crc f' m = ?rd m" using r(8) rt by (auto simp: row_tree_def)
  then have leaf: "map (entry_of (guard_view crc f')) (leaf_update ?rd K U rows) =
      map (\<lambda>e. if fst e \<in> fst ` set u then (fst e, U (snd e)) else e) (map (entry_of ?rd) rows)" if "rows \<in> set ?rss" for rows
    using update_entries [OF _ _ _ U that u_def] ordered_sorted [OF row_treeD(3) [OF rt]] row_treeD(7) [OF rt]
    unfolding rows by blast
  have "tree_rows t' = concat (map (leaf_update ?rd K U) ?rss)"
    by (simp add: tree_rows_def leaf_rows_def r(3) comp_def case_prod_unfold)
  then have "guard_contents crc f' t' = concat (map (\<lambda>rows. map (entry_of (guard_view crc f')) (leaf_update ?rd K U rows)) ?rss)"
    by (simp add: contents_def map_concat comp_def)
  also have "\<dots> = concat (map (\<lambda>rows. map (\<lambda>e. if fst e \<in> fst ` set u then (fst e, U (snd e)) else e) (map (entry_of ?rd) rows)) ?rss)"
    using leaf by (intro arg_cong [of _ _ concat] map_cong refl) blast
  also have "\<dots> = map (\<lambda>e. if fst e \<in> fst ` set u then (fst e, U (snd e)) else e) (guard_contents crc f t)"
    by (simp add: contents_def rows map_concat comp_def)
  finally show ?thesis using r by blast
qed

section \<open>Reads through the guard\<close>

lemma scan_all_w_run:
  assumes t: "tree_in crc f P t" and h: "height t \<le> MAX_TREE_DEPTH" and small: "guard_next f < 2 ^ 32"
  shows "scan_all_w crc (root_of t) f = (Inr (guard_contents crc f t), f)"
proof -
  have rt: "row_tree (guard_view crc f) P t" and old: "\<forall>n \<in> set (tree_pages t) \<union> P. unat n < guard_next f"
    using t by (simp_all add: tree_in_def)
  note d = row_treeD [OF rt]
  have len: "length (leaves t) \<le> guard_next f" by (rule tree_leaves_bound [OF t])
  let ?rd = "guard_view crc f" and ?g = "\<lambda>r s. (s @ [entry_of (guard_view crc f) r], False)"
  have g: "push_row ?rd r s = Inr (?g r s)" if "r \<in> set (leaf_rows (leaves t))" for r s
    using stored_row(3,5) [OF d(7)] that by (simp add: push_row_def entry_of_def tree_rows_def)
  have "leaves t = [] @ leaves t" by simp
  note walk = row_tree_walk [where g = ?g and bounds = row_bounds, OF rt this d(6) len g]
  have "fold (\<lambda>r s. s @ [entry_of ?rd r]) rs s = s @ map (entry_of ?rd) rs" for rs s
    by (induction rs arbitrary: s) simp_all
  then show ?thesis
    using walk find_leaf_row(2) [OF rt h] small
    by (simp add: scan_all_w_def find_leftmost_leaf_w_def max_pages_w_def contents_def tree_rows_def fold_stop_never)
qed

section \<open>What fits\<close>

text \<open>A leaf of rows of at most 128 bytes takes any such row.\<close>

lemma leaf_size_bounds:
  assumes "\<forall>r \<in> set rows. a \<le> length r \<and> length r \<le> b"
  shows "20 + length rows * (2 + a) \<le> leaf_size rows" "leaf_size rows \<le> 20 + length rows * (2 + b)"
  using assms by (induction rows) (auto simp: leaf_size_sum)

lemma small_rows_take:
  assumes p: "leaf_page p nx pv rows" and small: "\<forall>r \<in> insert row (set rows). 8 \<le> length r \<and> length r \<le> 128"
  shows "leaf_takes k row rows"
proof -
  define pos where "pos = leaf_pos k rows"
  have pos: "pos \<le> length rows" by (simp add: pos_def leaf_pos_def length_takeWhile_le)
  let ?R = "inserted pos row rows" and ?mid = "Suc (length rows) div 2"
  have len: "length ?R = Suc (length rows)" using pos by simp
  have R: "\<forall>r \<in> set ?R. 8 \<le> length r \<and> length r \<le> 128" using small pos by (simp add: set_inserted)
  have parts: "leaf_size (take ?mid ?R) + leaf_size (drop ?mid ?R) = leaf_size ?R + 20"
    using leaf_size_append [of "take ?mid ?R" "drop ?mid ?R"] by simp
  have "leaf_size ?R \<le> leaf_size rows + 130"
    using leaf_size_append [of "take pos rows" "row # drop pos rows"] leaf_size_append [of "take pos rows" "drop pos rows"] small
    by (simp add: inserted_def leaf_size_Cons)
  then have le: "leaf_size ?R \<le> 4226" using leaf_pageD(7) [OF p] by simp
  have "leaf_size (take ?mid ?R) \<le> PAGE_SIZE \<and> leaf_size (drop ?mid ?R) \<le> PAGE_SIZE" if big: "PAGE_SIZE < leaf_size ?R"
  proof -
    have "4096 < 20 + Suc (length rows) * 130" using leaf_size_bounds(2) [OF R] big len by simp
    then have n: "31 \<le> length rows" by simp
    have "20 + length (take ?mid ?R) * 10 \<le> leaf_size (take ?mid ?R)" "20 + length (drop ?mid ?R) * 10 \<le> leaf_size (drop ?mid ?R)"
      using leaf_size_bounds(1) [of "take ?mid ?R" 8 128] leaf_size_bounds(1) [of "drop ?mid ?R" 8 128] R
      by (auto dest: in_set_takeD in_set_dropD)
    moreover have "16 \<le> length (take ?mid ?R)" "16 \<le> length (drop ?mid ?R)" using n len by simp_all
    ultimately have "180 \<le> leaf_size (take ?mid ?R)" "180 \<le> leaf_size (drop ?mid ?R)" by linarith+
    then show ?thesis using parts le by simp
  qed
  then show ?thesis using small by (simp add: leaf_takes_def pos_def Let_def) force
qed

text \<open>Writing rows onto a page succeeds or panics, it reports no error.\<close>

lemma place_all_cases:
  assumes "page_ok p"
  shows "place_all rs dst wp p = Inl Panicked \<or> (\<exists>p' wp'. place_all rs dst wp p = Inr (p', wp'))"
  using assms
proof (induction rs arbitrary: dst wp p)
  case (Cons r rs)
  from place_row_cases [OF Cons.prems, of wp r dst] show ?case
  proof (elim disjE exE conjE)
    fix p' assume p': "place_row p wp r dst = Inr p'" "page_ok p'"
    from Cons.IH [OF p'(2), of "Suc dst" "wp + length r"] p'(1) show ?case by simp
  qed simp
qed simp

lemma write_leaf_range_cases:
  assumes s: "leaf_page s nx pv rows" and pos: "pos \<le> length rows" and p: "page_ok p" and ab: "a \<le> b" "b \<le> Suc (length rows)"
  shows "write_leaf_range p s (length rows) pos r a b = Inl Panicked \<or> (\<exists>q. write_leaf_range p s (length rows) pos r a b = Inr q)"
proof -
  have "page_ok (clear_leaf p 0 0)" using p by (simp add: clear_leaf_def Let_def blit_field)
  note c = place_all_cases [OF this, of "map (\<lambda>d. virtual_nth pos r rows (a + d)) [0..<b - a]" 0 "16 + (b - a) * 2"]
  show ?thesis using range_fold [OF s pos, of a "b - a" 0 r] ab c by (auto simp: write_leaf_range_def Let_def)
qed

text \<open>A split whose parts cannot both be written panics.\<close>

lemma split_leaf_panics:
  assumes v: "guard_view crc f n = Inr p" and p: "leaf_page p nx pv rows" and pos: "pos \<le> length rows" "m \<le> length rows"
    and n: "unat n < guard_next f" "guard_next f < 2 ^ 32 - 1"
    and panic: "(\<forall>q. page_ok q \<longrightarrow> write_leaf_range q p (length rows) pos r 0 m = Inl Panicked)
      \<or> (\<forall>q. page_ok q \<longrightarrow> write_leaf_range q p (length rows) pos r m (Suc (length rows)) = Inl Panicked)"
  shows "\<exists>f'. split_leaf crc (Inr sep) n p (length rows) pos r m f = (Inl Panicked, f')"
proof -
  define x :: u32 where "x = of_nat (guard_next f)"
  have x: "unat x = guard_next f" using n(2) by (simp add: x_def take_bit_nat_eq_self unsigned_of_nat)
  obtain f2 where f2: "allocate_page f = (Inr x, f2)" "guard_view crc f2 = (guard_view crc f)(x := Inr page_default)"
    using alloc_default_run [OF n(2) x] by blast
  have "x \<noteq> n" using x n(1) by auto
  then have v2: "guard_view crc f2 n = Inr p" using f2(2) v by simp
  obtain f3 where f3: "write_page crc n f2 = (Inr p, f3)" using write_page_run [of crc n f2] v2 by auto
  from write_leaf_range_cases [OF p pos(1) leaf_pageD(1) [OF p], of 0 m r] pos(2)
  consider "write_leaf_range p p (length rows) pos r 0 m = Inl Panicked"
    | q where "write_leaf_range p p (length rows) pos r 0 m = Inr q" by auto
  then show ?thesis
  proof cases
    case 1
    then show ?thesis using f2(1) f3 by (simp add: split_leaf_def edit_page_def sm_bind_def)
  next
    case 2
    then have "write_leaf_range (new_leaf crc) p (length rows) pos r m (Suc (length rows)) = Inl Panicked"
      using panic leaf_pageD(1) [OF p] by auto
    moreover let ?g = "\<lambda>w. res_bind (write_leaf_range w p (length rows) pos r 0 m) (\<lambda>w.
        Inr (update_checksum crc (set_prev_leaf (set_next_leaf w x) (prev_leaf p))))"
    obtain f4 where "edit_page crc n ?g f2 = (Inr (), f4)" using edit_run [OF v2, of ?g] 2 by force
    ultimately show ?thesis using f2(1) by (simp add: split_leaf_def sm_bind_def)
  qed
qed

text \<open>A row longer than a page, strictly between two rows of its leaf, fits on no side of a split.\<close>

lemma oversized_middle_panics:
  assumes v: "guard_view crc f n = Inr p" and p: "leaf_page p nx pv rows" and srt: "rows_sorted rows"
    and row: "storable k row" "MAX_SINGLE_ROW < length row" and new: "k \<notin> row_id ` set rows"
    and mid: "\<exists>r \<in> set rows. row_id r < k" "\<exists>r \<in> set rows. k < row_id r"
    and n: "unat n < guard_next f" and space: "guard_next f + row_budget row < 2 ^ 32 - 1"
  shows "\<exists>f'. insert_into_leaf crc n p k row f = (Inl Panicked, f')"
proof -
  obtain pos where pos: "pos \<le> length rows" "find_insertion_point p k = Inr (pos, False)"
    "\<forall>r \<in> set (take pos rows). row_id r < k" "\<forall>r \<in> set (drop pos rows). k < row_id r"
    using find_insertion_point_absent [OF p srt new] by blast
  have "pos \<noteq> 0" using mid(1) pos(4) by (cases pos) (auto dest: less_asym)
  moreover have "pos \<noteq> length rows" using mid(2) pos(3) by (auto dest: less_asym)
  ultimately have inside: "0 < pos" "pos < length rows" using pos(1) by simp_all
  have cond: "4064 \<le> length row" "length row \<le> MAX_REASSEMBLE_SIZE" "0 < guard_next f"
    "guard_next f + length row div OVERFLOW_PAYLOAD_MAX + 1 < 2 ^ 32"
    using row space n by (simp_all add: storable_def row_budget_def)
  obtain f1 inl where w: "write_overflow_row crc row 4074 f = (Inr inl, f1)" "length inl = 4074" "take 4064 inl = take 4064 row"
    "grows crc f f1" "guard_next f1 \<le> guard_next f + length row div OVERFLOW_PAYLOAD_MAX + 1"
    using write_overflow_row_run [OF cond] by blast
  have id: "8 \<le> length inl" using w(2) by simp
  note needed = needed_size_leaf [OF p pos(1)]
  have l8: "\<forall>r \<in> set rows. 8 \<le> length r" using srt by (simp add: rows_sorted_def)
  have big: "PAGE_SIZE < leaf_size (inserted pos r rows)" if "4074 \<le> length r" for r
  proof -
    have "30 \<le> leaf_size (take pos rows)"
      using inside l8 by (intro leaf_size_min) (auto dest: in_set_takeD)
    moreover have "20 \<le> leaf_size (drop pos rows)" by (simp add: leaf_size_sum)
    ultimately show ?thesis
      using leaf_size_append [of "take pos rows" "r # drop pos rows"] that by (simp add: inserted_def leaf_size_Cons)
  qed
  obtain m where m: "1 \<le> m" "m \<le> length rows" "find_overflow_split_point p (length rows) pos inl (Suc (length rows)) = Inr m"
    and panic: "(\<forall>q. page_ok q \<longrightarrow> write_leaf_range q p (length rows) pos inl 0 m = Inl Panicked)
      \<or> (\<forall>q. page_ok q \<longrightarrow> write_leaf_range q p (length rows) pos inl m (Suc (length rows)) = Inl Panicked)
        \<and> leaf_size (take m (inserted pos inl rows)) \<le> PAGE_SIZE"
    using middle_split_panics [OF p srt inside w(2)] by auto
  have v1: "guard_view crc f1 n = Inr p" and n1: "unat n < guard_next f1" using w(4) v n by (simp_all add: grows_def)
  have sp: "guard_next f1 < 2 ^ 32 - 1" using w(5) space by (simp add: row_budget_def)
  have sep: "extract_id_at_virtual_pos p (length rows) pos inl m = Inr (row_id (inserted pos inl rows ! m))"
    using extract_id_at_virtual_pos_leaf [OF p pos(1) m(2)] l8 id by simp
  have "\<exists>f'. split_leaf crc (extract_id_at_virtual_pos p (length rows) pos inl m) n p (length rows) pos inl m f1 = (Inl Panicked, f')"
    unfolding sep by (rule split_leaf_panics [OF v1 p pos(1) m(2) n1 sp]) (use panic in blast)
  then show ?thesis
    using pos(2) needed [of row] needed [of inl] big [of row] big [of inl] row(2) w(1,2) m(3) leaf_pageD(9) [OF p]
    by (simp add: insert_into_leaf_def Let_def sm_bind_Inr)
qed

text \<open>
  The leaves that cannot take a row. A row that would fit on a page of its own is put next to the
  others and the result is cut in the middle, by number and not by size: a part of more than
  4100 bytes does not fit. (A part of 4097 to 4100 bytes is written, but the checksum then overwrites the
  end of its last row.)
\<close>

definition leaf_refuses :: "u64 \<Rightarrow> bytes \<Rightarrow> bytes list \<Rightarrow> bool" where
  "leaf_refuses rowid row rows \<longleftrightarrow>
     (let pos = leaf_pos rowid rows; R = inserted pos row rows; mid = Suc (length rows) div 2
      in if length row \<le> MAX_SINGLE_ROW
         then PAGE_SIZE < leaf_size R
           \<and> (PAGE_SIZE + CHECKSUM_SIZE < leaf_size (take mid R) \<or> PAGE_SIZE + CHECKSUM_SIZE < leaf_size (drop mid R))
         else pos \<noteq> 0 \<and> pos \<noteq> length rows)"

lemma leaf_pos_bounds:
  assumes "sorted_wrt (<) (map row_id rows)"
  shows "leaf_pos k rows \<noteq> 0 \<Longrightarrow> \<exists>r \<in> set rows. row_id r < k"
    and "k \<notin> row_id ` set rows \<Longrightarrow> leaf_pos k rows \<noteq> length rows \<Longrightarrow> \<exists>r \<in> set rows. k < row_id r"
proof -
  show "\<exists>r \<in> set rows. row_id r < k" if "leaf_pos k rows \<noteq> 0"
    using that by (cases rows) (auto simp: leaf_pos_def split: if_splits)
  show "\<exists>r \<in> set rows. k < row_id r" if "k \<notin> row_id ` set rows" "leaf_pos k rows \<noteq> length rows"
  proof -
    have "\<not> (\<forall>r \<in> set rows. row_id r < k)" using that(2) unfolding leaf_pos_def by (metis takeWhile_eq_all_conv)
    then obtain r where "r \<in> set rows" "k \<le> row_id r" by (auto simp: not_less)
    moreover have "row_id r \<noteq> k" using calculation(1) that(1) by blast
    ultimately show ?thesis by (auto simp: order_less_le)
  qed
qed

lemma naive_split_panics:
  assumes v: "guard_view crc f n = Inr p" and p: "leaf_page p nx pv rows" and srt: "rows_sorted rows"
    and row: "storable k row" "length row \<le> MAX_SINGLE_ROW" and new: "k \<notin> row_id ` set rows"
    and ref: "leaf_refuses k row rows" and n: "unat n < guard_next f" and space: "guard_next f < 2 ^ 32 - 1"
  shows "\<exists>f'. insert_into_leaf crc n p k row f = (Inl Panicked, f')"
proof -
  obtain pos where pos: "pos \<le> length rows" "find_insertion_point p k = Inr (pos, False)"
    "\<forall>r \<in> set (take pos rows). row_id r < k" "\<forall>r \<in> set (drop pos rows). k < row_id r"
    using find_insertion_point_absent [OF p srt new] by blast
  have lp: "leaf_pos k rows = pos" by (rule leaf_pos_unique [OF pos(1,3,4)])
  let ?R = "inserted pos row rows" and ?m = "Suc (length rows) div 2"
  have big: "PAGE_SIZE < leaf_size ?R" "4100 < leaf_size (take ?m ?R) \<or> 4100 < leaf_size (drop ?m ?R)"
    using ref row(2) by (simp_all add: leaf_refuses_def lp Let_def)
  have l8: "\<forall>r \<in> set rows. 8 \<le> length r" "8 \<le> length row" using srt row(1) by (simp_all add: rows_sorted_def storable_def)
  have "rows \<noteq> []" using big(1) row(2) pos(1) by (auto simp: inserted_def leaf_size_def)
  then have m: "0 < ?m" "?m \<le> length rows" by (cases rows; simp)+
  have "(\<forall>q. page_ok q \<longrightarrow> write_leaf_range q p (length rows) pos row 0 ?m = Inl Panicked)
      \<or> (\<forall>q. page_ok q \<longrightarrow> write_leaf_range q p (length rows) pos row ?m (Suc (length rows)) = Inl Panicked)"
    using big(2)
  proof
    assume b: "4100 < leaf_size (take ?m ?R)"
    have "write_leaf_range q p (length rows) pos row 0 ?m = Inl Panicked" if "page_ok q" for q
      by (rule write_leaf_range_too_big [OF p pos(1) that m(1) _ refl]) (use m(2) b in simp_all)
    then show ?thesis by blast
  next
    assume b: "4100 < leaf_size (drop ?m ?R)"
    have R: "drop ?m ?R = take (Suc (length rows) - ?m) (drop ?m ?R)" using pos(1) by simp
    have "write_leaf_range q p (length rows) pos row ?m (Suc (length rows)) = Inl Panicked" if "page_ok q" for q
      by (rule write_leaf_range_too_big [OF p pos(1) that _ le_refl R b]) (use m(2) in simp)
    then show ?thesis by blast
  qed
  from split_leaf_panics [OF v p pos(1) m(2) n space this, of "row_id (?R ! ?m)"]
  obtain f' where "split_leaf crc (Inr (row_id (?R ! ?m))) n p (length rows) pos row ?m f = (Inl Panicked, f')" by blast
  then show ?thesis
    using pos(2) needed_size_leaf [OF p pos(1), of row] big(1) row(2) leaf_pageD(9) [OF p]
      extract_id_at_virtual_pos_leaf [OF p pos(1) m(2), of row] l8
    by (simp add: insert_into_leaf_def Let_def)
qed

lemma btree_insert_panics:
  assumes t: "tree_in crc f P t" and h: "height t \<le> MAX_TREE_DEPTH" and st: "storable k row"
    and ref: "leaf_refuses k row (snd (leaf_for t k))" and new: "k \<notin> fst ` set (guard_contents crc f t)"
    and space: "guard_next f + row_budget row < 2 ^ 32 - 1"
  shows "\<exists>f'. btree_insert crc (root_of t) k row f = (Inl Panicked, f')"
proof -
  have rt: "row_tree (guard_view crc f) P t" using t by (simp add: tree_in_def)
  from tree_leaf [OF rt h, of k "''''"] obtain n rows p as bs where l: "leaves t = as @ (n, rows) # bs"
    "find_leaf (guard_view crc f) (child_for k) '''' MAX_TREE_DEPTH (root_of t) = Inr n" "guard_view crc f n = Inr p"
    "leaf_page p (first_page bs 0) (last_page 0 as) rows" "rows_sorted rows" "leaf_for t k = (n, rows)" by metis
  have rows: "k \<notin> row_id ` set rows" using l(1) new unfolding contents_keys by (auto simp: tree_rows_def)
  have ref': "leaf_refuses k row rows" using ref l(6) by simp
  have n: "unat n < guard_next f" using t l(1) by (auto simp: tree_in_def tree_pages_def)
  have srt: "sorted_wrt (<) (map row_id rows)" using l(5) by (simp add: rows_sorted_def)
  have "\<exists>f'. insert_into_leaf crc n p k row f = (Inl Panicked, f')"
  proof (cases "length row \<le> MAX_SINGLE_ROW")
    case True
    show ?thesis by (rule naive_split_panics [OF l(3,4,5) st True rows ref' n]) (use space in simp)
  next
    case False
    then have "leaf_pos k rows \<noteq> 0" "leaf_pos k rows \<noteq> length rows" using ref' by (simp_all add: leaf_refuses_def Let_def)
    with leaf_pos_bounds [OF srt] rows have "\<exists>r \<in> set rows. row_id r < k" "\<exists>r \<in> set rows. k < row_id r" by blast+
    with oversized_middle_panics [OF l(3,4,5) st _ rows] False n space show ?thesis by simp
  qed
  then obtain f' where "insert_into_leaf crc n p k row f = (Inl Panicked, f')" by blast
  from insert_recursive_error [OF l(2,3) this] show ?thesis by (simp add: btree_insert_def sm_bind_Inl)
qed

section \<open>A sample\<close>

lemma sample_guard: "\<exists>f. tree_in crc f {} sample_tree \<and> guard_next f = 4"
proof -
  obtain f where f: "row_tree (view_page crc f) {} sample_tree" "pf_dirty f = []" "page_count f = 4" "pf_new_count f = 0"
    using sample_file by blast
  have "guard_view crc f = view_page crc f" using f(2) by (intro ext) (simp add: guard_view_def)
  moreover have "guard_next f = 4" using f(3,4) by (simp add: guard_next_def page_count_def)
  ultimately show ?thesis using f(1) by (intro exI [of _ f]) (simp add: tree_in_def sample_tree_def tree_pages_def)
qed

lemma sample_storable: "storable 4 (sample_row 4)" "row_budget (sample_row 4) = 2"
  "leaf_for sample_tree 4 = (1, [sample_row 1, sample_row 2])" "leaf_takes 4 (sample_row 4) [sample_row 1, sample_row 2]"
  "height sample_tree = 2"
  by (simp_all add: storable_def sample_row_stored row_budget_def sample_tree_def route_def leaf_takes_def leaf_pos_def
      word_less_nat_alt inserted_def leaf_size_def Let_def)
     (simp_all add: sample_row_def has_overflow_def)

section \<open>Properties\<close>

text \<open>C27. Inserting a new row. When its leaf takes it (it fits there; or it would fit on a page of its own and
  both parts fit when the leaf is cut in the middle; or it needs an overflow chain and goes to
  an end of its leaf), the insertion succeeds, whatever leaf, branch and root splits it needs: the tree stays well
  formed, its contents are the old ones with the row in its place by rowid, it grows by at most
  one level, and pages of nothing else change. When its leaf refuses it (a part of the cut in the middle
  is too long for a page, or the row needs an overflow chain and goes between two rows), it panics.\<close>

theorem btree_insert_correct:
  assumes "tree_in crc f P t" "height t \<le> MAX_TREE_DEPTH" "storable k row"
    and "k \<notin> fst ` set (guard_contents crc f t)" "guard_next f + row_budget row + height t < 2 ^ 32 - 1"
  shows "(leaf_takes k row (snd (leaf_for t k)) \<longrightarrow>
      (\<exists>t' P' f'. btree_insert crc (root_of t) k row f = (Inr (root_of t'), f') \<and> tree_in crc f' P' t'
        \<and> guard_contents crc f' t' = insort_key fst (k, row) (guard_contents crc f t)
        \<and> height t' \<le> Suc (height t)
        \<and> (\<forall>m. unat m < guard_next f \<longrightarrow> m \<notin> set (tree_pages t) \<longrightarrow> guard_view crc f' m = guard_view crc f m)))
    \<and> (leaf_refuses k row (snd (leaf_for t k)) \<longrightarrow> (\<exists>f'. btree_insert crc (root_of t) k row f = (Inl Panicked, f')))"
proof (intro conjI impI)
  assume "leaf_takes k row (snd (leaf_for t k))"
  from btree_insert_run [OF assms(1-3) this assms(4,5)]
  show "\<exists>t' P' f'. btree_insert crc (root_of t) k row f = (Inr (root_of t'), f') \<and> tree_in crc f' P' t'
        \<and> guard_contents crc f' t' = insort_key fst (k, row) (guard_contents crc f t)
        \<and> height t' \<le> Suc (height t)
        \<and> (\<forall>m. unat m < guard_next f \<longrightarrow> m \<notin> set (tree_pages t) \<longrightarrow> guard_view crc f' m = guard_view crc f m)"
    by blast
next
  assume "leaf_refuses k row (snd (leaf_for t k))"
  from btree_insert_panics [OF assms(1-3) this assms(4)] assms(5)
  show "\<exists>f'. btree_insert crc (root_of t) k row f = (Inl Panicked, f')" by simp
qed

text \<open>The row of the second part of the witness is an ordinary one: 3000 bytes next to rows of 10, 10 and 3000 bytes.\<close>

definition zero_row :: "u8 \<Rightarrow> nat \<Rightarrow> bytes" where
  "zero_row b n = [b, 0, 0, 0, 0, 0, 0, 0] @ replicate (n - 8) 0"

lemma zero_row_facts:
  "8 \<le> n \<Longrightarrow> length (zero_row b n) = n" "row_id (zero_row b n) = ucast b" "10 \<le> n \<Longrightarrow> \<not> has_overflow (zero_row b n)"
proof -
  show "length (zero_row b n) = n" if "8 \<le> n" using that by (simp add: zero_row_def)
  show "row_id (zero_row b n) = ucast b" by (simp add: zero_row_def row_id_def sub_bytes_def u64_from_le_def)
  have "zero_row b n ! Suc i = 0" if "8 \<le> n" "Suc i < n" for i
    using that by (simp add: zero_row_def nth_append nth_Cons split: nat.split)
  from this [of "n - 10"] show "\<not> has_overflow (zero_row b n)" if "10 \<le> n"
    using that by (simp add: has_overflow_def zero_row_def Let_def)
qed

theorem btree_insert_correct_witness:
  "(\<exists>f t' P' f'. tree_in (\<lambda>_. 0) f {} sample_tree \<and> btree_insert (\<lambda>_. 0) 3 4 (sample_row 4) f = (Inr (root_of t'), f')
     \<and> tree_in (\<lambda>_. 0) f' P' t'
     \<and> guard_contents (\<lambda>_. 0) f' t' = [(1, sample_row 1), (2, sample_row 2), (4, sample_row 4), (5, sample_row 5)])
   \<and> (\<exists>f f'. tree_in (\<lambda>_. 0) f {} (BLeaf 1 [zero_row 1 10, zero_row 2 10, zero_row 3 3000])
     \<and> btree_insert (\<lambda>_. 0) 1 4 (zero_row 4 3000) f = (Inl Panicked, f'))"
proof
  obtain f where f: "tree_in (\<lambda>_. 0) f {} sample_tree" "guard_next f = 4" using sample_guard [of "\<lambda>_. 0"] by blast
  have s: "(4 :: u64) \<notin> fst ` set (guard_contents (\<lambda>_. 0) f sample_tree)"
    "guard_next f + row_budget (sample_row 4) + height sample_tree < 2 ^ 32 - 1"
    "leaf_takes 4 (sample_row 4) (snd (leaf_for sample_tree 4))"
    using f(2) sample_storable by (simp_all add: sample_tree_facts)
  from btree_insert_correct [OF f(1) sample_tree_facts(1) sample_storable(1) s(1,2)] s(3) f(1)
  show "\<exists>f t' P' f'. tree_in (\<lambda>_. 0) f {} sample_tree \<and> btree_insert (\<lambda>_. 0) 3 4 (sample_row 4) f = (Inr (root_of t'), f')
     \<and> tree_in (\<lambda>_. 0) f' P' t'
     \<and> guard_contents (\<lambda>_. 0) f' t' = [(1, sample_row 1), (2, sample_row 2), (4, sample_row 4), (5, sample_row 5)]"
    by (auto simp: sample_tree_facts word_le_nat_alt)
next
  let ?rows = "[zero_row 1 10, zero_row 2 10, zero_row 3 3000]"
  define t :: "u64 btree" where "t = BLeaf 1 ?rows"
  obtain p where p: "leaf_page p 0 0 ?rows"
    using leaf_exists [of ?rows 0 0] by (auto simp: leaf_size_def zero_row_facts)
  define f where "f = (page_file_open [])\<lparr>pf_num_pages := 2, pf_dirty := [(1, p)]\<rparr>"
  have f: "guard_view (\<lambda>_. 0) f 1 = Inr p" "guard_next f = 2"
    by (simp_all add: f_def guard_view_def guard_next_def page_file_open_def)
  have st: "stored rd {} (zero_row b n)" "entry_of rd (zero_row b n) = (ucast b, zero_row b n)" if "10 \<le> n" for rd b n
    using stands_for_inline [OF zero_row_facts(3) [OF that], of rd b] zero_row_facts that
    by (auto simp: stored_def entry_of_def row_at_def reassemble_row_def intro!: exI [of _ "zero_row b n"])
  have t: "tree_in (\<lambda>_. 0) f {} t" "height t \<le> MAX_TREE_DEPTH"
    using f p st(1) by (auto simp: t_def tree_in_def row_tree_def tree_pages_def zero_row_facts word_less_nat_alt)
  have row: "storable 4 (zero_row 4 3000)" "row_budget (zero_row 4 3000) = 2"
    by (simp_all add: storable_def row_budget_def zero_row_facts)
  have new: "(4 :: u64) \<notin> fst ` set (guard_contents (\<lambda>_. 0) f t)"
    by (simp add: t_def contents_def tree_rows_def st(2))
  have ref: "leaf_refuses 4 (zero_row 4 3000) (snd (leaf_for t 4))"
    by (simp add: t_def leaf_refuses_def leaf_pos_def inserted_def leaf_size_def zero_row_facts word_less_nat_alt Let_def)
  have "guard_next f + row_budget (zero_row 4 3000) + height t < 2 ^ 32 - 1" using f(2) row(2) by (simp add: t_def)
  from btree_insert_correct [OF t row(1) new this] ref t(1)
  show "\<exists>f f'. tree_in (\<lambda>_. 0) f {} (BLeaf 1 ?rows) \<and> btree_insert (\<lambda>_. 0) 1 4 (zero_row 4 3000) f = (Inl Panicked, f')"
    unfolding t_def by auto
qed

text \<open>Inserting a rowid that is already in the tree reports the duplicate key and leaves the
  write guard as it was.\<close>

theorem btree_insert_duplicate_key:
  assumes "tree_in crc f P t" "height t \<le> MAX_TREE_DEPTH" "k \<in> fst ` set (guard_contents crc f t)"
  shows "btree_insert crc (root_of t) k row f = (Inl (Fail (DuplicateKey k)), f)"
  by (rule btree_insert_duplicate [OF assms])

theorem btree_insert_duplicate_key_witness:
  "\<exists>f. tree_in (\<lambda>_. 0) f {} sample_tree \<and> btree_insert (\<lambda>_. 0) 3 5 [] f = (Inl (Fail (DuplicateKey 5)), f)"
proof -
  obtain f where f: "tree_in (\<lambda>_. 0) f {} sample_tree" using sample_guard [of "\<lambda>_. 0"] by blast
  have "(5 :: u64) \<in> fst ` set (guard_contents (\<lambda>_. 0) f sample_tree)" by (simp add: sample_tree_facts)
  from btree_insert_duplicate_key [OF f sample_tree_facts(1) this, of "[]"] f show ?thesis by (auto simp: sample_tree_facts)
qed

text \<open>C28. Deleting a rowid says whether it was there, removes exactly that row, keeps the tree well
  formed with the same pages, and changes no other page.\<close>

theorem btree_delete_correct:
  assumes "tree_in crc f P t" "height t \<le> MAX_TREE_DEPTH"
  shows "\<exists>t' f'. btree_delete crc (root_of t) k f = (Inr (k \<in> fst ` set (guard_contents crc f t)), f')
    \<and> tree_in crc f' P t' \<and> root_of t' = root_of t \<and> tree_pages t' = tree_pages t
    \<and> guard_contents crc f' t' = filter (\<lambda>e. fst e \<noteq> k) (guard_contents crc f t)
    \<and> (\<forall>m. m \<notin> set (tree_pages t) \<longrightarrow> guard_view crc f' m = guard_view crc f m)"
  using btree_delete_run [OF assms] by blast

theorem btree_delete_correct_witness:
  "\<exists>f f' t'. btree_delete (\<lambda>_. 0) 3 2 f = (Inr True, f') \<and> tree_in (\<lambda>_. 0) f' {} t'
     \<and> guard_contents (\<lambda>_. 0) f' t' = [(1, sample_row 1), (5, sample_row 5)]"
proof -
  obtain f where f: "tree_in (\<lambda>_. 0) f {} sample_tree" using sample_guard [of "\<lambda>_. 0"] by blast
  from btree_delete_correct [OF f sample_tree_facts(1), of 2] show ?thesis by (auto simp: sample_tree_facts)
qed

text \<open>C29. The bulk deletion walks the leaves once, returns exactly the rows that satisfy the predicate,
  in rowid order, and leaves exactly the others.\<close>

theorem delete_matching_correct:
  assumes "tree_in crc f P t" "height t \<le> MAX_TREE_DEPTH" "guard_next f < 2 ^ 32"
  shows "\<exists>t' f'. delete_matching crc (root_of t) (\<lambda>r. Inr (K r)) f =
      (Inr (map (entry_of (guard_view crc f)) (filter K (tree_rows t))), f')
    \<and> tree_in crc f' P t' \<and> root_of t' = root_of t
    \<and> guard_contents crc f' t' = map (entry_of (guard_view crc f)) (filter (\<lambda>r. \<not> K r) (tree_rows t))"
  using delete_matching_run [OF assms] by blast

theorem delete_matching_correct_witness:
  "\<exists>f f' t'. delete_matching (\<lambda>_. 0) 3 (\<lambda>r. Inr (hd r = 2)) f = (Inr [(2, sample_row 2)], f')
     \<and> tree_in (\<lambda>_. 0) f' {} t' \<and> guard_contents (\<lambda>_. 0) f' t' = [(1, sample_row 1), (5, sample_row 5)]"
proof -
  obtain f where f: "tree_in (\<lambda>_. 0) f {} sample_tree" "guard_next f = 4" using sample_guard [of "\<lambda>_. 0"] by blast
  have "guard_next f < 2 ^ 32" using f(2) by simp
  from delete_matching_correct [OF f(1) sample_tree_facts(1) this, of "\<lambda>r. hd r = 2"] show ?thesis
    by (auto simp: sample_tree_facts(2) sample_tree_def sample_row_def entry_of_def)
      (auto simp: sample_row_def [symmetric] sample_row_stored)
qed

text \<open>C30. The bulk update, leaf by leaf: where the leaf with all its matching rows replaced fits on its
  page, every matching row has its new bytes and is reported, once and in rowid order, as updated (the
  list \<open>u\<close>); where it does not fit, the leaf is left as it was and its matching rows are reported as
  overflow (the list \<open>ov\<close>). Exactly the contents of the rows in \<open>u\<close> change, on pages of the tree alone.\<close>

theorem update_matching_correct:
  assumes "tree_in crc f P t" "height t \<le> MAX_TREE_DEPTH" "guard_next f < 2 ^ 32" "plain_updater U"
    and "u = changes_where (\<lambda>rows. leaf_size (updated_rows (guard_view crc f) K U rows) \<le> PAGE_SIZE) (guard_view crc f) K U t"
    and "ov = changes_where (\<lambda>rows. \<not> leaf_size (updated_rows (guard_view crc f) K U rows) \<le> PAGE_SIZE) (guard_view crc f) K U t"
  shows "\<exists>t' f'. update_matching crc (root_of t) (\<lambda>r. Inr (K r)) (\<lambda>r. Inr (U r)) f = (Inr (u, ov), f')
    \<and> tree_in crc f' P t' \<and> root_of t' = root_of t
    \<and> guard_contents crc f' t' = map (\<lambda>e. if fst e \<in> fst ` set u then (fst e, U (snd e)) else e) (guard_contents crc f t)
    \<and> (\<forall>m. m \<notin> set (tree_pages t) \<longrightarrow> guard_view crc f' m = guard_view crc f m)"
  using update_matching_run [OF assms(1-4), of u K ov] assms(5,6) unfolding update_fits_def by blast

theorem update_matching_correct_witness:
  "\<exists>f f' t'. update_matching (\<lambda>_. 0) 3 (\<lambda>r. Inr (hd r = 2)) (\<lambda>r. Inr (take 8 r @ [9])) f
       = (Inr ([(2, sample_row 2, [2, 0, 0, 0, 0, 0, 0, 0, 9])], []), f')
     \<and> tree_in (\<lambda>_. 0) f' {} t'
     \<and> guard_contents (\<lambda>_. 0) f' t' = [(1, sample_row 1), (2, [2, 0, 0, 0, 0, 0, 0, 0, 9]), (5, sample_row 5)]"
proof -
  obtain f where f: "tree_in (\<lambda>_. 0) f {} sample_tree" "guard_next f = 4" using sample_guard [of "\<lambda>_. 0"] by blast
  let ?K = "\<lambda>r :: bytes. hd r = 2" and ?U = "\<lambda>r :: bytes. take 8 r @ [9]" and ?rd = "guard_view (\<lambda>_. 0) f"
  have U: "plain_updater ?U"
    by (auto simp: plain_updater_def row_id_def sub_bytes_def has_overflow_def)
  have small: "guard_next f < 2 ^ 32" using f(2) by simp
  have hd: "hd (sample_row b) = b" "length (sample_row b) = 9" "take 8 (sample_row b) = [b, 0, 0, 0, 0, 0, 0, 0]" for b
    by (simp_all add: sample_row_def)
  have fits: "leaf_size (updated_rows ?rd ?K ?U rows) \<le> PAGE_SIZE" if "rows \<in> {[sample_row 1, sample_row 2], [sample_row 5]}" for rows
    using that by (auto simp: updated_rows_def leaf_size_sum sample_row_stored hd)
  have u: "[(2, sample_row 2, [2, 0, 0, 0, 0, 0, 0, 0, 9])]
      = changes_where (\<lambda>rows. leaf_size (updated_rows ?rd ?K ?U rows) \<le> PAGE_SIZE) ?rd ?K ?U sample_tree"
    using fits by (simp add: changes_where_def sample_tree_def change_of_def sample_row_stored hd)
  have ov: "[] = changes_where (\<lambda>rows. \<not> leaf_size (updated_rows ?rd ?K ?U rows) \<le> PAGE_SIZE) ?rd ?K ?U sample_tree"
    using fits by (simp add: changes_where_def sample_tree_def)
  from update_matching_correct [OF f(1) sample_tree_facts(1) small U u ov] show ?thesis
    by (auto simp: sample_tree_facts(2,3) hd)
qed

text \<open>Leaves of rows of 8 to 128 bytes take any such row: in place, or with both halves of the
  split in the middle on a page.\<close>

theorem small_rows_fit:
  assumes "leaf_page p nx pv rows" "\<forall>r \<in> insert row (set rows). 8 \<le> length r \<and> length r \<le> 128"
  shows "leaf_takes k row rows"
  by (rule small_rows_take [OF assms])

theorem small_rows_fit_witness: "\<exists>p. leaf_page p 0 0 sample_rows \<and> leaf_takes 2 [2, 0, 0, 0, 0, 0, 0, 0, 1] sample_rows"
proof -
  obtain p where p: "leaf_page p 0 0 sample_rows" using leaf_exists [of sample_rows 0 0] sample_rows_ok by auto
  from small_rows_fit [OF p, of "[2, 0, 0, 0, 0, 0, 0, 0, 1]" 2] p show ?thesis by (auto simp: sample_rows_def)
qed

text \<open>C31. Inserting a row longer than a page (one that needs an overflow chain) strictly between two
  rows of a leaf panics: its inline part fills a page, so no split of the leaf can hold it.\<close>

theorem oversized_row_in_the_middle_panics:
  assumes "guard_view crc f n = Inr p" "leaf_page p nx pv rows" "rows_sorted rows"
    and "storable k row" "MAX_SINGLE_ROW < length row" "k \<notin> row_id ` set rows"
    and "\<exists>r \<in> set rows. row_id r < k" "\<exists>r \<in> set rows. k < row_id r"
    and "unat n < guard_next f" "guard_next f + row_budget row < 2 ^ 32 - 1"
  shows "\<exists>f'. insert_into_leaf crc n p k row f = (Inl Panicked, f')"
  by (rule oversized_middle_panics [OF assms])

theorem oversized_row_in_the_middle_panics_witness:
  "\<exists>f p f'. leaf_page p 0 0 sample_rows
     \<and> insert_into_leaf (\<lambda>_. 0) 1 p 2 ([2, 0, 0, 0, 0, 0, 0, 0] @ replicate 5000 0) f = (Inl Panicked, f')"
proof -
  obtain p where p: "leaf_page p 0 0 sample_rows" using leaf_exists [of sample_rows 0 0] sample_rows_ok by auto
  define row :: bytes where "row = [2, 0, 0, 0, 0, 0, 0, 0] @ replicate 5000 0"
  define f where "f = (page_file_open [])\<lparr>pf_num_pages := 2, pf_dirty := [(1, p)]\<rparr>"
  have f: "guard_view (\<lambda>_. 0) f 1 = Inr p" "guard_next f = 2"
    by (simp_all add: f_def guard_view_def guard_next_def page_file_open_def)
  have row: "storable 2 row" "MAX_SINGLE_ROW < length row" "row_budget row = 3"
    by (simp_all add: row_def storable_def row_id_def sub_bytes_def u64_from_le_def row_budget_def)
  have ids: "row_id ` set sample_rows = {1, 3}" by (simp add: sample_rows_def row_id_sample)
  have "\<exists>r \<in> set sample_rows. row_id r < 2" "\<exists>r \<in> set sample_rows. 2 < row_id r"
    by (simp_all add: sample_rows_def row_id_sample word_less_nat_alt)
  moreover have "(2 :: u64) \<notin> row_id ` set sample_rows" unfolding ids by simp
  moreover have "unat (1 :: u32) < guard_next f" "guard_next f + row_budget row < 2 ^ 32 - 1" using f(2) row(3) by simp_all
  ultimately show ?thesis
    using oversized_row_in_the_middle_panics [OF f(1) p sample_rows_ok(1) row(1,2)] p unfolding row_def by blast
qed

end
