(* ===== verification/Index_Tree.thy ===== *)
theory Index_Tree
  imports Index_Page Row_Tree
begin

text \<open>
  \<^verbatim>\<open>IndexTreeReader\<close> and \<^verbatim>\<open>IndexTreeWriter\<close> of \<^verbatim>\<open>src/index.rs\<close>: prefix scans and counts, the ordered
  cursor in both directions, insertion with splits, deletion. \<open>index_tree\<close> is the invariant: the
  pages read through \<open>rd\<close> are a tree in key order whose keys fit the 36 bytes that branch pages
  keep of a separator. The reads are compared with list functions on the sorted list of keys; the
  writer's leaf and branch operations discharge the laws of \<open>tree_insertion\<close>.
\<close>

section \<open>The reader\<close>

definition idx_child_for :: "bytes \<Rightarrow> page \<Rightarrow> u32 res" where
  "idx_child_for key p = res_bind (find_idx_child p key) (\<lambda>(_, c). Inr c)"

definition find_leaf_for_key :: "reader \<Rightarrow> u32 \<Rightarrow> bytes \<Rightarrow> u32 res" where
  "find_leaf_for_key rd root key =
     find_leaf rd (idx_child_for key)
       ''index B+ tree depth exceeds maximum in find_leaf_for_key'' MAX_TREE_DEPTH root"

definition idx_leftmost_leaf :: "reader \<Rightarrow> u32 \<Rightarrow> u32 res" where
  "idx_leftmost_leaf rd root =
     find_leaf rd (\<lambda>p. get_idx_branch_child p 0)
       ''index B+ tree depth exceeds maximum in find_leftmost_leaf'' MAX_TREE_DEPTH root"

definition idx_rightmost_leaf :: "reader \<Rightarrow> u32 \<Rightarrow> u32 res" where
  "idx_rightmost_leaf rd root =
     find_leaf rd (\<lambda>p. get_idx_branch_child p (unat (num_rows p)))
       ''index B+ tree depth exceeds maximum in find_rightmost_leaf'' MAX_TREE_DEPTH root"

definition starts_with :: "bytes \<Rightarrow> bytes \<Rightarrow> bool" where
  "starts_with pre k \<longleftrightarrow> take (length pre) k = pre"

text \<open>The loop over the entries of a leaf: entries that cannot be decoded are passed over.\<close>

definition on_entry :: "page \<Rightarrow> (bytes \<Rightarrow> 's \<Rightarrow> 's \<times> bool) \<Rightarrow> nat \<Rightarrow> 's \<Rightarrow> ('s \<times> bool) res" where
  "on_entry p g i s =
     res_bind (decode_leaf_entry p i (unat (num_rows p))) (\<lambda>d.
     Inr (case d of Some k \<Rightarrow> g k s | None \<Rightarrow> (s, False)))"

text \<open>One entry of a prefix scan; the flag of the state is \<^verbatim>\<open>found_start\<close>.\<close>

definition prefix_step :: "bytes \<Rightarrow> bytes \<Rightarrow> bytes list \<times> bool \<Rightarrow> (bytes list \<times> bool) \<times> bool" where
  "prefix_step pre k = (\<lambda>(results, found).
     if starts_with pre k then ((results @ [k], True), False) else ((results, found), found))"

definition scan_prefix :: "reader \<Rightarrow> nat \<Rightarrow> u32 \<Rightarrow> bytes \<Rightarrow> bytes list res" where
  "scan_prefix rd mx root pre =
     res_bind (find_leaf_for_key rd root pre) (\<lambda>first_leaf.
     res_bind (walk rd next_leaf (\<lambda>p. fold_until (on_entry p (prefix_step pre)) [0..<unat (num_rows p)])
       ''index leaf chain cycle detected in scan_prefix'' mx first_leaf ([], False))
     (\<lambda>(results, _). Inr results))"

text \<open>\<^verbatim>\<open>count: u64\<close> counts entries of at most 2^32 pages, so it stays below 2^64.\<close>

definition count_step :: "bytes \<Rightarrow> bytes \<Rightarrow> nat \<times> bool \<Rightarrow> (nat \<times> bool) \<times> bool" where
  "count_step pre k = (\<lambda>(n, found).
     if starts_with pre k then ((n + 1, True), False) else ((n, found), found))"

definition count_prefix :: "reader \<Rightarrow> nat \<Rightarrow> u32 \<Rightarrow> bytes \<Rightarrow> nat res" where
  "count_prefix rd mx root pre =
     res_bind (find_leaf_for_key rd root pre) (\<lambda>first_leaf.
     res_bind (walk rd next_leaf (\<lambda>p. fold_until (on_entry p (count_step pre)) [0..<unat (num_rows p)])
       ''index leaf chain cycle detected in count_prefix'' mx first_leaf (0, False))
     (\<lambda>(n, _). Inr n))"

definition limit_step :: "bytes \<Rightarrow> nat \<Rightarrow> bytes \<Rightarrow> bytes list \<times> bool \<Rightarrow> (bytes list \<times> bool) \<times> bool" where
  "limit_step pre lim k = (\<lambda>(results, found).
     if starts_with pre k then ((results @ [k], True), lim \<le> length (results @ [k]))
     else ((results, found), found))"

definition scan_prefix_limit :: "reader \<Rightarrow> nat \<Rightarrow> u32 \<Rightarrow> bytes \<Rightarrow> nat \<Rightarrow> bytes list res" where
  "scan_prefix_limit rd mx root pre lim =
     res_bind (find_leaf_for_key rd root pre) (\<lambda>first_leaf.
     res_bind (walk rd next_leaf (\<lambda>p. fold_until (on_entry p (limit_step pre lim)) [0..<unat (num_rows p)])
       ''index leaf chain cycle detected in scan_prefix_limit'' mx first_leaf ([], False))
     (\<lambda>(results, _). Inr results))"

text \<open>The cursor: the flag of the state says that another key was seen past a full batch.\<close>

definition key_beyond :: "sort_dir \<Rightarrow> bytes option \<Rightarrow> bytes \<Rightarrow> bool" where
  "key_beyond dir after k \<longleftrightarrow>
     (case after of None \<Rightarrow> True | Some a \<Rightarrow> (case dir of Asc \<Rightarrow> \<not> k \<le> a | Desc \<Rightarrow> \<not> a \<le> k))"

definition cursor_step ::
  "sort_dir \<Rightarrow> bytes option \<Rightarrow> nat \<Rightarrow> bytes \<Rightarrow> bytes list \<times> bool \<Rightarrow> (bytes list \<times> bool) \<times> bool" where
  "cursor_step dir after limit k = (\<lambda>(results, more).
     if \<not> key_beyond dir after k then ((results, more), False)
     else if limit \<le> length results then ((results, True), True)
     else ((results @ [k], more), False))"

definition scan_from_key ::
  "reader \<Rightarrow> nat \<Rightarrow> u32 \<Rightarrow> bytes option \<Rightarrow> sort_dir \<Rightarrow> nat \<Rightarrow> (bytes list \<times> bool) res" where
  "scan_from_key rd mx root after dir limit =
     (if limit = 0 then Inr ([], False)
      else case dir of
        Asc \<Rightarrow>
          res_bind (case after of Some k \<Rightarrow> find_leaf_for_key rd root k | None \<Rightarrow> idx_leftmost_leaf rd root) (\<lambda>start_leaf.
          walk rd next_leaf (\<lambda>p. fold_until (on_entry p (cursor_step Asc after limit)) [0..<unat (num_rows p)])
            ''index leaf chain cycle detected in scan_from_key(Asc)'' mx start_leaf ([], False))
      | Desc \<Rightarrow>
          res_bind (case after of Some k \<Rightarrow> find_leaf_for_key rd root k | None \<Rightarrow> idx_rightmost_leaf rd root) (\<lambda>start_leaf.
          walk rd prev_leaf (\<lambda>p. fold_until (on_entry p (cursor_step Desc after limit)) (rev [0..<unat (num_rows p)]))
            ''index leaf chain cycle detected in scan_from_key(Desc)'' mx start_leaf ([], False)))"

section \<open>The writer\<close>

definition idx_create :: "(bytes \<Rightarrow> u32) \<Rightarrow> u32 guarded" where
  "idx_create crc =
     sm_bind allocate_page (\<lambda>page_no.
     sm_bind (put_page page_no (new_leaf crc)) (\<lambda>_. sm_ret page_no))"

definition idx_insert_into_leaf :: "(bytes \<Rightarrow> u32) \<Rightarrow> u32 \<Rightarrow> page \<Rightarrow> bytes \<Rightarrow> bytes insert_result guarded" where
  "idx_insert_into_leaf crc page_no p key =
     (let n = unat (num_rows p) in
      sm_bind (sm_lift (find_idx_insertion_point p key n)) (\<lambda>pos.
      if needed_size p n (2 + length key) \<le> PAGE_SIZE then
        sm_bind (edit_page crc page_no (\<lambda>w.
          res_bind (write_idx_leaf_with_insert w p n pos key) (\<lambda>w. Inr (update_checksum crc w))))
        (\<lambda>_. sm_ret Fit)
      else
        let mid = (n + 1) div 2 in
        sm_bind allocate_page (\<lambda>new_page_no.
        sm_bind (sm_lift (extract_key_at_virtual_pos p n pos key mid)) (\<lambda>separator.
        sm_bind (edit_page crc page_no (\<lambda>w.
          res_bind (write_idx_leaf_range w p n pos key 0 mid) (\<lambda>w.
          Inr (update_checksum crc (set_prev_leaf (set_next_leaf w new_page_no) (prev_leaf p)))))) (\<lambda>_.
        sm_bind (sm_lift (
          res_bind (write_idx_leaf_range (new_leaf crc) p n pos key mid (n + 1)) (\<lambda>w.
          Inr (update_checksum crc (set_next_leaf (set_prev_leaf w page_no) (next_leaf p)))))) (\<lambda>right_page.
        sm_bind (put_page new_page_no right_page) (\<lambda>_.
        sm_bind (if next_leaf p \<noteq> 0
          then edit_page crc (next_leaf p) (\<lambda>w. Inr (update_checksum crc (set_prev_leaf w new_page_no)))
          else sm_ret ()) (\<lambda>_.
        sm_ret (Split new_page_no separator)))))))))"

definition idx_insert_into_branch ::
  "(bytes \<Rightarrow> u32) \<Rightarrow> u32 \<Rightarrow> nat \<Rightarrow> bytes \<Rightarrow> u32 \<Rightarrow> bytes insert_result guarded" where
  "idx_insert_into_branch crc =
     branch_insert crc ((PAGE_SIZE - PAGE_HEADER_SIZE - 4 - CHECKSUM_SIZE) div IDX_BRANCH_ENTRY_SIZE)
       insert_idx_branch_entry collect_idx_branch_flat rebuild_idx_branch_flat"

fun idx_insert_recursive :: "(bytes \<Rightarrow> u32) \<Rightarrow> nat \<Rightarrow> u32 \<Rightarrow> bytes \<Rightarrow> bytes insert_result guarded" where
  "idx_insert_recursive crc 0 page_no key =
     sm_lift (Inl (Fail (Corruption ''index B+ tree depth exceeds maximum in insert_recursive'')))"
| "idx_insert_recursive crc (Suc d) page_no key =
     sm_bind (sm_view (\<lambda>f. guard_view crc f page_no)) (\<lambda>p.
     if is_leaf p then
       sm_bind (sm_view (\<lambda>f. guard_view crc f page_no)) (\<lambda>p. idx_insert_into_leaf crc page_no p key)
     else
       sm_bind (sm_lift (find_idx_child p key)) (\<lambda>(child_idx, child_page_no).
       sm_bind (idx_insert_recursive crc d child_page_no key) (\<lambda>result.
       case result of
         Fit \<Rightarrow> sm_ret Fit
       | Split new_page separator \<Rightarrow> idx_insert_into_branch crc page_no child_idx separator new_page)))"

definition idx_grow_root :: "(bytes \<Rightarrow> u32) \<Rightarrow> u32 \<Rightarrow> u32 \<Rightarrow> bytes \<Rightarrow> u32 guarded" where
  "idx_grow_root crc = branch_root crc write_idx_branch_entry set_idx_branch_child"

definition idx_insert :: "(bytes \<Rightarrow> u32) \<Rightarrow> u32 \<Rightarrow> bytes \<Rightarrow> u32 guarded" where
  "idx_insert crc root key =
     sm_bind (idx_insert_recursive crc MAX_TREE_DEPTH root key) (\<lambda>result.
     case result of
       Fit \<Rightarrow> sm_ret root
     | Split new_page separator \<Rightarrow> idx_grow_root crc root new_page separator)"

text \<open>The linear scan of a deletion: \<open>None\<close> when the key is not there.\<close>

fun find_exact :: "page \<Rightarrow> bytes \<Rightarrow> nat \<Rightarrow> nat list \<Rightarrow> nat option res" where
  "find_exact p key n [] = Inr None"
| "find_exact p key n (i # is) =
     res_bind (decode_leaf_entry p i n) (\<lambda>d.
     case d of
       Some k \<Rightarrow> if k = key then Inr (Some i) else if key < k then Inr None else find_exact p key n is
     | None \<Rightarrow> find_exact p key n is)"

definition idx_delete_from_leaf :: "(bytes \<Rightarrow> u32) \<Rightarrow> u32 \<Rightarrow> bytes \<Rightarrow> page \<Rightarrow> bool guarded" where
  "idx_delete_from_leaf crc page_no key p =
     (let n = unat (num_rows p) in
      if n = 0 then sm_ret False
      else
        sm_bind (sm_lift (find_exact p key n [0..<n])) (\<lambda>found_pos.
        case found_pos of
          None \<Rightarrow> sm_ret False
        | Some pos \<Rightarrow>
            sm_bind (edit_page crc page_no (\<lambda>w.
              res_bind (write_idx_leaf_without w p n pos) (\<lambda>w.
              Inr (update_checksum crc (set_prev_leaf (set_next_leaf w (next_leaf p)) (prev_leaf p)))))) (\<lambda>_.
            sm_ret True)))"

fun idx_delete_recursive :: "(bytes \<Rightarrow> u32) \<Rightarrow> nat \<Rightarrow> u32 \<Rightarrow> bytes \<Rightarrow> bool guarded" where
  "idx_delete_recursive crc 0 page_no key =
     sm_lift (Inl (Fail (Corruption ''index B+ tree depth exceeds maximum in delete_recursive'')))"
| "idx_delete_recursive crc (Suc d) page_no key =
     sm_bind (sm_view (\<lambda>f. guard_view crc f page_no)) (\<lambda>p.
     if \<not> is_leaf p then sm_bind (sm_lift (find_idx_child p key)) (\<lambda>(_, c). idx_delete_recursive crc d c key)
     else sm_bind (sm_view (\<lambda>f. guard_view crc f page_no)) (idx_delete_from_leaf crc page_no key))"

definition idx_delete :: "(bytes \<Rightarrow> u32) \<Rightarrow> u32 \<Rightarrow> bytes \<Rightarrow> bool guarded" where
  "idx_delete crc root key = idx_delete_recursive crc MAX_TREE_DEPTH root key"

section \<open>The index tree\<close>

definition index_tree :: "reader \<Rightarrow> bytes btree \<Rightarrow> bool" where
  "index_tree rd t \<longleftrightarrow>
     branches_at idx_branch rd t \<and> chain_ok rd 0 (leaves t) 0 \<and> in_range entry_key None None t
     \<and> 0 \<notin> set (tree_pages t) \<and> distinct (tree_pages t) \<and> (\<forall>r \<in> set (tree_rows t). short_entry r)"

text \<open>The contents: the keys in order.\<close>

definition index_keys :: "bytes btree \<Rightarrow> bytes list" where
  "index_keys t = map entry_key (tree_rows t)"

lemma index_treeD:
  assumes "index_tree rd t"
  shows "branches_at idx_branch rd t" "chain_ok rd 0 (leaves t) 0" "ordered entry_key t"
    "0 \<notin> fst ` set (leaves t)" "distinct (map fst (leaves t))" "leaves t \<noteq> []"
    "\<And>r. r \<in> set (tree_rows t) \<Longrightarrow> short_entry r"
  using assms idx_tree.leaves_ne in_range_ordered by (auto simp: index_tree_def tree_pages_def)

lemma index_keys_sorted: "index_tree rd t \<Longrightarrow> sorted_wrt (<) (index_keys t)"
  unfolding index_keys_def by (rule ordered_sorted [OF index_treeD(3)])

lemma entry_fold:
  assumes p: "leaf_page p nx pv rows" and s: "\<forall>r \<in> set rows. short_entry r"
  shows "fold_until (on_entry p g) [0..<unat (num_rows p)] s = Inr (fold_stop g (map entry_key rows) s)"
    and "fold_until (on_entry p g) (rev [0..<unat (num_rows p)]) s = Inr (fold_stop g (rev (map entry_key rows)) s)"
proof -
  have entry: "on_entry p g i s = Inr (g (entry_key (rows ! i)) s)" if "i < length rows" for i s
    using decode_entry_leaf [OF p that, of row_bounds] s that leaf_pageD(9) [OF p]
    by (simp add: on_entry_def decode_leaf_entry_def)
  have all: "fold_until (on_entry p g) is s = Inr (fold_stop g (map (\<lambda>i. entry_key (rows ! i)) is) s)"
    if "set is \<subseteq> {..<length rows}" for "is"
  proof -
    have "fold_until (on_entry p g) is s = fold_until (\<lambda>k s. Inr (g k s)) (map (\<lambda>i. entry_key (rows ! i)) is) s"
      using that entry by (intro fold_until_map) auto
    then show ?thesis by (simp add: fold_until_pure)
  qed
  have keys: "map (\<lambda>i. entry_key (rows ! i)) [0..<length rows] = map entry_key rows"
    by (simp add: map_equality_iff)
  show "fold_until (on_entry p g) [0..<unat (num_rows p)] s = Inr (fold_stop g (map entry_key rows) s)"
    using all [of "[0..<length rows]"] keys leaf_pageD(9) [OF p] by (simp add: atLeast0LessThan)
  show "fold_until (on_entry p g) (rev [0..<unat (num_rows p)]) s = Inr (fold_stop g (rev (map entry_key rows)) s)"
    using all [of "rev [0..<length rows]"] keys leaf_pageD(9) [OF p] by (simp add: atLeast0LessThan rev_map [symmetric])
qed

lemma index_walk:
  assumes t: "index_tree rd t" and split: "leaves t = as @ bs" "bs \<noteq> []" and mx: "length bs \<le> mx"
  shows "walk rd next_leaf (\<lambda>p. fold_until (on_entry p g) [0..<unat (num_rows p)]) err mx (first_page bs 0) s =
    Inr (fst (fold_stop g (map entry_key (leaf_rows bs)) s))"
proof -
  note d = index_treeD [OF t]
  have short: "\<forall>r \<in> set rows. short_entry r" if "rows \<in> snd ` set bs" for rows
    using that d(7) split by (force simp: tree_rows_def leaf_rows_def)
  have "chain_ok rd (last_page 0 as) bs 0" using d(2) split(1) by (simp add: chain_ok_append)
  then have "walk rd next_leaf (\<lambda>p. fold_until (on_entry p g) [0..<unat (num_rows p)]) err mx (first_page bs 0) s =
      Inr (walk_rows (\<lambda>rows. fold_stop g (map entry_key rows)) (map snd bs) s)"
    using d(4) split mx by (intro walk_chain entry_fold(1) short) auto
  moreover have "walk_rows (\<lambda>rows. fold_stop g (map entry_key rows)) rss s = walk_rows (fold_stop g) (map (map entry_key) rss) s" for rss s
    by (induction rss arbitrary: s) (simp_all add: Let_def case_prod_beta)
  ultimately show ?thesis by (simp add: walk_rows_fold leaf_rows_def map_concat)
qed

lemma index_walk_back:
  assumes t: "index_tree rd t" and split: "leaves t = as @ bs" "as \<noteq> []" and mx: "length as \<le> mx"
  shows "walk rd prev_leaf (\<lambda>p. fold_until (on_entry p g) (rev [0..<unat (num_rows p)])) err mx (last_page 0 as) s =
    Inr (fst (fold_stop g (rev (map entry_key (leaf_rows as))) s))"
proof -
  note d = index_treeD [OF t]
  have short: "\<forall>r \<in> set rows. short_entry r" if "rows \<in> snd ` set as" for rows
    using that d(7) split by (force simp: tree_rows_def leaf_rows_def)
  have "chain_ok rd 0 as (first_page bs 0)" using d(2) split(1) by (simp add: chain_ok_append)
  then have "walk rd prev_leaf (\<lambda>p. fold_until (on_entry p g) (rev [0..<unat (num_rows p)])) err mx (last_page 0 as) s =
      Inr (walk_rows (\<lambda>rows. fold_stop g (rev (map entry_key rows))) (rev (map snd as)) s)"
    using d(4) split mx by (intro walk_chain_back entry_fold(2) short) auto
  moreover have "walk_rows (\<lambda>rows. fold_stop g (rev (map entry_key rows))) rss s
      = walk_rows (\<lambda>rows. fold_stop g (rev rows)) (map (map entry_key) rss) s" for rss s
    by (induction rss arbitrary: s) (simp_all add: Let_def case_prod_beta)
  ultimately show ?thesis 
    by (simp add: rev_map [symmetric] walk_rows_fold_rev leaf_rows_def map_concat)
qed

text \<open>Where the descents of the reader end.\<close>

lemma find_leaf_for_key_run:
  assumes t: "index_tree rd t" and h: "height t \<le> MAX_TREE_DEPTH"
  obtains as n rows bs where "leaves t = as @ (n, rows) # bs" "find_leaf_for_key rd (root_of t) k = Inr n"
    "\<forall>x \<in> set (map entry_key (leaf_rows as)). x < k" "\<forall>x \<in> set (map entry_key (leaf_rows bs)). k < x"
    "leaf_for t k = (n, rows)"
proof -
  note d = index_treeD [OF t]
  obtain n rows where l: "leaf_for t k = (n, rows)" by (cases "leaf_for t k")
  have "find_leaf_for_key rd (root_of t) k = Inr n"
    using idx_tree.find_leaf_key [of rd t 0 "[]" "[]" 0 MAX_TREE_DEPTH k] d(1,2) h l
    by (simp add: find_leaf_for_key_def idx_child_for_def [abs_def])
  with leaf_for_split [OF d(3), of k] l that show ?thesis by auto
qed

lemma idx_end_leaves:
  assumes t: "index_tree rd t" and h: "height t \<le> MAX_TREE_DEPTH"
  shows "idx_leftmost_leaf rd (root_of t) = Inr (first_page (leaves t) 0)"
    and "idx_rightmost_leaf rd (root_of t) = Inr (last_page 0 (leaves t))"
proof -
  note d = index_treeD [OF t]
  show "idx_leftmost_leaf rd (root_of t) = Inr (first_page (leaves t) 0)"
    using idx_tree.find_leaf_first [of rd t 0 "[]" 0 MAX_TREE_DEPTH] d(1,2,6) h
    by (simp add: idx_leftmost_leaf_def first_page_def split: list.splits)
  show "idx_rightmost_leaf rd (root_of t) = Inr (last_page 0 (leaves t))"
    using idx_tree.find_leaf_last [of rd t 0 "[]" 0 MAX_TREE_DEPTH "\<lambda>p. unat (num_rows p)"] d(1,2,6) h idx_branchD(4)
    by (simp add: idx_rightmost_leaf_def last_page_def)
qed

section \<open>Prefix scans\<close>

lemma starts_with_Nil [simp]: "starts_with [] k"
  by (simp add: starts_with_def)

lemma starts_with_Cons [simp]: "starts_with (a # pre) (b # k) \<longleftrightarrow> a = b \<and> starts_with pre k" "\<not> starts_with (a # pre) []"
  by (auto simp: starts_with_def)

lemma starts_with_ConsE:
  assumes "starts_with (x # pre) k" obtains k' where "k = x # k'" "starts_with pre k'"
  using assms by (cases k) auto

lemma starts_with_le: "starts_with pre k \<Longrightarrow> pre \<le> k"
proof (induction pre arbitrary: k)
  case (Cons a pre)
  then show ?case by (cases k) auto
qed simp

text \<open>In the order of the keys, the keys with a common prefix are next to each other.\<close>

lemma starts_with_between: "starts_with pre a \<Longrightarrow> a \<le> b \<Longrightarrow> b \<le> c \<Longrightarrow> starts_with pre c \<Longrightarrow> starts_with pre b"
proof (induction pre arbitrary: a b c)
  case (Cons x pre)
  obtain a' where a: "a = x # a'" "starts_with pre a'" using starts_with_ConsE [OF Cons.prems(1)] .
  obtain c' where c: "c = x # c'" "starts_with pre c'" using starts_with_ConsE [OF Cons.prems(4)] .
  obtain y b' where b: "b = y # b'" using Cons.prems(2) a(1) by (cases b) auto
  have "x \<le> y" "y \<le> x" using Cons.prems(2,3) unfolding a(1) b c(1) Cons_le_Cons by auto
  then have xy: "y = x" by simp
  have "a' \<le> b'" "b' \<le> c'" using Cons.prems(2,3) unfolding a(1) b c(1) xy Cons_le_Cons by auto
  then have "starts_with pre b'" using Cons.IH [of a' b' c'] a(2) c(2) by blast
  then show ?case by (simp add: b xy)
qed simp

lemma prefix_block:
  assumes "sorted_wrt (<) ks"
  obtains xs ys zs where "ks = xs @ ys @ zs" "\<forall>k \<in> set xs. \<not> starts_with pre k"
    "\<forall>k \<in> set ys. starts_with pre k" "\<forall>k \<in> set zs. \<not> starts_with pre k"
proof -
  define xs where "xs = takeWhile (\<lambda>k. \<not> starts_with pre k) ks"
  define rest where "rest = dropWhile (\<lambda>k. \<not> starts_with pre k) ks"
  define ys where "ys = takeWhile (starts_with pre) rest"
  define zs where "zs = dropWhile (starts_with pre) rest"
  have ks: "ks = xs @ ys @ zs" by (simp add: xs_def ys_def zs_def rest_def)
  have sorted: "sorted_wrt (<) (xs @ ys @ zs)" using assms ks by simp
  have "\<not> starts_with pre k" if k: "k \<in> set zs" for k
  proof
    assume sk: "starts_with pre k"
    have ne: "zs \<noteq> []" using k by auto
    obtain z zs' where z: "zs = z # zs'" "\<not> starts_with pre z"
      using ne hd_dropWhile [of "starts_with pre" rest] by (cases zs) (simp_all add: zs_def [symmetric])
    have "rest = ys @ zs" by (simp add: ys_def zs_def)
    then have "rest \<noteq> []" using ne by simp
    then have "starts_with pre (hd rest)" unfolding rest_def by (metis hd_dropWhile)
    moreover have "hd rest \<in> set (ys @ [z])" using \<open>rest = ys @ zs\<close> z(1) by (cases ys) auto
    ultimately have y: "hd rest \<in> set ys" using z(2) by auto
    have "hd rest \<le> z" "z \<le> k" using sorted y z(1) k by (auto simp: sorted_wrt_append less_imp_le)
    then show False using starts_with_between \<open>starts_with pre (hd rest)\<close> sk z(2) by blast
  qed
  with ks show ?thesis
    by (intro that [of xs ys zs]) (auto simp: xs_def ys_def dest: set_takeWhileD)
qed

lemma prefix_block_filter:
  assumes "\<forall>k \<in> set xs. \<not> P k" "\<forall>k \<in> set ys. P k" "\<forall>k \<in> set zs. \<not> P k"
  shows "filter P (xs @ ys @ zs) = ys"
  using assms by (simp add: filter_empty_conv filter_id_conv)

text \<open>The scan from the leaf of the prefix covers every key that starts with it.\<close>

lemma scan_start:
  assumes t: "index_tree rd t" and h: "height t \<le> MAX_TREE_DEPTH"
  obtains as bs where "leaves t = as @ bs" "bs \<noteq> []" "find_leaf_for_key rd (root_of t) pre = Inr (first_page bs 0)"
    "sorted_wrt (<) (map entry_key (leaf_rows bs))"
    "filter (starts_with pre) (map entry_key (leaf_rows bs)) = filter (starts_with pre) (index_keys t)"
proof -
  from find_leaf_for_key_run [OF t h, of pre] obtain as n rows bs where l: "leaves t = as @ (n, rows) # bs"
    "find_leaf_for_key rd (root_of t) pre = Inr n" "\<forall>x \<in> set (map entry_key (leaf_rows as)). x < pre" by metis
  let ?ks = "map entry_key (leaf_rows ((n, rows) # bs))"
  have keys: "index_keys t = map entry_key (leaf_rows as) @ ?ks" by (simp add: index_keys_def tree_rows_def l(1))
  have "\<not> starts_with pre x" if "x \<in> set (map entry_key (leaf_rows as))" for x
    using l(3) that starts_with_le [of pre x] by (auto simp: not_le [symmetric])
  then have "filter (starts_with pre) (map entry_key (leaf_rows as)) = []" by (simp only: filter_empty_conv) blast
  then have "filter (starts_with pre) (index_keys t) = filter (starts_with pre) ?ks" unfolding keys filter_append by simp
  moreover have "sorted_wrt (<) ?ks" using index_keys_sorted [OF t] unfolding keys sorted_wrt_append by blast
  ultimately show ?thesis using l(1,2) by (intro that [of as "(n, rows) # bs"]) simp_all
qed

lemma prefix_fold:
  assumes "sorted_wrt (<) ks"
  shows "fst (fst (fold_stop (prefix_step pre) ks ([], False))) = filter (starts_with pre) ks"
    and "fst (fst (fold_stop (count_step pre) ks (0, False))) = length (filter (starts_with pre) ks)"
    and "fst (fst (fold_stop (limit_step pre lim) ks ([], False))) = take (max 1 lim) (filter (starts_with pre) ks)"
proof -
  obtain xs ys zs where b: "ks = xs @ ys @ zs" "\<forall>k \<in> set xs. \<not> starts_with pre k"
    "\<forall>k \<in> set ys. starts_with pre k" "\<forall>k \<in> set zs. \<not> starts_with pre k" using prefix_block [OF assms] by blast
  have f: "filter (starts_with pre) ks = ys" unfolding b(1) by (rule prefix_block_filter [OF b(2-4)])
  have skip: "fold_stop (prefix_step pre) us (a, False) = ((a, False), False)"
    "fold_stop (count_step pre) us (n, False) = ((n, False), False)"
    "fold_stop (limit_step pre lim) us (a, False) = ((a, False), False)"
    if "\<forall>k \<in> set us. \<not> starts_with pre k" for us a n
    using that by (induction us) (simp_all add: prefix_step_def count_step_def limit_step_def)
  have out: "fst (fold_stop (prefix_step pre) us (a, True)) = (a, True)"
    "fst (fold_stop (count_step pre) us (n, True)) = (n, True)"
    "fst (fold_stop (limit_step pre lim) us (a, True)) = (a, True)"
    if "\<forall>k \<in> set us. \<not> starts_with pre k" for us a n
    using that by (cases us; simp add: prefix_step_def count_step_def limit_step_def)+
  have take1: "fold_stop (prefix_step pre) us (a, fd) = ((a @ us, fd \<or> us \<noteq> []), False)"
    "fold_stop (count_step pre) us (n, fd) = ((n + length us, fd \<or> us \<noteq> []), False)"
    if "\<forall>k \<in> set us. starts_with pre k" for us a n fd
    using that by (induction us arbitrary: a n fd) (simp_all add: prefix_step_def count_step_def)
  show "fst (fst (fold_stop (prefix_step pre) ks ([], False))) = filter (starts_with pre) ks"
    unfolding f unfolding b(1) using take1(1) [OF b(3), of "[]" False] skip(1) [OF b(2)] skip(1) [OF b(4)] out(1) [OF b(4)]
    by (cases "ys = []") (simp_all add: fold_stop_append)
  show "fst (fst (fold_stop (count_step pre) ks (0, False))) = length (filter (starts_with pre) ks)"
    unfolding f unfolding b(1) using take1(2) [OF b(3), of 0 False] skip(2) [OF b(2)] skip(2) [OF b(4)] out(2) [OF b(4)]
    by (cases "ys = []") (simp_all add: fold_stop_append)
  have take2: "fold_stop (limit_step pre lim) us (a, fd) =
      ((a @ take (max 1 (lim - length a)) us, fd \<or> us \<noteq> []), us \<noteq> [] \<and> lim \<le> length a + length us)"
    if "\<forall>k \<in> set us. starts_with pre k" for us a fd
    using that
  proof (induction us arbitrary: a fd)
    case (Cons u us)
    show ?case
    proof (cases "lim \<le> length (a @ [u])")
      case True
      then have "max 1 (lim - length a) = 1" by simp
      then show ?thesis using True Cons.prems by (simp add: limit_step_def)
    next
      case False
      then have "max 1 (lim - length a) = Suc (max 1 (lim - length (a @ [u])))" by simp
      then show ?thesis using False Cons.prems Cons.IH [of "a @ [u]" True] by (auto simp: limit_step_def)
    qed
  qed simp
  show "fst (fst (fold_stop (limit_step pre lim) ks ([], False))) = take (max 1 lim) (filter (starts_with pre) ks)"
    unfolding f unfolding b(1) using take2 [OF b(3), of "[]" False] skip(3) [OF b(2)] skip(3) [OF b(4)] out(3) [OF b(4)]
    by (cases "ys = []") (simp_all add: fold_stop_append)
qed

lemma scan_prefix_run:
  assumes "index_tree rd t" "height t \<le> MAX_TREE_DEPTH" "length (leaves t) \<le> mx"
  shows "scan_prefix rd mx (root_of t) pre = Inr (filter (starts_with pre) (index_keys t))"
    and "count_prefix rd mx (root_of t) pre = Inr (length (filter (starts_with pre) (index_keys t)))"
    and "scan_prefix_limit rd mx (root_of t) pre lim = Inr (take (max 1 lim) (filter (starts_with pre) (index_keys t)))"
proof -
  obtain as bs where s: "leaves t = as @ bs" "bs \<noteq> []" "find_leaf_for_key rd (root_of t) pre = Inr (first_page bs 0)"
    "sorted_wrt (<) (map entry_key (leaf_rows bs))"
    "filter (starts_with pre) (map entry_key (leaf_rows bs)) = filter (starts_with pre) (index_keys t)"
    using scan_start [OF assms(1,2)] by blast
  have "length bs \<le> mx" using s(1) assms(3) by simp
  note w = index_walk [OF assms(1) s(1,2) this]
  note f = prefix_fold [where pre = pre, OF s(4), unfolded s(5)]
  show "scan_prefix rd mx (root_of t) pre = Inr (filter (starts_with pre) (index_keys t))"
    using s(3) f(1) by (simp add: w scan_prefix_def case_prod_beta)
  show "count_prefix rd mx (root_of t) pre = Inr (length (filter (starts_with pre) (index_keys t)))"
    using s(3) f(2) by (simp add: w count_prefix_def case_prod_beta)
  show "scan_prefix_limit rd mx (root_of t) pre lim = Inr (take (max 1 lim) (filter (starts_with pre) (index_keys t)))"
    using s(3) f(3) by (simp add: w scan_prefix_limit_def case_prod_beta)
qed

section \<open>The cursor\<close>

lemma cursor_step_fold:
  assumes "length res \<le> limit" "0 < limit"
  shows "fst (fold_stop (cursor_step dir after limit) ks (res, False)) =
    (res @ take (limit - length res) (filter (key_beyond dir after) ks),
     limit - length res < length (filter (key_beyond dir after) ks))"
  using assms(1)
proof (induction ks arbitrary: res)
  case (Cons k ks)
  show ?case
  proof (cases "key_beyond dir after k")
    case True
    show ?thesis
    proof (cases "limit \<le> length res")
      case False
      then have "limit - length res = Suc (limit - length (res @ [k]))" by simp
      then show ?thesis using True False Cons.IH [of "res @ [k]"] by (simp add: cursor_step_def)
    qed (use True Cons.prems in \<open>simp add: cursor_step_def\<close>)
  qed (use Cons in \<open>simp add: cursor_step_def\<close>)
qed simp

lemma scan_from_key_run:
  assumes t: "index_tree rd t" and h: "height t \<le> MAX_TREE_DEPTH" and mx: "length (leaves t) \<le> mx" and lim: "0 < limit"
  shows "scan_from_key rd mx (root_of t) after dir limit =
    (let hits = filter (key_beyond dir after) (in_dir dir (index_keys t)) in Inr (take limit hits, limit < length hits))"
proof (cases dir)
  case Asc
  obtain as bs where split: "leaves t = as @ bs" "bs \<noteq> []"
    and start: "(case after of Some k \<Rightarrow> find_leaf_for_key rd (root_of t) k | None \<Rightarrow> idx_leftmost_leaf rd (root_of t)) = Inr (first_page bs 0)"
    and before: "\<forall>x \<in> set (map entry_key (leaf_rows as)). \<not> key_beyond Asc after x"
  proof (cases after)
    case None
    then show ?thesis using that [of "[]" "leaves t"] index_treeD(6) [OF t] idx_end_leaves(1) [OF t h] by simp
  next
    case (Some k)
    from find_leaf_for_key_run [OF t h, of k] obtain as n rows bs where "leaves t = as @ (n, rows) # bs"
      "find_leaf_for_key rd (root_of t) k = Inr n" "\<forall>x \<in> set (map entry_key (leaf_rows as)). x < k" by metis
    then show ?thesis using that [of as "(n, rows) # bs"] Some by (fastforce simp: key_beyond_def)
  qed
  have "length bs \<le> mx" using split(1) mx by simp
  note w = index_walk [OF t split this]
  have "filter (key_beyond Asc after) (map entry_key (leaf_rows as)) = []" using before unfolding filter_empty_conv .
  moreover have "index_keys t = map entry_key (leaf_rows as) @ map entry_key (leaf_rows bs)"
    by (simp add: index_keys_def tree_rows_def split(1))
  ultimately have "filter (key_beyond Asc after) (index_keys t) = filter (key_beyond Asc after) (map entry_key (leaf_rows bs))"
    by (simp only: filter_append append_Nil)
  then show ?thesis
    using lim start cursor_step_fold [of "[]" limit Asc after "map entry_key (leaf_rows bs)"]
    by (simp add: Asc scan_from_key_def in_dir_def w Let_def)
next
  case Desc
  obtain as bs where split: "leaves t = as @ bs" "as \<noteq> []"
    and start: "(case after of Some k \<Rightarrow> find_leaf_for_key rd (root_of t) k | None \<Rightarrow> idx_rightmost_leaf rd (root_of t)) = Inr (last_page 0 as)"
    and past: "\<forall>x \<in> set (map entry_key (leaf_rows bs)). \<not> key_beyond Desc after x"
  proof (cases after)
    case None
    then show ?thesis using that [of "leaves t" "[]"] index_treeD(6) [OF t] idx_end_leaves(2) [OF t h] by simp
  next
    case (Some k)
    from find_leaf_for_key_run [OF t h, of k] obtain as n rows bs where "leaves t = as @ (n, rows) # bs"
      "find_leaf_for_key rd (root_of t) k = Inr n" "\<forall>x \<in> set (map entry_key (leaf_rows bs)). k < x" by metis
    then show ?thesis using that [of "as @ [(n, rows)]" bs] Some by (fastforce simp: key_beyond_def last_page_def)
  qed
  have "length as \<le> mx" using split(1) mx by simp
  note w = index_walk_back [OF t split this]
  have "filter (key_beyond Desc after) (rev (map entry_key (leaf_rows bs))) = []" using past unfolding filter_empty_conv set_rev .
  moreover have "rev (index_keys t) = rev (map entry_key (leaf_rows bs)) @ rev (map entry_key (leaf_rows as))"
    by (simp add: index_keys_def tree_rows_def split(1))
  ultimately have "filter (key_beyond Desc after) (rev (index_keys t)) = filter (key_beyond Desc after) (rev (map entry_key (leaf_rows as)))"
    by (simp only: filter_append append_Nil)
  then show ?thesis
    using lim start cursor_step_fold [of "[]" limit Desc after "rev (map entry_key (leaf_rows as))"]
    by (simp add: Desc scan_from_key_def in_dir_def w Let_def)
qed

section \<open>The leaf operation\<close>

text \<open>The code of the index leaf is that of the row tree, on the encoded entry.\<close>

lemma idx_insert_into_leaf_shared:
  "idx_insert_into_leaf crc n p key = (let len = unat (num_rows p); mid = (len + 1) div 2 in
     sm_bind (sm_lift (find_idx_insertion_point p key len)) (\<lambda>pos.
     if needed_size p len (2 + length key) \<le> PAGE_SIZE then write_in_place crc n p len pos (encode_entry key)
     else split_leaf crc (extract_key_at_virtual_pos p len pos key mid) n p len pos (encode_entry key) mid))"
  by (simp add: idx_insert_into_leaf_def write_in_place_def split_leaf_def write_idx_leaf_with_insert_def
      write_idx_leaf_range_def Let_def cong: if_cong)

text \<open>A leaf of entries of short keys always takes one more: both halves fit on a page.\<close>

lemma entry_halves_fit:
  assumes p: "leaf_page p nx pv rows" and short: "\<forall>r \<in> insert e (set rows). 2 \<le> length r \<and> length r \<le> 38"
    and pos: "pos \<le> length rows" and big: "PAGE_SIZE < leaf_size (inserted pos e rows)"
  shows "leaf_size (take (Suc (length rows) div 2) (inserted pos e rows)) \<le> PAGE_SIZE"
    "leaf_size (drop (Suc (length rows) div 2) (inserted pos e rows)) \<le> PAGE_SIZE" "rows \<noteq> []"
proof -
  let ?R = "inserted pos e rows" and ?mid = "Suc (length rows) div 2"
  have len: "length ?R = Suc (length rows)" using pos by simp
  have R: "\<forall>r \<in> set ?R. 2 \<le> length r \<and> length r \<le> 38" using short pos by (simp add: set_inserted)
  have parts: "leaf_size (take ?mid ?R) + leaf_size (drop ?mid ?R) = leaf_size ?R + 20"
    using leaf_size_append [of "take ?mid ?R" "drop ?mid ?R"] by simp
  have "leaf_size ?R \<le> leaf_size rows + 40"
    using leaf_size_append [of "take pos rows" "e # drop pos rows"] leaf_size_append [of "take pos rows" "drop pos rows"] short
    by (simp add: inserted_def leaf_size_Cons)
  then have le: "leaf_size ?R \<le> 4136" using leaf_pageD(7) [OF p] by simp
  have "4096 < 20 + Suc (length rows) * 40" using leaf_size_bounds(2) [OF R] big len by simp
  then have n: "100 \<le> length rows" by simp
  then show "rows \<noteq> []" by auto
  have "20 + length (take ?mid ?R) * 4 \<le> leaf_size (take ?mid ?R)" "20 + length (drop ?mid ?R) * 4 \<le> leaf_size (drop ?mid ?R)"
    using leaf_size_bounds(1) [of "take ?mid ?R" 2 38] leaf_size_bounds(1) [of "drop ?mid ?R" 2 38] R
    by (auto dest: in_set_takeD in_set_dropD)
  moreover have "50 \<le> length (take ?mid ?R)" "50 \<le> length (drop ?mid ?R)" using n len by simp_all
  ultimately have "220 \<le> leaf_size (take ?mid ?R)" "220 \<le> leaf_size (drop ?mid ?R)" by linarith+
  then show "leaf_size (take ?mid ?R) \<le> PAGE_SIZE" "leaf_size (drop ?mid ?R) \<le> PAGE_SIZE" using parts le by simp_all
qed

definition entry_for :: "bytes \<Rightarrow> reader \<Rightarrow> u32 set \<Rightarrow> bytes \<Rightarrow> bool" where
  "entry_for k rd ps r \<longleftrightarrow> r = encode_entry k \<and> ps = {}"

lemma entry_for_frames: "\<forall>rd rd' ps r. entry_for k rd ps r \<longrightarrow> (\<forall>n \<in> ps. rd' n = rd n) \<longrightarrow> entry_for k rd' ps r"
  by (simp add: entry_for_def)

lemma idx_insert_into_leaf_run:
  assumes v: "guard_view crc f n = Inr p" and p: "leaf_page p nx pv rows" and srt: "sorted_wrt (<) (map entry_key rows)"
    and ok: "\<forall>r \<in> set rows. short_entry r \<and> entry_key r \<noteq> k" and k: "length k \<le> 36"
    and nx: "nx \<noteq> 0 \<longrightarrow> nx \<noteq> n \<and> unat nx < guard_next f \<and> (\<exists>q nx' rs. guard_view crc f nx = Inr q \<and> leaf_page q nx' n rs)"
    and n: "unat n < guard_next f" and space: "guard_next f + 1 < 2 ^ 32 - 1"
  shows "\<exists>res f'. idx_insert_into_leaf crc n p k f = (Inr res, f')
    \<and> leaf_result entry_key k (entry_for k) 1 n nx pv rows (guard_view crc f) (guard_next f) res
        (guard_view crc f') (guard_next f')"
proof -
  have es: "entries_sorted rows" using srt ok by (simp add: entries_sorted_def)
  have "k \<notin> entry_key ` set rows" using ok by auto
  from find_idx_insertion_point_absent [OF p es this] obtain pos where pos: "pos \<le> length rows"
    "find_idx_insertion_point p k (length rows) = Inr pos" "\<forall>r \<in> set (take pos rows). entry_key r < k"
    "\<forall>r \<in> set (drop pos rows). k < entry_key r" by blast
  let ?e = "encode_entry k" and ?mid = "Suc (length rows) div 2"
  have Q: "entry_for k (guard_view crc f) {} ?e" by (simp add: entry_for_def)
  have ke: "entry_key ?e = k" using entry_key_encode [of k] k by simp
  have needed: "needed_size p (length rows) (2 + length k) = leaf_size (inserted pos ?e rows)"
    using needed_size_leaf [OF p pos(1), of ?e] by (simp add: encode_entry_def)
  note start = idx_insert_into_leaf_shared [of crc n p k, unfolded leaf_pageD(9) [OF p]]
  show ?thesis
  proof (cases "leaf_size (inserted pos ?e rows) \<le> PAGE_SIZE")
    case True
    have "\<forall>x \<in> {}. guard_next f \<le> unat x \<and> unat x < guard_next f" "guard_next f \<le> guard_next f + 1" by simp_all
    from write_in_place_result [where Q = "entry_for k", OF v p n pos(1,3,4) True Q entry_for_frames ke this(1) grows_refl this(2)]
    show ?thesis unfolding start using True pos(2) needed by (simp add: Let_def)
  next
    case False
    have "2 \<le> length r \<and> length r \<le> 38" if "r \<in> insert ?e (set rows)" for r
      using that ok k short_entryD(3,4) short_entry_encode [OF k] by blast
    then have short: "\<forall>r \<in> insert ?e (set rows). 2 \<le> length r \<and> length r \<le> 38" by blast
    have big: "PAGE_SIZE < leaf_size (inserted pos ?e rows)" using False by simp
    note fits = entry_halves_fit [OF p short pos(1) big]
    have mid: "0 < ?mid" "?mid \<le> length rows" using fits(3) by (cases rows; simp)+
    have "\<forall>r \<in> set rows. short_entry r" using ok by blast
    from extract_key_leaf [OF p pos(1) mid(2) this k]
    have sep: "extract_key_at_virtual_pos p (length rows) pos k ?mid = Inr (entry_key (inserted pos ?e rows ! ?mid))" .
    have sp: "guard_next f < 2 ^ 32 - 1" "guard_next f + 1 \<le> guard_next f + 1" "\<forall>x \<in> {}. guard_next f \<le> unat x \<and> unat x < guard_next f"
      "\<forall>x. unat x < guard_next f \<longrightarrow> guard_view crc f x = guard_view crc f x" using space by simp_all
    from split_leaf_result [where Q = "entry_for k", OF v p Q entry_for_frames ke pos(1,3,4) mid fits(1,2) nx n sp(1) order_refl sp(2,3,4)]
    show ?thesis unfolding start using False pos(2) needed sep by (simp add: Let_def)
  qed
qed

section \<open>The branch operations\<close>

lemma idx_root_page:
  assumes "length sep \<le> 36"
  shows "\<exists>q. res_bind (write_idx_branch_entry (new_branch crc) 0 root sep) (\<lambda>p. res_bind (set_idx_branch_child p 1 m) (\<lambda>p.
      Inr (set_num_rows p 1))) = Inr q \<and> idx_branch q [root, m] [sep]"
proof -
  let ?e = "u32_to_le root @ key_slot sep" and ?n = "new_branch crc"
  let ?q = "blit ?n 16 ?e" and ?r = "blit (blit ?n 16 (u32_to_le root @ key_slot sep)) 58 (u32_to_le m)"
  note slot = length_key_slot [OF assms]
  have l: "length ?n = 4096" using new_pages_ok(2) [of crc] by (simp add: page_ok_def)
  have run: "write_idx_branch_entry ?n 0 root sep = Inr ?q" "set_idx_branch_child ?q 1 m = Inr ?r"
    using write_idx_branch_entry_blit [OF l _ assms, of 0 root] l slot
    by (simp_all add: set_idx_branch_child_def copy_at_def)
  have ok: "page_ok ?q" "page_ok ?r" using l slot by (simp_all add: page_ok_def)
  have "sub_bytes ?r 16 58 = ?e" "sub_bytes ?r 58 62 = u32_to_le m"
    using l slot by (simp_all add: sub_bytes_blit_same sub_bytes_blit_disjoint)
  moreover from this(1) have "sub_bytes ?r 16 20 = u32_to_le root" "sub_bytes ?r 20 58 = key_slot sep"
    using sub_bytes_sub_bytes [of 16 4 58 ?r 0] sub_bytes_sub_bytes [of 16 42 58 ?r 4] slot
    by (simp_all add: sub_bytes_append_left sub_bytes_append_right) (simp_all add: sub_bytes_def)
  moreover have "magic ?r = MAGIC" "flags ?r = PAGE_BRANCH" using l slot ok by (simp_all add: branch_flags)
  ultimately have "idx_branch (set_num_rows ?r 1) [root, m] [sep]"
    using ok assms by (simp add: idx_branch_def less_Suc_eq)
  with run show ?thesis by simp
qed

interpretation idx_branch_ops: branch_ops idx_branch find_idx_child get_idx_branch_child "\<lambda>k. length k \<le> 36" 96
    insert_idx_branch_entry collect_idx_branch_flat rebuild_idx_branch_flat write_idx_branch_entry set_idx_branch_child
proof unfold_locales
  fix p cs ks i c and k :: bytes assume "idx_branch p cs ks" "i \<le> length ks" "length ks < 96" "length k \<le> 36"
  then show "\<exists>p'. insert_idx_branch_entry p i k c = Inr p'
    \<and> idx_branch p' (take (Suc i) cs @ c # drop (Suc i) cs) (take i ks @ k # drop i ks)"
    by (rule insert_idx_branch)
qed (simp_all add: idx_branchD(1,2,4,6,9) idx_branch_update_checksum collect_idx_branch rebuild_idx_branch
  idx_root_page [simplified])

section \<open>Insertion into the tree\<close>

interpretation idx_insertion: tree_insertion idx_branch find_idx_child get_idx_branch_child entry_key k short_entry
    "\<lambda>k. length k \<le> 36" "guard_view crc" guard_next "entry_for k" "\<lambda>_. True" 1
    "\<lambda>d n. idx_insert_recursive crc d n k"
    "\<lambda>n p. sm_bind (sm_view (\<lambda>f. guard_view crc f n)) (\<lambda>p. idx_insert_into_leaf crc n p k)"
    "idx_insert_into_branch crc" for crc k
proof unfold_locales
  fix f n p nx pv rows
  assume "guard_view crc f n = Inr p" "leaf_page p nx pv rows" "sorted_wrt (<) (map entry_key rows)"
    "\<forall>r \<in> set rows. short_entry r \<and> entry_key r \<noteq> k" "length k \<le> 36"
    "nx \<noteq> 0 \<longrightarrow> nx \<noteq> n \<and> unat nx < guard_next f \<and> (\<exists>q nx' rs. guard_view crc f nx = Inr q \<and> leaf_page q nx' n rs)"
    "unat n < guard_next f" "guard_next f + 1 < 2 ^ 32 - 1"
  then show "\<exists>res f'. sm_bind (sm_view (\<lambda>f. guard_view crc f n)) (\<lambda>p. idx_insert_into_leaf crc n p k) f = (Inr res, f')
    \<and> leaf_result entry_key k (entry_for k) 1 n nx pv rows (guard_view crc f) (guard_next f) res
        (guard_view crc f') (guard_next f')"
    using idx_insert_into_leaf_run [of crc f n p nx pv rows k] by (simp add: sm_bind_view_Inr)
next
  fix f n p cs ks i m and sep :: bytes
  assume "guard_view crc f n = Inr p" "idx_branch p cs ks" "i \<le> length ks" "length sep \<le> 36" "unat n < guard_next f"
    "guard_next f < 2 ^ 32 - 1"
  then show "\<exists>res f'. idx_insert_into_branch crc n i sep m f = (Inr res, f')
    \<and> branch_result idx_branch n (take (Suc i) cs @ m # drop (Suc i) cs) (take i ks @ sep # drop i ks)
        (guard_view crc f) (guard_next f) res (guard_view crc f') (guard_next f')"
    using idx_branch_ops.branch_insert_run [of crc f n p cs ks i sep m] by (simp add: idx_insert_into_branch_def)
qed (simp_all add: entry_for_def short_entryD(2) idx_branchD(9) cong: if_cong)

definition index_in :: "(bytes \<Rightarrow> u32) \<Rightarrow> page_file \<Rightarrow> bytes btree \<Rightarrow> bool" where
  "index_in crc f t \<longleftrightarrow> index_tree (guard_view crc f) t \<and> (\<forall>n \<in> set (tree_pages t). unat n < guard_next f)"

lemma insort_key_middle: "sorted_wrt (<) (xs @ e # ys :: bytes list) \<Longrightarrow> insort e (xs @ ys) = xs @ e # ys"
proof (induction xs)
  case Nil
  then show ?case by (cases ys) (auto simp: less_imp_le)
qed (auto simp: not_le)

lemma idx_insert_run:
  assumes t: "index_in crc f t" and h: "height t \<le> MAX_TREE_DEPTH" and k: "length k \<le> 36" "k \<notin> set (index_keys t)"
    and space: "guard_next f + 1 + height t < 2 ^ 32 - 1"
  shows "\<exists>t' f'. idx_insert crc (root_of t) k f = (Inr (root_of t'), f') \<and> index_in crc f' t'
    \<and> index_keys t' = insort k (index_keys t) \<and> height t' \<le> Suc (height t)
    \<and> guard_next f \<le> guard_next f' \<and> guard_next f' \<le> guard_next f + 1 + height t
    \<and> (\<forall>n \<in> set (tree_pages t'). n \<in> set (tree_pages t) \<or> guard_next f \<le> unat n)
    \<and> (\<forall>m. unat m < guard_next f \<longrightarrow> m \<notin> set (tree_pages t) \<longrightarrow> guard_view crc f' m = guard_view crc f m)"
proof -
  have it: "index_tree (guard_view crc f) t" and old: "\<forall>n \<in> set (tree_pages t). unat n < guard_next f"
    using t by (simp_all add: index_in_def)
  note d = index_treeD [OF it]
  have rows: "\<forall>r \<in> set (tree_rows t). short_entry r \<and> entry_key r \<noteq> k" using d(7) k(2) by (auto simp: index_keys_def)
  have rng: "in_range entry_key None None t" "distinct (tree_pages t)" "0 \<notin> set (tree_pages t)" using it by (simp_all add: index_tree_def)
  have grow: "\<exists>p s'. idx_grow_root crc (root_of t) m sep s1 = (Inr (of_nat (guard_next s1)), s')
      \<and> guard_view crc s' = (guard_view crc s1)(of_nat (guard_next s1) := Inr p) \<and> idx_branch p [root_of t, m] [sep]
      \<and> guard_next s' = Suc (guard_next s1)" if "length sep \<le> 36" "guard_next s1 < 2 ^ 32 - 1" for s1 m sep
    using idx_branch_ops.branch_root_run [OF that(2,1)] by (simp add: idx_grow_root_def)
  obtain t' f' where run: "idx_insert crc (root_of t) k f = (Inr (root_of t'), f')"
    and ins: "tree_inserted idx_branch entry_key k (entry_for k) (guard_view crc f) (guard_next f) t t' (guard_view crc f') (guard_next f')"
    and le: "guard_next f \<le> guard_next f'" "guard_next f' \<le> guard_next f + 1 + height t"
    using idx_insertion.insert_tree [where grow = "idx_grow_root crc", OF d(1,2) rng(1) k(1) rows TrueI rng(2) old rng(3) h space grow]
    unfolding idx_insert_def by blast
  from ins have F: "forest_inserted idx_branch entry_key k (entry_for k) (guard_view crc f) (guard_next f) [] []
      (tree_pages t) (tree_rows t) [t'] (guard_view crc f') (guard_next f')"
    and r': "in_range entry_key None None t'" and ht: "height t' \<le> Suc (height t)" by (simp_all add: tree_inserted_def)
  from F obtain r ps ns xs ys where g: "entry_key r = k" "entry_for k (guard_view crc f') ps r" "tree_rows t = xs @ ys"
    "tree_rows t' = xs @ r # ys" "branches_at idx_branch (guard_view crc f') t'" "chain_ok (guard_view crc f') 0 (leaves t') 0"
    "mset (tree_pages t') = mset (tree_pages t) + mset ns" "distinct ns"
    "\<forall>n \<in> set ns \<union> ps. guard_next f \<le> unat n \<and> unat n < guard_next f'"
    "\<forall>m. unat m < guard_next f \<longrightarrow> m \<notin> set (tree_pages t) \<longrightarrow> guard_view crc f' m = guard_view crc f m"
    unfolding forest_inserted_def by auto
  have pages: "set (tree_pages t') = set (tree_pages t) \<union> set ns" using g(7) by (metis set_mset_mset set_mset_union)
  have fresh: "n \<notin> set (tree_pages t)" if "n \<in> set ns" for n using that g(9) old by (meson UnI1 leD)
  have "root_of t \<in> set (tree_pages t)" by (cases t) (simp_all add: tree_pages_def)
  then have "0 < guard_next f" using old by fastforce
  then have nz: "0 \<notin> set ns" using g(9) by (metis Un_iff leD unat_0)
  have "distinct (tree_pages t @ ns)" using rng(2) g(8) fresh by auto
  then have "distinct (tree_pages t')" using g(7) by (metis mset_append mset_eq_imp_distinct_iff)
  moreover have "short_entry r" using g(2) short_entry_encode [OF k(1)] by (simp add: entry_for_def)
  then have "\<forall>r \<in> set (tree_rows t'). short_entry r" using d(7) g(3,4) by auto
  ultimately have it': "index_tree (guard_view crc f') t'" using g(5,6) r' rng(3) nz pages by (simp add: index_tree_def)
  moreover have "\<forall>n \<in> set (tree_pages t'). unat n < guard_next f'" using old g(9) le(1) pages by fastforce
  ultimately have "index_in crc f' t'" by (simp add: index_in_def)
  moreover have "index_keys t' = insort k (index_keys t)"
    using insort_key_middle [of "map entry_key xs" k "map entry_key ys"] index_keys_sorted [OF it'] g(1,3,4)
    by (simp add: index_keys_def)
  moreover have "\<forall>n \<in> set (tree_pages t'). n \<in> set (tree_pages t) \<or> guard_next f \<le> unat n"
    unfolding pages using g(9) by blast
  ultimately show ?thesis using run ht le g(10) by blast
qed

section \<open>Deletion\<close>

lemma find_exact_leaf:
  assumes p: "leaf_page p nx pv rows" and es: "entries_sorted rows" and "j \<le> length rows"
    and "\<forall>r \<in> set (take j rows). entry_key r < k"
  shows "\<exists>res. find_exact p k (length rows) [j..<length rows] = Inr res
    \<and> (case res of Some i \<Rightarrow> i < length rows \<and> entry_key (rows ! i) = k | None \<Rightarrow> k \<notin> entry_key ` set rows)"
  using assms(3,4)
proof (induction j rule: inc_induct)
  case base
  then show ?case by auto
next
  case (step j)
  have dec: "decode_leaf_entry p j (length rows) = Inr (Some (entry_key (rows ! j)))"
    using decode_entry_leaf [OF p step.hyps(2), of row_bounds] es step.hyps(2) by (simp add: decode_leaf_entry_def entries_sorted_def)
  have up: "[j..<length rows] = j # [Suc j..<length rows]" using step.hyps(2) by (simp add: upt_conv_Cons)
  show ?case
  proof (cases "entry_key (rows ! j) < k")
    case True
    then have "\<forall>r \<in> set (take (Suc j) rows). entry_key r < k"
      using step.prems step.hyps(2) by (auto simp: take_Suc_conv_app_nth)
    moreover have "entry_key (rows ! j) \<noteq> k" "\<not> k < entry_key (rows ! j)" using True by auto
    ultimately show ?thesis using step.IH dec by (simp add: up)
  next
    case False
    show ?thesis
    proof (cases "entry_key (rows ! j) = k")
      case True
      then show ?thesis using dec step.hyps(2) by (simp add: up)
    next
      case ne: False
      then have gt: "k < entry_key (rows ! j)" using False by simp
      have "sorted_wrt (<) (map entry_key rows)" using es by (simp add: entries_sorted_def)
      then have "entry_key (rows ! j) \<le> entry_key (rows ! i)" if "j \<le> i" "i < length rows" for i
        using that by (cases "i = j") (auto simp: sorted_wrt_iff_nth_less intro: less_imp_le)
      then have "k < entry_key (rows ! i)" if "j \<le> i" "i < length rows" for i using gt that by force
      moreover have "entry_key (rows ! i) < k" if "i < j" for i
        using step.prems that step.hyps(2) nth_mem [of i "take j rows"] by simp
      ultimately have "entry_key (rows ! i) \<noteq> k" if "i < length rows" for i using that by (metis less_irrefl not_le)
      then have "\<forall>r \<in> set rows. entry_key r \<noteq> k" by (metis in_set_conv_nth)
      then have "k \<notin> entry_key ` set rows" by blast
      then show ?thesis using dec gt ne by (simp add: up)
    qed
  qed
qed

lemma idx_delete_from_leaf_run:
  assumes v: "guard_view crc f n = Inr p" and p: "leaf_page p nx pv rows" and es: "entries_sorted rows"
  shows "\<exists>f' q. idx_delete_from_leaf crc n k p f = (Inr (k \<in> entry_key ` set rows), f')
    \<and> guard_view crc f' = (guard_view crc f)(n := Inr q) \<and> leaf_page q nx pv (filter (\<lambda>r. entry_key r \<noteq> k) rows)
    \<and> guard_next f' = guard_next f"
proof -
  obtain res where res: "find_exact p k (length rows) [0..<length rows] = Inr res"
    "case res of Some i \<Rightarrow> i < length rows \<and> entry_key (rows ! i) = k | None \<Rightarrow> k \<notin> entry_key ` set rows"
    using find_exact_leaf [OF p es, of 0 k] by auto
  show ?thesis
  proof (cases res)
    case None
    then have "filter (\<lambda>r. entry_key r \<noteq> k) rows = rows" "k \<notin> entry_key ` set rows" using res(2) by (auto simp: filter_id_conv)
    moreover have "(guard_view crc f)(n := Inr p) = guard_view crc f" using v by auto
    ultimately show ?thesis
      using None res(1) p leaf_pageD(9) [OF p]
      by (intro exI [of _ f] exI [of _ p]) (simp add: idx_delete_from_leaf_def Let_def)
  next
    case (Some i)
    then have i: "i < length rows" "entry_key (rows ! i) = k" using res(2) by simp_all
    obtain q where q: "write_leaf_without p p (length rows) i = Inr q" "leaf_page q 0 0 (removed i rows)"
      using write_leaf_without_leaf [OF p i(1) leaf_pageD(1,2) [OF p]] by blast
    let ?q = "update_checksum crc (set_prev_leaf (set_next_leaf q nx) pv)"
    have lq: "leaf_page ?q nx pv (removed i rows)"
      using leaf_page_links(2) [OF leaf_page_links(1) [OF q(2), of nx], of pv] by (rule leaf_page_update_checksum)
    let ?g = "\<lambda>w. res_bind (write_idx_leaf_without w p (length rows) i) (\<lambda>w.
        Inr (update_checksum crc (set_prev_leaf (set_next_leaf w (next_leaf p)) (prev_leaf p))))"
    have "?g p = Inr ?q" using q(1) leaf_pageD(5,6) [OF p] by (simp add: write_idx_leaf_without_def)
    from edit_run [OF v, of ?g, OF this] obtain f' where f': "edit_page crc n ?g f = (Inr (), f')"
      "guard_view crc f' = (guard_view crc f)(n := Inr ?q)" "guard_next f' = guard_next f" by blast
    have "removed i rows = filter (\<lambda>r. entry_key r \<noteq> k) rows"
      using removed_filter [of entry_key rows i] es i by (simp add: entries_sorted_def)
    moreover have "rows \<noteq> []" "k \<in> entry_key ` set rows" using i by auto
    ultimately show ?thesis
      using Some res(1) f' lq leaf_pageD(9) [OF p]
      by (intro exI [of _ f'] exI [of _ ?q]) (simp add: idx_delete_from_leaf_def Let_def sm_bind_Inr)
  qed
qed

lemma idx_delete_recursive_leaf:
  assumes "find_leaf (guard_view crc f) (idx_child_for k) err d pg = Inr n" "guard_view crc f n = Inr p"
  shows "idx_delete_recursive crc d pg k f = idx_delete_from_leaf crc n k p f"
  using assms(1)
proof (induction d arbitrary: pg)
  case (Suc d)
  obtain q where q: "guard_view crc f pg = Inr q" using find_leaf_page [OF Suc.prems] by blast
  show ?case
  proof (cases "is_leaf q")
    case True
    then show ?thesis using Suc.prems q assms(2) by (simp add: sm_bind_view_Inr)
  next
    case False
    then obtain c where c: "idx_child_for k q = Inr c" "find_leaf (guard_view crc f) (idx_child_for k) err d c = Inr n"
      using Suc.prems q by (cases "idx_child_for k q") auto
    then obtain i where "find_idx_child q k = Inr (i, c)" by (auto simp: idx_child_for_def res_bind_eq_Inr)
    then show ?thesis using q False Suc.IH [OF c(2)] by (simp add: sm_bind_view_Inr)
  qed
qed simp

lemma index_tree_edit:
  assumes t: "index_tree rd t" and split: "leaves t = as @ (n, rows) # bs"
    and p: "leaf_page p (first_page bs 0) (last_page 0 as) rows'"
    and rows': "sorted_wrt (<) (map entry_key rows')" "set rows' \<subseteq> set rows"
  shows "\<exists>t'. index_tree (rd(n := Inr p)) t' \<and> leaves t' = as @ (n, rows') # bs
    \<and> root_of t' = root_of t \<and> height t' = height t \<and> tree_pages t' = tree_pages t"
proof -
  note d = index_treeD [OF t]
  have PT: "0 \<notin> set (tree_pages t)" "distinct (tree_pages t)" "in_range entry_key None None t"
    using t by (simp_all add: index_tree_def)
  have keys: "entry_key ` set rows' \<subseteq> entry_key ` set rows" using rows'(2) by blast
  from edit_leaf_tree [OF d(1,2) PT(3,2) split p rows'(1) keys] obtain t' where t':
    "branches_at idx_branch (rd(n := Inr p)) t'" "chain_ok (rd(n := Inr p)) 0 (leaves t') 0" "in_range entry_key None None t'"
    "leaves t' = as @ (n, rows') # bs" "root_of t' = root_of t" "height t' = height t" "tree_pages t' = tree_pages t"
    by blast
  have "\<forall>r \<in> set (tree_rows t'). short_entry r"
    using d(7) rows'(2) split by (auto simp: tree_rows_def t'(4))
  then have "index_tree (rd(n := Inr p)) t'" using t' PT by (simp add: index_tree_def)
  then show ?thesis using t' by blast
qed

lemma idx_delete_run:
  assumes t: "index_in crc f t" and h: "height t \<le> MAX_TREE_DEPTH"
  shows "\<exists>t' f'. idx_delete crc (root_of t) k f = (Inr (k \<in> set (index_keys t)), f')
    \<and> index_in crc f' t' \<and> root_of t' = root_of t \<and> height t' = height t \<and> tree_pages t' = tree_pages t
    \<and> index_keys t' = filter (\<lambda>x. x \<noteq> k) (index_keys t) \<and> guard_next f' = guard_next f
    \<and> (\<forall>m. m \<notin> set (tree_pages t) \<longrightarrow> guard_view crc f' m = guard_view crc f m)"
proof -
  have it: "index_tree (guard_view crc f) t" and old: "\<forall>n \<in> set (tree_pages t). unat n < guard_next f"
    using t by (simp_all add: index_in_def)
  note d = index_treeD [OF it]
  from find_leaf_for_key_run [OF it h, of k] obtain as n rows bs where l: "leaves t = as @ (n, rows) # bs"
    "find_leaf_for_key (guard_view crc f) (root_of t) k = Inr n" "\<forall>x \<in> set (map entry_key (leaf_rows as)). x < k"
    "\<forall>x \<in> set (map entry_key (leaf_rows bs)). k < x" by metis
  obtain p where p: "guard_view crc f n = Inr p" "leaf_page p (first_page bs 0) (last_page 0 as) rows"
    using d(2) l(1) by (auto simp: chain_ok_append)
  have all: "index_keys t = map entry_key (leaf_rows as) @ map entry_key rows @ map entry_key (leaf_rows bs)"
    by (simp add: index_keys_def tree_rows_def l(1))
  have es: "entries_sorted rows"
    using index_keys_sorted [OF it] d(7) l(1) unfolding all by (auto simp: entries_sorted_def sorted_wrt_append tree_rows_def)
  obtain f' q where f': "idx_delete_from_leaf crc n k p f = (Inr (k \<in> entry_key ` set rows), f')"
    "guard_view crc f' = (guard_view crc f)(n := Inr q)"
    "leaf_page q (first_page bs 0) (last_page 0 as) (filter (\<lambda>r. entry_key r \<noteq> k) rows)" "guard_next f' = guard_next f"
    using idx_delete_from_leaf_run [OF p es] by blast
  have srt: "sorted_wrt (<) (map entry_key (filter (\<lambda>r. entry_key r \<noteq> k) rows))"
    using es by (simp add: entries_sorted_def sorted_wrt_map sorted_wrt_filter)
  have sub: "set (filter (\<lambda>r. entry_key r \<noteq> k) rows) \<subseteq> set rows" by auto
  from index_tree_edit [OF it l(1) f'(3) srt sub] obtain t' where t': "index_tree (guard_view crc f') t'"
    "leaves t' = as @ (n, filter (\<lambda>r. entry_key r \<noteq> k) rows) # bs" "root_of t' = root_of t" "height t' = height t"
    "tree_pages t' = tree_pages t" unfolding f'(2) by blast
  have ne: "filter (\<lambda>x. x \<noteq> k) (map entry_key (leaf_rows as)) = map entry_key (leaf_rows as)"
    "filter (\<lambda>x. x \<noteq> k) (map entry_key (leaf_rows bs)) = map entry_key (leaf_rows bs)"
    using l(3,4) unfolding filter_id_conv by auto
  have "index_keys t' = filter (\<lambda>x. x \<noteq> k) (index_keys t)"
    unfolding all filter_append ne by (simp add: index_keys_def tree_rows_def t'(2) filter_map comp_def)
  moreover have "(k \<in> entry_key ` set rows) = (k \<in> set (index_keys t))" unfolding all using l(3,4) by auto
  moreover have "idx_delete crc (root_of t) k f = idx_delete_from_leaf crc n k p f"
    using idx_delete_recursive_leaf [of crc f k _ MAX_TREE_DEPTH "root_of t" n, OF _ p(1)] l(2)
    by (simp add: idx_delete_def find_leaf_for_key_def)
  moreover have "n \<in> set (tree_pages t)" using l(1) by (simp add: tree_pages_def)
  ultimately show ?thesis
    using t' f' old by (intro exI [of _ t'] exI [of _ f']) (auto simp: index_in_def)
qed

lemma idx_create_run:
  assumes "0 < guard_next f" "guard_next f < 2 ^ 32 - 1"
  shows "\<exists>n f'. idx_create crc f = (Inr n, f') \<and> unat n = guard_next f \<and> index_in crc f' (BLeaf n [])
    \<and> guard_next f' = Suc (guard_next f) \<and> (\<forall>m. m \<noteq> n \<longrightarrow> guard_view crc f' m = guard_view crc f m)"
proof -
  have same: "idx_create crc = btree_create crc" by (simp add: idx_create_def btree_create_def)
  from btree_create_run [OF assms, of crc] obtain n f' where r: "btree_create crc f = (Inr n, f')" "unat n = guard_next f"
    "tree_in crc f' {} (BLeaf n [])" "guard_next f' = Suc (guard_next f)"
    "\<forall>m. m \<noteq> n \<longrightarrow> guard_view crc f' m = guard_view crc f m" by blast
  from r(3) have "index_in crc f' (BLeaf n [])" by (simp add: tree_in_def row_tree_def index_in_def index_tree_def tree_pages_def)
  then show ?thesis using r same by auto
qed

lemma index_leaves_bound: "index_tree (view_page crc f) t \<Longrightarrow> length (leaves t) \<le> unat (page_count f)"
  using chain_pages_bound index_treeD(2,5) by blast

section \<open>A sample\<close>

definition sample_index :: "bytes btree" where
  "sample_index = BNode 3 [BLeaf 1 [encode_entry [1, 7], encode_entry [2, 4]], BLeaf 2 [encode_entry [2, 9], encode_entry [5, 0]]] [[2, 9]]"

lemma sample_index_facts:
  "height sample_index = 2" "root_of sample_index = 3" "index_keys sample_index = [[1, 7], [2, 4], [2, 9], [5, 0]]"
  "tree_pages sample_index = [3, 1, 2]"
  by (simp_all add: sample_index_def index_keys_def tree_pages_def entry_key_encode)

lemma sample_index_file:
  "\<exists>f. index_tree (view_page crc f) sample_index \<and> pf_dirty f = [] \<and> page_count f = 4 \<and> pf_new_count f = 0"
proof -
  obtain p1 where p1: "leaf_page p1 2 0 [encode_entry [1, 7], encode_entry [2, 4]]"
    using leaf_exists [of "[encode_entry [1, 7], encode_entry [2, 4]]" 2 0] by (auto simp: leaf_size_def encode_entry_def)
  obtain p2 where p2: "leaf_page p2 0 1 [encode_entry [2, 9], encode_entry [5, 0]]"
    using leaf_exists [of "[encode_entry [2, 9], encode_entry [5, 0]]" 0 1] by (auto simp: leaf_size_def encode_entry_def)
  obtain p3 where p3: "idx_branch p3 [1, 2] [[2, 9]]"
    using rebuild_idx_branch [of "new_branch crc" "[1, 2]" "[[2, 9]]"] by auto
  let ?f = "(page_file_open [])\<lparr>pf_num_pages := 4, pf_pages := [None, Some p1, Some p2, Some p3]\<rparr>"
  have v: "view_page crc ?f 1 = Inr p1" "view_page crc ?f 2 = Inr p2" "view_page crc ?f 3 = Inr p3"
    by (simp_all add: view_page_eq cache_get_def word_le_nat_alt)
  have "index_tree (view_page crc ?f) sample_index"
    using v p1 p2 p3
    by (simp add: index_tree_def sample_index_def tree_pages_def in_range_node entry_key_encode short_entry_encode word_less_nat_alt)
  then show ?thesis by (intro exI [of _ ?f]) (simp add: page_file_open_def page_count_def)
qed

lemma sample_index_guard: "\<exists>f. index_in crc f sample_index \<and> guard_next f = 4"
proof -
  obtain f where f: "index_tree (view_page crc f) sample_index" "pf_dirty f = []" "page_count f = 4" "pf_new_count f = 0"
    using sample_index_file by blast
  have "guard_view crc f = view_page crc f" using f(2) by (intro ext) (simp add: guard_view_def)
  moreover have "guard_next f = 4" using f(3,4) by (simp add: guard_next_def page_count_def)
  ultimately show ?thesis using f(1) by (intro exI [of _ f]) (simp add: index_in_def sample_index_facts)
qed

section \<open>Properties\<close>

text \<open>C32. Inserting a new key into an index refines sorted insertion into its list of keys, through
  every split of leaves, branches and root: the result is a well-formed index again, and no allocated
  page outside the index changes.\<close>

theorem idx_insert_correct:
  assumes "index_in crc f t" "height t \<le> MAX_TREE_DEPTH" "length k \<le> IDX_BRANCH_KEY_MAX" "k \<notin> set (index_keys t)"
    and "guard_next f + 1 + height t < 2 ^ 32 - 1"
  shows "\<exists>t' f'. idx_insert crc (root_of t) k f = (Inr (root_of t'), f') \<and> index_in crc f' t'
    \<and> index_keys t' = insort k (index_keys t) \<and> height t' \<le> Suc (height t)
    \<and> (\<forall>m. unat m < guard_next f \<longrightarrow> m \<notin> set (tree_pages t) \<longrightarrow> guard_view crc f' m = guard_view crc f m)"
  using idx_insert_run [OF assms] by blast

theorem idx_insert_correct_witness:
  "\<exists>f t' f'. index_in (\<lambda>_. 0) f sample_index \<and> idx_insert (\<lambda>_. 0) 3 [2, 5] f = (Inr (root_of t'), f')
     \<and> index_in (\<lambda>_. 0) f' t' \<and> index_keys t' = [[1, 7], [2, 4], [2, 5], [2, 9], [5, 0]]"
proof -
  obtain f where f: "index_in (\<lambda>_. 0) f sample_index" "guard_next f = 4" using sample_index_guard [of "\<lambda>_. 0"] by blast
  have "height sample_index \<le> MAX_TREE_DEPTH" "length [2, 5 :: u8] \<le> IDX_BRANCH_KEY_MAX" "[2, 5] \<notin> set (index_keys sample_index)"
    "guard_next f + 1 + height sample_index < 2 ^ 32 - 1" using f(2) by (simp_all add: sample_index_facts)
  from idx_insert_correct [OF f(1) this] f(1) show ?thesis by (auto simp: sample_index_facts word_less_nat_alt word_le_nat_alt)
qed

text \<open>C33. Deleting a key from an index says whether it was there and removes exactly it; the index keeps
  its pages, and no other page changes.\<close>

theorem idx_delete_correct:
  assumes "index_in crc f t" "height t \<le> MAX_TREE_DEPTH"
  shows "\<exists>t' f'. idx_delete crc (root_of t) k f = (Inr (k \<in> set (index_keys t)), f')
    \<and> index_in crc f' t' \<and> root_of t' = root_of t \<and> tree_pages t' = tree_pages t
    \<and> index_keys t' = filter (\<lambda>x. x \<noteq> k) (index_keys t)
    \<and> (\<forall>m. m \<notin> set (tree_pages t) \<longrightarrow> guard_view crc f' m = guard_view crc f m)"
  using idx_delete_run [OF assms] by blast

theorem idx_delete_correct_witness:
  "\<exists>f f' t'. idx_delete (\<lambda>_. 0) 3 [2, 9] f = (Inr True, f') \<and> index_in (\<lambda>_. 0) f' t'
     \<and> index_keys t' = [[1, 7], [2, 4], [5, 0]]"
proof -
  obtain f where f: "index_in (\<lambda>_. 0) f sample_index" using sample_index_guard [of "\<lambda>_. 0"] by blast
  have "height sample_index \<le> MAX_TREE_DEPTH" by (simp add: sample_index_facts)
  from idx_delete_correct [OF f this, of "[2, 9]"] show ?thesis by (auto simp: sample_index_facts)
qed

text \<open>C34. A prefix scan returns exactly the keys of the index that start with the prefix, in key order,
  and the prefix count their number.\<close>

theorem scan_prefix_correct:
  assumes "index_tree (view_page crc f) t" "height t \<le> MAX_TREE_DEPTH"
  shows "scan_prefix (view_page crc f) (unat (page_count f)) (root_of t) pre = Inr (filter (starts_with pre) (index_keys t))
    \<and> count_prefix (view_page crc f) (unat (page_count f)) (root_of t) pre = Inr (length (filter (starts_with pre) (index_keys t)))"
  using scan_prefix_run(1,2) [OF assms index_leaves_bound [OF assms(1)]] by simp

theorem scan_prefix_correct_witness:
  "\<exists>f. index_tree (view_page (\<lambda>_. 0) f) sample_index
     \<and> scan_prefix (view_page (\<lambda>_. 0) f) (unat (page_count f)) 3 [2] = Inr [[2, 4], [2, 9]]"
proof -
  obtain f where f: "index_tree (view_page (\<lambda>_. 0) f) sample_index" using sample_index_file by blast
  have "height sample_index \<le> MAX_TREE_DEPTH" by (simp add: sample_index_facts)
  from scan_prefix_correct [OF f this, of "[2]"] f show ?thesis by (auto simp: sample_index_facts starts_with_def)
qed

text \<open>A bounded prefix scan returns the first \<open>lim\<close> of these keys; a bound of 0 is taken as 1.\<close>

theorem scan_prefix_limit_correct:
  assumes "index_tree (view_page crc f) t" "height t \<le> MAX_TREE_DEPTH"
  shows "scan_prefix_limit (view_page crc f) (unat (page_count f)) (root_of t) pre lim =
    Inr (take (max 1 lim) (filter (starts_with pre) (index_keys t)))"
  by (rule scan_prefix_run(3) [OF assms index_leaves_bound [OF assms(1)]])

theorem scan_prefix_limit_correct_witness:
  "\<exists>f. index_tree (view_page (\<lambda>_. 0) f) sample_index
     \<and> scan_prefix_limit (view_page (\<lambda>_. 0) f) (unat (page_count f)) 3 [2] 0 = Inr [[2, 4]]"
proof -
  obtain f where f: "index_tree (view_page (\<lambda>_. 0) f) sample_index" using sample_index_file by blast
  have "height sample_index \<le> MAX_TREE_DEPTH" by (simp add: sample_index_facts)
  from scan_prefix_limit_correct [OF f this, of "[2]" 0] f show ?thesis by (auto simp: sample_index_facts starts_with_def)
qed

text \<open>The ordered cursor returns the first \<open>limit\<close> keys strictly past its bound, in either
  direction, and says whether there are more.\<close>

theorem scan_from_key_correct:
  assumes "index_tree (view_page crc f) t" "height t \<le> MAX_TREE_DEPTH" "0 < limit"
  shows "scan_from_key (view_page crc f) (unat (page_count f)) (root_of t) after dir limit =
    (let hits = filter (key_beyond dir after) (in_dir dir (index_keys t)) in Inr (take limit hits, limit < length hits))"
  by (rule scan_from_key_run [OF assms(1,2) index_leaves_bound [OF assms(1)] assms(3)])

theorem scan_from_key_correct_witness:
  "\<exists>f. index_tree (view_page (\<lambda>_. 0) f) sample_index
     \<and> scan_from_key (view_page (\<lambda>_. 0) f) (unat (page_count f)) 3 (Some [5, 0]) Desc 2 = Inr ([[2, 9], [2, 4]], True)"
proof -
  obtain f where f: "index_tree (view_page (\<lambda>_. 0) f) sample_index" using sample_index_file by blast
  have "height sample_index \<le> MAX_TREE_DEPTH" "0 < (2 :: nat)" by (simp_all add: sample_index_facts)
  from scan_from_key_correct [OF f this, of "Some [5, 0]" Desc] f show ?thesis
    by (auto simp: sample_index_facts in_dir_def key_beyond_def word_less_nat_alt word_le_nat_alt)
qed

end
