(* ===== verification/Guard_Safe.thy ===== *)
theory Guard_Safe
  imports Index_Tree
begin

text \<open>
  What every tree operation keeps, whether it succeeds or fails: the bookkeeping of the write guard
  (each allocated page is in the overlay, no page beyond the allocation point is) and the committed
  pages, which only \<open>commit_guard\<close> changes. The rules follow the structure of the operations.
\<close>

section \<open>Safe operations\<close>

definition guard_step :: "(bytes \<Rightarrow> u32) \<Rightarrow> page_file \<Rightarrow> page_file \<Rightarrow> bool" where
  "guard_step crc f f' \<longleftrightarrow> guard_next f \<le> guard_next f' \<and> pf_num_pages f' = pf_num_pages f
     \<and> view_page crc f' = view_page crc f"

definition safe_at :: "(bytes \<Rightarrow> u32) \<Rightarrow> page_file \<Rightarrow> 'a guarded \<Rightarrow> bool" where
  "safe_at crc f m \<longleftrightarrow> (guard_ok f \<longrightarrow> guard_ok (snd (m f)) \<and> guard_step crc f (snd (m f)))"

named_theorems safe \<open>safe operations\<close>

lemma guard_step_refl [simp]: "guard_step crc f f"
  by (simp add: guard_step_def)

lemma guard_step_trans: "guard_step crc f g \<Longrightarrow> guard_step crc g h \<Longrightarrow> guard_step crc f h"
  by (simp add: guard_step_def)

lemma guard_step_less: "guard_step crc f f' \<Longrightarrow> unat n < guard_next f \<Longrightarrow> unat n < guard_next f'"
  by (simp add: guard_step_def)

lemma safe_pure [safe]: "safe_at crc f (sm_ret x)" "safe_at crc f (sm_lift r)" "safe_at crc f (sm_view v)"
  by (simp_all add: safe_at_def)

lemma safe_bind:
  assumes "safe_at crc f m"
    and "\<And>x f'. m f = (Inr x, f') \<Longrightarrow> guard_ok f \<Longrightarrow> guard_ok f' \<Longrightarrow> guard_step crc f f' \<Longrightarrow> safe_at crc f' (k x)"
  shows "safe_at crc f (sm_bind m k)"
proof (cases "m f")
  case (Pair r f')
  then show ?thesis
    using assms guard_step_trans [of crc f f'] by (cases r) (auto simp: safe_at_def sm_bind_def)
qed

lemma safe_if [safe]: "(b \<Longrightarrow> safe_at crc f m) \<Longrightarrow> (\<not> b \<Longrightarrow> safe_at crc f m') \<Longrightarrow> safe_at crc f (if b then m else m')"
  by simp

lemma safe_let [safe]: "safe_at crc f (m v) \<Longrightarrow> safe_at crc f (let x = v in m x)"
  by simp

lemma safe_split [safe]: "(\<And>a b. x = (a, b) \<Longrightarrow> safe_at crc f (m a b)) \<Longrightarrow> safe_at crc f (case x of (a, b) \<Rightarrow> m a b)"
  by (cases x) simp

lemma safe_option [safe]:
  "safe_at crc f m \<Longrightarrow> (\<And>x. o' = Some x \<Longrightarrow> safe_at crc f (k x)) \<Longrightarrow> safe_at crc f (case o' of None \<Rightarrow> m | Some x \<Rightarrow> k x)"
  by (cases o') simp_all

lemma safe_result [safe]:
  "safe_at crc f m \<Longrightarrow> (\<And>n s. r = Split n s \<Longrightarrow> safe_at crc f (k n s)) \<Longrightarrow> safe_at crc f (case r of Fit \<Rightarrow> m | Split n s \<Rightarrow> k n s)"
  by (cases r) simp_all

lemma safe_put: "unat n < guard_next f \<Longrightarrow> safe_at crc f (put_page n p)"
proof -
  assume n: "unat n < guard_next f"
  let ?f = "f\<lparr>pf_dirty := AList.update n p (pf_dirty f)\<rparr>"
  have "view_page crc ?f = view_page crc f" by (rule view_page_cong) simp_all
  moreover have "guard_next ?f = guard_next f" by (simp add: guard_next_def)
  ultimately show ?thesis using guard_ok_put [OF _ n] by (simp add: safe_at_def put_page_def guard_step_def)
qed

lemma safe_read: "guard_ok f \<Longrightarrow> guard_read_page crc n f = (r, f') \<Longrightarrow> guard_ok f' \<and> guard_step crc f f'"
proof -
  assume ok: "guard_ok f" and r: "guard_read_page crc n f = (r, f')"
  show ?thesis
  proof (cases "map_of (pf_dirty f) n")
    case None
    obtain g where "read_page crc n f = (view_page crc f n, g)" "view_page crc g = view_page crc f"
      "pf_num_pages g = pf_num_pages f" "pf_dirty g = pf_dirty f" "pf_new_count g = pf_new_count f"
      using read_page_run [of crc n f] by blast
    then show ?thesis using ok r None by (auto simp: guard_read_page_def guard_step_def guard_next_def guard_ok_def)
  qed (use ok r in \<open>auto simp: guard_read_page_def\<close>)
qed

lemma read_in_range:
  assumes "guard_ok f" "guard_view crc f n = Inr p"
  shows "unat n < guard_next f"
proof (cases "map_of (pf_dirty f) n")
  case None
  then have "view_page crc f n = Inr p" using assms(2) by (simp add: guard_view_def)
  then have "\<not> pf_num_pages f \<le> n" by (auto simp: view_page_eq)
  then show ?thesis by (simp add: guard_next_def word_less_nat_alt not_le)
next
  case (Some q)
  then have "(n, q) \<in> set (pf_dirty f)" by (rule map_of_SomeD)
  then show ?thesis using assms(1) by (force simp: guard_ok_def)
qed

lemma safe_write_page:
  assumes "guard_ok f" "write_page crc n f = (r, f')"
  shows "guard_ok f' \<and> guard_step crc f f' \<and> (\<forall>p. r = Inr p \<longrightarrow> unat n < guard_next f')"
proof (cases "map_of (pf_dirty f) n")
  case None
  obtain q g where g: "guard_read_page crc n f = (q, g)" by fastforce
  have s: "guard_ok g" "guard_step crc f g" using safe_read [OF assms(1) g] by auto
  show ?thesis
  proof (cases q)
    case (Inl e)
    then show ?thesis using assms(2) None g s by (auto simp: write_page_def sm_bind_def)
  next
    case (Inr p)
    then have "guard_view crc f n = Inr p" using g guard_read_page_run [of crc n f] by auto
    then have n: "unat n < guard_next g" using read_in_range [OF assms(1)] guard_step_less [OF s(2)] by blast
    have f': "r = Inr p" "(Inr (), f') = put_page n p g"
      using assms(2) None g Inr by (auto simp: write_page_def sm_bind_def put_page_def split: prod.splits)
    from safe_put [OF n, of crc p] s(1) have "guard_ok f' \<and> guard_step crc g f'"
      unfolding safe_at_def f'(2) [symmetric] by simp
    then show ?thesis using f'(1) n guard_step_trans [OF s(2)] guard_step_less by blast
  qed
next
  case (Some p)
  then have "guard_view crc f n = Inr p" by (simp add: guard_view_def)
  then show ?thesis using Some assms read_in_range [OF assms(1), of crc n p] by (auto simp: write_page_def)
qed

lemma safe_edit [safe]: "safe_at crc f (edit_page crc n g)"
proof -
  have "safe_at crc f (write_page crc n)" using safe_write_page [of f crc n] by (cases "write_page crc n f") (auto simp: safe_at_def)
  moreover have "safe_at crc f1 (sm_bind (sm_lift (g p)) (put_page n))" if "write_page crc n f = (Inr p, f1)" "guard_ok f" for p f1
  proof (rule safe_bind [OF safe_pure(2)])
    fix q f2 assume "sm_lift (g p) f1 = (Inr q, f2)"
    then have "f2 = f1" by simp
    then show "safe_at crc f2 (put_page n q)" using safe_write_page [OF that(2,1)] by (simp add: safe_put)
  qed
  ultimately show ?thesis unfolding edit_page_def by (rule safe_bind)
qed

lemma unat_inc: "x \<noteq> - 1 \<Longrightarrow> unat (x + 1) = Suc (unat (x :: u32))"
  by (metis add.commute add_eq_0_iff unatSuc)

lemma allocate_page_next:
  assumes "allocate_page f = (Inr n, f')"
  shows "unat n < guard_next f'"
proof -
  have *: "unat (pf_num_pages f) + unat (pf_new_count f) < 2 ^ 32" "pf_new_count f \<noteq> - 1"
    "n = pf_num_pages f + pf_new_count f"
    "f' = f\<lparr>pf_new_count := pf_new_count f + 1, pf_dirty := AList.update n page_default (pf_dirty f)\<rparr>"
    using assms by (auto simp: allocate_page_def Let_def split: if_splits)
  have "unat n = unat (pf_num_pages f) + unat (pf_new_count f)"
    using *(1) unfolding *(3) by (subst unat_plus_if') simp
  moreover have "unat (pf_new_count f + 1) = Suc (unat (pf_new_count f))" using *(2) by (rule unat_inc)
  ultimately show ?thesis by (simp add: *(4) guard_next_def)
qed

lemma safe_allocate [safe]: "safe_at crc f allocate_page"
proof (cases "\<exists>n f'. allocate_page f = (Inr n, f')")
  case False
  then show ?thesis by (auto simp: safe_at_def allocate_page_def Let_def split: if_splits)
next
  case True
  then obtain n f' where a: "allocate_page f = (Inr n, f')" by blast
  have *: "unat (pf_num_pages f) + unat (pf_new_count f) < 2 ^ 32" "pf_new_count f \<noteq> - 1"
    "n = pf_num_pages f + pf_new_count f"
    "f' = f\<lparr>pf_new_count := pf_new_count f + 1, pf_dirty := AList.update n page_default (pf_dirty f)\<rparr>"
    using a by (auto simp: allocate_page_def Let_def split: if_splits)
  have n: "unat n = guard_next f" using *(1) unfolding *(3) guard_next_def by (subst unat_plus_if') simp
  have next': "guard_next f' = Suc (guard_next f)" using *(2) by (simp add: *(4) guard_next_def unat_inc)
  have "view_page crc f' = view_page crc f" unfolding *(4) by (rule view_page_cong) simp_all
  then have "guard_step crc f f'" using next' by (simp add: guard_step_def) (simp add: *(4))
  moreover have "guard_ok f'" if ok: "guard_ok f"
  proof -
    have d: "pf_dirty f' = AList.update n page_default (pf_dirty f)" "pf_num_pages f' = pf_num_pages f" by (simp_all add: *(4))
    have "m \<in> fst ` set (pf_dirty f')" if "unat (pf_num_pages f) \<le> unat m" "unat m < Suc (guard_next f)" for m
      using ok that n unfolding d(1) dom_update guard_ok_def by (cases "unat m = guard_next f") (auto simp: word_unat_eq_iff)
    moreover have "distinct (map fst (pf_dirty f'))" using ok by (simp add: guard_ok_def d(1) distinct_update)
    moreover have "unat m < Suc (guard_next f)" if "m \<in> fst ` set (pf_dirty f')" for m
      using that ok n unfolding d(1) dom_update guard_ok_def by (auto simp: less_Suc_eq)
    ultimately show ?thesis unfolding guard_ok_def next' d(2) by blast
  qed
  ultimately show ?thesis using a by (simp add: safe_at_def)
qed

section \<open>The tree operations\<close>

lemma safe_alloc_bind:
  assumes "\<And>n f'. unat n < guard_next f' \<Longrightarrow> safe_at crc f' (k n)"
  shows "safe_at crc f (sm_bind allocate_page k)"
  using assms allocate_page_next by (intro safe_bind safe_allocate) blast

lemma safe_then:
  assumes "safe_at crc f m" "unat n < guard_next f" "\<And>x f'. unat n < guard_next f' \<Longrightarrow> safe_at crc f' (k x)"
  shows "safe_at crc f (sm_bind m k)"
  using assms guard_step_less by (intro safe_bind) blast+

lemma safe_seq [safe]:
  assumes "safe_at crc f m" "\<And>x f'. safe_at crc f' (k x)"
  shows "safe_at crc f (sm_bind m k)"
  using assms by (intro safe_bind) blast+

lemma safe_create [safe]: "safe_at crc f (btree_create crc)" "safe_at crc f (idx_create crc)"
  unfolding btree_create_def idx_create_def
  by (rule safe_alloc_bind, rule safe_seq, erule safe_put, rule safe)+

lemma split_leaf_safe [safe]: "safe_at crc f (split_leaf crc sep n s k pos row mid)"
  unfolding split_leaf_def
  apply (rule safe_alloc_bind)
  apply (rule safe_then, rule safe, assumption)
  apply (rule safe_then, rule safe, assumption)
  apply (rule safe_then, rule safe, assumption)
  apply (rule safe_seq, erule safe_put)
  apply (intro safe)
  done

lemma write_in_place_safe [safe]: "safe_at crc f (write_in_place crc n s k pos row)"
  unfolding write_in_place_def by (intro safe)

lemma edit_alloc_put_safe:
  assumes "\<And>n f'. unat n < guard_next f' \<Longrightarrow> safe_at crc f' (sm_bind (sm_lift r) (\<lambda>p. sm_bind (put_page n (g p)) (\<lambda>_. k n)))"
  shows "safe_at crc f (sm_bind allocate_page (\<lambda>n. sm_bind (sm_lift r) (\<lambda>p. sm_bind (put_page n (g p)) (\<lambda>_. k n))))"
  using assms by (rule safe_alloc_bind)

lemma safe_lift_put: "unat n < guard_next f \<Longrightarrow> (\<And>f'. safe_at crc f' k) \<Longrightarrow>
    safe_at crc f (sm_bind (sm_lift r) (\<lambda>p. sm_bind (put_page n (g p)) (\<lambda>_. k)))"
  by (rule safe_then [OF safe_pure(2)], assumption, rule safe_seq, erule safe_put, assumption)

lemma branch_ops_safe [safe]:
  "safe_at crc f (split_branch crc rebuild n cs ks)" "safe_at crc f (branch_root crc we sc root np sep)"
  unfolding split_branch_def branch_root_def Let_def
  by (intro safe safe_alloc_bind safe_lift_put; assumption)+

lemma branch_insert_safe [safe]: "safe_at crc f (branch_insert crc mk ie co rb n i sep c)"
  unfolding branch_insert_def by (intro safe)

lemma write_chunks_safe [safe]: "safe_at crc f (write_chunks crc cs nx fp)"
proof (induction cs arbitrary: nx fp f)
  case (Cons c cs)
  then show ?case by (auto intro!: safe_alloc_bind safe_lift_put)
qed (simp add: safe)

lemma write_overflow_row_safe [safe]: "safe_at crc f (write_overflow_row crc row n)"
  unfolding write_overflow_row_def Let_def by (intro safe)

lemma insert_into_leaf_safe [safe]: "safe_at crc f (insert_into_leaf crc n p k row)"
  unfolding insert_into_leaf_def Let_def by (intro safe)

lemma insert_recursive_safe [safe]: "safe_at crc f (insert_recursive crc d n k row)"
  by (induction d arbitrary: n f) (auto intro!: safe simp: insert_into_branch_def)

lemma btree_insert_safe [safe]: "safe_at crc f (btree_insert crc root k row)"
  unfolding btree_insert_def grow_root_def by (intro safe)

lemma delete_recursive_safe [safe]: "safe_at crc f (delete_recursive crc d n k)"
  by (induction d arbitrary: n f) (auto intro!: safe simp: delete_from_leaf_def Let_def)

lemma btree_delete_safe [safe]: "safe_at crc f (btree_delete crc root k)"
  unfolding btree_delete_def by (intro safe)

lemma idx_insert_into_leaf_safe [safe]: "safe_at crc f (idx_insert_into_leaf crc n p k)"
  unfolding idx_insert_into_leaf_def Let_def
proof (rule safe_seq [OF safe_pure(2)], rule safe_if)
  fix x f' show "safe_at crc f' (sm_bind (edit_page crc n g) (\<lambda>_. sm_ret Fit))" for g by (intro safe)
next
  fix pos f'
  let ?n = "unat (num_rows p)" and ?mid = "(unat (num_rows p) + 1) div 2"
  show "safe_at crc f' (sm_bind allocate_page (\<lambda>new_page_no.
        sm_bind (sm_lift (extract_key_at_virtual_pos p ?n pos k ?mid)) (\<lambda>separator.
        sm_bind (edit_page crc n (\<lambda>w.
          res_bind (write_idx_leaf_range w p ?n pos k 0 ?mid) (\<lambda>w.
          Inr (update_checksum crc (set_prev_leaf (set_next_leaf w new_page_no) (prev_leaf p)))))) (\<lambda>_.
        sm_bind (sm_lift (
          res_bind (write_idx_leaf_range (new_leaf crc) p ?n pos k ?mid (?n + 1)) (\<lambda>w.
          Inr (update_checksum crc (set_next_leaf (set_prev_leaf w n) (next_leaf p)))))) (\<lambda>right_page.
        sm_bind (put_page new_page_no right_page) (\<lambda>_.
        sm_bind (if next_leaf p \<noteq> 0
          then edit_page crc (next_leaf p) (\<lambda>w. Inr (update_checksum crc (set_prev_leaf w new_page_no)))
          else sm_ret ()) (\<lambda>_.
        sm_ret (Split new_page_no separator))))))))"
    by (rule safe_alloc_bind, rule safe_then, rule safe, assumption, rule safe_then, rule safe, assumption,
        rule safe_lift_put, assumption, intro safe)
qed

lemma idx_insert_recursive_safe [safe]: "safe_at crc f (idx_insert_recursive crc d n k)"
  by (induction d arbitrary: n f) (auto intro!: safe simp: idx_insert_into_branch_def)

lemma idx_delete_recursive_safe [safe]: "safe_at crc f (idx_delete_recursive crc d n k)"
  by (induction d arbitrary: n f) (auto intro!: safe simp: idx_delete_from_leaf_def Let_def)

lemma idx_ops_safe [safe]: "safe_at crc f (idx_insert crc root k)" "safe_at crc f (idx_delete crc root k)"
  unfolding idx_insert_def idx_grow_root_def idx_delete_def by (intro safe)+

end
