(* ===== verification/Table_Meta.thy ===== *)
theory Table_Meta
  imports Page_File Values
begin

text \<open>
  \<^verbatim>\<open>src/table.rs\<close>: the metadata of a table and of its indexes. A table keeps its columns
  by position, the position being the column id stored in rows; dropped columns keep their slot.
  Three derived fields (the name map and two positional copies) must agree with the columns; the
  lemmas show that every operation keeps them in agreement. The name map, a \<^verbatim>\<open>HashMap\<close>, is a
  map; the cipher of an unlocked table is its page encryption function.
\<close>

record index_meta =
  im_name :: rstring
  im_columns :: "rstring list"
  im_unique :: bool
  im_root_page :: u32

record index_info =
  ii_name :: rstring
  ii_columns :: "rstring list"
  ii_unique :: bool

record table_info =
  ti_name :: rstring
  ti_column_count :: u32
  ti_index_count :: u32

record table_meta =
  tm_name :: rstring
  tm_table_id :: u32
  tm_columns :: "column_def list"
  tm_col_name_to_id :: "rstring \<rightharpoonup> u16"
  tm_col_names :: "rstring list"
  tm_col_defs :: "column_def list"
  tm_root_page :: u32
  tm_row_count :: u64
  tm_next_rowid :: u64
  tm_indexes :: "index_meta list"
  tm_encrypted :: bool
  tm_cipher :: "cipher_fn option"

section \<open>Operations\<close>

text \<open>Collecting pairs into a \<^verbatim>\<open>HashMap\<close>: a later pair replaces an earlier one.\<close>

definition hash_collect :: "('k \<times> 'v) list \<Rightarrow> 'k \<rightharpoonup> 'v" where
  "hash_collect kvs = map_of (rev kvs)"

definition live_names :: "column_def list \<Rightarrow> (rstring \<times> u16) list" where
  "live_names columns =
     map (\<lambda>(i, c). (cd_name c, as_u16 i)) (filter (\<lambda>(_, c). \<not> cd_dropped c) (enumerate 0 columns))"

definition table_meta_new :: "rstring \<Rightarrow> u32 \<Rightarrow> column_def list \<Rightarrow> u32 \<Rightarrow> table_meta" where
  "table_meta_new name table_id columns root_page =
     \<lparr>tm_name = name, tm_table_id = table_id, tm_columns = columns,
      tm_col_name_to_id = hash_collect (live_names columns),
      tm_col_names = map cd_name columns, tm_col_defs = columns, tm_root_page = root_page,
      tm_row_count = 0, tm_next_rowid = 1, tm_indexes = [], tm_encrypted = False, tm_cipher = None\<rparr>"

definition col_id :: "table_meta \<Rightarrow> rstring \<Rightarrow> u16 option" where
  "col_id m name = tm_col_name_to_id m name"

definition find_index :: "table_meta \<Rightarrow> rstring \<Rightarrow> index_meta option" where
  "find_index m name = find (\<lambda>idx. im_name idx = name) (tm_indexes m)"

definition find_index_for_column :: "table_meta \<Rightarrow> rstring \<Rightarrow> index_meta option" where
  "find_index_for_column m column =
     find (\<lambda>idx. case im_columns idx of [] \<Rightarrow> False | c # _ \<Rightarrow> c = column) (tm_indexes m)"

definition meta_add_column :: "column_def \<Rightarrow> table_meta \<Rightarrow> table_meta" where
  "meta_add_column col m =
     (let cid = as_u16 (length (tm_columns m));
          m = m\<lparr>tm_col_name_to_id := (tm_col_name_to_id m)(cd_name col \<mapsto> cid)\<rparr>;
          m = m\<lparr>tm_col_names := tm_col_names m @ [cd_name col]\<rparr>;
          m = m\<lparr>tm_columns := tm_columns m @ [col]\<rparr>
      in m\<lparr>tm_col_defs := tm_columns m\<rparr>)"

text \<open>\<^verbatim>\<open>columns[col_id]\<close> is a bounds-checked access.\<close>

definition meta_drop_column :: "rstring \<Rightarrow> (table_meta, bool) sm" where
  "meta_drop_column name m =
     (case tm_col_name_to_id m name of
        None \<Rightarrow> (Inr False, m)
      | Some cid \<Rightarrow>
          let m = m\<lparr>tm_col_name_to_id := (tm_col_name_to_id m)(name := None)\<rparr>; i = unat cid in
          if length (tm_columns m) \<le> i then (Inl Panicked, m)
          else
            let m = m\<lparr>tm_columns := (tm_columns m)[i := (tm_columns m ! i)\<lparr>cd_dropped := True\<rparr>]\<rparr>
            in (Inr True, m\<lparr>tm_col_defs := tm_columns m\<rparr>))"

definition meta_rename_column :: "rstring \<Rightarrow> rstring \<Rightarrow> (table_meta, u16 option) sm" where
  "meta_rename_column old new m =
     (case tm_col_name_to_id m old of
        None \<Rightarrow> (Inr None, m)
      | Some cid \<Rightarrow>
          let m = m\<lparr>tm_col_name_to_id := (tm_col_name_to_id m)(old := None)\<rparr>;
              m = m\<lparr>tm_col_name_to_id := (tm_col_name_to_id m)(new \<mapsto> cid)\<rparr>;
              i = unat cid in
          if length (tm_columns m) \<le> i then (Inl Panicked, m)
          else
            let m = m\<lparr>tm_columns := (tm_columns m)[i := (tm_columns m ! i)\<lparr>cd_name := new\<rparr>]\<rparr> in
            if length (tm_col_names m) \<le> i then (Inl Panicked, m)
            else
              let m = m\<lparr>tm_col_names := (tm_col_names m)[i := new]\<rparr>
              in (Inr (Some cid), m\<lparr>tm_col_defs := tm_columns m\<rparr>))"

section \<open>The derived fields\<close>

text \<open>The columns of a table, each live name once, few enough for 16-bit ids.\<close>

definition columns_ok :: "column_def list \<Rightarrow> bool" where
  "columns_ok cols \<longleftrightarrow> length cols < 2 ^ 16 \<and> distinct (map cd_name (filter (\<lambda>c. \<not> cd_dropped c) cols))"

text \<open>The name map holds exactly the live columns; the positional copies are copies.\<close>

definition names_match :: "table_meta \<Rightarrow> bool" where
  "names_match m \<longleftrightarrow> (\<forall>n i. tm_col_name_to_id m n = Some i \<longleftrightarrow>
     unat i < length (tm_columns m) \<and> cd_name (tm_columns m ! unat i) = n \<and> \<not> cd_dropped (tm_columns m ! unat i))"

definition meta_ok :: "table_meta \<Rightarrow> bool" where
  "meta_ok m \<longleftrightarrow> length (tm_columns m) < 2 ^ 16 \<and> names_match m
     \<and> tm_col_names m = map cd_name (tm_columns m) \<and> tm_col_defs m = tm_columns m"

lemma names_matchD:
  assumes "names_match m"
  shows "tm_col_name_to_id m n = Some i \<longleftrightarrow>
    unat i < length (tm_columns m) \<and> cd_name (tm_columns m ! unat i) = n \<and> \<not> cd_dropped (tm_columns m ! unat i)"
  using assms unfolding names_match_def by blast

lemma unat_u16_of_nat: "i < 65536 \<Longrightarrow> unat (of_nat i :: u16) = i"
  by (simp add: take_bit_nat_eq_self unsigned_of_nat)

text \<open>A live column can be found by its name; so live names are distinct.\<close>

lemma names_match_live:
  assumes "names_match m" "length (tm_columns m) < 65536" "i < length (tm_columns m)" "\<not> cd_dropped (tm_columns m ! i)"
  shows "tm_col_name_to_id m (cd_name (tm_columns m ! i)) = Some (of_nat i)"
  using assms by (subst names_matchD) (simp_all add: unat_u16_of_nat del: unat_of_nat)

lemma live_names_set:
  assumes "length cols < 65536"
  shows "(n, i) \<in> set (live_names cols) \<longleftrightarrow> unat i < length cols \<and> cd_name (cols ! unat i) = n \<and> \<not> cd_dropped (cols ! unat i)"
proof -
  have "(n, i) \<in> set (live_names cols) \<longleftrightarrow>
      (\<exists>j < length cols. n = cd_name (cols ! j) \<and> i = of_nat j \<and> \<not> cd_dropped (cols ! j))"
    by (force simp: live_names_def in_set_enumerate_eq image_iff)
  also have "\<dots> \<longleftrightarrow> unat i < length cols \<and> cd_name (cols ! unat i) = n \<and> \<not> cd_dropped (cols ! unat i)"
  proof
    assume "\<exists>j < length cols. n = cd_name (cols ! j) \<and> i = of_nat j \<and> \<not> cd_dropped (cols ! j)"
    then obtain j where "j < length cols" "n = cd_name (cols ! j)" "i = of_nat j" "\<not> cd_dropped (cols ! j)" by blast
    then show "unat i < length cols \<and> cd_name (cols ! unat i) = n \<and> \<not> cd_dropped (cols ! unat i)"
      using assms unat_u16_of_nat [of j] by simp
  next
    assume "unat i < length cols \<and> cd_name (cols ! unat i) = n \<and> \<not> cd_dropped (cols ! unat i)"
    then show "\<exists>j < length cols. n = cd_name (cols ! j) \<and> i = of_nat j \<and> \<not> cd_dropped (cols ! j)"
      by (intro exI [of _ "unat i"]) simp
  qed
  finally show ?thesis .
qed

lemma live_names_ids:
  assumes "length cols < 65536"
  shows "distinct (map snd (live_names cols))"
proof -
  have "map snd (live_names cols) = map (\<lambda>(i, _). as_u16 i) (filter (\<lambda>(_, c). \<not> cd_dropped c) (enumerate 0 cols))"
    by (simp add: live_names_def split_beta)
  moreover have "distinct (map fst (enumerate 0 cols))" by simp
  ultimately show ?thesis using assms
    by (auto simp: distinct_map split_beta inj_on_def in_set_enumerate_eq prod_eq_iff intro!: distinct_filter
        dest!: arg_cong [where f = unat] simp del: unat_of_nat simp: unat_u16_of_nat)
qed

lemma names_distinct: "distinct (map fst (live_names cols)) \<longleftrightarrow> distinct (map cd_name (filter (\<lambda>c. \<not> cd_dropped c) cols))"
proof -
  have "map fst (live_names cols) = map cd_name (filter (\<lambda>c. \<not> cd_dropped c) cols)"
  proof (induction cols rule: rev_induct)
    case (snoc c cols)
    then show ?case by (simp add: live_names_def enumerate_append_eq)
  qed (simp add: live_names_def)
  then show ?thesis by simp
qed

lemma table_meta_new_ok:
  assumes "columns_ok cols"
  shows "meta_ok (table_meta_new name tid cols root)"
proof -
  have "distinct (map fst (rev (live_names cols)))"
    using assms by (simp add: columns_ok_def names_distinct flip: rev_map)
  then have "map_of (rev (live_names cols)) n = Some i \<longleftrightarrow> (n, i) \<in> set (live_names cols)" for n i by simp
  then show ?thesis
    using assms live_names_set [of cols]
    by (simp add: meta_ok_def names_match_def table_meta_new_def hash_collect_def columns_ok_def)
qed

lemma meta_ok_columns:
  assumes "meta_ok m"
  shows "columns_ok (tm_columns m)"
proof -
  let ?cols = "tm_columns m"
  have lt: "length ?cols < 65536" and ok: "names_match m" using assms by (simp_all add: meta_ok_def)
  have id: "snd x = the (tm_col_name_to_id m (fst x))" if "x \<in> set (live_names ?cols)" for x
    using that live_names_set [OF lt, of "fst x" "snd x"] names_matchD [OF ok, of "fst x" "snd x"] by simp
  have "distinct (live_names ?cols)"
  proof -
    have "distinct (map snd (live_names ?cols))"
      using lt by (simp add: live_names_ids)
    then show ?thesis by (simp add: distinct_map)
  qed
  then have "distinct (map fst (live_names ?cols))"
    using id by (auto simp: distinct_map inj_on_def prod_eq_iff)
  then show ?thesis using lt by (simp add: columns_ok_def names_distinct)
qed

text \<open>The guards of the callers: a new name must not be live.\<close>

lemma meta_add_column_ok:
  assumes "meta_ok m" "tm_col_name_to_id m (cd_name c) = None" "\<not> cd_dropped c" "Suc (length (tm_columns m)) < 2 ^ 16"
  shows "meta_ok (meta_add_column c m)"
proof -
  let ?n = "length (tm_columns m)"
  have ok: "names_match m" using assms(1) by (simp add: meta_ok_def)
  have n: "unat (of_nat ?n :: u16) = ?n" using assms(4) by (intro unat_u16_of_nat) simp
  have "(if n = cd_name c then Some (of_nat ?n) else tm_col_name_to_id m n) = Some i \<longleftrightarrow>
      unat i < Suc ?n \<and> cd_name ((tm_columns m @ [c]) ! unat i) = n \<and> \<not> cd_dropped ((tm_columns m @ [c]) ! unat i)" for n i
  proof (cases "unat i = ?n")
    case True
    then have "i = of_nat ?n" using n by (metis word_unat_eq_iff)
    moreover have "tm_col_name_to_id m n \<noteq> Some (of_nat ?n)" using names_matchD [OF ok, of n "of_nat ?n"] n by auto
    ultimately show ?thesis using assms(3) n by (auto simp: nth_append)
  next
    case False
    then have "i \<noteq> of_nat ?n" using n by auto
    moreover have "cd_name (tm_columns m ! unat i) \<noteq> cd_name c" if "unat i < ?n" "\<not> cd_dropped (tm_columns m ! unat i)"
      using names_matchD [OF ok, of "cd_name c" i] assms(2) that by auto
    ultimately show ?thesis using False names_matchD [OF ok, of n i] by (auto simp: nth_append)
  qed
  then show ?thesis using assms by (simp add: meta_ok_def names_match_def meta_add_column_def Let_def)
qed

lemma meta_drop_column_ok:
  assumes "meta_ok m" "tm_col_name_to_id m name = Some i"
  shows "\<exists>m'. meta_drop_column name m = (Inr True, m') \<and> meta_ok m' \<and> tm_col_name_to_id m' name = None
    \<and> tm_columns m' = (tm_columns m)[unat i := (tm_columns m ! unat i)\<lparr>cd_dropped := True\<rparr>]"
proof -
  have ok: "names_match m" using assms(1) by (simp add: meta_ok_def)
  have i: "unat i < length (tm_columns m)" "cd_name (tm_columns m ! unat i) = name" "\<not> cd_dropped (tm_columns m ! unat i)"
    using names_matchD [OF ok] assms(2) by blast+
  let ?cols = "(tm_columns m)[unat i := (tm_columns m ! unat i)\<lparr>cd_dropped := True\<rparr>]"
  have "(if n = name then None else tm_col_name_to_id m n) = Some j \<longleftrightarrow>
      unat j < length (tm_columns m) \<and> cd_name (?cols ! unat j) = n \<and> \<not> cd_dropped (?cols ! unat j)" for n j
    using names_matchD [OF ok, of n j] names_matchD [OF ok, of name j] assms(2) i(1)
    by (auto simp: nth_list_update word_unat_eq_iff split: if_splits)
  then show ?thesis
    using assms(1) i list_update_id [of "map cd_name (tm_columns m)" "unat i"]
    by (auto simp: meta_drop_column_def assms(2) Let_def meta_ok_def names_match_def map_update)
qed

lemma meta_rename_column_ok:
  assumes "meta_ok m" "tm_col_name_to_id m old = Some i" "tm_col_name_to_id m new = None"
  shows "\<exists>m'. meta_rename_column old new m = (Inr (Some i), m') \<and> meta_ok m' \<and> tm_col_name_to_id m' new = Some i
    \<and> tm_col_name_to_id m' old = None"
proof -
  have ok: "names_match m" using assms(1) by (simp add: meta_ok_def)
  have i: "unat i < length (tm_columns m)" "cd_name (tm_columns m ! unat i) = old" "\<not> cd_dropped (tm_columns m ! unat i)"
    using names_matchD [OF ok] assms(2) by blast+
  have ne: "old \<noteq> new" using assms by auto
  let ?cols = "(tm_columns m)[unat i := (tm_columns m ! unat i)\<lparr>cd_name := new\<rparr>]"
  have "((tm_col_name_to_id m)(old := None, new \<mapsto> i)) n = Some j \<longleftrightarrow>
      unat j < length (tm_columns m) \<and> cd_name (?cols ! unat j) = n \<and> \<not> cd_dropped (?cols ! unat j)" for n j
    using names_matchD [OF ok, of n j] names_matchD [OF ok, of old j] names_matchD [OF ok, of new j] assms(2,3) i
    by (auto simp: nth_list_update word_unat_eq_iff split: if_splits)
  then show ?thesis
    using assms(1) i ne by (simp add: meta_rename_column_def assms(2) Let_def meta_ok_def names_match_def map_update)
qed

end
