(* ===== verification/System_Page.thy ===== *)
theory System_Page
  imports Table_Meta Row_Codec Overflow
begin

text \<open>
  The system page of \<^verbatim>\<open>src/db.rs\<close>: the table registry as a byte stream in page 0, continued
  in a chain of overflow pages when it does not fit. The parser passes an offset along, checks the
  length before every read, and is modelled as one function per record kind. A locale states what a
  parser owes its serializer and carries it to repeated records; the records are its interpretations.
\<close>

abbreviation SYSTEM_PAGE_MAGIC :: u32 where "SYSTEM_PAGE_MAGIC \<equiv> 0xB00D5150"
abbreviation SYSTEM_INLINE_BUDGET :: nat where "SYSTEM_INLINE_BUDGET \<equiv> 4066"

section \<open>Serializing the registry\<close>

fun type_to_tag :: "col_type \<Rightarrow> u8" where
  "type_to_tag TText = 1"
| "type_to_tag TInteger = 2"
| "type_to_tag TReal = 3"
| "type_to_tag TBlob = 4"
| "type_to_tag TBoolean = 5"

definition tag_to_type :: "u8 \<Rightarrow> col_type res" where
  "tag_to_type tag =
     (if tag = 1 then Inr TText else if tag = 2 then Inr TInteger else if tag = 3 then Inr TReal
      else if tag = 4 then Inr TBlob else if tag = 5 then Inr TBoolean
      else Inl (Fail (Corruption ''unknown type tag'')))"

definition flag_byte :: "bool \<Rightarrow> u8" where
  "flag_byte b = (if b then 1 else 0)"

definition put_str :: "rstring \<Rightarrow> bytes" where
  "put_str s = u16_to_le (as_u16 (length s)) @ s"

definition put_column :: "column_def \<Rightarrow> bytes" where
  "put_column col =
     put_str (cd_name col)
     @ [type_to_tag (cd_type col), flag_byte (cd_nullable col), flag_byte (cd_unique col), flag_byte (cd_dropped col)]
     @ (case cd_default col of
          None \<Rightarrow> [0]
        | Some v \<Rightarrow> [1] @ (let vb = encode_value_to_vec v in u16_to_le (as_u16 (length vb)) @ vb))"

definition put_index :: "index_meta \<Rightarrow> bytes" where
  "put_index idx =
     put_str (im_name idx)
     @ u16_to_le (as_u16 (length (im_columns idx))) @ concat (map put_str (im_columns idx))
     @ [flag_byte (im_unique idx)] @ u32_to_le (im_root_page idx)"

definition put_table :: "table_meta \<Rightarrow> bytes" where
  "put_table m =
     u32_to_le (tm_table_id m) @ u32_to_le (tm_root_page m) @ u64_to_le (tm_row_count m) @ u64_to_le (tm_next_rowid m)
     @ put_str (tm_name m)
     @ u16_to_le (as_u16 (length (tm_columns m))) @ concat (map put_column (tm_columns m))
     @ u16_to_le (as_u16 (length (tm_indexes m))) @ concat (map put_index (tm_indexes m))
     @ [flag_byte (tm_encrypted m)]"

definition serialize_system_metas :: "table_meta list \<Rightarrow> u32 \<Rightarrow> bytes" where
  "serialize_system_metas metas next_table_id =
     u32_to_le SYSTEM_PAGE_MAGIC @ u32_to_le next_table_id @ u16_to_le (as_u16 (length metas))
     @ concat (map put_table metas)"

section \<open>Parsing the registry\<close>

type_synonym 'a parser = "bytes \<Rightarrow> nat \<Rightarrow> ('a \<times> nat) res"

text \<open>\<^verbatim>\<open>if bytes.len() < offset + n { return Err(Corruption(..)) }\<close>.\<close>

definition need :: "bytes \<Rightarrow> nat \<Rightarrow> nat \<Rightarrow> string \<Rightarrow> unit res" where
  "need d off n msg = ensure (off + n \<le> length d) (Corruption msg)"

definition get_u16 :: "string \<Rightarrow> nat parser" where
  "get_u16 msg d off =
     res_bind (need d off 2 msg) (\<lambda>_. res_bind (u16_at d off) (\<lambda>v. Inr (unat v, off + 2)))"

definition get_u32 :: "string \<Rightarrow> u32 parser" where
  "get_u32 msg d off =
     res_bind (need d off 4 msg) (\<lambda>_. res_bind (u32_at d off) (\<lambda>v. Inr (v, off + 4)))"

definition get_flag :: "string \<Rightarrow> bool parser" where
  "get_flag msg d off =
     res_bind (need d off 1 msg) (\<lambda>_. res_bind (byte_at d off) (\<lambda>b. Inr (b \<noteq> 0, off + 1)))"

text \<open>A name with its length; \<open>extra\<close> is the number of bytes that must follow it.\<close>

definition get_str :: "string \<Rightarrow> string \<Rightarrow> string \<Rightarrow> nat \<Rightarrow> rstring parser" where
  "get_str len_msg msg utf8_msg extra d off =
     res_bind (get_u16 len_msg d off) (\<lambda>(n, off).
     res_bind (need d off (n + extra) msg) (\<lambda>_.
     res_bind (slice d off (off + n)) (\<lambda>s.
     res_bind (ensure (utf8_valid s) (Corruption utf8_msg)) (\<lambda>_.
     Inr (s, off + n)))))"

text \<open>A loop \<^verbatim>\<open>for _ in 0..n\<close> that pushes what each round parses.\<close>

fun get_many :: "'a parser \<Rightarrow> nat \<Rightarrow> 'a list parser" where
  "get_many get 0 d off = Inr ([], off)"
| "get_many get (Suc n) d off =
     res_bind (get d off) (\<lambda>(x, off).
     res_bind (get_many get n d off) (\<lambda>(xs, off). Inr (x # xs, off)))"

definition get_default :: "db_value option parser" where
  "get_default d off =
     res_bind (get_flag ''system page truncated at column has_default flag'' d off) (\<lambda>(has_default, off).
     if has_default then
       res_bind (get_u16 ''system page truncated at column default length'' d off) (\<lambda>(vlen, off).
       res_bind (need d off vlen ''system page truncated at column default value'') (\<lambda>_.
       res_bind (slice d off (off + vlen)) (\<lambda>vb.
       res_bind (decode_value vb) (\<lambda>(v, _). Inr (Some v, off + vlen)))))
     else Inr (None, off))"

definition get_column :: "column_def parser" where
  "get_column d off =
     res_bind (get_str ''system page truncated at column name length'' ''system page truncated at column data''
        ''invalid utf8 in column name'' 3 d off) (\<lambda>(col_name, off).
     res_bind (byte_at d off) (\<lambda>type_tag.
     res_bind (byte_at d (off + 1)) (\<lambda>nullable.
     res_bind (byte_at d (off + 2)) (\<lambda>uniq.
     res_bind (get_flag ''system page truncated at column dropped flag'' d (off + 3)) (\<lambda>(dropped, off).
     res_bind (get_default d off) (\<lambda>(col_default, off).
     res_bind (tag_to_type type_tag) (\<lambda>t.
     let col_def = column_new col_name t;
         col_def = (if nullable = 0 then column_not_null col_def else col_def);
         col_def = (if uniq \<noteq> 0 then column_unique col_def else col_def)
     in Inr (col_def\<lparr>cd_dropped := dropped, cd_default := col_default\<rparr>, off))))))))"

definition get_index :: "index_meta parser" where
  "get_index d off =
     res_bind (get_str ''system page truncated at index name length'' ''system page truncated at index name''
        ''invalid utf8 in index name'' 0 d off) (\<lambda>(idx_name, off).
     res_bind (get_u16 ''system page truncated at index column count'' d off) (\<lambda>(n, off).
     res_bind (get_many (get_str ''system page truncated at index column length''
        ''system page truncated at index column'' ''invalid utf8 in index column'' 0) n d off) (\<lambda>(idx_columns, off).
     res_bind (get_flag ''system page truncated at index unique flag'' d off) (\<lambda>(idx_unique, off).
     res_bind (get_u32 ''system page truncated at index root page'' d off) (\<lambda>(root, off).
     Inr (\<lparr>im_name = idx_name, im_columns = idx_columns, im_unique = idx_unique, im_root_page = root\<rparr>, off))))))"

text \<open>The trailing flag may be missing.\<close>

definition get_encrypted :: "bool parser" where
  "get_encrypted d off =
     (if off < length d then res_bind (byte_at d off) (\<lambda>b. Inr (b \<noteq> 0, off + 1)) else Inr (False, off))"

definition get_table :: "table_meta parser" where
  "get_table d off =
     res_bind (need d off 24 ''system page truncated in table header'') (\<lambda>_.
     res_bind (u32_at d off) (\<lambda>table_id.
     res_bind (u32_at d (off + 4)) (\<lambda>root_page.
     res_bind (u64_at d (off + 8)) (\<lambda>row_count.
     res_bind (u64_at d (off + 16)) (\<lambda>next_rowid.
     res_bind (get_str ''system page truncated at table name length'' ''system page truncated at table name''
        ''invalid utf8 in table name'' 0 d (off + 24)) (\<lambda>(name, off).
     res_bind (get_u16 ''system page truncated at column count'' d off) (\<lambda>(num_columns, off).
     res_bind (get_many get_column num_columns d off) (\<lambda>(columns, off).
     let meta = (table_meta_new name table_id columns root_page)\<lparr>tm_row_count := row_count, tm_next_rowid := next_rowid\<rparr> in
     res_bind (get_u16 ''system page truncated at index count'' d off) (\<lambda>(num_indexes, off).
     res_bind (get_many get_index num_indexes d off) (\<lambda>(idxs, off).
     res_bind (get_encrypted d off) (\<lambda>(encrypted, off).
     Inr (meta\<lparr>tm_indexes := idxs, tm_encrypted := encrypted\<rparr>, off))))))))))))"

definition deserialize_system_metas :: "bytes \<Rightarrow> (table_meta list \<times> u32) res" where
  "deserialize_system_metas d =
     res_bind (get_u32 ''system page: truncated (no magic)'' d 0) (\<lambda>(magic, off).
     res_bind (ensure (magic = SYSTEM_PAGE_MAGIC) (Corruption ''system page magic mismatch'')) (\<lambda>_.
     res_bind (get_u32 ''system page: truncated at next_table_id'' d off) (\<lambda>(next_table_id, off).
     res_bind (get_u16 ''system page: truncated at num_tables'' d off) (\<lambda>(num_tables, off).
     res_bind (get_many get_table num_tables d off) (\<lambda>(tables, off).
     Inr (tables, next_table_id))))))"

section \<open>What a parser owes its serializer\<close>

text \<open>
  Reading at the offset where \<open>x\<close> was written gives \<open>x\<close> back, as far as it is stored, and the
  offset behind it, whatever comes before and after.
\<close>

locale parser_for =
  fixes enc :: "'a \<Rightarrow> bytes"
    and dec :: "bytes \<Rightarrow> nat \<Rightarrow> ('b \<times> nat) res"
    and ok :: "'a \<Rightarrow> bool"
    and stored :: "'a \<Rightarrow> 'b"
  assumes parse: "ok x \<Longrightarrow> dec (a @ enc x @ r) (length a) = Inr (stored x, length a + length (enc x))"
begin

lemma parse_at: "ok x \<Longrightarrow> off = length a \<Longrightarrow> dec (a @ enc x @ r) off = Inr (stored x, off + length (enc x))"
  using parse by simp

lemma parse_many:
  assumes "\<forall>x \<in> set xs. ok x" "off = length a"
  shows "get_many dec (length xs) (a @ concat (map enc xs) @ r) off = Inr (map stored xs, off + length (concat (map enc xs)))"
  using assms
proof (induction xs arbitrary: a off)
  case (Cons x xs)
  have "dec (a @ enc x @ concat (map enc xs) @ r) off = Inr (stored x, off + length (enc x))"
    using Cons.prems by (intro parse_at) simp_all
  moreover have "get_many dec (length xs) (a @ enc x @ concat (map enc xs) @ r) (off + length (enc x))
      = Inr (map stored xs, off + length (enc x) + length (concat (map enc xs)))"
    using Cons.IH [of "off + length (enc x)" "a @ enc x"] Cons.prems by simp
  ultimately show ?case by simp
qed simp

end

definition str_ok :: "rstring \<Rightarrow> bool" where
  "str_ok s \<longleftrightarrow> utf8_valid s \<and> length s < 65536"

definition column_ok :: "column_def \<Rightarrow> bool" where
  "column_ok c \<longleftrightarrow> str_ok (cd_name c)
     \<and> (case cd_default c of None \<Rightarrow> True | Some v \<Rightarrow> value_fits v \<and> length (encode_value_to_vec v) < 65536)"

definition index_ok :: "index_meta \<Rightarrow> bool" where
  "index_ok i \<longleftrightarrow> str_ok (im_name i) \<and> list_all str_ok (im_columns i) \<and> length (im_columns i) < 65536"

definition table_ok :: "table_meta \<Rightarrow> bool" where
  "table_ok m \<longleftrightarrow> str_ok (tm_name m) \<and> meta_ok m \<and> list_all column_ok (tm_columns m)
     \<and> list_all index_ok (tm_indexes m) \<and> length (tm_indexes m) < 65536"

text \<open>What of a table is stored: everything but the cipher.\<close>

definition locked :: "table_meta \<Rightarrow> table_meta" where
  "locked m = m\<lparr>tm_cipher := None\<rparr>"

lemma u16_len: "length xs < 65536 \<Longrightarrow> unat (as_u16 (length xs)) = length xs"
  by (rule unat_u16_of_nat)

lemma get_u16_at: "off = length a \<Longrightarrow> n < 65536 \<Longrightarrow> get_u16 msg (a @ u16_to_le (as_u16 n) @ r) off = Inr (n, off + 2)"
  by (simp add: get_u16_def need_def u16_at_middle unat_u16_of_nat del: unat_of_nat)

lemma get_u32_at: "off = length a \<Longrightarrow> get_u32 msg (a @ u32_to_le v @ r) off = Inr (v, off + 4)"
  by (simp add: get_u32_def need_def u32_at_middle)

lemma get_flag_at: "off = length a \<Longrightarrow> get_flag msg (a @ flag_byte b # r) off = Inr (b, off + 1)"
  by (simp add: get_flag_def need_def byte_at_def flag_byte_def)

lemma get_str_at:
  assumes "str_ok s" "off = length a" "extra \<le> length r"
  shows "get_str m1 m2 m3 extra (a @ put_str s @ r) off = Inr (s, off + length (put_str s))"
proof -
  have "get_u16 m1 (a @ u16_to_le (as_u16 (length s)) @ s @ r) off = Inr (length s, off + 2)"
    using assms by (intro get_u16_at) (simp_all add: str_ok_def)
  moreover have "slice (a @ u16_to_le (as_u16 (length s)) @ s @ r) (off + 2) (off + 2 + length s) = Inr s"
    using sub_bytes_middle [of "off + 2" "a @ u16_to_le (as_u16 (length s))" "off + 2 + length s" s r] assms(2)
    by (simp add: slice_def)
  ultimately show ?thesis
    using assms by (simp add: get_str_def put_str_def need_def str_ok_def)
qed

interpretation str_parser: parser_for put_str "get_str m1 m2 m3 0" str_ok "\<lambda>s. s" for m1 m2 m3
  by unfold_locales (simp add: get_str_at)

lemma tag_roundtrip: "tag_to_type (type_to_tag t) = Inr t"
  by (cases t) (simp_all add: tag_to_type_def)

definition put_default :: "db_value option \<Rightarrow> bytes" where
  "put_default df = (case df of
      None \<Rightarrow> [0]
    | Some v \<Rightarrow> [1] @ (let vb = encode_value_to_vec v in u16_to_le (as_u16 (length vb)) @ vb))"

lemma get_default_at:
  assumes "off = length a" "case df of None \<Rightarrow> True | Some v \<Rightarrow> value_fits v \<and> length (encode_value_to_vec v) < 65536"
  shows "get_default (a @ put_default df @ r) off = Inr (df, off + length (put_default df))"
proof (cases df)
  case None
  then show ?thesis using assms get_flag_at [of off a _ False r]
    by (simp add: get_default_def put_default_def flag_byte_def)
next
  case (Some v)
  let ?vb = "encode_value_to_vec v"
  let ?d = "a @ 1 # u16_to_le (as_u16 (length ?vb)) @ ?vb @ r"
  have "get_flag m ?d off = Inr (True, off + 1)" for m
    using get_flag_at [of off a m True] assms(1) by (simp add: flag_byte_def)
  moreover have "get_u16 m ?d (off + 1) = Inr (length ?vb, off + 3)" for m
    using get_u16_at [of "off + 1" "a @ [1]" "length ?vb" m "?vb @ r"] assms Some by simp
  moreover have "slice ?d (off + 3) (off + 3 + length ?vb) = Inr ?vb"
    using sub_bytes_middle [of "off + 3" "a @ 1 # u16_to_le (as_u16 (length ?vb))" "off + 3 + length ?vb" ?vb r] assms(1)
    by (simp add: slice_def)
  moreover have "decode_value ?vb = Inr (v, length ?vb)"
    using decode_encode_value [of v "[]"] assms(2) Some by simp
  ultimately show ?thesis
    using Some assms(1) by (simp add: get_default_def put_default_def need_def Let_def)
qed

lemma get_column_at:
  assumes "column_ok c"
  shows "get_column (a @ put_column c @ r) (length a) = Inr (c, length a + length (put_column c))"
proof -
  let ?d = "cd_default c" and ?t = "type_to_tag (cd_type c)"
  let ?f = "[?t, flag_byte (cd_nullable c), flag_byte (cd_unique c), flag_byte (cd_dropped c)]"
  let ?off = "length a + length (put_str (cd_name c))"
  let ?D = "a @ put_str (cd_name c) @ ?f @ put_default ?d @ r"
  have enc: "put_column c = put_str (cd_name c) @ ?f @ put_default ?d"
    by (simp add: put_column_def put_default_def)
  have "get_str m1 m2 m3 3 ?D (length a) = Inr (cd_name c, ?off)" for m1 m2 m3
    using assms by (intro get_str_at) (simp_all add: column_ok_def)
  moreover have "byte_at ?D ?off = Inr ?t" "byte_at ?D (?off + 1) = Inr (flag_byte (cd_nullable c))"
    "byte_at ?D (?off + 2) = Inr (flag_byte (cd_unique c))"
    by (simp_all add: byte_at_def nth_append)
  moreover have "get_flag m ?D (?off + 3) = Inr (cd_dropped c, ?off + 4)" for m
    using get_flag_at [of "?off + 3" "a @ put_str (cd_name c) @ [?t, flag_byte (cd_nullable c), flag_byte (cd_unique c)]" m
        "cd_dropped c" "put_default ?d @ r"] by simp
  moreover have "get_default ?D (?off + 4) = Inr (?d, ?off + 4 + length (put_default ?d))"
    using get_default_at [of "?off + 4" "a @ put_str (cd_name c) @ ?f" ?d r] assms by (simp add: column_ok_def)
  ultimately show ?thesis
    by (simp add: enc get_column_def tag_roundtrip Let_def)
       (simp add: column_new_def column_not_null_def column_unique_def flag_byte_def)
qed

interpretation column_parser: parser_for put_column get_column column_ok "\<lambda>c. c"
  by unfold_locales (rule get_column_at)

lemma get_index_at:
  assumes "index_ok i"
  shows "get_index (a @ put_index i @ r) (length a) = Inr (i, length a + length (put_index i))"
proof -
  let ?n = "u16_to_le (as_u16 (length (im_columns i)))" and ?cs = "concat (map put_str (im_columns i))"
  let ?tl = "flag_byte (im_unique i) # u32_to_le (im_root_page i) @ r"
  let ?o1 = "length a + length (put_str (im_name i))"
  let ?D = "a @ put_str (im_name i) @ ?n @ ?cs @ ?tl"
  have "get_str m1 m2 m3 0 ?D (length a) = Inr (im_name i, ?o1)" for m1 m2 m3
    using assms by (intro str_parser.parse) (simp add: index_ok_def)
  moreover have "get_u16 m ?D ?o1 = Inr (length (im_columns i), ?o1 + 2)" for m
    using get_u16_at [of ?o1 "a @ put_str (im_name i)" "length (im_columns i)" m "?cs @ ?tl"] assms by (simp add: index_ok_def)
  moreover have "get_many (get_str m1 m2 m3 0) (length (im_columns i)) ?D (?o1 + 2) = Inr (im_columns i, ?o1 + 2 + length ?cs)" for m1 m2 m3
    using str_parser.parse_many [of "im_columns i" "?o1 + 2" "a @ put_str (im_name i) @ ?n" m1 m2 m3 ?tl] assms
    by (simp add: index_ok_def list_all_iff)
  moreover have "get_flag m ?D (?o1 + 2 + length ?cs) = Inr (im_unique i, ?o1 + 3 + length ?cs)" for m
    using get_flag_at [of "?o1 + 2 + length ?cs" "a @ put_str (im_name i) @ ?n @ ?cs" m "im_unique i" "u32_to_le (im_root_page i) @ r"] by simp
  moreover have "get_u32 m ?D (?o1 + 3 + length ?cs) = Inr (im_root_page i, ?o1 + 7 + length ?cs)" for m
    using get_u32_at [of "?o1 + 3 + length ?cs" "a @ put_str (im_name i) @ ?n @ ?cs @ [flag_byte (im_unique i)]" m "im_root_page i" r] by simp
  ultimately show ?thesis by (simp add: get_index_def put_index_def)
qed

interpretation index_parser: parser_for put_index get_index index_ok "\<lambda>i. i"
  by unfold_locales (rule get_index_at)

text \<open>The fields derived from the columns come out as they were.\<close>

lemma table_meta_new_derived:
  assumes "meta_ok m"
  shows "(table_meta_new (tm_name m) (tm_table_id m) (tm_columns m) (tm_root_page m))
      \<lparr>tm_row_count := tm_row_count m, tm_next_rowid := tm_next_rowid m, tm_indexes := tm_indexes m,
       tm_encrypted := tm_encrypted m\<rparr> = locked m"
proof -
  let ?m = "table_meta_new (tm_name m) (tm_table_id m) (tm_columns m) (tm_root_page m)"
  have "meta_ok ?m"
    using meta_ok_columns [OF assms] by (rule table_meta_new_ok)
  then have n: "tm_col_name_to_id ?m n = Some i \<longleftrightarrow> tm_col_name_to_id m n = Some i" for n i
    using assms names_matchD [of ?m n i] names_matchD [of m n i] by (simp add: meta_ok_def table_meta_new_def)
  have "tm_col_name_to_id ?m = tm_col_name_to_id m"
  proof
    fix n show "tm_col_name_to_id ?m n = tm_col_name_to_id m n"
      using n [of n] by (cases "tm_col_name_to_id m n"; cases "tm_col_name_to_id ?m n") auto
  qed
  then show ?thesis using assms by (simp add: table_meta_new_def locked_def meta_ok_def)
qed

lemma get_table_at:
  assumes "table_ok m"
  shows "get_table (a @ put_table m @ r) (length a) = Inr (locked m, length a + length (put_table m))"
proof -
  let ?h = "u32_to_le (tm_table_id m) @ u32_to_le (tm_root_page m) @ u64_to_le (tm_row_count m) @ u64_to_le (tm_next_rowid m)"
  let ?n = "u16_to_le (as_u16 (length (tm_columns m)))" and ?cs = "concat (map put_column (tm_columns m))"
  let ?k = "u16_to_le (as_u16 (length (tm_indexes m)))" and ?is = "concat (map put_index (tm_indexes m))"
  let ?nm = "put_str (tm_name m)" and ?e = "[flag_byte (tm_encrypted m)]"
  let ?D = "a @ ?h @ ?nm @ ?n @ ?cs @ ?k @ ?is @ ?e @ r"
  let ?o = "length a" and ?o1 = "length a + 24 + length (put_str (tm_name m))"
  let ?o2 = "?o1 + 2 + length ?cs" and ?o3 = "?o1 + 4 + length ?cs + length ?is"
  have "u32_at ?D ?o = Inr (tm_table_id m)" "u32_at ?D (?o + 4) = Inr (tm_root_page m)"
    "u64_at ?D (?o + 8) = Inr (tm_row_count m)" "u64_at ?D (?o + 16) = Inr (tm_next_rowid m)"
    using u32_at_middle [of ?o a "tm_table_id m"]
      u32_at_middle [of "?o + 4" "a @ u32_to_le (tm_table_id m)" "tm_root_page m"]
      u64_at_middle [of "?o + 8" "a @ u32_to_le (tm_table_id m) @ u32_to_le (tm_root_page m)" "tm_row_count m"]
      u64_at_middle [of "?o + 16" "a @ u32_to_le (tm_table_id m) @ u32_to_le (tm_root_page m) @ u64_to_le (tm_row_count m)" "tm_next_rowid m"]
    by simp_all
  moreover have "get_str m1 m2 m3 0 ?D (?o + 24) = Inr (tm_name m, ?o1)" for m1 m2 m3
    using str_parser.parse_at [of "tm_name m" "?o + 24" "a @ ?h" m1 m2 m3] assms by (simp add: table_ok_def)
  moreover have "get_u16 ms ?D ?o1 = Inr (length (tm_columns m), ?o1 + 2)" for ms
    using get_u16_at [of ?o1 "a @ ?h @ ?nm" "length (tm_columns m)" ms "?cs @ ?k @ ?is @ ?e @ r"] assms
    by (simp add: table_ok_def meta_ok_def)
  moreover have "get_many get_column (length (tm_columns m)) ?D (?o1 + 2) = Inr (tm_columns m, ?o2)"
    using column_parser.parse_many [of "tm_columns m" "?o1 + 2" "a @ ?h @ ?nm @ ?n" "?k @ ?is @ ?e @ r"] assms
    by (simp add: table_ok_def list_all_iff)
  moreover have "get_u16 ms ?D ?o2 = Inr (length (tm_indexes m), ?o2 + 2)" for ms
    using get_u16_at [of ?o2 "a @ ?h @ ?nm @ ?n @ ?cs" "length (tm_indexes m)" ms "?is @ ?e @ r"] assms
    by (simp add: table_ok_def)
  moreover have "get_many get_index (length (tm_indexes m)) ?D (?o2 + 2) = Inr (tm_indexes m, ?o3)"
    using index_parser.parse_many [of "tm_indexes m" "?o2 + 2" "a @ ?h @ ?nm @ ?n @ ?cs @ ?k" "?e @ r"] assms
    by (simp add: table_ok_def list_all_iff)
  moreover have "get_encrypted ?D ?o3 = Inr (tm_encrypted m, ?o3 + 1)"
    by (simp add: get_encrypted_def byte_at_def nth_append flag_byte_def)
  ultimately show ?thesis
    using assms table_meta_new_derived [of m]
    by (simp add: get_table_def put_table_def need_def Let_def table_ok_def)
qed

interpretation table_parser: parser_for put_table get_table table_ok locked
  by unfold_locales (rule get_table_at)

lemma deserialize_serialize:
  assumes "list_all table_ok metas" "length metas < 65536"
  shows "deserialize_system_metas (serialize_system_metas metas nid @ r) = Inr (map locked metas, nid)"
proof -
  let ?n = "u16_to_le (as_u16 (length metas))" and ?ts = "concat (map put_table metas)"
  let ?D = "u32_to_le SYSTEM_PAGE_MAGIC @ u32_to_le nid @ ?n @ ?ts @ r"
  have "get_u32 m ?D 0 = Inr (SYSTEM_PAGE_MAGIC, 4)" "get_u32 m ?D 4 = Inr (nid, 8)" for m
    using get_u32_at [of 0 "[]" m SYSTEM_PAGE_MAGIC] get_u32_at [of 4 "u32_to_le SYSTEM_PAGE_MAGIC" m nid] by simp_all
  moreover have "get_u16 m ?D 8 = Inr (length metas, 10)" for m
    using get_u16_at [of 8 "u32_to_le SYSTEM_PAGE_MAGIC @ u32_to_le nid" "length metas" m] assms(2) by simp
  moreover have "get_many get_table (length metas) ?D 10 = Inr (map locked metas, 10 + length ?ts)"
    using table_parser.parse_many [of metas 10 "u32_to_le SYSTEM_PAGE_MAGIC @ u32_to_le nid @ ?n" r] assms(1)
    by (simp add: list_all_iff)
  ultimately show ?thesis by (simp add: deserialize_system_metas_def serialize_system_metas_def)
qed

section \<open>Pages of the registry\<close>

fun alloc_many :: "nat \<Rightarrow> u32 list guarded" where
  "alloc_many 0 = sm_ret []"
| "alloc_many (Suc k) = sm_bind allocate_page (\<lambda>n. sm_bind (alloc_many k) (\<lambda>ns. sm_ret (n # ns)))"

text \<open>Each page is linked to the next one, the last to 0.\<close>

fun build_chain :: "(bytes \<Rightarrow> u32) \<Rightarrow> (bytes \<times> u32) list \<Rightarrow> (u32 \<times> page) list res" where
  "build_chain crc [] = Inr []"
| "build_chain crc ((chunk, n) # rest) =
     (let next_page = (case rest of [] \<Rightarrow> 0 | (_, m) # _ \<Rightarrow> m) in
      res_bind (build_overflow_page crc chunk next_page) (\<lambda>p.
      res_bind (build_chain crc rest) (\<lambda>ps. Inr ((n, p) # ps))))"

definition system_trailer :: "u32 \<Rightarrow> nat \<Rightarrow> page \<Rightarrow> page res" where
  "system_trailer first_page remaining p =
     (let trailer_start = PAGE_HEADER_SIZE + SYSTEM_INLINE_BUDGET in
      res_bind (copy_at p trailer_start OVERFLOW_MAGIC) (\<lambda>p.
      res_bind (copy_at p (trailer_start + 2) (u32_to_le first_page)) (\<lambda>p.
      res_bind (must (remaining \<le> 4294967295)) (\<lambda>_.
      copy_at p (trailer_start + 6) (u32_to_le (as_u32 remaining))))))"

definition serialize_system_page ::
  "(bytes \<Rightarrow> u32) \<Rightarrow> table_meta list \<Rightarrow> u32 \<Rightarrow> (page \<times> (u32 \<times> page) list) guarded" where
  "serialize_system_page crc metas next_table_id =
     (let bs = serialize_system_metas metas next_table_id; page0 = new_system crc in
      if length bs \<le> SYSTEM_INLINE_BUDGET then
        sm_bind (sm_lift (copy_at page0 PAGE_HEADER_SIZE bs)) (\<lambda>p. sm_ret (update_checksum crc p, []))
      else
        let inline = take SYSTEM_INLINE_BUDGET bs; overflow = drop SYSTEM_INLINE_BUDGET bs;
            chunks = chunks OVERFLOW_PAYLOAD_MAX overflow in
        sm_bind (alloc_many (length chunks)) (\<lambda>page_numbers.
        sm_bind (sm_lift (build_chain crc (zip chunks page_numbers))) (\<lambda>overflow_pages.
        sm_lift (res_bind (copy_at page0 PAGE_HEADER_SIZE inline) (\<lambda>p.
          res_bind (case page_numbers of [] \<Rightarrow> Inl Panicked | n # _ \<Rightarrow> Inr n) (\<lambda>first.
          res_bind (system_trailer first (length overflow) p) (\<lambda>p.
          Inr (update_checksum crc p, overflow_pages))))))))"

text \<open>
  The loop along the chain. Nothing bounds it: it ends when the chain ends or enough bytes are
  there, so it is a partial function whose \<^const>\<open>None\<close> is not returning.
\<close>

partial_function (option) system_chain ::
  "(u32 \<Rightarrow> page res) \<Rightarrow> nat \<Rightarrow> u32 \<Rightarrow> nat \<Rightarrow> bytes \<Rightarrow> (nat \<times> bytes) res option" where
  "system_chain rd remaining current accumulated bs =
     (if current \<noteq> 0 \<and> accumulated < remaining then
        (case rd current of
           Inl e \<Rightarrow> Some (Inl e)
         | Inr p \<Rightarrow>
             if \<not> is_overflow p then Some (Inl (Fail (Corruption ''system page chain hit non-overflow page'')))
             else
               (case read_overflow_payload p of
                  Inl e \<Rightarrow> Some (Inl e)
                | Inr payload \<Rightarrow>
                    let n = min (remaining - accumulated) (length payload) in
                    system_chain rd remaining (overflow_next p) (accumulated + n) (bs @ take n payload)))
      else Some (Inr (accumulated, bs)))"

definition deserialize_system_page :: "page \<Rightarrow> (u32 \<Rightarrow> page res) \<Rightarrow> (table_meta list \<times> u32) res option" where
  "deserialize_system_page page0 rd =
     (let inline_start = PAGE_HEADER_SIZE;
          trailer_start = inline_start + SYSTEM_INLINE_BUDGET;
          trailer_end = trailer_start + OVERFLOW_TRAILER_SIZE;
          inline = sub_bytes page0 inline_start trailer_start
      in if sub_bytes page0 trailer_start (trailer_start + 2) \<noteq> OVERFLOW_MAGIC
         then Some (deserialize_system_metas inline)
         else
           let first_page = u32_from_le (sub_bytes page0 (trailer_start + 2) (trailer_start + 6));
               remaining = unat (u32_from_le (sub_bytes page0 (trailer_start + 6) trailer_end))
           in if first_page = 0 \<and> 0 < remaining
              then Some (Inl (Fail (Corruption ''system page trailer present but first_page is 0'')))
              else
                map_option (\<lambda>r. res_bind r (\<lambda>(accumulated, bs).
                    res_bind (ensure (remaining \<le> accumulated) (Corruption ''system page overflow chain truncated''))
                      (\<lambda>_. deserialize_system_metas bs)))
                  (system_chain rd remaining first_page 0 inline))"

section \<open>Reading the pages back\<close>

lemma system_chain_end: "current = 0 \<or> remaining \<le> acc \<Longrightarrow> system_chain rd remaining current acc bs = Some (Inr (acc, bs))"
  by (subst system_chain.simps) auto

lemma system_chain_chain:
  assumes "chain rd cur cs" "acc + length (concat (map snd cs)) = remaining" "\<forall>c \<in> set cs. snd c \<noteq> []"
    and "\<forall>c \<in> set cs. \<forall>p. rd (fst c) = Inr p \<longrightarrow> is_overflow p"
  shows "system_chain rd remaining cur acc bs = Some (Inr (remaining, bs @ concat (map snd cs)))"
  using assms
proof (induction rd cur cs arbitrary: acc bs rule: chain.induct)
  case (1 rd cur)
  then show ?case by (simp add: system_chain_end)
next
  case (2 rd cur n c rest)
  from "2.prems"(1) obtain p where p: "rd n = Inr p" "read_overflow_payload p = Inr c"
    "chain rd (overflow_next p) rest" "cur = n" "n \<noteq> 0" by auto
  have "acc < remaining" "min (remaining - acc) (length c) = length c" "is_overflow p"
    using "2.prems"(2-4) p(1) by auto
  then show ?case
    using p "2.IH" [OF p(3), of "acc + length c" "bs @ c"] "2.prems"(2-4)
    by (subst system_chain.simps) (simp add: Let_def add.assoc)
qed

text \<open>The loop returns when no overflow page on the way is empty.\<close>

lemma system_chain_returns:
  assumes "\<forall>n p. rd n = Inr p \<longrightarrow> is_overflow p \<longrightarrow> read_overflow_payload p \<noteq> Inr []"
  shows "\<exists>r. system_chain rd remaining cur acc bs = Some r"
proof (induction "remaining - acc" arbitrary: cur acc bs rule: less_induct)
  case less
  show ?case
  proof (cases "cur \<noteq> 0 \<and> acc < remaining \<and> (\<exists>p payload. rd cur = Inr p \<and> is_overflow p \<and> read_overflow_payload p = Inr payload)")
    case True
    then obtain p payload where p: "rd cur = Inr p" "is_overflow p" "read_overflow_payload p = Inr payload" by blast
    then have "payload \<noteq> []" using assms by blast
    then have "remaining - (acc + min (remaining - acc) (length payload)) < remaining - acc"
      using True by (cases payload) auto
    from less [OF this] p True show ?thesis by (subst system_chain.simps) (simp add: Let_def)
  next
    case False
    then show ?thesis by (subst system_chain.simps) (auto split: sum.split)
  qed
qed

text \<open>An empty overflow page that is its own successor is visited forever.\<close>

lemma system_chain_spins:
  assumes "rd n = Inr p" "is_overflow p" "read_overflow_payload p = Inr []" "overflow_next p = n" "n \<noteq> 0" "acc < remaining"
  shows "system_chain rd remaining n acc bs = None"
proof -
  have "\<not> (rd' = rd \<and> rem' = remaining \<and> cur = n \<and> acc' = acc)" if "system_chain rd' rem' cur acc' bs' = Some r"
    for rd' rem' cur acc' bs' r
  proof (rule system_chain.raw_induct [where P = "\<lambda>rd' rem' cur acc' bs' r.
      \<not> (rd' = rd \<and> rem' = remaining \<and> cur = n \<and> acc' = acc)", OF _ that], rule notI, elim conjE, hypsubst_thin)
  qed (use assms in \<open>simp add: Let_def, blast\<close>)
  then show ?thesis by (cases "system_chain rd remaining n acc bs") blast+
qed

section \<open>Writing the pages\<close>

lemma build_overflow_page_header:
  assumes b: "build_overflow_page crc c nx = Inr p"
  shows "is_overflow p" "page_validate crc p = Inr ()"
proof -
  let ?b = "blit (new_overflow crc) 16 c"
  have ok: "page_ok ?b" "length c \<le> 4076" and p: "p = update_checksum crc (set_next_leaf (set_num_rows ?b (as_u16 (length c))) nx)"
    using b new_pages_ok(4) [of crc]
    by (auto simp: build_overflow_page_def must_def copy_at_def set_overflow_payload_len_def set_overflow_next_def
        Let_def page_ok_def split: if_splits)
  have h: "flags p = flags (new_overflow crc)" "magic p = magic (new_overflow crc)"
  proof -
    have fr: "sub_bytes ?b s e = sub_bytes (new_overflow crc) s e" if "e \<le> 16" for s e
      using that ok(2) new_pages_ok(4) [of crc] by (simp add: sub_bytes_blit_disjoint page_ok_def)
    have "flags ?b = flags (new_overflow crc)" "magic ?b = magic (new_overflow crc)"
      by (simp_all only: flags_def magic_def fr numeral_le_iff semiring_norm)
    then show "flags p = flags (new_overflow crc)" "magic p = magic (new_overflow crc)"
      using ok by (simp_all add: p)
  qed
  then show "is_overflow p" by (simp add: is_overflow_def)
  show "page_validate crc p = Inr ()"
    using h(2) ok by (simp add: page_validate_def) (simp add: p)
qed

lemma alloc_many_run:
  assumes "guard_next f + k < 2 ^ 32"
  shows "\<exists>f'. alloc_many k f = (Inr (map of_nat [guard_next f..<guard_next f + k]), f')
    \<and> guard_next f' = guard_next f + k \<and> grows crc f f'"
  using assms
proof (induction k arbitrary: f)
  case 0
  then show ?case by (simp add: grows_refl)
next
  case (Suc k)
  let ?n = "of_nat (guard_next f) :: u32"
  obtain f1 where f1: "allocate_page f = (Inr ?n, f1)"
    "guard_view crc f1 = (guard_view crc f)(?n := Inr page_default)" "guard_next f1 = Suc (guard_next f)"
    using allocate_page_run [of f crc] Suc.prems by auto
  have "unat ?n = guard_next f" using Suc.prems by simp
  then have g: "grows crc f f1" using f1 by (auto simp: grows_def)
  obtain f' where f': "alloc_many k f1 = (Inr (map of_nat [guard_next f1..<guard_next f1 + k]), f')"
    "guard_next f' = guard_next f1 + k" "grows crc f1 f'"
    using Suc.IH [of f1] Suc.prems f1(3) by auto
  have "[guard_next f..<guard_next f + Suc k] = guard_next f # [guard_next f1..<guard_next f1 + k]"
    using f1(3) by (simp add: upt_conv_Cons)
  then show ?case using f1(1,3) f' grows_trans [OF g f'(3)] by (simp add: sm_bind_Inr [where m = allocate_page] sm_bind_Inr [where m = "alloc_many k"])
qed

lemma build_chain_run:
  assumes "length cs = length ns" "0 \<notin> set ns" "\<forall>c \<in> set cs. length c \<le> OVERFLOW_PAYLOAD_MAX"
  shows "\<exists>ps. build_chain crc (zip cs ns) = Inr ps \<and> map fst ps = ns
    \<and> (\<forall>rd. (\<forall>(n, p) \<in> set ps. rd n = Inr p) \<longrightarrow> chain rd (hd (ns @ [0])) (zip ns cs)
        \<and> (\<forall>n \<in> set ns. \<forall>p. rd n = Inr p \<longrightarrow> is_overflow p))"
  using assms
proof (induction cs ns rule: list_induct2)
  case (Cons c cs n ns)
  let ?nx = "hd (ns @ [0])"
  obtain ps where ps: "build_chain crc (zip cs ns) = Inr ps" "map fst ps = ns"
    "\<And>rd. \<forall>(n, p) \<in> set ps. rd n = Inr p \<Longrightarrow> chain rd ?nx (zip ns cs) \<and> (\<forall>n \<in> set ns. \<forall>p. rd n = Inr p \<longrightarrow> is_overflow p)"
    using Cons by auto
  obtain p where p: "build_overflow_page crc c ?nx = Inr p" "read_overflow_payload p = Inr c" "overflow_next p = ?nx"
    using build_overflow_page_run [of c crc ?nx] Cons.prems(2) by auto
  have nx: "(case zip cs ns of [] \<Rightarrow> 0 | (_, m) # _ \<Rightarrow> m) = ?nx"
    using Cons.hyps by (cases cs; cases ns) simp_all
  have "chain rd n (zip (n # ns) (c # cs)) \<and> (\<forall>m \<in> set (n # ns). \<forall>q. rd m = Inr q \<longrightarrow> is_overflow q)"
    if "\<forall>(n, p) \<in> set ((n, p) # ps). rd n = Inr p" for rd
    using that ps(3) [of rd] p build_overflow_page_header(1) [OF p(1)] Cons.prems(1) by auto
  then show ?case using ps(1,2) p(1) by (simp add: nx Let_def)
qed simp

lemma system_trailer_run:
  assumes "page_ok p" "k \<le> 4294967295"
  shows "\<exists>q. system_trailer n k p = Inr q \<and> page_ok q
    \<and> sub_bytes q 16 4082 = sub_bytes p 16 4082 \<and> sub_bytes q 4082 4084 = OVERFLOW_MAGIC
    \<and> sub_bytes q 4084 4088 = u32_to_le n \<and> sub_bytes q 4088 4092 = u32_to_le (as_u32 k)"
proof -
  let ?p1 = "blit p 4082 OVERFLOW_MAGIC"
  let ?p2 = "blit ?p1 4084 (u32_to_le n)"
  let ?p3 = "blit ?p2 4088 (u32_to_le (as_u32 k))"
  have len: "length p = 4096" using assms(1) by (simp add: page_ok_def)
  have "system_trailer n k p = Inr ?p3"
    using assms(2) len by (simp add: system_trailer_def copy_at_def must_def Let_def)
  moreover have "page_ok ?p3" using len by (simp add: page_ok_def)
  ultimately show ?thesis
    using len by (intro exI [of _ ?p3]) (simp add: sub_bytes_blit_disjoint sub_bytes_blit_same)
qed

lemma new_system_trailer: "sub_bytes (new_system crc) s e = replicate (e - s) 0" if "16 \<le> s" "e \<le> 4092"
proof -
  have "sub_bytes (new_system crc) s e = sub_bytes page_default s e"
    using that by (simp add: new_system_def Let_def)
  then show ?thesis using that by (simp add: page_default_def sub_bytes_def)
qed

text \<open>The inline case leaves the trailer slot zeroed; the other one fills it.\<close>

lemma inline_page:
  assumes "length bs \<le> SYSTEM_INLINE_BUDGET"
  shows "\<exists>p. copy_at (new_system crc) PAGE_HEADER_SIZE bs = Inr p \<and> page_ok p
    \<and> sub_bytes p 16 4082 = bs @ replicate (SYSTEM_INLINE_BUDGET - length bs) 0 \<and> sub_bytes p 4082 4084 = [0, 0]"
proof -
  let ?p = "blit (new_system crc) 16 bs"
  have len: "length (new_system crc) = 4096" using new_pages_ok by (simp add: page_ok_def)
  have "sub_bytes ?p 16 4082 = sub_bytes ?p 16 (16 + length bs) @ sub_bytes ?p (16 + length bs) 4082"
    using assms take_add [of "length bs" "4066 - length bs" "drop 16 ?p"] by (simp add: sub_bytes_def add.commute)
  also have "\<dots> = bs @ replicate (SYSTEM_INLINE_BUDGET - length bs) 0"
    using assms len by (simp add: sub_bytes_blit_same sub_bytes_blit_disjoint new_system_trailer)
  finally have "sub_bytes ?p 16 4082 = bs @ replicate (SYSTEM_INLINE_BUDGET - length bs) 0" .
  moreover have "sub_bytes ?p 4082 4084 = [0, 0]"
    using assms len by (simp add: sub_bytes_blit_disjoint new_system_trailer numeral_eq_Suc)
  ultimately show ?thesis using assms len by (simp add: copy_at_def page_ok_def)
qed

lemma inline_roundtrip:
  assumes "list_all table_ok metas" "length metas < 65536"
    and "length (serialize_system_metas metas nid) \<le> SYSTEM_INLINE_BUDGET"
  shows "\<exists>p. serialize_system_page crc metas nid f = (Inr (p, []), f) \<and> page_ok p
    \<and> deserialize_system_page p rd = Some (Inr (map locked metas, nid))"
proof -
  let ?bs = "serialize_system_metas metas nid"
  obtain p where p: "copy_at (new_system crc) PAGE_HEADER_SIZE ?bs = Inr p" "page_ok p"
    "sub_bytes p 16 4082 = ?bs @ replicate (SYSTEM_INLINE_BUDGET - length ?bs) 0" "sub_bytes p 4082 4084 = [0, 0]"
    using inline_page [OF assms(3), of crc] by blast
  then show ?thesis
    using assms(3) deserialize_serialize [OF assms(1,2)]
    by (simp add: serialize_system_page_def deserialize_system_page_def Let_def)
qed

lemma chained_roundtrip:
  assumes "list_all table_ok metas" "length metas < 65536"
    and "SYSTEM_INLINE_BUDGET < length (serialize_system_metas metas nid)"
    and "length (serialize_system_metas metas nid) < 2 ^ 32" "0 < guard_next f"
    and "guard_next f + length (serialize_system_metas metas nid) div OVERFLOW_PAYLOAD_MAX + 1 < 2 ^ 32"
  shows "\<exists>p pages f'. serialize_system_page crc metas nid f = (Inr (p, pages), f') \<and> page_ok p
    \<and> (\<forall>(n, q) \<in> set pages. guard_next f \<le> unat n \<and> unat n < guard_next f') \<and> grows crc f f' \<and> distinct (map fst pages)
    \<and> guard_next f' \<le> guard_next f + length (serialize_system_metas metas nid) div OVERFLOW_PAYLOAD_MAX + 1
    \<and> (\<forall>rd. (\<forall>(n, q) \<in> set pages. rd n = Inr q) \<longrightarrow>
         deserialize_system_page p rd = Some (Inr (map locked metas, nid)))"
proof -
  define bs where "bs = serialize_system_metas metas nid"
  define ov where "ov = drop SYSTEM_INLINE_BUDGET bs"
  define cs where "cs = chunks OVERFLOW_PAYLOAD_MAX ov"
  define ns where "ns = (map of_nat [guard_next f..<guard_next f + length cs] :: u32 list)"
  note assms = assms [folded bs_def]
  have o: "ov \<noteq> []" "length ov \<le> 4294967295" using assms(3,4) by (simp_all add: ov_def)
  have "length cs \<le> length ov div OVERFLOW_PAYLOAD_MAX + 1" unfolding cs_def by (rule length_chunks) simp
  moreover have "length ov div OVERFLOW_PAYLOAD_MAX \<le> length bs div OVERFLOW_PAYLOAD_MAX" by (rule div_le_mono) (simp add: ov_def)
  ultimately have fit: "guard_next f + length cs < 2 ^ 32" and few: "length cs \<le> length bs div OVERFLOW_PAYLOAD_MAX + 1"
    using assms(6) by simp_all
  have u: "unat (of_nat i :: u32) = i" if "i < guard_next f + length cs" for i
    using that fit by (simp add: take_bit_nat_eq_self unsigned_of_nat)
  have ns: "0 \<notin> set ns" "distinct ns" "\<forall>n \<in> set ns. guard_next f \<le> unat n \<and> unat n < guard_next f + length cs"
    unfolding ns_def using u assms(5) by (auto simp: distinct_map inj_on_def simp del: unat_of_nat dest!: arg_cong [where f = unat])
  have len: "length cs = length ns" by (simp add: ns_def)
  obtain f' where f': "alloc_many (length cs) f = (Inr ns, f')" "guard_next f' = guard_next f + length cs" "grows crc f f'"
    using alloc_many_run [OF fit] unfolding ns_def by blast
  have small: "\<forall>c \<in> set cs. length c \<le> OVERFLOW_PAYLOAD_MAX" unfolding cs_def using chunks_bounds by blast
  obtain ps where ps: "build_chain crc (zip cs ns) = Inr ps" "map fst ps = ns"
    "\<And>rd. \<forall>(n, p) \<in> set ps. rd n = Inr p \<Longrightarrow> chain rd (hd (ns @ [0])) (zip ns cs)
        \<and> (\<forall>n \<in> set ns. \<forall>p. rd n = Inr p \<longrightarrow> is_overflow p)"
    using build_chain_run [OF len ns(1) small] by blast
  have "cs \<noteq> []" unfolding cs_def using o(1) by (subst chunks.simps) simp
  then obtain n0 rest where n0: "ns = n0 # rest" using len by (cases ns) simp_all
  obtain p where p: "copy_at (new_system crc) PAGE_HEADER_SIZE (take SYSTEM_INLINE_BUDGET bs) = Inr p" "page_ok p"
    "sub_bytes p 16 4082 = take SYSTEM_INLINE_BUDGET bs"
    using inline_page [of "take SYSTEM_INLINE_BUDGET bs" crc] assms(3) by auto
  obtain q where q: "system_trailer n0 (length ov) p = Inr q" "page_ok q" "sub_bytes q 16 4082 = take SYSTEM_INLINE_BUDGET bs"
    "sub_bytes q 4082 4084 = OVERFLOW_MAGIC" "sub_bytes q 4084 4088 = u32_to_le n0"
    "sub_bytes q 4088 4092 = u32_to_le (as_u32 (length ov))"
    using system_trailer_run [OF p(2) o(2), of n0] p(3) by auto
  have al: "sm_bind (alloc_many (length cs)) g f = g ns f'" for g :: "u32 list \<Rightarrow> (page \<times> (u32 \<times> page) list) guarded"
    using f'(1) by (simp add: sm_bind_def)
  have wr: "serialize_system_page crc metas nid f = (Inr (update_checksum crc q, ps), f')"
    using assms(3) ps(1) p(1) q(1)
    by (simp add: serialize_system_page_def Let_def al flip: bs_def ov_def cs_def) (simp add: n0)
  have rl: "unat (as_u32 (length ov)) = length ov" using o(2) by simp
  have rdb: "deserialize_system_page (update_checksum crc q) rd = Some (Inr (map locked metas, nid))"
    if rd: "\<forall>(n, p) \<in> set ps. rd n = Inr p" for rd
  proof -
    have data: "map snd (zip ns cs) = cs" using len by simp
    have join: "concat cs = ov" by (simp add: cs_def concat_chunks)
    have "system_chain rd (length ov) n0 0 (take SYSTEM_INLINE_BUDGET bs)
        = Some (Inr (length ov, take SYSTEM_INLINE_BUDGET bs @ concat (map snd (zip ns cs))))"
    proof (rule system_chain_chain)
      show "chain rd n0 (zip ns cs)" using ps(3) [OF rd] n0 by simp
      show "0 + length (concat (map snd (zip ns cs))) = length ov" unfolding data by (simp add: join)
      show "\<forall>c \<in> set (zip ns cs). snd c \<noteq> []" unfolding cs_def using chunks_bounds by (fastforce dest: set_zip_rightD)
      show "\<forall>c \<in> set (zip ns cs). \<forall>p. rd (fst c) = Inr p \<longrightarrow> is_overflow p"
        using ps(3) [OF rd] by (fastforce dest: set_zip_leftD)
    qed
    then have "system_chain rd (length ov) n0 0 (take SYSTEM_INLINE_BUDGET bs) = Some (Inr (length ov, bs))"
      unfolding data join by (simp add: ov_def)
    moreover have "n0 \<noteq> 0" using ns(1) n0 by auto
    ultimately show ?thesis
      using q rl deserialize_serialize [OF assms(1,2), of nid "[]", folded bs_def]
      by (simp add: deserialize_system_page_def Let_def)
  qed
  have "distinct (map fst ps)" "\<forall>(n, p) \<in> set ps. guard_next f \<le> unat n \<and> unat n < guard_next f'"
    using ps(2) ns(2,3) f'(2) by (auto simp flip: ps(2))
  then show ?thesis using wr rdb q(2) f'(2,3) few
    by (intro exI [of _ "update_checksum crc q"] exI [of _ ps] exI [of _ f']) (auto simp: bs_def)
qed

section \<open>Properties\<close>

text \<open>A table with two columns, one dropped with a default, and a unique index on both.\<close>

definition sample_table :: table_meta where
  "sample_table =
     (table_meta_new [117] 3 [column_not_null (column_new [97] TInteger),
        (column_default (column_new [98] TText) (Text [120]))\<lparr>cd_dropped := True\<rparr>] 9)
     \<lparr>tm_row_count := 5, tm_next_rowid := 8,
      tm_indexes := [\<lparr>im_name = [105], im_columns = [[97], [98]], im_unique = True, im_root_page = 4\<rparr>]\<rparr>"

lemma sample_table_ok: "table_ok sample_table"
proof -
  have "columns_ok (tm_columns sample_table)"
    by (simp add: columns_ok_def sample_table_def table_meta_new_def column_new_def column_not_null_def column_default_def)
  then have "meta_ok (table_meta_new [117] 3 (tm_columns sample_table) 9)" by (rule table_meta_new_ok)
  then have "meta_ok sample_table"
    by (simp add: meta_ok_def names_match_def sample_table_def table_meta_new_def)
  then show ?thesis
    by (simp add: table_ok_def sample_table_def table_meta_new_def column_ok_def index_ok_def str_ok_def column_new_def
        column_not_null_def column_default_def)
qed

text \<open>C39. The registry survives being written: whether it fits into page 0 or needs a chain of overflow
  pages, a reader that sees the written pages gets every table back, all fields included but the
  cipher, and the next table id. Only freshly allocated pages are used for the chain.\<close>

theorem system_page_roundtrip:
  assumes "list_all table_ok metas" "length metas < 65536"
    and "length (serialize_system_metas metas nid) < 2 ^ 32" "0 < guard_next f"
    and "guard_next f + length (serialize_system_metas metas nid) div OVERFLOW_PAYLOAD_MAX + 1 < 2 ^ 32"
  shows "\<exists>p pages f'. serialize_system_page crc metas nid f = (Inr (p, pages), f')
    \<and> (\<forall>(n, q) \<in> set pages. guard_next f \<le> unat n) \<and> grows crc f f'
    \<and> (\<forall>rd. (\<forall>(n, q) \<in> set pages. rd n = Inr q) \<longrightarrow>
         deserialize_system_page p rd = Some (Inr (map locked metas, nid)))"
proof (cases "length (serialize_system_metas metas nid) \<le> SYSTEM_INLINE_BUDGET")
  case True
  obtain p where "serialize_system_page crc metas nid f = (Inr (p, []), f)"
    using inline_roundtrip [OF assms(1,2) True] by blast
  moreover have "deserialize_system_page p rd = Some (Inr (map locked metas, nid))" for rd
    using inline_roundtrip [OF assms(1,2) True, of crc f rd] calculation by auto
  ultimately show ?thesis by (intro exI [of _ p] exI [of _ "[]"] exI [of _ f]) (simp add: grows_refl)
next
  case False
  then have "SYSTEM_INLINE_BUDGET < length (serialize_system_metas metas nid)" by simp
  from chained_roundtrip [OF assms(1,2) this assms(3-5), of crc] show ?thesis by (elim exE conjE) (intro exI conjI, assumption, blast+)
qed

lemma system_page_roundtrip_witness:
  "\<exists>p pages f'. serialize_system_page (\<lambda>_. 0) [sample_table] 4 (snd (allocate_page (page_file_open []))) = (Inr (p, pages), f')
    \<and> (\<forall>rd. (\<forall>(n, q) \<in> set pages. rd n = Inr q) \<longrightarrow>
         deserialize_system_page p rd = Some (Inr ([locked sample_table], 4)))"
proof -
  have "guard_next (snd (allocate_page (page_file_open []))) = 1"
    by (simp add: guard_next_def page_file_open_def allocate_page_def Let_def)
  moreover have "length (serialize_system_metas [sample_table] 4) < 1000"
    by (simp add: serialize_system_metas_def put_table_def put_column_def put_index_def put_str_def sample_table_def
        table_meta_new_def column_new_def column_not_null_def column_default_def Let_def)
  moreover have "length (serialize_system_metas [sample_table] 4) div OVERFLOW_PAYLOAD_MAX < 1000"
    using calculation(2) div_le_dividend le_less_trans by blast
  ultimately have "\<exists>p pages f'. serialize_system_page (\<lambda>_. 0) [sample_table] 4 (snd (allocate_page (page_file_open []))) = (Inr (p, pages), f')
    \<and> (\<forall>(n, q) \<in> set pages. guard_next (snd (allocate_page (page_file_open []))) \<le> unat n)
    \<and> grows (\<lambda>_. 0) (snd (allocate_page (page_file_open []))) f'
    \<and> (\<forall>rd. (\<forall>(n, q) \<in> set pages. rd n = Inr q) \<longrightarrow>
         deserialize_system_page p rd = Some (Inr (map locked [sample_table], 4)))"
    by (intro system_page_roundtrip) (use sample_table_ok in simp_all)
  then show ?thesis unfolding list.map by blast
qed

text \<open>Loading the registry returns when no overflow page is empty: the chain walk then consumes at
  least one byte per page, whatever the pages and their links are.\<close>

theorem system_page_load_returns:
  assumes "\<forall>n p. rd n = Inr p \<longrightarrow> is_overflow p \<longrightarrow> read_overflow_payload p \<noteq> Inr []"
  shows "\<exists>r. deserialize_system_page p rd = Some r"
  using system_chain_returns [OF assms] by (simp add: deserialize_system_page_def Let_def)

lemma system_page_load_returns_witness:
  "\<exists>r. deserialize_system_page page_default (\<lambda>n. build_overflow_page (\<lambda>_. 0) [1] n) = Some r"
proof (rule system_page_load_returns, intro allI impI)
  fix n p assume "build_overflow_page (\<lambda>_. 0) [1] n = Inr p"
  then show "read_overflow_payload p \<noteq> Inr []"
    using build_overflow_page_run [of "[1]" "\<lambda>_. 0" n] by auto
qed

text \<open>C40. Without that the walk need not return: with a trailer that points to an empty overflow page
  linked to itself, a page with a valid checksum, loading the registry never ends. The row reader
  bounds the same walk and reports a cycle.\<close>

theorem system_page_load_spins:
  assumes "0 < k" "k \<le> 4294967295" "n \<noteq> 0"
  shows "\<exists>p q. system_trailer n k page_default = Inr p \<and> build_overflow_page crc [] n = Inr q \<and> page_validate crc q = Inr ()
    \<and> deserialize_system_page p (\<lambda>m. if m = n then Inr q else Inl (Fail (Corruption ''page out of range''))) = None"
proof -
  let ?rd = "\<lambda>q m. if m = n then Inr q else Inl (Fail (Corruption ''page out of range''))"
  obtain p where p: "system_trailer n k page_default = Inr p" "sub_bytes p 4082 4084 = OVERFLOW_MAGIC"
    "sub_bytes p 4084 4088 = u32_to_le n" "sub_bytes p 4088 4092 = u32_to_le (as_u32 k)"
    using system_trailer_run [OF page_default_ok assms(2), of n] by auto
  obtain q where q: "build_overflow_page crc [] n = Inr q" "page_ok q" "read_overflow_payload q = Inr []" "overflow_next q = n"
    using build_overflow_page_run [of "[]" crc n] by auto
  have "unat (as_u32 k) = k" using assms(2) by simp
  moreover have "system_chain (?rd q) k n 0 (sub_bytes p 16 4082) = None"
    by (rule system_chain_spins [where p = q]) (use q build_overflow_page_header(1) [OF q(1)] assms in simp_all)
  ultimately have "deserialize_system_page p (?rd q) = None"
    using p assms(1,3) by (simp add: deserialize_system_page_def Let_def)
  moreover have "page_validate crc q = Inr ()"
    by (rule build_overflow_page_header(2) [OF q(1)])
  ultimately show ?thesis using p(1) q(1) by blast
qed

lemma system_page_load_spins_witness:
  "\<exists>p q. system_trailer 7 100 page_default = Inr p \<and> build_overflow_page (\<lambda>_. 0) [] 7 = Inr q
    \<and> deserialize_system_page p (\<lambda>m. if m = 7 then Inr q else Inl (Fail (Corruption ''page out of range''))) = None"
  using system_page_load_spins [of 100 7 "\<lambda>_. 0"] by auto

end
