(* ===== verification/Wal_Log.thy ===== *)
theory Wal_Log
  imports Page_File
begin

text \<open>
  \<^verbatim>\<open>src/wal.rs\<close>: the write-ahead log of page images. The log file is a byte string with a
  16-byte header (magic, version, entry count, reserved) and entries of 4116 bytes (sequence number,
  table, page number, page image, checksum). A step relation closes a fresh log under appending,
  truncating, reopening, and a crash in the middle of an append; in every reachable state the entries
  read back are those appended since the last truncation.
\<close>

abbreviation WAL_ENTRY_SIZE :: nat where "WAL_ENTRY_SIZE \<equiv> 4116"
abbreviation WAL_HEADER_SIZE :: nat where "WAL_HEADER_SIZE \<equiv> 16"
abbreviation WAL_MAGIC :: u32 where "WAL_MAGIC \<equiv> 0xB00D0A01"

record wal =
  wal_file :: bytes
  wal_next_sequence :: u64
  wal_entry_count :: u32

record wal_entry =
  we_sequence :: u64
  we_table_id :: u32
  we_page_no :: u32
  we_page_data :: page

section \<open>Operations\<close>

text \<open>\<^verbatim>\<open>seek\<close> and \<^verbatim>\<open>read_exact\<close>.\<close>

definition read_exact_at :: "bytes \<Rightarrow> nat \<Rightarrow> nat \<Rightarrow> bytes res" where
  "read_exact_at f off n =
     (if off + n \<le> length f then Inr (sub_bytes f off (off + n))
      else Inl (Fail (Io ''failed to fill whole buffer'')))"

definition wal_header :: bytes where
  "wal_header = blit (blit (blit (replicate WAL_HEADER_SIZE 0) 0 (u32_to_le WAL_MAGIC)) 4 (u32_to_le 1)) 8 (u32_to_le 0)"

definition write_header :: "wal \<Rightarrow> wal" where
  "write_header w = w\<lparr>wal_file := disk_write (wal_file w) 0 wal_header\<rparr>"

definition update_entry_count :: "wal \<Rightarrow> wal" where
  "update_entry_count w = w\<lparr>wal_file := disk_write (wal_file w) 8 (u32_to_le (wal_entry_count w))\<rparr>"

definition wal_open :: "bytes \<Rightarrow> wal res" where
  "wal_open f =
     (if length f = 0
      then Inr (write_header \<lparr>wal_file = f, wal_next_sequence = 1, wal_entry_count = 0\<rparr>)
      else
        res_bind (read_exact_at f 0 WAL_HEADER_SIZE) (\<lambda>header.
        let magic = u32_from_le (sub_bytes header 0 4) in
        res_bind (ensure (magic = WAL_MAGIC) (Corruption ''bad WAL magic'')) (\<lambda>_.
        let entry_count = u32_from_le (sub_bytes header 8 12);
            next_seq = ucast entry_count + 1
        in Inr \<lparr>wal_file = f, wal_next_sequence = next_seq, wal_entry_count = entry_count\<rparr>)))"

text \<open>The bytes of an entry, with the checksum over the first four fields.\<close>

definition entry_body :: "u64 \<Rightarrow> u32 \<Rightarrow> u32 \<Rightarrow> page \<Rightarrow> bytes" where
  "entry_body seq table_id page_no data = u64_to_le seq @ u32_to_le table_id @ u32_to_le page_no @ data"

definition entry_bytes :: "(bytes \<Rightarrow> u32) \<Rightarrow> u64 \<Rightarrow> u32 \<Rightarrow> u32 \<Rightarrow> page \<Rightarrow> bytes" where
  "entry_bytes crc seq table_id page_no data =
     (let entry = entry_body seq table_id page_no data in entry @ u32_to_le (crc entry))"

definition entry_offset :: "u32 \<Rightarrow> nat" where
  "entry_offset i = WAL_HEADER_SIZE + unat i * WAL_ENTRY_SIZE"

definition append_page_image :: "(bytes \<Rightarrow> u32) \<Rightarrow> u32 \<Rightarrow> u32 \<Rightarrow> page \<Rightarrow> (wal, u64) sm" where
  "append_page_image crc table_id page_no data w =
     (if wal_entry_count w = - 1 then (Inl (Fail (Corruption ''WAL entry count overflow'')), w)
      else
        let seq = wal_next_sequence w in
        if seq = - 1 then (Inl Panicked, w)
        else
          let w = w\<lparr>wal_next_sequence := seq + 1\<rparr>;
              entry = entry_bytes crc seq table_id page_no data;
              w = w\<lparr>wal_file := disk_write (wal_file w) (entry_offset (wal_entry_count w)) entry\<rparr>;
              w = w\<lparr>wal_entry_count := wal_entry_count w + 1\<rparr>
          in (Inr seq, update_entry_count w))"

definition read_entry :: "(bytes \<Rightarrow> u32) \<Rightarrow> wal \<Rightarrow> u32 \<Rightarrow> wal_entry res" where
  "read_entry crc w i =
     res_bind (read_exact_at (wal_file w) (entry_offset i) WAL_ENTRY_SIZE) (\<lambda>buf.
     let seq = u64_from_le (sub_bytes buf 0 8);
         table_id = u32_from_le (sub_bytes buf 8 12);
         page_no = u32_from_le (sub_bytes buf 12 16);
         data = sub_bytes buf 16 (16 + PAGE_SIZE);
         stored = u32_from_le (drop (16 + PAGE_SIZE) buf);
         computed = crc (take (16 + PAGE_SIZE) buf)
     in res_bind (ensure (stored = computed) (Corruption ''WAL entry checksum mismatch'')) (\<lambda>_.
        Inr \<lparr>we_sequence = seq, we_table_id = table_id, we_page_no = page_no, we_page_data = data\<rparr>))"

definition read_entries :: "(bytes \<Rightarrow> u32) \<Rightarrow> wal \<Rightarrow> wal_entry list res" where
  "read_entries crc w = res_map (read_entry crc w) (map as_u32 [0..<unat (wal_entry_count w)])"

text \<open>\<^verbatim>\<open>set_len\<close> cuts the file or pads it with zeros.\<close>

definition set_len :: "bytes \<Rightarrow> nat \<Rightarrow> bytes" where
  "set_len f n = take n (f @ replicate (n - length f) 0)"

definition truncate :: "wal \<Rightarrow> wal" where
  "truncate w =
     update_entry_count
       (w\<lparr>wal_file := set_len (wal_file w) WAL_HEADER_SIZE, wal_entry_count := 0, wal_next_sequence := 1\<rparr>)"

definition current_sequence :: "wal \<Rightarrow> u64 res" where
  "current_sequence w = res_bind (must (wal_next_sequence w \<noteq> 0)) (\<lambda>_. Inr (wal_next_sequence w - 1))"

section \<open>The contents of a log\<close>

type_synonym page_image = "u32 \<times> u32 \<times> page"

definition image_bytes :: "(bytes \<Rightarrow> u32) \<Rightarrow> nat \<Rightarrow> page_image \<Rightarrow> bytes" where
  "image_bytes crc i = (\<lambda>(t, n, p). entry_bytes crc (of_nat (Suc i)) t n p)"

definition header_bytes :: "nat \<Rightarrow> bytes" where
  "header_bytes n = u32_to_le WAL_MAGIC @ u32_to_le 1 @ u32_to_le (of_nat n) @ [0, 0, 0, 0]"

definition log_bytes :: "(bytes \<Rightarrow> u32) \<Rightarrow> page_image list \<Rightarrow> bytes" where
  "log_bytes crc ims = concat (map (\<lambda>(i, im). image_bytes crc i im) (enumerate 0 ims))"

definition images_ok :: "page_image list \<Rightarrow> bool" where
  "images_ok ims \<longleftrightarrow> (\<forall>(t, n, p) \<in> set ims. page_ok p)"

definition holds :: "(bytes \<Rightarrow> u32) \<Rightarrow> wal \<Rightarrow> page_image list \<Rightarrow> bool" where
  "holds crc w ims \<longleftrightarrow> images_ok ims \<and> length ims < 2 ^ 32
     \<and> wal_entry_count w = of_nat (length ims) \<and> wal_next_sequence w = of_nat (Suc (length ims))
     \<and> (\<exists>junk. wal_file w = header_bytes (length ims) @ log_bytes crc ims @ junk)"

definition wal_entry_of :: "nat \<Rightarrow> page_image \<Rightarrow> wal_entry" where
  "wal_entry_of i = (\<lambda>(t, n, p). \<lparr>we_sequence = of_nat (Suc i), we_table_id = t, we_page_no = n, we_page_data = p\<rparr>)"

definition log_entries :: "page_image list \<Rightarrow> wal_entry list" where
  "log_entries ims = map (\<lambda>(i, im). wal_entry_of i im) (enumerate 0 ims)"

lemma length_image_bytes: "page_ok (snd (snd im)) \<Longrightarrow> length (image_bytes crc i im) = WAL_ENTRY_SIZE"
  by (cases im) (simp add: image_bytes_def entry_bytes_def entry_body_def Let_def page_ok_def)

lemma length_header_bytes [simp]: "length (header_bytes n) = 16"
  by (simp add: header_bytes_def)

lemma log_bytes_snoc: "log_bytes crc (ims @ [im]) = log_bytes crc ims @ image_bytes crc (length ims) im"
  by (simp add: log_bytes_def enumerate_append_eq)

lemma length_log_bytes: "images_ok ims \<Longrightarrow> length (log_bytes crc ims) = WAL_ENTRY_SIZE * length ims"
proof (induction ims rule: rev_induct)
  case (snoc im ims)
  then show ?case by (simp add: log_bytes_snoc images_ok_def length_image_bytes split: prod.splits)
qed (simp add: log_bytes_def)

lemma log_bytes_nth:
  assumes "images_ok ims" "i < length ims"
  shows "sub_bytes (log_bytes crc ims) (i * WAL_ENTRY_SIZE) (i * WAL_ENTRY_SIZE + WAL_ENTRY_SIZE) = image_bytes crc i (ims ! i)"
proof -
  have split: "ims = take i ims @ ims ! i # drop (Suc i) ims" using assms(2) by (rule id_take_nth_drop)
  have "log_bytes crc ims = log_bytes crc (take i ims) @ image_bytes crc i (ims ! i)
      @ concat (map (\<lambda>(i, im). image_bytes crc i im) (enumerate (Suc i) (drop (Suc i) ims)))"
    using assms(2) by (subst split) (simp add: log_bytes_def enumerate_append_eq)
  moreover have "images_ok (take i ims)" using assms(1) by (auto simp: images_ok_def dest: in_set_takeD)
  then have "length (log_bytes crc (take i ims)) = i * WAL_ENTRY_SIZE" using assms(2) by (simp add: length_log_bytes)
  moreover have "length (image_bytes crc i (ims ! i)) = WAL_ENTRY_SIZE"
    using assms by (intro length_image_bytes) (auto simp: images_ok_def split_beta)
  ultimately show ?thesis by (simp add: sub_bytes_def)
qed

section \<open>Each operation on a log that holds given images\<close>

lemma disk_write_past:
  assumes "length a = off"
  shows "disk_write (a @ junk) off bs = a @ bs @ drop (length bs) junk"
  using assms by (simp add: disk_write_def blit_def)

lemma disk_write_count: "disk_write (header_bytes n @ r) 8 (u32_to_le (of_nat m)) = header_bytes m @ r"
  by (simp add: disk_write_def blit_def header_bytes_def)

lemma holds_file:
  assumes "holds crc w ims"
  obtains junk where "wal_file w = (header_bytes (length ims) @ log_bytes crc ims) @ junk"
    "length (header_bytes (length ims) @ log_bytes crc ims) = entry_offset (wal_entry_count w)"
proof -
  have "unat (of_nat (length ims) :: u32) = length ims"
    using assms by (simp add: holds_def take_bit_nat_eq_self unsigned_of_nat)
  then have "length (header_bytes (length ims) @ log_bytes crc ims) = entry_offset (wal_entry_count w)"
    using assms by (simp add: holds_def entry_offset_def length_log_bytes)
  with that assms show ?thesis unfolding holds_def by (metis append_assoc)
qed

lemma read_entry_holds:
  assumes "holds crc w ims" "i < length ims"
  shows "read_entry crc w (of_nat i) = Inr (wal_entry_of i (ims ! i))"
proof -
  obtain junk where f: "wal_file w = header_bytes (length ims) @ log_bytes crc ims @ junk" and ok: "images_ok ims"
    and lt: "length ims < 2 ^ 32"
    using assms(1) by (auto simp: holds_def)
  have off: "entry_offset (of_nat i) = 16 + i * WAL_ENTRY_SIZE"
    using lt assms(2) by (simp add: entry_offset_def take_bit_nat_eq_self unsigned_of_nat)
  have fit: "i * WAL_ENTRY_SIZE + WAL_ENTRY_SIZE \<le> length (log_bytes crc ims)"
    using mult_le_mono1 [OF Suc_leI [OF assms(2)], of WAL_ENTRY_SIZE] by (simp add: length_log_bytes [OF ok])
  have "sub_bytes (wal_file w) (16 + i * WAL_ENTRY_SIZE) (16 + i * WAL_ENTRY_SIZE + WAL_ENTRY_SIZE)
      = sub_bytes (log_bytes crc ims) (i * WAL_ENTRY_SIZE) (i * WAL_ENTRY_SIZE + WAL_ENTRY_SIZE)"
    using fit by (simp add: f sub_bytes_append_right sub_bytes_append_left add.commute)
  also have "\<dots> = image_bytes crc i (ims ! i)" by (rule log_bytes_nth [OF ok assms(2)])
  finally have "read_exact_at (wal_file w) (entry_offset (of_nat i)) WAL_ENTRY_SIZE = Inr (image_bytes crc i (ims ! i))"
    using fit by (simp add: read_exact_at_def off f)
  moreover obtain t n p where im: "ims ! i = (t, n, p)" "page_ok p"
    using ok assms(2) by (cases "ims ! i") (auto simp: images_ok_def dest!: nth_mem)
  ultimately show ?thesis
    by (simp add: read_entry_def image_bytes_def entry_bytes_def entry_body_def wal_entry_of_def Let_def
        sub_bytes_def page_ok_def)
qed

lemma read_entries_holds:
  assumes "holds crc w ims"
  shows "read_entries crc w = Inr (log_entries ims)"
proof -
  have index: "i mod 4294967296 = i" if "i < length ims" for i
    using that assms by (simp add: holds_def)
  have n: "unat (wal_entry_count w) = length ims"
    using assms by (simp add: holds_def take_bit_nat_eq_self unsigned_of_nat)
  have "read_entries crc w = Inr (map (\<lambda>i. wal_entry_of i (ims ! i)) [0..<length ims])"
    using read_entry_holds [OF assms] unfolding read_entries_def n
    by (subst res_map_Inr [where g = "\<lambda>i. wal_entry_of (unat i) (ims ! unat i)"]) (use assms in \<open>auto simp: index\<close>)
  also have "map (\<lambda>i. wal_entry_of i (ims ! i)) [0..<length ims] = log_entries ims"
    by (rule nth_equalityI) (simp_all add: log_entries_def nth_enumerate_eq)
  finally show ?thesis .
qed

lemma minus_one: "unat (- 1 :: u32) = 4294967295" "unat (- 1 :: u64) = 18446744073709551615"
  by (simp_all add: unsigned_minus_1_eq_mask mask_eq_exp_minus_1)

lemma append_holds:
  assumes "holds crc w ims" "page_ok p" "Suc (length ims) < 2 ^ 32"
  shows "\<exists>w'. append_page_image crc t n p w = (Inr (of_nat (Suc (length ims))), w') \<and> holds crc w' (ims @ [(t, n, p)])"
proof -
  obtain junk where f: "wal_file w = (header_bytes (length ims) @ log_bytes crc ims) @ junk"
    "length (header_bytes (length ims) @ log_bytes crc ims) = entry_offset (wal_entry_count w)"
    using holds_file [OF assms(1)] .
  have c: "wal_entry_count w = of_nat (length ims)" "wal_next_sequence w = of_nat (Suc (length ims))" "images_ok ims"
    using assms(1) by (auto simp: holds_def)
  have "unat (wal_entry_count w) = length ims" "unat (wal_next_sequence w) = Suc (length ims)"
    using assms(3) by (simp_all only: c unat_of_nat) (simp_all add: take_bit_nat_eq_self flip: take_bit_eq_mod)
  then have ne: "wal_entry_count w \<noteq> - 1" "wal_next_sequence w \<noteq> - 1"
    using assms(3) minus_one by auto
  let ?e = "entry_bytes crc (wal_next_sequence w) t n p"
  have e: "?e = image_bytes crc (length ims) (t, n, p)" by (simp add: image_bytes_def c(2))
  let ?w = "w\<lparr>wal_next_sequence := of_nat (Suc (Suc (length ims))),
      wal_file := header_bytes (Suc (length ims)) @ log_bytes crc (ims @ [(t, n, p)]) @ drop (length ?e) junk,
      wal_entry_count := of_nat (Suc (length ims))\<rparr>"
  have "disk_write (wal_file w) (entry_offset (wal_entry_count w)) ?e =
      header_bytes (length ims) @ log_bytes crc (ims @ [(t, n, p)]) @ drop (length ?e) junk"
    unfolding f(1) disk_write_past [OF f(2)] by (simp add: log_bytes_snoc e)
  then have "append_page_image crc t n p w = (Inr (of_nat (Suc (length ims))), ?w)"
    using ne disk_write_count [of "length ims" _ "Suc (length ims)"]
    by (simp add: append_page_image_def update_entry_count_def Let_def c add.commute)
  moreover have "holds crc ?w (ims @ [(t, n, p)])"
    using assms c(3) by (auto simp: holds_def images_ok_def)
  ultimately show ?thesis by blast
qed

lemma open_header:
  assumes "n < 2 ^ 32"
  shows "wal_open (header_bytes n @ r) = Inr \<lparr>wal_file = header_bytes n @ r,
    wal_next_sequence = of_nat (Suc n), wal_entry_count = of_nat n\<rparr>"
proof -
  have "(ucast (of_nat n :: u32) :: u64) = of_nat n"
    using assms by (simp add: word_unat_eq_iff unsigned_ucast_eq take_bit_nat_eq_self unsigned_of_nat)
  then show ?thesis
    by (simp add: wal_open_def read_exact_at_def Let_def header_bytes_def sub_bytes_def)
qed

lemma reopen_holds: "holds crc w ims \<Longrightarrow> wal_open (wal_file w) = Inr w"
  by (cases w) (auto simp: holds_def open_header)

lemma crash_holds:
  assumes "holds crc w ims"
  shows "\<exists>w'. wal_open (disk_write (wal_file w) (entry_offset (wal_entry_count w)) torn) = Inr w' \<and> holds crc w' ims"
proof -
  obtain junk where f: "wal_file w = (header_bytes (length ims) @ log_bytes crc ims) @ junk"
    "length (header_bytes (length ims) @ log_bytes crc ims) = entry_offset (wal_entry_count w)"
    using holds_file [OF assms] .
  have "wal_open (disk_write (wal_file w) (entry_offset (wal_entry_count w)) torn) =
      Inr \<lparr>wal_file = header_bytes (length ims) @ log_bytes crc ims @ torn @ drop (length torn) junk,
        wal_next_sequence = of_nat (Suc (length ims)), wal_entry_count = of_nat (length ims)\<rparr>"
    using open_header [of "length ims"] assms unfolding f(1) disk_write_past [OF f(2)] by (simp add: holds_def)
  then show ?thesis using assms by (auto simp: holds_def)
qed

lemma truncate_holds:
  assumes "holds crc w ims"
  shows "holds crc (truncate w) []"
proof -
  have "\<exists>junk. wal_file w = header_bytes (length ims) @ junk" using assms by (auto simp: holds_def)
  then have "set_len (wal_file w) 16 = header_bytes (length ims)" by (auto simp: set_len_def)
  then show ?thesis using disk_write_count [of "length ims" "[]" 0]
    by (simp add: holds_def truncate_def update_entry_count_def images_ok_def log_bytes_def)
qed

lemma wal_header_eq: "wal_header = header_bytes 0"
proof -
  have "replicate 16 0 = [0, 0, 0, 0, 0, 0, 0, 0, 0, 0, 0, 0, 0, 0, 0, 0 :: u8]" by (simp add: numeral_eq_Suc)
  then show ?thesis by (simp add: wal_header_def header_bytes_def blit_def)
qed

lemma fresh_holds: "\<exists>w. wal_open [] = Inr w \<and> holds crc w []"
  by (simp add: wal_open_def write_header_def holds_def images_ok_def log_bytes_def wal_header_eq
      disk_write_def blit_def)

section \<open>Reachable logs\<close>

text \<open>
  One operation on a log together with the images appended since the last truncation. A crash
  leaves any prefix of the new entry's bytes in the file, before the entry count is written.
\<close>

inductive wal_step :: "(bytes \<Rightarrow> u32) \<Rightarrow> wal \<times> page_image list \<Rightarrow> wal \<times> page_image list \<Rightarrow> bool"
  for crc where
  Append: "page_ok p \<Longrightarrow> append_page_image crc t n p w = (Inr seq, w') \<Longrightarrow> wal_step crc (w, ims) (w', ims @ [(t, n, p)])"
| Refused: "append_page_image crc t n p w = (Inl e, w') \<Longrightarrow> wal_step crc (w, ims) (w', ims)"
| Truncate: "wal_step crc (w, ims) (truncate w, [])"
| Reopen: "wal_open (wal_file w) = Inr w' \<Longrightarrow> wal_step crc (w, ims) (w', ims)"
| Crash: "wal_open (disk_write (wal_file w) (entry_offset (wal_entry_count w))
      (take k (entry_bytes crc (wal_next_sequence w) t n p))) = Inr w' \<Longrightarrow> wal_step crc (w, ims) (w', ims)"

inductive wal_reach :: "(bytes \<Rightarrow> u32) \<Rightarrow> wal \<times> page_image list \<Rightarrow> bool" for crc where
  Fresh: "wal_open [] = Inr w \<Longrightarrow> wal_reach crc (w, [])"
| Step: "wal_reach crc s \<Longrightarrow> wal_step crc s s' \<Longrightarrow> wal_reach crc s'"

lemma append_full:
  "length ims = 2 ^ 32 - 1 \<Longrightarrow> holds crc w ims \<Longrightarrow>
     append_page_image crc t n p w = (Inl (Fail (Corruption ''WAL entry count overflow'')), w)"
  by (simp add: append_page_image_def holds_def)

lemma wal_step_holds:
  assumes "wal_step crc (w, ims) (w', ims')" "holds crc w ims"
  shows "holds crc w' ims'"
  using assms(1)
proof (cases rule: wal_step.cases)
  case (Append p t n seq)
  have lt: "length ims < 2 ^ 32" using assms(2) by (simp add: holds_def)
  have "Suc (length ims) < 2 ^ 32"
  proof (rule ccontr)
    assume "\<not> Suc (length ims) < 2 ^ 32"
    then show False using append_full [OF _ assms(2), of t n p] lt Append by simp
  qed
  then show ?thesis using append_holds [OF assms(2) Append(2), of t n] Append by auto
next
  case (Refused t n p e)
  then have "w' = w" by (auto simp: append_page_image_def Let_def split: if_splits)
  then show ?thesis using Refused assms(2) by simp
next
  case Truncate
  then show ?thesis using truncate_holds [OF assms(2)] by simp
next
  case Reopen
  then show ?thesis using reopen_holds [OF assms(2)] assms(2) by auto
next
  case (Crash k t n p)
  then show ?thesis using crash_holds [OF assms(2), of "take k (entry_bytes crc (wal_next_sequence w) t n p)"] by auto
qed

lemma wal_reach_holds: "wal_reach crc s \<Longrightarrow> holds crc (fst s) (snd s)"
proof (induction rule: wal_reach.induct)
  case (Fresh w)
  then show ?case using fresh_holds [of crc] by auto
next
  case (Step s s')
  then show ?case using wal_step_holds [of crc "fst s" "snd s" "fst s'" "snd s'"] by simp
qed

text \<open>C37. In every reachable state of the log, crashes in the middle of an append included, the entries
  read back are exactly the page images appended since the last truncation, numbered from 1, and
  reopening the file gives the same log.\<close>

theorem wal_reads_back:
  assumes "wal_reach crc (w, ims)"
  shows "read_entries crc w = Inr (log_entries ims) \<and> wal_open (wal_file w) = Inr w"
  using wal_reach_holds [OF assms] read_entries_holds reopen_holds by auto

lemma fresh_reach: "wal_reach crc (\<lparr>wal_file = header_bytes 0, wal_next_sequence = 1, wal_entry_count = 0\<rparr>, [])"
  by (rule wal_reach.Fresh) (simp add: wal_open_def write_header_def wal_header_eq disk_write_def blit_def)

lemma sample_log: "\<exists>w. wal_reach crc (w, [(7, 3, page_default)])"
proof -
  let ?w = "\<lparr>wal_file = header_bytes 0, wal_next_sequence = 1, wal_entry_count = 0\<rparr>"
  have p: "page_ok page_default" by (simp add: page_ok_def page_default_def)
  obtain w where w: "append_page_image crc 7 3 page_default ?w = (Inr 1, w)"
    using append_holds [OF wal_reach_holds [OF fresh_reach, simplified] p, where t = 7 and n = 3] by auto
  show ?thesis using wal_reach.Step [OF fresh_reach wal_step.Append [OF p w, of "[]"]] by auto
qed

lemma wal_reads_back_witness:
  "\<exists>w. wal_reach (\<lambda>_. 0) (w, [(7, 3, page_default)])
    \<and> read_entries (\<lambda>_. 0) w = Inr [\<lparr>we_sequence = 1, we_table_id = 7, we_page_no = 3, we_page_data = page_default\<rparr>]
    \<and> wal_open (wal_file w) = Inr w"
proof -
  obtain w' where r: "wal_reach (\<lambda>_. 0) (w', [(7, 3, page_default)])" using sample_log by blast
  show ?thesis using wal_reads_back [OF r] r by (intro exI [of _ w']) (auto simp: log_entries_def wal_entry_of_def)
qed

text \<open>C38. The log never gets stuck: in every reachable state an append of a page image succeeds with the
  next sequence number unless the entry count is at its maximum, where it is refused without a change,
  and after a crash at any byte of the append the file opens again.\<close>

theorem wal_append_progress:
  assumes "wal_reach crc (w, ims)" "page_ok p"
  shows "(if length ims = 2 ^ 32 - 1 then append_page_image crc t n p w = (Inl (Fail (Corruption ''WAL entry count overflow'')), w)
     else \<exists>w'. append_page_image crc t n p w = (Inr (of_nat (Suc (length ims))), w') \<and> wal_reach crc (w', ims @ [(t, n, p)]))
   \<and> (\<exists>w'. wal_open (disk_write (wal_file w) (entry_offset (wal_entry_count w))
         (take k (entry_bytes crc (wal_next_sequence w) t n p))) = Inr w' \<and> wal_reach crc (w', ims))"
proof (intro conjI)
  have h: "holds crc w ims" using wal_reach_holds [OF assms(1)] by simp
  show "if length ims = 2 ^ 32 - 1 then append_page_image crc t n p w = (Inl (Fail (Corruption ''WAL entry count overflow'')), w)
     else \<exists>w'. append_page_image crc t n p w = (Inr (of_nat (Suc (length ims))), w') \<and> wal_reach crc (w', ims @ [(t, n, p)])"
  proof (cases "length ims = 2 ^ 32 - 1")
    case True
    then show ?thesis using append_full [OF True h] by simp
  next
    case False
    then have "Suc (length ims) < 2 ^ 32" using h by (simp add: holds_def)
    then obtain w' where "append_page_image crc t n p w = (Inr (of_nat (Suc (length ims))), w')"
      using append_holds [OF h assms(2)] by blast
    with False show ?thesis using wal_reach.Step [OF assms(1) wal_step.Append [OF assms(2)]] by auto
  qed
  show "\<exists>w'. wal_open (disk_write (wal_file w) (entry_offset (wal_entry_count w))
         (take k (entry_bytes crc (wal_next_sequence w) t n p))) = Inr w' \<and> wal_reach crc (w', ims)"
    using crash_holds [OF h] wal_reach.Step [OF assms(1) wal_step.Crash] by meson
qed

lemma wal_append_progress_witness:
  "\<exists>w w'. append_page_image (\<lambda>_. 0) 7 3 page_default w = (Inr 1, w') \<and> wal_reach (\<lambda>_. 0) (w', [(7, 3, page_default)])"
proof -
  have p: "page_ok page_default" by (simp add: page_ok_def page_default_def)
  show ?thesis using wal_append_progress [OF fresh_reach [of "\<lambda>_. 0"] p, of 7 3 0] by auto
qed

lemma res_map_Inl:
  "(\<And>x. x \<in> set xs \<Longrightarrow> f x = Inr (g x)) \<Longrightarrow> f y = Inl e \<Longrightarrow> res_map f (xs @ y # ys) = Inl e"
  by (induction xs) simp_all

text \<open>Damage is reported: when the bytes of an entry are replaced by bytes whose stored checksum is
  not theirs, reading the log fails with a corruption error.\<close>

theorem wal_detects_corruption:
  assumes "wal_reach crc (w, ims)" "i < length ims" "length bad = WAL_ENTRY_SIZE"
    and "u32_from_le (drop (16 + PAGE_SIZE) bad) \<noteq> crc (take (16 + PAGE_SIZE) bad)"
  shows "read_entries crc (w\<lparr>wal_file := blit (wal_file w) (entry_offset (of_nat i)) bad\<rparr>)
    = Inl (Fail (Corruption ''WAL entry checksum mismatch''))"
proof -
  let ?v = "w\<lparr>wal_file := blit (wal_file w) (entry_offset (of_nat i)) bad\<rparr>"
  have h: "holds crc w ims" using wal_reach_holds [OF assms(1)] by simp
  have lt: "length ims < 4294967296" and n: "unat (wal_entry_count w) = length ims"
    using h by (simp_all add: holds_def take_bit_nat_eq_self unsigned_of_nat)
  have off: "entry_offset (of_nat j) = 16 + j * WAL_ENTRY_SIZE" if "j < length ims" for j
    using lt that by (simp add: entry_offset_def take_bit_nat_eq_self unsigned_of_nat)
  have room: "16 + j * WAL_ENTRY_SIZE + WAL_ENTRY_SIZE \<le> length (wal_file w)" if "j < length ims" for j
  proof -
    have "j * WAL_ENTRY_SIZE + WAL_ENTRY_SIZE \<le> WAL_ENTRY_SIZE * length ims"
      using mult_le_mono1 [OF Suc_leI [OF that], of WAL_ENTRY_SIZE] by simp
    with h show ?thesis by (auto simp: holds_def length_log_bytes)
  qed
  have len: "length (wal_file ?v) = length (wal_file w)" using room [OF assms(2)] assms(3) off [OF assms(2)] by simp
  have earlier: "read_entry crc ?v (of_nat j) = Inr (wal_entry_of j (ims ! j))" if "j < i" for j
  proof -
    have j: "j < length ims" using that assms(2) by simp
    have "16 + j * WAL_ENTRY_SIZE + WAL_ENTRY_SIZE \<le> 16 + i * WAL_ENTRY_SIZE"
      using mult_le_mono1 [OF Suc_leI [OF that], of WAL_ENTRY_SIZE] by simp
    then have "read_exact_at (wal_file ?v) (entry_offset (of_nat j)) WAL_ENTRY_SIZE
        = read_exact_at (wal_file w) (entry_offset (of_nat j)) WAL_ENTRY_SIZE"
      using room [OF assms(2)] assms(3) len by (simp add: read_exact_at_def off [OF j] off [OF assms(2)] sub_bytes_blit_disjoint)
    then show ?thesis using read_entry_holds [OF h j] by (simp add: read_entry_def)
  qed
  have "read_exact_at (wal_file ?v) (entry_offset (of_nat i)) WAL_ENTRY_SIZE = Inr bad"
    using room [OF assms(2)] assms(3) len by (simp add: read_exact_at_def off [OF assms(2)] sub_bytes_blit_same)
  then have bad: "read_entry crc ?v (of_nat i) = Inl (Fail (Corruption ''WAL entry checksum mismatch''))"
    using assms(3,4) by (simp add: read_entry_def Let_def)
  have "[0..<length ims] = [0..<i] @ i # [Suc i..<length ims]"
    using assms(2) upt_add_eq_append [of 0 i "length ims - i"] by (simp add: upt_conv_Cons)
  then have "read_entries crc ?v = res_map (read_entry crc ?v) (map as_u32 [0..<i] @ as_u32 i # map as_u32 [Suc i..<length ims])"
    by (simp add: read_entries_def n)
  also have "\<dots> = Inl (Fail (Corruption ''WAL entry checksum mismatch''))"
    using lt assms(2) earlier
    by (intro res_map_Inl [where g = "\<lambda>x. wal_entry_of (unat x) (ims ! unat x)"] bad) auto
  finally show ?thesis .
qed

lemma wal_detects_corruption_witness:
  "\<exists>w. read_entries (\<lambda>_. 0) (w\<lparr>wal_file := blit (wal_file w) (entry_offset 0) (replicate WAL_ENTRY_SIZE 1)\<rparr>)
    = Inl (Fail (Corruption ''WAL entry checksum mismatch''))"
proof -
  obtain w' where r: "wal_reach (\<lambda>_. 0) (w', [(7, 3, page_default)])" using sample_log by blast
  have "replicate 4 1 = [1, 1, 1, 1 :: u8]" by (simp add: numeral_eq_Suc)
  then have "u32_from_le (replicate 4 1) \<noteq> 0" by (simp add: u32_from_le_def)
  then show ?thesis
    using wal_detects_corruption [OF r, of 0 "replicate WAL_ENTRY_SIZE 1"] by auto
qed

end
