(* ===== verification/Index_Key.thy ===== *)
theory Index_Key
  imports Index_Tree
begin

text \<open>
  The key encodings of \<^verbatim>\<open>src/index.rs\<close>: an index key is the sortable encodings of the indexed
  values followed by the rowid, big-endian. The lemmas show that the byte order of the keys is the
  order of the values, column by column, then of the rowids, that a value prefix selects exactly the
  keys with those values, and that the rowid can be read back.
\<close>

section \<open>Encodings\<close>

definition encode_i64_sortable :: "i64 \<Rightarrow> bytes" where
  "encode_i64_sortable val =
     (case u64_to_be val of [] \<Rightarrow> [] | b # bs \<Rightarrow> (b XOR 0x80) # bs)"

definition encode_f64_sortable :: "f64 \<Rightarrow> bytes" where
  "encode_f64_sortable val =
     (let encoded = if f64_is_sign_negative val then NOT val else val XOR push_bit 63 1
      in u64_to_be encoded)"

definition encode_index_key_integer :: "i64 \<Rightarrow> u64 \<Rightarrow> bytes" where
  "encode_index_key_integer val rowid = encode_i64_sortable val @ u64_to_be rowid"

definition encode_index_key_real :: "f64 \<Rightarrow> u64 \<Rightarrow> bytes" where
  "encode_index_key_real val rowid = encode_f64_sortable val @ u64_to_be rowid"

definition encode_index_key_text :: "rstring \<Rightarrow> u64 \<Rightarrow> bytes option" where
  "encode_index_key_text val rowid =
     (if 0 \<in> set val then None else Some (val @ [0] @ u64_to_be rowid))"

definition encode_integer_prefix :: "i64 \<Rightarrow> bytes" where
  "encode_integer_prefix val = encode_i64_sortable val"

definition encode_real_prefix :: "f64 \<Rightarrow> bytes" where
  "encode_real_prefix val = encode_f64_sortable val"

definition encode_text_prefix :: "rstring \<Rightarrow> bytes" where
  "encode_text_prefix val = val @ [0]"

fun encode_index_key :: "col_type \<Rightarrow> db_value \<Rightarrow> u64 \<Rightarrow> bytes option" where
  "encode_index_key _ Null rowid = None"
| "encode_index_key TInteger (Integer i) rowid = Some (encode_index_key_integer i rowid)"
| "encode_index_key TReal (Real f) rowid = Some (encode_index_key_real f rowid)"
| "encode_index_key TText (Text s) rowid = encode_index_key_text s rowid"
| "encode_index_key TInteger (Real f) rowid = Some (encode_index_key_integer (f64_as_i64 f) rowid)"
| "encode_index_key TReal (Integer i) rowid = Some (encode_index_key_real (i64_as_f64 i) rowid)"
| "encode_index_key _ _ rowid = None"

fun encode_value_prefix :: "col_type \<Rightarrow> db_value \<Rightarrow> bytes option" where
  "encode_value_prefix _ Null = None"
| "encode_value_prefix TInteger (Integer i) = Some (encode_integer_prefix i)"
| "encode_value_prefix TReal (Real f) = Some (encode_real_prefix f)"
| "encode_value_prefix TText (Text s) = Some (encode_text_prefix s)"
| "encode_value_prefix TInteger (Real f) = Some (encode_integer_prefix (f64_as_i64 f))"
| "encode_value_prefix TReal (Integer i) = Some (encode_real_prefix (i64_as_f64 i))"
| "encode_value_prefix _ _ = None"

text \<open>The loop over the columns: it stops at the first value without an encoding.\<close>

fun encode_parts :: "(col_type \<times> db_value) list \<Rightarrow> bytes option" where
  "encode_parts [] = Some []"
| "encode_parts ((t, v) # rest) =
     (case encode_value_prefix t v of
        None \<Rightarrow> None
      | Some part \<Rightarrow> map_option (\<lambda>out. part @ out) (encode_parts rest))"

text \<open>The lengths are compared in a debug assertion.\<close>

definition encode_composite_value_prefix :: "col_type list \<Rightarrow> db_value list \<Rightarrow> bytes option res" where
  "encode_composite_value_prefix col_types vals =
     res_bind (must (length col_types = length vals)) (\<lambda>_. Inr (encode_parts (zip col_types vals)))"

definition encode_composite_index_key :: "col_type list \<Rightarrow> db_value list \<Rightarrow> u64 \<Rightarrow> bytes option res" where
  "encode_composite_index_key col_types vals rowid =
     res_bind (encode_composite_value_prefix col_types vals) (\<lambda>out.
     Inr (map_option (\<lambda>out. out @ u64_to_be rowid) out))"

fun extract_rowid :: "col_type \<Rightarrow> bytes \<Rightarrow> u64 res" where
  "extract_rowid TInteger key =
     res_bind (must (length key = 16)) (\<lambda>_. res_bind (slice key 8 16) (\<lambda>b. Inr (u64_from_be b)))"
| "extract_rowid TReal key =
     res_bind (must (length key = 16)) (\<lambda>_. res_bind (slice key 8 16) (\<lambda>b. Inr (u64_from_be b)))"
| "extract_rowid TText key =
     res_bind (must (10 \<le> length key)) (\<lambda>_.
     let len = length key in res_bind (slice key (len - 8) len) (\<lambda>b. Inr (u64_from_be b)))"
| "extract_rowid _ key = Inl Panicked"

section \<open>The order of big-endian encodings\<close>

lemma lex_append:
  "length a = length b \<Longrightarrow> a @ x < b @ (y :: 'a::linorder list) \<longleftrightarrow> a < b \<or> a = b \<and> x < y"
  by (induction a b rule: list_induct2) auto

lemma le_enc_mod: "le_enc k (x mod 256 ^ k) = le_enc k x"
proof (induction k arbitrary: x)
  case (Suc k)
  have "x mod 256 ^ Suc k mod 256 = x mod 256" by (simp add: mod_mult2_eq)
  moreover have "x mod 256 ^ Suc k div 256 = x div 256 mod 256 ^ k" by (simp add: mod_mult2_eq)
  ultimately show ?case by (simp add: Suc.IH)
qed simp

lemma digit_less: "r < 256 \<Longrightarrow> s < 256 \<Longrightarrow> q < p \<or> q = p \<and> r < s \<longleftrightarrow> 256 * q + r < 256 * p + (s :: nat)"
  by arith

lemma be_enc_less:
  "m < 256 ^ k \<Longrightarrow> n < 256 ^ k \<Longrightarrow> rev (le_enc k m) < rev (le_enc k n) \<longleftrightarrow> m < n"
proof (induction k arbitrary: m n)
  case (Suc k)
  have d: "m div 256 < 256 ^ k" "n div 256 < 256 ^ k" using Suc.prems by (simp_all add: div_less_iff_less_mult mult.commute)
  have eq: "rev (le_enc k (m div 256)) = rev (le_enc k (n div 256)) \<longleftrightarrow> m div 256 = n div 256"
    using d le_dec_enc [of k "m div 256"] le_dec_enc [of k "n div 256"] by (metis mod_less rev_is_rev_conv)
  have b: "(of_nat (m mod 256) :: u8) < of_nat (n mod 256) \<longleftrightarrow> m mod 256 < n mod 256"
    by (simp add: word_less_nat_alt unat_of_nat)
  have "rev (le_enc (Suc k) m) < rev (le_enc (Suc k) n) \<longleftrightarrow>
      m div 256 < n div 256 \<or> m div 256 = n div 256 \<and> m mod 256 < n mod 256"
    using Suc.IH [OF d] eq b by (simp add: lex_append)
  also have "\<dots> \<longleftrightarrow> 256 * (m div 256) + m mod 256 < 256 * (n div 256) + n mod 256"
    by (rule digit_less) simp_all
  also have "\<dots> \<longleftrightarrow> m < n" by simp
  finally show ?case .
qed simp

lemma u64_be_less: "u64_to_be a < u64_to_be b \<longleftrightarrow> a < b"
  using be_enc_less [of "unat a" 8 "unat b"] by (simp add: u64_to_be_def word_less_nat_alt)

section \<open>Sign flips\<close>

lemma flip_top_bit: "(b :: u8) XOR 0x80 = b + 0x80" "(v :: u64) XOR push_bit 63 1 = v + 0x8000000000000000"
proof -
  have flip: "a XOR 2 ^ n = (if bit a n then a - 2 ^ n else a + 2 ^ n)" for a :: "'a::len word" and n
    unfolding flip_bit_eq_xor [of n a, unfolded push_bit_eq_mult, simplified, symmetric]
    by (simp add: flip_bit_eq_if set_bit_eq unset_bit_eq)
  show "b XOR 0x80 = b + 0x80" using flip [of b 7] by simp
  show "v XOR push_bit 63 1 = v + 0x8000000000000000" using flip [of v 63] by (simp add: push_bit_eq_mult)
qed

lemma le_enc_snoc: "le_enc (Suc k) x = le_enc k x @ [of_nat (x div 256 ^ k)]"
proof (induction k arbitrary: x)
  case 0
  have "(of_nat (x mod 256) :: u8) = of_nat x" by (simp add: word_unat_eq_iff unat_of_nat)
  then show ?case by simp
next
  case (Suc k)
  have "x div 256 div 256 ^ k = x div 256 ^ Suc k" by (simp add: div_mult2_eq)
  then show ?case using Suc.IH [of "x div 256"] by (simp del: power_Suc)
qed

lemma encode_i64_sortable_shift: "encode_i64_sortable v = u64_to_be (v + 0x8000000000000000)"
proof -
  let ?n = "unat v" and ?c = "128 * 256 ^ 7 :: nat"
  have top: "u64_to_be w = of_nat (unat w div 256 ^ 7) # rev (le_enc 7 (unat w))" for w
    using le_enc_snoc [of 7 "unat w"] by (simp add: u64_to_be_def)
  have "unat (v + 0x8000000000000000) = (?n + ?c) mod 256 ^ 8" by (simp add: unat_word_ariths)
  then have "u64_to_be (v + 0x8000000000000000) = rev (le_enc (Suc 7) (?n + ?c))"
    using le_enc_mod [of 8 "?n + ?c"] by (simp add: u64_to_be_def del: le_enc.simps)
  also have "\<dots> = of_nat ((?n + ?c) div 256 ^ 7) # rev (le_enc 7 (?n + ?c))"
    unfolding le_enc_snoc by simp
  also have "le_enc 7 (?n + ?c) = le_enc 7 ?n"
    using le_enc_mod [of 7 "?n + ?c"] le_enc_mod [of 7 ?n] by (metis mod_mult_self3 add.commute mult.commute)
  also have "(of_nat ((?n + ?c) div 256 ^ 7) :: u8) = of_nat (?n div 256 ^ 7) + 0x80"
    by (subst div_mult_self1) simp_all
  finally show ?thesis by (simp add: encode_i64_sortable_def top flip_top_bit)
qed

lemma sint_shift: "uint (v + 0x8000000000000000) = sint (v :: i64) + 2 ^ 63"
proof -
  have "sint v = take_bit 64 (uint v + 2 ^ 63) - 2 ^ 63"
    using signed_take_bit_eq_take_bit_shift [of 63 "uint v"] by (simp add: sint_uint)
  moreover have "uint (v + 0x8000000000000000) = take_bit 64 (uint v + 2 ^ 63)"
    by (simp add: uint_word_ariths take_bit_eq_mod)
  ultimately show ?thesis by simp
qed

lemma encode_i64_less: "encode_i64_sortable v < encode_i64_sortable w \<longleftrightarrow> sint v < sint w"
  by (simp add: encode_i64_sortable_shift u64_be_less word_less_def sint_shift)

lemma encode_i64_eq: "encode_i64_sortable v = encode_i64_sortable w \<longleftrightarrow> v = w"
  by (simp add: encode_i64_sortable_shift u64_be.enc_inj)

text \<open>Reals other than NaN and the negative zero, which the comparison does not tell from zero.\<close>

definition plain_real :: "f64 \<Rightarrow> bool" where
  "plain_real b \<longleftrightarrow> \<not> f64_is_nan b \<and> b \<noteq> 0x8000000000000000"

lemma f64_abs_nat: "unat (f64_abs b) = unat b mod 2 ^ 63"
proof -
  have "f64_abs b = take_bit 63 b" by (simp add: f64_abs_def take_bit_eq_mask mask_eq_exp_minus_1)
  then show ?thesis by (simp add: unsigned_take_bit_eq take_bit_eq_mod unat_mod)
qed

lemma encode_f64_key:
  "uint (if f64_is_sign_negative b then NOT b else b XOR push_bit 63 1) =
     (if f64_is_sign_negative b then 2 ^ 63 - 1 + f64_key b else 2 ^ 63 + f64_key b)"
proof (cases "f64_is_sign_negative b")
  case True
  then have ge: "2 ^ 63 \<le> unat b" by (simp add: f64_is_sign_negative_def word_le_nat_alt)
  have lt: "unat b < 2 ^ 64" by simp
  have "unat b mod 2 ^ 63 = unat b - 2 ^ 63"
  proof -
    have "unat b - 9223372036854775808 < 9223372036854775808" using unat_u64_lt [of b] by linarith
    then show ?thesis using le_mod_geq [OF ge] by simp
  qed
  then have abs: "int (unat (f64_abs b)) = int (unat b) - 2 ^ 63" using ge by (simp add: f64_abs_nat of_nat_diff)
  have le: "unat b \<le> 18446744073709551615" using unat_u64_lt [of b] by linarith
  have "unat (NOT b) = 18446744073709551615 - unat b"
  proof -
    have top: "- 1 = (0xFFFFFFFFFFFFFFFF :: u64)" by simp
    have "NOT b = 0xFFFFFFFFFFFFFFFF - b" by (simp add: not_eq_complement flip: top)
    then show ?thesis using le by (simp add: unat_sub_if')
  qed
  then have "uint (NOT b) = int (18446744073709551615 - unat b)" by (simp only: uint_nat)
  also have "\<dots> = 18446744073709551615 - uint b" unfolding of_nat_diff [OF le] by simp
  finally have "uint (NOT b) = 18446744073709551615 - uint b" .
  with True abs show ?thesis by (simp add: f64_key_def)
next
  case False
  then have lt: "unat b < 9223372036854775808" by (simp add: f64_is_sign_negative_def word_le_nat_alt)
  have "int (unat (f64_abs b)) = int (unat b)" using lt by (simp add: f64_abs_nat)
  moreover have "uint (b + 0x8000000000000000) = uint b + 2 ^ 63"
  proof -
    have "uint b < 9223372036854775808" using lt unfolding uint_nat by linarith
    moreover have "0 \<le> uint b" by simp
    ultimately show ?thesis by (simp add: uint_word_ariths del: uint_ge_0)
  qed
  ultimately show ?thesis using False flip_top_bit(2) [of b] by (simp add: f64_key_def)
qed

lemma encode_f64_cmp:
  assumes "plain_real a" "plain_real b"
  shows "encode_f64_sortable a < encode_f64_sortable b \<longleftrightarrow> f64_key a < f64_key b"
    and "encode_f64_sortable a = encode_f64_sortable b \<longleftrightarrow> f64_key a = f64_key b"
proof -
  have neg: "f64_key x < 0" if "f64_is_sign_negative x" "plain_real x" for x
  proof -
    have "unat x \<noteq> 2 ^ 63" using that(2) by (auto simp: plain_real_def word_unat_eq_iff)
    moreover have ge: "2 ^ 63 \<le> unat x" using that(1) by (simp add: f64_is_sign_negative_def word_le_nat_alt)
    moreover have "unat x - 9223372036854775808 < 9223372036854775808" using unat_u64_lt [of x] by linarith
    ultimately have "unat x mod 2 ^ 63 \<noteq> 0" using le_mod_geq [OF ge] by simp
    then show ?thesis using that(1) by (simp add: f64_key_def f64_abs_nat uint_nat del: unat_mod)
  qed
  have pos: "0 \<le> f64_key x" if "\<not> f64_is_sign_negative x" for x using that by (simp add: f64_key_def)
  let ?e = "\<lambda>x. if f64_is_sign_negative x then NOT x else x XOR push_bit 63 1"
  have e: "encode_f64_sortable x = u64_to_be (?e x)" for x by (simp add: encode_f64_sortable_def Let_def)
  have less: "?e a < ?e b \<longleftrightarrow> f64_key a < f64_key b"
    unfolding word_less_def encode_f64_key using neg [OF _ assms(1)] neg [OF _ assms(2)] pos [of a] pos [of b] by auto
  moreover have "?e a = ?e b \<longleftrightarrow> f64_key a = f64_key b"
    unfolding word_uint_eq_iff encode_f64_key using neg [OF _ assms(1)] neg [OF _ assms(2)] pos [of a] pos [of b] by auto
  ultimately show "encode_f64_sortable a < encode_f64_sortable b \<longleftrightarrow> f64_key a < f64_key b"
    "encode_f64_sortable a = encode_f64_sortable b \<longleftrightarrow> f64_key a = f64_key b"
    unfolding e by (simp_all only: u64_be_less u64_be.enc_inj)
qed

lemma length_sortable [simp]: "length (encode_i64_sortable v) = 8" "length (encode_f64_sortable f) = 8"
  by (simp_all add: encode_i64_sortable_shift encode_f64_sortable_def Let_def)

section \<open>Self-delimiting parts\<close>

text \<open>The values a column of type \<open>t\<close> can index in its own order.\<close>

fun indexable :: "col_type \<Rightarrow> db_value \<Rightarrow> bool" where
  "indexable TInteger (Integer _) \<longleftrightarrow> True"
| "indexable TReal (Real f) \<longleftrightarrow> plain_real f"
| "indexable TText (Text s) \<longleftrightarrow> 0 \<notin> set s"
| "indexable _ _ \<longleftrightarrow> False"

fun_cases indexableE: "indexable t v"

lemma text_part:
  assumes "0 \<notin> set s" "0 \<notin> set t"
  shows "s @ 0 # x < t @ 0 # (y :: bytes) \<longleftrightarrow> s < t \<or> s = t \<and> x < y"
    and "starts_with (s @ 0 # x) (t @ 0 # y) \<longleftrightarrow> s = t \<and> starts_with x y"
  using assms
proof (induction s arbitrary: t)
  case Nil
  have z: "0 < b \<longleftrightarrow> b \<noteq> 0" for b :: u8 by (simp add: word_gt_0)
  { case 1 then show ?case by (cases t) (auto simp: z) }
  { case 2 then show ?case by (cases t) auto }
next
  case (Cons a s)
  { case 1
    then show ?case using Cons.IH(1) [of "tl t"] by (cases t) auto }
  { case 2 then show ?case using Cons.IH(2) [of "tl t"] by (cases t) auto }
qed

text \<open>What the order theorem needs of one part: it decides, or leaves the decision to what follows.\<close>

definition delimits :: "bytes \<Rightarrow> bytes \<Rightarrow> ordering \<Rightarrow> bool" where
  "delimits p q r \<longleftrightarrow> (\<forall>x y. (p @ x < q @ y) = (r = Less \<or> r = Equal \<and> x < y)
     \<and> starts_with (p @ x) (q @ y) = (r = Equal \<and> starts_with x y))"

lemma starts_with_same: "length p = length q \<Longrightarrow> starts_with (p @ x) (q @ y) \<longleftrightarrow> p = q \<and> starts_with x y"
  by (auto simp: starts_with_def)

lemma delimits_fixed:
  assumes "length p = length q" "p < q \<longleftrightarrow> r = Less" "p = q \<longleftrightarrow> r = Equal"
  shows "delimits p q r"
  using assms by (simp add: delimits_def lex_append starts_with_same)

lemma part_delimits:
  assumes "indexable t v" "indexable t w" "encode_value_prefix t v = Some p" "encode_value_prefix t w = Some q"
  shows "\<exists>r. value_compare v w = Some r \<and> delimits p q r"
proof (cases t)
  case TInteger
  then obtain i j where [simp]: "v = Integer i" "w = Integer j" using assms(1,2) by (cases v; cases w) auto
  have "sint i = sint j \<longleftrightarrow> i + 0x8000000000000000 = j + 0x8000000000000000"
    by (simp only: word_uint_eq_iff sint_shift add_right_cancel)
  then have "delimits p q (cmp (sint i) (sint j))"
    using assms(3,4) TInteger by (intro delimits_fixed) (auto simp: encode_integer_prefix_def encode_i64_less encode_i64_eq)
  then show ?thesis by simp
next
  case TReal
  then obtain a b where [simp]: "v = Real a" "w = Real b" and pl: "plain_real a" "plain_real b"
    using assms(1,2) by (cases v; cases w) auto
  have "delimits p q (cmp (f64_key a) (f64_key b))"
    using assms(3,4) TReal pl by (intro delimits_fixed) (auto simp: encode_real_prefix_def encode_f64_cmp)
  then show ?thesis using pl by (simp add: plain_real_def f64_partial_cmp_def)
next
  case TText
  then obtain a b where [simp]: "v = Text a" "w = Text b" and pl: "0 \<notin> set a" "0 \<notin> set b"
    using assms(1,2) by (cases v; cases w) auto
  have "delimits p q (cmp a b)"
    using assms(3,4) TText text_part [OF pl] by (auto simp: delimits_def encode_text_prefix_def)
  then show ?thesis by simp
qed (use assms(1) in \<open>cases v; simp\<close>)+

lemma indexable_prefix: "indexable t v \<Longrightarrow> \<exists>p. encode_value_prefix t v = Some p"
  by (cases t; cases v) simp_all

text \<open>Tuples of values with their rowid, compared column by column.\<close>

fun tuple_less :: "db_value list \<Rightarrow> u64 \<Rightarrow> db_value list \<Rightarrow> u64 \<Rightarrow> bool" where
  "tuple_less (v # vs) r (w # ws) r' \<longleftrightarrow>
     value_compare v w = Some Less \<or> value_compare v w = Some Equal \<and> tuple_less vs r ws r'"
| "tuple_less _ r _ r' \<longleftrightarrow> r < r'"

definition same_value :: "db_value \<Rightarrow> db_value \<Rightarrow> bool" where
  "same_value v w \<longleftrightarrow> value_compare v w = Some Equal"

lemma parts_order:
  assumes "list_all2 indexable ts vs" "list_all2 indexable ts ws"
    and "encode_parts (zip ts vs) = Some p" "encode_parts (zip ts ws) = Some q"
  shows "p @ u64_to_be r < q @ u64_to_be r' \<longleftrightarrow> tuple_less vs r ws r'"
    and "starts_with p (q @ y) \<longleftrightarrow> list_all2 same_value vs ws"
  using assms
proof (induction ts arbitrary: vs ws p q)
  case Nil
  { case 1 then show ?case by (simp add: u64_be_less) }
  { case 2 then show ?case by simp }
next
  case (Cons t ts)
  have step: "(p @ u64_to_be r < q @ u64_to_be r' \<longleftrightarrow> tuple_less vs r ws r')
      \<and> (starts_with p (q @ y) \<longleftrightarrow> list_all2 same_value vs ws)"
    if prems: "list_all2 indexable (t # ts) vs" "list_all2 indexable (t # ts) ws"
      "encode_parts (zip (t # ts) vs) = Some p" "encode_parts (zip (t # ts) ws) = Some q" for vs ws p q
  proof -
    obtain v vs' w ws' where vw: "vs = v # vs'" "indexable t v" "list_all2 indexable ts vs'"
      "ws = w # ws'" "indexable t w" "list_all2 indexable ts ws'"
      using prems(1,2) by (auto simp: list_all2_Cons1)
    obtain a p' b q' where e: "encode_value_prefix t v = Some a" "encode_parts (zip ts vs') = Some p'" "p = a @ p'"
      "encode_value_prefix t w = Some b" "encode_parts (zip ts ws') = Some q'" "q = b @ q'"
      using prems(3,4) vw(1,4) by (auto split: option.splits)
    obtain c where c: "value_compare v w = Some c" "delimits a b c" using part_delimits [OF vw(2,5) e(1,4)] by blast
    show ?thesis
      using c Cons.IH(1) [OF vw(3,6) e(2,5)] Cons.IH(2) [OF vw(3,6) e(2,5)] same_value_def [of v w]
      by (auto simp: e(3,6) vw(1,4) delimits_def)
  qed
  { case 1 show ?case by (rule step [OF 1, THEN conjunct1]) }
  { case 2 show ?case by (rule step [OF 2, THEN conjunct2]) }
qed

section \<open>Composite keys\<close>

lemma encode_parts_indexable:
  "list_all2 indexable ts vs \<Longrightarrow> \<exists>p. encode_parts (zip ts vs) = Some p"
proof (induction ts vs rule: list_all2_induct)
  case (Cons t ts v vs)
  then show ?case using indexable_prefix by fastforce
qed simp

lemma encode_parts_append:
  "encode_parts (xs @ ys) = (case encode_parts xs of None \<Rightarrow> None | Some p \<Rightarrow> map_option (\<lambda>q. p @ q) (encode_parts ys))"
proof (induction xs rule: encode_parts.induct)
  case 1
  then show ?case by (cases "encode_parts ys") simp_all
next
  case (2 t v rest)
  then show ?case by (cases "encode_parts ys") (auto split: option.splits)
qed

lemma composite_prefix_parts:
  assumes "length ts = length vs"
  shows "encode_composite_value_prefix ts vs = Inr (encode_parts (zip ts vs))"
    and "encode_composite_index_key ts vs r = Inr (map_option (\<lambda>out. out @ u64_to_be r) (encode_parts (zip ts vs)))"
  using assms by (simp_all add: encode_composite_index_key_def encode_composite_value_prefix_def must_def)

lemma composite_indexable:
  assumes "list_all2 indexable ts vs"
  obtains p where "encode_parts (zip ts vs) = Some p" "encode_composite_value_prefix ts vs = Inr (Some p)"
    "\<And>r. encode_composite_index_key ts vs r = Inr (Some (p @ u64_to_be r))"
  using encode_parts_indexable [OF assms] composite_prefix_parts [OF list_all2_lengthD [OF assms]] by fastforce

text \<open>C35. The order of composite index keys: for indexable values of the index's column types the
  byte order of two composite keys is the order of the value tuples, column by column, with the
  rowid as the tie-breaker.\<close>

theorem composite_key_order:
  assumes "list_all2 indexable ts vs" "list_all2 indexable ts ws"
  shows "\<exists>a b. encode_composite_index_key ts vs r = Inr (Some a) \<and> encode_composite_index_key ts ws r' = Inr (Some b)
    \<and> (a < b \<longleftrightarrow> tuple_less vs r ws r')"
proof -
  obtain p where p: "encode_parts (zip ts vs) = Some p" "encode_composite_index_key ts vs r = Inr (Some (p @ u64_to_be r))"
    using composite_indexable [OF assms(1)] by metis
  obtain q where q: "encode_parts (zip ts ws) = Some q" "encode_composite_index_key ts ws r' = Inr (Some (q @ u64_to_be r'))"
    using composite_indexable [OF assms(2)] by metis
  show ?thesis using parts_order(1) [OF assms p(1) q(1)] p(2) q(2) by blast
qed

lemma composite_key_order_witness:
  "\<exists>a b. encode_composite_index_key [TInteger, TText] [Integer (- 1), Text [98]] 7 = Inr (Some a)
    \<and> encode_composite_index_key [TInteger, TText] [Integer 3, Text [97]] 2 = Inr (Some b)
    \<and> (a < b \<longleftrightarrow> tuple_less [Integer (- 1), Text [98]] 7 [Integer 3, Text [97]] 2)"
  by (rule composite_key_order) simp_all

text \<open>A composite value prefix selects exactly the keys whose leading columns hold the same values.\<close>

theorem composite_prefix_selects:
  assumes "list_all2 indexable ts vs" "list_all2 indexable (ts @ us) ws"
  shows "\<exists>p k. encode_composite_value_prefix ts vs = Inr (Some p) \<and> encode_composite_index_key (ts @ us) ws r = Inr (Some k)
    \<and> (starts_with p k \<longleftrightarrow> list_all2 same_value vs (take (length ts) ws))"
proof -
  obtain as bs where ws: "ws = as @ bs" "list_all2 indexable ts as" "list_all2 indexable us bs"
    using assms(2) by (auto simp: list_all2_append1)
  obtain p where p: "encode_parts (zip ts vs) = Some p" "encode_composite_value_prefix ts vs = Inr (Some p)"
    using composite_indexable [OF assms(1)] by metis
  obtain k where k: "encode_parts (zip (ts @ us) ws) = Some k"
    "encode_composite_index_key (ts @ us) ws r = Inr (Some (k @ u64_to_be r))"
    using composite_indexable [OF assms(2)] by metis
  have len: "length as = length ts" using ws(2) by (simp add: list_all2_lengthD)
  obtain q y where q: "encode_parts (zip ts as) = Some q" "k = q @ y"
  proof -
    obtain q q' where "encode_parts (zip ts as) = Some q" "encode_parts (zip us bs) = Some q'"
      using encode_parts_indexable ws(2,3) by metis
    then show ?thesis using k(1) that [of q q'] by (simp add: ws(1) len encode_parts_append)
  qed
  show ?thesis using parts_order(2) [OF assms(1) ws(2) p(1) q(1), of "y @ u64_to_be r"] p(2) k(2)
    by (simp add: q(2) ws(1) len)
qed

lemma composite_prefix_selects_witness:
  "\<exists>p k. encode_composite_value_prefix [TInteger] [Integer 3] = Inr (Some p)
    \<and> encode_composite_index_key ([TInteger] @ [TText]) [Integer 3, Text [97]] 2 = Inr (Some k)
    \<and> (starts_with p k \<longleftrightarrow> list_all2 same_value [Integer 3] (take (length [TInteger]) [Integer 3, Text [97]]))"
  by (rule composite_prefix_selects) simp_all

text \<open>The rowid can be read back from a single-column key, with one exception: a key of the
  empty text has nine bytes, and the debug assertion on its length fails.\<close>

theorem extract_rowid_of_key:
  assumes "encode_index_key t v r = Some k"
  shows "extract_rowid t k = (if v = Text [] then Inl Panicked else Inr r)"
  using assms
  by (cases "(t, v, r)" rule: encode_index_key.cases)
     (auto simp: encode_index_key_integer_def encode_index_key_real_def encode_index_key_text_def Let_def
        slice_def must_def sub_bytes_def u64_be.dec_enc Suc_le_eq split: if_splits)

lemma extract_rowid_of_key_witness:
  "encode_index_key TText (Text []) 5 = Some (0 # u64_to_be 5) \<and> extract_rowid TText (0 # u64_to_be 5) = Inl Panicked
   \<and> extract_rowid TInteger (encode_index_key_integer 3 5) = Inr 5"
  using extract_rowid_of_key [of TText "Text []" 5] extract_rowid_of_key [of TInteger "Integer 3" 5]
  by (simp add: encode_index_key_text_def)

text \<open>C36. Texts with a zero byte are not rejected in composite keys: two different tuples get the
  same key, while the single-column encoding refuses such a text.\<close>

theorem composite_text_collision:
  "encode_composite_index_key [TText, TText] [Text (s @ 0 # t), Text u] r
     = encode_composite_index_key [TText, TText] [Text s, Text (t @ 0 # u)] r
   \<and> encode_index_key TText (Text (s @ 0 # t)) r = None"
  by (simp add: encode_composite_index_key_def encode_composite_value_prefix_def must_def encode_text_prefix_def
      encode_index_key_text_def)

end
