(* ===== verification/Database.thy ===== *)
theory Database
  imports Guard_Safe System_Page Wal_Log Index_Key Filters
begin

text \<open>
  The database handle of \<^verbatim>\<open>src/db.rs\<close>: one record holds the page file, the log and the table
  map, whose locks the operations take in turn; an operation is modelled as it runs while it holds
  them. This theory has the commit path, index maintenance, the uniqueness and type checks, and the
  row operations outside transactions (\<^verbatim>\<open>insert\<close>, \<^verbatim>\<open>insert_with_id\<close>, \<^verbatim>\<open>get\<close>,
  \<^verbatim>\<open>update\<close>, \<^verbatim>\<open>delete\<close> behind their first branch on ACID mode). A write guard that
  is dropped on an error keeps its overlay in the file, as the code has no \<^verbatim>\<open>Drop\<close> for it.
\<close>

datatype durability = Immediate | Normal | NoLog

record database =
  db_file :: page_file
  db_wal :: wal
  db_tables :: "(rstring \<times> table_meta) list"
  db_next_table_id :: u32
  db_durability :: durability
  db_max_row_size :: u32

type_synonym 'a dbop = "(database, 'a) sm"
type_synonym crc_fn = "bytes \<Rightarrow> u32"

section \<open>Access to the parts\<close>

definition on_file :: "'a guarded \<Rightarrow> 'a dbop" where
  "on_file m db = (case m (db_file db) of (r, f) \<Rightarrow> (r, db\<lparr>db_file := f\<rparr>))"

definition on_wal :: "(wal, 'a) sm \<Rightarrow> 'a dbop" where
  "on_wal m db = (case m (db_wal db) of (r, w) \<Rightarrow> (r, db\<lparr>db_wal := w\<rparr>))"

text \<open>The table lookup at the start of every operation, and writes to its metadata.\<close>

definition table_of :: "rstring \<Rightarrow> database \<Rightarrow> table_meta res" where
  "table_of table db =
     (case map_of (db_tables db) table of None \<Rightarrow> Inl (Fail (TableNotFound table)) | Some m \<Rightarrow> Inr m)"

definition set_meta :: "rstring \<Rightarrow> table_meta \<Rightarrow> unit dbop" where
  "set_meta table m = sm_modify (\<lambda>db. db\<lparr>db_tables := AList.update table m (db_tables db)\<rparr>)"

definition check_table_accessible :: "table_meta \<Rightarrow> rstring \<Rightarrow> unit res" where
  "check_table_accessible m table =
     ensure (\<not> (tm_encrypted m \<and> tm_cipher m = None)) (TableLocked table)"

definition open_table :: "rstring \<Rightarrow> table_meta dbop" where
  "open_table table =
     sm_bind (sm_view (table_of table)) (\<lambda>m.
     sm_bind (sm_lift (check_table_accessible m table)) (\<lambda>_. sm_ret m))"

section \<open>Commit\<close>

definition log_image :: "crc_fn \<Rightarrow> u32 \<Rightarrow> cipher_fn option \<Rightarrow> u32 \<times> page \<Rightarrow> unit dbop" where
  "log_image crc table_id cipher = (\<lambda>(page_no, data).
     sm_bind (sm_lift (case cipher of
         Some c \<Rightarrow> res_bind (slice data 0 ENCRYPTED_PAYLOAD_SIZE) c
       | None \<Rightarrow> Inr data)) (\<lambda>write_data.
     sm_bind (on_wal (append_page_image crc table_id page_no write_data)) (\<lambda>_. sm_ret ())))"

definition register_image :: "cipher_fn \<Rightarrow> u32 \<times> page \<Rightarrow> unit dbop" where
  "register_image c = (\<lambda>(page_no, _). on_file (sm_modify (register_page_cipher page_no c)))"

definition commit_write :: "crc_fn \<Rightarrow> durability \<Rightarrow> u32 \<Rightarrow> cipher_fn option \<Rightarrow> unit dbop" where
  "commit_write crc dur table_id cipher =
     sm_bind (on_file commit_guard) (\<lambda>after_images.
     sm_bind (case cipher of Some c \<Rightarrow> sm_fold (register_image c) after_images | None \<Rightarrow> sm_ret ()) (\<lambda>_.
     case dur of
       Immediate \<Rightarrow> sm_fold (log_image crc table_id cipher) after_images
     | Normal \<Rightarrow> sm_fold (log_image crc table_id cipher) after_images
     | NoLog \<Rightarrow> sm_ret ()))"

definition snapshot_table_metas :: "database \<Rightarrow> table_meta list \<times> u32" where
  "snapshot_table_metas db = (map snd (db_tables db), db_next_table_id db)"

definition put_pages :: "(u32 \<times> page) list \<Rightarrow> unit guarded" where
  "put_pages = sm_fold (\<lambda>(n, p). put_page n p)"

definition persist_registry :: "crc_fn \<Rightarrow> table_meta list \<Rightarrow> u32 \<Rightarrow> durability \<Rightarrow> unit dbop" where
  "persist_registry crc metas next_table_id dur =
     sm_bind (on_file (\<lambda>f.
       sm_bind (if page_count f = 0 then sm_bind allocate_page (\<lambda>_. sm_ret ()) else sm_ret ()) (\<lambda>_.
       sm_bind (serialize_system_page crc metas next_table_id) (\<lambda>(page0, overflow_pages).
       sm_bind (put_page 0 page0) (\<lambda>_. put_pages overflow_pages))) f)) (\<lambda>_.
     commit_write crc dur 0 None)"

section \<open>Indexes\<close>

text \<open>
  The columns of an index: ids from the name map, types from the first column of that name. An index
  with a column that is not found in both is skipped.
\<close>

definition resolve_column :: "table_meta \<Rightarrow> rstring \<Rightarrow> (u16 \<times> col_type) option" where
  "resolve_column m idx_col =
     (case (col_id m idx_col, map_option cd_type (find (\<lambda>c. cd_name c = idx_col) (tm_columns m))) of
        (Some cid, Some ct) \<Rightarrow> Some (cid, ct)
      | _ \<Rightarrow> None)"

definition resolve_columns :: "table_meta \<Rightarrow> index_meta \<Rightarrow> (u16 \<times> col_type) list option" where
  "resolve_columns m idx = those (map (resolve_column m) (im_columns idx))"

definition column_or_null :: "bytes \<Rightarrow> u16 \<Rightarrow> db_value res" where
  "column_or_null row_bytes cid =
     res_bind (extract_column row_bytes cid) (\<lambda>v. Inr (case v of Some x \<Rightarrow> x | None \<Rightarrow> Null))"

text \<open>The key and the value prefix of a row in an index; \<^const>\<open>None\<close> when it is not indexed.\<close>

definition index_key_of :: "table_meta \<Rightarrow> index_meta \<Rightarrow> u64 \<Rightarrow> bytes \<Rightarrow> bytes option res" where
  "index_key_of m idx rowid row_bytes =
     (case resolve_columns m idx of
        None \<Rightarrow> Inr None
      | Some cols \<Rightarrow>
          res_bind (res_map (column_or_null row_bytes) (map fst cols)) (\<lambda>col_vals.
          encode_composite_index_key (map snd cols) col_vals rowid))"

definition index_prefix_of :: "table_meta \<Rightarrow> index_meta \<Rightarrow> bytes \<Rightarrow> bytes option res" where
  "index_prefix_of m idx row_bytes =
     (case resolve_columns m idx of
        None \<Rightarrow> Inr None
      | Some cols \<Rightarrow>
          res_bind (res_map (column_or_null row_bytes) (map fst cols)) (\<lambda>col_vals.
          encode_composite_value_prefix (map snd cols) col_vals))"

definition set_index_root :: "nat \<Rightarrow> u32 \<Rightarrow> table_meta \<Rightarrow> table_meta" where
  "set_index_root i root m = m\<lparr>tm_indexes := (tm_indexes m)[i := (tm_indexes m ! i)\<lparr>im_root_page := root\<rparr>]\<rparr>"

text \<open>One index of the loop: the tree changes through the guard, its root in the metadata.\<close>

definition index_update_one :: "crc_fn \<Rightarrow> rstring \<Rightarrow> u64 \<Rightarrow> bytes \<Rightarrow> bool \<Rightarrow> nat \<Rightarrow> unit dbop" where
  "index_update_one crc table rowid row_bytes remove i =
     sm_bind (sm_view (table_of table)) (\<lambda>m.
     let idx = tm_indexes m ! i in
     sm_bind (sm_lift (index_key_of m idx rowid row_bytes)) (\<lambda>key.
     case key of
       None \<Rightarrow> sm_ret ()
     | Some k \<Rightarrow>
         sm_bind (on_file (if remove
             then sm_bind (idx_delete crc (im_root_page idx) k) (\<lambda>_. sm_ret (im_root_page idx))
             else idx_insert crc (im_root_page idx) k)) (\<lambda>root.
         set_meta table (set_index_root i root m))))"

definition index_update_row :: "crc_fn \<Rightarrow> rstring \<Rightarrow> u64 \<Rightarrow> bytes \<Rightarrow> bool \<Rightarrow> unit dbop" where
  "index_update_row crc table rowid row_bytes remove =
     sm_bind (sm_view (table_of table)) (\<lambda>m.
     sm_fold (index_update_one crc table rowid row_bytes remove) [0..<length (tm_indexes m)])"

definition enforce_unique_index :: "crc_fn \<Rightarrow> page_file \<Rightarrow> table_meta \<Rightarrow> bytes \<Rightarrow> index_meta \<Rightarrow> unit res" where
  "enforce_unique_index crc f m row_bytes idx =
     (if \<not> im_unique idx then Inr ()
      else
        res_bind (index_prefix_of m idx row_bytes) (\<lambda>pre.
        case pre of
          None \<Rightarrow> Inr ()
        | Some p \<Rightarrow>
            res_bind (scan_prefix (view_page crc f) (unat (page_count f)) (im_root_page idx) p) (\<lambda>keys.
            ensure (keys = []) (UniqueViolation (im_name idx)))))"

definition enforce_unique_indexes :: "crc_fn \<Rightarrow> page_file \<Rightarrow> table_meta \<Rightarrow> bytes \<Rightarrow> unit res" where
  "enforce_unique_indexes crc f m row_bytes =
     res_fold (\<lambda>idx _. enforce_unique_index crc f m row_bytes idx) (tm_indexes m) ()"

type_synonym fields = "(rstring \<times> db_value) list"

definition enforce_index_type :: "table_meta \<Rightarrow> fields \<Rightarrow> index_meta \<Rightarrow> unit res" where
  "enforce_index_type m data idx =
     (case im_columns idx of
        [] \<Rightarrow> Inl Panicked
      | idx_col # _ \<Rightarrow>
          (case find (\<lambda>(name, _). name = idx_col) data of
             None \<Rightarrow> Inr ()
           | Some (_, val) \<Rightarrow>
               if is_null val then Inr ()
               else
                 (case map_option cd_type (find (\<lambda>c. cd_name c = idx_col) (tm_columns m)) of
                    None \<Rightarrow> Inr ()
                  | Some ct \<Rightarrow>
                      res_bind (ensure (value_type val = Some ct) (TypeMismatch ''column type'')) (\<lambda>_.
                      res_bind (ensure (case val of Real f \<Rightarrow> \<not> f64_is_nan f | _ \<Rightarrow> True)
                        (TypeMismatch ''NaN not allowed in indexed columns'')) (\<lambda>_.
                      ensure (case val of Text s \<Rightarrow> 0 \<notin> set s | _ \<Rightarrow> True)
                        (TypeMismatch ''null bytes not allowed in indexed text columns''))))))"

definition enforce_index_types :: "table_meta \<Rightarrow> fields \<Rightarrow> unit res" where
  "enforce_index_types m data = res_fold (\<lambda>idx _. enforce_index_type m data idx) (tm_indexes m) ()"

section \<open>Rows\<close>

record db_row =
  row_no :: u64
  row_data :: bytes
  row_col_names :: "rstring list"
  row_col_defs :: "column_def list"

definition row_from_raw :: "bytes \<Rightarrow> rstring list \<Rightarrow> column_def list \<Rightarrow> db_row res" where
  "row_from_raw b col_names col_defs =
     res_bind (extract_id b) (\<lambda>id.
     Inr \<lparr>row_no = id, row_data = b, row_col_names = col_names, row_col_defs = col_defs\<rparr>)"

text \<open>\<^verbatim>\<open>.ok().flatten()\<close> of a column lookup.\<close>

definition stored_column :: "bytes \<Rightarrow> u16 \<Rightarrow> db_value option res" where
  "stored_column b cid = res_bind (res_ok (extract_column b cid)) (\<lambda>v. Inr (Option.bind v (\<lambda>x. x)))"

text \<open>The first position with this name whose definition is live.\<close>

definition live_position :: "rstring \<Rightarrow> rstring list \<Rightarrow> column_def list \<Rightarrow> nat option" where
  "live_position column names defs =
     find (\<lambda>i. names ! i = column \<and> i < length defs \<and> \<not> cd_dropped (defs ! i)) [0..<length names]"

definition row_get :: "db_row \<Rightarrow> rstring \<Rightarrow> db_value option res" where
  "row_get r column =
     (if column = AUTO_ID_COL then Inr (Some (Integer (row_no r)))
      else
        (case live_position column (row_col_names r) (row_col_defs r) of
           None \<Rightarrow> Inr None
         | Some i \<Rightarrow>
             res_bind (stored_column (row_data r) (as_u16 i)) (\<lambda>stored.
             case stored of
               Some v \<Rightarrow> Inr (Some v)
             | None \<Rightarrow>
                 Inr (let cid = unat (as_u16 i) in
                      if cid < length (row_col_defs r) then cd_default (row_col_defs r ! cid) else None))))"

definition row_column_at :: "db_row \<Rightarrow> nat \<Rightarrow> (rstring \<times> db_value) list res" where
  "row_column_at r i =
     (let df = row_col_defs r ! i in
      if cd_dropped df then Inr []
      else if length (row_col_names r) \<le> i then Inr []
      else
        res_bind (stored_column (row_data r) (as_u16 i)) (\<lambda>stored.
        Inr (case stored of
               Some v \<Rightarrow> [(row_col_names r ! i, v)]
             | None \<Rightarrow> (case cd_default df of Some d \<Rightarrow> [(row_col_names r ! i, d)] | None \<Rightarrow> []))))"

definition row_columns :: "db_row \<Rightarrow> (rstring \<times> db_value) list res" where
  "row_columns r = res_bind (res_map (row_column_at r) [0..<length (row_col_defs r)]) (\<lambda>cs. Inr (concat cs))"

section \<open>Row operations\<close>

definition row_values :: "table_meta \<Rightarrow> fields \<Rightarrow> columns" where
  "row_values m data =
     List.map_filter (\<lambda>(name, val). map_option (\<lambda>cid. (cid, val)) (col_id m name)) data"

definition size_check :: "database \<Rightarrow> bytes \<Rightarrow> unit res" where
  "size_check db row_bytes =
     ensure (length row_bytes \<le> unat (db_max_row_size db)) (RowTooLarge (length row_bytes))"

text \<open>The write guard section that both insertions share, and the row count after it.\<close>

definition store_row :: "crc_fn \<Rightarrow> durability \<Rightarrow> rstring \<Rightarrow> u64 \<Rightarrow> bytes \<Rightarrow> unit dbop" where
  "store_row crc dur table rowid row_bytes =
     sm_bind (sm_view (table_of table)) (\<lambda>m.
     sm_bind (on_file (btree_insert crc (tm_root_page m) rowid row_bytes)) (\<lambda>new_root.
     sm_bind (set_meta table (m\<lparr>tm_root_page := new_root\<rparr>)) (\<lambda>_.
     sm_bind (if tm_indexes m \<noteq> [] then index_update_row crc table rowid row_bytes False else sm_ret ()) (\<lambda>_.
     commit_write crc dur (tm_table_id m) (tm_cipher m)))))"

definition bump_row_count :: "rstring \<Rightarrow> unit dbop" where
  "bump_row_count table =
     sm_bind (sm_view (table_of table)) (\<lambda>m.
     sm_bind (sm_lift (must (tm_row_count m \<noteq> - 1))) (\<lambda>_.
     set_meta table (m\<lparr>tm_row_count := tm_row_count m + 1\<rparr>)))"

text \<open>A unique violation gives the consumed rowid back; a row that is too large does not.\<close>

definition insert_direct :: "crc_fn \<Rightarrow> rstring \<Rightarrow> fields \<Rightarrow> u64 dbop" where
  "insert_direct crc table data =
     sm_bind (open_table table) (\<lambda>m.
     sm_bind (sm_lift (enforce_index_types m data)) (\<lambda>_.
     let rowid = tm_next_rowid m in
     sm_bind (sm_lift (must (rowid \<noteq> - 1))) (\<lambda>_.
     sm_bind (set_meta table (m\<lparr>tm_next_rowid := rowid + 1\<rparr>)) (\<lambda>_.
     let row_bytes = encode_row rowid (row_values m data) in
     sm_bind (sm_view (\<lambda>db. size_check db row_bytes)) (\<lambda>_.
     sm_bind (sm_view (\<lambda>db. Inr (if tm_indexes m \<noteq> [] then enforce_unique_indexes crc (db_file db) m row_bytes else Inr ()))) (\<lambda>unique.
     sm_bind (case unique of
         Inl (Fail e) \<Rightarrow> sm_bind (set_meta table m) (\<lambda>_. sm_lift (Inl (Fail e)))
       | Inl Panicked \<Rightarrow> sm_lift (Inl Panicked)
       | Inr _ \<Rightarrow> sm_ret ()) (\<lambda>_.
     sm_bind (sm_view (\<lambda>db. Inr (db_durability db))) (\<lambda>dur.
     sm_bind (store_row crc dur table rowid row_bytes) (\<lambda>_.
     sm_bind (bump_row_count table) (\<lambda>_.
     sm_ret rowid))))))))))"

definition insert_with_id_direct :: "crc_fn \<Rightarrow> rstring \<Rightarrow> u64 \<Rightarrow> fields \<Rightarrow> unit dbop" where
  "insert_with_id_direct crc table rowid data =
     sm_bind (open_table table) (\<lambda>m.
     sm_bind (sm_lift (enforce_index_types m data)) (\<lambda>_.
     let row_bytes = encode_row rowid (row_values m data) in
     sm_bind (sm_view (\<lambda>db. size_check db row_bytes)) (\<lambda>_.
     sm_bind (sm_view (\<lambda>db. if tm_indexes m \<noteq> [] then enforce_unique_indexes crc (db_file db) m row_bytes else Inr ())) (\<lambda>_.
     sm_bind (if tm_next_rowid m \<le> rowid
       then sm_bind (sm_lift (must (rowid \<noteq> - 1))) (\<lambda>_. set_meta table (m\<lparr>tm_next_rowid := rowid + 1\<rparr>))
       else sm_ret ()) (\<lambda>_.
     sm_bind (sm_view (\<lambda>db. Inr (db_durability db))) (\<lambda>dur.
     sm_bind (store_row crc dur table rowid row_bytes) (\<lambda>_.
     bump_row_count table)))))))"

definition db_get :: "crc_fn \<Rightarrow> rstring \<Rightarrow> u64 \<Rightarrow> database \<Rightarrow> db_row option res" where
  "db_get crc table rid db =
     res_bind (table_of table db) (\<lambda>m.
     res_bind (check_table_accessible m table) (\<lambda>_.
     res_bind (search (view_page crc (db_file db)) (tm_root_page m) rid) (\<lambda>result.
     case result of
       Some b \<Rightarrow> res_bind (row_from_raw b (tm_col_names m) (tm_col_defs m)) (\<lambda>r. Inr (Some r))
     | None \<Rightarrow> Inr None)))"

text \<open>
  The merge of an update: the decoded columns and then the named fields, collected into a
  \<^verbatim>\<open>HashMap\<close>; its iteration order does not matter to \<open>encode_row\<close>, which sorts.
\<close>

definition collect_map :: "('k \<times> 'v) list \<Rightarrow> ('k \<times> 'v) list \<Rightarrow> ('k \<times> 'v) list" where
  "collect_map kvs acc = fold (\<lambda>(k, v). AList.update k v) kvs acc"

definition merge_fields :: "table_meta \<Rightarrow> columns \<Rightarrow> fields \<Rightarrow> columns" where
  "merge_fields m existing fs = collect_map (row_values m fs) (collect_map existing [])"

definition update_direct :: "crc_fn \<Rightarrow> rstring \<Rightarrow> u64 \<Rightarrow> fields \<Rightarrow> bool dbop" where
  "update_direct crc table rid fs =
     sm_bind (open_table table) (\<lambda>m.
     sm_bind (sm_lift (enforce_index_types m fs)) (\<lambda>_.
     sm_bind (sm_view (\<lambda>db. search (view_page crc (db_file db)) (tm_root_page m) rid)) (\<lambda>found.
     case found of
       None \<Rightarrow> sm_ret False
     | Some existing_bytes \<Rightarrow>
         sm_bind (sm_lift (decode_row existing_bytes)) (\<lambda>existing.
         let new_row = encode_row rid (merge_fields m (dr_columns existing) fs) in
         sm_bind (sm_view (\<lambda>db. Inr (db_durability db))) (\<lambda>dur.
         sm_bind (if tm_indexes m \<noteq> [] then index_update_row crc table rid existing_bytes True else sm_ret ()) (\<lambda>_.
         sm_bind (on_file (btree_delete crc (tm_root_page m) rid)) (\<lambda>_.
         sm_bind (on_file (btree_insert crc (tm_root_page m) rid new_row)) (\<lambda>new_root.
         sm_bind (sm_view (table_of table)) (\<lambda>m'.
         sm_bind (set_meta table (m'\<lparr>tm_root_page := new_root\<rparr>)) (\<lambda>_.
         sm_bind (if tm_indexes m \<noteq> [] then index_update_row crc table rid new_row False else sm_ret ()) (\<lambda>_.
         sm_bind (commit_write crc dur (tm_table_id m) (tm_cipher m)) (\<lambda>_.
         sm_ret True))))))))))))"

definition delete_direct :: "crc_fn \<Rightarrow> rstring \<Rightarrow> u64 \<Rightarrow> bool dbop" where
  "delete_direct crc table rid =
     sm_bind (open_table table) (\<lambda>m.
     sm_bind (sm_view (\<lambda>db. if tm_indexes m \<noteq> []
         then search (view_page crc (db_file db)) (tm_root_page m) rid else Inr None)) (\<lambda>row_bytes_for_index.
     sm_bind (sm_view (\<lambda>db. Inr (db_durability db))) (\<lambda>dur.
     sm_bind (on_file (btree_delete crc (tm_root_page m) rid)) (\<lambda>deleted.
     sm_bind (case row_bytes_for_index of
         Some b \<Rightarrow> if deleted then index_update_row crc table rid b True else sm_ret ()
       | None \<Rightarrow> sm_ret ()) (\<lambda>_.
     sm_bind (commit_write crc dur (tm_table_id m) (tm_cipher m)) (\<lambda>_.
     sm_bind (if deleted then
         sm_bind (sm_view (table_of table)) (\<lambda>m'.
         sm_bind (sm_lift (must (tm_row_count m' \<noteq> 0))) (\<lambda>_.
         set_meta table (m'\<lparr>tm_row_count := tm_row_count m' - 1\<rparr>)))
       else sm_ret ()) (\<lambda>_.
     sm_ret deleted)))))))"

section \<open>Tables\<close>

definition persist :: "crc_fn \<Rightarrow> unit dbop" where
  "persist crc =
     sm_bind (sm_view (\<lambda>db. Inr (snapshot_table_metas db))) (\<lambda>(metas, next_id).
     sm_bind (sm_view (\<lambda>db. Inr (db_durability db))) (\<lambda>dur.
     persist_registry crc metas next_id dur))"

text \<open>The write guard section of \<^verbatim>\<open>create_table\<close>: it commits the new root before the registry knows it.\<close>

definition commit_new_root :: "crc_fn \<Rightarrow> durability \<Rightarrow> (u32 \<times> u32) dbop" where
  "commit_new_root crc dur =
     sm_bind (on_file (\<lambda>f.
       sm_bind (if page_count f = 0 then sm_bind allocate_page (\<lambda>_. sm_ret ()) else sm_ret ()) (\<lambda>_.
       btree_create crc) f)) (\<lambda>root.
     sm_bind (sm_view (\<lambda>db. Inr (db_next_table_id db))) (\<lambda>table_id.
     sm_bind (sm_lift (must (table_id \<noteq> - 1))) (\<lambda>_.
     sm_bind (sm_modify (\<lambda>db. db\<lparr>db_next_table_id := table_id + 1\<rparr>)) (\<lambda>_.
     sm_bind (commit_write crc dur table_id None) (\<lambda>_.
     sm_ret (root, table_id))))))"

definition create_table :: "crc_fn \<Rightarrow> rstring \<Rightarrow> column_def list \<Rightarrow> unit dbop" where
  "create_table crc name columns =
     sm_bind (sm_view (\<lambda>db. ensure (map_of (db_tables db) name = None) (TableExists name))) (\<lambda>_.
     sm_bind (sm_view (\<lambda>db. Inr (db_durability db))) (\<lambda>dur.
     sm_bind (commit_new_root crc dur) (\<lambda>(root, table_id).
     sm_bind (set_meta name (table_meta_new name table_id columns root)) (\<lambda>_.
     persist crc))))"

definition drop_table :: "crc_fn \<Rightarrow> rstring \<Rightarrow> unit dbop" where
  "drop_table crc name =
     sm_bind (sm_view (table_of name)) (\<lambda>_.
     sm_bind (sm_modify (\<lambda>db. db\<lparr>db_tables := AList.delete name (db_tables db)\<rparr>)) (\<lambda>_.
     persist crc))"

end
