(* ===== verification/Table_State.thy ===== *)
theory Table_State
  imports Database
begin

text \<open>
  When a table is in order: its row tree is, every index tree is, the trees share no page, and every
  index holds exactly the keys of the rows, sorted. The lemmas take this state through the parts of a
  row operation: the loop over the indexes, the write guard section of an insertion, the commit.
  Other tables keep their pages.
\<close>

section \<open>Frames\<close>

lemma index_in_frame:
  assumes "index_in crc f it" "\<forall>n \<in> set (tree_pages it). guard_view crc f' n = guard_view crc f n" "guard_next f \<le> guard_next f'"
  shows "index_in crc f' it"
proof -
  note t = assms(1) [unfolded index_in_def index_tree_def]
  have "branches_at idx_branch (guard_view crc f') it"
    by (rule branches_at_frame [where rd = "guard_view crc f"]) (use t assms(2) in \<open>auto simp: tree_pages_def\<close>)
  moreover have "chain_ok (guard_view crc f') 0 (leaves it) 0"
    by (rule chain_ok_frame [where rd = "guard_view crc f"]) (use t assms(2) in \<open>auto simp: tree_pages_def\<close>)
  ultimately show ?thesis using t assms(3) unfolding index_in_def index_tree_def by (auto intro: less_le_trans)
qed

lemma tree_in_frame:
  assumes "tree_in crc f P t" "\<forall>n \<in> set (tree_pages t) \<union> P. guard_view crc f' n = guard_view crc f n" "guard_next f \<le> guard_next f'"
  shows "tree_in crc f' P t" "guard_contents crc f' t = guard_contents crc f t"
proof -
  note t = assms(1) [unfolded tree_in_def row_tree_def]
  have "branches_at branch_page (guard_view crc f') t"
    by (rule branches_at_frame [where rd = "guard_view crc f"]) (use t assms(2) in \<open>auto simp: tree_pages_def\<close>)
  moreover have "chain_ok (guard_view crc f') 0 (leaves t) 0"
    by (rule chain_ok_frame [where rd = "guard_view crc f"]) (use t assms(2) in \<open>auto simp: tree_pages_def\<close>)
  moreover have "\<forall>r \<in> set (tree_rows t). stored (guard_view crc f') P r"
  proof -
    have P: "\<forall>n \<in> P. guard_view crc f' n = guard_view crc f n" using assms(2) by blast
    show ?thesis using stored_frame(1) [OF _ P] t by blast
  qed
  ultimately show "tree_in crc f' P t" using t assms(3) unfolding tree_in_def row_tree_def by (auto intro: less_le_trans)
  have P: "\<forall>n \<in> P. guard_view crc f' n = guard_view crc f n" using assms(2) by blast
  show "guard_contents crc f' t = guard_contents crc f t"
    unfolding contents_def by (rule contents_frame [OF _ P]) (use t in auto)
qed

section \<open>The state operations\<close>

lemma on_file_run: "m (db_file db) = (r, f) \<Longrightarrow> on_file m db = (r, db\<lparr>db_file := f\<rparr>)"
  by (simp add: on_file_def)

lemma on_file_bind: "m (db_file db) = (Inr x, f) \<Longrightarrow> sm_bind (on_file m) k db = k x (db\<lparr>db_file := f\<rparr>)"
  by (simp add: sm_bind_def on_file_def)

lemma set_meta_bind [simp]: "sm_bind (set_meta table m) k db = k () (db\<lparr>db_tables := AList.update table m (db_tables db)\<rparr>)"
  by (simp add: set_meta_def)

lemma set_meta_run [simp]: "set_meta table m db = (Inr (), db\<lparr>db_tables := AList.update table m (db_tables db)\<rparr>)"
  by (simp add: set_meta_def)

lemma table_of_update [simp]:
  "table_of table (db\<lparr>db_tables := AList.update table m ts\<rparr>) = Inr m"
  by (simp add: table_of_def update_conv')

lemma table_of_cong [simp]:
  "table_of table (db\<lparr>db_file := f\<rparr>) = table_of table db" "table_of table (db\<lparr>db_wal := w\<rparr>) = table_of table db"
  by (simp_all add: table_of_def)

lemma sm_fold_append: "sm_fold g (xs @ ys) = sm_bind (sm_fold g xs) (\<lambda>_. sm_fold g ys)"
proof (induction xs)
  case Nil
  then show ?case by (simp add: fun_eq_iff sm_bind_def sm_ret_def)
next
  case (Cons x xs)
  then show ?case by (simp add: sm_bind_assoc)
qed

lemma sm_fold_snoc_run:
  assumes "sm_fold g xs s = (Inr (), s')"
  shows "sm_fold g (xs @ [x]) s = g x s'"
proof -
  have "sm_fold g [x] s' = g x s'" by (simp add: sm_bind_def sm_ret_def split: prod.split sum.split)
  with assms show ?thesis by (simp add: sm_fold_append sm_bind_def del: sm_fold.simps)
qed

section \<open>One index\<close>

text \<open>The keys of an index after a row with key \<open>ko\<close> was removed or added.\<close>

definition changed_keys :: "bool \<Rightarrow> bytes option \<Rightarrow> bytes list \<Rightarrow> bytes list" where
  "changed_keys remove ko ks = (case ko of None \<Rightarrow> ks | Some k \<Rightarrow> if remove then filter (\<lambda>x. x \<noteq> k) ks else insort k ks)"

definition key_ready :: "bool \<Rightarrow> bytes option \<Rightarrow> bytes list \<Rightarrow> bool" where
  "key_ready remove ko ks \<longleftrightarrow> (case ko of None \<Rightarrow> True | Some k \<Rightarrow> remove \<or> length k \<le> 36 \<and> k \<notin> set ks)"

text \<open>What the change of one tree may touch.\<close>

definition index_changed ::
  "crc_fn \<Rightarrow> bool \<Rightarrow> bytes option \<Rightarrow> page_file \<Rightarrow> bytes btree \<Rightarrow> page_file \<Rightarrow> bytes btree \<Rightarrow> bool" where
  "index_changed crc remove ko f it f' it' \<longleftrightarrow>
     index_in crc f' it' \<and> index_keys it' = changed_keys remove ko (index_keys it)
     \<and> height it' \<le> Suc (height it) \<and> (remove \<longrightarrow> height it' = height it)
     \<and> guard_next f \<le> guard_next f' \<and> guard_next f' \<le> guard_next f + 65
     \<and> (\<forall>n \<in> set (tree_pages it'). n \<in> set (tree_pages it) \<or> guard_next f \<le> unat n)
     \<and> (\<forall>n. unat n < guard_next f \<longrightarrow> n \<notin> set (tree_pages it) \<longrightarrow> guard_view crc f' n = guard_view crc f n)
     \<and> (guard_ok f \<longrightarrow> guard_ok f')"

lemma index_unchanged: "index_in crc f it \<Longrightarrow> index_changed crc remove None f it f it"
  by (simp add: index_changed_def changed_keys_def)

lemma index_tree_step:
  assumes "index_in crc f it" "height it \<le> MAX_TREE_DEPTH" "key_ready remove (Some k) (index_keys it)"
    and "guard_next f + 65 < 2 ^ 32 - 1"
  shows "\<exists>f' it'. (if remove then sm_bind (idx_delete crc (root_of it) k) (\<lambda>_. sm_ret (root_of it)) else idx_insert crc (root_of it) k) f
      = (Inr (root_of it'), f') \<and> index_changed crc remove (Some k) f it f' it'"
proof (cases remove)
  case True
  have ok: "guard_ok f \<longrightarrow> guard_ok (snd (idx_delete crc (root_of it) k f))"
    using idx_ops_safe(2) [of crc f "root_of it" k] by (simp add: safe_at_def)
  obtain it' f' where d: "idx_delete crc (root_of it) k f = (Inr (k \<in> set (index_keys it)), f')" "index_in crc f' it'"
    "root_of it' = root_of it" "height it' = height it" "tree_pages it' = tree_pages it"
    "index_keys it' = filter (\<lambda>x. x \<noteq> k) (index_keys it)" "guard_next f' = guard_next f"
    "\<forall>m. m \<notin> set (tree_pages it) \<longrightarrow> guard_view crc f' m = guard_view crc f m"
    using idx_delete_run [OF assms(1,2)] by blast
  then show ?thesis using True
    using ok by (intro exI [of _ f'] exI [of _ it']) (simp add: sm_bind_def sm_ret_def changed_keys_def index_changed_def)
next
  case False
  have ok: "guard_ok f \<longrightarrow> guard_ok (snd (idx_insert crc (root_of it) k f))"
    using idx_ops_safe(1) [of crc f "root_of it" k] by (simp add: safe_at_def)
  have k: "length k \<le> 36" "k \<notin> set (index_keys it)" using assms(3) False by (simp_all add: key_ready_def)
  have "guard_next f + 1 + height it < 2 ^ 32 - 1" using assms(2,4) by simp
  from idx_insert_run [OF assms(1,2) k this] obtain it' f' where i: "idx_insert crc (root_of it) k f = (Inr (root_of it'), f')"
    "index_in crc f' it'" "index_keys it' = insort k (index_keys it)" "height it' \<le> Suc (height it)"
    "guard_next f \<le> guard_next f'" "guard_next f' \<le> guard_next f + 1 + height it"
    "\<forall>n \<in> set (tree_pages it'). n \<in> set (tree_pages it) \<or> guard_next f \<le> unat n"
    "\<forall>m. unat m < guard_next f \<longrightarrow> m \<notin> set (tree_pages it) \<longrightarrow> guard_view crc f' m = guard_view crc f m" by blast
  then show ?thesis using False assms(2)
    using ok by (intro exI [of _ f'] exI [of _ it']) (simp add: changed_keys_def index_changed_def)
qed

section \<open>All indexes\<close>

abbreviation index_pages :: "bytes btree \<Rightarrow> u32 set" where
  "index_pages it \<equiv> set (tree_pages it)"

definition with_roots :: "table_meta \<Rightarrow> bytes btree list \<Rightarrow> table_meta" where
  "with_roots m its = m\<lparr>tm_indexes := map2 (\<lambda>idx it. idx\<lparr>im_root_page := root_of it\<rparr>) (tm_indexes m) its\<rparr>"

definition indexes_in :: "crc_fn \<Rightarrow> page_file \<Rightarrow> u32 set \<Rightarrow> bytes btree list \<Rightarrow> bool" where
  "indexes_in crc f Q its \<longleftrightarrow> (\<forall>i < length its. index_in crc f (its ! i) \<and> Q \<inter> index_pages (its ! i) = {})
     \<and> (\<forall>i < length its. \<forall>j < length its. i \<noteq> j \<longrightarrow> index_pages (its ! i) \<inter> index_pages (its ! j) = {})
     \<and> (\<forall>n \<in> Q. unat n < guard_next f)"

definition db_at :: "database \<Rightarrow> rstring \<Rightarrow> page_file \<Rightarrow> table_meta \<Rightarrow> database" where
  "db_at db table f m = db\<lparr>db_file := f, db_tables := AList.update table m (db_tables db)\<rparr>"

lemma alist_update_same: "map_of ts k = Some v \<Longrightarrow> AList.update k v ts = ts"
  by (induction ts) auto

lemma alist_update_again [simp]: "AList.update k v (AList.update k v' ts) = AList.update k v ts"
  by (induction ts) auto

lemma db_at_simps [simp]:
  "db_file (db_at db table f m) = f" "table_of table (db_at db table f m) = Inr m" "db_wal (db_at db table f m) = db_wal db"
  "db_at (db_at db table f m) table f' m' = db_at db table f' m'" "db_durability (db_at db table f m) = db_durability db"
  "db_max_row_size (db_at db table f m) = db_max_row_size db"
  by (simp_all add: db_at_def table_of_def update_conv')

lemma db_at_self: "table_of table db = Inr m \<Longrightarrow> db_at db table (db_file db) m = db"
  by (simp add: db_at_def table_of_def alist_update_same split: option.splits)

text \<open>A key depends on the columns of the table and of the index alone.\<close>

lemma resolve_column_cong:
  "tm_col_name_to_id m' = tm_col_name_to_id m \<Longrightarrow> tm_columns m' = tm_columns m \<Longrightarrow> resolve_column m' = resolve_column m"
  by (rule ext) (simp add: resolve_column_def col_id_def)

lemma index_key_of_cong:
  "tm_col_name_to_id m' = tm_col_name_to_id m \<Longrightarrow> tm_columns m' = tm_columns m \<Longrightarrow> index_key_of m' = index_key_of m"
  using resolve_column_cong [of m' m] by (simp add: index_key_of_def [abs_def] resolve_columns_def)

lemma index_key_of_with_roots [simp]:
  "index_key_of (with_roots m its) = index_key_of m" "index_key_of m (idx\<lparr>im_root_page := r\<rparr>) = index_key_of m idx"
  using index_key_of_cong [of "with_roots m its" m] by (simp_all add: with_roots_def index_key_of_def [abs_def] resolve_columns_def)

lemma with_roots_nth [simp]:
  "length its = length (tm_indexes m) \<Longrightarrow> i < length its \<Longrightarrow>
     tm_indexes (with_roots m its) ! i = (tm_indexes m ! i)\<lparr>im_root_page := root_of (its ! i)\<rparr>"
  "length its = length (tm_indexes m) \<Longrightarrow> length (tm_indexes (with_roots m its)) = length its"
  by (simp_all add: with_roots_def)

lemma set_index_root_with_roots:
  assumes "length its = length (tm_indexes m)" "i < length its"
  shows "set_index_root i (root_of it) (with_roots m its) = with_roots m (its[i := it])"
proof -
  have "(map2 (\<lambda>idx it. idx\<lparr>im_root_page := root_of it\<rparr>) (tm_indexes m) its)[i := (tm_indexes m ! i)\<lparr>im_root_page := root_of it\<rparr>]
      = map2 (\<lambda>idx it. idx\<lparr>im_root_page := root_of it\<rparr>) (tm_indexes m) (its[i := it])"
    using assms by (intro nth_equalityI) (auto simp: nth_list_update)
  then show ?thesis using assms by (simp add: set_index_root_def with_roots_def)
qed

lemma indexes_in_step:
  assumes "indexes_in crc f Q its" "j < length its" "index_changed crc remove ko f (its ! j) f' it'"
  shows "indexes_in crc f' Q (its[j := it'])"
    "\<forall>n. unat n < guard_next f \<longrightarrow> n \<notin> index_pages (its ! j) \<longrightarrow> guard_view crc f' n = guard_view crc f n"
proof -
  note c = assms(3) [unfolded index_changed_def]
  show frame: "\<forall>n. unat n < guard_next f \<longrightarrow> n \<notin> index_pages (its ! j) \<longrightarrow> guard_view crc f' n = guard_view crc f n"
    using c by blast
  have new: "n \<in> index_pages (its ! j) \<or> guard_next f \<le> unat n" if "n \<in> index_pages it'" for n using c that by blast
  have below: "unat n < guard_next f" if "n \<in> index_pages (its ! i)" "i < length its" for n i
    using assms(1) that by (auto simp: indexes_in_def index_in_def)
  have apart: "index_pages (its ! i) \<inter> index_pages it' = {}" if "i < length its" "i \<noteq> j" for i
    using new below [of _ i] that assms(1,2) by (fastforce simp: indexes_in_def)
  have Q: "\<forall>n \<in> Q. unat n < guard_next f" "Q \<inter> index_pages (its ! j) = {}" using assms(1,2) by (auto simp: indexes_in_def)
  then have Q': "Q \<inter> index_pages it' = {}" using new by fastforce
  have keep: "index_in crc f' (its ! i)" if i: "i < length its" "i \<noteq> j" for i
  proof (rule index_in_frame)
    show "index_in crc f (its ! i)" using assms(1) i by (simp add: indexes_in_def)
    show "\<forall>n \<in> index_pages (its ! i). guard_view crc f' n = guard_view crc f n"
      using frame below [OF _ i(1)] assms(1,2) i by (fastforce simp: indexes_in_def)
  qed (use c in simp)
  show "indexes_in crc f' Q (its[j := it'])"
    unfolding indexes_in_def
  proof (intro conjI allI impI)
    fix i assume i: "i < length (its[j := it'])"
    show "index_in crc f' (its[j := it'] ! i)" using keep i c by (cases "i = j") auto
    show "Q \<inter> index_pages (its[j := it'] ! i) = {}" using Q' i assms(1) by (cases "i = j") (auto simp: indexes_in_def)
    fix k assume k: "k < length (its[j := it'])" "i \<noteq> k"
    show "index_pages (its[j := it'] ! i) \<inter> index_pages (its[j := it'] ! k) = {}"
      using apart [of i] apart [of k] i k assms(1,2) by (cases "i = j"; cases "k = j") (auto simp: indexes_in_def)
  next
    show "\<forall>n \<in> Q. unat n < guard_next f'" using Q(1) c by auto
  qed
qed

lemma index_update_one_run:
  assumes t: "table_of table db = Inr (with_roots m its)" and l: "length its = length (tm_indexes m)" "j < length its"
    and it: "indexes_in crc (db_file db) Q its" and h: "height (its ! j) \<le> MAX_TREE_DEPTH"
    and key: "index_key_of m (tm_indexes m ! j) rowid row = Inr ko" "key_ready remove ko (index_keys (its ! j))"
    and space: "guard_next (db_file db) + 65 < 2 ^ 32 - 1"
  shows "\<exists>f' it'. index_update_one crc table rowid row remove j db = (Inr (), db_at db table f' (with_roots m (its[j := it'])))
    \<and> index_changed crc remove ko (db_file db) (its ! j) f' it'"
proof -
  have ii: "index_in crc (db_file db) (its ! j)" using it l(2) by (simp add: indexes_in_def)
  show ?thesis
  proof (cases ko)
    case None
    have "db_at db table (db_file db) (with_roots m (its[j := its ! j])) = db"
      using db_at_self [OF t] by simp
    then show ?thesis using t l key(1) None index_unchanged [OF ii]
      by (intro exI [of _ "db_file db"] exI [of _ "its ! j"]) (simp add: index_update_one_def sm_bind_def sm_view_def sm_lift_def sm_ret_def Let_def)
  next
    case (Some k)
    define M where "M = (if remove then sm_bind (idx_delete crc (root_of (its ! j)) k) (\<lambda>_. sm_ret (root_of (its ! j)))
        else idx_insert crc (root_of (its ! j)) k)"
    obtain f' it' where s: "M (db_file db) = (Inr (root_of it'), f')" "index_changed crc remove ko (db_file db) (its ! j) f' it'"
      using index_tree_step [OF ii h _ space] key(2) Some unfolding M_def by metis
    have "index_update_one crc table rowid row remove j db
        = sm_bind (on_file M) (\<lambda>root. set_meta table (set_index_root j root (with_roots m its))) db"
      using t l key(1) Some by (simp add: index_update_one_def sm_bind_view Let_def M_def)
    then have "index_update_one crc table rowid row remove j db
        = set_meta table (set_index_root j (root_of it') (with_roots m its)) (db\<lparr>db_file := f'\<rparr>)"
      using s(1) by (simp add: on_file_bind [where m = M])
    then show ?thesis using s(2) set_index_root_with_roots [OF l] by (auto simp: db_at_def)
  qed
qed

text \<open>What the loop over the indexes has done after \<open>j\<close> rounds.\<close>

definition indexes_changed ::
  "crc_fn \<Rightarrow> bool \<Rightarrow> (nat \<Rightarrow> bytes option) \<Rightarrow> nat \<Rightarrow> page_file \<Rightarrow> bytes btree list \<Rightarrow> page_file \<Rightarrow> bytes btree list \<Rightarrow> bool" where
  "indexes_changed crc remove ko j f its f' its' \<longleftrightarrow> length its' = length its
     \<and> (\<forall>i < length its. index_keys (its' ! i) = (if i < j then changed_keys remove (ko i) (index_keys (its ! i)) else index_keys (its ! i))
          \<and> (i < j \<or> its' ! i = its ! i)
          \<and> height (its' ! i) \<le> Suc (height (its ! i)) \<and> (remove \<longrightarrow> height (its' ! i) = height (its ! i))
          \<and> (\<forall>n \<in> index_pages (its' ! i). n \<in> index_pages (its ! i) \<or> guard_next f \<le> unat n))
     \<and> guard_next f \<le> guard_next f' \<and> guard_next f' \<le> guard_next f + 65 * j
     \<and> (\<forall>n. unat n < guard_next f \<longrightarrow> (\<forall>i < length its. n \<notin> index_pages (its ! i)) \<longrightarrow> guard_view crc f' n = guard_view crc f n)
     \<and> (guard_ok f \<longrightarrow> guard_ok f')"

lemma indexes_changed_0: "indexes_changed crc remove ko 0 f its f its"
  by (simp add: indexes_changed_def)

lemma indexes_changed_step:
  assumes c: "indexes_changed crc remove ko j f its f1 its1" and j: "j < length its"
    and s: "index_changed crc remove (ko j) f1 (its1 ! j) f2 it'"
  shows "indexes_changed crc remove ko (Suc j) f its f2 (its1[j := it'])"
proof -
  note c' = c [unfolded indexes_changed_def] and s' = s [unfolded index_changed_def]
  have l: "length its1 = length its" and same: "its1 ! j = its ! j" and le: "guard_next f \<le> guard_next f1" using c' j by auto
  have new: "n \<in> index_pages (its ! j) \<or> guard_next f \<le> unat n" if "n \<in> index_pages it'" for n
    using s' that le same by fastforce
  show ?thesis
    unfolding indexes_changed_def
  proof (intro conjI allI impI)
    show "length (its1[j := it']) = length its" using l by simp
    show "guard_ok f \<Longrightarrow> guard_ok f2" using c' s' by blast
    show "guard_next f \<le> guard_next f2" "guard_next f2 \<le> guard_next f + 65 * Suc j" using c' s' by auto
    fix n :: u32 assume n: "unat n < guard_next f" "\<forall>i < length its. n \<notin> index_pages (its ! i)"
    then have "n \<notin> index_pages (its1 ! j)" using j same by simp
    moreover have "unat n < guard_next f1" using n(1) le by simp
    ultimately show "guard_view crc f2 n = guard_view crc f n" using n c' s' by simp
  next
    fix i assume i: "i < length its"
    show "index_keys (its1[j := it'] ! i) =
        (if i < Suc j then changed_keys remove (ko i) (index_keys (its ! i)) else index_keys (its ! i))"
      using c' s' i l same by (cases "i = j") auto
    show "i < Suc j \<or> its1[j := it'] ! i = its ! i" using c' i by (cases "i = j") auto
    show "height (its1[j := it'] ! i) \<le> Suc (height (its ! i))" using c' s' i l same by (cases "i = j") auto
    show "remove \<Longrightarrow> height (its1[j := it'] ! i) = height (its ! i)" using c' s' i l same by (cases "i = j") auto
    show "\<forall>n \<in> index_pages (its1[j := it'] ! i). n \<in> index_pages (its ! i) \<or> guard_next f \<le> unat n"
      using c' new i l by (cases "i = j") auto
  qed
qed

lemma index_update_prefix:
  assumes t: "table_of table db = Inr (with_roots m its)" and l: "length its = length (tm_indexes m)"
    and it: "indexes_in crc (db_file db) Q its" and h: "\<forall>i < length its. height (its ! i) \<le> MAX_TREE_DEPTH"
    and key: "\<forall>i < length its. index_key_of m (tm_indexes m ! i) rowid row = Inr (ko i) \<and> key_ready remove (ko i) (index_keys (its ! i))"
    and space: "guard_next (db_file db) + 65 * length its < 2 ^ 32 - 1" and j: "j \<le> length its"
  shows "\<exists>f' its'. sm_fold (index_update_one crc table rowid row remove) [0..<j] db = (Inr (), db_at db table f' (with_roots m its'))
    \<and> indexes_in crc f' Q its' \<and> indexes_changed crc remove ko j (db_file db) its f' its'"
  using j
proof (induction j)
  case 0
  show ?case using it indexes_changed_0 db_at_self [OF t] by (intro exI [of _ "db_file db"] exI [of _ its]) simp
next
  case (Suc j)
  then obtain f1 its1 where s: "sm_fold (index_update_one crc table rowid row remove) [0..<j] db = (Inr (), db_at db table f1 (with_roots m its1))"
    "indexes_in crc f1 Q its1" "indexes_changed crc remove ko j (db_file db) its f1 its1" by auto
  note c = s(3) [unfolded indexes_changed_def]
  have jl: "j < length its" using Suc.prems by simp
  have l1: "length its1 = length (tm_indexes m)" "j < length its1" using c l jl by simp_all
  have same: "its1 ! j = its ! j" using c jl by blast
  have "guard_next f1 \<le> guard_next (db_file db) + 65 * j" using c by simp
  then have sp: "guard_next (db_file (db_at db table f1 (with_roots m its1))) + 65 < 2 ^ 32 - 1"
    using space Suc.prems by simp
  let ?db = "db_at db table f1 (with_roots m its1)"
  have "\<exists>f2 it'. index_update_one crc table rowid row remove j ?db = (Inr (), db_at ?db table f2 (with_roots m (its1[j := it'])))
      \<and> index_changed crc remove (ko j) (db_file ?db) (its1 ! j) f2 it'"
    by (rule index_update_one_run [where Q = Q, OF _ l1 _ _ _ _ sp]) (use s(2) h key same jl in simp_all)
  then obtain f2 it' where u: "index_update_one crc table rowid row remove j ?db
      = (Inr (), db_at db table f2 (with_roots m (its1[j := it'])))" "index_changed crc remove (ko j) f1 (its1 ! j) f2 it'" by auto
  have "sm_fold (index_update_one crc table rowid row remove) [0..<Suc j] db = (Inr (), db_at db table f2 (with_roots m (its1[j := it'])))"
    using sm_fold_snoc_run [OF s(1)] u(1) by simp
  moreover have "indexes_in crc f2 Q (its1[j := it'])" using indexes_in_step(1) [OF s(2) l1(2) u(2)] .
  moreover have "indexes_changed crc remove ko (Suc j) (db_file db) its f2 (its1[j := it'])"
    using indexes_changed_step [OF s(3) _ u(2)] Suc.prems by simp
  ultimately show ?case by blast
qed

lemma index_update_row_run:
  assumes "table_of table db = Inr (with_roots m its)" "length its = length (tm_indexes m)"
    and "indexes_in crc (db_file db) Q its" "\<forall>i < length its. height (its ! i) \<le> MAX_TREE_DEPTH"
    and "\<forall>i < length its. index_key_of m (tm_indexes m ! i) rowid row = Inr (ko i) \<and> key_ready remove (ko i) (index_keys (its ! i))"
    and "guard_next (db_file db) + 65 * length its < 2 ^ 32 - 1"
  shows "\<exists>f' its'. index_update_row crc table rowid row remove db = (Inr (), db_at db table f' (with_roots m its'))
    \<and> indexes_in crc f' Q its' \<and> indexes_changed crc remove ko (length its) (db_file db) its f' its'"
proof -
  have "length (tm_indexes (with_roots m its)) = length its" using assms(2) by simp
  then show ?thesis
    using index_update_prefix [OF assms le_refl] assms(1) by (simp add: index_update_row_def sm_bind_view)
qed

section \<open>Commit\<close>

definition guard_clean :: "page_file \<Rightarrow> bool" where
  "guard_clean f \<longleftrightarrow> pf_dirty f = [] \<and> pf_new_count f = 0"

lemma guard_clean_view: "guard_clean f \<Longrightarrow> guard_view crc f = view_page crc f"
  by (simp add: guard_clean_def guard_view_def fun_eq_iff)

lemma guard_clean_ok: "guard_clean f \<Longrightarrow> guard_ok f"
  by (simp add: guard_clean_def guard_ok_def guard_next_def)

lemma guard_ok_length:
  assumes "guard_ok f"
  shows "length (pf_dirty f) \<le> guard_next f"
proof -
  have "unat ` fst ` set (pf_dirty f) \<subseteq> {..<guard_next f}" using assms by (auto simp: guard_ok_def)
  then have "card (unat ` fst ` set (pf_dirty f)) \<le> guard_next f" using subset_eq_atLeast0_lessThan_card lessThan_atLeast0 by metis
  moreover have "card (unat ` fst ` set (pf_dirty f)) = card (fst ` set (pf_dirty f))"
    by (intro card_image inj_onI) (simp add: word_unat_eq_iff)
  moreover have "card (fst ` set (pf_dirty f)) = length (pf_dirty f)"
    using assms distinct_card [of "map fst (pf_dirty f)"] by (simp add: guard_ok_def)
  ultimately show ?thesis by simp
qed

text \<open>Room for \<open>k\<close> more entries in the log.\<close>

definition log_room :: "nat \<Rightarrow> wal \<Rightarrow> bool" where
  "log_room k w \<longleftrightarrow> unat (wal_entry_count w) + k < 2 ^ 32 \<and> unat (wal_next_sequence w) + k < 2 ^ 64"

lemma append_run:
  assumes "log_room (Suc k) w"
  shows "\<exists>s w'. append_page_image crc t n p w = (Inr s, w') \<and> log_room k w' \<and> unat (wal_entry_count w') = Suc (unat (wal_entry_count w))"
proof -
  have c: "unat (wal_entry_count w) + Suc k < 4294967296" "unat (wal_next_sequence w) + Suc k < 18446744073709551616"
    using assms by (simp_all add: log_room_def)
  have "wal_entry_count w \<noteq> - 1" "wal_next_sequence w \<noteq> - 1"
    using c by (auto simp: minus_one)
  moreover have "unat (wal_entry_count w + 1) = Suc (unat (wal_entry_count w))"
    "unat (wal_next_sequence w + 1) = Suc (unat (wal_next_sequence w))"
    using c by (simp_all add: unat_word_ariths)
  ultimately show ?thesis using c
    by (simp add: append_page_image_def Let_def log_room_def update_entry_count_def)
qed

lemma log_images_run:
  assumes "log_room (length ims) (db_wal db)"
  shows "\<exists>w'. sm_fold (log_image crc t None) ims db = (Inr (), db\<lparr>db_wal := w'\<rparr>)
    \<and> unat (wal_entry_count w') = unat (wal_entry_count (db_wal db)) + length ims"
  using assms
proof (induction ims arbitrary: db)
  case Nil
  then show ?case by (intro exI [of _ "db_wal db"]) (simp add: sm_ret_def)
next
  case (Cons im ims)
  obtain n p where im: "im = (n, p)" by fastforce
  obtain s w1 where a: "append_page_image crc t n p (db_wal db) = (Inr s, w1)" "log_room (length ims) w1"
    "unat (wal_entry_count w1) = Suc (unat (wal_entry_count (db_wal db)))"
    using append_run [of "length ims" "db_wal db" crc t n p] Cons.prems by auto
  have "log_image crc t None im db = (Inr (), db\<lparr>db_wal := w1\<rparr>)"
    using a(1) by (simp add: log_image_def im on_wal_def sm_bind_def sm_lift_def sm_ret_def)
  moreover obtain w' where "sm_fold (log_image crc t None) ims (db\<lparr>db_wal := w1\<rparr>) = (Inr (), db\<lparr>db_wal := w'\<rparr>)"
    "unat (wal_entry_count w') = unat (wal_entry_count w1) + length ims"
    using Cons.IH [of "db\<lparr>db_wal := w1\<rparr>"] a(2) by auto
  ultimately show ?case using a(3) by (intro exI [of _ w']) (simp add: sm_bind_def)
qed

lemma commit_write_run:
  assumes ok: "guard_ok (db_file db)" and small: "guard_next (db_file db) < 2 ^ 32"
    and room: "log_room (guard_next (db_file db)) (db_wal db)"
  shows "\<exists>f' w'. commit_write crc dur t None db = (Inr (), db\<lparr>db_file := f', db_wal := w'\<rparr>)
    \<and> guard_view crc f' = guard_view crc (db_file db) \<and> guard_clean f' \<and> guard_next f' = guard_next (db_file db)
    \<and> unat (wal_entry_count w') = unat (wal_entry_count (db_wal db)) + (if dur = NoLog then 0 else length (pf_dirty (db_file db)))"
proof -
  obtain f' where f': "commit_guard (db_file db) = (Inr (pf_dirty (db_file db)), f')" "guard_view crc f' = guard_view crc (db_file db)"
    "pf_dirty f' = []" "guard_next f' = guard_next (db_file db)"
    using commit_guard_run [OF ok small, of crc] by blast
  have "pf_new_count f' = 0" using f'(1) by (auto simp: commit_guard_def Let_def split: if_splits sum.splits)
  then have clean: "guard_clean f'" using f'(3) by (simp add: guard_clean_def)
  let ?ims = "pf_dirty (db_file db)"
  have room': "log_room (length ?ims) (db_wal (db\<lparr>db_file := f'\<rparr>))"
    using room guard_ok_length [OF ok] by (simp add: log_room_def)
  obtain w' where w': "sm_fold (log_image crc t None) ?ims (db\<lparr>db_file := f'\<rparr>) = (Inr (), db\<lparr>db_file := f', db_wal := w'\<rparr>)"
    "unat (wal_entry_count w') = unat (wal_entry_count (db_wal db)) + length ?ims"
    using log_images_run [OF room', of crc t] by auto
  have run: "commit_write crc dur t None db = (case dur of
      Immediate \<Rightarrow> sm_fold (log_image crc t None) ?ims | Normal \<Rightarrow> sm_fold (log_image crc t None) ?ims | NoLog \<Rightarrow> sm_ret ()) (db\<lparr>db_file := f'\<rparr>)"
    unfolding commit_write_def using f'(1) by (simp add: on_file_bind [where m = commit_guard])
  show ?thesis
  proof (cases dur)
    case NoLog
    then show ?thesis using run f' clean by (intro exI [of _ f'] exI [of _ "db_wal db"]) simp
  qed (use run f' clean w' in auto)
qed

section \<open>The keys of the rows\<close>

text \<open>The key of a row in an index, where computing it does not fail.\<close>

definition row_key :: "table_meta \<Rightarrow> index_meta \<Rightarrow> u64 \<times> bytes \<Rightarrow> bytes option" where
  "row_key m idx e = (case index_key_of m idx (fst e) (snd e) of Inr ko \<Rightarrow> ko | Inl _ \<Rightarrow> None)"

definition row_keys :: "table_meta \<Rightarrow> index_meta \<Rightarrow> hits \<Rightarrow> bytes list" where
  "row_keys m idx es = List.map_filter (row_key m idx) es"

text \<open>A key ends in its rowid.\<close>

lemma row_key_rowid: "row_key m idx (r, b) = Some k \<Longrightarrow> \<exists>p. k = p @ u64_to_be r"
  by (auto simp: row_key_def index_key_of_def encode_composite_index_key_def res_bind_eq_Inr split: option.splits sum.splits)

lemma be_suffix: "p @ u64_to_be r = q @ u64_to_be r' \<Longrightarrow> r = r'"
proof -
  assume e: "p @ u64_to_be r = q @ u64_to_be r'"
  have "length (u64_to_be r) = length (u64_to_be r')" by (simp add: u64_to_be_def)
  then have "u64_to_be r = u64_to_be r'" using e by (simp add: append_eq_append_conv)
  then show ?thesis using u64_be.dec_enc by metis
qed

lemma row_key_inj: "row_key m idx e = Some k \<Longrightarrow> row_key m idx e' = Some k \<Longrightarrow> fst e = fst e'"
  using row_key_rowid [of m idx "fst e" "snd e" k] row_key_rowid [of m idx "fst e'" "snd e'" k]
  by (auto dest: be_suffix)

lemma row_keys_Cons: "row_keys m idx (e # es) = (case row_key m idx e of None \<Rightarrow> [] | Some k \<Rightarrow> [k]) @ row_keys m idx es"
  by (simp add: row_keys_def map_filter_simps split: option.split)

lemma row_keys_mem: "k \<in> set (row_keys m idx es) \<longleftrightarrow> (\<exists>e \<in> set es. row_key m idx e = Some k)"
  by (induction es) (auto simp: row_keys_Cons row_keys_def map_filter_simps split: option.splits)

lemma row_keys_insort:
  "mset (row_keys m idx (insort_key fst e es)) = mset (row_keys m idx (e # es))"
  by (induction es) (simp_all add: row_keys_Cons)

lemma row_keys_added:
  assumes "row_key m idx e = ko"
  shows "sort (row_keys m idx (insort_key fst e es)) = changed_keys False ko (sort (row_keys m idx es))"
proof -
  have "sort (row_keys m idx (insort_key fst e es)) = sort (row_keys m idx (e # es))"
    by (intro properties_for_sort) (simp_all add: row_keys_insort)
  then show ?thesis using assms by (simp add: row_keys_Cons changed_keys_def split: option.split)
qed

lemma row_keys_removed:
  assumes "(r, b) \<in> set es" "distinct (map fst es)" "row_key m idx (r, b) = ko"
  shows "sort (row_keys m idx (filter (\<lambda>e. fst e \<noteq> r) es)) = changed_keys True ko (sort (row_keys m idx es))"
proof -
  have same: "e = (r, b)" if "e \<in> set es" "fst e = r" for e
    using assms(1,2) that by (cases e) (auto dest: eq_key_imp_eq_value)
  have "row_keys m idx (filter (\<lambda>e. fst e \<noteq> r) xs) = (case ko of None \<Rightarrow> row_keys m idx xs | Some k \<Rightarrow> filter (\<lambda>x. x \<noteq> k) (row_keys m idx xs))"
    if "set xs \<subseteq> set es" for xs
    using that
  proof (induction xs)
    case Nil
    then show ?case by (simp add: row_keys_def map_filter_simps split: option.split)
  next
    case (Cons e xs)
    show ?case
    proof (cases "fst e = r")
      case True
      then have "row_key m idx e = ko" using same [of e] Cons.prems assms(3) by simp
      then show ?thesis using Cons True by (simp add: row_keys_Cons split: option.split)
    next
      case False
      then have "row_key m idx e \<noteq> ko \<or> ko = None"
        using row_key_inj [of m idx e _ "(r, b)"] assms(3) by (cases ko) auto
      then show ?thesis using Cons False by (auto simp: row_keys_Cons split: option.split)
    qed
  qed
  then show ?thesis by (simp add: changed_keys_def filter_sort split: option.split)
qed

section \<open>A table in order\<close>

definition table_in ::
  "crc_fn \<Rightarrow> page_file \<Rightarrow> table_meta \<Rightarrow> hits \<Rightarrow> u64 btree \<Rightarrow> u32 set \<Rightarrow> bytes btree list \<Rightarrow> bool" where
  "table_in crc f m cs t P its \<longleftrightarrow>
     tree_in crc f P t \<and> guard_contents crc f t = cs \<and> root_of t = tm_root_page m
     \<and> length its = length (tm_indexes m) \<and> with_roots m its = m \<and> indexes_in crc f (set (tree_pages t) \<union> P) its
     \<and> (\<forall>i < length its. index_keys (its ! i) = sort (row_keys m (tm_indexes m ! i) cs))"

text \<open>Its pages, and the depth of its trees.\<close>

definition table_pages :: "u64 btree \<Rightarrow> u32 set \<Rightarrow> bytes btree list \<Rightarrow> u32 set" where
  "table_pages t P its = set (tree_pages t) \<union> P \<union> (\<Union>it \<in> set its. index_pages it)"

definition table_depth :: "u64 btree \<Rightarrow> bytes btree list \<Rightarrow> nat" where
  "table_depth t its = Max (set (height t # map height its))"

lemma table_depth_le: "table_depth t its \<le> d \<longleftrightarrow> height t \<le> d \<and> (\<forall>i < length its. height (its ! i) \<le> d)"
  by (auto simp: table_depth_def all_set_conv_all_nth)

lemma table_in_sorted: "table_in crc f m cs t P its \<Longrightarrow> sorted_wrt (<) (map fst cs)"
  using contents_sorted by (auto simp: table_in_def tree_in_def)

lemma table_in_distinct: "table_in crc f m cs t P its \<Longrightarrow> distinct (map fst cs)"
  using table_in_sorted strict_sorted_iff by blast

text \<open>A table depends on its own pages alone.\<close>

lemma indexes_in_frame:
  assumes "indexes_in crc f Q its" "\<forall>n. unat n < guard_next f \<longrightarrow> (\<exists>it \<in> set its. n \<in> index_pages it) \<longrightarrow> guard_view crc f' n = guard_view crc f n"
    and "guard_next f \<le> guard_next f'" "\<forall>n \<in> Q'. n \<in> Q \<or> guard_next f \<le> unat n" "\<forall>n \<in> Q'. unat n < guard_next f'"
  shows "indexes_in crc f' Q' its"
  unfolding indexes_in_def
proof (intro conjI allI impI)
  fix i assume i: "i < length its"
  have below: "unat n < guard_next f" if "n \<in> index_pages (its ! i)" for n
    using assms(1) i that by (auto simp: indexes_in_def index_in_def)
  show "index_in crc f' (its ! i)"
  proof (rule index_in_frame)
    show "index_in crc f (its ! i)" using assms(1) i by (simp add: indexes_in_def)
    show "\<forall>n \<in> index_pages (its ! i). guard_view crc f' n = guard_view crc f n"
      using assms(2) below nth_mem [OF i] by blast
  qed (rule assms(3))
  show "Q' \<inter> index_pages (its ! i) = {}"
    using assms(1,4) i below by (fastforce simp: indexes_in_def)
  fix j assume "j < length its" "i \<noteq> j"
  then show "index_pages (its ! i) \<inter> index_pages (its ! j) = {}" using assms(1) i by (simp add: indexes_in_def)
qed (use assms(5) in simp)

lemma indexes_in_apart:
  assumes "indexes_in crc f Q its" "it \<in> set its"
  shows "Q \<inter> index_pages it = {}" "n \<in> index_pages it \<Longrightarrow> unat n < guard_next f"
  using assms unfolding in_set_conv_nth [of it] by (auto simp: indexes_in_def index_in_def)

lemma table_in_frame:
  assumes "table_in crc f m cs t P its" "\<forall>n \<in> table_pages t P its. guard_view crc f' n = guard_view crc f n"
    and "guard_next f \<le> guard_next f'"
  shows "table_in crc f' m cs t P its"
proof -
  have t: "tree_in crc f P t" "guard_contents crc f t = cs" "indexes_in crc f (set (tree_pages t) \<union> P) its"
    using assms(1) by (simp_all add: table_in_def)
  have fr: "\<forall>n \<in> set (tree_pages t) \<union> P. guard_view crc f' n = guard_view crc f n"
    using assms(2) by (auto simp: table_pages_def)
  note t' = tree_in_frame [OF t(1) fr assms(3)]
  have "indexes_in crc f' (set (tree_pages t) \<union> P) its"
    by (rule indexes_in_frame [OF t(3) _ assms(3)]) (use t t' assms(2) in \<open>auto simp: table_pages_def tree_in_def\<close>)
  then show ?thesis using assms(1) t' by (simp add: table_in_def)
qed

lemma table_in_meta:
  assumes "table_in crc f m cs t P its" "tm_root_page m' = tm_root_page m" "tm_indexes m' = tm_indexes m"
    and "tm_col_name_to_id m' = tm_col_name_to_id m" "tm_columns m' = tm_columns m"
  shows "table_in crc f m' cs t P its"
proof -
  have "row_keys m' = row_keys m"
    using index_key_of_cong [OF assms(4,5)] by (simp add: row_keys_def [abs_def] row_key_def [abs_def])
  moreover have "with_roots m' its = m'"
    using assms(1,3) by (cases m; cases m') (simp add: table_in_def with_roots_def)
  ultimately show ?thesis using assms(1-3) by (simp add: table_in_def)
qed

section \<open>The steps of a row change\<close>

lemma with_roots_again: "length its = length (tm_indexes m) \<Longrightarrow> with_roots (with_roots m its) its = with_roots m its"
proof -
  assume "length its = length (tm_indexes m)"
  then have "map2 (\<lambda>idx it. idx\<lparr>im_root_page := root_of it\<rparr>) (map2 (\<lambda>idx it. idx\<lparr>im_root_page := root_of it\<rparr>) (tm_indexes m) its) its
      = map2 (\<lambda>idx it. idx\<lparr>im_root_page := root_of it\<rparr>) (tm_indexes m) its"
    by (intro nth_equalityI) simp_all
  then show ?thesis by (simp add: with_roots_def)
qed

lemma with_roots_fields [simp]:
  "tm_root_page (with_roots m its) = tm_root_page m" "tm_table_id (with_roots m its) = tm_table_id m"
  "tm_cipher (with_roots m its) = tm_cipher m" "tm_row_count (with_roots m its) = tm_row_count m"
  "tm_next_rowid (with_roots m its) = tm_next_rowid m" "tm_col_name_to_id (with_roots m its) = tm_col_name_to_id m"
  "tm_columns (with_roots m its) = tm_columns m" "tm_col_names (with_roots m its) = tm_col_names m"
  "tm_col_defs (with_roots m its) = tm_col_defs m" "tm_encrypted (with_roots m its) = tm_encrypted m"
  by (simp_all add: with_roots_def)

lemma row_keys_cong:
  "tm_col_name_to_id m' = tm_col_name_to_id m \<Longrightarrow> tm_columns m' = tm_columns m \<Longrightarrow> row_keys m' = row_keys m"
  using index_key_of_cong [of m' m] by (simp add: row_keys_def [abs_def] row_key_def [abs_def])

lemma row_keys_with_roots [simp]:
  "row_keys (with_roots m its) = row_keys m" "row_keys m (idx\<lparr>im_root_page := r\<rparr>) = row_keys m idx"
  by (simp_all add: row_keys_def [abs_def] row_key_def [abs_def])

text \<open>How far a change of a table may reach.\<close>

definition table_changed ::
  "crc_fn \<Rightarrow> nat \<Rightarrow> page_file \<Rightarrow> u64 btree \<Rightarrow> u32 set \<Rightarrow> bytes btree list \<Rightarrow> page_file \<Rightarrow> u64 btree \<Rightarrow> u32 set \<Rightarrow> bytes btree list \<Rightarrow> bool" where
  "table_changed crc k f t P its f' t' P' its' \<longleftrightarrow>
     guard_next f \<le> guard_next f' \<and> guard_next f' \<le> guard_next f + k \<and> length its' = length its
     \<and> table_depth t' its' \<le> Suc (table_depth t its)
     \<and> (\<forall>n \<in> table_pages t' P' its'. n \<in> table_pages t P its \<or> guard_next f \<le> unat n)
     \<and> (\<forall>n. unat n < guard_next f \<longrightarrow> n \<notin> table_pages t P its \<longrightarrow> guard_view crc f' n = guard_view crc f n)"

lemma index_update_table:
  assumes t: "tree_in crc (db_file db) P t" "guard_contents crc (db_file db) t = cs'" "root_of t = tm_root_page m"
    and m: "table_of table db = Inr m" "with_roots m its = m" and l: "length its = length (tm_indexes m)"
    and it: "indexes_in crc (db_file db) (set (tree_pages t) \<union> P) its" and h: "\<forall>i < length its. height (its ! i) \<le> MAX_TREE_DEPTH"
    and keys: "\<forall>i < length its. index_keys (its ! i) = sort (row_keys m (tm_indexes m ! i) cs)"
    and key: "\<forall>i < length its. index_key_of m (tm_indexes m ! i) rowid row = Inr (ko i) \<and> key_ready remove (ko i) (index_keys (its ! i))
        \<and> sort (row_keys m (tm_indexes m ! i) cs') = changed_keys remove (ko i) (sort (row_keys m (tm_indexes m ! i) cs))"
    and space: "guard_next (db_file db) + 65 * length its < 2 ^ 32 - 1"
  shows "\<exists>f' its'. index_update_row crc table rowid row remove db = (Inr (), db_at db table f' (with_roots m its'))
    \<and> table_in crc f' (with_roots m its') cs' t P its'
    \<and> indexes_changed crc remove ko (length its) (db_file db) its f' its'"
proof -
  obtain f' its' where u: "index_update_row crc table rowid row remove db = (Inr (), db_at db table f' (with_roots m its'))"
    "indexes_in crc f' (set (tree_pages t) \<union> P) its'" "indexes_changed crc remove ko (length its) (db_file db) its f' its'"
    using index_update_row_run [OF _ l it h _ space, of table rowid row ko remove] m key by auto
  note c = u(3) [unfolded indexes_changed_def]
  have l': "length its' = length (tm_indexes m)" using c l by simp
  have fr: "guard_view crc f' n = guard_view crc (db_file db) n" if "n \<in> set (tree_pages t) \<union> P" for n
    using c it that by (fastforce simp: indexes_in_def)
  have "tree_in crc f' P t" "guard_contents crc f' t = cs'"
    using tree_in_frame [OF t(1), of f'] fr c t(2) by auto
  moreover have "index_keys (its' ! i) = sort (row_keys m (tm_indexes m ! i) cs')" if "i < length its'" for i
    using c key keys that by simp
  ultimately have "table_in crc f' (with_roots m its') cs' t P its'"
    using t(3) u(2) l' with_roots_again [OF l'] by (simp add: table_in_def)
  with u show ?thesis by blast
qed

text \<open>The loop is skipped when there is no index, and then it would do nothing.\<close>

lemma index_update_row_none:
  "table_of table db = Inr m' \<Longrightarrow> tm_indexes m' = tm_indexes m \<Longrightarrow>
   (if tm_indexes m \<noteq> [] then index_update_row crc table rowid row remove else sm_ret ()) db = index_update_row crc table rowid row remove db"
  by (simp add: index_update_row_def sm_bind_view)

lemma indexes_changed_depth:
  assumes "indexes_changed crc remove ko j f its f' its'" "height t' \<le> Suc (height t)"
  shows "table_depth t' its' \<le> Suc (table_depth t its)"
proof -
  have "height t \<le> table_depth t its" "\<forall>i < length its. height (its ! i) \<le> table_depth t its"
    using table_depth_le [of t its "table_depth t its"] by simp_all
  moreover have "length its' = length its" "\<And>i. i < length its \<Longrightarrow> height (its' ! i) \<le> Suc (height (its ! i))"
    using assms(1) by (simp_all add: indexes_changed_def)
  ultimately show ?thesis
    using assms(2) by (auto simp: table_depth_le intro: le_trans)
qed

lemma storable_key_new:
  assumes "rowid \<notin> fst ` set cs" "row_key m idx (rowid, row) = Some k"
  shows "k \<notin> set (row_keys m idx cs)"
proof
  assume "k \<in> set (row_keys m idx cs)"
  then obtain e where e: "e \<in> set cs" "row_key m idx e = Some k" unfolding row_keys_mem by blast
  then show False using row_key_inj [OF assms(2) e(2)] assms(1) by auto
qed

lemma commit_in_order:
  assumes "table_in crc (db_file db) m cs t P its" "guard_ok (db_file db)" "guard_next (db_file db) < 2 ^ 32"
    and "log_room (guard_next (db_file db)) (db_wal db)"
  shows "\<exists>f' w'. commit_write crc dur tid None db = (Inr (), db\<lparr>db_file := f', db_wal := w'\<rparr>)
    \<and> table_in crc f' m cs t P its \<and> guard_view crc f' = guard_view crc (db_file db) \<and> guard_clean f'
    \<and> guard_next f' = guard_next (db_file db)"
proof -
  from commit_write_run [OF assms(2-4), of crc dur tid] obtain f' w' where c:
    "commit_write crc dur tid None db = (Inr (), db\<lparr>db_file := f', db_wal := w'\<rparr>)"
    "guard_view crc f' = guard_view crc (db_file db)" "guard_clean f'" "guard_next f' = guard_next (db_file db)" by blast
  have "table_in crc f' m cs t P its" using table_in_frame [OF assms(1)] c by simp
  with c show ?thesis by blast
qed

lemma table_changed_steps:
  assumes "guard_next f \<le> guard_next f1" "guard_next f1 \<le> guard_next f + a" "height t1 \<le> Suc (height t)"
    and p: "\<forall>n \<in> set (tree_pages t1) \<union> P1. n \<in> set (tree_pages t) \<union> P \<or> guard_next f \<le> unat n"
    and v: "\<forall>n. unat n < guard_next f \<longrightarrow> n \<notin> set (tree_pages t) \<longrightarrow> guard_view crc f1 n = guard_view crc f n"
    and i: "indexes_changed crc remove ko j f1 its f2 its'" and f': "guard_view crc f' = guard_view crc f2" "guard_next f' = guard_next f2"
  shows "table_changed crc (a + 65 * j) f t P its f' t1 P1 its'"
proof -
  note c = i [unfolded indexes_changed_def]
  have "n \<in> table_pages t P its \<or> guard_next f \<le> unat n" if n: "n \<in> table_pages t1 P1 its'" for n
  proof (cases "n \<in> set (tree_pages t1) \<union> P1")
    case True
    then show ?thesis using p by (auto simp: table_pages_def)
  next
    case False
    then obtain it where it: "it \<in> set its'" "n \<in> index_pages it" using n by (auto simp: table_pages_def)
    then obtain k where k: "k < length its'" "n \<in> index_pages (its' ! k)" unfolding in_set_conv_nth [of it] by blast
    then have "n \<in> index_pages (its ! k) \<or> guard_next f1 \<le> unat n" "k < length its" using c by auto
    then show ?thesis using assms(1) by (auto simp: table_pages_def)
  qed
  moreover have "guard_view crc f' n = guard_view crc f n" if "unat n < guard_next f" "n \<notin> table_pages t P its" for n
    using that v c f' assms(1) by (auto simp: table_pages_def)
  ultimately show ?thesis
    using indexes_changed_depth [OF i assms(3)] assms(1,2) c f' by (simp add: table_changed_def)
qed

text \<open>The keys a new row adds.\<close>

definition keys_short :: "table_meta \<Rightarrow> bytes btree list \<Rightarrow> u64 \<Rightarrow> bytes \<Rightarrow> bool" where
  "keys_short m its rowid row \<longleftrightarrow>
     (\<forall>i < length its. \<exists>ko. index_key_of m (tm_indexes m ! i) rowid row = Inr ko \<and> (\<forall>k. ko = Some k \<longrightarrow> length k \<le> 36))"

lemma new_row_key:
  assumes "keys_short m its rowid row" "rowid \<notin> fst ` set cs" "i < length its"
    and "index_keys (its ! i) = sort (row_keys m (tm_indexes m ! i) cs)"
  shows "index_key_of m (tm_indexes m ! i) rowid row = Inr (row_key m (tm_indexes m ! i) (rowid, row))
    \<and> key_ready False (row_key m (tm_indexes m ! i) (rowid, row)) (index_keys (its ! i))
    \<and> sort (row_keys m (tm_indexes m ! i) (insort_key fst (rowid, row) cs))
        = changed_keys False (row_key m (tm_indexes m ! i) (rowid, row)) (sort (row_keys m (tm_indexes m ! i) cs))"
proof -
  obtain ko where "index_key_of m (tm_indexes m ! i) rowid row = Inr ko" "\<And>k. ko = Some k \<Longrightarrow> length k \<le> 36"
    using assms(1,3) unfolding keys_short_def by blast
  moreover have "row_key m (tm_indexes m ! i) (rowid, row) = ko" using calculation(1) by (simp add: row_key_def)
  ultimately show ?thesis
    using storable_key_new [OF assms(2), of m "tm_indexes m ! i" row] assms(4) row_keys_added [of m "tm_indexes m ! i" "(rowid, row)" ko cs]
    by (auto simp: key_ready_def split: option.split)
qed

lemma indexes_in_grown:
  assumes "indexes_in crc f (set (tree_pages t) \<union> P) its" "tree_in crc f1 P1 t1" "guard_next f \<le> guard_next f1"
    and "\<forall>n \<in> set (tree_pages t1) \<union> P1. n \<in> set (tree_pages t) \<union> P \<or> guard_next f \<le> unat n"
    and "\<forall>n. unat n < guard_next f \<longrightarrow> n \<notin> set (tree_pages t) \<longrightarrow> guard_view crc f1 n = guard_view crc f n"
  shows "indexes_in crc f1 (set (tree_pages t1) \<union> P1) its"
proof (rule indexes_in_frame [OF assms(1) _ assms(3,4)])
  show "\<forall>n. unat n < guard_next f \<longrightarrow> (\<exists>it \<in> set its. n \<in> index_pages it) \<longrightarrow> guard_view crc f1 n = guard_view crc f n"
    using assms(5) indexes_in_apart(1) [OF assms(1)] by blast
  show "\<forall>n \<in> set (tree_pages t1) \<union> P1. unat n < guard_next f1" using assms(2) by (simp add: tree_in_def)
qed

lemma with_roots_root: "with_roots m its = m \<Longrightarrow> with_roots (m\<lparr>tm_root_page := r\<rparr>) its = m\<lparr>tm_root_page := r\<rparr>"
  unfolding with_roots_def by (cases m) simp

text \<open>The row goes into the tree and its keys into the indexes, still under the guard.\<close>

lemma put_row_run:
  assumes t: "table_in crc (db_file db) m cs t P its"
    and ok: "guard_ok (db_file db)" and h: "table_depth t its \<le> MAX_TREE_DEPTH"
    and st: "storable rowid row" "leaf_takes rowid row (snd (leaf_for t rowid))" "rowid \<notin> fst ` set cs" "keys_short m its rowid row"
    and space: "guard_next (db_file db) + (row_budget row + height t + 65 * length its) < 2 ^ 32 - 1"
  shows "\<exists>f1 f2 t1 P1 its'. btree_insert crc (tm_root_page m) rowid row (db_file db) = (Inr (root_of t1), f1)
    \<and> index_update_row crc table rowid row False (db_at db table f1 (m\<lparr>tm_root_page := root_of t1\<rparr>))
        = (Inr (), db_at db table f2 (with_roots (m\<lparr>tm_root_page := root_of t1\<rparr>) its'))
    \<and> table_in crc f2 (with_roots (m\<lparr>tm_root_page := root_of t1\<rparr>) its') (insort_key fst (rowid, row) cs) t1 P1 its' \<and> guard_ok f2
    \<and> table_changed crc (row_budget row + height t + 65 * length its) (db_file db) t P its f2 t1 P1 its'"
proof -
  let ?f = "db_file db"
  let ?cs = "insort_key fst (rowid, row) cs"
  note t' = t [unfolded table_in_def]
  have h': "height t \<le> MAX_TREE_DEPTH" "\<forall>i < length its. height (its ! i) \<le> MAX_TREE_DEPTH"
    using h by (simp_all add: table_depth_le)
  have tin: "tree_in crc ?f P t" "guard_contents crc ?f t = cs" "tm_root_page m = root_of t" using t' by simp_all
  have new: "rowid \<notin> fst ` set (guard_contents crc ?f t)" and sp: "guard_next ?f + row_budget row + height t < 2 ^ 32 - 1"
    using st(3) tin space by simp_all
  from btree_insert_run [OF tin(1) h'(1) st(1,2) new sp, unfolded tin(2)] obtain t1 P1 f1 where b:
    "btree_insert crc (root_of t) rowid row ?f = (Inr (root_of t1), f1)" "tree_in crc f1 P1 t1"
    "guard_contents crc f1 t1 = ?cs" "height t1 \<le> Suc (height t)" "P \<subseteq> P1" "guard_next ?f \<le> guard_next f1"
    "guard_next f1 \<le> guard_next ?f + row_budget row + height t"
    "\<forall>n \<in> set (tree_pages t1) \<union> P1. n \<in> set (tree_pages t) \<union> P \<or> guard_next ?f \<le> unat n"
    "\<forall>n. unat n < guard_next ?f \<longrightarrow> n \<notin> set (tree_pages t) \<longrightarrow> guard_view crc f1 n = guard_view crc ?f n" by blast
  have ok1: "guard_ok f1" using btree_insert_safe [of crc ?f "root_of t" rowid row] ok b(1) by (simp add: safe_at_def)
  define m1 where "m1 = m\<lparr>tm_root_page := root_of t1\<rparr>"
  have m1: "tm_indexes m1 = tm_indexes m" "index_key_of m1 = index_key_of m" "row_keys m1 = row_keys m" "tm_root_page m1 = root_of t1"
    using index_key_of_cong [of m1 m] row_keys_cong [of m1 m] by (simp_all add: m1_def)
  have wr: "with_roots m1 its = m1" unfolding m1_def by (rule with_roots_root) (use t' in simp)
  have it0: "indexes_in crc ?f (set (tree_pages t) \<union> P) its" using t' by simp
  note it1 = indexes_in_grown [OF it0 b(2,6,8,9)]
  define ko where "ko i = row_key m (tm_indexes m ! i) (rowid, row)" for i
  define db1 where "db1 = db_at db table f1 m1"
  have "\<exists>f' its'. index_update_row crc table rowid row False db1 = (Inr (), db_at db1 table f' (with_roots m1 its'))
    \<and> table_in crc f' (with_roots m1 its') ?cs t1 P1 its'
    \<and> indexes_changed crc False ko (length its) (db_file db1) its f' its'"
    by (rule index_update_table [where cs = cs])
       (use b(2,3) wr it1 h'(2) t' new_row_key [OF st(4,3)] m1 space b(7) in \<open>simp_all add: db1_def ko_def\<close>)
  then obtain f2 its' where u: "index_update_row crc table rowid row False db1 = (Inr (), db_at db table f2 (with_roots m1 its'))"
    "table_in crc f2 (with_roots m1 its') ?cs t1 P1 its'" "indexes_changed crc False ko (length its) f1 its f2 its'"
    by (auto simp: db1_def)
  have "table_changed crc (row_budget row + height t + 65 * length its) ?f t P its f2 t1 P1 its'"
    by (rule table_changed_steps [OF b(6) _ b(4,8,9) u(3) refl refl]) (use b(7) in simp)
  moreover have "guard_ok f2" using u(3) ok1 by (simp add: indexes_changed_def)
  ultimately show ?thesis using b(1) u(1,2) tin(3) unfolding db1_def m1_def by auto
qed

lemma table_changed_commit:
  "table_changed crc k f t P its f1 t' P' its' \<Longrightarrow> guard_view crc f2 = guard_view crc f1 \<Longrightarrow> guard_next f2 = guard_next f1 \<Longrightarrow>
   table_changed crc k f t P its f2 t' P' its'"
  by (simp add: table_changed_def)

lemma store_row_run:
  assumes m: "table_of table db = Inr m" "tm_cipher m = None" and t: "table_in crc (db_file db) m cs t P its"
    and ok: "guard_ok (db_file db)" and h: "table_depth t its \<le> MAX_TREE_DEPTH"
    and st: "storable rowid row" "leaf_takes rowid row (snd (leaf_for t rowid))" "rowid \<notin> fst ` set cs" "keys_short m its rowid row"
    and space: "guard_next (db_file db) + (row_budget row + height t + 65 * length its) < 2 ^ 32 - 1"
    and room: "log_room (guard_next (db_file db) + (row_budget row + height t + 65 * length its)) (db_wal db)"
  shows "\<exists>f' w' m' t' P' its'. store_row crc dur table rowid row db = (Inr (), (db_at db table f' m')\<lparr>db_wal := w'\<rparr>)
    \<and> table_in crc f' m' (insort_key fst (rowid, row) cs) t' P' its' \<and> guard_clean f'
    \<and> m' = with_roots (m\<lparr>tm_root_page := root_of t'\<rparr>) its'
    \<and> table_changed crc (row_budget row + height t + 65 * length its) (db_file db) t P its f' t' P' its'"
proof -
  let ?k = "row_budget row + height t + 65 * length its"
  from put_row_run [OF t ok h st space, of table] obtain f1 f2 t1 P1 its' where p:
    "btree_insert crc (tm_root_page m) rowid row (db_file db) = (Inr (root_of t1), f1)"
    "index_update_row crc table rowid row False (db_at db table f1 (m\<lparr>tm_root_page := root_of t1\<rparr>))
        = (Inr (), db_at db table f2 (with_roots (m\<lparr>tm_root_page := root_of t1\<rparr>) its'))"
    "table_in crc f2 (with_roots (m\<lparr>tm_root_page := root_of t1\<rparr>) its') (insort_key fst (rowid, row) cs) t1 P1 its'" "guard_ok f2"
    "table_changed crc ?k (db_file db) t P its f2 t1 P1 its'" by blast
  define m1 where "m1 = m\<lparr>tm_root_page := root_of t1\<rparr>"
  define db2 where "db2 = db_at db table f2 (with_roots m1 its')"
  have le: "guard_next f2 \<le> guard_next (db_file db) + ?k" using p(5) by (simp add: table_changed_def)
  have "\<exists>f' w'. commit_write crc dur (tm_table_id m) None db2 = (Inr (), db2\<lparr>db_file := f', db_wal := w'\<rparr>)
    \<and> table_in crc f' (with_roots m1 its') (insort_key fst (rowid, row) cs) t1 P1 its'
    \<and> guard_view crc f' = guard_view crc (db_file db2) \<and> guard_clean f' \<and> guard_next f' = guard_next (db_file db2)"
    by (rule commit_in_order) (use p(3,4) le space room in \<open>simp_all add: db2_def m1_def log_room_def\<close>)
  then obtain f' w' where w: "commit_write crc dur (tm_table_id m) None db2 = (Inr (), db2\<lparr>db_file := f', db_wal := w'\<rparr>)"
    "table_in crc f' (with_roots m1 its') (insort_key fst (rowid, row) cs) t1 P1 its'"
    "guard_view crc f' = guard_view crc f2" "guard_clean f'" "guard_next f' = guard_next f2" by (auto simp: db2_def)
  have "store_row crc dur table rowid row db = sm_bind (if tm_indexes m \<noteq> [] then index_update_row crc table rowid row False else sm_ret ())
      (\<lambda>_. commit_write crc dur (tm_table_id m) None) (db_at db table f1 m1)"
    using m p(1) by (simp add: store_row_def sm_bind_view on_file_bind [where m = "btree_insert crc (tm_root_page m) rowid row"] db_at_def m1_def)
  also have "\<dots> = commit_write crc dur (tm_table_id m) None db2"
    using index_update_row_none [of table "db_at db table f1 m1" m1 m crc rowid row False] p(2) by (simp add: sm_bind_def db2_def m1_def)
  also have "\<dots> = (Inr (), (db_at db table f' (with_roots m1 its'))\<lparr>db_wal := w'\<rparr>)"
    unfolding w(1) by (simp add: db2_def db_at_def)
  finally have "store_row crc dur table rowid row db = (Inr (), (db_at db table f' (with_roots m1 its'))\<lparr>db_wal := w'\<rparr>)" .
  then show ?thesis using w(2,4) table_changed_commit [OF p(5) w(3,5)] unfolding m1_def by blast
qed

end
