(* ===== verification/Page_Seal.thy ===== *)
theory Page_Seal
  imports Guard_Safe System_Page
begin

text \<open>
  The pages the tree operations write are valid on disk: every page a writer puts into the overlay
  has the size of a page, the magic number and a checksum over its contents, so that it passes the
  validation when it is read back. While an operation runs, freshly allocated pages are the exception;
  when it succeeds none is left. The rules follow the structure of the operations, as in
  \<open>Guard_Safe\<close>.
\<close>

section \<open>Page edits\<close>

text \<open>An edit that keeps the size and the magic number.\<close>

definition steady :: "(page \<Rightarrow> page res) \<Rightarrow> bool" where
  "steady g \<longleftrightarrow> (\<forall>p q. page_ok p \<longrightarrow> g p = Inr q \<longrightarrow> page_ok q \<and> magic q = magic p)"

definition sealed :: "(bytes \<Rightarrow> u32) \<Rightarrow> page \<Rightarrow> bool" where
  "sealed crc p \<longleftrightarrow> magic p = MAGIC \<and> verify_checksum crc p"

lemma sealed_read: "sealed crc p \<longleftrightarrow> page_from_bytes crc p = Inr p"
  by (simp add: sealed_def page_from_bytes_eq)

lemma sealed_update [simp]: "page_ok p \<Longrightarrow> magic p = MAGIC \<Longrightarrow> sealed crc (update_checksum crc p)"
  by (simp add: sealed_def)

named_theorems steady_intros \<open>edits that keep the size and the magic number\<close>

lemma steadyI: "(\<And>p q. page_ok p \<Longrightarrow> g p = Inr q \<Longrightarrow> page_ok q \<and> magic q = magic p) \<Longrightarrow> steady g"
  by (simp add: steady_def)

lemma steadyD: "steady g \<Longrightarrow> g p = Inr q \<Longrightarrow> page_ok p \<Longrightarrow> page_ok q \<and> magic q = magic p"
  by (simp add: steady_def)

lemma steady_Inr [steady_intros]: "(\<And>p. page_ok p \<Longrightarrow> page_ok (h p) \<and> magic (h p) = magic p) \<Longrightarrow> steady (\<lambda>p. Inr (h p))"
  by (simp add: steady_def)

lemma steady_bind [steady_intros]: "steady g \<Longrightarrow> steady h \<Longrightarrow> steady (\<lambda>p. res_bind (g p) h)"
proof (rule steadyI)
  fix p q assume *: "steady g" "steady h" "page_ok p" "res_bind (g p) h = Inr q"
  from *(4) obtain r where r: "g p = Inr r" "h r = Inr q" by (cases "g p") auto
  show "page_ok q \<and> magic q = magic p"
    using steadyD [OF *(1) r(1) *(3)] steadyD [OF *(2) r(2)] by simp
qed

lemma steady_after [steady_intros]: "(\<And>x. steady (h x)) \<Longrightarrow> steady (\<lambda>p. res_bind r (\<lambda>x. h x p))"
  unfolding steady_def res_bind_eq_Inr by fastforce

lemma steady_copy [steady_intros]: "16 \<le> off \<Longrightarrow> steady (\<lambda>p. copy_at p off bs)"
  by (auto simp: steady_def copy_at_def page_ok_def split: if_splits)

lemma steady_fold:
  assumes "\<And>x s s'. x \<in> set xs \<Longrightarrow> I s \<Longrightarrow> f x s = Inr s' \<Longrightarrow> I s'" "I s" "res_fold f xs s = Inr s'"
  shows "I s'"
  using assms by (induction xs arbitrary: s) (auto simp: res_bind_eq_Inr)

lemma steady_place: "16 \<le> write_pos \<Longrightarrow> steady (\<lambda>p. place_row p write_pos r dst)"
  unfolding place_row_def set_row_offset_def by (intro steady_intros) simp_all

lemma page_ok_length: "page_ok p \<Longrightarrow> length p = 4096"
  by (simp add: page_ok_def)

lemma clear_leaf_steady: "page_ok p \<Longrightarrow> page_ok (clear_leaf p nx pv) \<and> magic (clear_leaf p nx pv) = magic p"
  using magic_field.blit_data [of 16 "replicate 4076 0" "set_prev_leaf (set_next_leaf (set_num_rows (set_flags p PAGE_LEAF) 0) nx) pv"]
  by (simp add: clear_leaf_def Let_def blit_field) (simp add: page_ok_length)

lemma finish_leaf_steady: "page_ok p \<Longrightarrow> page_ok (finish_leaf p tot wp) \<and> magic (finish_leaf p tot wp) = magic p"
  by (simp add: finish_leaf_def)

lemma write_leaf_with_insert_steady [steady_intros]: "steady (\<lambda>p. write_leaf_with_insert p s n pos row)"
proof (rule steadyI)
  fix p q assume p: "page_ok p" and q: "write_leaf_with_insert p s n pos row = Inr q"
  from q obtain p' wp k where f: "res_fold (insert_step s n pos row) [0..<n + 1]
      (clear_leaf p (next_leaf s) (prev_leaf s), 16 + (n + 1) * 2, 0) = Inr (p', wp, k)" and q: "q = finish_leaf p' (n + 1) wp"
    by (auto simp: write_leaf_with_insert_def Let_def res_bind_eq_Inr)
  let ?I = "\<lambda>(p', wp, k). page_ok p' \<and> magic p' = magic p \<and> 16 \<le> wp"
  have "?I (p', wp, k)"
  proof (rule steady_fold [OF _ _ f, where I = ?I])
    fix x st st' assume "?I st" "insert_step s n pos row x st = Inr st'"
    then show "?I st'"
      by (auto simp: insert_step_def res_bind_eq_Inr split: prod.splits if_splits dest!: steadyD [OF steady_place, rotated])
  qed (use clear_leaf_steady [OF p] in simp)
  then show "page_ok q \<and> magic q = magic p" using q finish_leaf_steady by auto
qed

lemma write_leaf_range_steady [steady_intros]: "steady (\<lambda>p. write_leaf_range p s n pos row a b)"
proof (rule steadyI)
  fix p q assume p: "page_ok p" and q: "write_leaf_range p s n pos row a b = Inr q"
  from q obtain p' wp where f: "res_fold (range_step s n pos row a) [0..<b - a] (clear_leaf p 0 0, 16 + (b - a) * 2) = Inr (p', wp)"
    and q: "q = finish_leaf p' (b - a) wp"
    by (auto simp: write_leaf_range_def Let_def res_bind_eq_Inr)
  let ?I = "\<lambda>(p', wp). page_ok p' \<and> magic p' = magic p \<and> 16 \<le> wp"
  have "?I (p', wp)"
  proof (rule steady_fold [OF _ _ f, where I = ?I])
    fix x st st' assume "?I st" "range_step s n pos row a x st = Inr st'"
    then show "?I st'"
      by (auto simp: range_step_def res_bind_eq_Inr split: prod.splits dest!: steadyD [OF steady_place, rotated])
  qed (use clear_leaf_steady [OF p] in simp)
  then show "page_ok q \<and> magic q = magic p" using q finish_leaf_steady by auto
qed

lemma write_leaf_without_steady [steady_intros]: "steady (\<lambda>p. write_leaf_without p s n pos)"
proof (rule steadyI)
  fix p q assume p: "page_ok p" and q: "write_leaf_without p s n pos = Inr q"
  from q obtain p' wp k where f: "res_fold (without_step s n pos) [0..<n] (clear_leaf p 0 0, 16 + (n - 1) * 2, 0) = Inr (p', wp, k)"
    and q: "q = finish_leaf p' (n - 1) wp"
    by (auto simp: write_leaf_without_def Let_def res_bind_eq_Inr)
  let ?I = "\<lambda>(p', wp, k). page_ok p' \<and> magic p' = magic p \<and> 16 \<le> wp"
  have "?I (p', wp, k)"
  proof (rule steady_fold [OF _ _ f, where I = ?I])
    fix x st st' assume "?I st" "without_step s n pos x st = Inr st'"
    then show "?I st'"
      by (auto simp: without_step_def res_bind_eq_Inr split: prod.splits if_splits dest!: steadyD [OF steady_place, rotated])
  qed (use clear_leaf_steady [OF p] in simp)
  then show "page_ok q \<and> magic q = magic p" using q finish_leaf_steady by auto
qed

lemma idx_leaf_steady [steady_intros]:
  "steady (\<lambda>p. write_idx_leaf_with_insert p s n pos key)" "steady (\<lambda>p. write_idx_leaf_range p s n pos key a b)"
  "steady (\<lambda>p. write_idx_leaf_without p s n pos)"
  unfolding write_idx_leaf_with_insert_def write_idx_leaf_range_def write_idx_leaf_without_def by (intro steady_intros)+

text \<open>Rebuilding a branch: the entries are written behind the header.\<close>

lemma branch_blank_steady: "page_ok p \<Longrightarrow>
    page_ok (blit (set_num_rows (set_flags p fl) k) 16 (replicate 4076 0))
    \<and> magic (blit (set_num_rows (set_flags p fl) k) 16 (replicate 4076 0)) = magic p"
  using magic_field.blit_data [of 16 "replicate 4076 0" "set_num_rows (set_flags p fl) k"]
  by (simp add: blit_field) (simp add: page_ok_length)

lemma steady_entries:
  assumes "\<And>x. steady (f x)"
  shows "steady (res_fold f xs)"
proof (rule steadyI)
  fix p q assume p: "page_ok p" and q: "res_fold f xs p = Inr q"
  show "page_ok q \<and> magic q = magic p"
    by (rule steady_fold [OF _ _ q, where I = "\<lambda>q. page_ok q \<and> magic q = magic p"])
      (use p steadyD [OF assms] in auto)
qed

lemma entry_steady [steady_intros]:
  "steady (\<lambda>p. write_branch_entry p i c k)" "steady (\<lambda>p. set_branch_child p i c)"
  "steady (\<lambda>p. write_idx_branch_entry p i c key)" "steady (\<lambda>p. set_idx_branch_child p i c)"
  unfolding write_branch_entry_def set_branch_child_def write_idx_branch_entry_def set_idx_branch_child_def Let_def
  by (intro steady_intros; simp)+

lemma rebuild_steady [steady_intros]:
  "steady (\<lambda>p. rebuild_branch_flat p cs ks)" "steady (\<lambda>p. rebuild_idx_branch_flat p cs keys)"
proof -
  have e: "steady (entry_step cs x)" "steady (idx_entry_step cs y)" for x y
    unfolding entry_step_def idx_entry_step_def by (cases x; cases y; simp; intro steady_intros)+
  have "steady (\<lambda>p. res_bind (Inr (blit (set_num_rows (set_flags p PAGE_BRANCH) k) 16 (replicate 4076 0))) (\<lambda>p.
      res_bind (res_fold f xs p) (\<lambda>p. res_bind r (\<lambda>c. h c p))))"
    if "\<And>x. steady (f x)" "\<And>c. steady (h c)" for k r and f :: "'a \<Rightarrow> page \<Rightarrow> page res" and xs and h :: "'b \<Rightarrow> page \<Rightarrow> page res"
    by (intro steady_intros branch_blank_steady steady_entries that)
  from this [OF e(1) entry_steady(2)] this [OF e(2) entry_steady(4)]
  show "steady (\<lambda>p. rebuild_branch_flat p cs ks)" "steady (\<lambda>p. rebuild_idx_branch_flat p cs keys)"
    unfolding rebuild_branch_flat_def rebuild_idx_branch_flat_def Let_def by simp_all
qed

lemma insert_entry_steady [steady_intros]:
  "steady (\<lambda>p. insert_branch_entry p i k c)" "steady (\<lambda>p. insert_idx_branch_entry p i key c)"
proof -
  have *: "steady g" if "\<And>p q. g p = Inr q \<Longrightarrow> \<exists>h n q'. steady h \<and> h p = Inr q' \<and> q = set_num_rows q' n" for g
    by (rule steadyI) (use that in \<open>fastforce dest: steadyD\<close>)
  show "steady (\<lambda>p. insert_branch_entry p i k c)"
    by (rule *) (auto simp: insert_branch_entry_def res_bind_eq_Inr split: prod.splits intro: rebuild_steady)
  show "steady (\<lambda>p. insert_idx_branch_entry p i key c)"
    by (rule *) (auto simp: insert_idx_branch_entry_def res_bind_eq_Inr split: prod.splits intro: rebuild_steady)
qed

section \<open>Tidy operations\<close>

text \<open>The cache holds pages of the right size, and no more than page numbers allow.\<close>

definition cache_ok :: "page_file \<Rightarrow> bool" where
  "cache_ok f \<longleftrightarrow> length (pf_pages f) < 2 ^ 32 \<and> (\<forall>p. Some p \<in> set (pf_pages f) \<longrightarrow> page_ok p)"

lemma set_cache_put: "Some q \<in> set (cache_put c n p) \<Longrightarrow> q = p \<or> Some q \<in> set c"
  using set_update_subset_insert [of "c @ replicate (unat n + 1 - length c) None" "unat n" "Some p"] by (auto simp: cache_put_def)

lemma cache_ok_read:
  assumes "cache_ok f" "read_page crc n f = (r, f')"
  shows "cache_ok f'"
proof (cases "f' = f")
  case False
  then obtain p where p: "\<not> pf_num_pages f \<le> n" "read_page_from_disk crc f n = Inr p" "f' = f\<lparr>pf_pages := cache_put (pf_pages f) n p\<rparr>"
    using assms(2) by (auto simp: read_page_def split: if_splits option.splits sum.splits)
  have "unat n < unat (pf_num_pages f)" using p(1) by (simp add: word_le_nat_alt)
  then have "unat n + 1 < 4294967296" using unat_u32_lt [of "pf_num_pages f"] by linarith
  moreover have "page_ok p"
    using p(2) by (auto simp: read_page_from_disk_def res_bind_eq_Inr page_from_bytes_eq read_page_raw_def page_ok_def Let_def split: if_splits)
  ultimately show ?thesis using assms(1) p(3) by (auto simp: cache_ok_def length_cache_put dest!: set_cache_put)
qed (use assms in simp)

text \<open>
  All pages the guard sees have their size, and those outside \<open>S\<close> are valid.
\<close>

definition tidy :: "(bytes \<Rightarrow> u32) \<Rightarrow> u32 set \<Rightarrow> page_file \<Rightarrow> bool" where
  "tidy crc S f \<longleftrightarrow> cache_ok f
     \<and> (\<forall>n p. guard_view crc f n = Inr p \<longrightarrow> page_ok p \<and> (n \<notin> S \<longrightarrow> sealed crc p))"

definition on_disk :: "page_file \<Rightarrow> bytes \<times> (u32 \<times> cipher_fn) list" where
  "on_disk f = (pf_disk f, pf_ciphers f)"

text \<open>
  From pages that are tidy outside \<open>S\<close> an operation that succeeds leaves pages that are tidy outside
  \<open>S'\<close>; one that fails leaves pages of the right size. The data file is not written.
\<close>

definition tidies :: "(bytes \<Rightarrow> u32) \<Rightarrow> u32 set \<Rightarrow> u32 set \<Rightarrow> page_file \<Rightarrow> 'a guarded \<Rightarrow> bool" where
  "tidies crc S S' f m \<longleftrightarrow> (tidy crc S f \<longrightarrow>
     (case m f of (r, f') \<Rightarrow> tidy crc UNIV f' \<and> (\<forall>x. r = Inr x \<longrightarrow> tidy crc S' f')))
     \<and> on_disk (snd (m f)) = on_disk f"

named_theorems tidy_intros \<open>tidy operations\<close>

lemma tidy_mono: "tidy crc S f \<Longrightarrow> S \<subseteq> S' \<Longrightarrow> tidy crc S' f"
  by (auto simp: tidy_def)

lemma tidy_UNIV: "tidy crc S f \<Longrightarrow> tidy crc UNIV f"
  by (auto simp: tidy_def)

lemma tidies_pure [tidy_intros]: "tidies crc S S f (sm_ret x)" "tidies crc S S f (sm_lift r)" "tidies crc S S f (sm_view v)"
  by (auto simp: tidies_def sm_ret_def sm_lift_def sm_view_def intro: tidy_UNIV)

lemma tidies_bind:
  assumes "tidies crc S S' f m" "\<And>x f'. m f = (Inr x, f') \<Longrightarrow> tidies crc S' S'' f' (k x)"
  shows "tidies crc S S'' f (sm_bind m k)"
proof (cases "m f")
  case (Pair r f')
  then show ?thesis using assms by (cases r) (auto simp: tidies_def sm_bind_def)
qed

lemma tidies_seq [tidy_intros]:
  "tidies crc S S f m \<Longrightarrow> (\<And>x f'. tidies crc S S' f' (k x)) \<Longrightarrow> tidies crc S S' f (sm_bind m k)"
  by (rule tidies_bind)

lemma tidies_if [tidy_intros]: "(b \<Longrightarrow> tidies crc S S' f m) \<Longrightarrow> (\<not> b \<Longrightarrow> tidies crc S S' f m') \<Longrightarrow> tidies crc S S' f (if b then m else m')"
  by simp

lemma tidies_let [tidy_intros]: "tidies crc S S' f (m v) \<Longrightarrow> tidies crc S S' f (let x = v in m x)"
  by simp

lemma tidies_split [tidy_intros]: "(\<And>a b. x = (a, b) \<Longrightarrow> tidies crc S S' f (m a b)) \<Longrightarrow> tidies crc S S' f (case x of (a, b) \<Rightarrow> m a b)"
  by (cases x) simp

lemma tidies_option [tidy_intros]:
  "tidies crc S S' f m \<Longrightarrow> (\<And>x. o' = Some x \<Longrightarrow> tidies crc S S' f (k x)) \<Longrightarrow> tidies crc S S' f (case o' of None \<Rightarrow> m | Some x \<Rightarrow> k x)"
  by (cases o') simp_all

lemma tidies_result [tidy_intros]:
  "tidies crc S S' f m \<Longrightarrow> (\<And>n s. r = Split n s \<Longrightarrow> tidies crc S S' f (k n s)) \<Longrightarrow> tidies crc S S' f (case r of Fit \<Rightarrow> m | Split n s \<Rightarrow> k n s)"
  by (cases r) simp_all

lemma guard_view_from:
  assumes "view_page crc f' = view_page crc f"
  shows "guard_view crc f' n = (case map_of (pf_dirty f') n of Some p \<Rightarrow> Inr p | None \<Rightarrow> view_page crc f n)"
  using assms by (simp add: guard_view_def cong: option.case_cong)

lemma put_view: "guard_view crc (snd (put_page n p f)) = (guard_view crc f)(n := Inr p)"
  using put_run [of n p f crc] by auto

lemma put_disk: "on_disk (snd (put_page n p f)) = on_disk f" "fst (put_page n p f) = Inr ()"
  "pf_pages (snd (put_page n p f)) = pf_pages f"
  by (simp_all add: put_page_def on_disk_def)

lemma tidies_put:
  assumes "page_ok p" "sealed crc p"
  shows "tidies crc S (S - {n}) f (put_page n p)" "tidies crc S S f (put_page n p)"
proof -
  obtain f' where f': "put_page n p f = (Inr (), f')" "guard_view crc f' = (guard_view crc f)(n := Inr p)" "on_disk f' = on_disk f"
    "pf_pages f' = pf_pages f"
    using put_view [of crc n p f] put_disk [of n p f] by (cases "put_page n p f") auto
  then show "tidies crc S (S - {n}) f (put_page n p)" "tidies crc S S f (put_page n p)"
    using assms by (auto simp: tidies_def tidy_def cache_ok_def)
qed

lemma tidies_fresh:
  assumes "page_ok p" "sealed crc p" "\<And>x f'. tidies crc (insert n S - {n}) S f' (k x)"
  shows "tidies crc (insert n S) S f (sm_bind (put_page n p) k)"
  by (rule tidies_bind [OF tidies_put(1) [OF assms(1,2)] assms(3)])

lemma tidies_weaken: "tidies crc S S' f m \<Longrightarrow> T \<subseteq> S \<Longrightarrow> S' \<subseteq> T' \<Longrightarrow> tidies crc T T' f m"
  unfolding tidies_def by (auto intro: tidy_mono split: prod.splits)

lemma tidies_allocate:
  assumes "\<And>n f'. allocate_page f = (Inr n, f') \<Longrightarrow> tidies crc (insert n S) T f' (k n)"
  shows "tidies crc S T f (sm_bind allocate_page k)"
proof (cases "\<exists>n f'. allocate_page f = (Inr n, f')")
  case False
  then show ?thesis
    by (auto simp: sm_bind_def tidies_def allocate_page_def Let_def on_disk_def intro: tidy_UNIV split: if_splits)
next
  case True
  then obtain n f' where a: "allocate_page f = (Inr n, f')" by blast
  then have f': "f' = f\<lparr>pf_new_count := pf_new_count f + 1, pf_dirty := AList.update n page_default (pf_dirty f)\<rparr>"
    by (auto simp: allocate_page_def Let_def split: if_splits)
  have "view_page crc f' = view_page crc f" unfolding f' by (rule view_page_cong) simp_all
  then have v: "guard_view crc f' = (guard_view crc f)(n := Inr page_default)"
    by (rule_tac ext) (simp add: guard_view_from, simp add: f' update_conv' guard_view_def)
  have "tidies crc S (insert n S) f allocate_page"
    using a v by (auto simp: tidies_def tidy_def) (simp_all add: on_disk_def cache_ok_def f')
  then show ?thesis by (rule tidies_bind) (use a assms in auto)
qed

lemma write_page_disk: "on_disk (snd (write_page crc n f)) = on_disk f"
  by (auto simp: write_page_def sm_bind_def guard_read_page_def read_page_def put_page_def on_disk_def split: option.split sum.split)

lemma write_page_cache: "cache_ok f \<Longrightarrow> cache_ok (snd (write_page crc n f))"
proof -
  assume ok: "cache_ok f"
  have put: "cache_ok (f'\<lparr>pf_dirty := d\<rparr>) = cache_ok f'" for f' d by (simp add: cache_ok_def)
  obtain r f' where r: "read_page crc n f = (r, f')" by fastforce
  have "cache_ok f'" by (rule cache_ok_read [OF ok r])
  then show ?thesis
    using ok r put by (auto simp: write_page_def sm_bind_def guard_read_page_def put_page_def split: option.split sum.split)
qed

lemma tidies_edit [tidy_intros]:
  assumes "steady g" "\<And>p q. g p = Inr q \<Longrightarrow> page_ok p \<Longrightarrow> \<exists>w. page_ok w \<and> q = update_checksum crc w"
  shows "tidies crc S S f (edit_page crc n g)"
proof -
  obtain f1 where f1: "write_page crc n f = (guard_view crc f n, f1)" "guard_view crc f1 = guard_view crc f" "on_disk f1 = on_disk f"
    using write_page_run [of crc n f] write_page_disk [of crc n f] by auto
  have same: "tidy crc T f1" if "tidy crc T f" for T
    using that f1(1,2) write_page_cache [of f crc n] by (simp add: tidy_def)
  show ?thesis
  proof (cases "guard_view crc f n")
    case (Inl e)
    then have "edit_page crc n g f = (Inl e, f1)" using f1(1) by (simp add: edit_page_def sm_bind_def)
    then show ?thesis using same f1(3) by (auto simp: tidies_def intro: tidy_UNIV)
  next
    case (Inr p)
    show ?thesis
    proof (cases "g p")
      case (Inl e)
      then have "edit_page crc n g f = (Inl e, f1)" using f1(1) Inr by (simp add: edit_page_def sm_bind_def)
      then show ?thesis using same f1(3) by (auto simp: tidies_def intro: tidy_UNIV)
    next
      case q: (Inr q)
      obtain f2 where f2: "put_page n q f1 = (Inr (), f2)" "guard_view crc f2 = (guard_view crc f)(n := Inr q)" "on_disk f2 = on_disk f"
        "pf_pages f2 = pf_pages f1"
        using put_view [of crc n q f1] put_disk [of n q f1] f1(2,3) by (cases "put_page n q f1") auto
      have run: "edit_page crc n g f = (Inr (), f2)" using f1(1) Inr q f2(1) by (simp add: edit_page_def sm_bind_def)
      have "tidy crc T f2" if t: "tidy crc T f" for T
      proof -
        have p: "page_ok p" "n \<notin> T \<Longrightarrow> sealed crc p" using t Inr by (auto simp: tidy_def)
        have m: "page_ok q" "magic q = magic p" using steadyD [OF assms(1) q p(1)] by simp_all
        obtain w where w: "page_ok w" "q = update_checksum crc w" using assms(2) [OF q p(1)] by blast
        have "n \<notin> T \<Longrightarrow> sealed crc q" using p(2) m w by (simp add: sealed_def)
        then show ?thesis using t same [OF t] f2(2,4) m(1) by (auto simp: tidy_def cache_ok_def)
      qed
      then show ?thesis using run f2(3) by (auto simp: tidies_def intro: tidy_UNIV)
    qed
  qed
qed

text \<open>The edits the operations make end by stamping the checksum.\<close>

lemma tidies_stamp [tidy_intros]:
  assumes "steady h" "\<And>p. page_ok p \<Longrightarrow> page_ok (k p) \<and> magic (k p) = magic p"
  shows "tidies crc S S f (edit_page crc n (\<lambda>p. res_bind (h p) (\<lambda>q. Inr (update_checksum crc (k q)))))"
proof (rule tidies_edit)
  show "steady (\<lambda>p. res_bind (h p) (\<lambda>q. Inr (update_checksum crc (k q))))"
    using assms(2) by (intro steady_intros assms(1)) simp
next
  fix p q assume "res_bind (h p) (\<lambda>q. Inr (update_checksum crc (k q))) = Inr q" "page_ok p"
  then show "\<exists>w. page_ok w \<and> q = update_checksum crc w"
    using steadyD [OF assms(1)] assms(2) by (auto simp: res_bind_eq_Inr)
qed

lemma tidies_relink [tidy_intros]:
  "(\<And>p. page_ok p \<Longrightarrow> page_ok (k p) \<and> magic (k p) = magic p) \<Longrightarrow> tidies crc S S f (edit_page crc n (\<lambda>p. Inr (update_checksum crc (k p))))"
  using tidies_stamp [of Inr k] by (simp add: steady_def)

text \<open>A page built from a blank one and put in the place of an allocated page.\<close>

lemma tidies_build:
  assumes "\<And>p. r = Inr p \<Longrightarrow> page_ok (g p) \<and> sealed crc (g p)" "\<And>f'. tidies crc S S f' m"
  shows "tidies crc (insert n S) S f (sm_bind (sm_lift r) (\<lambda>p. sm_bind (put_page n (g p)) (\<lambda>_. m)))"
proof (rule tidies_bind [OF tidies_pure(2)])
  fix p f' assume "sm_lift r f = (Inr p, f')"
  then have p: "r = Inr p" by simp
  have "tidies crc (insert n S - {n}) S f'' m" for f'' by (rule tidies_weaken [OF assms(2)]) auto
  then show "tidies crc (insert n S) S f' (sm_bind (put_page n (g p)) (\<lambda>_. m))"
    using assms(1) [OF p] by (intro tidies_fresh) simp_all
qed

lemma built_sealed:
  assumes "steady h" "h p0 = Inr p" "page_ok p0" "magic p0 = MAGIC"
  shows "page_ok p \<and> magic p = MAGIC"
  using steadyD [OF assms(1-3)] assms(4) by simp

section \<open>The tree operations\<close>

lemma tidies_create [tidy_intros]: "tidies crc S S f (btree_create crc)" "tidies crc S S f (idx_create crc)"
proof -
  have "tidies crc S S f (sm_bind allocate_page (\<lambda>n. sm_bind (put_page n (new_leaf crc)) (\<lambda>_. sm_ret n)))"
    by (rule tidies_allocate, rule tidies_fresh)
      (auto simp: sealed_def intro: tidies_weaken [OF tidies_pure(1)])
  then show "tidies crc S S f (btree_create crc)" "tidies crc S S f (idx_create crc)"
    by (simp_all add: btree_create_def idx_create_def)
qed

text \<open>A leaf split, of either tree.\<close>

lemma tidies_split_pages:
  assumes "steady lo" "steady hi" "\<And>w. page_ok w \<Longrightarrow> page_ok (k1 w) \<and> magic (k1 w) = magic w"
    and "\<And>n w. page_ok w \<Longrightarrow> page_ok (k2 n w) \<and> magic (k2 n w) = magic w"
    and "\<And>w. page_ok w \<Longrightarrow> page_ok (k3 w) \<and> magic (k3 w) = magic w"
  shows "tidies crc (insert n S) S f (sm_bind (sm_lift sep) (\<lambda>separator.
     sm_bind (edit_page crc m (\<lambda>p. res_bind (lo p) (\<lambda>p. Inr (update_checksum crc (k1 p))))) (\<lambda>_.
     sm_bind (sm_lift (res_bind (hi (new_leaf crc)) (\<lambda>p. Inr (update_checksum crc (k3 p))))) (\<lambda>right_page.
     sm_bind (put_page n right_page) (\<lambda>_.
     sm_bind (if nx \<noteq> 0 then edit_page crc nx (\<lambda>p. Inr (update_checksum crc (k2 n p))) else sm_ret ()) (\<lambda>_.
     sm_ret (g separator)))))))"
proof (rule tidies_seq [OF tidies_pure(2)], rule tidies_seq [OF tidies_stamp [OF assms(1,3)]])
  fix separator f'
  have right: "page_ok p \<and> sealed crc p" if r: "res_bind (hi (new_leaf crc)) (\<lambda>p. Inr (update_checksum crc (k3 p))) = Inr p" for p
  proof -
    obtain w where w: "hi (new_leaf crc) = Inr w" "p = update_checksum crc (k3 w)" using r by (auto simp: res_bind_eq_Inr)
    then show ?thesis using built_sealed [OF assms(2) w(1)] assms(5) [of w] by simp
  qed
  show "tidies crc (insert n S) S f' (sm_bind (sm_lift (res_bind (hi (new_leaf crc)) (\<lambda>p. Inr (update_checksum crc (k3 p))))) (\<lambda>right_page.
     sm_bind (put_page n right_page) (\<lambda>_.
     sm_bind (if nx \<noteq> 0 then edit_page crc nx (\<lambda>p. Inr (update_checksum crc (k2 n p))) else sm_ret ()) (\<lambda>_.
     sm_ret (g separator)))))"
    using assms(4) by (intro tidies_build [where g = "\<lambda>p. p"] right) (assumption, intro tidy_intros, simp_all)
qed

lemma split_leaf_tidy [tidy_intros]: "tidies crc S S f (split_leaf crc sep n s k pos row mid)"
  unfolding split_leaf_def
  by (rule tidies_allocate, rule tidies_split_pages [OF write_leaf_range_steady write_leaf_range_steady]) simp_all

lemma write_in_place_tidy [tidy_intros]: "tidies crc S S f (write_in_place crc n s k pos row)"
  unfolding write_in_place_def using tidies_stamp [where k = "\<lambda>w. w"] by (intro tidies_seq) (simp_all add: steady_intros tidies_pure)

lemma split_branch_tidy:
  assumes "\<And>cs ks. steady (\<lambda>p. rebuild p cs ks)"
  shows "tidies crc S S f (split_branch crc rebuild n cs ks)"
proof -
  have new: "tidies crc (insert m S) S f (sm_bind (sm_lift (rebuild (new_branch crc) cs' ks'))
     (\<lambda>new_page. sm_bind (put_page m (update_checksum crc new_page)) (\<lambda>_. sm_ret (Split m k))))" for m k cs' ks' f
    by (rule tidies_build [OF _ tidies_pure(1)]) (use built_sealed [OF assms] in auto)
  show ?thesis
    unfolding split_branch_def Let_def
    by (rule tidies_seq [OF tidies_pure(2)], rule tidies_seq [OF tidies_stamp [where k = "\<lambda>w. w", OF assms]], simp,
        rule tidies_allocate, rule new)
qed

lemma branch_insert_tidy:
  assumes "\<And>i k c. steady (\<lambda>p. ie p i k c)" "\<And>cs ks. steady (\<lambda>p. rb p cs ks)"
  shows "tidies crc S S f (branch_insert crc mk ie co rb n i sep c)"
  unfolding branch_insert_def
  by (intro tidy_intros split_branch_tidy assms tidies_stamp [where k = "\<lambda>w. w"]) simp

lemma branch_root_tidy:
  assumes "\<And>i c k. steady (\<lambda>p. we p i c k)" "\<And>i c. steady (\<lambda>p. sc p i c)"
  shows "tidies crc S S f (branch_root crc we sc root np sep)"
  unfolding branch_root_def
proof (rule tidies_allocate, rule tidies_build [where g = "\<lambda>p. p", OF _ tidies_pure(1)])
  fix p assume r: "res_bind (we (new_branch crc) 0 root sep) (\<lambda>p. res_bind (sc p 1 np) (\<lambda>p. Inr (update_checksum crc (set_num_rows p 1)))) = Inr p"
  then obtain a b where a: "we (new_branch crc) 0 root sep = Inr a" and b: "sc a 1 np = Inr b" and p: "p = update_checksum crc (set_num_rows b 1)"
    by (auto simp: res_bind_eq_Inr)
  have "page_ok a \<and> magic a = MAGIC" using built_sealed [OF assms(1) a] by simp
  then have "page_ok b \<and> magic b = MAGIC" using built_sealed [OF assms(2) b] by simp
  then show "page_ok p \<and> sealed crc p" unfolding p by simp
qed

lemma tree_branches_tidy [tidy_intros]:
  "tidies crc S S f (insert_into_branch crc n i k c)" "tidies crc S S f (idx_insert_into_branch crc n i key c)"
  "tidies crc S S f (grow_root crc root np k)" "tidies crc S S f (idx_grow_root crc root np key)"
  unfolding insert_into_branch_def idx_insert_into_branch_def grow_root_def idx_grow_root_def
  by (intro branch_insert_tidy branch_root_tidy steady_intros)+

lemma overflow_page_sealed: "build_overflow_page crc c nx = Inr p \<Longrightarrow> page_ok p \<and> sealed crc p"
proof -
  assume b: "build_overflow_page crc c nx = Inr p"
  then have "length c \<le> 4076" by (auto simp: build_overflow_page_def must_def split: if_splits)
  then have "page_ok p" using build_overflow_page_run [of c crc nx] b by auto
  moreover have "sealed crc p"
    using build_overflow_page_header(2) [OF b] by (auto simp: sealed_def page_validate_def ensure_def split: if_splits)
  ultimately show ?thesis ..
qed

lemma write_chunks_tidy [tidy_intros]: "tidies crc S S f (write_chunks crc cs nx fp)"
proof (induction cs arbitrary: nx fp f)
  case (Cons c cs)
  show ?case
    unfolding write_chunks.simps
    by (rule tidies_allocate, rule tidies_build [where g = "\<lambda>p. p", OF overflow_page_sealed Cons.IH])
qed (simp add: tidies_pure)

lemma write_overflow_row_tidy [tidy_intros]: "tidies crc S S f (write_overflow_row crc row n)"
  unfolding write_overflow_row_def Let_def by (intro tidy_intros)

lemma insert_into_leaf_tidy [tidy_intros]: "tidies crc S S f (insert_into_leaf crc n p k row)"
  unfolding insert_into_leaf_def Let_def by (intro tidy_intros)

lemma insert_recursive_tidy [tidy_intros]: "tidies crc S S f (insert_recursive crc d n k row)"
  by (induction d arbitrary: n f) (auto intro!: tidy_intros)

lemma btree_insert_tidy [tidy_intros]: "tidies crc S S f (btree_insert crc root k row)"
  unfolding btree_insert_def by (intro tidy_intros)

lemma delete_recursive_tidy [tidy_intros]: "tidies crc S S f (delete_recursive crc d n k)"
  by (induction d arbitrary: n f) (auto intro!: tidy_intros steady_intros simp: delete_from_leaf_def Let_def)

lemma btree_delete_tidy [tidy_intros]: "tidies crc S S f (btree_delete crc root k)"
  unfolding btree_delete_def by (intro tidy_intros)

lemma idx_insert_into_leaf_tidy [tidy_intros]: "tidies crc S S f (idx_insert_into_leaf crc n p k)"
  unfolding idx_insert_into_leaf_def Let_def
  by (rule tidies_seq [OF tidies_pure(2)], rule tidies_if)
    (intro tidy_intros tidies_stamp [where k = "\<lambda>w. w"] idx_leaf_steady, simp,
     rule tidies_allocate, rule tidies_split_pages [OF idx_leaf_steady(2) idx_leaf_steady(2)], simp_all)

lemma idx_insert_recursive_tidy [tidy_intros]: "tidies crc S S f (idx_insert_recursive crc d n k)"
  by (induction d arbitrary: n f) (auto intro!: tidy_intros)

lemma idx_delete_recursive_tidy [tidy_intros]: "tidies crc S S f (idx_delete_recursive crc d n k)"
  by (induction d arbitrary: n f) (auto intro!: tidy_intros steady_intros simp: idx_delete_from_leaf_def Let_def)

lemma idx_ops_tidy [tidy_intros]: "tidies crc S S f (idx_insert crc root k)" "tidies crc S S f (idx_delete crc root k)"
  unfolding idx_insert_def idx_delete_def by (intro tidy_intros)+

end
