(* ===== verification/Recovery.thy ===== *)
theory Recovery
  imports Table_State Page_Seal
begin

text \<open>
  Opening and closing the database handle (\<^verbatim>\<open>BoogyDb::open\<close> and its \<^verbatim>\<open>Drop\<close> in
  \<^verbatim>\<open>src/db.rs\<close>): the replay of the log, the load of the table registry, and the flush of a
  clean shutdown. A crash leaves the bytes of the data file and of the log; \<open>logged\<close> relates them
  to the pages in memory, commits keep it, and opening rebuilds the pages from it.
\<close>

section \<open>Opening\<close>

record disk_files =
  fs_data :: bytes
  fs_wal :: bytes

definition redo_entry :: "wal_entry \<Rightarrow> unit guarded" where
  "redo_entry e = put_page_direct (we_page_no e) (we_page_data e)"

text \<open>Step 1: replay the after-images in order, flush, and cut the log.\<close>

definition recover :: "crc_fn \<Rightarrow> disk_files \<Rightarrow> unit res \<times> disk_files" where
  "recover crc fs =
     (case wal_open (fs_wal fs) of
        Inl e \<Rightarrow> (Inl e, fs)
      | Inr w \<Rightarrow>
          let fs = fs\<lparr>fs_wal := wal_file w\<rparr> in
          if 0 < wal_entry_count w then
            (case read_entries crc w of
               Inl e \<Rightarrow> (Inl e, fs)
             | Inr entries \<Rightarrow>
                 (case sm_bind (sm_fold redo_entry entries) (\<lambda>_. sync_all) (page_file_open (fs_data fs)) of
                    (Inl e, f) \<Rightarrow> (Inl e, fs\<lparr>fs_data := pf_disk f\<rparr>)
                  | (Inr _, f) \<Rightarrow> (Inr (), \<lparr>fs_data = pf_disk f, fs_wal = wal_file (Wal_Log.truncate w)\<rparr>)))
          else (Inr (), fs))"

text \<open>Step 3: the tables by name, a later one with the same name wins.\<close>

definition load_tables :: "table_meta list \<Rightarrow> (rstring \<times> table_meta) list" where
  "load_tables metas = fold (\<lambda>m. AList.update (tm_name m) m) metas []"

definition new_database :: "page_file \<Rightarrow> wal \<Rightarrow> (rstring \<times> table_meta) list \<Rightarrow> u32 \<Rightarrow> database" where
  "new_database f w tables next_table_id =
     \<lparr>db_file = f, db_wal = w, db_tables = tables, db_next_table_id = next_table_id,
      db_durability = Normal, db_max_row_size = 10 * 1024 * 1024\<rparr>"

text \<open>\<^const>\<open>None\<close> is an open that does not return, which loading the registry can cause.\<close>

definition load_registry :: "crc_fn \<Rightarrow> page_file \<Rightarrow> wal \<Rightarrow> database res option" where
  "load_registry crc f w =
     (if 0 < page_count f then
        (case read_page crc 0 f of
           (Inl e, f) \<Rightarrow> Some (Inl e)
         | (Inr sys_page, f) \<Rightarrow>
             if flags sys_page AND PAGE_SYSTEM \<noteq> 0 then
               map_option (\<lambda>r. res_bind r (\<lambda>(metas, next_id). Inr (new_database f w (load_tables metas) next_id)))
                 (deserialize_system_page sys_page (view_page crc f))
             else Some (Inr (new_database f w [] 1)))
      else Some (Inr (new_database f w [] 1)))"

definition db_open :: "crc_fn \<Rightarrow> disk_files \<Rightarrow> (database res \<times> disk_files) option" where
  "db_open crc fs =
     (case recover crc fs of
        (Inl e, fs) \<Rightarrow> Some (Inl e, fs)
      | (Inr _, fs) \<Rightarrow>
          let f = page_file_open (fs_data fs) in
          (case wal_open (fs_wal fs) of
             Inl e \<Rightarrow> Some (Inl e, fs)
           | Inr w \<Rightarrow> map_option (\<lambda>r. (r, fs\<lparr>fs_wal := wal_file w\<rparr>)) (load_registry crc f w)))"

section \<open>Closing\<close>

text \<open>\<^verbatim>\<open>let _ = \<dots>\<close>: an error is dropped, a panic is not.\<close>

definition sm_ignore :: "('s, 'a) sm \<Rightarrow> ('s, unit) sm" where
  "sm_ignore m s = (case m s of (Inl Panicked, s') \<Rightarrow> (Inl Panicked, s') | (_, s') \<Rightarrow> (Inr (), s'))"

definition db_close :: "crc_fn \<Rightarrow> unit dbop" where
  "db_close crc =
     sm_bind (sm_view (\<lambda>db. Inr (snapshot_table_metas db))) (\<lambda>(metas, next_id).
     sm_bind (on_file (\<lambda>f.
       sm_bind (if page_count f = 0 then sm_ignore allocate_page else sm_ret ()) (\<lambda>_.
       sm_ignore (sm_bind (serialize_system_page crc metas next_id) (\<lambda>(page0, overflow_pages).
         sm_bind (put_page 0 page0) (\<lambda>_. put_pages overflow_pages)))) f)) (\<lambda>_.
     sm_bind (on_file (sm_ignore commit_guard)) (\<lambda>_.
     sm_bind (on_file (sm_ignore sync_all)) (\<lambda>_.
     on_wal (sm_modify Wal_Log.truncate)))))"

definition db_files :: "database \<Rightarrow> disk_files" where
  "db_files db = \<lparr>fs_data = pf_disk (db_file db), fs_wal = wal_file (db_wal db)\<rparr>"

definition set_durability :: "durability \<Rightarrow> database \<Rightarrow> database" where
  "set_durability d db = db\<lparr>db_durability := d\<rparr>"

definition set_max_row_size :: "u32 \<Rightarrow> database \<Rightarrow> database" where
  "set_max_row_size n db = db\<lparr>db_max_row_size := n\<rparr>"

section \<open>The images on disk\<close>

text \<open>The last image of a page in a log, and the page after a replay over the data file.\<close>

definition image_of :: "page_image list \<Rightarrow> u32 \<Rightarrow> page option" where
  "image_of ims n = map_of (rev (map snd ims)) n"

definition page_on_disk :: "bytes \<Rightarrow> page_image list \<Rightarrow> u32 \<Rightarrow> page option" where
  "page_on_disk d ims n = (case image_of ims n of Some p \<Rightarrow> Some p | None \<Rightarrow> raw_page d (unat n))"

definition images_small :: "page_image list \<Rightarrow> bool" where
  "images_small ims \<longleftrightarrow> (\<forall>(t, n, p) \<in> set ims. n \<noteq> - 1)"

lemma image_of_Nil [simp]: "image_of [] n = None"
  by (simp add: image_of_def)

lemma image_of_Cons: "image_of ((t, m, p) # ims) n = (case image_of ims n of Some q \<Rightarrow> Some q | None \<Rightarrow> if n = m then Some p else None)"
  by (simp add: image_of_def map_add_def split: option.split)

lemma image_of_append: "image_of (ims @ ims') n = (case image_of ims' n of Some q \<Rightarrow> Some q | None \<Rightarrow> image_of ims n)"
  by (simp add: image_of_def map_add_def split: option.split)

lemma image_of_commit:
  assumes "distinct (map fst d)"
  shows "image_of (map (Pair t) d) = map_of d"
proof
  fix n
  have "map snd (map (Pair t) d) = d" by (induction d) auto
  then have "image_of (map (Pair t) d) n = map_of (rev d) n" by (simp add: image_of_def)
  also have "\<dots> = map_of d n"
  proof (rule option.exhaust [of "map_of d n"])
    assume none: "map_of d n = None"
    then show ?thesis by (metis map_of_eq_None_iff set_rev)
  next
    fix p assume some: "map_of d n = Some p"
    have "distinct (map fst (rev d))" using assms by (simp add: rev_map [symmetric])
    then show ?thesis using some map_of_SomeD [OF some] by simp
  qed
  finally show "image_of (map (Pair t) d) n = map_of d n" .
qed

lemma page_on_disk_ok:
  assumes "images_ok ims" "page_on_disk d ims n = Some p"
  shows "page_ok p"
proof (cases "image_of ims n")
  case None
  then show ?thesis using assms(2) by (auto simp: page_on_disk_def raw_page_def page_ok_def split: if_splits)
next
  case (Some q)
  then have "(n, q) \<in> set (map snd ims)" unfolding image_of_def by (metis map_of_SomeD set_rev)
  then show ?thesis using assms Some by (auto simp: page_on_disk_def images_ok_def)
qed

section \<open>Replay\<close>

text \<open>
  What the replay keeps: a cached page is the page on disk, and neither is larger than page numbers
  allow.
\<close>

definition replaying :: "page_file \<Rightarrow> bool" where
  "replaying f \<longleftrightarrow> pf_ciphers f = [] \<and> (\<forall>p. Some p \<in> set (pf_pages f) \<longrightarrow> page_ok p)
     \<and> (\<forall>n p. cache_get (pf_pages f) n = Some p \<longrightarrow> raw_page (pf_disk f) (unat n) = Some p)
     \<and> length (pf_pages f) < 2 ^ 32 \<and> length (pf_disk f) div PAGE_SIZE < 2 ^ 32"

lemma replaying_open:
  assumes "length d div PAGE_SIZE < 2 ^ 32"
  shows "replaying (page_file_open d)"
  using assms by (simp add: replaying_def page_file_open_def Let_def cache_get_def take_bit_nat_eq_self unsigned_of_nat)

lemma put_direct_run:
  assumes f: "replaying f" and p: "page_ok p" and n: "n \<noteq> - 1"
  shows "\<exists>f'. put_page_direct n p f = (Inr (), f') \<and> replaying f'
    \<and> (\<forall>m q. raw_page (pf_disk f) m = Some q \<or> m = unat n \<longrightarrow>
         raw_page (pf_disk f') m = (if m = unat n then Some p else raw_page (pf_disk f) m))"
proof -
  let ?d = "disk_write (pf_disk f) (unat n * PAGE_SIZE) p"
  let ?np = "if pf_num_pages f \<le> n then n + 1 else pf_num_pages f"
  let ?f = "f\<lparr>pf_disk := ?d, pf_num_pages := ?np, pf_pages := cache_put (pf_pages f) n p\<rparr>"
  have run: "put_page_direct n p f = (Inr (), ?f)"
    using n by (simp add: put_page_direct_def Let_def)
  have raw: "raw_page ?d m = (if m = unat n then Some p else raw_page (pf_disk f) m)"
    if "raw_page (pf_disk f) m = Some q \<or> m = unat n" for m q
    using raw_page_write [OF p that] .
  have "unat n \<noteq> 4294967295" using n minus_one(1) by (auto simp: word_unat_eq_iff)
  then have "unat n + 1 < 4294967296" using unat_u32_lt [of n] by linarith
  then have small: "unat n + 1 < 2 ^ 32" by simp
  have "replaying ?f"
    unfolding replaying_def
  proof (intro conjI allI impI)
    show "pf_ciphers ?f = []" using f by (simp add: replaying_def)
    show "length (pf_pages ?f) < 2 ^ 32" using f small by (simp add: replaying_def length_cache_put)
    have "length ?d = max (length (pf_disk f)) ((unat n + 1) * PAGE_SIZE)"
      using p by (simp add: length_disk_write page_ok_def)
    then show "length (pf_disk ?f) div PAGE_SIZE < 2 ^ 32"
      using f small by (auto simp: replaying_def max_def)
  next
    fix q assume "Some q \<in> set (pf_pages ?f)"
    then show "page_ok q"
      using f p set_update_subset_insert [of "pf_pages f @ replicate (unat n + 1 - length (pf_pages f)) None" "unat n" "Some p"]
      by (auto simp: replaying_def cache_put_def)
  next
    fix m q assume "cache_get (pf_pages ?f) m = Some q"
    then have "(m = n \<and> q = p) \<or> (m \<noteq> n \<and> raw_page (pf_disk f) (unat m) = Some q)"
      using f by (auto simp: cache_get_put replaying_def split: if_splits)
    then show "raw_page (pf_disk ?f) (unat m) = Some q"
      using raw [of "unat m" q] by (auto simp: word_unat_eq_iff)
  qed
  then show ?thesis using run raw by (intro exI [of _ ?f]) auto
qed

lemma redo_run:
  assumes "replaying f" "images_ok ims" "images_small ims"
  shows "\<exists>f'. sm_fold redo_entry (map (\<lambda>(i, im). wal_entry_of i im) (enumerate k ims)) f = (Inr (), f') \<and> replaying f'
    \<and> (\<forall>n p. page_on_disk (pf_disk f) ims n = Some p \<longrightarrow> raw_page (pf_disk f') (unat n) = Some p)"
  using assms
proof (induction ims arbitrary: k f)
  case Nil
  then show ?case by (intro exI [of _ f]) (simp add: sm_ret_def page_on_disk_def)
next
  case (Cons im ims)
  obtain t m q where im: "im = (t, m, q)" by (cases im)
  have q: "page_ok q" "m \<noteq> - 1" and rest: "images_ok ims" "images_small ims"
    using Cons.prems(2,3) im by (auto simp: images_ok_def images_small_def)
  obtain f1 where f1: "put_page_direct m q f = (Inr (), f1)" "replaying f1"
    "\<And>j r. raw_page (pf_disk f) j = Some r \<or> j = unat m \<Longrightarrow>
       raw_page (pf_disk f1) j = (if j = unat m then Some q else raw_page (pf_disk f) j)"
    using put_direct_run [OF Cons.prems(1) q] by blast
  obtain f2 where f2: "sm_fold redo_entry (map (\<lambda>(i, im). wal_entry_of i im) (enumerate (Suc k) ims)) f1 = (Inr (), f2)" "replaying f2"
    "\<forall>n p. page_on_disk (pf_disk f1) ims n = Some p \<longrightarrow> raw_page (pf_disk f2) (unat n) = Some p"
    using Cons.IH [OF f1(2) rest] by blast
  have "redo_entry (wal_entry_of k im) f = (Inr (), f1)"
    using f1(1) by (simp add: redo_entry_def wal_entry_of_def im)
  moreover have "page_on_disk (pf_disk f1) ims n = Some p" if "page_on_disk (pf_disk f) (im # ims) n = Some p" for n p
  proof (cases "image_of ims n")
    case None
    then show ?thesis using that f1(3) [of "unat n" p]
      by (auto simp: page_on_disk_def im image_of_Cons word_unat_eq_iff split: if_splits)
  next
    case (Some r)
    then show ?thesis using that by (simp add: page_on_disk_def im image_of_Cons)
  qed
  ultimately show ?case using f2 by (intro exI [of _ f2]) (simp add: sm_bind_def)
qed

lemma sync_replayed:
  assumes "replaying f"
  shows "\<exists>d. sync_all f = (Inr (), f\<lparr>pf_disk := d\<rparr>) \<and> length d div PAGE_SIZE < 2 ^ 32
    \<and> (\<forall>n p. raw_page (pf_disk f) (unat n) = Some p \<longrightarrow> raw_page d (unat (n :: u32)) = Some p)"
proof -
  have f: "pf_ciphers f = []" "\<forall>p. Some p \<in> set (pf_pages f) \<longrightarrow> page_ok p" "0 + length (pf_pages f) < 2 ^ 32"
    using assms by (simp_all add: replaying_def)
  from sync_fold [OF f(1-3)] obtain d where d: "sm_fold sync_slot (enumerate 0 (pf_pages f)) f = (Inr (), f\<lparr>pf_disk := d\<rparr>)"
    "\<And>j q. raw_page (pf_disk f) j = Some q \<Longrightarrow> (\<forall>p. j < length (pf_pages f) \<longrightarrow> pf_pages f ! j \<noteq> Some p) \<Longrightarrow> raw_page d j = Some q"
    "\<And>i p. i < length (pf_pages f) \<Longrightarrow> pf_pages f ! i = Some p \<Longrightarrow> raw_page d i = Some p"
    "length d \<le> max (length (pf_disk f)) (length (pf_pages f) * PAGE_SIZE)"
    by auto
  have "length d div PAGE_SIZE \<le> max (length (pf_disk f)) (length (pf_pages f) * PAGE_SIZE) div PAGE_SIZE"
    using d(4) by (rule div_le_mono)
  then have "length d div PAGE_SIZE < 2 ^ 32" using assms by (auto simp: replaying_def max_def split: if_splits)
  moreover have "raw_page d (unat n) = Some p" if p: "raw_page (pf_disk f) (unat n) = Some p" for n :: u32 and p
  proof (cases "cache_get (pf_pages f) n")
    case None
    then show ?thesis using d(2) [OF p] by (auto simp: cache_get_def split: if_splits)
  next
    case (Some q)
    then have "q = p" using assms p by (auto simp: replaying_def)
    with Some show ?thesis using d(3) by (auto simp: cache_get_def split: if_splits)
  qed
  ultimately show ?thesis using d(1) by (intro exI [of _ d]) (simp add: sync_all_def)
qed

section \<open>Recovery\<close>

lemma recover_run:
  assumes w: "wal_open wb = Inr w" "holds crc w ims" "images_small ims" and d: "length d div PAGE_SIZE < 2 ^ 32"
  shows "\<exists>d' wb' w'. recover crc \<lparr>fs_data = d, fs_wal = wb\<rparr> = (Inr (), \<lparr>fs_data = d', fs_wal = wb'\<rparr>)
    \<and> wal_open wb' = Inr w' \<and> wal_file w' = wb' \<and> holds crc w' [] \<and> length d' div PAGE_SIZE < 2 ^ 32
    \<and> (\<forall>n p. page_on_disk d ims n = Some p \<longrightarrow> raw_page d' (unat n) = Some p)"
proof (cases "ims = []")
  case True
  then have "wal_entry_count w = 0" using w(2) by (simp add: holds_def)
  then have "recover crc \<lparr>fs_data = d, fs_wal = wb\<rparr> = (Inr (), \<lparr>fs_data = d, fs_wal = wal_file w\<rparr>)"
    using w(1) by (simp add: recover_def)
  then show ?thesis using reopen_holds [OF w(2)] w(2) d True
    by (intro exI [of _ d] exI [of _ "wal_file w"] exI [of _ w]) (simp add: page_on_disk_def)
next
  case False
  have "unat (wal_entry_count w) = length ims" using w(2) by (simp add: holds_def take_bit_nat_eq_self unsigned_of_nat)
  then have c: "0 < wal_entry_count w" using False by (auto simp: word_neq_0_conv [symmetric])
  obtain f1 where f1: "sm_fold redo_entry (log_entries ims) (page_file_open d) = (Inr (), f1)" "replaying f1"
    "\<forall>n p. page_on_disk (pf_disk (page_file_open d)) ims n = Some p \<longrightarrow> raw_page (pf_disk f1) (unat n) = Some p"
    using redo_run [OF replaying_open [OF d] _ w(3), of 0] w(2) by (auto simp: log_entries_def holds_def)
  obtain d' where d': "sync_all f1 = (Inr (), f1\<lparr>pf_disk := d'\<rparr>)" "length d' div PAGE_SIZE < 2 ^ 32"
    "\<forall>n p. raw_page (pf_disk f1) (unat n) = Some p \<longrightarrow> raw_page d' (unat (n :: u32)) = Some p"
    using sync_replayed [OF f1(2)] by blast
  let ?w = "Wal_Log.truncate w"
  have "recover crc \<lparr>fs_data = d, fs_wal = wb\<rparr> = (Inr (), \<lparr>fs_data = d', fs_wal = wal_file ?w\<rparr>)"
    using w(1) c read_entries_holds [OF w(2)] f1(1) d'(1) by (simp add: recover_def sm_bind_def Let_def)
  moreover have "holds crc ?w []" by (rule truncate_holds [OF w(2)])
  moreover have "pf_disk (page_file_open d) = d" by (simp add: page_file_open_def Let_def)
  ultimately show ?thesis using reopen_holds [of crc ?w "[]"] d'(2,3) f1(3)
    by (intro exI [of _ d'] exI [of _ "wal_file ?w"] exI [of _ ?w]) simp
qed

text \<open>Loading the registry from a reader that sees at least the same pages.\<close>

lemma system_chain_mono:
  assumes "\<And>n p. rd n = Inr p \<Longrightarrow> rd' n = Inr p" "system_chain rd remaining cur acc bs = Some (Inr x)"
  shows "system_chain rd' remaining cur acc bs = Some (Inr x)"
proof -
  have "r = Inr x \<longrightarrow> (\<forall>n p. rd n = Inr p \<longrightarrow> rd' n = Inr p) \<longrightarrow> system_chain rd' remaining cur acc bs = Some (Inr x)"
    if "system_chain rd remaining cur acc bs = Some r" for rd remaining cur acc bs r
  proof (rule system_chain.raw_induct [where P = "\<lambda>rd remaining cur acc bs r.
      r = Inr x \<longrightarrow> (\<forall>n p. rd n = Inr p \<longrightarrow> rd' n = Inr p) \<longrightarrow> system_chain rd' remaining cur acc bs = Some (Inr x)", OF _ that], intro impI)
    fix f rd remaining cur acc bs r
    assume IH: "\<And>rd remaining cur acc bs r. f rd remaining cur acc bs = Some r \<Longrightarrow>
        r = Inr x \<longrightarrow> (\<forall>n p. rd n = Inr p \<longrightarrow> rd' n = Inr p) \<longrightarrow> system_chain rd' remaining cur acc bs = Some (Inr x)"
      and step: "(if cur \<noteq> 0 \<and> acc < remaining then
          (case rd cur of Inl e \<Rightarrow> Some (Inl e)
           | Inr p \<Rightarrow> if \<not> is_overflow p then Some (Inl (Fail (Corruption ''system page chain hit non-overflow page'')))
             else (case read_overflow_payload p of Inl e \<Rightarrow> Some (Inl e)
               | Inr payload \<Rightarrow> let n = min (remaining - acc) (length payload) in
                   f rd remaining (overflow_next p) (acc + n) (bs @ take n payload)))
        else Some (Inr (acc, bs))) = Some r"
      and r: "r = Inr x" and sub: "\<forall>n p. rd n = Inr p \<longrightarrow> rd' n = Inr p"
    show "system_chain rd' remaining cur acc bs = Some (Inr x)"
      using step r sub IH [of rd remaining] by (subst system_chain.simps) (auto simp: Let_def split: if_splits sum.splits)
  qed
  with assms show ?thesis by blast
qed

lemma deserialize_mono:
  assumes "\<And>n p. rd n = Inr p \<Longrightarrow> rd' n = Inr p" "deserialize_system_page p0 rd = Some (Inr x)"
  shows "deserialize_system_page p0 rd' = Some (Inr x)"
  using assms(2) system_chain_mono [OF assms(1)]
  by (auto simp: deserialize_system_page_def Let_def res_bind_eq_Inr split: if_splits)

end
