(* ===== verification/Crash_Safety.thy ===== *)
theory Crash_Safety
  imports Recovery
begin

text \<open>
  What survives a crash. In every state the database reaches through its operations, failing ones
  included, the log over the data file determines every page in memory, so that opening the files
  of a crashed process rebuilds them. The invariant is a property of each operation, composed along its
  structure.
\<close>

section \<open>The invariant\<close>

definition log_full :: "database \<Rightarrow> bool" where
  "log_full db \<longleftrightarrow> wal_entry_count (db_wal db) = - 1"

definition pages_logged :: "crc_fn \<Rightarrow> page_image list \<Rightarrow> page_file \<Rightarrow> bool" where
  "pages_logged crc ims f \<longleftrightarrow> (\<forall>n p. view_page crc f n = Inr p \<longrightarrow> page_on_disk (pf_disk f) ims n = Some p)"

text \<open>No table of the handle is encrypted with an unlocked key, and writes are logged.\<close>

definition plain :: "database \<Rightarrow> bool" where
  "plain db \<longleftrightarrow> db_durability db \<noteq> NoLog \<and> (\<forall>(n, m) \<in> set (db_tables db). tm_cipher m = None)"

definition file_sound :: "crc_fn \<Rightarrow> page_file \<Rightarrow> bool" where
  "file_sound crc f \<longleftrightarrow> guard_ok f \<and> tidy crc UNIV f \<and> pf_ciphers f = [] \<and> length (pf_disk f) div PAGE_SIZE < 2 ^ 32"

definition durable :: "crc_fn \<Rightarrow> database \<Rightarrow> bool" where
  "durable crc db \<longleftrightarrow> plain db \<and> file_sound crc (db_file db)
     \<and> (\<exists>ims. holds crc (db_wal db) ims \<and> images_small ims \<and> (log_full db \<or> pages_logged crc ims (db_file db)))"

definition keeps :: "crc_fn \<Rightarrow> 'a dbop \<Rightarrow> bool" where
  "keeps crc m \<longleftrightarrow> (\<forall>db. durable crc db \<longrightarrow> durable crc (snd (m db)))"

named_theorems keeps_intros \<open>operations that keep the invariant\<close>

lemma keeps_pure [keeps_intros]: "keeps crc (sm_ret x)" "keeps crc (sm_lift r)" "keeps crc (sm_view v)"
  by (simp_all add: keeps_def)

lemma keeps_bind:
  assumes "keeps crc m" "\<And>x db db'. durable crc db \<Longrightarrow> m db = (Inr x, db') \<Longrightarrow> keeps crc (k x)"
  shows "keeps crc (sm_bind m k)"
  unfolding keeps_def
proof (intro allI impI)
  fix db assume db: "durable crc db"
  show "durable crc (snd (sm_bind m k db))"
  proof (cases "m db")
    case (Pair r db')
    then have db': "durable crc db'" using assms(1) db by (auto simp: keeps_def)
    show ?thesis
    proof (cases r)
      case (Inl e)
      then show ?thesis using Pair db' by (simp add: sm_bind_def)
    next
      case (Inr x)
      then show ?thesis using Pair db' assms(2) [OF db] by (simp add: sm_bind_def keeps_def)
    qed
  qed
qed

lemma keeps_seq [keeps_intros]: "keeps crc m \<Longrightarrow> (\<And>x. keeps crc (k x)) \<Longrightarrow> keeps crc (sm_bind m k)"
  by (rule keeps_bind)

lemma keeps_if [keeps_intros]: "(b \<Longrightarrow> keeps crc m) \<Longrightarrow> (\<not> b \<Longrightarrow> keeps crc m') \<Longrightarrow> keeps crc (if b then m else m')"
  by simp

lemma keeps_let [keeps_intros]: "keeps crc (m v) \<Longrightarrow> keeps crc (let x = v in m x)"
  by simp

lemma keeps_split [keeps_intros]: "(\<And>a b. x = (a, b) \<Longrightarrow> keeps crc (m a b)) \<Longrightarrow> keeps crc (case x of (a, b) \<Rightarrow> m a b)"
  by (cases x) simp

lemma keeps_option [keeps_intros]:
  "keeps crc m \<Longrightarrow> (\<And>x. keeps crc (k x)) \<Longrightarrow> keeps crc (case o' of None \<Rightarrow> m | Some x \<Rightarrow> k x)"
  by (cases o') simp_all

lemma keeps_result [keeps_intros]:
  "(\<And>e. keeps crc (a e)) \<Longrightarrow> keeps crc b \<Longrightarrow> (\<And>x. keeps crc (c x)) \<Longrightarrow>
     keeps crc (case r of Inl (Fail e) \<Rightarrow> a e | Inl Panicked \<Rightarrow> b | Inr x \<Rightarrow> c x)"
  by (simp split: sum.split fault.split)

lemma keeps_fold [keeps_intros]: "(\<And>x. keeps crc (m x)) \<Longrightarrow> keeps crc (sm_fold m xs)"
  by (induction xs) (simp_all add: keeps_intros)

text \<open>Writes to the metadata of a table keep it unencrypted.\<close>

lemma plain_table: "durable crc db \<Longrightarrow> table_of t db = Inr m \<Longrightarrow> tm_cipher m = None"
  by (auto simp: durable_def plain_def table_of_def dest!: map_of_SomeD split: option.splits)

lemma keeps_table:
  assumes "\<And>m. tm_cipher m = None \<Longrightarrow> keeps crc (k m)"
  shows "keeps crc (sm_bind (sm_view (table_of t)) k)"
  by (rule keeps_bind [OF keeps_pure(3)]) (auto intro: assms plain_table)

lemma keeps_open_table:
  assumes "\<And>m. tm_cipher m = None \<Longrightarrow> keeps crc (k m)"
  shows "keeps crc (sm_bind (open_table t) k)"
proof (rule keeps_bind)
  show "keeps crc (open_table t)" unfolding open_table_def by (intro keeps_intros)
  fix m db db' assume "durable crc db" "open_table t db = (Inr m, db')"
  then show "keeps crc (k m)"
    by (intro assms) (auto simp: open_table_def sm_bind_def sm_view_def sm_lift_def sm_ret_def plain_table split: sum.splits)
qed

lemma keeps_durability:
  assumes "\<And>d. d \<noteq> NoLog \<Longrightarrow> keeps crc (k d)"
  shows "keeps crc (sm_bind (sm_view (\<lambda>db. Inr (db_durability db))) k)"
  by (rule keeps_bind [OF keeps_pure(3)]) (auto intro: assms simp: durable_def plain_def)

lemma set_update_subset: "set (AList.update k v al) \<subseteq> insert (k, v) (set al)"
  by (induction al) auto

lemma keeps_set_meta: "tm_cipher m = None \<Longrightarrow> keeps crc (set_meta t m)"
  using set_update_subset [of t m] unfolding keeps_def set_meta_def
  by (fastforce simp: durable_def plain_def log_full_def)

text \<open>Work under the guard.\<close>

lemma keeps_on_file [keeps_intros]:
  assumes "\<And>f. safe_at crc f m" "\<And>f. tidies crc UNIV UNIV f m"
  shows "keeps crc (on_file m)"
  unfolding keeps_def
proof (intro allI impI)
  fix db assume db: "durable crc db"
  obtain r f' where m: "m (db_file db) = (r, f')" by fastforce
  have f: "guard_ok (db_file db)" "tidy crc UNIV (db_file db)" using db by (auto simp: durable_def file_sound_def)
  have "guard_ok f'" "view_page crc f' = view_page crc (db_file db)"
    using assms(1) [of "db_file db"] f(1) m by (auto simp: safe_at_def guard_step_def)
  moreover have "tidy crc UNIV f'" "on_disk f' = on_disk (db_file db)"
    using assms(2) [of "db_file db"] f(2) m by (auto simp: tidies_def)
  ultimately show "durable crc (snd (on_file m db))"
    using db m by (auto simp: durable_def file_sound_def plain_def log_full_def pages_logged_def on_disk_def on_file_def)
qed

section \<open>Commits\<close>

lemma append_outcome:
  assumes "holds crc w ims" "page_ok p"
  shows "(\<exists>s w'. append_page_image crc t n p w = (Inr s, w') \<and> holds crc w' (ims @ [(t, n, p)]))
    \<or> (\<exists>e. append_page_image crc t n p w = (Inl e, w) \<and> wal_entry_count w = - 1)"
proof (cases "Suc (length ims) < 2 ^ 32")
  case True
  then show ?thesis using append_holds [OF assms True] by blast
next
  case False
  then have "length ims = 2 ^ 32 - 1" using assms(1) by (simp add: holds_def)
  then show ?thesis using append_full [OF _ assms(1)] assms(1) by (simp add: holds_def)
qed

lemma log_images_outcome:
  assumes "holds crc (db_wal db) ims" "\<forall>(n, p) \<in> set d. page_ok p"
  shows "\<exists>r w' k. sm_fold (log_image crc t None) d db = (r, db\<lparr>db_wal := w'\<rparr>) \<and> k \<le> length d
    \<and> holds crc w' (ims @ map (Pair t) (take k d)) \<and> (wal_entry_count w' = - 1 \<or> k = length d)
    \<and> (r = Inr () \<longrightarrow> k = length d)"
  using assms
proof (induction d arbitrary: db ims)
  case Nil
  then show ?case by (intro exI [of _ "Inr ()"] exI [of _ "db_wal db"] exI [of _ 0]) simp
next
  case (Cons im d)
  obtain n p where im: "im = (n, p)" by fastforce
  then have p: "page_ok p" using Cons.prems(2) by auto
  from append_outcome [OF Cons.prems(1) p, of t n] consider
    s w1 where "append_page_image crc t n p (db_wal db) = (Inr s, w1)" "holds crc w1 (ims @ [(t, n, p)])"
    | e where "append_page_image crc t n p (db_wal db) = (Inl e, db_wal db)" "wal_entry_count (db_wal db) = - 1"
    by blast
  then show ?case
  proof cases
    case 1
    have a: "log_image crc t None im db = (Inr (), db\<lparr>db_wal := w1\<rparr>)"
      using 1(1) by (simp add: log_image_def im on_wal_def sm_bind_def)
    obtain r w' k where "sm_fold (log_image crc t None) d (db\<lparr>db_wal := w1\<rparr>) = (r, db\<lparr>db_wal := w'\<rparr>)" "k \<le> length d"
      "holds crc w' ((ims @ [(t, n, p)]) @ map (Pair t) (take k d))" "wal_entry_count w' = - 1 \<or> k = length d" "r = Inr () \<longrightarrow> k = length d"
      using Cons.IH [of "db\<lparr>db_wal := w1\<rparr>" "ims @ [(t, n, p)]"] 1(2) Cons.prems(2) by auto
    then show ?thesis using a im by (intro exI [of _ r] exI [of _ w'] exI [of _ "Suc k"]) (simp add: sm_bind_def)
  next
    case 2
    have "log_image crc t None im db = (Inl e, db)"
      using 2(1) by (simp add: log_image_def im on_wal_def sm_bind_def)
    then show ?thesis using 2(2) Cons.prems(1) by (intro exI [of _ "Inl e"] exI [of _ "db_wal db"] exI [of _ 0]) (simp add: sm_bind_def)
  qed
qed

lemma full_stays:
  assumes "holds crc w ims" "holds crc w' (ims @ ims')" "wal_entry_count w = - 1"
  shows "wal_entry_count w' = - 1"
proof -
  have "unat (wal_entry_count w) = length ims" using assms(1) by (simp add: holds_def take_bit_nat_eq_self unsigned_of_nat)
  then have "length ims = 2 ^ 32 - 1" using assms(3) minus_one(1) by simp
  then have "ims' = []" using assms(2) by (cases ims') (auto simp: holds_def)
  then show ?thesis using assms by (simp add: holds_def)
qed

lemma publish_pages:
  "res_fold publish d c = Inr c' \<Longrightarrow> length c' = length c \<and> (\<forall>p. Some p \<in> set c' \<longrightarrow> Some p \<in> set c \<or> p \<in> snd ` set d)"
proof (induction d arbitrary: c)
  case (Cons im d)
  obtain n p where im: "im = (n, p)" by fastforce
  then have "res_fold publish d (c[unat n := Some p]) = Inr c'" using Cons.prems by (auto simp: publish_def split: if_splits)
  from Cons.IH [OF this] show ?case using im set_update_subset_insert [of c "unat n" "Some p"] by fastforce
qed simp

lemma dirty_viewed: "guard_ok f \<Longrightarrow> (n, p) \<in> set (pf_dirty f) \<Longrightarrow> guard_view crc f n = Inr p"
  by (simp add: guard_ok_def guard_view_def)

text \<open>What a commit does to the file: it publishes the overlay, or panics without a change.\<close>

lemma commit_guard_outcome:
  assumes "guard_ok f"
  shows "commit_guard f = (Inl Panicked, f)
    \<or> guard_next f < 2 ^ 32 \<and> (\<exists>f'. commit_guard f = (Inr (pf_dirty f), f') \<and> guard_clean f' \<and> view_page crc f' = guard_view crc f
        \<and> guard_view crc f' = guard_view crc f \<and> on_disk f' = on_disk f \<and> guard_next f' = guard_next f
        \<and> (tidy crc S f \<longrightarrow> tidy crc S f'))"
proof (cases "guard_next f < 2 ^ 32")
  case True
  obtain f' where f': "commit_guard f = (Inr (pf_dirty f), f')" "view_page crc f' = guard_view crc f" "guard_view crc f' = guard_view crc f"
    "pf_dirty f' = []" "guard_next f' = guard_next f"
    using commit_guard_run [OF assms True, of crc] by blast
  have "pf_new_count f' = 0" "on_disk f' = on_disk f"
    using f'(1) by (auto simp: commit_guard_def Let_def on_disk_def split: if_splits sum.splits)
  moreover obtain c' where c': "pf_pages f' = c'"
    "res_fold publish (pf_dirty f) (pf_pages f @ replicate (guard_next f - length (pf_pages f)) None) = Inr c'"
    using f'(1) by (auto simp: commit_guard_def Let_def guard_next_def split: if_splits sum.splits)
  have "cache_ok f'" if t: "tidy crc S f"
  proof -
    have "length (pf_pages f') < 2 ^ 32"
      using publish_pages [OF c'(2)] c'(1) t True by (cases "guard_next f \<le> length (pf_pages f)") (simp_all add: tidy_def cache_ok_def)
    moreover have "page_ok p" if "Some p \<in> set (pf_pages f')" for p
    proof -
      from publish_pages [OF c'(2)] c'(1) that consider "Some p \<in> set (pf_pages f)" | n where "(n, p) \<in> set (pf_dirty f)" by auto
      then show ?thesis using t dirty_viewed [OF assms, of _ p crc] by cases (auto simp: tidy_def cache_ok_def)
    qed
    ultimately show ?thesis by (simp add: cache_ok_def)
  qed
  then have "tidy crc S f \<longrightarrow> tidy crc S f'" using f'(3) by (auto simp: tidy_def)
  ultimately show ?thesis using f' True by (auto simp: guard_clean_def)
next
  case False
  then show ?thesis by (simp add: commit_guard_def guard_next_def Let_def)
qed

text \<open>The pages after a commit are those of the longer log.\<close>

lemma pages_logged_commit:
  assumes "guard_ok f" "pages_logged crc ims f" "view_page crc f' = guard_view crc f" "pf_disk f' = pf_disk f"
  shows "pages_logged crc (ims @ map (Pair t) (pf_dirty f)) f'"
proof -
  have d: "distinct (map fst (pf_dirty f))" using assms(1) by (simp add: guard_ok_def)
  show ?thesis
    unfolding pages_logged_def
  proof (intro allI impI)
    fix n p assume v: "view_page crc f' n = Inr p"
    show "page_on_disk (pf_disk f') (ims @ map (Pair t) (pf_dirty f)) n = Some p"
      using v assms(2-4)
      by (cases "map_of (pf_dirty f) n") (auto simp: page_on_disk_def image_of_append image_of_commit [OF d] guard_view_def pages_logged_def)
  qed
qed

lemma commit_small:
  assumes "guard_ok f" "guard_next f < 2 ^ 32" "images_small ims"
  shows "images_small (ims @ map (Pair t) (take k (pf_dirty f)))"
proof -
  have "n \<noteq> - 1" if "(n, p) \<in> set (take k (pf_dirty f))" for n p
  proof -
    have "(n, p) \<in> set (pf_dirty f)" using that by (rule in_set_takeD)
    then have "unat n < guard_next f" using assms(1) by (force simp: guard_ok_def)
    then show ?thesis using assms(2) minus_one(1) by auto
  qed
  then show ?thesis using assms(3) by (auto simp: images_small_def)
qed

lemma keeps_commit [keeps_intros]:
  assumes "dur \<noteq> NoLog"
  shows "keeps crc (commit_write crc dur t None)"
  unfolding keeps_def
proof (intro allI impI)
  fix db assume db: "durable crc db"
  let ?f = "db_file db"
  obtain ims where ims: "holds crc (db_wal db) ims" "images_small ims" "log_full db \<or> pages_logged crc ims ?f"
    using db by (auto simp: durable_def)
  have f: "guard_ok ?f" "tidy crc UNIV ?f" using db by (simp_all add: durable_def file_sound_def)
  from commit_guard_outcome [OF f(1), of crc UNIV] show "durable crc (snd (commit_write crc dur t None db))"
  proof (elim disjE exE conjE)
    assume "commit_guard ?f = (Inl Panicked, ?f)"
    then show ?thesis using db by (simp add: commit_write_def sm_bind_def on_file_def)
  next
    fix f' assume small: "guard_next ?f < 2 ^ 32" and f': "commit_guard ?f = (Inr (pf_dirty ?f), f')" "guard_clean f'"
      "view_page crc f' = guard_view crc ?f" "guard_view crc f' = guard_view crc ?f" "on_disk f' = on_disk ?f" "guard_next f' = guard_next ?f"
      "tidy crc UNIV ?f \<longrightarrow> tidy crc UNIV f'"
    have pages: "\<forall>(n, p) \<in> set (pf_dirty ?f). page_ok p"
      using dirty_viewed [OF f(1), where crc = crc] f(2) by (fastforce simp: tidy_def)
    have run: "commit_write crc dur t None db = sm_fold (log_image crc t None) (pf_dirty ?f) (db\<lparr>db_file := f'\<rparr>)"
      using f'(1) assms by (cases dur) (simp_all add: commit_write_def on_file_bind [where m = commit_guard])
    obtain r w' k where w': "sm_fold (log_image crc t None) (pf_dirty ?f) (db\<lparr>db_file := f'\<rparr>) = (r, db\<lparr>db_file := f', db_wal := w'\<rparr>)"
      "k \<le> length (pf_dirty ?f)" "holds crc w' (ims @ map (Pair t) (take k (pf_dirty ?f)))"
      "wal_entry_count w' = - 1 \<or> k = length (pf_dirty ?f)"
      using log_images_outcome [of crc "db\<lparr>db_file := f'\<rparr>" ims "pf_dirty ?f" t] ims(1) pages by auto
    have "wal_entry_count w' = - 1 \<or> pages_logged crc (ims @ map (Pair t) (take k (pf_dirty ?f))) f'"
    proof (rule disjCI)
      assume nf: "\<not> pages_logged crc (ims @ map (Pair t) (take k (pf_dirty ?f))) f'"
      show "wal_entry_count w' = - 1"
      proof (rule ccontr)
        assume w: "wal_entry_count w' \<noteq> - 1"
        then have "k = length (pf_dirty ?f)" using w'(4) by blast
        moreover have "\<not> log_full db"
          using full_stays [OF ims(1) w'(3)] w by (auto simp: log_full_def)
        ultimately show False using nf ims(3) pages_logged_commit [OF f(1) _ f'(3)] f'(5) by (simp add: on_disk_def)
      qed
    qed
    moreover have "file_sound crc f'"
      using db f(2) f'(5,7) guard_clean_ok [OF f'(2)] by (auto simp: durable_def file_sound_def on_disk_def)
    ultimately show ?thesis
      using db run w'(1,3) commit_small [OF f(1) small ims(2)] by (auto simp: durable_def plain_def log_full_def)
  qed
qed

lemma keeps_commit_plain: "dur \<noteq> NoLog \<Longrightarrow> c = None \<Longrightarrow> keeps crc (commit_write crc dur t c)"
  using keeps_commit by simp

section \<open>The registry pages\<close>

lemma alloc_many_safe [safe]: "safe_at crc f (alloc_many k)"
  by (induction k arbitrary: f) (auto intro!: safe)

lemma alloc_many_bound:
  assumes "guard_ok f" "alloc_many k f = (Inr ns, f')"
  shows "\<forall>n \<in> set ns. unat n < guard_next f'"
  using assms
proof (induction k arbitrary: f ns)
  case (Suc k)
  then obtain n f1 ns' where a: "allocate_page f = (Inr n, f1)" "alloc_many k f1 = (Inr ns', f')" "ns = n # ns'"
    by (auto simp: sm_bind_eq_Inr)
  have f1: "guard_ok f1" using safe_allocate [of undefined f] Suc.prems(1) a(1) by (simp add: safe_at_def)
  have "guard_step undefined f1 f'" using alloc_many_safe [of undefined f1 k] f1 a(2) by (simp add: safe_at_def)
  then have "unat n < guard_next f'" using allocate_page_next [OF a(1)] guard_step_less by blast
  then show ?case using Suc.IH [OF f1 a(2)] a(3) by simp
qed simp

lemma alloc_many_tidy:
  assumes "\<And>ns f'. alloc_many k f = (Inr ns, f') \<Longrightarrow> S \<union> set ns \<subseteq> T"
  shows "tidies crc S T f (alloc_many k)"
  using assms
proof (induction k arbitrary: f S)
  case 0
  show ?case unfolding alloc_many.simps by (rule tidies_weaken [OF tidies_pure(1)]) (use 0 in auto)
next
  case (Suc k)
  show ?case
    unfolding alloc_many.simps
  proof (rule tidies_allocate, rule tidies_bind [OF Suc.IH])
    fix n f1 ns f' assume a: "allocate_page f = (Inr n, f1)" "alloc_many k f1 = (Inr ns, f')"
    then have "alloc_many (Suc k) f = (Inr (n # ns), f')" by (simp add: sm_bind_def)
    from Suc.prems [OF this] show "insert n S \<union> set ns \<subseteq> T" by simp
  qed (rule tidies_pure)
qed

lemma alloc_many_length: "alloc_many k f = (Inr ns, f') \<Longrightarrow> length ns = k"
  by (induction k arbitrary: f ns) (auto simp: sm_bind_eq_Inr)

lemma build_chain_pages:
  "build_chain crc cs = Inr ps \<Longrightarrow> map fst ps = map snd cs \<and> (\<forall>(n, p) \<in> set ps. page_ok p \<and> sealed crc p)"
proof (induction crc cs arbitrary: ps rule: build_chain.induct)
  case (2 crc chunk n rest)
  let ?nx = "case rest of [] \<Rightarrow> 0 | (_, m) # _ \<Rightarrow> m"
  obtain p ps' where p: "build_overflow_page crc chunk ?nx = Inr p" "build_chain crc rest = Inr ps'" "ps = (n, p) # ps'"
    using "2.prems" by (auto simp: res_bind_eq_Inr Let_def)
  have "map fst ps' = map snd rest \<and> (\<forall>(n, p) \<in> set ps'. page_ok p \<and> sealed crc p)"
    using "2.IH" [OF refl p(1,2)] .
  then show ?case using p(3) overflow_page_sealed [OF p(1)] by auto
qed simp

lemma system_trailer_steady [steady_intros]: "steady (system_trailer first r)"
proof -
  have "steady (\<lambda>p. system_trailer first r p)"
    unfolding system_trailer_def Let_def by (intro steady_intros) simp_all
  then show ?thesis .
qed

text \<open>The pages of the serialized registry are valid, and the numbers of the chain are allocated.\<close>

lemma serialize_shape:
  assumes "serialize_system_page crc metas nid f = (Inr (p0, ps), f')"
  shows "page_ok p0 \<and> sealed crc p0 \<and> (\<forall>(n, p) \<in> set ps. page_ok p \<and> sealed crc p)
    \<and> (ps = [] \<and> f' = f \<or> (\<exists>k. alloc_many k f = (Inr (map fst ps), f')))"
proof -
  let ?bs = "serialize_system_metas metas nid"
  have blank: "page_ok (new_system crc)" "magic (new_system crc) = MAGIC" by simp_all
  have copy: "steady (\<lambda>p. copy_at p 16 bs)" for bs by (intro steady_intros) simp
  show ?thesis
  proof (cases "length ?bs \<le> SYSTEM_INLINE_BUDGET")
    case True
    then obtain p where "copy_at (new_system crc) 16 ?bs = Inr p" "p0 = update_checksum crc p" "ps = []" "f' = f"
      using assms by (auto simp: serialize_system_page_def Let_def sm_bind_def split: sum.splits)
    then show ?thesis using built_sealed [OF copy _ blank] by auto
  next
    case False
    let ?cs = "chunks OVERFLOW_PAYLOAD_MAX (drop SYSTEM_INLINE_BUDGET ?bs)"
    obtain ns a b first r where ns: "alloc_many (length ?cs) f = (Inr ns, f')" "build_chain crc (zip ?cs ns) = Inr ps"
      and p: "copy_at (new_system crc) 16 (take SYSTEM_INLINE_BUDGET ?bs) = Inr a" "system_trailer first r a = Inr b"
        "p0 = update_checksum crc b"
      using assms False by (auto simp: serialize_system_page_def Let_def sm_bind_eq_Inr res_bind_eq_Inr)
    from alloc_many_length [OF ns(1)] have "map fst ps = ns" using build_chain_pages [OF ns(2)] by simp
    moreover have "page_ok p0 \<and> sealed crc p0"
      using built_sealed [OF copy p(1) blank] built_sealed [OF system_trailer_steady p(2)] p(3) by simp
    ultimately show ?thesis using ns(1) build_chain_pages [OF ns(2)] by blast
  qed
qed


text \<open>The pages the registry section writes, with or without its errors dropped.\<close>

definition put_registry :: "crc_fn \<Rightarrow> table_meta list \<Rightarrow> u32 \<Rightarrow> unit guarded" where
  "put_registry crc metas nid =
     sm_bind (serialize_system_page crc metas nid) (\<lambda>(page0, overflow_pages).
     sm_bind (put_page 0 page0) (\<lambda>_. put_pages overflow_pages))"

lemma put_pages_run:
  "\<exists>f'. put_pages ps f = (Inr (), f') \<and> guard_next f' = guard_next f \<and> on_disk f' = on_disk f \<and> pf_pages f' = pf_pages f
    \<and> guard_view crc f' = (\<lambda>n. case map_of (rev ps) n of Some p \<Rightarrow> Inr p | None \<Rightarrow> guard_view crc f n)"
proof (induction ps arbitrary: f)
  case Nil
  then show ?case by (simp add: put_pages_def)
next
  case (Cons im ps)
  obtain n p where im: "im = (n, p)" by fastforce
  obtain f1 where f1: "put_page n p f = (Inr (), f1)" "guard_view crc f1 = (guard_view crc f)(n := Inr p)" "guard_next f1 = guard_next f"
    using put_run [of n p f crc] by blast
  have "on_disk f1 = on_disk f" "pf_pages f1 = pf_pages f" using put_disk(1,3) [of n p f] f1(1) by simp_all
  moreover obtain f' where f': "put_pages ps f1 = (Inr (), f')" "guard_next f' = guard_next f1" "on_disk f' = on_disk f1"
    "pf_pages f' = pf_pages f1" "guard_view crc f' = (\<lambda>n. case map_of (rev ps) n of Some p \<Rightarrow> Inr p | None \<Rightarrow> guard_view crc f1 n)"
    using Cons.IH by blast
  ultimately show ?case using f1 im
    by (intro exI [of _ f']) (auto simp: put_pages_def sm_bind_def map_add_def fun_eq_iff split: option.split)
qed

lemma safe_put_pages: "\<forall>(n, p) \<in> set ps. unat n < guard_next f \<Longrightarrow> safe_at crc f (put_pages ps)"
proof (induction ps arbitrary: f)
  case Nil
  show ?case unfolding put_pages_def sm_fold.simps by (rule safe)
next
  case (Cons im ps)
  obtain n p where im: "im = (n, p)" by fastforce
  have "safe_at crc f (sm_bind (put_page n p) (\<lambda>_. put_pages ps))"
  proof (rule safe_bind [OF safe_put])
    show "unat n < guard_next f" using Cons.prems im by simp
    fix x f' assume "guard_step crc f f'"
    then have "\<forall>(n, p) \<in> set ps. unat n < guard_next f'" using Cons.prems guard_step_less by fastforce
    then show "safe_at crc f' (put_pages ps)" by (rule Cons.IH)
  qed
  then show ?case by (simp add: put_pages_def im)
qed

lemma serialize_safe [safe]: "safe_at crc f (serialize_system_page crc metas nid)"
  unfolding serialize_system_page_def Let_def by (intro safe)

lemma serialize_tidy: "tidies crc UNIV UNIV f (serialize_system_page crc metas nid)"
  unfolding serialize_system_page_def Let_def by (intro tidy_intros alloc_many_tidy) simp

lemma put_registry_safe: "0 < guard_next f \<Longrightarrow> safe_at crc f (put_registry crc metas nid)"
  unfolding put_registry_def
proof (rule safe_bind [OF serialize_safe], rule safe_split)
  fix x f' p0 ps
  assume n: "0 < guard_next f" and r: "serialize_system_page crc metas nid f = (Inr x, f')" "guard_ok f" "guard_ok f'" "guard_step crc f f'"
    and x: "x = (p0, ps)"
  from serialize_shape [OF r(1) [unfolded x]] have b: "\<forall>(n, p) \<in> set ps. unat n < guard_next f'"
    using alloc_many_bound [OF r(2)] by fastforce
  have "unat 0 < guard_next f'" using n r(4) by (simp add: guard_step_def)
  then show "safe_at crc f' (sm_bind (put_page 0 p0) (\<lambda>_. put_pages ps))"
  proof (intro safe_bind [OF safe_put])
    fix y f'' assume "guard_step crc f' f''"
    then have "\<forall>(n, p) \<in> set ps. unat n < guard_next f''" using b guard_step_less by fastforce
    then show "safe_at crc f'' (put_pages ps)" by (rule safe_put_pages)
  qed
qed

lemma put_registry_tidy: "tidies crc UNIV UNIV f (put_registry crc metas nid)"
  unfolding put_registry_def
proof (rule tidies_bind [OF serialize_tidy], rule tidies_split)
  fix x f' p0 ps assume r: "serialize_system_page crc metas nid f = (Inr x, f')" and x: "x = (p0, ps)"
  note sh = serialize_shape [OF r [unfolded x]]
  have "tidies crc UNIV UNIV f1 (put_pages ps)" for f1
  proof -
    obtain f2 where "put_pages ps f1 = (Inr (), f2)" "on_disk f2 = on_disk f1" "pf_pages f2 = pf_pages f1"
      "guard_view crc f2 = (\<lambda>n. case map_of (rev ps) n of Some p \<Rightarrow> Inr p | None \<Rightarrow> guard_view crc f1 n)"
      using put_pages_run [of ps f1 crc] by blast
    then show ?thesis using sh by (auto simp: tidies_def tidy_def cache_ok_def dest!: map_of_SomeD split: option.splits)
  qed
  then show "tidies crc UNIV UNIV f' (sm_bind (put_page 0 p0) (\<lambda>_. put_pages ps))"
    using sh by (intro tidies_seq tidies_put(2)) simp_all
qed


section \<open>The operations keep the invariant\<close>

lemma safe_self: "safe_at crc f (g f) \<Longrightarrow> safe_at crc f (\<lambda>f. g f f)"
  by (simp add: safe_at_def)

lemma tidies_self: "tidies crc S T f (g f) \<Longrightarrow> tidies crc S T f (\<lambda>f. g f f)"
  by (simp add: tidies_def)

text \<open>Page 0 is allocated when the file is empty.\<close>

definition with_page0 :: "'a guarded \<Rightarrow> 'a guarded" where
  "with_page0 m = (\<lambda>f. sm_bind (if page_count f = 0 then sm_bind allocate_page (\<lambda>_. sm_ret ()) else sm_ret ()) (\<lambda>_. m) f)"

lemma with_page0_safe:
  assumes "\<And>f. 0 < guard_next f \<Longrightarrow> safe_at crc f m"
  shows "safe_at crc f (with_page0 m)"
  unfolding with_page0_def
proof (rule safe_self [where g = "\<lambda>f. sm_bind (if page_count f = 0 then _ else _) _"], cases "page_count f = 0")
  case True
  have "safe_at crc f (sm_bind allocate_page (\<lambda>_. m))"
    by (rule safe_alloc_bind) (simp add: assms)
  then show "safe_at crc f (sm_bind (if page_count f = 0 then sm_bind allocate_page (\<lambda>_. sm_ret ()) else sm_ret ()) (\<lambda>_. m))"
    using True by (simp add: sm_bind_assoc sm_ret_def [symmetric]) (simp add: sm_bind_def safe_at_def cong: sum.case_cong)
next
  case False
  then have "0 < guard_next f" by (simp add: page_count_def guard_next_def unat_gt_0)
  then show "safe_at crc f (sm_bind (if page_count f = 0 then sm_bind allocate_page (\<lambda>_. sm_ret ()) else sm_ret ()) (\<lambda>_. m))"
    using False assms by (simp add: safe_at_def sm_bind_def)
qed

lemma with_page0_tidy:
  assumes "\<And>f. tidies crc UNIV UNIV f m"
  shows "tidies crc UNIV UNIV f (with_page0 m)"
  unfolding with_page0_def
  by (rule tidies_self [where g = "\<lambda>f. sm_bind (if page_count f = 0 then _ else _) _"])
    (intro tidies_seq tidies_if tidies_allocate tidies_pure assms, auto intro: tidies_weaken [OF tidies_pure(1)])

lemma persist_registry_eq:
  "persist_registry crc metas nid dur = sm_bind (on_file (with_page0 (put_registry crc metas nid))) (\<lambda>_. commit_write crc dur 0 None)"
  by (simp add: persist_registry_def with_page0_def put_registry_def)

lemma keeps_persist [keeps_intros]: "keeps crc (persist crc)"
  unfolding persist_def persist_registry_eq
  by (rule keeps_seq [OF keeps_pure(3)], rule keeps_split, rule keeps_durability)
    (intro keeps_intros with_page0_safe with_page0_tidy put_registry_safe put_registry_tidy)

lemma index_update_one_keeps [keeps_intros]: "keeps crc (index_update_one crc t rid b rm i)"
  unfolding index_update_one_def
proof (rule keeps_table)
  fix m :: table_meta assume m: "tm_cipher m = None"
  have "tm_cipher (set_index_root i root m) = None" for root using m by (simp add: set_index_root_def)
  then show "keeps crc (let idx = tm_indexes m ! i in sm_bind (sm_lift (index_key_of m idx rid b)) (\<lambda>key.
      case key of None \<Rightarrow> sm_ret () | Some k \<Rightarrow> sm_bind (on_file (if rm
             then sm_bind (idx_delete crc (im_root_page idx) k) (\<lambda>_. sm_ret (im_root_page idx))
             else idx_insert crc (im_root_page idx) k)) (\<lambda>root. set_meta t (set_index_root i root m))))"
    by (intro keeps_intros keeps_set_meta safe tidy_intros)
qed

lemma index_update_row_keeps [keeps_intros]: "keeps crc (index_update_row crc t rid b rm)"
  unfolding index_update_row_def by (intro keeps_intros)

lemma store_row_keeps [keeps_intros]: "dur \<noteq> NoLog \<Longrightarrow> keeps crc (store_row crc dur t rid b)"
  unfolding store_row_def
  by (rule keeps_table) (intro keeps_intros keeps_commit_plain keeps_set_meta safe tidy_intros; simp)

lemma bump_row_count_keeps [keeps_intros]: "keeps crc (bump_row_count t)"
  unfolding bump_row_count_def by (rule keeps_table) (intro keeps_intros keeps_set_meta, simp)


lemma insert_direct_keeps [keeps_intros]: "keeps crc (insert_direct crc t data)"
  unfolding insert_direct_def Let_def
  by (rule keeps_open_table) (intro keeps_intros keeps_durability keeps_set_meta; simp)

lemma insert_with_id_direct_keeps [keeps_intros]: "keeps crc (insert_with_id_direct crc t rid data)"
  unfolding insert_with_id_direct_def Let_def
  by (rule keeps_open_table) (intro keeps_intros keeps_durability keeps_set_meta; simp)

lemma update_direct_keeps [keeps_intros]: "keeps crc (update_direct crc t rid fs)"
  unfolding update_direct_def Let_def
  by (rule keeps_open_table)
    (intro keeps_intros keeps_durability keeps_table keeps_commit_plain keeps_set_meta safe tidy_intros; simp)

lemma delete_direct_keeps [keeps_intros]: "keeps crc (delete_direct crc t rid)"
  unfolding delete_direct_def
  by (rule keeps_open_table)
    (intro keeps_intros keeps_durability keeps_table keeps_commit_plain keeps_set_meta safe tidy_intros; simp)


lemma commit_new_root_eq:
  "commit_new_root crc dur =
     sm_bind (on_file (with_page0 (btree_create crc))) (\<lambda>root.
     sm_bind (sm_view (\<lambda>db. Inr (db_next_table_id db))) (\<lambda>table_id.
     sm_bind (sm_lift (must (table_id \<noteq> - 1))) (\<lambda>_.
     sm_bind (sm_modify (\<lambda>db. db\<lparr>db_next_table_id := table_id + 1\<rparr>)) (\<lambda>_.
     sm_bind (commit_write crc dur table_id None) (\<lambda>_.
     sm_ret (root, table_id))))))"
  by (simp add: commit_new_root_def with_page0_def)

lemma keeps_modify: "(\<And>db. durable crc db \<Longrightarrow> durable crc (g db)) \<Longrightarrow> keeps crc (sm_modify g)"
  by (simp add: keeps_def)

lemma durable_registry: "durable crc db \<Longrightarrow> durable crc (db\<lparr>db_next_table_id := i\<rparr>)"
  "durable crc db \<Longrightarrow> durable crc (db\<lparr>db_tables := AList.delete name (db_tables db)\<rparr>)"
  "durable crc db \<Longrightarrow> durable crc (set_max_row_size n db)"
  "durable crc db \<Longrightarrow> d \<noteq> NoLog \<Longrightarrow> durable crc (set_durability d db)"
  by (auto simp: durable_def plain_def log_full_def set_max_row_size_def set_durability_def AList.delete_eq)

lemma commit_new_root_keeps [keeps_intros]: "dur \<noteq> NoLog \<Longrightarrow> keeps crc (commit_new_root crc dur)"
  unfolding commit_new_root_eq
  by (intro keeps_intros keeps_modify durable_registry with_page0_safe with_page0_tidy safe tidy_intros)

lemma create_table_keeps [keeps_intros]: "keeps crc (create_table crc name columns)"
  unfolding create_table_def
  by (rule keeps_seq [OF keeps_pure(3)], rule keeps_durability)
    (intro keeps_intros keeps_set_meta; simp add: table_meta_new_def)

lemma drop_table_keeps [keeps_intros]: "keeps crc (drop_table crc name)"
  unfolding drop_table_def by (intro keeps_intros keeps_modify durable_registry)


section \<open>Reachable databases\<close>

datatype request =
  Insert_Row rstring fields
| Insert_Row_With_Id rstring u64 fields
| Update_Row rstring u64 fields
| Delete_Row rstring u64
| Create_Table rstring "column_def list"
| Drop_Table rstring

fun run_request :: "crc_fn \<Rightarrow> request \<Rightarrow> unit dbop" where
  "run_request crc (Insert_Row t fs) = sm_bind (insert_direct crc t fs) (\<lambda>_. sm_ret ())"
| "run_request crc (Insert_Row_With_Id t rid fs) = insert_with_id_direct crc t rid fs"
| "run_request crc (Update_Row t rid fs) = sm_bind (update_direct crc t rid fs) (\<lambda>_. sm_ret ())"
| "run_request crc (Delete_Row t rid) = sm_bind (delete_direct crc t rid) (\<lambda>_. sm_ret ())"
| "run_request crc (Create_Table t cols) = create_table crc t cols"
| "run_request crc (Drop_Table t) = drop_table crc t"

lemma request_keeps: "keeps crc (run_request crc r)"
  by (cases r) (simp_all add: keeps_intros)

text \<open>The bytes of the log after a crash: as they are, or with a torn entry behind the last one.\<close>

definition crashed_log :: "crc_fn \<Rightarrow> wal \<Rightarrow> bytes \<Rightarrow> bool" where
  "crashed_log crc w wb \<longleftrightarrow> wb = wal_file w \<or> (\<exists>k t n p.
     wb = disk_write (wal_file w) (entry_offset (wal_entry_count w)) (take k (entry_bytes crc (wal_next_sequence w) t n p)))"

inductive db_reach :: "crc_fn \<Rightarrow> database \<Rightarrow> bool" for crc where
  New: "db_open crc \<lparr>fs_data = [], fs_wal = []\<rparr> = Some (Inr db, fs) \<Longrightarrow> db_reach crc db"
| Request: "db_reach crc db \<Longrightarrow> db_reach crc (snd (run_request crc r db))"
| Set_Durability: "db_reach crc db \<Longrightarrow> d \<noteq> NoLog \<Longrightarrow> db_reach crc (set_durability d db)"
| Set_Max_Row_Size: "db_reach crc db \<Longrightarrow> db_reach crc (set_max_row_size n db)"
| Crash: "db_reach crc db \<Longrightarrow> crashed_log crc (db_wal db) wb \<Longrightarrow>
    db_open crc \<lparr>fs_data = pf_disk (db_file db), fs_wal = wb\<rparr> = Some (Inr db', fs) \<Longrightarrow> db_reach crc db'"
| Close: "db_reach crc db \<Longrightarrow> db_open crc (db_files (snd (db_close crc db))) = Some (Inr db', fs) \<Longrightarrow> db_reach crc db'"

section \<open>Files that can be opened\<close>

definition files_hold :: "crc_fn \<Rightarrow> page_image list \<Rightarrow> disk_files \<Rightarrow> bool" where
  "files_hold crc ims fs \<longleftrightarrow> images_small ims \<and> length (fs_data fs) div PAGE_SIZE < 2 ^ 32
     \<and> (\<exists>w. wal_open (fs_wal fs) = Inr w \<and> holds crc w ims)"

lemma crashed_log_holds:
  assumes "crashed_log crc w wb" "holds crc w ims"
  shows "\<exists>w'. wal_open wb = Inr w' \<and> holds crc w' ims"
  using assms reopen_holds [OF assms(2)] crash_holds [OF assms(2)] unfolding crashed_log_def by blast

lemma crash_files:
  assumes "durable crc db" "crashed_log crc (db_wal db) wb"
  shows "\<exists>ims. files_hold crc ims \<lparr>fs_data = pf_disk (db_file db), fs_wal = wb\<rparr> \<and> (log_full db \<or> pages_logged crc ims (db_file db))"
  using assms crashed_log_holds [OF assms(2)] by (auto simp: durable_def file_sound_def files_hold_def)

lemma fresh_files: "files_hold crc [] \<lparr>fs_data = [], fs_wal = []\<rparr>"
  using fresh_holds [of crc] by (auto simp: files_hold_def images_small_def)

text \<open>The tables of a registry that was read have no key.\<close>

lemma get_many_all:
  "(\<And>off x off'. get d off = Inr (x, off') \<Longrightarrow> P x) \<Longrightarrow> get_many get n d off = Inr (xs, off') \<Longrightarrow> \<forall>x \<in> set xs. P x"
  by (induction n arbitrary: off xs) (auto simp: res_bind_eq_Inr)

lemma get_table_plain: "get_table d off = Inr (m, off') \<Longrightarrow> tm_cipher m = None"
  by (auto simp: get_table_def res_bind_eq_Inr table_meta_new_def Let_def)

lemma deserialize_plain: "deserialize_system_metas bs = Inr (metas, nid) \<Longrightarrow> \<forall>m \<in> set metas. tm_cipher m = None"
  using get_many_all [of get_table _ "\<lambda>m. tm_cipher m = None", OF get_table_plain]
  by (auto simp: deserialize_system_metas_def res_bind_eq_Inr)

lemma load_tables_plain:
  assumes "\<forall>m \<in> set metas. P m"
  shows "\<forall>(n, m) \<in> set (load_tables metas). P m"
proof -
  have "\<forall>(n, m) \<in> set acc. P m \<Longrightarrow> \<forall>m \<in> set metas. P m \<Longrightarrow> \<forall>(n, m) \<in> set (fold (\<lambda>m. AList.update (tm_name m) m) metas acc). P m"
    for acc :: "(rstring \<times> table_meta) list" and metas
  proof (induction metas arbitrary: acc)
    case (Cons m metas)
    have "\<forall>(n, m) \<in> set (AList.update (tm_name m) m acc). P m"
      using Cons.prems set_update_subset [of "tm_name m" m acc] by auto
    then show ?case using Cons by simp
  qed simp
  from this [of "[]", OF _ assms] show ?thesis by (simp add: load_tables_def)
qed


section \<open>What opening gives\<close>

text \<open>A file that was just opened shows the pages on disk.\<close>

lemma opened_view:
  assumes "length d div PAGE_SIZE < 2 ^ 32" "view_page crc (page_file_open d) n = Inr p"
  shows "raw_page d (unat n) = Some p \<and> page_ok p"
proof -
  have v: "\<not> as_u32 (length d div PAGE_SIZE) \<le> n" "read_page_from_disk crc (page_file_open d) n = Inr p"
    using assms(2) by (auto simp: view_page_eq page_file_open_def Let_def cache_get_def split: if_splits)
  have "read_page_raw (page_file_open d) n = Inr p"
    using v(2) by (auto simp: read_page_from_disk_def res_bind_eq_Inr page_from_bytes_eq)
  then show ?thesis by (auto simp: read_page_raw_def raw_page_def page_file_open_def Let_def page_ok_def split: if_splits)
qed

lemma opened_sound:
  assumes d: "length d div PAGE_SIZE < 2 ^ 32" and f: "view_page crc f = view_page crc (page_file_open d)" "guard_clean f"
    "on_disk f = on_disk (page_file_open d)" "cache_ok f"
  shows "file_sound crc f \<and> pages_logged crc [] f \<and> tidy crc {} f"
proof -
  have v: "raw_page d (unat n) = Some p \<and> page_ok p" if "view_page crc f n = Inr p" for n p
    using opened_view [OF d] that f(1) by simp
  have s: "sealed crc p" if "view_page crc f n = Inr p" for n p
    using that f(1) by (auto simp: view_page_eq page_file_open_def Let_def cache_get_def read_page_from_disk_def
        res_bind_eq_Inr page_from_bytes_eq sealed_def split: if_splits)
  have d': "pf_disk f = d" "pf_ciphers f = []" using f(3) by (simp_all add: on_disk_def page_file_open_def Let_def)
  have "tidy crc {} f" using v s f(4) by (auto simp: tidy_def guard_clean_view [OF f(2)])
  moreover have "file_sound crc f"
    using guard_clean_ok [OF f(2)] tidy_UNIV [OF calculation] d d' by (simp add: file_sound_def)
  moreover have "pages_logged crc [] f" using v d' by (auto simp: pages_logged_def page_on_disk_def)
  ultimately show ?thesis by blast
qed

text \<open>Opening runs the recovery and loads the registry from the recovered pages.\<close>

lemma open_run:
  assumes "files_hold crc ims fs"
  shows "\<exists>d' w'. length d' div PAGE_SIZE < 2 ^ 32 \<and> holds crc w' []
    \<and> recover crc fs = (Inr (), \<lparr>fs_data = d', fs_wal = wal_file w'\<rparr>)
    \<and> db_open crc fs = map_option (\<lambda>r. (r, \<lparr>fs_data = d', fs_wal = wal_file w'\<rparr>)) (load_registry crc (page_file_open d') w')
    \<and> (\<forall>n p. page_on_disk (fs_data fs) ims n = Some p \<longrightarrow> view_page crc (page_file_open d') n = page_from_bytes crc p)"
proof -
  obtain w where w: "wal_open (fs_wal fs) = Inr w" "holds crc w ims" and ims: "images_small ims" "length (fs_data fs) div PAGE_SIZE < 2 ^ 32"
    using assms by (auto simp: files_hold_def)
  obtain d' wb' w' where r: "recover crc \<lparr>fs_data = fs_data fs, fs_wal = fs_wal fs\<rparr> = (Inr (), \<lparr>fs_data = d', fs_wal = wb'\<rparr>)"
    "wal_open wb' = Inr w'" "wal_file w' = wb'" "holds crc w' []" "length d' div PAGE_SIZE < 2 ^ 32"
    "\<forall>n p. page_on_disk (fs_data fs) ims n = Some p \<longrightarrow> raw_page d' (unat n) = Some p"
    using recover_run [OF w ims] by blast
  have "recover crc fs = (Inr (), \<lparr>fs_data = d', fs_wal = wb'\<rparr>)" using r(1) by (cases fs) simp
  then show ?thesis using r(2-6) raw_page_view [OF _ r(5), where crc = crc]
    by (intro exI [of _ d'] exI [of _ w']) (simp add: db_open_def Let_def)
qed

lemma read_page_cached:
  assumes "read_page crc n f = (r, f')"
  shows "view_page crc f' = view_page crc f \<and> pf_dirty f' = pf_dirty f \<and> pf_new_count f' = pf_new_count f \<and> on_disk f' = on_disk f
    \<and> (cache_ok f \<longrightarrow> cache_ok f')"
proof -
  have "on_disk f' = on_disk f"
    using assms by (auto simp: read_page_def on_disk_def split: if_splits option.splits sum.splits)
  then show ?thesis using read_page_run [of crc n f] assms cache_ok_read [OF _ assms] by auto
qed

lemma load_registry_run:
  assumes "load_registry crc (page_file_open d) w = Some (Inr db)"
  shows "\<exists>f tables nid. db = new_database f w tables nid \<and> view_page crc f = view_page crc (page_file_open d) \<and> guard_clean f
    \<and> on_disk f = on_disk (page_file_open d) \<and> (cache_ok (page_file_open d) \<longrightarrow> cache_ok f)
    \<and> (\<forall>(n, m) \<in> set tables. tm_cipher m = None)"
proof (cases "0 < page_count (page_file_open d)")
  case False
  then show ?thesis using assms
    by (intro exI [of _ "page_file_open d"] exI [of _ "[]"] exI [of _ 1])
      (simp add: load_registry_def guard_clean_def page_file_open_def Let_def)
next
  case True
  obtain r f where f: "read_page crc 0 (page_file_open d) = (r, f)" by fastforce
  then obtain p where p: "r = Inr p" using assms True by (cases r) (auto simp: load_registry_def)
  note c = read_page_cached [OF f]
  have clean: "guard_clean f" using c by (simp add: guard_clean_def page_file_open_def Let_def)
  show ?thesis
  proof (cases "flags p AND PAGE_SYSTEM = 0")
    case True
    then have "db = new_database f w [] 1" using assms f p \<open>0 < page_count (page_file_open d)\<close> by (simp add: load_registry_def)
    then show ?thesis using c clean by (intro exI [of _ f] exI [of _ "[]"] exI [of _ 1]) simp
  next
    case False
    then obtain metas nid where m: "deserialize_system_page p (view_page crc f) = Some (Inr (metas, nid))"
      "db = new_database f w (load_tables metas) nid"
      using assms f p \<open>0 < page_count (page_file_open d)\<close> by (auto simp: load_registry_def res_bind_eq_Inr)
    have "\<forall>m \<in> set metas. tm_cipher m = None"
      using m(1) by (auto simp: deserialize_system_page_def Let_def res_bind_eq_Inr dest: deserialize_plain split: if_splits)
    then show ?thesis using m(2) c clean load_tables_plain [of metas "\<lambda>m. tm_cipher m = None"]
      by (intro exI [of _ f] exI [of _ "load_tables metas"] exI [of _ nid]) simp
  qed
qed

lemma open_durable:
  assumes "files_hold crc ims fs" "db_open crc fs = Some (Inr db, fs')"
  shows "durable crc db \<and> \<not> log_full db \<and> tidy crc {} (db_file db) \<and> guard_clean (db_file db)
    \<and> (\<forall>n p. page_on_disk (fs_data fs) ims n = Some p \<longrightarrow> view_page crc (db_file db) n = page_from_bytes crc p)"
proof -
  obtain d w where o: "length d div PAGE_SIZE < 2 ^ 32" "holds crc w []"
    "db_open crc fs = map_option (\<lambda>r. (r, \<lparr>fs_data = d, fs_wal = wal_file w\<rparr>)) (load_registry crc (page_file_open d) w)"
    "\<forall>n p. page_on_disk (fs_data fs) ims n = Some p \<longrightarrow> view_page crc (page_file_open d) n = page_from_bytes crc p"
    using open_run [OF assms(1)] by blast
  have "load_registry crc (page_file_open d) w = Some (Inr db)"
    using assms(2) unfolding o(3) by (cases "load_registry crc (page_file_open d) w") auto
  from load_registry_run [OF this] obtain f tables nid where l: "db = new_database f w tables nid"
    "view_page crc f = view_page crc (page_file_open d)" "guard_clean f" "on_disk f = on_disk (page_file_open d)"
    "cache_ok (page_file_open d) \<longrightarrow> cache_ok f" "\<forall>(n, m) \<in> set tables. tm_cipher m = None"
    by blast
  have "cache_ok (page_file_open d)" using o(1) by (simp add: cache_ok_def page_file_open_def Let_def take_bit_nat_eq_self unsigned_of_nat)
  then have "file_sound crc f \<and> pages_logged crc [] f \<and> tidy crc {} f" using opened_sound [OF o(1) l(2-4)] l(5) by blast
  then show ?thesis using o(2,4) l(1-3,6)
    by (auto simp: durable_def plain_def new_database_def log_full_def images_small_def holds_def)
qed


section \<open>Closing\<close>

lemma safe_ignore: "safe_at crc f m \<Longrightarrow> safe_at crc f (sm_ignore m)"
  by (auto simp: safe_at_def sm_ignore_def split: prod.splits sum.splits fault.splits)

lemma tidies_ignore: "tidies crc UNIV UNIV f m \<Longrightarrow> tidies crc UNIV UNIV f (sm_ignore m)"
  by (auto simp: tidies_def sm_ignore_def split: prod.splits sum.splits fault.splits)

definition close_pages :: "crc_fn \<Rightarrow> table_meta list \<Rightarrow> u32 \<Rightarrow> unit guarded" where
  "close_pages crc metas nid = (\<lambda>f.
     sm_bind (if page_count f = 0 then sm_ignore allocate_page else sm_ret ()) (\<lambda>_. sm_ignore (put_registry crc metas nid)) f)"

lemma db_close_eq:
  "db_close crc =
     sm_bind (sm_view (\<lambda>db. Inr (snapshot_table_metas db))) (\<lambda>(metas, next_id).
     sm_bind (on_file (close_pages crc metas next_id)) (\<lambda>_.
     sm_bind (on_file (sm_ignore commit_guard)) (\<lambda>_.
     sm_bind (on_file (sm_ignore sync_all)) (\<lambda>_. on_wal (sm_modify Wal_Log.truncate)))))"
  by (simp add: db_close_def close_pages_def put_registry_def)

lemma close_pages_safe: "safe_at crc f (close_pages crc metas nid)"
  unfolding close_pages_def
proof (rule safe_self [where g = "\<lambda>f. sm_bind (if page_count f = 0 then _ else _) _"], rule safe_bind)
  show "safe_at crc f (if page_count f = 0 then sm_ignore allocate_page else sm_ret ())"
    by (intro safe safe_ignore)
  fix x f' assume m: "(if page_count f = 0 then sm_ignore allocate_page else sm_ret ()) f = (Inr x, f')"
  have "0 < guard_next f'"
  proof (cases "page_count f = 0")
    case True
    have "\<not> 4294967296 \<le> unat (pf_new_count f)" by (simp add: not_le)
    then obtain n where "allocate_page f = (Inr n, f')"
      using m True by (cases "pf_new_count f = - 1") (simp_all add: sm_ignore_def allocate_page_def page_count_def Let_def)
    then show ?thesis using allocate_page_next by fastforce
  next
    case False
    then show ?thesis using m by (simp add: page_count_def guard_next_def unat_gt_0)
  qed
  then show "safe_at crc f' (sm_ignore (put_registry crc metas nid))"
    by (intro safe_ignore put_registry_safe)
qed

lemma close_pages_tidy: "tidies crc UNIV UNIV f (close_pages crc metas nid)"
  unfolding close_pages_def
proof (rule tidies_self [where g = "\<lambda>f. sm_bind (if page_count f = 0 then _ else _) _"])
  have "tidies crc UNIV UNIV f (sm_bind allocate_page sm_ret)"
    by (rule tidies_allocate) (auto intro: tidies_weaken [OF tidies_pure(1)])
  then have "tidies crc UNIV UNIV f allocate_page" by (simp add: tidies_def sm_bind_def split: prod.splits sum.splits)
  then show "tidies crc UNIV UNIV f (sm_bind (if page_count f = 0 then sm_ignore allocate_page else sm_ret ()) (\<lambda>_. sm_ignore (put_registry crc metas nid)))"
    by (intro tidies_seq tidies_if tidies_ignore tidies_pure put_registry_tidy)
qed

text \<open>A flush writes the cached pages to the data file.\<close>

lemma sync_all_run:
  assumes "file_sound crc f"
  shows "\<exists>d. sync_all f = (Inr (), f\<lparr>pf_disk := d\<rparr>) \<and> length d div PAGE_SIZE < 2 ^ 32
    \<and> (\<forall>n p. page_on_disk (pf_disk f) [] n = Some p \<longrightarrow> cache_get (pf_pages f) n = None \<longrightarrow> raw_page d (unat n) = Some p)
    \<and> (\<forall>n p. cache_get (pf_pages f) n = Some p \<longrightarrow> raw_page d (unat n) = Some p)"
proof -
  have f: "pf_ciphers f = []" "\<forall>p. Some p \<in> set (pf_pages f) \<longrightarrow> page_ok p" "0 + length (pf_pages f) < 2 ^ 32"
    using assms by (simp_all add: file_sound_def tidy_def cache_ok_def)
  from sync_fold [OF f(1-3)] obtain d where d: "sm_fold sync_slot (enumerate 0 (pf_pages f)) f = (Inr (), f\<lparr>pf_disk := d\<rparr>)"
    "\<And>j q. raw_page (pf_disk f) j = Some q \<Longrightarrow> (\<forall>p. j < length (pf_pages f) \<longrightarrow> pf_pages f ! j \<noteq> Some p) \<Longrightarrow> raw_page d j = Some q"
    "\<And>i p. i < length (pf_pages f) \<Longrightarrow> pf_pages f ! i = Some p \<Longrightarrow> raw_page d i = Some p"
    "length d \<le> max (length (pf_disk f)) (length (pf_pages f) * PAGE_SIZE)"
    by auto
  have "length d div PAGE_SIZE \<le> max (length (pf_disk f)) (length (pf_pages f) * PAGE_SIZE) div PAGE_SIZE"
    using d(4) by (rule div_le_mono)
  then have "length d div PAGE_SIZE < 2 ^ 32" using assms f(3) by (auto simp: file_sound_def max_def split: if_splits)
  moreover have "raw_page d (unat n) = Some p" if "raw_page (pf_disk f) (unat n) = Some p" "cache_get (pf_pages f) n = None" for n p
    using d(2) [OF that(1)] that(2) by (auto simp: cache_get_def split: if_splits)
  moreover have "raw_page d (unat n) = Some p" if "cache_get (pf_pages f) n = Some p" for n p
    using d(3) that by (auto simp: cache_get_def split: if_splits)
  ultimately show ?thesis using d(1) by (intro exI [of _ d]) (auto simp: sync_all_def page_on_disk_def)
qed

text \<open>
  How closing ends: it panics in the guard, before the files change, or every page that was published
  is on disk and the log is empty.
\<close>

lemma close_outcome:
  assumes db: "durable crc db"
  shows "\<exists>r db1. on_file (close_pages crc (map snd (db_tables db)) (db_next_table_id db)) db = (r, db1) \<and> durable crc db1
    \<and> db_wal db1 = db_wal db \<and> view_page crc (db_file db1) = view_page crc (db_file db)
    \<and> (snd (db_close crc db) = db1
       \<or> r = Inr () \<and> (\<exists>f d. guard_clean f \<and> view_page crc f = guard_view crc (db_file db1) \<and> file_sound crc f
            \<and> sync_all f = (Inr (), f\<lparr>pf_disk := d\<rparr>) \<and> on_disk f = on_disk (db_file db1)
            \<and> db_close crc db = (Inr (), db1\<lparr>db_file := f\<lparr>pf_disk := d\<rparr>, db_wal := Wal_Log.truncate (db_wal db)\<rparr>)))"
proof -
  let ?m = "close_pages crc (map snd (db_tables db)) (db_next_table_id db)"
  obtain r f1 where f1: "?m (db_file db) = (r, f1)" by fastforce
  let ?db1 = "db\<lparr>db_file := f1\<rparr>"
  have run: "on_file ?m db = (r, ?db1)" using f1 by (simp add: on_file_def)
  have d1: "durable crc ?db1"
    using keeps_on_file [of crc ?m, OF close_pages_safe close_pages_tidy] db run by (auto simp: keeps_def)
  have ok: "guard_ok (db_file db)" "guard_ok f1" "tidy crc UNIV f1" using db d1 by (simp_all add: durable_def file_sound_def)
  have v: "view_page crc f1 = view_page crc (db_file db)"
    using close_pages_safe [of crc "db_file db" "map snd (db_tables db)" "db_next_table_id db"] ok(1) f1 by (auto simp: safe_at_def guard_step_def)
  note st = run d1 v
  show ?thesis
  proof (cases r)
    case (Inl e)
    then have "snd (db_close crc db) = ?db1"
      using run by (simp add: db_close_eq snapshot_table_metas_def sm_bind_def)
    then show ?thesis using st by (intro exI [of _ r] exI [of _ ?db1]) simp
  next
    case (Inr x)
    from commit_guard_outcome [OF ok(2), of crc UNIV] show ?thesis
    proof (elim disjE exE conjE)
      assume "commit_guard f1 = (Inl Panicked, f1)"
      then have "snd (db_close crc db) = ?db1"
        using run Inr by (simp add: db_close_eq snapshot_table_metas_def sm_bind_def on_file_def sm_ignore_def)
      then show ?thesis using st by (intro exI [of _ r] exI [of _ ?db1]) simp
    next
      fix f assume f: "commit_guard f1 = (Inr (pf_dirty f1), f)" "guard_clean f" "view_page crc f = guard_view crc f1"
        "on_disk f = on_disk f1" "tidy crc UNIV f1 \<longrightarrow> tidy crc UNIV f"
      have snd: "file_sound crc f"
        using d1 f(2,4,5) ok(3) guard_clean_ok [OF f(2)] by (auto simp: durable_def file_sound_def on_disk_def)
      obtain d where d: "sync_all f = (Inr (), f\<lparr>pf_disk := d\<rparr>)" using sync_all_run [OF snd] by blast
      have "db_close crc db = (Inr (), ?db1\<lparr>db_file := f\<lparr>pf_disk := d\<rparr>, db_wal := Wal_Log.truncate (db_wal db)\<rparr>)"
        using run Inr f(1) d by (simp add: db_close_eq snapshot_table_metas_def sm_bind_def on_file_def on_wal_def sm_ignore_def)
      then show ?thesis using st Inr f(2-4) snd d
        by (intro exI [of _ r] exI [of _ ?db1]) (auto intro!: exI [of _ f] exI [of _ d])
    qed
  qed
qed

lemma close_files:
  assumes "durable crc db"
  shows "\<exists>ims. files_hold crc ims (db_files (snd (db_close crc db)))"
proof -
  obtain r db1 where c: "durable crc db1" "db_wal db1 = db_wal db"
    "snd (db_close crc db) = db1
       \<or> r = Inr () \<and> (\<exists>f d. guard_clean f \<and> view_page crc f = guard_view crc (db_file db1) \<and> file_sound crc f
            \<and> sync_all f = (Inr (), f\<lparr>pf_disk := d\<rparr>) \<and> on_disk f = on_disk (db_file db1)
            \<and> db_close crc db = (Inr (), db1\<lparr>db_file := f\<lparr>pf_disk := d\<rparr>, db_wal := Wal_Log.truncate (db_wal db)\<rparr>))"
    using close_outcome [OF assms] by blast
  from c(3) show ?thesis
  proof (elim disjE exE conjE)
    assume "snd (db_close crc db) = db1"
    moreover have "crashed_log crc (db_wal db1) (wal_file (db_wal db1))" by (simp add: crashed_log_def)
    ultimately show ?thesis using crash_files [OF c(1)] by (auto simp: db_files_def)
  next
    fix f d assume f: "file_sound crc f" "sync_all f = (Inr (), f\<lparr>pf_disk := d\<rparr>)"
      "db_close crc db = (Inr (), db1\<lparr>db_file := f\<lparr>pf_disk := d\<rparr>, db_wal := Wal_Log.truncate (db_wal db)\<rparr>)"
    obtain ims where "holds crc (db_wal db) ims" using assms by (auto simp: durable_def)
    from truncate_holds [OF this] have w: "holds crc (Wal_Log.truncate (db_wal db)) []" .
    obtain d' where d': "sync_all f = (Inr (), f\<lparr>pf_disk := d'\<rparr>)" "length d' div PAGE_SIZE < 2 ^ 32"
      using sync_all_run [OF f(1)] by blast
    have "pf_disk (f\<lparr>pf_disk := d\<rparr>) = pf_disk (f\<lparr>pf_disk := d'\<rparr>)" using f(2) d'(1) by simp
    then have "length d div PAGE_SIZE < 2 ^ 32" using d'(2) by simp
    then show ?thesis using f(3) w reopen_holds [OF w]
      by (intro exI [of _ "[]"]) (auto simp: files_hold_def db_files_def images_small_def)
  qed
qed

lemma reach_durable: "db_reach crc db \<Longrightarrow> durable crc db"
proof (induction rule: db_reach.induct)
  case (New db fs)
  then show ?case using open_durable [OF fresh_files] by blast
next
  case (Request db r)
  then show ?case using request_keeps by (simp add: keeps_def)
next
  case (Crash db wb db' fs)
  then show ?case using crash_files [OF Crash.IH Crash.hyps(2)] open_durable by blast
next
  case (Close db db' fs)
  then show ?case using close_files [OF Close.IH] open_durable by blast
qed (simp_all add: durable_registry)

end
