(* ===== verification/Row_Ops.thy ===== *)
theory Row_Ops
  imports Table_State
begin

text \<open>
  The row operations of the database handle against their specification: the rows of a table are a
  sorted map from rowids to encoded rows, and every index holds the keys of those rows. Insertion,
  lookup, update and deletion are proved to act on this map, to keep the table in order, to publish
  the result and to leave the other tables alone.
\<close>

section \<open>What an insertion needs\<close>

definition unlocked :: "table_meta \<Rightarrow> bool" where
  "unlocked m \<longleftrightarrow> \<not> tm_encrypted m \<and> tm_cipher m = None"

definition row_cost :: "bytes \<Rightarrow> u64 btree \<Rightarrow> bytes btree list \<Rightarrow> nat" where
  "row_cost row t its = row_budget row + height t + 65 * length its"

text \<open>Space in the file and the log, trees below the depth limit, a row the pages can hold, short keys.\<close>

definition can_store :: "database \<Rightarrow> table_meta \<Rightarrow> u64 btree \<Rightarrow> bytes btree list \<Rightarrow> u64 \<Rightarrow> bytes \<Rightarrow> bool" where
  "can_store db m t its rowid row \<longleftrightarrow>
     storable rowid row \<and> leaf_takes rowid row (snd (leaf_for t rowid)) \<and> table_depth t its \<le> MAX_TREE_DEPTH
     \<and> keys_short m its rowid row
     \<and> guard_next (db_file db) + row_cost row t its < 2 ^ 32 - 1
     \<and> log_room (guard_next (db_file db) + row_cost row t its) (db_wal db)"

text \<open>The table of the handle: its metadata, its rows, the guard clean between operations.\<close>

definition table_open ::
  "crc_fn \<Rightarrow> database \<Rightarrow> rstring \<Rightarrow> table_meta \<Rightarrow> hits \<Rightarrow> u64 btree \<Rightarrow> u32 set \<Rightarrow> bytes btree list \<Rightarrow> bool" where
  "table_open crc db table m cs t P its \<longleftrightarrow>
     table_of table db = Inr m \<and> unlocked m \<and> guard_clean (db_file db) \<and> table_in crc (db_file db) m cs t P its"

text \<open>The other tables see neither metadata nor pages change.\<close>

definition others_keep :: "crc_fn \<Rightarrow> database \<Rightarrow> rstring \<Rightarrow> u64 btree \<Rightarrow> u32 set \<Rightarrow> bytes btree list \<Rightarrow> database \<Rightarrow> bool" where
  "others_keep crc db table t P its db' \<longleftrightarrow>
     (\<forall>other. other \<noteq> table \<longrightarrow> table_of other db' = table_of other db)
     \<and> (\<forall>n. n < page_count (db_file db) \<longrightarrow> n \<notin> table_pages t P its \<longrightarrow> view_page crc (db_file db') n = view_page crc (db_file db) n)"

lemma table_of_other [simp]: "other \<noteq> table \<Longrightarrow> table_of other (db_at db table f m) = table_of other db"
  "table_of other (db\<lparr>db_wal := w\<rparr>) = table_of other db"
  by (simp_all add: db_at_def table_of_def update_conv')

lemma db_at_wal [simp]:
  "db_file ((db_at db table f m)\<lparr>db_wal := w\<rparr>) = f" "table_of table ((db_at db table f m)\<lparr>db_wal := w\<rparr>) = Inr m"
  by (simp_all add: db_at_def table_of_def update_conv')

lemma guard_clean_next: "guard_clean f \<Longrightarrow> guard_next f = unat (page_count f)"
  by (simp add: guard_clean_def guard_next_def page_count_def)

lemma open_table_run [simp]:
  "table_of table db = Inr m \<Longrightarrow> unlocked m \<Longrightarrow> sm_bind (open_table table) k db = k m db"
  by (simp add: open_table_def sm_bind_assoc sm_bind_view check_table_accessible_def unlocked_def)

lemma check_unlocked [simp]: "unlocked m \<Longrightarrow> check_table_accessible m table = Inr ()"
  by (simp add: check_table_accessible_def unlocked_def)

section \<open>Lookup\<close>

lemma contents_row:
  assumes "tree_in crc f P t" "(k, b) \<in> set (guard_contents crc f t)"
  shows "extract_id b = Inr k"
  using assms stored_row(5) by (auto simp: tree_in_def row_tree_def contents_def entry_of_def)

lemma db_get_run:
  assumes "table_open crc db table m cs t P its" "height t \<le> MAX_TREE_DEPTH"
  shows "db_get crc table rid db = Inr (map_option (\<lambda>b. \<lparr>row_no = rid, row_data = b, row_col_names = tm_col_names m,
      row_col_defs = tm_col_defs m\<rparr>) (map_of cs rid))"
proof -
  note o = assms(1) [unfolded table_open_def table_in_def]
  have v: "view_page crc (db_file db) = guard_view crc (db_file db)" using o guard_clean_view by metis
  have "search (view_page crc (db_file db)) (tm_root_page m) rid = Inr (map_of cs rid)"
    using search_run [of "guard_view crc (db_file db)" P t MAX_TREE_DEPTH] o assms(2) by (simp add: search_def v tree_in_def)
  moreover have "extract_id b = Inr rid" if "map_of cs rid = Some b" for b
    using contents_row [of crc "db_file db" P t rid b] map_of_SomeD [OF that] o by simp
  ultimately show ?thesis using o
    by (simp add: db_get_def row_from_raw_def split: option.split)
qed

section \<open>Insertion\<close>

lemma db_at_of_at [simp]: "(db_at db table f m)\<lparr>db_wal := w, db_file := f'\<rparr> = (db_at db table f' m)\<lparr>db_wal := w\<rparr>"
  by (simp add: db_at_def)

lemma set_meta_at: "set_meta table m' ((db_at db table f m)\<lparr>db_wal := w\<rparr>) = (Inr (), (db_at db table f m')\<lparr>db_wal := w\<rparr>)"
  by (simp add: db_at_def)

lemma bump_row_count_at:
  "tm_row_count m \<noteq> - 1 \<Longrightarrow> bump_row_count table ((db_at db table f m)\<lparr>db_wal := w\<rparr>)
     = (Inr (), (db_at db table f (m\<lparr>tm_row_count := tm_row_count m + 1\<rparr>))\<lparr>db_wal := w\<rparr>)"
  by (simp add: bump_row_count_def sm_bind_view) (simp add: db_at_def)

lemma others_keepI:
  assumes "guard_clean (db_file db)" "guard_clean f'" "table_changed crc k (db_file db) t P its f' t' P' its'"
  shows "others_keep crc db table t P its ((db_at db table f' m)\<lparr>db_wal := w\<rparr>)"
  using assms guard_clean_view [of "db_file db" crc] guard_clean_view [of f' crc] guard_clean_next [of "db_file db"]
  by (auto simp: others_keep_def table_changed_def word_less_nat_alt)

lemma store_counted_run:
  assumes o: "table_open crc db table m cs t P its" and c: "can_store db m t its rowid row" "rowid \<notin> fst ` set cs"
    and n: "tm_row_count m \<noteq> - 1"
  shows "\<exists>f' w' m' t' P' its'. sm_bind (store_row crc dur table rowid row) (\<lambda>_. bump_row_count table) db
      = (Inr (), (db_at db table f' m')\<lparr>db_wal := w'\<rparr>)
    \<and> table_in crc f' m' (insort_key fst (rowid, row) cs) t' P' its' \<and> guard_clean f' \<and> unlocked m'
    \<and> tm_row_count m' = tm_row_count m + 1 \<and> tm_next_rowid m' = tm_next_rowid m
    \<and> tm_columns m' = tm_columns m \<and> map im_name (tm_indexes m') = map im_name (tm_indexes m)
    \<and> m' = with_roots (m\<lparr>tm_root_page := root_of t', tm_row_count := tm_row_count m + 1\<rparr>) its'
    \<and> table_changed crc (row_cost row t its) (db_file db) t P its f' t' P' its'"
proof -
  note o' = o [unfolded table_open_def] and c' = c(1) [unfolded can_store_def]
  have "\<exists>f' w' m' t' P' its'. store_row crc dur table rowid row db = (Inr (), (db_at db table f' m')\<lparr>db_wal := w'\<rparr>)
    \<and> table_in crc f' m' (insort_key fst (rowid, row) cs) t' P' its' \<and> guard_clean f'
    \<and> m' = with_roots (m\<lparr>tm_root_page := root_of t'\<rparr>) its'
    \<and> table_changed crc (row_budget row + height t + 65 * length its) (db_file db) t P its f' t' P' its'"
    by (rule store_row_run) (use o' c' c(2) guard_clean_ok in \<open>simp_all add: row_cost_def unlocked_def\<close>)
  then obtain f' w' m1 t' P' its' where s: "store_row crc dur table rowid row db = (Inr (), (db_at db table f' m1)\<lparr>db_wal := w'\<rparr>)"
    "table_in crc f' m1 (insort_key fst (rowid, row) cs) t' P' its'" "guard_clean f'"
    "m1 = with_roots (m\<lparr>tm_root_page := root_of t'\<rparr>) its'" "table_changed crc (row_cost row t its) (db_file db) t P its f' t' P' its'"
    unfolding row_cost_def by blast
  define m' where "m' = m1\<lparr>tm_row_count := tm_row_count m1 + 1\<rparr>"
  have n1: "tm_row_count m1 \<noteq> - 1" using n s(4) by simp
  have "sm_bind (store_row crc dur table rowid row) (\<lambda>_. bump_row_count table) db = (Inr (), (db_at db table f' m')\<lparr>db_wal := w'\<rparr>)"
    using s(1) bump_row_count_at [OF n1] by (simp add: sm_bind_def m'_def)
  moreover have "table_in crc f' m' (insort_key fst (rowid, row) cs) t' P' its'"
    by (rule table_in_meta [OF s(2)]) (simp_all add: m'_def)
  moreover have "length its' = length (tm_indexes m)" using s(5) o' by (simp add: table_changed_def table_in_def)
  then have "map im_name (tm_indexes m') = map im_name (tm_indexes m)"
    by (intro nth_equalityI) (simp_all add: m'_def s(4) with_roots_def)
  moreover have "unlocked m'" using o' s(4) by (simp add: unlocked_def m'_def)
  moreover have "m' = with_roots (m\<lparr>tm_root_page := root_of t', tm_row_count := tm_row_count m + 1\<rparr>) its'"
    by (simp add: m'_def s(4) with_roots_def)
  moreover have "tm_row_count m' = tm_row_count m + 1" "tm_next_rowid m' = tm_next_rowid m" "tm_columns m' = tm_columns m"
    by (simp_all add: m'_def s(4))
  ultimately show ?thesis using s(3,5) by blast
qed

text \<open>The insertion once its checks have passed.\<close>

lemma insert_direct_start:
  assumes "table_of table db = Inr m" "unlocked m" "row = encode_row (tm_next_rowid m) (row_values m data)" "tm_next_rowid m \<noteq> - 1"
    and "enforce_index_types m data = Inr ()" "length row \<le> unat (db_max_row_size db)"
    and "enforce_unique_indexes crc (db_file db) m row = Inr ()"
  shows "insert_direct crc table data db
    = sm_bind (sm_bind (store_row crc (db_durability db) table (tm_next_rowid m) row) (\<lambda>_. bump_row_count table)) (\<lambda>_. sm_ret (tm_next_rowid m))
        (db_at db table (db_file db) (m\<lparr>tm_next_rowid := tm_next_rowid m + 1\<rparr>))"
  using assms by (simp add: insert_direct_def sm_bind_view Let_def size_check_def db_at_def sm_bind_assoc)

lemma insert_direct_meta_run:
  assumes o: "table_open crc db table m cs t P its" and row: "row = encode_row (tm_next_rowid m) (row_values m data)"
    and c: "can_store db m t its (tm_next_rowid m) row" "tm_next_rowid m \<notin> fst ` set cs"
    and n: "tm_row_count m \<noteq> - 1" "tm_next_rowid m \<noteq> - 1"
    and chk: "enforce_index_types m data = Inr ()" "length row \<le> unat (db_max_row_size db)"
      "enforce_unique_indexes crc (db_file db) m row = Inr ()"
  shows "\<exists>db' m' t' P' its'. insert_direct crc table data db = (Inr (tm_next_rowid m), db')
    \<and> table_open crc db' table m' (insort_key fst (tm_next_rowid m, row) cs) t' P' its'
    \<and> m' = with_roots (m\<lparr>tm_root_page := root_of t', tm_row_count := tm_row_count m + 1, tm_next_rowid := tm_next_rowid m + 1\<rparr>) its'
    \<and> table_depth t' its' \<le> Suc (table_depth t its) \<and> others_keep crc db table t P its db'"
proof -
  note o' = o [unfolded table_open_def]
  define r where "r = tm_next_rowid m"
  define m1 where "m1 = m\<lparr>tm_next_rowid := r + 1\<rparr>"
  define db1 where "db1 = db_at db table (db_file db) m1"
  have "table_open crc db1 table m1 cs t P its"
    using o' table_in_meta [of crc "db_file db" m cs t P its m1] by (simp add: table_open_def db1_def m1_def unlocked_def)
  moreover have "can_store db1 m1 t its r row"
    using c(1) index_key_of_cong [of m1 m] by (simp add: can_store_def keys_short_def db1_def m1_def r_def)
  moreover have "tm_row_count m1 \<noteq> - 1" using n by (simp add: m1_def)
  ultimately obtain f' w' m' t' P' its' where s:
    "sm_bind (store_row crc (db_durability db) table r row) (\<lambda>_. bump_row_count table) db1 = (Inr (), (db_at db table f' m')\<lparr>db_wal := w'\<rparr>)"
    "table_in crc f' m' (insort_key fst (r, row) cs) t' P' its'" "guard_clean f'" "unlocked m'"
    "m' = with_roots (m1\<lparr>tm_root_page := root_of t', tm_row_count := tm_row_count m1 + 1\<rparr>) its'"
    "table_changed crc (row_cost row t its) (db_file db) t P its f' t' P' its'"
    using store_counted_run [of crc db1 table m1 cs t P its r row "db_durability db"] c(2) by (auto simp: db1_def m1_def r_def)
  have "insert_direct crc table data db = (Inr r, (db_at db table f' m')\<lparr>db_wal := w'\<rparr>)"
    using insert_direct_start [of table db m row data crc] o' row n chk s(1) by (simp add: sm_bind_def r_def db1_def m1_def)
  moreover have "table_depth t' its' \<le> Suc (table_depth t its)" using s(6) by (simp add: table_changed_def)
  moreover have "others_keep crc db table t P its ((db_at db table f' m')\<lparr>db_wal := w'\<rparr>)"
    using others_keepI [OF _ s(3,6)] o' by blast
  moreover have "m' = with_roots (m\<lparr>tm_root_page := root_of t', tm_row_count := tm_row_count m + 1, tm_next_rowid := tm_next_rowid m + 1\<rparr>) its'"
    unfolding s(5) m1_def r_def by (cases m) simp
  moreover have "table_open crc ((db_at db table f' m')\<lparr>db_wal := w'\<rparr>) table m' (insort_key fst (r, row) cs) t' P' its'"
    using s(2-4) by (simp add: table_open_def)
  ultimately show ?thesis unfolding r_def by blast
qed

lemma insert_direct_run:
  assumes o: "table_open crc db table m cs t P its" and row: "row = encode_row (tm_next_rowid m) (row_values m data)"
    and c: "can_store db m t its (tm_next_rowid m) row" "tm_next_rowid m \<notin> fst ` set cs"
    and n: "tm_row_count m \<noteq> - 1" "tm_next_rowid m \<noteq> - 1"
    and chk: "enforce_index_types m data = Inr ()" "length row \<le> unat (db_max_row_size db)"
      "enforce_unique_indexes crc (db_file db) m row = Inr ()"
  shows "\<exists>db' m' t' P' its'. insert_direct crc table data db = (Inr (tm_next_rowid m), db')
    \<and> table_open crc db' table m' (insort_key fst (tm_next_rowid m, row) cs) t' P' its'
    \<and> tm_row_count m' = tm_row_count m + 1 \<and> tm_next_rowid m' = tm_next_rowid m + 1
    \<and> table_depth t' its' \<le> Suc (table_depth t its) \<and> others_keep crc db table t P its db'"
proof -
  obtain db' m' t' P' its' where r: "insert_direct crc table data db = (Inr (tm_next_rowid m), db')"
    "table_open crc db' table m' (insort_key fst (tm_next_rowid m, row) cs) t' P' its'"
    "m' = with_roots (m\<lparr>tm_root_page := root_of t', tm_row_count := tm_row_count m + 1, tm_next_rowid := tm_next_rowid m + 1\<rparr>) its'"
    "table_depth t' its' \<le> Suc (table_depth t its)" "others_keep crc db table t P its db'"
    using insert_direct_meta_run [OF assms] by blast
  moreover have "tm_row_count m' = tm_row_count m + 1" "tm_next_rowid m' = tm_next_rowid m + 1" unfolding r(3) by simp_all
  ultimately show ?thesis by blast
qed

section \<open>Deletion\<close>

text \<open>Removing the keys of a stored row, and the row, in either order.\<close>

lemma old_row_key:
  assumes t: "table_in crc f m cs t P its" and b: "map_of cs rid = Some b" and i: "i < length its"
    and k: "index_key_of m (tm_indexes m ! i) rid b = Inr ko"
  shows "key_ready True ko ks"
    "sort (row_keys m (tm_indexes m ! i) (filter (\<lambda>e. fst e \<noteq> rid) cs)) = changed_keys True ko (sort (row_keys m (tm_indexes m ! i) cs))"
  using row_keys_removed [OF map_of_SomeD [OF b] table_in_distinct [OF t], of m "tm_indexes m ! i" ko] k
  by (simp_all add: key_ready_def row_key_def split: option.split)

lemma remove_row_run:
  assumes t: "table_in crc (db_file db) m cs t P its" and m: "table_of table db = Inr m" and b: "map_of cs rid = Some b"
    and ok: "guard_ok (db_file db)" and h: "table_depth t its \<le> MAX_TREE_DEPTH"
    and k: "\<forall>i < length its. \<exists>ko. index_key_of m (tm_indexes m ! i) rid b = Inr ko"
    and space: "guard_next (db_file db) + 65 * length its < 2 ^ 32 - 1"
  shows "\<exists>f1 f2 t1 its'. btree_delete crc (tm_root_page m) rid (db_file db) = (Inr True, f1)
    \<and> index_update_row crc table rid b True (db\<lparr>db_file := f1\<rparr>) = (Inr (), db_at db table f2 (with_roots m its'))
    \<and> table_in crc f2 (with_roots m its') (filter (\<lambda>e. fst e \<noteq> rid) cs) t1 P its' \<and> guard_ok f2
    \<and> table_changed crc (65 * length its) (db_file db) t P its f2 t1 P its'"
proof -
  let ?f = "db_file db"
  let ?cs = "filter (\<lambda>e. fst e \<noteq> rid) cs"
  note t' = t [unfolded table_in_def]
  have h': "height t \<le> MAX_TREE_DEPTH" "\<forall>i < length its. height (its ! i) \<le> MAX_TREE_DEPTH"
    using h by (simp_all add: table_depth_le)
  have tin: "tree_in crc ?f P t" "guard_contents crc ?f t = cs" "tm_root_page m = root_of t" using t' by simp_all
  have rid: "rid \<in> fst ` set cs" using b by (metis domI dom_map_of_conv_image_fst)
  from btree_delete_run [OF tin(1) h'(1), of rid, unfolded tin(2)] obtain t1 f1 where d:
    "btree_delete crc (root_of t) rid ?f = (Inr (rid \<in> fst ` set cs), f1)" "tree_in crc f1 P t1" "root_of t1 = root_of t"
    "height t1 = height t" "tree_pages t1 = tree_pages t" "guard_contents crc f1 t1 = ?cs" "guard_next f1 = guard_next ?f"
    "\<forall>n. n \<notin> set (tree_pages t) \<longrightarrow> guard_view crc f1 n = guard_view crc ?f n" by blast
  have ok1: "guard_ok f1" using btree_delete_safe [of crc ?f "root_of t" rid] ok d(1) by (simp add: safe_at_def)
  have it0: "indexes_in crc ?f (set (tree_pages t) \<union> P) its" using t' by simp
  have it1: "indexes_in crc f1 (set (tree_pages t1) \<union> P) its"
    by (rule indexes_in_grown [OF it0 d(2)]) (use d in simp_all)
  define ko where "ko i = row_key m (tm_indexes m ! i) (rid, b)" for i
  have ko: "index_key_of m (tm_indexes m ! i) rid b = Inr (ko i)" if "i < length its" for i
    using k that by (auto simp: ko_def row_key_def)
  define db1 where "db1 = db\<lparr>db_file := f1\<rparr>"
  have db1: "db_file db1 = f1" "table_of table db1 = Inr m" "db_at db1 table = db_at db table"
    using m by (simp_all add: db1_def db_at_def fun_eq_iff)
  have "\<exists>f' its'. index_update_row crc table rid b True db1 = (Inr (), db_at db1 table f' (with_roots m its'))
    \<and> table_in crc f' (with_roots m its') ?cs t1 P its' \<and> indexes_changed crc True ko (length its) (db_file db1) its f' its'"
    by (rule index_update_table [where cs = cs])
       (use d(2,3,6,7) t' it1 h'(2) space old_row_key [OF t b] ko db1 in simp_all)
  then obtain f2 its' where u: "index_update_row crc table rid b True db1 = (Inr (), db_at db table f2 (with_roots m its'))"
    "table_in crc f2 (with_roots m its') ?cs t1 P its'" "indexes_changed crc True ko (length its) f1 its f2 its'"
    using db1 by auto
  have "table_changed crc (0 + 65 * length its) ?f t P its f2 t1 P its'"
    by (rule table_changed_steps [OF _ _ _ _ _ u(3) refl refl]) (use d in simp_all)
  then have "table_changed crc (65 * length its) ?f t P its f2 t1 P its'" by simp
  moreover have "guard_ok f2" using u(3) ok1 by (simp add: indexes_changed_def)
  ultimately show ?thesis using d(1) rid u(1,2) tin(3) unfolding db1_def by auto
qed

lemma db_at_file: "table_of table db = Inr m \<Longrightarrow> db_at db table f m = db\<lparr>db_file := f\<rparr>"
  by (simp add: db_at_def table_of_def alist_update_same split: option.splits)

lemma absent_row_run:
  assumes t: "table_in crc f m cs t P its" and b: "map_of cs rid = None"
    and ok: "guard_ok f" and h: "table_depth t its \<le> MAX_TREE_DEPTH"
  shows "\<exists>f1 t1. btree_delete crc (tm_root_page m) rid f = (Inr False, f1) \<and> table_in crc f1 m cs t1 P its \<and> guard_ok f1
    \<and> table_changed crc 0 f t P its f1 t1 P its"
proof -
  note t' = t [unfolded table_in_def]
  have h': "height t \<le> MAX_TREE_DEPTH" using h by (simp add: table_depth_le)
  have tin: "tree_in crc f P t" "guard_contents crc f t = cs" using t' by simp_all
  have rid: "rid \<notin> fst ` set cs" "filter (\<lambda>e. fst e \<noteq> rid) cs = cs"
    using b by (auto simp: map_of_eq_None_iff filter_id_conv)
  from btree_delete_run [OF tin(1) h', of rid, unfolded tin(2) rid(2)] obtain t1 f1 where d:
    "btree_delete crc (root_of t) rid f = (Inr (rid \<in> fst ` set cs), f1)" "tree_in crc f1 P t1" "root_of t1 = root_of t"
    "height t1 = height t" "tree_pages t1 = tree_pages t" "guard_contents crc f1 t1 = cs" "guard_next f1 = guard_next f"
    "\<forall>n. n \<notin> set (tree_pages t) \<longrightarrow> guard_view crc f1 n = guard_view crc f n" by blast
  have "guard_ok f1" using btree_delete_safe [of crc f "root_of t" rid] ok d(1) by (simp add: safe_at_def)
  moreover have it1: "indexes_in crc f1 (set (tree_pages t1) \<union> P) its"
    by (rule indexes_in_grown [of crc f t P]) (use d t' in simp_all)
  have "table_changed crc (0 + 65 * 0) f t P its f1 t1 P its"
    by (rule table_changed_steps [OF _ _ _ _ _ indexes_changed_0 refl refl]) (use d in simp_all)
  moreover have "table_in crc f1 m cs t1 P its" using t' d it1 by (simp add: table_in_def)
  ultimately show ?thesis using d(1) rid(1) t' by auto
qed

lemma commit_at:
  assumes "table_in crc f m cs t P its" "guard_ok f" "table_changed crc k f0 t0 P0 its0 f t P its"
    and "guard_next f0 + k < 2 ^ 32" "log_room (guard_next f0 + k) (db_wal db)"
  shows "\<exists>f' w'. commit_write crc dur tid None (db_at db table f m) = (Inr (), (db_at db table f' m)\<lparr>db_wal := w'\<rparr>)
    \<and> table_in crc f' m cs t P its \<and> guard_clean f' \<and> table_changed crc k f0 t0 P0 its0 f' t P its"
proof -
  have le: "guard_next f \<le> guard_next f0 + k" using assms(3) by (simp add: table_changed_def)
  have "\<exists>f' w'. commit_write crc dur tid None (db_at db table f m) = (Inr (), (db_at db table f m)\<lparr>db_file := f', db_wal := w'\<rparr>)
    \<and> table_in crc f' m cs t P its \<and> guard_view crc f' = guard_view crc (db_file (db_at db table f m)) \<and> guard_clean f'
    \<and> guard_next f' = guard_next (db_file (db_at db table f m))"
    by (rule commit_in_order) (use assms le in \<open>simp_all add: log_room_def\<close>)
  then obtain f' w' where "commit_write crc dur tid None (db_at db table f m) = (Inr (), (db_at db table f m)\<lparr>db_file := f', db_wal := w'\<rparr>)"
    "table_in crc f' m cs t P its" "guard_view crc f' = guard_view crc f" "guard_clean f'" "guard_next f' = guard_next f" by auto
  then show ?thesis using table_changed_commit [OF assms(3)] by (intro exI [of _ f'] exI [of _ w']) (simp add: db_at_def)
qed

definition keys_known :: "table_meta \<Rightarrow> bytes btree list \<Rightarrow> hits \<Rightarrow> bool" where
  "keys_known m its cs \<longleftrightarrow> (\<forall>(r, b) \<in> set cs. \<forall>i < length its. \<exists>ko. index_key_of m (tm_indexes m ! i) r b = Inr ko)"

lemma keys_knownD:
  "keys_known m its cs \<Longrightarrow> map_of cs r = Some b \<Longrightarrow> \<forall>i < length its. \<exists>ko. index_key_of m (tm_indexes m ! i) r b = Inr ko"
  by (drule map_of_SomeD) (auto simp: keys_known_def)

text \<open>The first part of a deletion, up to the commit.\<close>

lemma delete_start:
  assumes o: "table_open crc db table m cs t P its" and k: "keys_known m its cs" and h: "table_depth t its \<le> MAX_TREE_DEPTH"
    and space: "guard_next (db_file db) + 65 * length its < 2 ^ 32 - 1"
  shows "\<exists>f2 t1 its'. delete_direct crc table rid db
      = sm_bind (commit_write crc (db_durability db) (tm_table_id m) None) (\<lambda>_.
        sm_bind (if map_of cs rid \<noteq> None then
          sm_bind (sm_view (table_of table)) (\<lambda>m'.
          sm_bind (sm_lift (must (tm_row_count m' \<noteq> 0))) (\<lambda>_.
          set_meta table (m'\<lparr>tm_row_count := tm_row_count m' - 1\<rparr>)))
        else sm_ret ()) (\<lambda>_. sm_ret (map_of cs rid \<noteq> None))) (db_at db table f2 (with_roots m its'))
    \<and> table_in crc f2 (with_roots m its') (filter (\<lambda>e. fst e \<noteq> rid) cs) t1 P its' \<and> guard_ok f2
    \<and> table_changed crc (65 * length its) (db_file db) t P its f2 t1 P its'"
proof -
  note o' = o [unfolded table_open_def]
  have t: "table_in crc (db_file db) m cs t P its" and ok: "guard_ok (db_file db)" using o' guard_clean_ok by auto
  have h': "height t \<le> MAX_TREE_DEPTH" using h by (simp add: table_depth_le)
  have cipher: "tm_cipher m = None" using o' by (simp add: unlocked_def)
  have v: "view_page crc (db_file db) = guard_view crc (db_file db)" using o' guard_clean_view by metis
  have srch: "search (view_page crc (db_file db)) (tm_root_page m) rid = Inr (map_of cs rid)"
    using search_run [of "guard_view crc (db_file db)" P t MAX_TREE_DEPTH] t h' by (simp add: search_def v tree_in_def table_in_def)
  show ?thesis
  proof (cases "map_of cs rid")
    case None
    from absent_row_run [OF t None ok h] obtain f1 t1 where d: "btree_delete crc (tm_root_page m) rid (db_file db) = (Inr False, f1)"
      "table_in crc f1 m cs t1 P its" "guard_ok f1" "table_changed crc 0 (db_file db) t P its f1 t1 P its" by blast
    have wr: "with_roots m its = m" using t by (simp add: table_in_def)
    have "db\<lparr>db_file := f1\<rparr> = db_at db table f1 m" using db_at_file o' by metis
    moreover have "filter (\<lambda>e. fst e \<noteq> rid) cs = cs" using None by (auto simp: map_of_eq_None_iff filter_id_conv)
    moreover have "table_changed crc (65 * length its) (db_file db) t P its f1 t1 P its" using d(4) by (simp add: table_changed_def)
    ultimately show ?thesis using o' srch None d cipher wr
      by (intro exI [of _ f1] exI [of _ t1] exI [of _ its])
         (simp add: delete_direct_def sm_bind_view on_file_bind [where m = "btree_delete crc (tm_root_page m) rid", OF d(1)])
  next
    case (Some b)
    from remove_row_run [OF t _ Some ok h keys_knownD [OF k Some] space, of table] o' obtain f1 f2 t1 its' where d:
      "btree_delete crc (tm_root_page m) rid (db_file db) = (Inr True, f1)"
      "index_update_row crc table rid b True (db\<lparr>db_file := f1\<rparr>) = (Inr (), db_at db table f2 (with_roots m its'))"
      "table_in crc f2 (with_roots m its') (filter (\<lambda>e. fst e \<noteq> rid) cs) t1 P its'" "guard_ok f2"
      "table_changed crc (65 * length its) (db_file db) t P its f2 t1 P its'" by blast
    have u: "(if tm_indexes m \<noteq> [] then index_update_row crc table rid b True else sm_ret ()) (db\<lparr>db_file := f1\<rparr>)
        = (Inr (), db_at db table f2 (with_roots m its'))"
      using index_update_row_none [of table "db\<lparr>db_file := f1\<rparr>" m m crc rid b True] d(2) o' by simp
    show ?thesis using o' srch Some d cipher u
      by (intro exI [of _ f2] exI [of _ t1] exI [of _ its'])
         (simp add: delete_direct_def sm_bind_view on_file_bind [where m = "btree_delete crc (tm_root_page m) rid", OF d(1)] sm_bind_def [of "index_update_row crc table rid b True"] split: if_splits)
  qed
qed


lemma delete_direct_run:
  assumes o: "table_open crc db table m cs t P its" and k: "keys_known m its cs" and h: "table_depth t its \<le> MAX_TREE_DEPTH"
    and space: "guard_next (db_file db) + 65 * length its < 2 ^ 32 - 1"
    and room: "log_room (guard_next (db_file db) + 65 * length its) (db_wal db)"
    and n: "map_of cs rid \<noteq> None \<Longrightarrow> tm_row_count m \<noteq> 0"
  shows "\<exists>db' m' t' its'. delete_direct crc table rid db = (Inr (map_of cs rid \<noteq> None), db')
    \<and> table_open crc db' table m' (filter (\<lambda>e. fst e \<noteq> rid) cs) t' P its'
    \<and> tm_row_count m' = tm_row_count m - (if map_of cs rid \<noteq> None then 1 else 0) \<and> tm_next_rowid m' = tm_next_rowid m
    \<and> others_keep crc db table t P its db'"
proof -
  note o' = o [unfolded table_open_def]
  let ?cs = "filter (\<lambda>e. fst e \<noteq> rid) cs"
  from delete_start [OF o k h space, of rid] obtain f2 t1 its' where d:
    "delete_direct crc table rid db
      = sm_bind (commit_write crc (db_durability db) (tm_table_id m) None) (\<lambda>_.
        sm_bind (if map_of cs rid \<noteq> None then
          sm_bind (sm_view (table_of table)) (\<lambda>m'.
          sm_bind (sm_lift (must (tm_row_count m' \<noteq> 0))) (\<lambda>_.
          set_meta table (m'\<lparr>tm_row_count := tm_row_count m' - 1\<rparr>)))
        else sm_ret ()) (\<lambda>_. sm_ret (map_of cs rid \<noteq> None))) (db_at db table f2 (with_roots m its'))"
    "table_in crc f2 (with_roots m its') ?cs t1 P its'" "guard_ok f2"
    "table_changed crc (65 * length its) (db_file db) t P its f2 t1 P its'" by blast
  have sp: "guard_next (db_file db) + 65 * length its < 2 ^ 32" using space by simp
  from commit_at [OF d(2,3,4) sp room, of "db_durability db" "tm_table_id m" table] obtain f' w' where c:
    "commit_write crc (db_durability db) (tm_table_id m) None (db_at db table f2 (with_roots m its'))
      = (Inr (), (db_at db table f' (with_roots m its'))\<lparr>db_wal := w'\<rparr>)"
    "table_in crc f' (with_roots m its') ?cs t1 P its'" "guard_clean f'"
    "table_changed crc (65 * length its) (db_file db) t P its f' t1 P its'" by blast
  define m' where "m' = (if map_of cs rid \<noteq> None then (with_roots m its')\<lparr>tm_row_count := tm_row_count m - 1\<rparr> else with_roots m its')"
  have run: "delete_direct crc table rid db = (Inr (map_of cs rid \<noteq> None), (db_at db table f' m')\<lparr>db_wal := w'\<rparr>)"
    using n unfolding d(1) by (auto simp: sm_bind_def [of "commit_write crc d t c" for d t c] c(1) sm_bind_view m'_def db_at_def [of db table f'] sm_bind_def)
  have "table_in crc f' m' ?cs t1 P its'" by (rule table_in_meta [OF c(2)]) (simp_all add: m'_def)
  moreover have "unlocked m'" using o' by (simp add: unlocked_def m'_def)
  moreover have "tm_row_count m' = tm_row_count m - (if map_of cs rid \<noteq> None then 1 else 0)" "tm_next_rowid m' = tm_next_rowid m"
    by (simp_all add: m'_def)
  moreover have "others_keep crc db table t P its ((db_at db table f' m')\<lparr>db_wal := w'\<rparr>)"
    using others_keepI [OF _ c(3,4)] o' by blast
  ultimately show ?thesis using run c(3) unfolding table_open_def by (intro exI conjI) (assumption | simp)+
qed

section \<open>Update\<close>

lemma table_changed_trans:
  assumes "table_changed crc k f t P its f1 t1 P1 its1" "table_changed crc k1 f1 t1 P1 its1 f2 t2 P2 its2"
    and "table_depth t1 its1 \<le> table_depth t its"
  shows "table_changed crc (k + k1) f t P its f2 t2 P2 its2"
proof -
  note a = assms(1) [unfolded table_changed_def] and b = assms(2) [unfolded table_changed_def]
  have "n \<in> table_pages t P its \<or> guard_next f \<le> unat n" if "n \<in> table_pages t2 P2 its2" for n
    using a b that by (meson le_trans)
  moreover have "guard_view crc f2 n = guard_view crc f n" if n: "unat n < guard_next f" "n \<notin> table_pages t P its" for n
  proof -
    have "n \<notin> table_pages t1 P1 its1" "unat n < guard_next f1" using a n by (auto simp: not_le)
    then show ?thesis using a b n by simp
  qed
  ultimately show ?thesis using a b assms(3) by (simp add: table_changed_def)
qed

text \<open>The keys go first, then the row.\<close>

lemma unindex_row_run:
  assumes t: "table_in crc (db_file db) m cs t P its" and m: "table_of table db = Inr m" and b: "map_of cs rid = Some b"
    and ok: "guard_ok (db_file db)" and h: "table_depth t its \<le> MAX_TREE_DEPTH"
    and k: "\<forall>i < length its. \<exists>ko. index_key_of m (tm_indexes m ! i) rid b = Inr ko"
    and space: "guard_next (db_file db) + 65 * length its < 2 ^ 32 - 1"
  shows "\<exists>f1 f2 t2 its1. index_update_row crc table rid b True db = (Inr (), db_at db table f1 (with_roots m its1))
    \<and> btree_delete crc (tm_root_page m) rid f1 = (Inr True, f2)
    \<and> table_in crc f2 (with_roots m its1) (filter (\<lambda>e. fst e \<noteq> rid) cs) t2 P its1 \<and> guard_ok f2
    \<and> snd (leaf_for t2 rid) = filter (\<lambda>r. row_id r \<noteq> rid) (snd (leaf_for t rid)) \<and> height t2 = height t
    \<and> table_depth t2 its1 \<le> table_depth t its \<and> table_changed crc (65 * length its) (db_file db) t P its f2 t2 P its1"
proof -
  let ?f = "db_file db"
  let ?cs = "filter (\<lambda>e. fst e \<noteq> rid) cs"
  note t' = t [unfolded table_in_def]
  have h': "height t \<le> MAX_TREE_DEPTH" "\<forall>i < length its. height (its ! i) \<le> MAX_TREE_DEPTH"
    using h by (simp_all add: table_depth_le)
  have tin: "tree_in crc ?f P t" "guard_contents crc ?f t = cs" using t' by simp_all
  have rid: "rid \<in> fst ` set cs" using b by (metis domI dom_map_of_conv_image_fst)
  have it0: "indexes_in crc ?f (set (tree_pages t) \<union> P) its" "length its = length (tm_indexes m)" "with_roots m its = m" using t' by simp_all
  define ko where "ko i = row_key m (tm_indexes m ! i) (rid, b)" for i
  have ko: "index_key_of m (tm_indexes m ! i) rid b = Inr (ko i)" if "i < length its" for i
    using k that by (auto simp: ko_def row_key_def)
  have "\<exists>f' its'. index_update_row crc table rid b True db = (Inr (), db_at db table f' (with_roots m its'))
    \<and> indexes_in crc f' (set (tree_pages t) \<union> P) its' \<and> indexes_changed crc True ko (length its) ?f its f' its'"
    by (rule index_update_row_run [OF _ it0(2,1) h'(2) _ space]) (use m it0(3) ko old_row_key(1) [OF t b] in simp_all)
  then obtain f1 its1 where u: "index_update_row crc table rid b True db = (Inr (), db_at db table f1 (with_roots m its1))"
    "indexes_in crc f1 (set (tree_pages t) \<union> P) its1" "indexes_changed crc True ko (length its) ?f its f1 its1" by blast
  note c = u(3) [unfolded indexes_changed_def]
  have l1: "length its1 = length its" using c by simp
  have fr: "\<forall>n \<in> set (tree_pages t) \<union> P. guard_view crc f1 n = guard_view crc ?f n"
    using c it0(1) by (fastforce simp: indexes_in_def)
  have le: "guard_next ?f \<le> guard_next f1" using c by simp
  note t1 = tree_in_frame [OF tin(1) fr le, unfolded tin(2)]
  from btree_delete_run [OF t1(1) h'(1), of rid, unfolded t1(2)] obtain t2 f2 where d:
    "btree_delete crc (root_of t) rid f1 = (Inr (rid \<in> fst ` set cs), f2)" "tree_in crc f2 P t2" "root_of t2 = root_of t"
    "height t2 = height t" "tree_pages t2 = tree_pages t" "guard_contents crc f2 t2 = ?cs" "guard_next f2 = guard_next f1"
    "snd (leaf_for t2 rid) = filter (\<lambda>r. row_id r \<noteq> rid) (snd (leaf_for t rid))"
    "\<forall>n. n \<notin> set (tree_pages t) \<longrightarrow> guard_view crc f2 n = guard_view crc f1 n" by blast
  have it2: "indexes_in crc f2 (set (tree_pages t2) \<union> P) its1"
    by (rule indexes_in_grown [OF u(2) d(2)]) (use d in simp_all)
  have keys: "index_keys (its1 ! i) = sort (row_keys m (tm_indexes m ! i) ?cs)" if "i < length its1" for i
    using c t' old_row_key(2) [OF t b _ ko] that by simp
  have tb: "table_in crc f2 (with_roots m its1) ?cs t2 P its1"
    using d(2,3,6) t' it2 keys l1 with_roots_again [of its1 m] by (simp add: table_in_def)
  have ok2: "guard_ok f2" using btree_delete_safe [of crc f1 "root_of t" rid] c ok d(1) by (simp add: safe_at_def)
  have depth: "table_depth t2 its1 \<le> table_depth t its"
    using table_depth_le [of t its "table_depth t its"] c d(4) l1 by (simp add: table_depth_le)
  have "n \<in> table_pages t P its \<or> guard_next ?f \<le> unat n" if n: "n \<in> table_pages t2 P its1" for n
  proof (cases "n \<in> set (tree_pages t) \<union> P")
    case False
    then obtain it where "it \<in> set its1" "n \<in> index_pages it" using n d(5) by (auto simp: table_pages_def)
    then obtain i where i: "i < length its1" "n \<in> index_pages (its1 ! i)" unfolding in_set_conv_nth [of it] by blast
    then have "n \<in> index_pages (its ! i) \<or> guard_next ?f \<le> unat n" using c by auto
    then show ?thesis using i(1) l1 by (auto simp: table_pages_def)
  qed (auto simp: table_pages_def)
  moreover have "guard_view crc f2 n = guard_view crc ?f n" if "unat n < guard_next ?f" "n \<notin> table_pages t P its" for n
    using that c d(9) by (auto simp: table_pages_def)
  ultimately have "table_changed crc (65 * length its) ?f t P its f2 t2 P its1"
    using c d(7) l1 depth by (simp add: table_changed_def)
  then show ?thesis using u(1) d rid tb ok2 depth t' by auto
qed

lemma insort_key_first: "\<forall>x \<in> set xs. (k :: 'a::linorder) < fst x \<Longrightarrow> insort_key fst (k, v) xs = (k, v) # xs"
  by (cases xs) (auto simp: less_imp_le)

lemma replace_sorted:
  assumes "sorted_wrt (<) (map fst cs)" "k \<in> fst ` set cs"
  shows "insort_key fst (k, v) (filter (\<lambda>e. fst e \<noteq> k) cs) = AList.update k v cs"
  using assms
proof (induction cs)
  case (Cons e cs)
  show ?case
  proof (cases "fst e = k")
    case True
    then have "filter (\<lambda>e. fst e \<noteq> k) cs = cs" using Cons.prems(1) by (auto simp: filter_id_conv)
    moreover have "insort_key fst (k, v) cs = (k, v) # cs" using Cons.prems(1) True by (intro insort_key_first) auto
    ultimately show ?thesis using True by (cases e) simp
  next
    case False
    then have "fst e < k" using Cons.prems by auto
    then show ?thesis using Cons False by (cases e) (auto simp: not_le)
  qed
qed simp

text \<open>The new row and its keys, and the commit.\<close>

lemma reindex_row_run:
  assumes t: "table_in crc (db_file db) m cs t P its" and m: "table_of table db = Inr m" and b: "map_of cs rid = Some b"
    and cl: "guard_clean (db_file db)" and h: "table_depth t its \<le> MAX_TREE_DEPTH" and k: "keys_known m its cs"
    and st: "storable rid new" "leaf_takes rid new (filter (\<lambda>r. row_id r \<noteq> rid) (snd (leaf_for t rid)))" "keys_short m its rid new"
    and space: "guard_next (db_file db) + (65 * length its + row_cost new t its) < 2 ^ 32 - 1"
    and room: "log_room (guard_next (db_file db) + (65 * length its + row_cost new t its)) (db_wal db)"
  shows "\<exists>f1 its1 f2 f3 t3 f' w' m' P' its'.
      index_update_row crc table rid b True db = (Inr (), db_at db table f1 (with_roots m its1))
    \<and> btree_delete crc (tm_root_page m) rid f1 = (Inr True, f2)
    \<and> btree_insert crc (tm_root_page m) rid new f2 = (Inr (root_of t3), f3)
    \<and> sm_bind (index_update_row crc table rid new False) (\<lambda>_. commit_write crc dur (tm_table_id m) None)
        (db_at db table f3 ((with_roots m its1)\<lparr>tm_root_page := root_of t3\<rparr>)) = (Inr (), (db_at db table f' m')\<lparr>db_wal := w'\<rparr>)
    \<and> table_in crc f' m' (AList.update rid new cs) t3 P' its' \<and> guard_clean f'
    \<and> m' = with_roots ((with_roots m its1)\<lparr>tm_root_page := root_of t3\<rparr>) its'
    \<and> table_changed crc (65 * length its + row_cost new t its) (db_file db) t P its f' t3 P' its'"
proof -
  let ?cs = "filter (\<lambda>e. fst e \<noteq> rid) cs"
  have sp1: "guard_next (db_file db) + 65 * length its < 2 ^ 32 - 1" using space by simp
  from unindex_row_run [OF t m b guard_clean_ok [OF cl] h keys_knownD [OF k b] sp1] obtain f1 f2 t2 its1 where u:
    "index_update_row crc table rid b True db = (Inr (), db_at db table f1 (with_roots m its1))"
    "btree_delete crc (tm_root_page m) rid f1 = (Inr True, f2)"
    "table_in crc f2 (with_roots m its1) ?cs t2 P its1" "guard_ok f2"
    "snd (leaf_for t2 rid) = filter (\<lambda>r. row_id r \<noteq> rid) (snd (leaf_for t rid))" "height t2 = height t"
    "table_depth t2 its1 \<le> table_depth t its" "table_changed crc (65 * length its) (db_file db) t P its f2 t2 P its1" by blast
  define m1 where "m1 = with_roots m its1"
  define db2 where "db2 = db_at db table f2 m1"
  have l: "length its1 = length its" "guard_next f2 \<le> guard_next (db_file db) + 65 * length its"
    using u(8) by (simp_all add: table_changed_def)
  have cost: "row_budget new + height t2 + 65 * length its1 = row_cost new t its" using l u(6) by (simp add: row_cost_def)
  have "length its1 = length (tm_indexes m)" using t l(1) by (simp add: table_in_def)
  then have ks: "keys_short m1 its1 rid new" using st(3) l(1) by (simp add: keys_short_def m1_def)
  have "\<exists>f3 f4 t3 P3 its'. btree_insert crc (tm_root_page m1) rid new (db_file db2) = (Inr (root_of t3), f3)
    \<and> index_update_row crc table rid new False (db_at db2 table f3 (m1\<lparr>tm_root_page := root_of t3\<rparr>))
        = (Inr (), db_at db2 table f4 (with_roots (m1\<lparr>tm_root_page := root_of t3\<rparr>) its'))
    \<and> table_in crc f4 (with_roots (m1\<lparr>tm_root_page := root_of t3\<rparr>) its') (insort_key fst (rid, new) ?cs) t3 P3 its' \<and> guard_ok f4
    \<and> table_changed crc (row_budget new + height t2 + 65 * length its1) (db_file db2) t2 P its1 f4 t3 P3 its'"
    by (rule put_row_run) (use u h l st(1,2) ks space cost in \<open>auto simp: db2_def m1_def\<close>)
  then obtain f3 f4 t3 P3 its' where p: "btree_insert crc (tm_root_page m) rid new f2 = (Inr (root_of t3), f3)"
    "index_update_row crc table rid new False (db_at db table f3 (m1\<lparr>tm_root_page := root_of t3\<rparr>))
        = (Inr (), db_at db table f4 (with_roots (m1\<lparr>tm_root_page := root_of t3\<rparr>) its'))"
    "table_in crc f4 (with_roots (m1\<lparr>tm_root_page := root_of t3\<rparr>) its') (insort_key fst (rid, new) ?cs) t3 P3 its'" "guard_ok f4"
    "table_changed crc (row_cost new t its) f2 t2 P its1 f4 t3 P3 its'"
    unfolding cost db2_def db_at_simps m1_def with_roots_fields by blast
  note ch = table_changed_trans [OF u(8) p(5) u(7)]
  have "rid \<in> fst ` set cs" using b by (metis domI dom_map_of_conv_image_fst)
  then have cs: "insort_key fst (rid, new) ?cs = AList.update rid new cs" by (rule replace_sorted [OF table_in_sorted [OF t]])
  have sp2: "guard_next (db_file db) + (65 * length its + row_cost new t its) < 2 ^ 32" using space by simp
  from commit_at [OF p(3,4) ch sp2 room, of dur "tm_table_id m" table] obtain f' w' where c:
    "commit_write crc dur (tm_table_id m) None (db_at db table f4 (with_roots (m1\<lparr>tm_root_page := root_of t3\<rparr>) its'))
      = (Inr (), (db_at db table f' (with_roots (m1\<lparr>tm_root_page := root_of t3\<rparr>) its'))\<lparr>db_wal := w'\<rparr>)"
    "table_in crc f' (with_roots (m1\<lparr>tm_root_page := root_of t3\<rparr>) its') (insort_key fst (rid, new) ?cs) t3 P3 its'" "guard_clean f'"
    "table_changed crc (65 * length its + row_cost new t its) (db_file db) t P its f' t3 P3 its'" by blast
  have "sm_bind (index_update_row crc table rid new False) (\<lambda>_. commit_write crc dur (tm_table_id m) None)
        (db_at db table f3 (m1\<lparr>tm_root_page := root_of t3\<rparr>)) = (Inr (), (db_at db table f' (with_roots (m1\<lparr>tm_root_page := root_of t3\<rparr>) its'))\<lparr>db_wal := w'\<rparr>)"
    using p(2) c(1) by (simp add: sm_bind_def)
  then show ?thesis using u(1,2) p(1) c(2-4) unfolding cs m1_def by blast
qed

lemma search_open:
  assumes "table_open crc db table m cs t P its" "table_depth t its \<le> MAX_TREE_DEPTH"
  shows "search (view_page crc (db_file db)) (tm_root_page m) rid = Inr (map_of cs rid)"
proof -
  note o = assms(1) [unfolded table_open_def table_in_def]
  have v: "view_page crc (db_file db) = guard_view crc (db_file db)" using o guard_clean_view by metis
  show ?thesis using search_run [of "guard_view crc (db_file db)" P t MAX_TREE_DEPTH] o assms(2)
    by (simp add: search_def v tree_in_def table_depth_le)
qed

lemma db_at_file_update: "(db_at db table f m)\<lparr>db_file := f'\<rparr> = db_at db table f' m"
  by (cases db) (simp add: db_at_def)

lemma update_direct_run:
  assumes o: "table_open crc db table m cs t P its" and b: "map_of cs rid = Some b" "decode_row b = Inr ex"
    and new: "new = encode_row rid (merge_fields m (dr_columns ex) fs)"
    and h: "table_depth t its \<le> MAX_TREE_DEPTH" and k: "keys_known m its cs" and ty: "enforce_index_types m fs = Inr ()"
    and st: "storable rid new" "leaf_takes rid new (filter (\<lambda>r. row_id r \<noteq> rid) (snd (leaf_for t rid)))" "keys_short m its rid new"
    and space: "guard_next (db_file db) + (65 * length its + row_cost new t its) < 2 ^ 32 - 1"
    and room: "log_room (guard_next (db_file db) + (65 * length its + row_cost new t its)) (db_wal db)"
  shows "\<exists>db' m' t' P' its'. update_direct crc table rid fs db = (Inr True, db')
    \<and> table_open crc db' table m' (AList.update rid new cs) t' P' its'
    \<and> tm_row_count m' = tm_row_count m \<and> tm_next_rowid m' = tm_next_rowid m \<and> others_keep crc db table t P its db'"
proof -
  note o' = o [unfolded table_open_def]
  have t: "table_in crc (db_file db) m cs t P its" "table_of table db = Inr m" "guard_clean (db_file db)" "tm_cipher m = None"
    using o' by (simp_all add: unlocked_def)
  from reindex_row_run [OF t(1,2) b(1) t(3) h k st space room, of "db_durability db"] obtain f1 its1 f2 f3 t3 f' w' m' P' its' where r:
    "index_update_row crc table rid b True db = (Inr (), db_at db table f1 (with_roots m its1))"
    "btree_delete crc (tm_root_page m) rid f1 = (Inr True, f2)"
    "btree_insert crc (tm_root_page m) rid new f2 = (Inr (root_of t3), f3)"
    "sm_bind (index_update_row crc table rid new False) (\<lambda>_. commit_write crc (db_durability db) (tm_table_id m) None)
        (db_at db table f3 ((with_roots m its1)\<lparr>tm_root_page := root_of t3\<rparr>)) = (Inr (), (db_at db table f' m')\<lparr>db_wal := w'\<rparr>)"
    "table_in crc f' m' (AList.update rid new cs) t3 P' its'" "guard_clean f'"
    "m' = with_roots ((with_roots m its1)\<lparr>tm_root_page := root_of t3\<rparr>) its'"
    "table_changed crc (65 * length its + row_cost new t its) (db_file db) t P its f' t3 P' its'" by blast
  have no: "tm_indexes m = [] \<longleftrightarrow> tm_indexes (with_roots m its1) = []" if "length its1 = length (tm_indexes m)"
    using that by (auto simp: with_roots_def)
  define db3 where "db3 = db_at db table f3 ((with_roots m its1)\<lparr>tm_root_page := root_of t3\<rparr>)"
  have one: "(if tm_indexes m \<noteq> [] then index_update_row crc table rid b True else sm_ret ()) db = (Inr (), db_at db table f1 (with_roots m its1))"
    using index_update_row_none [OF t(2) refl, of crc rid b True] r(1) by simp
  have two: "sm_bind (if tm_indexes m \<noteq> [] then index_update_row crc table rid new False else sm_ret ())
      (\<lambda>_. commit_write crc (db_durability db) (tm_table_id m) None) db3 = (Inr (), (db_at db table f' m')\<lparr>db_wal := w'\<rparr>)"
  proof (cases "tm_indexes m = []")
    case True
    then have "index_update_row crc table rid new False db3 = (Inr (), db3)"
      by (simp add: index_update_row_def sm_bind_view db3_def with_roots_def sm_ret_def)
    then show ?thesis using r(4) True by (simp add: sm_bind_def sm_ret_def db3_def)
  qed (use r(4) in \<open>simp add: db3_def\<close>)
  define K where "K = (\<lambda>_ :: unit. commit_write crc (db_durability db) (tm_table_id m) None)"
  define U where "U = (if tm_indexes m \<noteq> [] then index_update_row crc table rid new False else sm_ret ())"
  have two': "sm_bind U (\<lambda>x. sm_bind (K x) (\<lambda>_. sm_ret True)) db3 = (Inr True, (db_at db table f' m')\<lparr>db_wal := w'\<rparr>)"
  proof -
    have "sm_bind U (\<lambda>x. sm_bind (K x) (\<lambda>_. sm_ret True)) = sm_bind (sm_bind U K) (\<lambda>_. sm_ret True)" by (simp add: sm_bind_assoc)
    then show ?thesis using two by (simp add: U_def K_def sm_bind_def sm_ret_def)
  qed
  have del: "sm_bind (on_file (btree_delete crc (tm_root_page m) rid)) J (db_at db table f1 (with_roots m its1))
      = J True (db_at db table f2 (with_roots m its1))" for J :: "bool \<Rightarrow> bool dbop"
    using r(2) by (simp add: sm_bind_def on_file_def db_at_file_update)
  have ins: "sm_bind (on_file (btree_insert crc (tm_root_page m) rid new)) J (db_at db table f2 (with_roots m its1))
      = J (root_of t3) (db_at db table f3 (with_roots m its1))" for J :: "u32 \<Rightarrow> bool dbop"
    using r(3) by (simp add: sm_bind_def on_file_def db_at_file_update)
  have run: "update_direct crc table rid fs db = (Inr True, (db_at db table f' m')\<lparr>db_wal := w'\<rparr>)"
  proof -
    have "update_direct crc table rid fs db = sm_bind (if tm_indexes m \<noteq> [] then index_update_row crc table rid b True else sm_ret ())
      (\<lambda>_. sm_bind (on_file (btree_delete crc (tm_root_page m) rid)) (\<lambda>_.
         sm_bind (on_file (btree_insert crc (tm_root_page m) rid new)) (\<lambda>new_root.
         sm_bind (sm_view (table_of table)) (\<lambda>m'.
         sm_bind (set_meta table (m'\<lparr>tm_root_page := new_root\<rparr>)) (\<lambda>_.
         sm_bind U (\<lambda>x. sm_bind (K x) (\<lambda>_. sm_ret True))))))) db"
      using o' ty search_open [OF o h, of rid] b new t(4)
      by (simp add: update_direct_def sm_bind_view Let_def U_def K_def)
    also have "\<dots> = sm_bind U (\<lambda>x. sm_bind (K x) (\<lambda>_. sm_ret True)) db3"
      unfolding sm_bind_def [of "if tm_indexes m \<noteq> [] then index_update_row crc table rid b True else sm_ret ()"] one
      by (simp add: del ins sm_bind_view) (simp add: db3_def db_at_def)
    finally show ?thesis using two' by simp
  qed
  have "unlocked m'" using o' r(7) by (simp add: unlocked_def)
  moreover have "others_keep crc db table t P its ((db_at db table f' m')\<lparr>db_wal := w'\<rparr>)" using others_keepI [OF t(3) r(6,8)] .
  moreover have "tm_row_count m' = tm_row_count m" "tm_next_rowid m' = tm_next_rowid m" using r(7) by simp_all
  ultimately show ?thesis using run r(5,6) unfolding table_open_def by (intro exI conjI) (assumption | simp)+
qed

lemma update_direct_absent:
  assumes "table_open crc db table m cs t P its" "table_depth t its \<le> MAX_TREE_DEPTH" "map_of cs rid = None" "enforce_index_types m fs = Inr ()"
  shows "update_direct crc table rid fs db = (Inr False, db)"
  using assms(1,3,4) search_open [OF assms(1,2), of rid]
  by (simp add: table_open_def update_direct_def sm_bind_view sm_ret_def)

section \<open>Insertion with a given rowid\<close>

definition next_rowid_after :: "table_meta \<Rightarrow> u64 \<Rightarrow> u64" where
  "next_rowid_after m rowid = (if tm_next_rowid m \<le> rowid then rowid + 1 else tm_next_rowid m)"

lemma insert_with_id_start:
  assumes o: "table_open crc db table m cs t P its" and row: "row = encode_row rowid (row_values m data)"
    and n: "rowid \<noteq> - 1" and chk: "enforce_index_types m data = Inr ()" "length row \<le> unat (db_max_row_size db)"
      "enforce_unique_indexes crc (db_file db) m row = Inr ()"
  shows "insert_with_id_direct crc table rowid data db
    = sm_bind (store_row crc (db_durability db) table rowid row) (\<lambda>_. bump_row_count table)
        (db_at db table (db_file db) (m\<lparr>tm_next_rowid := next_rowid_after m rowid\<rparr>))"
proof -
  have "db_at db table (db_file db) m = db" using db_at_self o by (simp add: table_open_def)
  then show ?thesis
    using o row n chk by (auto simp: table_open_def insert_with_id_direct_def sm_bind_assoc sm_bind_view Let_def size_check_def next_rowid_after_def db_at_def)
qed

lemma insert_with_id_run:
  assumes o: "table_open crc db table m cs t P its" and row: "row = encode_row rowid (row_values m data)"
    and c: "can_store db m t its rowid row" "rowid \<notin> fst ` set cs" and n: "tm_row_count m \<noteq> - 1" "rowid \<noteq> - 1"
    and chk: "enforce_index_types m data = Inr ()" "length row \<le> unat (db_max_row_size db)"
      "enforce_unique_indexes crc (db_file db) m row = Inr ()"
  shows "\<exists>db' m' t' P' its'. insert_with_id_direct crc table rowid data db = (Inr (), db')
    \<and> table_open crc db' table m' (insort_key fst (rowid, row) cs) t' P' its'
    \<and> tm_row_count m' = tm_row_count m + 1 \<and> tm_next_rowid m' = next_rowid_after m rowid
    \<and> table_depth t' its' \<le> Suc (table_depth t its) \<and> others_keep crc db table t P its db'"
proof -
  note o' = o [unfolded table_open_def]
  define m1 where "m1 = m\<lparr>tm_next_rowid := next_rowid_after m rowid\<rparr>"
  define db1 where "db1 = db_at db table (db_file db) m1"
  have "table_open crc db1 table m1 cs t P its"
    using o' table_in_meta [of crc "db_file db" m cs t P its m1] by (simp add: table_open_def db1_def m1_def unlocked_def)
  moreover have "can_store db1 m1 t its rowid row"
    using c(1) index_key_of_cong [of m1 m] by (simp add: can_store_def keys_short_def db1_def m1_def)
  moreover have "tm_row_count m1 \<noteq> - 1" using n by (simp add: m1_def)
  ultimately obtain f' w' m' t' P' its' where s:
    "sm_bind (store_row crc (db_durability db) table rowid row) (\<lambda>_. bump_row_count table) db1 = (Inr (), (db_at db table f' m')\<lparr>db_wal := w'\<rparr>)"
    "table_in crc f' m' (insort_key fst (rowid, row) cs) t' P' its'" "guard_clean f'" "unlocked m'"
    "tm_row_count m' = tm_row_count m + 1" "tm_next_rowid m' = next_rowid_after m rowid"
    "table_changed crc (row_cost row t its) (db_file db) t P its f' t' P' its'"
    using store_counted_run [of crc db1 table m1 cs t P its rowid row "db_durability db"] c(2) by (auto simp: db1_def m1_def)
  have "insert_with_id_direct crc table rowid data db = (Inr (), (db_at db table f' m')\<lparr>db_wal := w'\<rparr>)"
    using insert_with_id_start [OF o row n(2) chk] s(1) by (simp add: db1_def m1_def)
  moreover have "table_depth t' its' \<le> Suc (table_depth t its)" using s(7) by (simp add: table_changed_def)
  moreover have "others_keep crc db table t P its ((db_at db table f' m')\<lparr>db_wal := w'\<rparr>)"
    using others_keepI [OF _ s(3,7)] o' by blast
  ultimately show ?thesis using s o' unfolding table_open_def by (intro exI conjI) (assumption | simp)+
qed

text \<open>A taken rowid: the error comes from the tree, before anything is written.\<close>

lemma insert_with_id_taken:
  assumes o: "table_open crc db table m cs t P its" and row: "row = encode_row rowid (row_values m data)"
    and k: "rowid \<in> fst ` set cs" "table_depth t its \<le> MAX_TREE_DEPTH" and n: "rowid \<noteq> - 1"
    and chk: "enforce_index_types m data = Inr ()" "length row \<le> unat (db_max_row_size db)"
      "enforce_unique_indexes crc (db_file db) m row = Inr ()"
  shows "insert_with_id_direct crc table rowid data db
    = (Inl (Fail (DuplicateKey rowid)), db_at db table (db_file db) (m\<lparr>tm_next_rowid := next_rowid_after m rowid\<rparr>))"
proof -
  note o' = o [unfolded table_open_def table_in_def]
  let ?db = "db_at db table (db_file db) (m\<lparr>tm_next_rowid := next_rowid_after m rowid\<rparr>)"
  have "btree_insert crc (tm_root_page m) rowid row (db_file db) = (Inl (Fail (DuplicateKey rowid)), db_file db)"
    using btree_insert_duplicate [of crc "db_file db" P t rowid row] o' k by (simp add: table_depth_le)
  then have "on_file (btree_insert crc (tm_root_page m) rowid row) ?db = (Inl (Fail (DuplicateKey rowid)), ?db)"
    by (simp add: on_file_def db_at_file_update)
  then have "store_row crc (db_durability db) table rowid row ?db = (Inl (Fail (DuplicateKey rowid)), ?db)"
    by (simp add: store_row_def sm_bind_view sm_bind_Inl)
  then show ?thesis using insert_with_id_start [OF o row n chk] by (simp add: sm_bind_Inl)
qed

section \<open>An insertion that fails in its indexes\<close>

text \<open>
  The key of the first index cannot be computed. By then the row is in the overlay of the write guard
  and the new root in the metadata. Nothing is published, but the guard has no \<^verbatim>\<open>Drop\<close>: the
  overlay stays, and the next commit publishes it.
\<close>

lemma insert_leaves_overlay:
  assumes o: "table_open crc db table m cs t P its" and row: "row = encode_row (tm_next_rowid m) (row_values m data)"
    and idx: "tm_indexes m \<noteq> []" "index_key_of m (tm_indexes m ! 0) (tm_next_rowid m) row = Inl e"
    and st: "storable (tm_next_rowid m) row" "leaf_takes (tm_next_rowid m) row (snd (leaf_for t (tm_next_rowid m)))"
      "tm_next_rowid m \<notin> fst ` set cs" "height t \<le> MAX_TREE_DEPTH"
    and n: "tm_next_rowid m \<noteq> - 1" and chk: "enforce_index_types m data = Inr ()" "length row \<le> unat (db_max_row_size db)"
      "enforce_unique_indexes crc (db_file db) m row = Inr ()"
    and space: "guard_next (db_file db) + row_budget row + height t < 2 ^ 32 - 1"
  shows "\<exists>db' m' t' P'. insert_direct crc table data db = (Inl e, db') \<and> table_of table db' = Inr m'
    \<and> tm_root_page m' = root_of t' \<and> tm_row_count m' = tm_row_count m
    \<and> view_page crc (db_file db') = view_page crc (db_file db) \<and> guard_ok (db_file db')
    \<and> guard_next (db_file db') < 2 ^ 32 \<and> tree_in crc (db_file db') P' t'
    \<and> guard_contents crc (db_file db') t' = insort_key fst (tm_next_rowid m, row) cs"
proof -
  note o' = o [unfolded table_open_def table_in_def]
  define r where "r = tm_next_rowid m"
  define m1 where "m1 = m\<lparr>tm_next_rowid := r + 1\<rparr>"
  define db1 where "db1 = db_at db table (db_file db) m1"
  have tin: "tree_in crc (db_file db) P t" "guard_contents crc (db_file db) t = cs" "guard_ok (db_file db)" "root_of t = tm_root_page m"
    using o' guard_clean_ok by auto
  have new: "r \<notin> fst ` set (guard_contents crc (db_file db) t)" using st(3) tin r_def by simp
  from btree_insert_run [OF tin(1) st(4) st(1,2) new [unfolded r_def] space, unfolded tin(2)] obtain t1 P1 f1 where b:
    "btree_insert crc (root_of t) r row (db_file db) = (Inr (root_of t1), f1)" "tree_in crc f1 P1 t1"
    "guard_contents crc f1 t1 = insort_key fst (r, row) cs" "guard_next f1 \<le> guard_next (db_file db) + row_budget row + height t"
    unfolding r_def by blast
  have ok1: "guard_ok f1" "guard_step crc (db_file db) f1"
    using btree_insert_safe [of crc "db_file db" "root_of t" r row] tin(3) b(1) by (simp_all add: safe_at_def)
  define m2 where "m2 = m1\<lparr>tm_root_page := root_of t1\<rparr>"
  define db2 where "db2 = db_at db table f1 m2"
  have "index_key_of m2 (tm_indexes m2 ! 0) r row = Inl e"
    using idx(2) index_key_of_cong [of m2 m] by (simp add: m2_def m1_def r_def)
  then have "index_update_one crc table r row False 0 db2 = (Inl e, db2)"
    by (simp add: index_update_one_def sm_bind_view db2_def Let_def)
  moreover have "tm_indexes m2 \<noteq> []" using idx(1) by (simp add: m2_def m1_def)
  then have "[0..<length (tm_indexes m2)] = 0 # [1..<length (tm_indexes m2)]" by (simp add: upt_conv_Cons)
  ultimately have upd: "index_update_row crc table r row False db2 = (Inl e, db2)"
    by (simp add: index_update_row_def sm_bind_view sm_bind_Inl) (simp add: db2_def sm_bind_view sm_bind_Inl)
  have "store_row crc (db_durability db) table r row db1 = (Inl e, db2)"
  proof -
    have "store_row crc (db_durability db) table r row db1
        = sm_bind (index_update_row crc table r row False) (\<lambda>_. commit_write crc (db_durability db) (tm_table_id m1) (tm_cipher m1)) db2"
      using b(1) tin(4) idx(1)
      by (simp add: store_row_def sm_bind_view db1_def m1_def on_file_bind [where m = "btree_insert crc (tm_root_page m) r row"] db_at_file_update)
         (simp add: db2_def m2_def m1_def db_at_def)
    then show ?thesis using upd by (simp add: sm_bind_Inl)
  qed
  then have "insert_direct crc table data db = (Inl e, db2)"
    using o' chk n row
    by (simp add: insert_direct_def sm_bind_view Let_def size_check_def sm_bind_Inl flip: r_def)
       (simp add: db1_def m1_def db_at_def sm_bind_Inl)
  moreover have "guard_next f1 < 2 ^ 32" using b(4) space by simp
  ultimately show ?thesis using b(2,3) ok1 unfolding r_def
    by (intro exI [of _ db2] exI [of _ m2] exI [of _ t1] exI [of _ P1]) (simp add: db2_def m2_def m1_def guard_step_def)
qed

end
