(* ===== verification/Unique_Index.thy ===== *)
theory Unique_Index
  imports Row_Ops
begin

text \<open>
  Uniqueness: the check looks for a key with the value prefix of the new row. On a table in order
  this finds exactly the rows whose indexed columns hold the same values; rows with a null in an
  indexed column never collide.
\<close>

section \<open>The check on one index\<close>

text \<open>The values of a row in the columns of an index.\<close>

definition index_values :: "table_meta \<Rightarrow> index_meta \<Rightarrow> bytes \<Rightarrow> db_value list res" where
  "index_values m idx b =
     (case resolve_columns m idx of None \<Rightarrow> Inl Panicked | Some cols \<Rightarrow> res_map (column_or_null b) (map fst cols))"

definition index_types :: "table_meta \<Rightarrow> index_meta \<Rightarrow> col_type list" where
  "index_types m idx = (case resolve_columns m idx of None \<Rightarrow> [] | Some cols \<Rightarrow> map snd cols)"

definition tuple_ok :: "col_type \<Rightarrow> db_value \<Rightarrow> bool" where
  "tuple_ok t v \<longleftrightarrow> v = Null \<or> indexable t v"

definition well_typed :: "table_meta \<Rightarrow> index_meta \<Rightarrow> bytes \<Rightarrow> bool" where
  "well_typed m idx b \<longleftrightarrow> (\<exists>vs. index_values m idx b = Inr vs \<and> list_all2 tuple_ok (index_types m idx) vs)"

text \<open>Two rows collide when all their indexed columns hold the same values.\<close>

definition same_tuple :: "table_meta \<Rightarrow> index_meta \<Rightarrow> bytes \<Rightarrow> bytes \<Rightarrow> bool" where
  "same_tuple m idx a b \<longleftrightarrow> (\<exists>vs ws. index_values m idx a = Inr vs \<and> index_values m idx b = Inr ws
     \<and> Null \<notin> set vs \<and> list_all2 same_value vs ws)"

lemma tuple_okD: "list_all2 tuple_ok ts vs \<Longrightarrow> Null \<notin> set vs \<Longrightarrow> list_all2 indexable ts vs"
  by (induction ts vs rule: list_all2_induct) (auto simp: tuple_ok_def)

lemma encode_parts_null: "list_all2 tuple_ok ts vs \<Longrightarrow> Null \<in> set vs \<Longrightarrow> encode_parts (zip ts vs) = None"
proof (induction ts vs rule: list_all2_induct)
  case (Cons t ts v vs)
  show ?case
  proof (cases "v = Null")
    case True
    then show ?thesis by (cases t) simp_all
  next
    case False
    then show ?thesis using Cons by (auto split: option.split)
  qed
qed simp

lemma same_value_null: "v \<noteq> Null \<Longrightarrow> \<not> same_value v Null"
  by (cases v) (simp_all add: same_value_def)

lemma same_tuple_null: "list_all2 same_value vs ws \<Longrightarrow> Null \<notin> set vs \<Longrightarrow> Null \<notin> set ws"
  by (induction vs ws rule: list_all2_induct) (auto simp: same_value_null)

lemma row_key_values:
  assumes "resolve_columns m idx = Some cols" "index_values m idx b = Inr ws" "list_all2 tuple_ok (index_types m idx) ws"
  shows "row_key m idx (r, b) = (if Null \<in> set ws then None else map_option (\<lambda>p. p @ u64_to_be r) (encode_parts (zip (map snd cols) ws)))"
    and "index_prefix_of m idx b = Inr (if Null \<in> set ws then None else encode_parts (zip (map snd cols) ws))"
proof -
  have l: "length (map snd cols) = length ws" using assms(1,3) by (auto simp: index_types_def dest: list_all2_lengthD)
  have n: "encode_parts (zip (map snd cols) ws) = None" if "Null \<in> set ws"
    using encode_parts_null [OF assms(3) that] assms(1) by (simp add: index_types_def)
  show "row_key m idx (r, b) = (if Null \<in> set ws then None else map_option (\<lambda>p. p @ u64_to_be r) (encode_parts (zip (map snd cols) ws)))"
    using assms(1,2) composite_prefix_parts(2) [OF l] n by (simp add: row_key_def index_key_of_def index_values_def)
  show "index_prefix_of m idx b = Inr (if Null \<in> set ws then None else encode_parts (zip (map snd cols) ws))"
    using assms(1,2) composite_prefix_parts(1) [OF l] n by (simp add: index_prefix_of_def index_values_def)
qed

text \<open>A key of a row has the prefix of another row exactly when their tuples are the same.\<close>

lemma prefix_key_same:
  assumes r: "resolve_columns m idx = Some cols" and v: "index_values m idx a = Inr vs" "list_all2 tuple_ok (index_types m idx) vs"
    and n: "Null \<notin> set vs" and w: "well_typed m idx b" and p: "encode_parts (zip (map snd cols) vs) = Some p"
  shows "(\<exists>k. row_key m idx (i, b) = Some k \<and> starts_with p k) \<longleftrightarrow> same_tuple m idx a b"
proof -
  obtain ws where ws: "index_values m idx b = Inr ws" "list_all2 tuple_ok (index_types m idx) ws" using w by (auto simp: well_typed_def)
  have ty: "index_types m idx = map snd cols" using r by (simp add: index_types_def)
  show ?thesis
  proof (cases "Null \<in> set ws")
    case True
    then show ?thesis using row_key_values(1) [OF r ws] same_tuple_null v(1) ws(1) by (auto simp: same_tuple_def)
  next
    case False
    have iv: "list_all2 indexable (map snd cols) vs" "list_all2 indexable (map snd cols) ws"
      using tuple_okD v(2) ws(2) n False ty by auto
    obtain q where q: "encode_parts (zip (map snd cols) ws) = Some q" using encode_parts_indexable [OF iv(2)] by blast
    have "row_key m idx (i, b) = Some (q @ u64_to_be i)" using row_key_values(1) [OF r ws] False q by simp
    then show ?thesis using parts_order(2) [OF iv p q, of "u64_to_be i"] v(1) ws(1) n by (auto simp: same_tuple_def)
  qed
qed

lemma enforce_unique_index_run:
  assumes o: "table_open crc db table m cs t P its" and i: "i < length its" "idx = tm_indexes m ! i" and h: "table_depth t its \<le> MAX_TREE_DEPTH"
    and r: "resolve_columns m idx \<noteq> None" and w: "well_typed m idx row" "\<forall>(k, b) \<in> set cs. well_typed m idx b"
  shows "enforce_unique_index crc (db_file db) m row idx
    = ensure (\<not> (im_unique idx \<and> (\<exists>(k, b) \<in> set cs. same_tuple m idx row b))) (UniqueViolation (im_name idx))"
proof (cases "im_unique idx")
  case True
  note o' = o [unfolded table_open_def table_in_def]
  obtain cols where cols: "resolve_columns m idx = Some cols" using r by blast
  obtain vs where vs: "index_values m idx row = Inr vs" "list_all2 tuple_ok (index_types m idx) vs" using w(1) by (auto simp: well_typed_def)
  show ?thesis
  proof (cases "Null \<in> set vs")
    case True
    then have "\<not> same_tuple m idx row b" for b using vs(1) by (simp add: same_tuple_def)
    moreover have "(\<exists>(k, b) \<in> set cs. same_tuple m idx row b) = False" using calculation by blast
    ultimately show ?thesis using row_key_values(2) [OF cols vs] True \<open>im_unique idx\<close> by (simp add: enforce_unique_index_def)
  next
    case False
    have iv: "list_all2 indexable (map snd cols) vs" using tuple_okD [OF vs(2) False] cols by (simp add: index_types_def)
    obtain p where p: "encode_parts (zip (map snd cols) vs) = Some p" using encode_parts_indexable [OF iv] by blast
    have v: "view_page crc (db_file db) = guard_view crc (db_file db)" using o' guard_clean_view by metis
    have it: "index_tree (view_page crc (db_file db)) (its ! i)" using o' i v by (simp add: indexes_in_def index_in_def)
    have root: "root_of (its ! i) = im_root_page idx"
      using o' i with_roots_nth(1) [of its m i] by (metis index_meta.select_convs(4) index_meta.surjective index_meta.update_convs(4))
    have hi: "height (its ! i) \<le> MAX_TREE_DEPTH" using h i(1) by (simp add: table_depth_le)
    have keys: "scan_prefix (view_page crc (db_file db)) (unat (page_count (db_file db))) (im_root_page idx) p
        = Inr (filter (starts_with p) (sort (row_keys m idx cs)))"
      using scan_prefix_run(1) [OF it hi index_leaves_bound [OF it], of p] root o' i by simp
    have "filter (starts_with p) (sort (row_keys m idx cs)) = [] \<longleftrightarrow> (\<forall>k \<in> set (row_keys m idx cs). \<not> starts_with p k)"
      by (simp add: filter_empty_conv)
    also have "\<dots> \<longleftrightarrow> (\<forall>e \<in> set cs. \<not> (\<exists>k. row_key m idx e = Some k \<and> starts_with p k))"
      by (auto simp: row_keys_mem)
    also have "\<dots> \<longleftrightarrow> \<not> (\<exists>(k, b) \<in> set cs. same_tuple m idx row b)"
      using prefix_key_same [OF cols vs False _ p] w(2) by fastforce
    finally show ?thesis using row_key_values(2) [OF cols vs] False p keys True by (simp add: enforce_unique_index_def)
  qed
qed (simp add: enforce_unique_index_def)


section \<open>All indexes\<close>

definition violated :: "table_meta \<Rightarrow> hits \<Rightarrow> bytes \<Rightarrow> index_meta \<Rightarrow> bool" where
  "violated m cs row idx \<longleftrightarrow> im_unique idx \<and> (\<exists>(k, b) \<in> set cs. same_tuple m idx row b)"

lemma res_fold_ensure:
  assumes "\<And>x. x \<in> set xs \<Longrightarrow> f x = ensure (\<not> P x) (e x)"
  shows "res_fold (\<lambda>x _. f x) xs () = (case find P xs of None \<Rightarrow> Inr () | Some x \<Rightarrow> Inl (Fail (e x)))"
  using assms by (induction xs) (simp_all add: ensure_def)

text \<open>Every index has its columns, and every row values its columns can be indexed by.\<close>

definition indexes_typed :: "table_meta \<Rightarrow> hits \<Rightarrow> bytes \<Rightarrow> bool" where
  "indexes_typed m cs row \<longleftrightarrow> (\<forall>idx \<in> set (tm_indexes m). resolve_columns m idx \<noteq> None
     \<and> well_typed m idx row \<and> (\<forall>(k, b) \<in> set cs. well_typed m idx b))"

lemma enforce_unique_run:
  assumes o: "table_open crc db table m cs t P its" and h: "table_depth t its \<le> MAX_TREE_DEPTH" and w: "indexes_typed m cs row"
  shows "enforce_unique_indexes crc (db_file db) m row
    = (case find (violated m cs row) (tm_indexes m) of None \<Rightarrow> Inr () | Some idx \<Rightarrow> Inl (Fail (UniqueViolation (im_name idx))))"
  unfolding enforce_unique_indexes_def
proof (rule res_fold_ensure)
  fix idx assume "idx \<in> set (tm_indexes m)"
  then obtain i where i: "i < length its" "idx = tm_indexes m ! i"
    using o unfolding in_set_conv_nth table_open_def table_in_def by auto
  then show "enforce_unique_index crc (db_file db) m row idx = ensure (\<not> violated m cs row idx) (UniqueViolation (im_name idx))"
    unfolding violated_def
    by (intro enforce_unique_index_run [OF o i h]) (use w \<open>idx \<in> set (tm_indexes m)\<close> in \<open>auto simp: indexes_typed_def\<close>)
qed

end
