(* ===== verification/Row_Properties.thy ===== *)
theory Row_Properties
  imports Unique_Index
begin

text \<open>
  What the row operations promise: the properties, with a small table as their witness. The table has
  a blob and an integer column and a unique index on the integer; each tree is a single leaf.
\<close>

section \<open>A sample\<close>

definition sample_index_meta :: "bool \<Rightarrow> index_meta" where
  "sample_index_meta u = \<lparr>im_name = [105], im_columns = [[110]], im_unique = u, im_root_page = 2\<rparr>"

definition sample_meta :: "bool \<Rightarrow> u64 \<Rightarrow> table_meta" where
  "sample_meta u k = (table_meta_new [84] 1 [column_new [98] TBlob, column_new [110] TInteger] 1)
     \<lparr>tm_indexes := [(sample_index_meta u)], tm_row_count := k, tm_next_rowid := k + 1\<rparr>"

definition sample_db :: "bool \<Rightarrow> u64 \<Rightarrow> page \<Rightarrow> page \<Rightarrow> database" where
  "sample_db u k p q = \<lparr>db_file = (page_file_open [])\<lparr>pf_num_pages := 3, pf_pages := [None, Some p, Some q]\<rparr>,
     db_wal = \<lparr>wal_file = header_bytes 0, wal_next_sequence = 1, wal_entry_count = 0\<rparr>,
     db_tables = [([84], sample_meta u k)], db_next_table_id = 2, db_durability = Normal, db_max_row_size = 10485760\<rparr>"

lemma sample_meta_simps [simp]:
  "tm_indexes (sample_meta u k) = [(sample_index_meta u)]" "tm_root_page (sample_meta u k) = 1" "tm_next_rowid (sample_meta u k) = k + 1"
  "tm_row_count (sample_meta u k) = k" "tm_table_id (sample_meta u k) = 1" "unlocked (sample_meta u k)"
  "col_id (sample_meta u k) [110] = Some 1" "col_id (sample_meta u k) [98] = Some 0"
  "find (\<lambda>c. cd_name c = [110]) (tm_columns (sample_meta u k)) = Some (column_new [110] TInteger)"
  by (simp_all add: sample_meta_def table_meta_new_def unlocked_def col_id_def hash_collect_def live_names_def column_new_def)

lemma sample_resolve [simp]: "resolve_columns (sample_meta u k) (sample_index_meta u) = Some [(1, TInteger)]"
  by (simp add: resolve_columns_def resolve_column_def sample_index_meta_def column_new_def)

lemma sample_next: "guard_next (db_file (sample_db u k p q)) = 3"
  by (simp add: sample_db_def guard_next_def page_file_open_def)

lemma sample_open:
  assumes p: "leaf_page p 0 0 rows" and rows: "\<forall>rd. \<forall>r \<in> set rows. stored rd {} r" "\<forall>rd. map (entry_of rd) rows = cs" "sorted_wrt (<) (map row_id rows)"
    and q: "leaf_page q 0 0 es" and es: "\<forall>e \<in> set es. short_entry e" "sorted_wrt (<) (map entry_key es)"
    and keys: "map entry_key es = sort (row_keys (sample_meta u k) (sample_index_meta u) cs)"
  shows "table_open crc (sample_db u k p q) [84] (sample_meta u k) cs (BLeaf 1 rows) {} [BLeaf 2 es]"
proof -
  let ?f = "db_file (sample_db u k p q)"
  have clean: "guard_clean ?f" by (simp add: sample_db_def guard_clean_def page_file_open_def)
  have v: "guard_view crc ?f 1 = Inr p" "guard_view crc ?f 2 = Inr q"
    unfolding guard_clean_view [OF clean] by (simp_all add: sample_db_def view_page_eq cache_get_def word_le_nat_alt)
  have "tree_in crc ?f {} (BLeaf 1 rows)"
    using v(1) p rows(1,3) sample_next by (auto simp: tree_in_def row_tree_def tree_pages_def tree_rows_def)
  moreover have "indexes_in crc ?f (set (tree_pages (BLeaf 1 rows :: u64 btree))) [BLeaf 2 es]"
    using v(2) q es sample_next by (auto simp: indexes_in_def index_in_def index_tree_def tree_pages_def tree_rows_def)
  moreover have "with_roots (sample_meta u k) [BLeaf 2 es] = sample_meta u k"
    by (simp add: with_roots_def sample_index_meta_def sample_meta_def)
  ultimately have "table_in crc ?f (sample_meta u k) cs (BLeaf 1 rows) {} [BLeaf 2 es]"
    using rows(2) keys by (simp add: table_in_def contents_def tree_rows_def index_keys_def)
  moreover have "table_of [84] (sample_db u k p q) = Inr (sample_meta u k)" by (simp add: sample_db_def table_of_def)
  ultimately show ?thesis using clean by (simp add: table_open_def)
qed


section \<open>The sample's rows\<close>

abbreviation sample_value :: "i64 \<Rightarrow> columns" where
  "sample_value i \<equiv> [(1, Integer i)]"

abbreviation sample_key :: "i64 \<Rightarrow> u64 \<Rightarrow> bytes" where
  "sample_key i r \<equiv> encode_i64_sortable i @ u64_to_be r"

lemma sample_row_facts:
  "length (encode_row r (sample_value i)) = 23" "row_id (encode_row r (sample_value i)) = r"
  "\<not> has_overflow (encode_row r (sample_value i))" "row_ok (sample_value i)"
proof -
  have e: "encode_row r (sample_value i) = u64_to_le r @ [1, 0, 1, 0, 0, 0, 2] @ u64_to_le i"
    by (simp add: encode_row_def encode_dir_def u16_to_le_def le_enc_numeral Let_def)
  have l: "length (u64_to_le r) = 8" by simp
  show "length (encode_row r (sample_value i)) = 23" by (simp add: e)
  show "row_id (encode_row r (sample_value i)) = r"
    using extract_id_encode_row [of r "sample_value i"] by (simp add: extract_id_row e)
  show "\<not> has_overflow (encode_row r (sample_value i))" by (simp add: has_overflow_def e nth_append l)
  show "row_ok (sample_value i)" by (simp add: row_ok_def row_fits_def)
qed

lemma sample_row_kept:
  "stored rd {} (encode_row r (sample_value i))" "entry_of rd (encode_row r (sample_value i)) = (r, encode_row r (sample_value i))"
  using stands_for_inline [OF sample_row_facts(3), of rd r i]
  by (auto simp: stored_def row_at_def reassemble_row_def entry_of_def sample_row_facts intro!: exI [of _ "encode_row r (sample_value i)"])

lemma sample_row_storable: "storable r (encode_row r (sample_value i))" "row_budget (encode_row r (sample_value i)) = 2"
  "leaf_takes r (encode_row r (sample_value i)) []"
  by (simp_all add: storable_def row_budget_def sample_row_facts leaf_takes_def leaf_pos_def inserted_def leaf_size_def)

lemma sample_values [simp]: "row_values (sample_meta u k) [([110], Integer i)] = sample_value i"
  by (simp add: row_values_def map_filter_simps)

lemma sample_column [simp]: "column_or_null (encode_row r (sample_value i)) 1 = Inr (Integer i)"
  by (simp add: column_or_null_def extract_column_row(1) [OF sample_row_facts(4)])

lemma sample_index_key [simp]:
  "index_key_of (sample_meta u k) (sample_index_meta u) r (encode_row r' (sample_value i)) = Inr (Some (sample_key i r))"
  by (simp add: index_key_of_def encode_composite_index_key_def encode_composite_value_prefix_def must_def encode_integer_prefix_def)

lemma sample_key_length: "length (sample_key i r) = 16"
  by (simp add: encode_i64_sortable_def u64_to_be_def le_enc_numeral split: list.split)

lemma sample_row_key [simp]: "row_key (sample_meta u k) (sample_index_meta u) (r, encode_row r' (sample_value i)) = Some (sample_key i r)"
  by (simp add: row_key_def)

lemma sample_types [simp]: "enforce_index_types (sample_meta u k) [([110], Integer i)] = Inr ()"
  by (simp add: enforce_index_types_def enforce_index_type_def sample_index_meta_def) (simp add: column_new_def)

lemma sample_room: "n < 1000 \<Longrightarrow> log_room n (db_wal (sample_db u k p q))"
  by (simp add: log_room_def sample_db_def)

lemma sample_db_simps [simp]: "unat (db_max_row_size (sample_db u k p q)) = 10485760" "db_durability (sample_db u k p q) = Normal"
  by (simp_all add: sample_db_def)

text \<open>The empty table, and the table with one row.\<close>

lemma sample_empty: "table_open crc (sample_db u 0 (new_leaf crc) (new_leaf crc)) [84] (sample_meta u 0) [] (BLeaf 1 []) {} [BLeaf 2 []]"
  by (rule sample_open) (use leaf_page_new in \<open>simp_all add: row_keys_def map_filter_simps\<close>)

abbreviation one_row :: "i64 \<Rightarrow> hits" where
  "one_row i \<equiv> [(1, encode_row 1 (sample_value i))]"

lemma sample_one:
  "\<exists>p q. table_open crc (sample_db u 1 p q) [84] (sample_meta u 1) (one_row i) (BLeaf 1 [encode_row 1 (sample_value i)]) {}
     [BLeaf 2 [encode_entry (sample_key i 1)]]"
proof -
  obtain p where p: "leaf_page p 0 0 [encode_row 1 (sample_value i)]"
    using leaf_exists [of "[encode_row 1 (sample_value i)]" 0 0] by (auto simp: leaf_size_def sample_row_facts)
  obtain q where q: "leaf_page q 0 0 [encode_entry (sample_key i 1)]"
    using leaf_exists [of "[encode_entry (sample_key i 1)]" 0 0] sample_key_length [of i 1] by (auto simp: leaf_size_def encode_entry_def)
  have "table_open crc (sample_db u 1 p q) [84] (sample_meta u 1) (one_row i) (BLeaf 1 [encode_row 1 (sample_value i)]) {}
     [BLeaf 2 [encode_entry (sample_key i 1)]]"
    by (rule sample_open [OF p _ _ _ q])
       (use sample_key_length [of i 1] in \<open>simp_all add: sample_row_kept row_keys_Cons row_keys_def map_filter_simps entry_key_encode short_entry_encode\<close>)
  then show ?thesis by blast
qed

lemma sample_unique_free:
  "enforce_unique_indexes crc (db_file (sample_db u 0 (new_leaf crc) (new_leaf crc))) (sample_meta u 0) (encode_row r (sample_value i)) = Inr ()"
proof -
  have "indexes_typed (sample_meta u 0) [] (encode_row r (sample_value i))"
    by (simp add: indexes_typed_def well_typed_def index_values_def index_types_def tuple_ok_def)
  then show ?thesis
    using enforce_unique_run [OF sample_empty] by (simp add: violated_def table_depth_def)
qed

lemma sample_can_store:
  "can_store (sample_db u 0 (new_leaf crc) (new_leaf crc)) (sample_meta u 0) (BLeaf 1 []) [BLeaf 2 []] r (encode_row r (sample_value i))"
  using sample_room sample_key_length by (simp add: can_store_def sample_row_storable table_depth_def keys_short_def sample_next row_cost_def)

section \<open>Properties\<close>

text \<open>C4. Looking a row up returns exactly the stored bytes under the table's columns, or nothing.\<close>

theorem db_get_correct:
  assumes "table_open crc db table m cs t P its" "height t \<le> MAX_TREE_DEPTH"
  shows "db_get crc table rid db = Inr (map_option (\<lambda>b. \<lparr>row_no = rid, row_data = b, row_col_names = tm_col_names m,
      row_col_defs = tm_col_defs m\<rparr>) (map_of cs rid))"
  by (rule db_get_run [OF assms])

lemma db_get_correct_witness:
  "\<exists>p q r. db_get (\<lambda>_. 0) [84] 1 (sample_db True 1 p q) = Inr (Some r) \<and> row_data r = encode_row 1 (sample_value 5)
    \<and> db_get (\<lambda>_. 0) [84] 2 (sample_db True 1 p q) = Inr None"
proof -
  obtain p q where "table_open (\<lambda>_. 0) (sample_db True 1 p q) [84] (sample_meta True 1) (one_row 5) (BLeaf 1 [encode_row 1 (sample_value 5)]) {}
     [BLeaf 2 [encode_entry (sample_key 5 1)]]" using sample_one by blast
  from db_get_correct [OF this, of 1] db_get_correct [OF this, of 2] show ?thesis
    by (intro exI [of _ p] exI [of _ q]) simp
qed

lemma sample_known: "keys_known (sample_meta True k) [BLeaf 2 es] (one_row i)"
  by (simp add: keys_known_def)

text \<open>C3. Deleting a rowid says whether it was there, removes exactly its row and its keys in every
  index, counts it and commits; the other tables keep their metadata and pages.\<close>

theorem delete_direct_correct:
  assumes "table_open crc db table m cs t P its" "keys_known m its cs" "table_depth t its \<le> MAX_TREE_DEPTH"
    and "guard_next (db_file db) + 65 * length its < 2 ^ 32 - 1"
    and "log_room (guard_next (db_file db) + 65 * length its) (db_wal db)"
    and "map_of cs rid \<noteq> None \<Longrightarrow> tm_row_count m \<noteq> 0"
  shows "\<exists>db' m' t' its'. delete_direct crc table rid db = (Inr (map_of cs rid \<noteq> None), db')
    \<and> table_open crc db' table m' (filter (\<lambda>e. fst e \<noteq> rid) cs) t' P its'
    \<and> tm_row_count m' = tm_row_count m - (if map_of cs rid \<noteq> None then 1 else 0) \<and> tm_next_rowid m' = tm_next_rowid m
    \<and> others_keep crc db table t P its db'"
  by (rule delete_direct_run [OF assms])

lemma delete_direct_correct_witness:
  "\<exists>p q db' m' t' its'. delete_direct (\<lambda>_. 0) [84] 1 (sample_db True 1 p q) = (Inr True, db') \<and> table_open (\<lambda>_. 0) db' [84] m' [] t' {} its'"
proof -
  obtain p q where o: "table_open (\<lambda>_. 0) (sample_db True 1 p q) [84] (sample_meta True 1) (one_row 5) (BLeaf 1 [encode_row 1 (sample_value 5)]) {}
     [BLeaf 2 [encode_entry (sample_key 5 1)]]" using sample_one by blast
  obtain db' m' t' its' where
    "delete_direct (\<lambda>_. 0) [84] 1 (sample_db True 1 p q) = (Inr (map_of (one_row 5) 1 \<noteq> None), db')"
    "table_open (\<lambda>_. 0) db' [84] m' (filter (\<lambda>e. fst e \<noteq> 1) (one_row 5)) t' {} its'"
    using delete_direct_correct [OF o sample_known, of 1] sample_room [of 68 True 1 p q] by (simp add: table_depth_def sample_next) metis
  then show ?thesis by (intro exI conjI) simp_all
qed



text \<open>C5. A unique index rejects duplicates and nothing else happens: when a row of the table holds the
  same values in all columns of a unique index, the insertion reports the first such index and the
  database, the consumed rowid included, is as before.\<close>

theorem insert_rejects_duplicate:
  assumes "table_open crc db table m cs t P its" "row = encode_row (tm_next_rowid m) (row_values m data)"
    and "table_depth t its \<le> MAX_TREE_DEPTH" "indexes_typed m cs row" "tm_next_rowid m \<noteq> - 1"
    and "enforce_index_types m data = Inr ()" "length row \<le> unat (db_max_row_size db)"
  shows "case find (violated m cs row) (tm_indexes m) of
      Some idx \<Rightarrow> insert_direct crc table data db = (Inl (Fail (UniqueViolation (im_name idx))), db)
    | None \<Rightarrow> enforce_unique_indexes crc (db_file db) m row = Inr ()"
proof -
  have u: "enforce_unique_indexes crc (db_file db) m row
    = (case find (violated m cs row) (tm_indexes m) of None \<Rightarrow> Inr () | Some idx \<Rightarrow> Inl (Fail (UniqueViolation (im_name idx))))"
    by (rule enforce_unique_run [OF assms(1,3,4)])
  show ?thesis
  proof (cases "find (violated m cs row) (tm_indexes m)")
    case (Some idx)
    then have "tm_indexes m \<noteq> []" by auto
    then show ?thesis using u assms Some db_at_self [of table db m]
      by (auto simp: table_open_def insert_direct_def sm_bind_view Let_def size_check_def db_at_def sm_bind_assoc)
  qed (use u in simp)
qed

lemma insert_rejects_duplicate_witness:
  "\<exists>p q. insert_direct (\<lambda>_. 0) [84] [([110], Integer 5)] (sample_db True 1 p q) = (Inl (Fail (UniqueViolation [105])), sample_db True 1 p q)"
proof -
  obtain p q where o: "table_open (\<lambda>_. 0) (sample_db True 1 p q) [84] (sample_meta True 1) (one_row 5) (BLeaf 1 [encode_row 1 (sample_value 5)]) {}
     [BLeaf 2 [encode_entry (sample_key 5 1)]]" using sample_one by blast
  have v: "index_values (sample_meta True 1) (sample_index_meta True) (encode_row r (sample_value 5)) = Inr [Integer 5]" for r
    by (simp add: index_values_def)
  have ty: "indexes_typed (sample_meta True 1) (one_row 5) (encode_row 2 (sample_value 5))"
    by (simp add: indexes_typed_def well_typed_def v index_types_def tuple_ok_def)
  have dup: "find (violated (sample_meta True 1) (one_row 5) (encode_row 2 (sample_value 5))) (tm_indexes (sample_meta True 1)) = Some (sample_index_meta True)"
    by (simp add: violated_def same_tuple_def v same_value_def) (simp add: sample_index_meta_def)
  show ?thesis
    using insert_rejects_duplicate [OF o refl, of "[([110], Integer 5)]"] ty dup
    by (intro exI [of _ p] exI [of _ q]) (simp add: table_depth_def sample_row_facts sample_index_meta_def)
qed

section \<open>Reading the columns of a row\<close>

lemma live_position_id:
  assumes "meta_ok m" "col_id m name = Some cid"
  shows "live_position name (tm_col_names m) (tm_col_defs m) = Some (unat cid)"
proof -
  have ok: "names_match m" "length (tm_columns m) < 65536" "tm_col_names m = map cd_name (tm_columns m)" "tm_col_defs m = tm_columns m"
    using assms(1) by (simp_all add: meta_ok_def)
  have c: "unat cid < length (tm_columns m)" "cd_name (tm_columns m ! unat cid) = name" "\<not> cd_dropped (tm_columns m ! unat cid)"
    using assms(2) names_matchD [OF ok(1)] by (simp_all add: col_id_def)
  have uniq: "j = unat cid" if j: "j < length (tm_columns m)" "cd_name (tm_columns m ! j) = name" "\<not> cd_dropped (tm_columns m ! j)" for j
  proof -
    have "unat (of_nat j :: u16) = j" using j(1) ok(2) by (intro unat_u16_of_nat) simp
    then have "col_id m name = Some (of_nat j)" using names_matchD [OF ok(1), of name "of_nat j"] j by (simp add: col_id_def)
    then show ?thesis using assms(2) \<open>unat (of_nat j :: u16) = j\<close> by simp
  qed
  define Q where "Q j \<longleftrightarrow> tm_col_names m ! j = name \<and> j < length (tm_col_defs m) \<and> \<not> cd_dropped (tm_col_defs m ! j)" for j
  have Q: "Q (unat cid)" using c ok(3,4) by (simp add: Q_def)
  have "\<not> Q j" if j: "j < unat cid" for j
  proof
    assume "Q j"
    then have "j = unat cid" using c(1) j ok(3,4) by (intro uniq) (auto simp: Q_def)
    then show False using j by simp
  qed
  then have "find Q [0..<length (tm_col_names m)] = Some (unat cid)"
    unfolding find_Some_iff using Q c(1) ok(3) by (intro exI [of _ "unat cid"]) simp
  then show ?thesis by (simp add: live_position_def Q_def [abs_def])
qed

lemma row_values_lookup:
  assumes "meta_ok m" "col_id m name = Some cid"
  shows "map_of (row_values m data) cid = map_of data name"
proof (induction data)
  case (Cons e data)
  obtain n v where e: "e = (n, v)" by fastforce
  have "n = name" if "col_id m n = Some cid"
    using that assms names_matchD [of m _ cid] by (auto simp: meta_ok_def col_id_def)
  then show ?case using Cons assms(2) by (auto simp: e row_values_def map_filter_simps split: option.split)
qed (simp add: row_values_def map_filter_simps)

text \<open>C13. Reading a live column of a stored row by its name gives the value the row was written with, or
  the column's default when it was not written: the names the row was written under and the positions
  it is read by agree.\<close>

theorem row_get_stored:
  assumes "meta_ok m" "row_ok (row_values m data)" "col_id m name = Some cid" "name \<noteq> AUTO_ID_COL"
  shows "row_get \<lparr>row_no = k, row_data = encode_row k (row_values m data), row_col_names = tm_col_names m, row_col_defs = tm_col_defs m\<rparr> name
    = Inr (case map_of data name of Some v \<Rightarrow> Some v | None \<Rightarrow> cd_default (tm_columns m ! unat cid))"
proof -
  have c: "unat cid < length (tm_columns m)" "tm_col_defs m = tm_columns m"
    using assms(1,3) names_matchD [of m name cid] by (simp_all add: meta_ok_def col_id_def)
  have "as_u16 (unat cid) = cid" by simp
  then show ?thesis
    using assms(4) live_position_id [OF assms(1,3)] c extract_column_row(1) [OF assms(2), of k cid] row_values_lookup [OF assms(1,3), of data]
    by (simp add: row_get_def stored_column_def res_ok_def Let_def split: option.split)
qed

lemma row_get_stored_witness:
  "row_get \<lparr>row_no = 1, row_data = encode_row 1 (sample_value 5), row_col_names = tm_col_names (sample_meta True 0),
     row_col_defs = tm_col_defs (sample_meta True 0)\<rparr> [110] = Inr (Some (Integer 5))"
proof -
  have "columns_ok [column_new [98] TBlob, column_new [110] TInteger]" by (simp add: columns_ok_def column_new_def)
  from table_meta_new_ok [OF this, of "[84]" 1 1] have "meta_ok (sample_meta True 0)"
    by (simp add: meta_ok_def names_match_def sample_meta_def table_meta_new_def)
  from row_get_stored [OF this, of "[([110], Integer 5)]" "[110]" 1 1] sample_row_facts(4) [of 5] show ?thesis
    by (simp add: AUTO_ID_COL_def)
qed

section \<open>A failed insertion\<close>

text \<open>C14. An insertion that fails in its indexes is published by the next commit: the error is reported
  and the committed pages and the row count are as before, but the row is in the overlay of the write
  guard and its root in the metadata, and whatever commits next makes it visible.\<close>

theorem failed_insert_published:
  assumes "table_open crc db table m cs t P its" "row = encode_row (tm_next_rowid m) (row_values m data)"
    and "tm_indexes m \<noteq> []" "index_key_of m (tm_indexes m ! 0) (tm_next_rowid m) row = Inl e"
    and "storable (tm_next_rowid m) row" "leaf_takes (tm_next_rowid m) row (snd (leaf_for t (tm_next_rowid m)))"
    and "tm_next_rowid m \<notin> fst ` set cs" "height t \<le> MAX_TREE_DEPTH" "tm_next_rowid m \<noteq> - 1"
    and "enforce_index_types m data = Inr ()" "length row \<le> unat (db_max_row_size db)"
    and "enforce_unique_indexes crc (db_file db) m row = Inr ()"
    and "guard_next (db_file db) + row_budget row + height t < 2 ^ 32 - 1"
  shows "\<exists>db' m' t' ims f'. insert_direct crc table data db = (Inl e, db') \<and> view_page crc (db_file db') = view_page crc (db_file db)
    \<and> table_of table db' = Inr m' \<and> tm_root_page m' = root_of t' \<and> tm_row_count m' = tm_row_count m
    \<and> commit_guard (db_file db') = (Inr ims, f')
    \<and> contents (view_page crc f') t' = insort_key fst (tm_next_rowid m, row) cs"
proof -
  obtain db' m' t' P' where r: "insert_direct crc table data db = (Inl e, db')" "table_of table db' = Inr m'"
    "tm_root_page m' = root_of t'" "tm_row_count m' = tm_row_count m" "view_page crc (db_file db') = view_page crc (db_file db)"
    "guard_ok (db_file db')" "guard_next (db_file db') < 2 ^ 32" "tree_in crc (db_file db') P' t'"
    "guard_contents crc (db_file db') t' = insort_key fst (tm_next_rowid m, row) cs"
    using insert_leaves_overlay [OF assms] by blast
  obtain f' where "commit_guard (db_file db') = (Inr (pf_dirty (db_file db')), f')" "view_page crc f' = guard_view crc (db_file db')"
    using commit_guard_run [OF r(6,7), of crc] by blast
  with r show ?thesis by metis
qed

lemma failed_insert_published_witness:
  "\<exists>data db' m' t' ims f'. insert_direct (\<lambda>_. 0) [84] data (sample_db False 0 (new_leaf (\<lambda>_. 0)) (new_leaf (\<lambda>_. 0)))
      = (Inl (Fail (Corruption ''unknown type tag'')), db')
    \<and> table_of [84] db' = Inr m' \<and> tm_root_page m' = root_of t' \<and> tm_row_count m' = 0
    \<and> commit_guard (db_file db') = (Inr ims, f') \<and> map fst (contents (view_page (\<lambda>_. 0) f') t') = [1]"
proof -
  obtain B :: bytes where B: "length B = 65536" "B ! 0 = 9"
    by (rule that [of "replicate 65536 9"]) (simp_all only: length_replicate nth_replicate)
  define data :: fields where "data = [([98], Blob B), ([110], Integer 5)]"
  define row where "row = encode_row 1 [(0, Blob B), (1, Integer 5)]"
  have vals: "row_values (sample_meta False 0) data = [(0, Blob B), (1, Integer 5)]"
    by (simp add: row_values_def map_filter_simps data_def)
  have img: "row = row_image 1 [(0, Blob B), (1, Integer 5)]" by (simp add: row_def encode_row_image)
  have len: "length row = 65568" using B(1) by (simp add: img length_row_image)
  have "extract_column row 1 = Inl (Fail (Corruption ''unknown type tag''))"
    unfolding img using wrapped_column_error [OF B(1)] B(2) by simp
  then have key: "index_key_of (sample_meta False 0) (sample_index_meta False) 1 row = Inl (Fail (Corruption ''unknown type tag''))"
    by (simp add: index_key_of_def column_or_null_def)
  have "extract_id row = Inr 1" unfolding row_def by (rule extract_id_encode_row)
  then have id: "row_id row = 1" using len by (simp add: extract_id_row)
  have st: "storable 1 row" "leaf_takes 1 row []" using len id by (simp_all add: storable_def leaf_takes_def leaf_pos_def Let_def)
  have ty: "enforce_index_types (sample_meta False 0) data = Inr ()"
    by (simp add: enforce_index_types_def enforce_index_type_def sample_index_meta_def data_def) (simp add: column_new_def)
  have un: "enforce_unique_indexes crc f (sample_meta False 0) row = Inr ()" for crc f
    by (simp add: enforce_unique_indexes_def enforce_unique_index_def sample_index_meta_def)
  have bud: "row_budget row < 100" using len by (simp add: row_budget_def)
  have nx: "guard_next (db_file (sample_db False 0 (new_leaf (\<lambda>_. 0)) (new_leaf (\<lambda>_. 0)))) + row_budget row + height (BLeaf 1 [] :: u64 btree) < 2 ^ 32 - 1"
    using bud by (simp add: sample_next)
  have row: "row = encode_row (tm_next_rowid (sample_meta False 0)) (row_values (sample_meta False 0) data)"
    by (simp add: vals row_def)
  obtain db' m' t' ims f' where
    "insert_direct (\<lambda>_. 0) [84] data (sample_db False 0 (new_leaf (\<lambda>_. 0)) (new_leaf (\<lambda>_. 0))) = (Inl (Fail (Corruption ''unknown type tag'')), db')"
    "table_of [84] db' = Inr m'" "tm_root_page m' = root_of t'" "tm_row_count m' = tm_row_count (sample_meta False 0)"
    "commit_guard (db_file db') = (Inr ims, f')" "contents (view_page (\<lambda>_. 0) f') t' = insort_key fst (tm_next_rowid (sample_meta False 0), row) []"
    using failed_insert_published [OF sample_empty [of "\<lambda>_. 0" False] row _ _ _ _ _ _ _ ty _ un nx]
    using key st len by (auto simp del: One_nat_def)
  then show ?thesis by (intro exI [of _ data] exI [of _ db'] exI [of _ m'] exI [of _ t'] exI [of _ ims] exI [of _ f']) simp
qed

end
