(* ===== verification/Row_Log.thy ===== *)
theory Row_Log
  imports Crash_Safety Row_Properties
begin

text \<open>
  What an insertion leaves in the log. Up to its commit an operation neither writes the log nor
  publishes a page; the commit publishes the pages of the overlay and appends an image of each of them, in order,
  under the id of the table. With the effect on the table this is the property of the insertion.
\<close>

section \<open>Before the commit\<close>

definition withheld :: "crc_fn \<Rightarrow> database \<Rightarrow> database \<Rightarrow> bool" where
  "withheld crc db db' \<longleftrightarrow> db_wal db' = db_wal db \<and> view_page crc (db_file db') = view_page crc (db_file db)
     \<and> guard_ok (db_file db') \<and> tidy crc UNIV (db_file db')"

definition withholds :: "crc_fn \<Rightarrow> 'a dbop \<Rightarrow> bool" where
  "withholds crc m \<longleftrightarrow> (\<forall>db. guard_ok (db_file db) \<longrightarrow> tidy crc UNIV (db_file db) \<longrightarrow> withheld crc db (snd (m db)))"

named_theorems withholds_intros \<open>operations that neither log nor publish\<close>

lemma withholds_pure [withholds_intros]: "withholds crc (sm_ret x)" "withholds crc (sm_lift r)" "withholds crc (sm_view v)"
  by (simp_all add: withholds_def withheld_def)

lemma withholds_set_meta [withholds_intros]: "withholds crc (set_meta t m)"
  by (simp add: withholds_def withheld_def)

lemma withholds_bind [withholds_intros]:
  assumes "withholds crc m" "\<And>x. withholds crc (k x)"
  shows "withholds crc (sm_bind m k)"
  unfolding withholds_def
proof (intro allI impI)
  fix db :: database assume db: "guard_ok (db_file db)" "tidy crc UNIV (db_file db)"
  obtain r db' where m: "m db = (r, db')" by fastforce
  then have h: "withheld crc db db'" using assms(1) db by (auto simp: withholds_def)
  show "withheld crc db (snd (sm_bind m k db))"
  proof (cases r)
    case (Inr x)
    then have "withheld crc db' (snd (k x db'))" using assms(2) h by (auto simp: withholds_def withheld_def)
    then show ?thesis using m h Inr by (simp add: sm_bind_def withheld_def)
  qed (use m h in \<open>simp add: sm_bind_def\<close>)
qed

lemma withholds_if [withholds_intros]: "(b \<Longrightarrow> withholds crc m) \<Longrightarrow> (\<not> b \<Longrightarrow> withholds crc m') \<Longrightarrow> withholds crc (if b then m else m')"
  by simp

lemma withholds_let [withholds_intros]: "withholds crc (m v) \<Longrightarrow> withholds crc (let x = v in m x)"
  by simp

lemma withholds_option [withholds_intros]:
  "withholds crc m \<Longrightarrow> (\<And>x. withholds crc (k x)) \<Longrightarrow> withholds crc (case o' of None \<Rightarrow> m | Some x \<Rightarrow> k x)"
  by (cases o') simp_all

lemma withholds_fold [withholds_intros]: "(\<And>x. withholds crc (m x)) \<Longrightarrow> withholds crc (sm_fold m xs)"
  by (induction xs) (simp_all add: withholds_intros)

lemma withholds_on_file [withholds_intros]:
  assumes "\<And>f. safe_at crc f m" "\<And>f. tidies crc UNIV UNIV f m"
  shows "withholds crc (on_file m)"
  unfolding withholds_def
proof (intro allI impI)
  fix db :: database assume f: "guard_ok (db_file db)" "tidy crc UNIV (db_file db)"
  obtain r f' where m: "m (db_file db) = (r, f')" by fastforce
  have "guard_ok f'" "view_page crc f' = view_page crc (db_file db)"
    using assms(1) [of "db_file db"] f(1) m by (auto simp: safe_at_def guard_step_def)
  moreover have "tidy crc UNIV f'" using assms(2) [of "db_file db"] f(2) m by (auto simp: tidies_def)
  ultimately show "withheld crc db (snd (on_file m db))" using m by (simp add: withheld_def on_file_def)
qed

lemma index_update_withholds [withholds_intros]: "withholds crc (index_update_row crc t rid b rm)"
  unfolding index_update_row_def index_update_one_def by (intro withholds_intros safe tidy_intros)

section \<open>The commit\<close>

text \<open>The pages \<open>ims\<close> are published, and no others.\<close>

definition publishes :: "crc_fn \<Rightarrow> (u32 \<times> page) list \<Rightarrow> page_file \<Rightarrow> page_file \<Rightarrow> bool" where
  "publishes crc ims f f' \<longleftrightarrow> (\<forall>n. view_page crc f' n = (case map_of ims n of Some p \<Rightarrow> Inr p | None \<Rightarrow> view_page crc f n))"

definition logged :: "crc_fn \<Rightarrow> durability \<Rightarrow> u32 \<Rightarrow> (u32 \<times> page) list \<Rightarrow> page_image list \<Rightarrow> wal \<Rightarrow> wal \<Rightarrow> bool" where
  "logged crc dur tid ims old w w' \<longleftrightarrow> (if dur = NoLog then w' = w else holds crc w' (old @ map (\<lambda>(n, p). (tid, n, p)) ims))"

lemma commit_logged:
  assumes f: "guard_ok (db_file db)" "tidy crc UNIV (db_file db)" and old: "holds crc (db_wal db) old"
    and run: "commit_write crc dur tid None db = (Inr (), db')"
  shows "\<exists>ims. publishes crc ims (db_file db) (db_file db') \<and> logged crc dur tid ims old (db_wal db) (db_wal db')"
proof -
  let ?f = "db_file db" and ?ims = "pf_dirty (db_file db)"
  from commit_guard_outcome [OF f(1), of crc UNIV] run obtain f' where f': "commit_guard ?f = (Inr ?ims, f')" "view_page crc f' = guard_view crc ?f"
    by (auto simp: commit_write_def sm_bind_def on_file_def)
  have pub: "publishes crc ?ims ?f f'" unfolding publishes_def f'(2) by (simp add: guard_view_def)
  have pages: "\<forall>(n, p) \<in> set ?ims. page_ok p" using dirty_viewed [OF f(1), where crc = crc] f(2) by (fastforce simp: tidy_def)
  have go: "commit_write crc dur tid None db = (if dur = NoLog then sm_ret () else sm_fold (log_image crc tid None) ?ims) (db\<lparr>db_file := f'\<rparr>)"
    using f'(1) by (cases dur) (simp_all add: commit_write_def on_file_bind [where m = commit_guard])
  show ?thesis
  proof (cases "dur = NoLog")
    case True
    then show ?thesis using go run pub by (intro exI [of _ ?ims]) (auto simp: sm_ret_def logged_def)
  next
    case False
    obtain r w' k where w': "sm_fold (log_image crc tid None) ?ims (db\<lparr>db_file := f'\<rparr>) = (r, db\<lparr>db_file := f', db_wal := w'\<rparr>)"
      "holds crc w' (old @ map (Pair tid) (take k ?ims))" "r = Inr () \<longrightarrow> k = length ?ims"
      using log_images_outcome [of crc "db\<lparr>db_file := f'\<rparr>" old ?ims tid] old pages by auto
    then have "db' = db\<lparr>db_file := f', db_wal := w'\<rparr>" "k = length ?ims" using go run False by auto
    moreover have "map (\<lambda>(n, p). (tid, n, p)) ?ims = map (Pair tid) ?ims" by (rule map_cong) auto
    ultimately show ?thesis using w'(2) pub False by (intro exI [of _ ?ims]) (simp add: logged_def)
  qed
qed

lemma store_row_logged:
  assumes f: "guard_ok (db_file db)" "tidy crc UNIV (db_file db)" and old: "holds crc (db_wal db) old"
    and m: "table_of table db = Inr m" "tm_cipher m = None" and run: "store_row crc dur table rowid row db = (Inr (), db')"
  shows "\<exists>ims. publishes crc ims (db_file db) (db_file db') \<and> logged crc dur (tm_table_id m) ims old (db_wal db) (db_wal db')"
proof -
  define pre where "pre = sm_bind (on_file (btree_insert crc (tm_root_page m) rowid row)) (\<lambda>new_root.
     sm_bind (set_meta table (m\<lparr>tm_root_page := new_root\<rparr>)) (\<lambda>_.
     if tm_indexes m \<noteq> [] then index_update_row crc table rowid row False else sm_ret ()))"
  have "sm_bind pre (\<lambda>_. commit_write crc dur (tm_table_id m) None) db = (Inr (), db')"
    using m run by (simp add: store_row_def sm_bind_view pre_def sm_bind_assoc)
  then obtain db1 where db1: "pre db = (Inr (), db1)" "commit_write crc dur (tm_table_id m) None db1 = (Inr (), db')"
    unfolding sm_bind_eq_Inr by auto
  have "withholds crc pre" unfolding pre_def by (intro withholds_intros safe tidy_intros)
  then have "withheld crc db (snd (pre db))" using f unfolding withholds_def by blast
  then have h: "withheld crc db db1" using db1(1) by simp
  then have "guard_ok (db_file db1)" "tidy crc UNIV (db_file db1)" "holds crc (db_wal db1) old" using old by (simp_all add: withheld_def)
  from commit_logged [OF this db1(2)] show ?thesis using h unfolding withheld_def publishes_def by (elim conjE) (simp only:)
qed

lemma insert_direct_logged:
  assumes o: "table_open crc db table m cs t P its" and row: "row = encode_row (tm_next_rowid m) (row_values m data)"
    and n: "tm_next_rowid m \<noteq> - 1" and chk: "enforce_index_types m data = Inr ()" "length row \<le> unat (db_max_row_size db)"
      "enforce_unique_indexes crc (db_file db) m row = Inr ()"
    and db: "tidy crc UNIV (db_file db)" "holds crc (db_wal db) old" and run: "insert_direct crc table data db = (Inr rowid, db')"
  shows "\<exists>ims. publishes crc ims (db_file db) (db_file db')
    \<and> logged crc (db_durability db) (tm_table_id m) ims old (db_wal db) (db_wal db')"
proof -
  note o' = o [unfolded table_open_def]
  define m1 where "m1 = m\<lparr>tm_next_rowid := tm_next_rowid m + 1\<rparr>"
  define db1 where "db1 = db_at db table (db_file db) m1"
  have db1: "db_file db1 = db_file db" "db_wal db1 = db_wal db" "table_of table db1 = Inr m1" "tm_cipher m1 = None" "tm_table_id m1 = tm_table_id m"
    using o' by (simp_all add: db1_def m1_def unlocked_def)
  have "sm_bind (sm_bind (store_row crc (db_durability db) table (tm_next_rowid m) row) (\<lambda>_. bump_row_count table))
      (\<lambda>_. sm_ret (tm_next_rowid m)) db1 = (Inr rowid, db')"
    using insert_direct_start [of table db m row data crc] o' row n chk run by (simp add: db1_def m1_def)
  then obtain db2 where db2: "store_row crc (db_durability db) table (tm_next_rowid m) row db1 = (Inr (), db2)" "bump_row_count table db2 = (Inr (), db')"
    unfolding sm_bind_eq_Inr by (auto simp: sm_ret_def)
  have same: "db_file db' = db_file db2" "db_wal db' = db_wal db2"
    using db2(2) by (auto simp: bump_row_count_def sm_bind_def sm_view_def sm_lift_def split: sum.splits)
  have ok: "guard_ok (db_file db)" using o' guard_clean_ok by blast
  obtain ims where "publishes crc ims (db_file db1) (db_file db2)"
    "logged crc (db_durability db) (tm_table_id m1) ims old (db_wal db1) (db_wal db2)"
    using store_row_logged [OF _ _ _ db1(3,4) db2(1), of old] ok db unfolding db1(1,2) by blast
  then show ?thesis using same db1 by auto
qed

section \<open>Property\<close>

text \<open>C1. Inserting a row outside a transaction: when the row passes the checks and there is room, it
  gets the next rowid and the rows become the sorted list with it. The metadata is the old one with
  the root of the row tree, the roots of the index trees, and the two counters advanced; every index holds
  the sorted keys of the new rows. Some pages \<open>ims\<close> are published and no others, and their
  images, in order and under the id of the table, are what the log has more than before (nothing when
  the handle does not log). The other tables keep their metadata and pages.\<close>

theorem insert_direct_correct:
  assumes "table_open crc db table m cs t P its" "row = encode_row (tm_next_rowid m) (row_values m data)"
    and "can_store db m t its (tm_next_rowid m) row" "tm_next_rowid m \<notin> fst ` set cs"
    and "tm_row_count m \<noteq> - 1" "tm_next_rowid m \<noteq> - 1"
    and "enforce_index_types m data = Inr ()" "length row \<le> unat (db_max_row_size db)"
    and "enforce_unique_indexes crc (db_file db) m row = Inr ()"
    and "tidy crc UNIV (db_file db)" "holds crc (db_wal db) old"
  shows "\<exists>db' m' t' P' its' ims. insert_direct crc table data db = (Inr (tm_next_rowid m), db')
    \<and> table_open crc db' table m' (insort_key fst (tm_next_rowid m, row) cs) t' P' its'
    \<and> m' = with_roots (m\<lparr>tm_root_page := root_of t', tm_row_count := tm_row_count m + 1, tm_next_rowid := tm_next_rowid m + 1\<rparr>) its'
    \<and> table_depth t' its' \<le> Suc (table_depth t its) \<and> others_keep crc db table t P its db'
    \<and> (\<forall>n. view_page crc (db_file db') n = (case map_of ims n of Some p \<Rightarrow> Inr p | None \<Rightarrow> view_page crc (db_file db) n))
    \<and> (if db_durability db = NoLog then db_wal db' = db_wal db
       else holds crc (db_wal db') (old @ map (\<lambda>(n, p). (tm_table_id m, n, p)) ims))"
proof -
  obtain db' m' t' P' its' where r: "insert_direct crc table data db = (Inr (tm_next_rowid m), db')"
    "table_open crc db' table m' (insort_key fst (tm_next_rowid m, row) cs) t' P' its'"
    "m' = with_roots (m\<lparr>tm_root_page := root_of t', tm_row_count := tm_row_count m + 1, tm_next_rowid := tm_next_rowid m + 1\<rparr>) its'"
    "table_depth t' its' \<le> Suc (table_depth t its)" "others_keep crc db table t P its db'"
    using insert_direct_meta_run [OF assms(1-9)] by blast
  obtain ims where "publishes crc ims (db_file db) (db_file db')"
    "logged crc (db_durability db) (tm_table_id m) ims old (db_wal db) (db_wal db')"
    using insert_direct_logged [OF assms(1,2,6-11) r(1)] by blast
  then show ?thesis using r unfolding publishes_def logged_def by blast
qed

lemma sample_tidy: "tidy crc UNIV (db_file (sample_db u 0 (new_leaf crc) (new_leaf crc)))"
proof -
  let ?f = "db_file (sample_db u 0 (new_leaf crc) (new_leaf crc))"
  have clean: "guard_clean ?f" by (simp add: sample_db_def guard_clean_def page_file_open_def)
  have "page_ok p" if "view_page crc ?f n = Inr p" for n p
  proof -
    have "cache_get (pf_pages ?f) n = Some p \<or> read_page_from_disk crc ?f n = Inr p"
      using that by (auto simp: view_page_eq split: if_splits option.splits)
    moreover have "p = new_leaf crc" if "cache_get (pf_pages ?f) n = Some p"
      using that by (auto simp: sample_db_def cache_get_def nth_Cons' split: if_splits)
    moreover have "page_ok p" if "read_page_from_disk crc ?f n = Inr p"
      using that by (auto simp: sample_db_def read_page_from_disk_def read_page_raw_def page_file_open_def
          res_bind_eq_Inr page_from_bytes_eq Let_def split: if_splits)
    ultimately show ?thesis using new_pages_ok(1) [of crc] by auto
  qed
  moreover have "cache_ok ?f" using new_pages_ok(1) [of crc] by (simp add: sample_db_def cache_ok_def)
  ultimately show ?thesis by (simp add: tidy_def guard_clean_view [OF clean])
qed

lemma sample_log_empty: "holds crc (db_wal (sample_db u k p q)) []"
  by (simp add: sample_db_def holds_def images_ok_def log_bytes_def)

lemma insert_direct_correct_witness:
  "\<exists>db' m' t' P' its' ims. insert_direct (\<lambda>_. 0) [84] [([110], Integer 5)] (sample_db True 0 (new_leaf (\<lambda>_. 0)) (new_leaf (\<lambda>_. 0))) = (Inr 1, db')
    \<and> table_open (\<lambda>_. 0) db' [84] m' (one_row 5) t' P' its' \<and> tm_row_count m' = 1
    \<and> holds (\<lambda>_. 0) (db_wal db') (map (\<lambda>(n, p). (1, n, p)) ims)"
proof -
  note c = sample_can_store [of True "\<lambda>_. 0" 1 5] sample_unique_free [of "\<lambda>_. 0" True 1 5]
  obtain db' m' t' P' its' ims where
    "insert_direct (\<lambda>_. 0) [84] [([110], Integer 5)] (sample_db True 0 (new_leaf (\<lambda>_. 0)) (new_leaf (\<lambda>_. 0))) = (Inr (tm_next_rowid (sample_meta True 0)), db')"
    "table_open (\<lambda>_. 0) db' [84] m' (insort_key fst (tm_next_rowid (sample_meta True 0), encode_row 1 (sample_value 5)) []) t' P' its'"
    "m' = with_roots ((sample_meta True 0)\<lparr>tm_root_page := root_of t', tm_row_count := tm_row_count (sample_meta True 0) + 1,
       tm_next_rowid := tm_next_rowid (sample_meta True 0) + 1\<rparr>) its'"
    "holds (\<lambda>_. 0) (db_wal db') ([] @ map (\<lambda>(n, p). (tm_table_id (sample_meta True 0), n, p)) ims)"
    using insert_direct_correct [OF sample_empty [of "\<lambda>_. 0" True] refl, of "[([110], Integer 5)]" "[]"] c sample_tidy sample_log_empty
    by (simp add: sample_row_facts) metis
  moreover from this(3) have "tm_row_count m' = 1" by simp
  ultimately have "insert_direct (\<lambda>_. 0) [84] [([110], Integer 5)] (sample_db True 0 (new_leaf (\<lambda>_. 0)) (new_leaf (\<lambda>_. 0))) = (Inr 1, db')"
    "table_open (\<lambda>_. 0) db' [84] m' (one_row 5) t' P' its'" "tm_row_count m' = 1"
    "holds (\<lambda>_. 0) (db_wal db') (map (\<lambda>(n, p). (1, n, p)) ims)" by simp_all
  then show ?thesis by blast
qed

end
