(* ===== verification/Registry.thy ===== *)
theory Registry
  imports Crash_Safety Row_Ops
begin

text \<open>
  The table registry as it is kept in page 0 and its chain: what persisting it leaves in the file, and
  what creating a table does to the handle.
\<close>

section \<open>A registry that can be stored\<close>

definition registry_fits :: "table_meta list \<Rightarrow> u32 \<Rightarrow> bool" where
  "registry_fits metas nid \<longleftrightarrow>
     list_all table_ok metas \<and> length metas < 65536 \<and> length (serialize_system_metas metas nid) < 2 ^ 32"

definition registry_pages :: "table_meta list \<Rightarrow> u32 \<Rightarrow> nat" where
  "registry_pages metas nid = length (serialize_system_metas metas nid) div OVERFLOW_PAYLOAD_MAX + 1"

text \<open>A reader finds the registry, looking only at the pages in \<open>R\<close>.\<close>

definition registry_in :: "(u32 \<Rightarrow> page res) \<Rightarrow> u32 set \<Rightarrow> table_meta list \<Rightarrow> u32 \<Rightarrow> bool" where
  "registry_in rd R metas nid \<longleftrightarrow> 0 \<in> R \<and> (\<forall>n \<in> R. \<exists>p. rd n = Inr p) \<and> (\<exists>p0. rd 0 = Inr p0 \<and> flags p0 = PAGE_SYSTEM
     \<and> (\<forall>rd'. (\<forall>n \<in> R. rd' n = rd n) \<longrightarrow> deserialize_system_page p0 rd' = Some (Inr (map locked metas, nid))))"

lemma registry_in_frame:
  assumes "registry_in rd R metas nid" "\<forall>n \<in> R. rd' n = rd n"
  shows "registry_in rd' R metas nid"
  using assms unfolding registry_in_def by auto

lemma registry_in_mono:
  assumes "registry_in rd R metas nid" "\<And>n p. rd n = Inr p \<Longrightarrow> rd' n = Inr p"
  shows "registry_in rd' R metas nid"
proof -
  have "\<forall>n \<in> R. \<exists>p. rd n = Inr p" using assms(1) by (simp add: registry_in_def)
  then have "\<forall>n \<in> R. rd' n = rd n" using assms(2) by fastforce
  with assms(1) show ?thesis by (rule registry_in_frame)
qed

lemma copy_flags: "copy_at p off bs = Inr q \<Longrightarrow> page_ok p \<Longrightarrow> 16 \<le> off \<Longrightarrow> page_ok q \<and> flags q = flags p"
  by (auto simp: copy_at_def page_ok_def split: if_splits)

lemma system_trailer_flags:
  assumes "page_ok p" "system_trailer first r p = Inr q"
  shows "flags q = flags p \<and> page_ok q"
proof -
  obtain a b where "copy_at p 4082 OVERFLOW_MAGIC = Inr a" "copy_at a 4084 (u32_to_le first) = Inr b"
    "copy_at b 4088 (u32_to_le (as_u32 r)) = Inr q"
    using assms(2) by (auto simp: system_trailer_def Let_def res_bind_eq_Inr)
  then show ?thesis using copy_flags [of p] copy_flags [of a] copy_flags [of b] assms(1) by simp
qed

lemma serialize_flags:
  assumes "serialize_system_page crc metas nid f = (Inr (p0, ps), f')"
  shows "flags p0 = PAGE_SYSTEM"
proof (cases "length (serialize_system_metas metas nid) \<le> SYSTEM_INLINE_BUDGET")
  case True
  then obtain a where "copy_at (new_system crc) 16 (serialize_system_metas metas nid) = Inr a" "p0 = update_checksum crc a"
    using assms by (auto simp: serialize_system_page_def Let_def sm_bind_def split: sum.splits)
  then show ?thesis using copy_flags [of "new_system crc"] by simp
next
  case False
  then obtain a b first r where "copy_at (new_system crc) 16 (take SYSTEM_INLINE_BUDGET (serialize_system_metas metas nid)) = Inr a"
    "system_trailer first r a = Inr b" "p0 = update_checksum crc b"
    using assms by (auto simp: serialize_system_page_def Let_def sm_bind_eq_Inr res_bind_eq_Inr)
  then show ?thesis using copy_flags [of "new_system crc"] system_trailer_flags [of a first r b] by simp
qed

text \<open>Serialization allocates the pages of the chain and nothing else.\<close>

lemma serialize_run:
  assumes fits: "registry_fits metas nid" and n: "0 < guard_next f" "guard_next f + registry_pages metas nid < 2 ^ 32"
  shows "\<exists>p0 ps f'. serialize_system_page crc metas nid f = (Inr (p0, ps), f') \<and> distinct (map fst ps)
    \<and> (\<forall>(n, q) \<in> set ps. guard_next f \<le> unat n) \<and> grows crc f f' \<and> guard_next f' \<le> guard_next f + registry_pages metas nid
    \<and> (\<forall>rd. (\<forall>(n, q) \<in> set ps. rd n = Inr q) \<longrightarrow> deserialize_system_page p0 rd = Some (Inr (map locked metas, nid)))"
proof (cases "length (serialize_system_metas metas nid) \<le> SYSTEM_INLINE_BUDGET")
  case True
  have r: "\<exists>p. serialize_system_page crc metas nid f = (Inr (p, []), f) \<and> page_ok p
      \<and> deserialize_system_page p rd = Some (Inr (map locked metas, nid))" for rd
    by (rule inline_roundtrip [OF _ _ True]) (use fits in \<open>simp_all add: registry_fits_def\<close>)
  then obtain p where p: "serialize_system_page crc metas nid f = (Inr (p, []), f)" by blast
  have "deserialize_system_page p rd = Some (Inr (map locked metas, nid))" for rd
    using r [of rd] p by auto
  with p show ?thesis by (intro exI [of _ p] exI [of _ "[]"] exI [of _ f]) (simp add: grows_refl)
next
  case False
  then have long: "SYSTEM_INLINE_BUDGET < length (serialize_system_metas metas nid)" by simp
  have "list_all table_ok metas" "length metas < 65536" "length (serialize_system_metas metas nid) < 2 ^ 32"
    "guard_next f + length (serialize_system_metas metas nid) div OVERFLOW_PAYLOAD_MAX + 1 < 2 ^ 32"
    using fits n(2) by (simp_all add: registry_fits_def registry_pages_def)
  from chained_roundtrip [OF this(1,2) long this(3) n(1) this(4), of crc] show ?thesis
    unfolding registry_pages_def by (elim exE conjE) (intro exI conjI, assumption, assumption, auto)
qed

text \<open>Writing the pages: the registry can be read through the guard, other pages stay, all new ones are sealed.\<close>

lemma put_registry_run:
  assumes fits: "registry_fits metas nid" and n: "0 < guard_next f" "guard_next f + registry_pages metas nid < 2 ^ 32"
    and ok: "guard_ok f"
  shows "\<exists>f'. put_registry crc metas nid f = (Inr (), f') \<and> guard_ok f' \<and> guard_next f \<le> guard_next f'
    \<and> guard_next f' \<le> guard_next f + registry_pages metas nid \<and> (\<exists>R. registry_in (guard_view crc f') R metas nid \<and> (\<forall>n \<in> R. n = 0 \<or> guard_next f \<le> unat n))
    \<and> (\<forall>n. n \<noteq> 0 \<longrightarrow> unat n < guard_next f \<longrightarrow> guard_view crc f' n = guard_view crc f n)
    \<and> (tidy crc {0} f \<longrightarrow> tidy crc {} f')"
proof -
  obtain p0 ps f1 where s: "serialize_system_page crc metas nid f = (Inr (p0, ps), f1)" "distinct (map fst ps)"
    "\<forall>(n, q) \<in> set ps. guard_next f \<le> unat n" "grows crc f f1" "guard_next f1 \<le> guard_next f + registry_pages metas nid"
    "\<And>rd. (\<forall>(n, q) \<in> set ps. rd n = Inr q) \<Longrightarrow> deserialize_system_page p0 rd = Some (Inr (map locked metas, nid))"
    using serialize_run [OF fits n] by blast
  note sh = serialize_shape [OF s(1)]
  obtain f2 where f2: "put_page 0 p0 f1 = (Inr (), f2)" "guard_view crc f2 = (guard_view crc f1)(0 := Inr p0)" "guard_next f2 = guard_next f1"
    using put_run [of 0 p0 f1 crc] by blast
  obtain f' where f': "put_pages ps f2 = (Inr (), f')" "guard_next f' = guard_next f2" "pf_pages f' = pf_pages f2"
    "guard_view crc f' = (\<lambda>n. case map_of (rev ps) n of Some p \<Rightarrow> Inr p | None \<Rightarrow> guard_view crc f2 n)"
    using put_pages_run [of ps f2 crc] by blast
  have run: "put_registry crc metas nid f = (Inr (), f')"
    using s(1) f2(1) f'(1) by (simp add: put_registry_def sm_bind_def)
  have high: "map_of (rev ps) n = None" if "unat n < guard_next f" for n
    using s(3) that by (auto simp: map_of_eq_None_iff)
  have low: "map_of (rev ps) 0 = None" using high n(1) by simp
  have v0: "guard_view crc f' 0 = Inr p0" using f2(2) f'(4) low by simp
  have "distinct (map fst (rev ps))" using s(2) by (simp add: rev_map [symmetric])
  then have "\<forall>(n, q) \<in> set ps. guard_view crc f' n = Inr q"
    using f'(4) map_of_is_SomeI [of "rev ps"] by auto
  then have "registry_in (guard_view crc f') (insert 0 (fst ` set ps)) metas nid"
    using v0 serialize_flags [OF s(1)] s(6) by (fastforce simp: registry_in_def)
  then have "\<exists>R. registry_in (guard_view crc f') R metas nid \<and> (\<forall>n \<in> R. n = 0 \<or> guard_next f \<le> unat n)"
    using s(3) by (intro exI [of _ "insert 0 (fst ` set ps)"]) auto
  moreover have "guard_ok f'" using put_registry_safe [OF n(1), of crc metas nid] ok run by (simp add: safe_at_def)
  moreover have "guard_view crc f' m = guard_view crc f m" if "m \<noteq> 0" "unat m < guard_next f" for m
    using that high [OF that(2)] f2(2) f'(4) s(4) by (simp add: grows_def)
  moreover have "tidy crc {} f'" if "tidy crc {0} f"
  proof -
    have t1: "tidy crc (insert 0 (fst ` set ps)) f1"
      using sh
    proof (elim conjE disjE exE)
      assume "ps = []" "f1 = f" then show ?thesis using that by simp
    next
      fix k assume k: "alloc_many k f = (Inr (map fst ps), f1)"
      have "tidies crc {0} (insert 0 (fst ` set ps)) f (alloc_many k)" by (rule alloc_many_tidy) (use k in auto)
      then show ?thesis using k that by (simp add: tidies_def)
    qed
    have "cache_ok f'" using t1 f'(3) put_disk(3) [of 0 p0 f1] f2(1) by (simp add: tidy_def cache_ok_def)
    moreover have "page_ok p \<and> sealed crc p" if v: "guard_view crc f' n = Inr p" for n p
    proof (cases "map_of (rev ps) n")
      case None
      then have "n \<notin> fst ` set ps" by (simp add: map_of_eq_None_iff)
      then show ?thesis using v f'(4) None f2(2) t1 sh by (auto simp: tidy_def split: if_splits)
    next
      case (Some q)
      then show ?thesis using v f'(4) sh map_of_SomeD [OF Some] by auto
    qed
    ultimately show ?thesis by (simp add: tidy_def)
  qed
  ultimately show ?thesis using run s(4,5) f2(3) f'(2) by (intro exI [of _ f']) (simp add: grows_def)
qed

section \<open>Files without gaps\<close>

text \<open>Every page can be read, and carries a valid checksum.\<close>

definition readable :: "crc_fn \<Rightarrow> page_file \<Rightarrow> bool" where
  "readable crc f \<longleftrightarrow> (\<forall>n. n < page_count f \<longrightarrow> (\<exists>p. view_page crc f n = Inr p))"

definition whole :: "crc_fn \<Rightarrow> page_file \<Rightarrow> bool" where
  "whole crc f \<longleftrightarrow> tidy crc {} f \<and> readable crc f"

lemma readable_commit:
  assumes "guard_ok f" "readable crc f" "guard_clean f'" "view_page crc f' = guard_view crc f" "guard_next f' = guard_next f"
  shows "readable crc f'"
  unfolding readable_def
proof (intro allI impI)
  fix n assume "n < page_count f'"
  then have n: "unat n < guard_next f" using guard_clean_next [OF assms(3)] assms(5) by (simp add: word_less_nat_alt)
  show "\<exists>p. view_page crc f' n = Inr p"
  proof (cases "n < page_count f")
    case True
    then show ?thesis using assms(2,4) by (simp add: readable_def guard_view_def split: option.split)
  next
    case False
    then have "n \<in> fst ` set (pf_dirty f)" using assms(1) n by (auto simp: guard_ok_def page_count_def word_less_nat_alt not_less)
    then obtain p where "map_of (pf_dirty f) n = Some p" by (metis map_of_eq_None_iff not_Some_eq)
    then show ?thesis using assms(4) by (simp add: guard_view_def)
  qed
qed

lemma readable_step: "guard_step crc f f' \<Longrightarrow> readable crc f \<Longrightarrow> readable crc f'"
  by (simp add: readable_def guard_step_def page_count_def)

section \<open>Persisting\<close>

definition handle_ready :: "nat \<Rightarrow> database \<Rightarrow> bool" where
  "handle_ready k db \<longleftrightarrow> guard_clean (db_file db) \<and> guard_next (db_file db) + k < 2 ^ 32
     \<and> log_room (guard_next (db_file db) + k) (db_wal db)"

lemma log_images_file: "db_file (snd (sm_fold (log_image crc t None) ims db)) = db_file db"
proof (induction ims arbitrary: db)
  case (Cons im ims)
  obtain n p where im: "im = (n, p)" by fastforce
  have "db_file (snd (log_image crc t None im db)) = db_file db"
    by (auto simp: log_image_def im on_wal_def sm_bind_def split: sum.split prod.split)
  then show ?case using Cons by (auto simp: sm_bind_def split: prod.split sum.split)
qed simp

lemma commit_tidy:
  assumes "commit_write crc dur t None db = (Inr (), db')" "guard_ok (db_file db)" "tidy crc S (db_file db)"
  shows "tidy crc S (db_file db')"
proof -
  obtain r f where c: "commit_guard (db_file db) = (r, f)" by fastforce
  from commit_guard_outcome [OF assms(2), of crc S] c show ?thesis
  proof (elim disjE exE conjE)
    assume "commit_guard (db_file db) = (Inl Panicked, db_file db)"
    then show ?thesis using assms(1) by (simp add: commit_write_def sm_bind_def on_file_def)
  next
    fix f' assume f': "commit_guard (db_file db) = (Inr (pf_dirty (db_file db)), f')" "tidy crc S (db_file db) \<longrightarrow> tidy crc S f'"
    have "db_file (snd (commit_write crc dur t None db)) = f'"
      using f'(1) by (simp add: commit_write_def on_file_bind [where m = commit_guard] log_images_file split: durability.split)
    then show ?thesis using assms(1,3) f'(2) by simp
  qed
qed

lemma persist_run:
  assumes r: "handle_ready (registry_pages (map snd (db_tables db)) (db_next_table_id db)) db"
    and fits: "registry_fits (map snd (db_tables db)) (db_next_table_id db)" and n: "0 < guard_next (db_file db)"
  shows "\<exists>f' w'. persist crc db = (Inr (), db\<lparr>db_file := f', db_wal := w'\<rparr>) \<and> guard_clean f'
    \<and> (\<exists>R. registry_in (view_page crc f') R (map snd (db_tables db)) (db_next_table_id db) \<and> (\<forall>n \<in> R. n = 0 \<or> guard_next (db_file db) \<le> unat n))
    \<and> guard_next (db_file db) \<le> guard_next f'
    \<and> guard_next f' \<le> guard_next (db_file db) + registry_pages (map snd (db_tables db)) (db_next_table_id db)
    \<and> unat (wal_entry_count w') \<le> unat (wal_entry_count (db_wal db)) + guard_next (db_file db) + registry_pages (map snd (db_tables db)) (db_next_table_id db)
    \<and> (\<forall>n. n \<noteq> 0 \<longrightarrow> unat n < guard_next (db_file db) \<longrightarrow> guard_view crc f' n = guard_view crc (db_file db) n)
    \<and> (tidy crc {0} (db_file db) \<longrightarrow> tidy crc {} f') \<and> (readable crc (db_file db) \<longrightarrow> readable crc f')"
proof -
  let ?f = "db_file db" and ?ms = "map snd (db_tables db)" and ?id = "db_next_table_id db"
  note r' = r [unfolded handle_ready_def]
  have pc: "page_count ?f \<noteq> 0" using n guard_clean_next [of ?f] r' by auto
  obtain f1 where f1: "put_registry crc ?ms ?id ?f = (Inr (), f1)" "guard_ok f1" "guard_next ?f \<le> guard_next f1"
    "guard_next f1 \<le> guard_next ?f + registry_pages ?ms ?id" "\<exists>R. registry_in (guard_view crc f1) R ?ms ?id \<and> (\<forall>n \<in> R. n = 0 \<or> guard_next ?f \<le> unat n)"
    "\<forall>n. n \<noteq> 0 \<longrightarrow> unat n < guard_next ?f \<longrightarrow> guard_view crc f1 n = guard_view crc ?f n" "tidy crc {0} ?f \<longrightarrow> tidy crc {} f1"
    using put_registry_run [OF fits n, of crc] r' guard_clean_ok by blast
  have "with_page0 (put_registry crc ?ms ?id) ?f = (Inr (), f1)" using f1(1) pc by (simp add: with_page0_def)
  then have run: "persist crc db = commit_write crc (db_durability db) 0 None (db\<lparr>db_file := f1\<rparr>)"
    by (simp add: persist_def persist_registry_eq snapshot_table_metas_def sm_bind_view on_file_bind [where m = "with_page0 (put_registry crc ?ms ?id)"])
  have "\<exists>f' w'. commit_write crc (db_durability db) 0 None (db\<lparr>db_file := f1\<rparr>) = (Inr (), db\<lparr>db_file := f1, db_file := f', db_wal := w'\<rparr>)
    \<and> guard_view crc f' = guard_view crc (db_file (db\<lparr>db_file := f1\<rparr>)) \<and> guard_clean f' \<and> guard_next f' = guard_next (db_file (db\<lparr>db_file := f1\<rparr>))
    \<and> unat (wal_entry_count w') = unat (wal_entry_count (db_wal (db\<lparr>db_file := f1\<rparr>))) + (if db_durability db = NoLog then 0 else length (pf_dirty (db_file (db\<lparr>db_file := f1\<rparr>))))"
    by (rule commit_write_run) (use f1 r' in \<open>auto simp: log_room_def\<close>)
  then obtain f' w' where c: "commit_write crc (db_durability db) 0 None (db\<lparr>db_file := f1\<rparr>) = (Inr (), db\<lparr>db_file := f', db_wal := w'\<rparr>)"
    "guard_view crc f' = guard_view crc f1" "guard_clean f'" "guard_next f' = guard_next f1"
    "unat (wal_entry_count w') \<le> unat (wal_entry_count (db_wal db)) + guard_next f1"
    using guard_ok_length [OF f1(2)] by (auto split: if_splits)
  have "guard_step crc ?f f1" using put_registry_safe [OF n, of crc ?ms ?id] r' guard_clean_ok f1(1) by (simp add: safe_at_def)
  from readable_step [OF this] readable_commit [OF f1(2) _ c(3)] have "readable crc ?f \<longrightarrow> readable crc f'"
    using c(2-4) guard_clean_view [OF c(3), of crc] by simp
  moreover have "tidy crc {0} ?f \<longrightarrow> tidy crc {} f'" using commit_tidy [OF c(1)] f1(2,7) by simp
  ultimately show ?thesis using run c f1 guard_clean_view [OF c(3), of crc]
    by (intro exI [of _ f'] exI [of _ w']) simp
qed

section \<open>Creating a table\<close>

text \<open>The page number of the next tree root: page 0 is skipped.\<close>

definition next_root :: "database \<Rightarrow> u32" where
  "next_root db = of_nat (max 1 (guard_next (db_file db)))"

lemma with_page0_create:
  assumes ok: "guard_clean f" and n: "guard_next f < 2 ^ 32 - 2"
  shows "\<exists>root f'. with_page0 (btree_create crc) f = (Inr root, f') \<and> root = of_nat (max 1 (guard_next f)) \<and> tree_in crc f' {} (BLeaf root [])
    \<and> guard_next f' = Suc (max 1 (guard_next f)) \<and> guard_ok f'
    \<and> (\<forall>m. unat m < guard_next f \<longrightarrow> guard_view crc f' m = guard_view crc f m) \<and> (tidy crc {0} f \<longrightarrow> tidy crc {0} f')"
proof -
  note s = with_page0_safe [of crc "btree_create crc" f, OF safe_create(1)] guard_clean_ok [OF ok]
  have t: "tidies crc {0} {0} f (with_page0 (btree_create crc))"
    unfolding with_page0_def
    by (rule tidies_self [where g = "\<lambda>f. sm_bind (if page_count f = 0 then _ else _) _"])
      (insert ok, auto intro!: tidies_seq tidies_if tidies_allocate tidies_pure tidies_create tidies_weaken [OF tidies_pure(1)]
        simp: allocate_page_def page_count_def guard_clean_def Let_def split: if_splits)
  have fin: ?thesis if r: "with_page0 (btree_create crc) f = (Inr root, f')" and u: "unat root = max 1 (guard_next f)"
    and tr: "tree_in crc f' {} (BLeaf root [])" and nx: "guard_next f' = Suc (max 1 (guard_next f))"
    and v: "\<forall>m. unat m < guard_next f \<longrightarrow> guard_view crc f' m = guard_view crc f m" for root f'
  proof -
    have "root = of_nat (unat root)" by simp
    then have "root = of_nat (max 1 (guard_next f))" unfolding u .
    moreover have "guard_ok f'" using s r by (simp add: safe_at_def)
    moreover have "tidy crc {0} f \<longrightarrow> tidy crc {0} f'" using t r by (simp add: tidies_def)
    ultimately show ?thesis using r tr nx v by (intro exI [of _ root] exI [of _ f']) simp
  qed
  show ?thesis
  proof (cases "page_count f = 0")
    case True
    then have z: "guard_next f = 0" using guard_clean_next [OF ok] by simp
    obtain f1 where f1: "allocate_page f = (Inr 0, f1)" "guard_next f1 = 1"
      using alloc_default_run [of f 0] z by auto
    obtain root f' where r: "btree_create crc f1 = (Inr root, f')" "unat root = guard_next f1" "tree_in crc f' {} (BLeaf root [])"
      "guard_next f' = Suc (guard_next f1)"
      using btree_create_run [of f1 crc] f1(2) by auto
    have "with_page0 (btree_create crc) f = (Inr root, f')" using True f1(1) r(1) by (simp add: with_page0_def sm_bind_def)
    then show ?thesis using fin r f1(2) z by simp
  next
    case False
    then have "0 < guard_next f" using guard_clean_next [OF ok] by (simp add: unat_gt_0)
    moreover from this obtain root f' where r: "btree_create crc f = (Inr root, f')" "unat root = guard_next f" "tree_in crc f' {} (BLeaf root [])"
      "guard_next f' = Suc (guard_next f)" "\<forall>m. m \<noteq> root \<longrightarrow> guard_view crc f' m = guard_view crc f m"
      using btree_create_run [of f crc] n by auto
    ultimately show ?thesis using fin [of root f'] False by (simp add: with_page0_def max_def) (metis less_irrefl)
  qed
qed

lemma commit_new_root_run:
  assumes r: "handle_ready (k + 2) db" and id: "db_next_table_id db \<noteq> - 1"
  shows "\<exists>f' w'. commit_new_root crc dur db = (Inr (next_root db, db_next_table_id db),
      db\<lparr>db_next_table_id := db_next_table_id db + 1, db_file := f', db_wal := w'\<rparr>)
    \<and> guard_clean f' \<and> tree_in crc f' {} (BLeaf (next_root db) []) \<and> guard_next f' = Suc (max 1 (guard_next (db_file db)))
    \<and> (\<forall>m. unat m < guard_next (db_file db) \<longrightarrow> guard_view crc f' m = guard_view crc (db_file db) m)
    \<and> unat (wal_entry_count w') \<le> unat (wal_entry_count (db_wal db)) + guard_next f'
    \<and> (tidy crc {0} (db_file db) \<longrightarrow> tidy crc {0} f') \<and> (readable crc (db_file db) \<longrightarrow> readable crc f')"
proof -
  let ?f = "db_file db"
  note r' = r [unfolded handle_ready_def]
  have n: "guard_next ?f < 2 ^ 32 - 2" using r' by simp
  obtain f1 where f1: "with_page0 (btree_create crc) ?f = (Inr (next_root db), f1)" "tree_in crc f1 {} (BLeaf (next_root db) [])"
    "guard_next f1 = Suc (max 1 (guard_next ?f))" "guard_ok f1"
    "\<forall>m. unat m < guard_next ?f \<longrightarrow> guard_view crc f1 m = guard_view crc ?f m" "tidy crc {0} ?f \<longrightarrow> tidy crc {0} f1"
    using with_page0_create [OF _ n, of crc] r' unfolding next_root_def by blast
  let ?db1 = "db\<lparr>db_file := f1, db_next_table_id := db_next_table_id db + 1\<rparr>"
  have run: "commit_new_root crc dur db = sm_bind (commit_write crc dur (db_next_table_id db) None) (\<lambda>_. sm_ret (next_root db, db_next_table_id db)) ?db1"
    using f1(1) id by (simp add: commit_new_root_eq on_file_bind [where m = "with_page0 (btree_create crc)"] sm_bind_view must_def)
  have "\<exists>f' w'. commit_write crc dur (db_next_table_id db) None ?db1 = (Inr (), ?db1\<lparr>db_file := f', db_wal := w'\<rparr>)
    \<and> guard_view crc f' = guard_view crc (db_file ?db1) \<and> guard_clean f' \<and> guard_next f' = guard_next (db_file ?db1)
    \<and> unat (wal_entry_count w') = unat (wal_entry_count (db_wal ?db1)) + (if dur = NoLog then 0 else length (pf_dirty (db_file ?db1)))"
    by (rule commit_write_run) (use f1 r' in \<open>auto simp: log_room_def max_def\<close>)
  then obtain f' w' where c: "commit_write crc dur (db_next_table_id db) None ?db1 = (Inr (), ?db1\<lparr>db_file := f', db_wal := w'\<rparr>)"
    "guard_view crc f' = guard_view crc f1" "guard_clean f'" "guard_next f' = guard_next f1"
    "unat (wal_entry_count w') \<le> unat (wal_entry_count (db_wal db)) + guard_next f1"
    using guard_ok_length [OF f1(4)] by (auto split: if_splits)
  have "guard_step crc ?f f1"
    using with_page0_safe [of crc "btree_create crc" ?f, OF safe_create(1)] r' guard_clean_ok f1(1) by (simp add: safe_at_def)
  from readable_step [OF this] readable_commit [OF f1(4) _ c(3)] have "readable crc ?f \<longrightarrow> readable crc f'"
    using c(2-4) guard_clean_view [OF c(3), of crc] by simp
  moreover have "tidy crc {0} ?f \<longrightarrow> tidy crc {0} f'" using commit_tidy [OF c(1)] f1(4,6) by simp
  moreover have "tree_in crc f' {} (BLeaf (next_root db) [])" using tree_in_frame [OF f1(2)] c(2,4) by simp
  ultimately show ?thesis using run c f1(3,5) by (intro exI [of _ f'] exI [of _ w']) (simp add: sm_bind_def)
qed


section \<open>The whole of create_table\<close>

lemma keepsD: "keeps crc m \<Longrightarrow> durable crc db \<Longrightarrow> m db = (r, db') \<Longrightarrow> durable crc db'"
  by (force simp: keeps_def)

lemma unat_of_nat_len: "n < 2 ^ LENGTH('a) \<Longrightarrow> unat (of_nat n :: 'a::len word) = n"
  by (simp add: unsigned_of_nat take_bit_nat_eq_self)

lemma len64: "LENGTH(64) = 64"
  by simp

lemma holds_room:
  assumes "holds crc w ims" "unat (wal_entry_count w) + k < 2 ^ 32"
  shows "log_room k w"
proof -
  have "unat (wal_entry_count w) = length ims" using assms(1) by (simp add: holds_def take_bit_nat_eq_self unsigned_of_nat)
  moreover have "unat (wal_next_sequence w) = Suc (length ims)"
  proof -
    have "wal_next_sequence w = of_nat (Suc (length ims))" "Suc (length ims) < 2 ^ 64" using assms(1) by (simp_all add: holds_def)
    then show ?thesis using unat_of_nat_len [where 'a = 64, of "Suc (length ims)"] by (metis len64)
  qed
  ultimately show ?thesis using assms(2) by (simp add: log_room_def)
qed

lemma durable_room: "durable crc db \<Longrightarrow> unat (wal_entry_count (db_wal db)) + k < 2 ^ 32 \<Longrightarrow> log_room k (db_wal db)"
  using holds_room by (auto simp: durable_def)

text \<open>Space for the pages of a new table and of the registry that lists it, twice over in the log.\<close>

definition new_meta :: "database \<Rightarrow> rstring \<Rightarrow> column_def list \<Rightarrow> table_meta" where
  "new_meta db name columns = table_meta_new name (db_next_table_id db) columns (next_root db)"

definition can_create :: "database \<Rightarrow> rstring \<Rightarrow> column_def list \<Rightarrow> bool" where
  "can_create db name columns \<longleftrightarrow> map_of (db_tables db) name = None \<and> db_next_table_id db \<noteq> - 1 \<and> guard_clean (db_file db)
     \<and> (let metas = map snd (AList.update name (new_meta db name columns) (db_tables db)); nid = db_next_table_id db + 1 in
        registry_fits metas nid
        \<and> unat (wal_entry_count (db_wal db)) + 2 * (guard_next (db_file db) + registry_pages metas nid + 2) < 2 ^ 32)"

lemma create_table_run:
  assumes d: "durable crc db" and c: "can_create db name columns"
  shows "\<exists>db' R. create_table crc name columns db = (Inr (), db') \<and> durable crc db'
    \<and> db_tables db' = AList.update name (new_meta db name columns) (db_tables db) \<and> db_next_table_id db' = db_next_table_id db + 1
    \<and> db_durability db' = db_durability db \<and> db_max_row_size db' = db_max_row_size db
    \<and> table_open crc db' name (new_meta db name columns) [] (BLeaf (next_root db) []) {} []
    \<and> registry_in (view_page crc (db_file db')) R (map snd (db_tables db')) (db_next_table_id db')
    \<and> (\<forall>n \<in> R. n = 0 \<or> guard_next (db_file db) \<le> unat n) \<and> next_root db \<notin> R
    \<and> (\<forall>n. n \<noteq> 0 \<longrightarrow> n < page_count (db_file db) \<longrightarrow> view_page crc (db_file db') n = view_page crc (db_file db) n)
    \<and> (whole crc (db_file db) \<longrightarrow> whole crc (db_file db'))
    \<and> (let k = guard_next (db_file db) + registry_pages (map snd (db_tables db')) (db_next_table_id db') + 2 in
         guard_next (db_file db') \<le> k \<and> unat (wal_entry_count (db_wal db')) < unat (wal_entry_count (db_wal db)) + 2 * k)"
proof -
  let ?m = "new_meta db name columns" and ?id = "db_next_table_id db + 1" and ?f = "db_file db"
  let ?ts = "AList.update name ?m (db_tables db)"
  let ?k = "registry_pages (map snd ?ts) ?id"
  have c': "map_of (db_tables db) name = None" "db_next_table_id db \<noteq> - 1" "guard_clean ?f" "registry_fits (map snd ?ts) ?id"
    "unat (wal_entry_count (db_wal db)) + 2 * (guard_next ?f + ?k + 2) < 2 ^ 32"
    using c by (simp_all add: can_create_def Let_def)
  have r0: "handle_ready (?k + 2) db" using c'(3,5) durable_room [OF d] by (simp add: handle_ready_def)
  obtain f1 w1 where s1: "commit_new_root crc (db_durability db) db = (Inr (next_root db, db_next_table_id db),
      db\<lparr>db_next_table_id := ?id, db_file := f1, db_wal := w1\<rparr>)"
    "guard_clean f1" "tree_in crc f1 {} (BLeaf (next_root db) [])" "guard_next f1 = Suc (max 1 (guard_next ?f))"
    "\<forall>m. unat m < guard_next ?f \<longrightarrow> guard_view crc f1 m = guard_view crc ?f m"
    "unat (wal_entry_count w1) \<le> unat (wal_entry_count (db_wal db)) + guard_next f1"
    "tidy crc {0} ?f \<longrightarrow> tidy crc {0} f1" "readable crc ?f \<longrightarrow> readable crc f1"
    using commit_new_root_run [OF r0 c'(2), of crc "db_durability db"] by blast
  let ?db1 = "db\<lparr>db_next_table_id := ?id, db_file := f1, db_wal := w1\<rparr>"
  have "db_durability db \<noteq> NoLog" using d by (simp add: durable_def plain_def)
  from keepsD [OF commit_new_root_keeps [OF this] d s1(1)] have "durable crc ?db1" .
  moreover have "tm_cipher ?m = None" by (simp add: new_meta_def table_meta_new_def)
  ultimately have d2: "durable crc (?db1\<lparr>db_tables := ?ts\<rparr>)"
    using keeps_set_meta [of ?m crc name] by (auto simp: keeps_def set_meta_def)
  let ?db2 = "?db1\<lparr>db_tables := ?ts\<rparr>"
  have r2: "handle_ready ?k ?db2"
    using s1(2,4,6) c'(5) durable_room [OF d2, of "guard_next f1 + ?k"] by (simp add: handle_ready_def max_def split: if_splits)
  have "\<exists>f' w'. persist crc ?db2 = (Inr (), ?db2\<lparr>db_file := f', db_wal := w'\<rparr>) \<and> guard_clean f'
    \<and> (\<exists>R. registry_in (view_page crc f') R (map snd (db_tables ?db2)) (db_next_table_id ?db2) \<and> (\<forall>n \<in> R. n = 0 \<or> guard_next (db_file ?db2) \<le> unat n))
    \<and> guard_next (db_file ?db2) \<le> guard_next f'
    \<and> guard_next f' \<le> guard_next (db_file ?db2) + registry_pages (map snd (db_tables ?db2)) (db_next_table_id ?db2)
    \<and> unat (wal_entry_count w') \<le> unat (wal_entry_count (db_wal ?db2)) + guard_next (db_file ?db2) + registry_pages (map snd (db_tables ?db2)) (db_next_table_id ?db2)
    \<and> (\<forall>n. n \<noteq> 0 \<longrightarrow> unat n < guard_next (db_file ?db2) \<longrightarrow> guard_view crc f' n = guard_view crc (db_file ?db2) n)
    \<and> (tidy crc {0} (db_file ?db2) \<longrightarrow> tidy crc {} f') \<and> (readable crc (db_file ?db2) \<longrightarrow> readable crc f')"
    by (rule persist_run) (use r2 c'(4) s1(4) in \<open>simp_all del: map_update\<close>)
  then obtain f' w' R where p: "persist crc ?db2 = (Inr (), ?db2\<lparr>db_file := f', db_wal := w'\<rparr>)" "guard_clean f'"
    "registry_in (view_page crc f') R (map snd ?ts) ?id" "\<forall>n \<in> R. n = 0 \<or> guard_next f1 \<le> unat n" "guard_next f1 \<le> guard_next f'"
    "\<forall>n. n \<noteq> 0 \<longrightarrow> unat n < guard_next f1 \<longrightarrow> guard_view crc f' n = guard_view crc f1 n"
    "tidy crc {0} f1 \<longrightarrow> tidy crc {} f'" "readable crc f1 \<longrightarrow> readable crc f'"
    "unat (wal_entry_count w') \<le> unat (wal_entry_count w1) + guard_next f1 + ?k" "guard_next f' \<le> guard_next f1 + ?k" by auto
  let ?db' = "?db2\<lparr>db_file := f', db_wal := w'\<rparr>"
  have run: "create_table crc name columns db = (Inr (), ?db')"
    using c'(1) s1(1) p(1) by (simp add: create_table_def sm_bind_view sm_bind_Inr [where m = "commit_new_root crc (db_durability db)"] new_meta_def)
  have d': "durable crc ?db'" by (rule keepsD [OF keeps_persist d2 p(1)])
  have root: "next_root db \<noteq> 0" "unat (next_root db) < guard_next f1"
    using s1(3) by (simp_all add: tree_in_def row_tree_def tree_pages_def)
  have t: "tree_in crc f' {} (BLeaf (next_root db) [])" using tree_in_frame(1) [OF s1(3)] p(5,6) root by (simp add: tree_pages_def)
  have "table_open crc ?db' name ?m [] (BLeaf (next_root db) []) {} []"
    using t p(2) by (simp add: table_open_def table_in_def new_meta_def table_meta_new_def unlocked_def with_roots_def indexes_in_def
        table_of_def contents_def tree_rows_def update_conv' tree_in_def)
  moreover have "next_root db \<notin> R" using p(4) root by auto
  moreover have "\<forall>n \<in> R. n = 0 \<or> guard_next ?f \<le> unat n" using p(4) s1(4) by auto
  moreover have "view_page crc f' n = view_page crc ?f n" if "n \<noteq> 0" "n < page_count ?f" for n
  proof -
    have "unat n < guard_next ?f" using that(2) guard_clean_next [OF c'(3)] by (simp add: word_less_nat_alt)
    then show ?thesis
      using that(1) p(2,6) s1(4,5) c'(3) by (simp add: guard_clean_view [symmetric, of _ crc])
  qed
  moreover have "whole crc f'" if "whole crc ?f"
    using that s1(7,8) p(7,8) tidy_mono [of crc "{}" ?f "{0}"] by (simp add: whole_def)
  moreover have "0 < ?k" by (simp add: registry_pages_def)
  then have "guard_next f' \<le> guard_next ?f + ?k + 2" "unat (wal_entry_count w') < unat (wal_entry_count (db_wal db)) + 2 * (guard_next ?f + ?k + 2)"
    using p(9,10) s1(4,6) by (auto simp: max_def split: if_splits)
  ultimately show ?thesis using run p(3) d' by (intro exI [of _ ?db'] exI [of _ R]) (simp add: Let_def)
qed

end
