(* ===== verification/Whole_Files.thy ===== *)
theory Whole_Files
  imports Registry
begin

text \<open>
  Operations that succeed leave a file without gaps: every page can be read and carries a valid
  checksum. The rules follow the structure of the operations, as those of \<open>keeps\<close> do.
\<close>

section \<open>Operations that seal\<close>

definition seals :: "crc_fn \<Rightarrow> 'a dbop \<Rightarrow> bool" where
  "seals crc m \<longleftrightarrow> keeps crc m \<and> (\<forall>db x db'. durable crc db \<longrightarrow> whole crc (db_file db) \<longrightarrow> m db = (Inr x, db') \<longrightarrow> whole crc (db_file db'))"

named_theorems seal_intros \<open>operations that seal\<close>

lemma sealsD: "seals crc m \<Longrightarrow> durable crc db \<Longrightarrow> whole crc (db_file db) \<Longrightarrow> m db = (Inr x, db') \<Longrightarrow> whole crc (db_file db')"
  unfolding seals_def by blast

lemma seals_keeps: "seals crc m \<Longrightarrow> keeps crc m"
  by (simp add: seals_def)

lemma seals_pure [seal_intros]: "seals crc (sm_ret x)" "seals crc (sm_lift r)" "seals crc (sm_view v)"
  by (auto simp: seals_def keeps_pure sm_ret_def sm_lift_def sm_view_def)

lemma seals_bind:
  assumes m: "seals crc m" and k: "\<And>x db db'. durable crc db \<Longrightarrow> m db = (Inr x, db') \<Longrightarrow> seals crc (k x)"
  shows "seals crc (sm_bind m k)"
  unfolding seals_def
proof (intro conjI allI impI)
  show "keeps crc (sm_bind m k)" by (rule keeps_bind [OF seals_keeps [OF m] seals_keeps [OF k]])
  fix db y db' assume db: "durable crc db" "whole crc (db_file db)" "sm_bind m k db = (Inr y, db')"
  then obtain x db1 where s: "m db = (Inr x, db1)" "k x db1 = (Inr y, db')" by (auto simp: sm_bind_eq_Inr)
  have "durable crc db1" by (rule keepsD [OF seals_keeps [OF m] db(1) s(1)])
  then show "whole crc (db_file db')" using sealsD [OF k [OF db(1) s(1)]] sealsD [OF m db(1,2) s(1)] s(2) by blast
qed

lemma seals_seq [seal_intros]: "seals crc m \<Longrightarrow> (\<And>x. seals crc (k x)) \<Longrightarrow> seals crc (sm_bind m k)"
  by (rule seals_bind)

lemma seals_if [seal_intros]: "(b \<Longrightarrow> seals crc m) \<Longrightarrow> (\<not> b \<Longrightarrow> seals crc m') \<Longrightarrow> seals crc (if b then m else m')"
  by simp

lemma seals_let [seal_intros]: "seals crc (m v) \<Longrightarrow> seals crc (let x = v in m x)"
  by simp

lemma seals_option [seal_intros]:
  "seals crc m \<Longrightarrow> (\<And>x. seals crc (k x)) \<Longrightarrow> seals crc (case o' of None \<Rightarrow> m | Some x \<Rightarrow> k x)"
  by (cases o') simp_all

lemma seals_result [seal_intros]:
  "(\<And>e. seals crc (a e)) \<Longrightarrow> seals crc b \<Longrightarrow> (\<And>x. seals crc (c x)) \<Longrightarrow>
     seals crc (case r of Inl (Fail e) \<Rightarrow> a e | Inl Panicked \<Rightarrow> b | Inr x \<Rightarrow> c x)"
  by (simp split: sum.split fault.split)

lemma seals_fold [seal_intros]: "(\<And>x. seals crc (m x)) \<Longrightarrow> seals crc (sm_fold m xs)"
  by (induction xs) (simp_all add: seal_intros)

lemma seals_table:
  assumes "\<And>m. tm_cipher m = None \<Longrightarrow> seals crc (k m)"
  shows "seals crc (sm_bind (sm_view (table_of t)) k)"
  by (rule seals_bind [OF seals_pure(3)]) (auto intro: assms plain_table)

lemma seals_open_table:
  assumes "\<And>m. tm_cipher m = None \<Longrightarrow> seals crc (k m)"
  shows "seals crc (sm_bind (open_table t) k)"
proof (rule seals_bind)
  show "seals crc (open_table t)" unfolding open_table_def by (intro seal_intros)
  fix m db db' assume "durable crc db" "open_table t db = (Inr m, db')"
  then show "seals crc (k m)"
    by (intro assms) (auto simp: open_table_def sm_bind_def sm_view_def sm_lift_def sm_ret_def plain_table split: sum.splits)
qed

lemma seals_durability:
  assumes "\<And>d. d \<noteq> NoLog \<Longrightarrow> seals crc (k d)"
  shows "seals crc (sm_bind (sm_view (\<lambda>db. Inr (db_durability db))) k)"
  by (rule seals_bind [OF seals_pure(3)]) (auto intro: assms simp: durable_def plain_def)

lemma seals_set_meta: "tm_cipher m = None \<Longrightarrow> seals crc (set_meta t m)"
  using keeps_set_meta [of m crc t] by (auto simp: seals_def set_meta_def)

lemma seals_on_file [seal_intros]:
  assumes "\<And>f. safe_at crc f m" "\<And>f S. tidies crc S S f m"
  shows "seals crc (on_file m)"
  unfolding seals_def
proof (intro conjI allI impI)
  show "keeps crc (on_file m)" by (rule keeps_on_file [OF assms])
  fix db x db' assume db: "durable crc db" "whole crc (db_file db)" "on_file m db = (Inr x, db')"
  then obtain f' where f': "m (db_file db) = (Inr x, f')" "db_file db' = f'" by (auto simp: on_file_def split: prod.splits)
  have "guard_step crc (db_file db) f'" using assms(1) [of "db_file db"] db(1) f'(1) by (simp add: safe_at_def durable_def file_sound_def)
  then show "whole crc (db_file db')"
    using assms(2) [of "{}" "db_file db"] db(2) f' readable_step [of crc "db_file db" f'] by (simp add: whole_def tidies_def)
qed

lemma seals_commit:
  assumes "dur \<noteq> NoLog" "c = None"
  shows "seals crc (commit_write crc dur t c)"
  unfolding seals_def
proof (intro conjI allI impI)
  show "keeps crc (commit_write crc dur t c)" by (rule keeps_commit_plain [OF assms])
  fix db x db' assume db: "durable crc db" "whole crc (db_file db)" "commit_write crc dur t c db = (Inr x, db')"
  have g: "guard_ok (db_file db)" using db(1) by (simp add: durable_def file_sound_def)
  have run: "commit_write crc dur t None db = (Inr (), db')" using db(3) assms(2) by simp
  from commit_guard_outcome [OF g, of crc "{}"] show "whole crc (db_file db')"
  proof (elim disjE exE conjE)
    assume "commit_guard (db_file db) = (Inl Panicked, db_file db)"
    then show ?thesis using run by (simp add: commit_write_def sm_bind_def on_file_def)
  next
    fix f' assume f': "commit_guard (db_file db) = (Inr (pf_dirty (db_file db)), f')" "guard_clean f'"
      "view_page crc f' = guard_view crc (db_file db)" "guard_next f' = guard_next (db_file db)"
    have "db_file (snd (commit_write crc dur t None db)) = f'"
      using f'(1) by (simp add: commit_write_def on_file_bind [where m = commit_guard] log_images_file split: durability.split)
    then have "db_file db' = f'" using run by simp
    then show ?thesis
      using commit_tidy [OF run g, of "{}"] readable_commit [OF g _ f'(2-4)] db(2) by (simp add: whole_def)
  qed
qed

section \<open>The row operations\<close>

lemma index_update_one_seals [seal_intros]: "seals crc (index_update_one crc t rid b rm i)"
  unfolding index_update_one_def
proof (rule seals_table)
  fix m :: table_meta assume m: "tm_cipher m = None"
  have "tm_cipher (set_index_root i root m) = None" for root using m by (simp add: set_index_root_def)
  then show "seals crc (let idx = tm_indexes m ! i in sm_bind (sm_lift (index_key_of m idx rid b)) (\<lambda>key.
      case key of None \<Rightarrow> sm_ret () | Some k \<Rightarrow> sm_bind (on_file (if rm
             then sm_bind (idx_delete crc (im_root_page idx) k) (\<lambda>_. sm_ret (im_root_page idx))
             else idx_insert crc (im_root_page idx) k)) (\<lambda>root. set_meta t (set_index_root i root m))))"
    by (intro seal_intros seals_set_meta safe tidy_intros)
qed

lemma index_update_row_seals [seal_intros]: "seals crc (index_update_row crc t rid b rm)"
  unfolding index_update_row_def by (intro seal_intros)

lemma store_row_seals [seal_intros]: "dur \<noteq> NoLog \<Longrightarrow> seals crc (store_row crc dur t rid b)"
  unfolding store_row_def
  by (rule seals_table) (intro seal_intros seals_commit seals_set_meta safe tidy_intros; simp)

lemma bump_row_count_seals [seal_intros]: "seals crc (bump_row_count t)"
  unfolding bump_row_count_def by (rule seals_table) (intro seal_intros seals_set_meta, simp)

lemma insert_direct_seals [seal_intros]: "seals crc (insert_direct crc t data)"
  unfolding insert_direct_def Let_def
  by (rule seals_open_table) (intro seal_intros seals_durability seals_set_meta; simp)

lemma insert_with_id_direct_seals [seal_intros]: "seals crc (insert_with_id_direct crc t rid data)"
  unfolding insert_with_id_direct_def Let_def
  by (rule seals_open_table) (intro seal_intros seals_durability seals_set_meta; simp)

lemma update_direct_seals [seal_intros]: "seals crc (update_direct crc t rid fs)"
  unfolding update_direct_def Let_def
  by (rule seals_open_table)
    (intro seal_intros seals_durability seals_table seals_commit seals_set_meta safe tidy_intros; simp)

lemma delete_direct_seals [seal_intros]: "seals crc (delete_direct crc t rid)"
  unfolding delete_direct_def
  by (rule seals_open_table)
    (intro seal_intros seals_durability seals_table seals_commit seals_set_meta safe tidy_intros; simp)

end
