(* ===== verification/Crash_Properties.thy ===== *)
theory Crash_Properties
  imports Whole_Files Row_Properties
begin

text \<open>
  What the recovery promises, and what it does not: the properties of opening, closing and crashing,
  with a new database and its first table as witnesses.
\<close>

section \<open>Reopening\<close>

text \<open>A state whose registry on the pages is the one in memory, or was when it was last persisted.\<close>

definition named :: "(rstring \<times> table_meta) list \<Rightarrow> bool" where
  "named ts \<longleftrightarrow> distinct (map fst ts) \<and> (\<forall>(n, m) \<in> set ts. tm_name m = n)"

lemma view_below: "view_page crc f n = Inr p \<Longrightarrow> n < page_count f"
  by (auto simp: view_page_eq page_count_def not_le split: if_splits)

text \<open>Opening finds every page of a reader that is on disk with a valid checksum, and the registry in them.\<close>

lemma open_registry:
  assumes i: "files_hold crc ims fs0" and rd: "\<forall>n p. rd n = Inr p \<longrightarrow> sealed crc p \<and> page_on_disk (fs_data fs0) ims n = Some p"
    and reg: "registry_in rd R metas nid"
  shows "\<exists>db' fs. db_open crc fs0 = Some (Inr db', fs)
    \<and> db_tables db' = load_tables (map locked metas) \<and> db_next_table_id db' = nid
    \<and> db_durability db' = Normal \<and> db_max_row_size db' = 10485760
    \<and> (\<forall>n p. rd n = Inr p \<longrightarrow> view_page crc (db_file db') n = Inr p) \<and> guard_clean (db_file db') \<and> durable crc db'"
proof -
  obtain d' w' where o: "length d' div PAGE_SIZE < 2 ^ 32" "holds crc w' []"
    "db_open crc fs0 = map_option (\<lambda>r. (r, \<lparr>fs_data = d', fs_wal = wal_file w'\<rparr>)) (load_registry crc (page_file_open d') w')"
    "\<forall>n p. page_on_disk (fs_data fs0) ims n = Some p \<longrightarrow> view_page crc (page_file_open d') n = page_from_bytes crc p"
    using open_run [OF i(1)] by auto
  have v: "view_page crc (page_file_open d') n = Inr p" if "rd n = Inr p" for n p
    using rd o(4) sealed_read that by metis
  obtain p0 where p0: "rd 0 = Inr p0" "flags p0 = PAGE_SYSTEM"
    "\<forall>rd'. (\<forall>n \<in> R. rd' n = rd n) \<longrightarrow> deserialize_system_page p0 rd' = Some (Inr (map locked metas, nid))"
    and R: "\<forall>n \<in> R. \<exists>p. rd n = Inr p"
    using reg by (auto simp: registry_in_def)
  obtain f where f: "read_page crc 0 (page_file_open d') = (Inr p0, f)" "view_page crc f = view_page crc (page_file_open d')"
    using read_page_run [of crc 0 "page_file_open d'"] v [OF p0(1)] by auto
  have "\<forall>n \<in> R. view_page crc f n = rd n" using R v f(2) by fastforce
  then have "deserialize_system_page p0 (view_page crc f) = Some (Inr (map locked metas, nid))" using p0(3) by blast
  moreover have "0 < page_count (page_file_open d')" by (rule view_below [OF v [OF p0(1)]])
  ultimately have l: "load_registry crc (page_file_open d') w' = Some (Inr (new_database f w' (load_tables (map locked metas)) nid))"
    using f(1) p0(2) by (simp add: load_registry_def)
  let ?db = "new_database f w' (load_tables (map locked metas)) nid"
  have op: "db_open crc fs0 = Some (Inr ?db, \<lparr>fs_data = d', fs_wal = wal_file w'\<rparr>)"
    using o(3) l by simp
  from open_durable [OF i(1) op] have "durable crc ?db" "guard_clean (db_file ?db)" by blast+
  then show ?thesis using op v f(2) by (intro exI [of _ ?db] exI [of _ "\<lparr>fs_data = d', fs_wal = wal_file w'\<rparr>"]) (simp add: new_database_def)
qed

lemma reopen_registry:
  assumes d: "durable crc db" and ok: "\<not> log_full db" "whole crc (db_file db)" "guard_clean (db_file db)"
    and reg: "registry_in (view_page crc (db_file db)) R metas nid" and wb: "crashed_log crc (db_wal db) wb"
  shows "\<exists>db' fs. db_open crc \<lparr>fs_data = pf_disk (db_file db), fs_wal = wb\<rparr> = Some (Inr db', fs)
    \<and> db_tables db' = load_tables (map locked metas) \<and> db_next_table_id db' = nid
    \<and> db_durability db' = Normal \<and> db_max_row_size db' = 10485760
    \<and> (\<forall>n p. view_page crc (db_file db) n = Inr p \<longrightarrow> view_page crc (db_file db') n = Inr p)
    \<and> guard_clean (db_file db') \<and> durable crc db'"
proof -
  obtain ims where i: "files_hold crc ims \<lparr>fs_data = pf_disk (db_file db), fs_wal = wb\<rparr>" "pages_logged crc ims (db_file db)"
    using crash_files [OF d wb] ok(1) by blast
  have "sealed crc p \<and> page_on_disk (pf_disk (db_file db)) ims n = Some p" if "view_page crc (db_file db) n = Inr p" for n p
    using ok(2) that guard_clean_view [OF ok(3), of crc] i(2) by (simp add: whole_def tidy_def pages_logged_def)
  then show ?thesis using open_registry [OF i(1) _ reg] by simp
qed

text \<open>The tables of the registry by name.\<close>

lemma load_tables_map:
  assumes "distinct (map tm_name metas)"
  shows "map_of (load_tables metas) n = find (\<lambda>m. tm_name m = n) metas"
proof -
  have "map_of (fold (\<lambda>m. AList.update (tm_name m) m) metas acc) n
      = (case find (\<lambda>m. tm_name m = n) metas of Some m \<Rightarrow> Some m | None \<Rightarrow> map_of acc n)"
    if "distinct (map tm_name metas)" for acc
    using that
  proof (induction metas arbitrary: acc)
    case (Cons m metas)
    have IH: "map_of (fold (\<lambda>m. AList.update (tm_name m) m) metas (AList.update (tm_name m) m acc)) n
        = (case find (\<lambda>m. tm_name m = n) metas of Some m \<Rightarrow> Some m | None \<Rightarrow> map_of (AList.update (tm_name m) m acc) n)"
      using Cons by simp
    show ?case
    proof (cases "tm_name m = n")
      case True
      then have "find (\<lambda>m. tm_name m = n) metas = None" using Cons.prems by (auto simp: find_None_iff image_iff)
      then show ?thesis using IH True by (simp add: update_conv')
    next
      case False
      then show ?thesis using IH by (simp add: update_conv' split: option.split)
    qed
  qed simp
  then show ?thesis using assms by (simp add: load_tables_def split: option.split)
qed

lemma find_named: "named ts \<Longrightarrow> find (\<lambda>m. tm_name m = n) (map (\<lambda>x. locked (snd x)) ts) = map_option locked (map_of ts n)"
  by (induction ts) (auto simp: named_def locked_def)

lemma load_named:
  assumes "named ts"
  shows "map_of (load_tables (map locked (map snd ts))) n = map_option locked (map_of ts n)"
proof -
  have "map tm_name (map locked (map snd ts)) = map fst ts"
    using assms by (auto simp: named_def locked_def intro!: map_cong)
  then have "distinct (map tm_name (map locked (map snd ts)))" using assms unfolding named_def by metis
  from load_tables_map [OF this] find_named [OF assms] show ?thesis by (simp add: comp_def)
qed

lemma locked_plain: "tm_cipher m = None \<Longrightarrow> locked m = m"
  by (simp add: locked_def)

text \<open>A table in order is in order in every handle that sees its pages.\<close>

lemma len32: "2 ^ LENGTH(32) = (4294967296 :: nat)"
  by simp

lemma readable_next:
  assumes "guard_clean f" "readable crc f" "\<forall>n p. view_page crc f n = Inr p \<longrightarrow> view_page crc f' n = Inr p"
  shows "guard_next f \<le> guard_next f'"
proof (cases "page_count f = 0")
  case False
  define n :: u32 where "n = of_nat (unat (page_count f) - 1)"
  have "unat (page_count f) < 4294967296" by (rule unat_u32_lt)
  then have "unat (page_count f) - 1 < 2 ^ LENGTH(32)" by (simp only: len32)
  then have n: "unat n = unat (page_count f) - 1" "0 < unat (page_count f)" using False unfolding n_def by (simp_all add: unat_gt_0 unsigned_of_nat take_bit_nat_eq_self)
  then have "n < page_count f" by (simp add: word_less_nat_alt)
  then obtain p where "view_page crc f' n = Inr p" using assms(2,3) by (auto simp: readable_def)
  from view_below [OF this] have "unat (page_count f) \<le> unat (page_count f')"
    using n by (simp add: word_less_nat_alt)
  then show ?thesis using guard_clean_next [OF assms(1)] by (simp add: page_count_def guard_next_def)
qed (simp add: guard_clean_next [OF assms(1)])

lemma table_seen:
  assumes o: "table_open crc db table m cs t P its" and r: "readable crc (db_file db)"
    and v: "\<forall>n p. view_page crc (db_file db) n = Inr p \<longrightarrow> view_page crc (db_file db') n = Inr p"
    and db': "table_of table db' = Inr m" "guard_clean (db_file db')"
  shows "table_open crc db' table m cs t P its"
proof -
  note o' = o [unfolded table_open_def]
  have c: "guard_clean (db_file db)" using o' by blast
  note vs = guard_clean_view [OF c, of crc] guard_clean_view [OF db'(2), of crc]
  have same: "guard_view crc (db_file db') n = guard_view crc (db_file db) n" if "n \<in> table_pages t P its" for n
  proof -
    have "unat n < guard_next (db_file db)"
      using that o' indexes_in_apart(2) by (fastforce simp: table_in_def table_pages_def tree_in_def)
    then have "n < page_count (db_file db)" using guard_clean_next [OF c] by (simp add: word_less_nat_alt)
    then show ?thesis using r v vs by (force simp: readable_def)
  qed
  have "table_in crc (db_file db') m cs t P its"
    using table_in_frame [of crc "db_file db" m cs t P its] same readable_next [OF c r v] o' by blast
  then show ?thesis using o' db' by (simp add: table_open_def)
qed

section \<open>A new database\<close>

definition fresh_wal :: wal where
  "fresh_wal = \<lparr>wal_file = header_bytes 0, wal_next_sequence = 1, wal_entry_count = 0\<rparr>"

definition fresh_db :: database where
  "fresh_db = new_database (page_file_open []) fresh_wal [] 1"

lemma fresh_open: "db_open crc \<lparr>fs_data = [], fs_wal = []\<rparr> = Some (Inr fresh_db, \<lparr>fs_data = [], fs_wal = wal_file fresh_wal\<rparr>)"
proof -
  have w: "wal_open [] = Inr fresh_wal"
    by (simp add: wal_open_def write_header_def fresh_wal_def wal_header_eq disk_write_def blit_def)
  have "wal_open (wal_file fresh_wal) = Inr fresh_wal"
    using reopen_holds [of crc fresh_wal "[]"] by (simp add: holds_def fresh_wal_def images_ok_def log_bytes_def)
  moreover have "recover crc \<lparr>fs_data = [], fs_wal = []\<rparr> = (Inr (), \<lparr>fs_data = [], fs_wal = wal_file fresh_wal\<rparr>)"
    using w by (simp add: recover_def) (simp add: fresh_wal_def)
  ultimately show ?thesis
    by (simp add: db_open_def load_registry_def fresh_db_def Let_def) (simp add: page_file_open_def page_count_def)
qed

text \<open>The overlay of the first table's creation.\<close>

lemma first_overlay: "with_page0 (btree_create crc) (page_file_open [])
    = (Inr 1, (page_file_open [])\<lparr>pf_new_count := 2, pf_dirty := [(0, page_default), (1, new_leaf crc)]\<rparr>)"
proof -
  have "page_count (page_file_open []) = 0" by (simp add: page_file_open_def page_count_def)
  then show ?thesis
    by (simp add: with_page0_def btree_create_def sm_bind_def allocate_page_def put_page_def page_count_def page_file_open_def Let_def sm_ret_def)
qed

lemma fresh_db_reach: "db_reach crc fresh_db"
  by (rule db_reach.New [OF fresh_open])

lemma fresh_durable: "durable crc fresh_db"
  by (rule reach_durable [OF fresh_db_reach])

lemma fresh_simps [simp]:
  "guard_next (db_file fresh_db) = 0" "guard_clean (db_file fresh_db)" "db_tables fresh_db = []" "db_next_table_id fresh_db = 1"
  "wal_entry_count (db_wal fresh_db) = 0" "whole crc (db_file fresh_db)" "next_root fresh_db = 1" "page_count (db_file fresh_db) = 0"
  by (auto simp: fresh_db_def new_database_def page_file_open_def guard_next_def guard_clean_def fresh_wal_def whole_def tidy_def
      cache_ok_def readable_def page_count_def guard_view_def view_page_eq next_root_def)

text \<open>Its first table: the columns of the sample.\<close>

abbreviation first_columns :: "column_def list" where
  "first_columns \<equiv> [column_new [98] TBlob, column_new [110] TInteger]"

lemma first_new_meta: "new_meta fresh_db [84] first_columns = table_meta_new [84] 1 first_columns 1"
  by (simp add: new_meta_def)

lemma first_fits: "registry_fits [table_meta_new [84] 1 first_columns 1] 2 \<and> registry_pages [table_meta_new [84] 1 first_columns 1] 2 < 1000"
proof -
  let ?m = "table_meta_new [84] 1 first_columns 1"
  have "meta_ok ?m" by (rule table_meta_new_ok) (simp add: columns_ok_def column_new_def)
  then have ok: "table_ok ?m"
    by (simp add: table_ok_def table_meta_new_def column_ok_def str_ok_def column_new_def)
  have len: "length (serialize_system_metas [?m] 2) < 1000"
    by (simp add: serialize_system_metas_def put_table_def put_column_def put_index_def put_str_def table_meta_new_def column_new_def Let_def)
  then have "length (serialize_system_metas [?m] 2) div OVERFLOW_PAYLOAD_MAX = 0" by simp
  then show ?thesis using ok len by (simp add: registry_fits_def registry_pages_def)
qed

lemma first_can_create: "can_create fresh_db [84] first_columns"
  using first_fits by (simp add: can_create_def Let_def first_new_meta)

section \<open>A clean shutdown\<close>

text \<open>A page that can be read from a file without overlay is in the cache or on disk.\<close>

lemma viewed_on_disk:
  assumes s: "file_sound crc f" and v: "view_page crc f n = Inr p" and d: "sync_all f = (Inr (), f\<lparr>pf_disk := d\<rparr>)"
  shows "raw_page d (unat n) = Some p"
proof -
  obtain d' where d': "sync_all f = (Inr (), f\<lparr>pf_disk := d'\<rparr>)"
    "\<forall>n p. page_on_disk (pf_disk f) [] n = Some p \<longrightarrow> cache_get (pf_pages f) n = None \<longrightarrow> raw_page d' (unat n) = Some p"
    "\<forall>n p. cache_get (pf_pages f) n = Some p \<longrightarrow> raw_page d' (unat n) = Some p"
    using sync_all_run [OF s] by blast
  have "pf_disk (f\<lparr>pf_disk := d\<rparr>) = pf_disk (f\<lparr>pf_disk := d'\<rparr>)" using d d'(1) by simp
  then have eq: "d' = d" by simp
  show ?thesis
  proof (cases "cache_get (pf_pages f) n")
    case None
    then have "read_page_from_disk crc f n = Inr p" using v by (auto simp: view_page_eq split: if_splits)
    then have "read_page_raw f n = Inr p" using s
      by (auto simp: read_page_from_disk_def res_bind_eq_Inr page_from_bytes_eq file_sound_def)
    then have "raw_page (pf_disk f) (unat n) = Some p" by (auto simp: read_page_raw_def raw_page_def Let_def split: if_splits)
    then show ?thesis using d'(2) None eq by (simp add: page_on_disk_def)
  next
    case (Some q)
    then have "q = p" using v by (auto simp: view_page_eq split: if_splits)
    then show ?thesis using d'(3) Some eq by simp
  qed
qed

lemma close_pages_run:
  assumes ok: "guard_clean f" and fits: "registry_fits metas nid" "max 1 (guard_next f) + registry_pages metas nid < 2 ^ 32"
    and w: "whole crc f"
  shows "\<exists>f' R. close_pages crc metas nid f = (Inr (), f') \<and> guard_next f' < 2 ^ 32 \<and> registry_in (guard_view crc f') R metas nid
    \<and> (\<forall>n. n \<noteq> 0 \<longrightarrow> n < page_count f \<longrightarrow> guard_view crc f' n = view_page crc f n) \<and> tidy crc {} f'"
proof (cases "page_count f = 0")
  case True
  then have z: "guard_next f = 0" using guard_clean_next [OF ok] by simp
  obtain f1 where f1: "allocate_page f = (Inr 0, f1)" "guard_next f1 = 1"
    using alloc_default_run [of f 0] z by auto
  have "tidies crc {0} {0} f (sm_bind allocate_page (\<lambda>_. sm_ret ()))"
    by (rule tidies_allocate) (use f1 in \<open>auto intro: tidies_pure\<close>)
  then have "tidy crc {0} f1" using w tidy_mono [of crc "{}" f "{0}"] f1(1) by (simp add: tidies_def whole_def sm_bind_def sm_ret_def)
  moreover have "guard_ok f1" using safe_allocate [of crc f] guard_clean_ok [OF ok] f1(1) by (simp add: safe_at_def)
  ultimately obtain f' R where "put_registry crc metas nid f1 = (Inr (), f')" "guard_next f' \<le> guard_next f1 + registry_pages metas nid"
    "registry_in (guard_view crc f') R metas nid" "tidy crc {} f'"
    using put_registry_run [OF fits(1), of f1 crc] fits(2) f1(2) z by auto
  then show ?thesis using f1 fits(2) z True
    by (intro exI [of _ f'] exI [of _ R]) (simp add: close_pages_def sm_bind_def sm_ignore_def)
next
  case False
  then have n: "0 < guard_next f" using guard_clean_next [OF ok] by (simp add: unat_gt_0)
  obtain f' R where p: "put_registry crc metas nid f = (Inr (), f')" "guard_next f' \<le> guard_next f + registry_pages metas nid"
    "registry_in (guard_view crc f') R metas nid" "tidy crc {0} f \<longrightarrow> tidy crc {} f'"
    "\<forall>n. n \<noteq> 0 \<longrightarrow> unat n < guard_next f \<longrightarrow> guard_view crc f' n = guard_view crc f n"
    using put_registry_run [OF fits(1) n, of crc] fits(2) guard_clean_ok [OF ok] n by (auto simp: max_def split: if_splits)
  moreover have "tidy crc {0} f" using w tidy_mono by (fastforce simp: whole_def)
  ultimately show ?thesis using fits(2) n False guard_clean_next [OF ok] guard_clean_view [OF ok, of crc]
    by (intro exI [of _ f'] exI [of _ R]) (simp add: close_pages_def sm_bind_def sm_ignore_def word_less_nat_alt max_def split: if_splits)
qed

lemma close_open_run:
  assumes d: "durable crc db" and ok: "guard_clean (db_file db)" "whole crc (db_file db)"
    and fits: "registry_fits (map snd (db_tables db)) (db_next_table_id db)"
      "max 1 (guard_next (db_file db)) + registry_pages (map snd (db_tables db)) (db_next_table_id db) < 2 ^ 32"
  shows "\<exists>db1 db2 fs. db_close crc db = (Inr (), db1) \<and> db_open crc (db_files db1) = Some (Inr db2, fs)
    \<and> db_tables db2 = load_tables (map locked (map snd (db_tables db))) \<and> db_next_table_id db2 = db_next_table_id db
    \<and> (\<forall>n p. n \<noteq> 0 \<longrightarrow> view_page crc (db_file db) n = Inr p \<longrightarrow> view_page crc (db_file db2) n = Inr p)
    \<and> guard_clean (db_file db2) \<and> durable crc db2"
proof -
  let ?f = "db_file db" and ?ms = "map snd (db_tables db)" and ?id = "db_next_table_id db"
  obtain f1 R where f1: "close_pages crc ?ms ?id ?f = (Inr (), f1)" "guard_next f1 < 2 ^ 32" "registry_in (guard_view crc f1) R ?ms ?id"
    "\<forall>n. n \<noteq> 0 \<longrightarrow> n < page_count ?f \<longrightarrow> guard_view crc f1 n = view_page crc ?f n" "tidy crc {} f1"
    using close_pages_run [OF ok(1) fits ok(2)] by blast
  have d1: "durable crc (db\<lparr>db_file := f1\<rparr>)"
    using keepsD [OF keeps_on_file [of crc "close_pages crc ?ms ?id", OF close_pages_safe close_pages_tidy] d] f1(1) by (simp add: on_file_def)
  then have g1: "guard_ok f1" by (simp add: durable_def file_sound_def)
  obtain f2 where f2: "commit_guard f1 = (Inr (pf_dirty f1), f2)" "guard_clean f2" "view_page crc f2 = guard_view crc f1"
    "on_disk f2 = on_disk f1" "tidy crc {} f2" "tidy crc UNIV f2"
    using commit_guard_outcome [OF g1, of crc "{}"] commit_guard_run [OF g1 f1(2), of crc] f1(5) tidy_UNIV by auto
  have s2: "file_sound crc f2"
    using d1 f2(4,6) guard_clean_ok [OF f2(2)] by (auto simp: durable_def file_sound_def on_disk_def)
  obtain d where sy: "sync_all f2 = (Inr (), f2\<lparr>pf_disk := d\<rparr>)" "length d div PAGE_SIZE < 2 ^ 32" using sync_all_run [OF s2] by blast
  let ?db1 = "db\<lparr>db_file := f2\<lparr>pf_disk := d\<rparr>, db_wal := Wal_Log.truncate (db_wal db)\<rparr>"
  have cl: "db_close crc db = (Inr (), ?db1)"
    using f1(1) f2(1) sy(1) by (simp add: db_close_eq snapshot_table_metas_def sm_bind_def on_file_def on_wal_def sm_ignore_def)
  obtain ims where "holds crc (db_wal db) ims" using assms by (auto simp: durable_def)
  from truncate_holds [OF this] have w: "holds crc (Wal_Log.truncate (db_wal db)) []" .
  have files: "files_hold crc [] (db_files ?db1)"
    using w reopen_holds [OF w] sy(2) by (auto simp: files_hold_def db_files_def images_small_def)
  have rd: "sealed crc p \<and> page_on_disk (fs_data (db_files ?db1)) [] n = Some p" if "view_page crc f2 n = Inr p" for n p
    using viewed_on_disk [OF s2 that sy(1)] f2(5) that guard_clean_view [OF f2(2), of crc] by (simp add: db_files_def page_on_disk_def tidy_def)
  have reg: "registry_in (view_page crc f2) R ?ms ?id" using f1(3) f2(3) by simp
  obtain db2 fs where o: "db_open crc (db_files ?db1) = Some (Inr db2, fs)" "db_tables db2 = load_tables (map locked ?ms)" "db_next_table_id db2 = ?id"
    "\<forall>n p. view_page crc f2 n = Inr p \<longrightarrow> view_page crc (db_file db2) n = Inr p" "guard_clean (db_file db2)" "durable crc db2"
    using open_registry [OF files _ reg] rd by blast
  have "view_page crc (db_file db2) n = Inr p" if "n \<noteq> 0" "view_page crc ?f n = Inr p" for n p
    using that o(4) f1(4) f2(3) view_below [OF that(2)] by simp
  then show ?thesis using cl o by (intro exI [of _ ?db1] exI [of _ db2] exI [of _ fs]) simp
qed

lemma first_created:
  "\<exists>db R. create_table crc [84] first_columns fresh_db = (Inr (), db) \<and> db_reach crc db \<and> durable crc db
    \<and> db_tables db = [([84], table_meta_new [84] 1 first_columns 1)] \<and> db_next_table_id db = 2 \<and> db_max_row_size db = 10485760
    \<and> table_open crc db [84] (table_meta_new [84] 1 first_columns 1) [] (BLeaf 1 []) {} [] \<and> whole crc (db_file db)
    \<and> registry_in (view_page crc (db_file db)) R [table_meta_new [84] 1 first_columns 1] 2 \<and> 1 \<notin> R
    \<and> guard_next (db_file db) < 2000 \<and> unat (wal_entry_count (db_wal db)) < 4000"
proof -
  obtain db R where c: "create_table crc [84] first_columns fresh_db = (Inr (), db)" "durable crc db"
    "db_tables db = AList.update [84] (new_meta fresh_db [84] first_columns) (db_tables fresh_db)"
    "db_next_table_id db = db_next_table_id fresh_db + 1" "db_max_row_size db = db_max_row_size fresh_db"
    "table_open crc db [84] (new_meta fresh_db [84] first_columns) [] (BLeaf (next_root fresh_db) []) {} []"
    "registry_in (view_page crc (db_file db)) R (map snd (db_tables db)) (db_next_table_id db)"
    "next_root fresh_db \<notin> R" "whole crc (db_file fresh_db) \<longrightarrow> whole crc (db_file db)"
    "let k = guard_next (db_file fresh_db) + registry_pages (map snd (db_tables db)) (db_next_table_id db) + 2 in
         guard_next (db_file db) \<le> k \<and> unat (wal_entry_count (db_wal db)) < unat (wal_entry_count (db_wal fresh_db)) + 2 * k"
    using create_table_run [OF fresh_durable first_can_create, of crc] by blast
  have "db_reach crc (snd (run_request crc (Create_Table [84] first_columns) fresh_db))" by (rule db_reach.Request [OF fresh_db_reach])
  then have "db_reach crc db" using c(1) by simp
  moreover have "db_max_row_size fresh_db = 10485760" by (simp add: fresh_db_def new_database_def)
  moreover have "guard_next (db_file db) < 2000" "unat (wal_entry_count (db_wal db)) < 4000"
    using c(3,4,10) first_fits by (simp_all add: Let_def first_new_meta)
  ultimately show ?thesis using c(1-9) by (intro exI [of _ db] exI [of _ R]) (simp add: first_new_meta)
qed

lemma log_not_full: "unat (wal_entry_count (db_wal db)) < 4294967295 \<Longrightarrow> \<not> log_full db"
  using minus_one(1) by (auto simp: log_full_def)

text \<open>Its first row.\<close>

abbreviation first_meta :: table_meta where
  "first_meta \<equiv> table_meta_new [84] 1 first_columns 1"

lemma first_values: "row_values first_meta [([110], Integer i)] = sample_value i" "enforce_index_types first_meta fs = Inr ()"
  "enforce_unique_indexes crc f first_meta row = Inr ()"
  by (simp_all add: row_values_def map_filter_simps col_id_def table_meta_new_def hash_collect_def live_names_def column_new_def
      enforce_index_types_def enforce_unique_indexes_def)

lemma first_can_store:
  assumes "guard_next (db_file db) < 2000" "unat (wal_entry_count (db_wal db)) < 4000" "durable crc db"
  shows "can_store db first_meta (BLeaf 1 []) [] 1 (encode_row 1 (sample_value i))"
proof -
  have "row_cost (encode_row 1 (sample_value i)) (BLeaf 1 []) [] < 100" by (simp add: row_cost_def sample_row_storable)
  then show ?thesis
    using assms(1,2) durable_room [OF assms(3)] by (simp add: can_store_def sample_row_storable keys_short_def table_depth_def)
qed

section \<open>Insertion without indexes\<close>

lemma plain_insert_root:
  assumes o: "table_open crc db table m cs t P []" and row: "row = encode_row (tm_next_rowid m) (row_values m data)"
    and c: "can_store db m t [] (tm_next_rowid m) row" "tm_next_rowid m \<notin> fst ` set cs"
    and n: "tm_row_count m \<noteq> - 1" "tm_next_rowid m \<noteq> - 1"
    and chk: "enforce_index_types m data = Inr ()" "length row \<le> unat (db_max_row_size db)"
    and b: "fst (btree_insert crc (tm_root_page m) (tm_next_rowid m) row (db_file db)) = Inr root'"
    and i: "insert_direct crc table data db = (r, db1)"
  shows "table_of table db1 = Inr (m\<lparr>tm_next_rowid := tm_next_rowid m + 1, tm_root_page := root', tm_row_count := tm_row_count m + 1\<rparr>)
    \<and> unat (wal_entry_count (db_wal db1)) \<le> unat (wal_entry_count (db_wal db)) + (guard_next (db_file db) + row_budget row + height t)"
proof -
  note o' = o [unfolded table_open_def table_in_def] and c' = c(1) [unfolded can_store_def row_cost_def]
  obtain f1 where f1: "btree_insert crc (tm_root_page m) (tm_next_rowid m) row (db_file db) = (Inr root', f1)" using b by (metis prod.collapse)
  have g: "guard_ok (db_file db)" using o' guard_clean_ok by blast
  have ok1: "guard_ok f1" using btree_insert_safe [of crc "db_file db" "tm_root_page m" "tm_next_rowid m" row] g f1 by (simp add: safe_at_def)
  have h: "height t \<le> MAX_TREE_DEPTH" using c' by (simp add: table_depth_le)
  have new: "tm_next_rowid m \<notin> fst ` set (guard_contents crc (db_file db) t)" using c(2) o' by simp
  have sp: "guard_next (db_file db) + row_budget row + height t < 2 ^ 32 - 1" using c' by simp
  have tr: "tree_in crc (db_file db) P t" and st: "storable (tm_next_rowid m) row" "leaf_takes (tm_next_rowid m) row (snd (leaf_for t (tm_next_rowid m)))"
    and root: "root_of t = tm_root_page m" using o' c' by auto
  have nx: "guard_next f1 \<le> guard_next (db_file db) + row_budget row + height t"
    using btree_insert_run [OF tr h st new sp] f1 root by auto
  define m2 where "m2 = m\<lparr>tm_next_rowid := tm_next_rowid m + 1, tm_root_page := root'\<rparr>"
  have "\<exists>f' w'. commit_write crc (db_durability db) (tm_table_id m) None (db_at db table f1 m2)
      = (Inr (), (db_at db table f1 m2)\<lparr>db_file := f', db_wal := w'\<rparr>)
    \<and> guard_view crc f' = guard_view crc (db_file (db_at db table f1 m2)) \<and> guard_clean f' \<and> guard_next f' = guard_next (db_file (db_at db table f1 m2))
    \<and> unat (wal_entry_count w') = unat (wal_entry_count (db_wal (db_at db table f1 m2)))
        + (if db_durability db = NoLog then 0 else length (pf_dirty (db_file (db_at db table f1 m2))))"
    by (rule commit_write_run) (use ok1 nx c' sp in \<open>auto simp: log_room_def db_at_def\<close>)
  then obtain f' w' where cw: "commit_write crc (db_durability db) (tm_table_id m) None (db_at db table f1 m2)
      = (Inr (), (db_at db table f1 m2)\<lparr>db_file := f', db_wal := w'\<rparr>)"
    "unat (wal_entry_count w') \<le> unat (wal_entry_count (db_wal db)) + guard_next f1"
    using guard_ok_length [OF ok1] by (auto simp: db_at_def split: if_splits)
  have idx: "tm_indexes m = []" "tm_cipher m = None" using o' by (auto simp: unlocked_def)
  have "insert_direct crc table data db
      = sm_bind (store_row crc (db_durability db) table (tm_next_rowid m) row) (\<lambda>_. sm_bind (bump_row_count table) (\<lambda>_. sm_ret (tm_next_rowid m)))
          (db_at db table (db_file db) (m\<lparr>tm_next_rowid := tm_next_rowid m + 1\<rparr>))"
    using o' chk n row idx by (simp add: insert_direct_def sm_bind_view Let_def size_check_def db_at_def)
  also have "store_row crc (db_durability db) table (tm_next_rowid m) row (db_at db table (db_file db) (m\<lparr>tm_next_rowid := tm_next_rowid m + 1\<rparr>))
      = commit_write crc (db_durability db) (tm_table_id m) None (db_at db table f1 m2)"
    using f1 idx by (simp add: store_row_def sm_bind_view on_file_bind [where m = "btree_insert crc (tm_root_page m) (tm_next_rowid m) row"])
      (simp add: db_at_def m2_def)
  then have "sm_bind (store_row crc (db_durability db) table (tm_next_rowid m) row) (\<lambda>_. sm_bind (bump_row_count table) (\<lambda>_. sm_ret (tm_next_rowid m)))
          (db_at db table (db_file db) (m\<lparr>tm_next_rowid := tm_next_rowid m + 1\<rparr>))
      = sm_bind (bump_row_count table) (\<lambda>_. sm_ret (tm_next_rowid m)) ((db_at db table f' m2)\<lparr>db_wal := w'\<rparr>)"
    using cw(1) by (simp add: sm_bind_def db_at_file_update)
  finally have "insert_direct crc table data db = sm_bind (bump_row_count table) (\<lambda>_. sm_ret (tm_next_rowid m)) ((db_at db table f' m2)\<lparr>db_wal := w'\<rparr>)" .
  moreover have "tm_row_count m2 \<noteq> - 1" using n(1) by (simp add: m2_def)
  ultimately have "db1 = (db_at db table f' (m2\<lparr>tm_row_count := tm_row_count m2 + 1\<rparr>))\<lparr>db_wal := w'\<rparr>"
    using i bump_row_count_at [where m = m2] by (simp add: sm_bind_def)
  then show ?thesis using cw(2) nx by (simp add: m2_def)
qed

lemma crash_recovery:
  assumes d: "durable crc db" and n: "\<not> log_full db" and wb: "crashed_log crc (db_wal db) wb"
  shows "\<exists>fs. recover crc \<lparr>fs_data = pf_disk (db_file db), fs_wal = wb\<rparr> = (Inr (), fs)
    \<and> (\<forall>n p. view_page crc (db_file db) n = Inr p \<longrightarrow> view_page crc (page_file_open (fs_data fs)) n = page_from_bytes crc p)"
proof -
  let ?fs = "\<lparr>fs_data = pf_disk (db_file db), fs_wal = wb\<rparr>"
  obtain ims where i: "files_hold crc ims ?fs" "pages_logged crc ims (db_file db)"
    using crash_files [OF d wb] n by blast
  obtain d' and w' :: wal where "recover crc ?fs = (Inr (), \<lparr>fs_data = d', fs_wal = wal_file w'\<rparr>)"
    "\<forall>n p. page_on_disk (fs_data ?fs) ims n = Some p \<longrightarrow> view_page crc (page_file_open d') n = page_from_bytes crc p"
    using open_run [OF i(1)] by blast
  then show ?thesis using i(2) by (intro exI [of _ "\<lparr>fs_data = d', fs_wal = wal_file w'\<rparr>"]) (simp add: pages_logged_def)
qed

section \<open>Properties\<close>

text \<open>C6. A crash loses no published page. In every state the handle reaches from a new database by
  inserting, updating and deleting rows, creating and dropping tables, requests that fail included,
  by crashes and by clean shutdowns, unless the log is full: if the process dies there, even in the
  middle of the next log entry, the recovery succeeds and every page that could be read from memory
  is then on disk as it was, up to the checks that reading from disk makes.\<close>

theorem crash_recovers_pages:
  assumes "db_reach crc db" "wal_entry_count (db_wal db) \<noteq> - 1" "crashed_log crc (db_wal db) wb"
  shows "\<exists>fs. recover crc \<lparr>fs_data = pf_disk (db_file db), fs_wal = wb\<rparr> = (Inr (), fs)
    \<and> (\<forall>n p. view_page crc (db_file db) n = Inr p \<longrightarrow> view_page crc (page_file_open (fs_data fs)) n = page_from_bytes crc p)"
  by (rule crash_recovery [OF reach_durable [OF assms(1)] _ assms(3)]) (simp add: log_full_def assms(2))

lemma crash_recovers_pages_witness:
  "\<exists>db fs p. create_table (\<lambda>_. 0) [84] first_columns fresh_db = (Inr (), db)
    \<and> recover (\<lambda>_. 0) \<lparr>fs_data = pf_disk (db_file db), fs_wal = wal_file (db_wal db)\<rparr> = (Inr (), fs)
    \<and> view_page (\<lambda>_. 0) (db_file db) 1 = Inr p \<and> view_page (\<lambda>_. 0) (page_file_open (fs_data fs)) 1 = Inr p"
proof -
  obtain db where c: "create_table (\<lambda>_. 0) [84] first_columns fresh_db = (Inr (), db)" "db_reach (\<lambda>_. 0) db" "unat (wal_entry_count (db_wal db)) < 4000"
    "table_open (\<lambda>_. 0) db [84] (table_meta_new [84] 1 first_columns 1) [] (BLeaf 1 []) {} []" "whole (\<lambda>_. 0) (db_file db)"
    using first_created [of "\<lambda>_. 0"] by blast
  have full: "\<not> log_full db" by (rule log_not_full) (use c(3) in simp)
  have "crashed_log (\<lambda>_. 0) (db_wal db) (wal_file (db_wal db))" by (simp add: crashed_log_def)
  from crash_recovers_pages [OF c(2) _ this] full obtain fs where
    fs: "recover (\<lambda>_. 0) \<lparr>fs_data = pf_disk (db_file db), fs_wal = wal_file (db_wal db)\<rparr> = (Inr (), fs)"
    "\<forall>n p. view_page (\<lambda>_. 0) (db_file db) n = Inr p \<longrightarrow> view_page (\<lambda>_. 0) (page_file_open (fs_data fs)) n = page_from_bytes (\<lambda>_. 0) p"
    by (auto simp: log_full_def)
  have g: "guard_clean (db_file db)" using c(4) by (simp add: table_open_def)
  obtain p where p: "view_page (\<lambda>_. 0) (db_file db) 1 = Inr p"
    using c(4) guard_clean_view [OF g, of "\<lambda>_. 0"] by (auto simp: table_open_def table_in_def tree_in_def row_tree_def)
  then have "sealed (\<lambda>_. 0) p" using c(5) guard_clean_view [OF g, of "\<lambda>_. 0"] by (simp add: whole_def tidy_def)
  then show ?thesis using c(1) fs p sealed_read by metis
qed

text \<open>Requests on rows; the others change the registry.\<close>

fun on_rows :: "request \<Rightarrow> bool" where
  "on_rows (Create_Table t cols) = False"
| "on_rows (Drop_Table t) = False"
| "on_rows _ = True"

lemma on_rows_seals: "on_rows r \<Longrightarrow> seals crc (run_request crc r)"
  by (cases r) (simp_all add: seal_intros)

text \<open>C7. When every page carries a valid checksum, as the file of a new database does, a row operation that
  succeeds keeps it so, and the recovery after a crash behind it gives exactly the pages that were in
  memory.\<close>

theorem row_request_recovered:
  assumes "db_reach crc db" "whole crc (db_file db)" "on_rows r" "run_request crc r db = (Inr (), db')"
    and "guard_clean (db_file db')" "wal_entry_count (db_wal db') \<noteq> - 1" "crashed_log crc (db_wal db') wb"
  shows "whole crc (db_file db') \<and> (\<exists>fs. recover crc \<lparr>fs_data = pf_disk (db_file db'), fs_wal = wb\<rparr> = (Inr (), fs)
    \<and> (\<forall>n p. view_page crc (db_file db') n = Inr p \<longrightarrow> view_page crc (page_file_open (fs_data fs)) n = Inr p))"
proof -
  have w: "whole crc (db_file db')" by (rule sealsD [OF on_rows_seals [OF assms(3)] reach_durable [OF assms(1)] assms(2,4)])
  have "durable crc db'" by (rule keepsD [OF request_keeps reach_durable [OF assms(1)] assms(4)])
  from crash_recovery [OF this _ assms(7)] assms(6) obtain fs where
    fs: "recover crc \<lparr>fs_data = pf_disk (db_file db'), fs_wal = wb\<rparr> = (Inr (), fs)"
    "\<forall>n p. view_page crc (db_file db') n = Inr p \<longrightarrow> view_page crc (page_file_open (fs_data fs)) n = page_from_bytes crc p"
    by (auto simp: log_full_def)
  have "view_page crc (page_file_open (fs_data fs)) n = Inr p" if "view_page crc (db_file db') n = Inr p" for n p
  proof -
    have "sealed crc p" using w that guard_clean_view [OF assms(5), of crc] by (simp add: whole_def tidy_def)
    then show ?thesis using fs(2) that sealed_read by metis
  qed
  then show ?thesis using w fs(1) by blast
qed

text \<open>The first row of the first table. It stays in the root leaf.\<close>

lemma empty_leaf_insert:
  assumes t: "tree_in crc f {} (BLeaf n [])" and st: "storable k row" "leaf_takes k row []" and sp: "guard_next f + row_budget row < 2 ^ 32 - 1"
  shows "fst (btree_insert crc n k row f) = Inr n"
proof -
  obtain p where p: "guard_view crc f n = Inr p" "leaf_page p 0 0 []" "unat n < guard_next f"
    using t by (auto simp: tree_in_def row_tree_def tree_pages_def)
  obtain res f' where r: "insert_into_leaf crc n p k row f = (Inr res, f')"
    "leaf_result row_id k (row_for k row) (row_budget row) n 0 0 [] (guard_view crc f) (guard_next f) res (guard_view crc f') (guard_next f')"
    using insert_into_leaf_run [OF p(1,2) _ _ st(2,1) _ p(3) sp] by auto
  have "res = Fit"
  proof (cases res)
    case (Split m s)
    then show ?thesis using r(2) by (auto simp: leaf_result_def inserted_def)
  qed simp
  moreover have "insert_recursive crc (Suc 63) n k row f = (Inr res, f')"
    unfolding insert_recursive.simps using p(1) leaf_pageD(10) [OF p(2)] r(1) by (simp add: sm_bind_view)
  ultimately show ?thesis by (simp add: btree_insert_def sm_bind_def)
qed

lemma first_root:
  assumes "guard_next (db_file db) < 2000" "table_open crc db [84] first_meta [] (BLeaf 1 []) {} []"
  shows "fst (btree_insert crc 1 1 (encode_row 1 (sample_value i)) (db_file db)) = Inr 1"
  using assms sample_row_storable by (intro empty_leaf_insert) (auto simp: table_open_def table_in_def)

lemma first_inserted:
  assumes "guard_next (db_file db) < 2000" "unat (wal_entry_count (db_wal db)) < 4000" "durable crc db" "db_max_row_size db = 10485760"
    and o: "table_open crc db [84] first_meta [] (BLeaf 1 []) {} []"
  shows "\<exists>db' m' t' P'. insert_direct crc [84] [([110], Integer i)] db = (Inr 1, db') \<and> durable crc db'
    \<and> table_open crc db' [84] m' [(1, encode_row 1 (sample_value i))] t' P' []
    \<and> others_keep crc db [84] (BLeaf 1 []) {} [] db' \<and> \<not> log_full db'"
proof -
  have n: "tm_next_rowid first_meta = 1" "tm_row_count first_meta = 0" by (simp_all add: table_meta_new_def)
  have "\<exists>db' m' t' P' its'. insert_direct crc [84] [([110], Integer i)] db = (Inr (tm_next_rowid first_meta), db')
    \<and> table_open crc db' [84] m' (insort_key fst (tm_next_rowid first_meta, encode_row 1 (sample_value i)) []) t' P' its'
    \<and> tm_row_count m' = tm_row_count first_meta + 1 \<and> tm_next_rowid m' = tm_next_rowid first_meta + 1
    \<and> table_depth t' its' \<le> Suc (table_depth (BLeaf 1 []) ([] :: bytes btree list)) \<and> others_keep crc db [84] (BLeaf 1 []) {} [] db'"
    by (rule insert_direct_run [OF o]) (use first_can_store [OF assms(1-3)] n first_values assms(4) in \<open>simp_all add: sample_row_facts\<close>)
  then obtain db' m' t' P' its' where i: "insert_direct crc [84] [([110], Integer i)] db = (Inr 1, db')"
    "table_open crc db' [84] m' [(1, encode_row 1 (sample_value i))] t' P' its'" "others_keep crc db [84] (BLeaf 1 []) {} [] db'"
    by (auto simp: n)
  have b: "fst (btree_insert crc (tm_root_page first_meta) (tm_next_rowid first_meta) (encode_row 1 (sample_value i)) (db_file db)) = Inr 1"
    using first_root [OF assms(1) o] by (simp add: table_meta_new_def)
  have m1: "table_of [84] db' = Inr (first_meta\<lparr>tm_next_rowid := tm_next_rowid first_meta + 1, tm_root_page := 1, tm_row_count := tm_row_count first_meta + 1\<rparr>)"
    and l: "unat (wal_entry_count (db_wal db')) \<le> unat (wal_entry_count (db_wal db))
        + (guard_next (db_file db) + row_budget (encode_row 1 (sample_value i)) + height (BLeaf 1 [] :: u64 btree))"
    using plain_insert_root [OF o _ _ _ _ _ _ _ b i(1)]
      first_can_store [OF assms(1-3)] n first_values assms(4) by (simp_all add: sample_row_facts)
  have "tm_indexes m' = []" using m1 i(2) by (auto simp: table_open_def table_meta_new_def)
  then have "its' = []" using i(2) by (simp add: table_open_def table_in_def)
  moreover have "durable crc db'" by (rule keepsD [OF insert_direct_keeps assms(3) i(1)])
  moreover have "\<not> log_full db'" by (rule log_not_full) (use l assms(1,2) in \<open>simp add: sample_row_storable\<close>)
  ultimately show ?thesis using i by blast
qed

text \<open>C9. Creating a table: when there is room for its root page and the registry, the handle has the new
  table, empty, with its metadata; the published registry pages list exactly the tables of the handle;
  no other page below the old end of the file changes, and a file whose pages all carry valid checksums keeps that.\<close>

theorem create_table_correct:
  assumes "durable crc db" "can_create db name columns"
  shows "\<exists>db' R. create_table crc name columns db = (Inr (), db')
    \<and> db_tables db' = AList.update name (new_meta db name columns) (db_tables db)
    \<and> table_open crc db' name (new_meta db name columns) [] (BLeaf (next_root db) []) {} []
    \<and> registry_in (view_page crc (db_file db')) R (map snd (db_tables db')) (db_next_table_id db')
    \<and> (\<forall>n. n \<noteq> 0 \<longrightarrow> n < page_count (db_file db) \<longrightarrow> view_page crc (db_file db') n = view_page crc (db_file db) n)
    \<and> (whole crc (db_file db) \<longrightarrow> whole crc (db_file db'))"
  using create_table_run [OF assms] by blast

lemma create_table_correct_witness:
  "\<exists>db. create_table (\<lambda>_. 0) [84] first_columns fresh_db = (Inr (), db) \<and> map_of (db_tables db) [84] = Some first_meta"
  using create_table_correct [OF fresh_durable first_can_create, of "\<lambda>_. 0"] by (auto simp: first_new_meta)

text \<open>C8. A clean shutdown loses nothing: closing the handle flushes the registry and every page, and opening
  the files again gives the same tables (without the keys of encrypted ones), the same next table id
  and every published page but the registry's own.\<close>

theorem close_open_roundtrip:
  assumes "db_reach crc db" "guard_clean (db_file db)" "whole crc (db_file db)" "named (db_tables db)"
    and "registry_fits (map snd (db_tables db)) (db_next_table_id db)"
    and "max 1 (guard_next (db_file db)) + registry_pages (map snd (db_tables db)) (db_next_table_id db) < 2 ^ 32"
  shows "\<exists>db1 db2 fs. db_close crc db = (Inr (), db1) \<and> db_open crc (db_files db1) = Some (Inr db2, fs)
    \<and> map_of (db_tables db2) = map_option locked \<circ> map_of (db_tables db) \<and> db_next_table_id db2 = db_next_table_id db
    \<and> (\<forall>n p. n \<noteq> 0 \<longrightarrow> view_page crc (db_file db) n = Inr p \<longrightarrow> view_page crc (db_file db2) n = Inr p)"
proof -
  obtain db1 db2 fs where c: "db_close crc db = (Inr (), db1)" "db_open crc (db_files db1) = Some (Inr db2, fs)"
    "db_tables db2 = load_tables (map locked (map snd (db_tables db)))" "db_next_table_id db2 = db_next_table_id db"
    "\<forall>n p. n \<noteq> 0 \<longrightarrow> view_page crc (db_file db) n = Inr p \<longrightarrow> view_page crc (db_file db2) n = Inr p"
    using close_open_run [OF reach_durable [OF assms(1)] assms(2,3,5,6)] by blast
  have "map_of (db_tables db2) = map_option locked \<circ> map_of (db_tables db)"
    unfolding c(3) by (rule ext) (simp only: load_named [OF assms(4)] o_apply)
  with c show ?thesis by blast
qed

lemma close_open_roundtrip_witness:
  "\<exists>db db1 db2 fs. create_table (\<lambda>_. 0) [84] first_columns fresh_db = (Inr (), db) \<and> db_close (\<lambda>_. 0) db = (Inr (), db1)
    \<and> db_open (\<lambda>_. 0) (db_files db1) = Some (Inr db2, fs) \<and> map_of (db_tables db2) [84] = Some first_meta \<and> db_next_table_id db2 = 2"
proof -
  obtain db where c: "create_table (\<lambda>_. 0) [84] first_columns fresh_db = (Inr (), db)" "db_reach (\<lambda>_. 0) db"
    "db_tables db = [([84], first_meta)]" "db_next_table_id db = 2" "whole (\<lambda>_. 0) (db_file db)" "guard_next (db_file db) < 2000"
    "table_open (\<lambda>_. 0) db [84] first_meta [] (BLeaf 1 []) {} []"
    using first_created [of "\<lambda>_. 0"] by blast
  have "guard_clean (db_file db)" using c(7) by (simp add: table_open_def)
  moreover have "named (db_tables db)" by (simp add: named_def c(3)) (simp add: table_meta_new_def)
  moreover have "max 1 (guard_next (db_file db)) + registry_pages (map snd (db_tables db)) (db_next_table_id db) < 2 ^ 32"
    using c(3,4,6) first_fits by (auto simp: max_def)
  ultimately have "\<exists>db1 db2 fs. db_close (\<lambda>_. 0) db = (Inr (), db1) \<and> db_open (\<lambda>_. 0) (db_files db1) = Some (Inr db2, fs)
    \<and> map_of (db_tables db2) = map_option locked \<circ> map_of (db_tables db) \<and> db_next_table_id db2 = db_next_table_id db
    \<and> (\<forall>n p. n \<noteq> 0 \<longrightarrow> view_page (\<lambda>_. 0) (db_file db) n = Inr p \<longrightarrow> view_page (\<lambda>_. 0) (db_file db2) n = Inr p)"
    using close_open_roundtrip [OF c(2) _ c(5)] c(3,4,6) first_fits by simp
  then show ?thesis using c(1,3,4) by (auto simp: locked_def) (auto simp: table_meta_new_def)
qed

text \<open>C11. Creating a table commits its root page before the registry knows it, and with it, in a new database,
  page 0 as it was allocated: all zeros. A process that dies between the two commits leaves files that
  cannot be opened any more: the recovery succeeds, but the load of the registry rejects page 0.\<close>

theorem create_table_crash_window:
  "\<exists>db1 fs. commit_new_root crc Normal fresh_db = (Inr (1, 1), db1)
    \<and> create_table crc name columns fresh_db
        = sm_bind (set_meta name (table_meta_new name 1 columns 1)) (\<lambda>_. persist crc) db1
    \<and> db_open crc \<lparr>fs_data = pf_disk (db_file db1), fs_wal = wal_file (db_wal db1)\<rparr> = Some (Inl (Fail (Corruption ''bad page magic'')), fs)"
proof -
  let ?f1 = "(page_file_open [])\<lparr>pf_new_count := 2, pf_dirty := [(0, page_default), (1, new_leaf crc)]\<rparr>"
  note f1 = first_overlay [of crc]
  let ?db0 = "fresh_db\<lparr>db_file := ?f1, db_next_table_id := 2\<rparr>"
  have run: "commit_new_root crc Normal fresh_db = sm_bind (commit_write crc Normal 1 None) (\<lambda>_. sm_ret (1, 1)) ?db0"
    using f1 by (simp add: commit_new_root_eq sm_bind_view must_def)
      (simp add: fresh_db_def new_database_def on_file_bind [where m = "with_page0 (btree_create crc)"] sm_bind_view)
  have "\<exists>f' w'. commit_write crc Normal 1 None ?db0 = (Inr (), ?db0\<lparr>db_file := f', db_wal := w'\<rparr>)
    \<and> guard_view crc f' = guard_view crc (db_file ?db0) \<and> guard_clean f' \<and> guard_next f' = guard_next (db_file ?db0)
    \<and> unat (wal_entry_count w') = unat (wal_entry_count (db_wal ?db0)) + (if Normal = NoLog then 0 else length (pf_dirty (db_file ?db0)))"
  proof (rule commit_write_run)
    have "guard_clean (page_file_open [])" by (simp add: guard_clean_def page_file_open_def)
    then show "guard_ok (db_file ?db0)"
      using with_page0_safe [of crc "btree_create crc" "page_file_open []", OF safe_create(1)] guard_clean_ok f1 by (simp add: safe_at_def)
  qed (simp_all add: guard_next_def log_room_def, simp_all add: page_file_open_def fresh_db_def new_database_def fresh_wal_def)
  then obtain f' w' where c: "commit_write crc Normal 1 None ?db0 = (Inr (), ?db0\<lparr>db_file := f', db_wal := w'\<rparr>)"
    "guard_view crc f' = guard_view crc ?f1" "guard_clean f'" "unat (wal_entry_count w') = 2" by auto
  let ?db1 = "?db0\<lparr>db_file := f', db_wal := w'\<rparr>"
  have run1: "commit_new_root crc Normal fresh_db = (Inr (1, 1), ?db1)" using run c(1) by (simp add: sm_bind_def)
  have d1: "durable crc ?db1" by (rule keepsD [OF commit_new_root_keeps fresh_durable run1]) simp
  have "\<not> log_full ?db1" by (rule log_not_full) (use c(4) in simp)
  moreover have "crashed_log crc (db_wal ?db1) (wal_file w')" by (simp add: crashed_log_def)
  ultimately obtain ims where i: "files_hold crc ims \<lparr>fs_data = pf_disk f', fs_wal = wal_file w'\<rparr>" "pages_logged crc ims f'"
    using crash_files [OF d1] by fastforce
  have v: "view_page crc f' 0 = Inr page_default" "view_page crc f' 1 = Inr (new_leaf crc)"
    using c(2) guard_clean_view [OF c(3), of crc] by (simp_all add: guard_view_def)
  obtain d' w2 where o: "db_open crc \<lparr>fs_data = pf_disk f', fs_wal = wal_file w'\<rparr>
      = map_option (\<lambda>r. (r, \<lparr>fs_data = d', fs_wal = wal_file w2\<rparr>)) (load_registry crc (page_file_open d') w2)"
    "\<forall>n p. page_on_disk (pf_disk f') ims n = Some p \<longrightarrow> view_page crc (page_file_open d') n = page_from_bytes crc p"
    using open_run [OF i(1)] by fastforce
  have n: "view_page crc (page_file_open d') 0 = page_from_bytes crc page_default"
    "view_page crc (page_file_open d') 1 = page_from_bytes crc (new_leaf crc)" using o(2) i(2) v by (simp_all add: pages_logged_def)
  have "page_from_bytes crc (new_leaf crc) = Inr (new_leaf crc)" by (simp add: page_from_bytes_eq)
  then have "1 < page_count (page_file_open d')" using n(2) view_below by simp
  then have "0 < page_count (page_file_open d')" by (rule le_less_trans [rotated]) simp
  moreover have "magic page_default = 0"
    by (simp add: magic_def page_default_def sub_bytes_def u16_from_le_def numeral_2_eq_2)
  then have "page_from_bytes crc page_default = Inl (Fail (Corruption ''bad page magic''))"
    by (simp add: page_from_bytes_def page_validate_def)
  moreover obtain f2 where "read_page crc 0 (page_file_open d') = (view_page crc (page_file_open d') 0, f2)"
    using read_page_run by blast
  ultimately have "load_registry crc (page_file_open d') w2 = Some (Inl (Fail (Corruption ''bad page magic'')))"
    using n(1) by (auto simp: load_registry_def)
  then have "db_open crc \<lparr>fs_data = pf_disk f', fs_wal = wal_file w'\<rparr> = Some (Inl (Fail (Corruption ''bad page magic'')), \<lparr>fs_data = d', fs_wal = wal_file w2\<rparr>)"
    using o(1) by simp
  moreover have "create_table crc name columns fresh_db = sm_bind (set_meta name (table_meta_new name 1 columns 1)) (\<lambda>_. persist crc) ?db1"
    using run1 by (simp add: create_table_def sm_bind_view)
      (simp add: fresh_db_def new_database_def sm_bind_Inr [where m = "commit_new_root crc Normal"])
  ultimately show ?thesis using run1 by (intro exI [of _ ?db1] exI [of _ "\<lparr>fs_data = d', fs_wal = wal_file w2\<rparr>"]) simp
qed

lemma insert_direct_taken:
  assumes o: "table_open crc db table m cs t P its" and k: "tm_next_rowid m \<in> fst ` set cs" and h: "height t \<le> MAX_TREE_DEPTH"
    and n: "tm_next_rowid m \<noteq> - 1" and chk: "enforce_index_types m data = Inr ()"
      "length (encode_row (tm_next_rowid m) (row_values m data)) \<le> unat (db_max_row_size db)"
      "enforce_unique_indexes crc (db_file db) m (encode_row (tm_next_rowid m) (row_values m data)) = Inr ()"
  shows "fst (insert_direct crc table data db) = Inl (Fail (DuplicateKey (tm_next_rowid m)))"
proof -
  note o' = o [unfolded table_open_def table_in_def]
  let ?r = "tm_next_rowid m" and ?row = "encode_row (tm_next_rowid m) (row_values m data)"
  let ?db = "db_at db table (db_file db) (m\<lparr>tm_next_rowid := ?r + 1\<rparr>)"
  have "btree_insert crc (tm_root_page m) ?r ?row (db_file db) = (Inl (Fail (DuplicateKey ?r)), db_file db)"
    using btree_insert_duplicate [of crc "db_file db" P t ?r ?row] o' k h by simp
  then have "on_file (btree_insert crc (tm_root_page m) ?r ?row) ?db = (Inl (Fail (DuplicateKey ?r)), ?db)"
    by (simp add: on_file_def db_at_file_update)
  then have "store_row crc (db_durability db) table ?r ?row ?db = (Inl (Fail (DuplicateKey ?r)), ?db)"
    by (simp add: store_row_def sm_bind_view sm_bind_Inl)
  then show ?thesis
    using o' chk n by (simp add: insert_direct_def sm_bind_view Let_def size_check_def sm_bind_Inl) (simp add: db_at_def sm_bind_Inl)
qed

text \<open>C10. Inserting a row changes the table's metadata in memory only: the next rowid, the row count and, when
  the root splits, the root page are written with the registry, which only schema changes and a clean
  shutdown persist. After a crash the row is there, but the table has the metadata it had before: the
  next insertion chooses the rowid again and fails as a duplicate.\<close>

theorem crash_forgets_insert:
  assumes db: "db_reach crc db" "whole crc (db_file db)" "named (db_tables db)"
    and o: "table_open crc db table m cs t P []" and st: "can_store db m t [] (tm_next_rowid m) (encode_row (tm_next_rowid m) (row_values m data))"
    and new: "tm_next_rowid m \<notin> fst ` set cs" "tm_row_count m \<noteq> - 1" "tm_next_rowid m \<noteq> - 1"
    and chk: "enforce_index_types m data = Inr ()" "length (encode_row (tm_next_rowid m) (row_values m data)) \<le> unat (db_max_row_size db)"
    and root: "fst (btree_insert crc (tm_root_page m) (tm_next_rowid m) (encode_row (tm_next_rowid m) (row_values m data)) (db_file db)) = Inr (tm_root_page m)"
    and reg: "registry_in (view_page crc (db_file db)) R (map snd (db_tables db)) (db_next_table_id db)" "R \<inter> table_pages t P [] = {}"
    and i: "insert_direct crc table data db = (Inr rowid, db1)" "\<not> log_full db1"
    and wb: "crashed_log crc (db_wal db1) wb" and h: "height t < MAX_TREE_DEPTH"
    and again: "enforce_index_types m data' = Inr ()" "length (encode_row rowid (row_values m data')) \<le> 10485760"
  shows "\<exists>db2 fs. db_open crc \<lparr>fs_data = pf_disk (db_file db1), fs_wal = wb\<rparr> = Some (Inr db2, fs) \<and> table_of table db2 = Inr m
    \<and> (\<exists>r. db_get crc table rowid db2 = Inr (Some r) \<and> row_data r = encode_row rowid (row_values m data))
    \<and> fst (insert_direct crc table data' db2) = Inl (Fail (DuplicateKey rowid))"
proof -
  let ?row = "encode_row (tm_next_rowid m) (row_values m data)"
  have ix: "tm_indexes m = []" using o by (simp add: table_open_def table_in_def)
  have uniq: "enforce_unique_indexes crc f m row = Inr ()" for f row using ix by (simp add: enforce_unique_indexes_def)
  obtain db1' m' t' P' its' where r: "insert_direct crc table data db = (Inr (tm_next_rowid m), db1')"
    "table_open crc db1' table m' (insort_key fst (tm_next_rowid m, ?row) cs) t' P' its'" "others_keep crc db table t P [] db1'"
    "table_depth t' its' \<le> Suc (table_depth t ([] :: bytes btree list))"
    using insert_direct_run [OF o refl st new(1) new(2,3) chk uniq] by blast
  have eq: "db1' = db1" "rowid = tm_next_rowid m" using r(1) i(1) by simp_all
  have m': "m' = m\<lparr>tm_next_rowid := tm_next_rowid m + 1, tm_root_page := tm_root_page m, tm_row_count := tm_row_count m + 1\<rparr>"
    using plain_insert_root [OF o refl st new chk root r(1), THEN conjunct1] r(2) by (simp add: table_open_def)
  have its: "its' = []" using r(2) m' ix by (simp add: table_open_def table_in_def)
  have d: "durable crc db" by (rule reach_durable [OF db(1)])
  have w1: "whole crc (db_file db1)" by (rule sealsD [OF insert_direct_seals d db(2) i(1)])
  have d1: "durable crc db1" by (rule keepsD [OF insert_direct_keeps d i(1)])
  have c1: "guard_clean (db_file db1)" using r(2) eq by (simp add: table_open_def)
  have "\<forall>n \<in> R. view_page crc (db_file db1) n = view_page crc (db_file db) n"
  proof
    fix n assume n: "n \<in> R"
    then obtain p where "view_page crc (db_file db) n = Inr p" using reg(1) by (auto simp: registry_in_def)
    from view_below [OF this] show "view_page crc (db_file db1) n = view_page crc (db_file db) n"
      using r(3) reg(2) n eq by (auto simp: others_keep_def)
  qed
  from registry_in_frame [OF reg(1) this] obtain db2 fs where
    op: "db_open crc \<lparr>fs_data = pf_disk (db_file db1), fs_wal = wb\<rparr> = Some (Inr db2, fs)"
    "db_tables db2 = load_tables (map locked (map snd (db_tables db)))" "db_max_row_size db2 = 10485760"
    "\<forall>n p. view_page crc (db_file db1) n = Inr p \<longrightarrow> view_page crc (db_file db2) n = Inr p" "guard_clean (db_file db2)"
    using reopen_registry [OF d1 i(2) w1 c1 _ wb] by blast
  have m0: "table_of table db = Inr m" "unlocked m" using o by (simp_all add: table_open_def)
  have t2: "table_of table db2 = Inr m"
    using m0 load_named [OF db(3), of table] op(2) locked_plain [of m]
    by (auto simp: table_of_def unlocked_def simp del: map_map split: option.splits)
  let ?cs = "insort_key fst (rowid, ?row) cs"
  have to: "table_open crc db1 table m' ?cs t' P' []" using r(2) eq its by simp
  have "table_in crc (db_file db1) m ?cs t' P' []"
    by (rule table_in_meta [where m = m']) (use to in \<open>simp_all add: table_open_def m' ix\<close>)
  then have "table_open crc (db1\<lparr>db_tables := db_tables db2\<rparr>) table m ?cs t' P' []"
    using t2 m0 c1 by (simp add: table_open_def table_of_def)
  from table_seen [OF this _ _ t2 op(5)] have o2: "table_open crc db2 table m ?cs t' P' []"
    using w1 op(4) by (simp add: whole_def)
  have h': "height t' \<le> MAX_TREE_DEPTH" using r(4) h its by (simp add: table_depth_def)
  have mem: "(rowid, ?row) \<in> set ?cs" "distinct (map fst ?cs)"
    using table_in_distinct o2 by (auto simp: set_insort_key table_open_def)
  have "db_get crc table rowid db2 = Inr (Some \<lparr>row_no = rowid, row_data = ?row, row_col_names = tm_col_names m, row_col_defs = tm_col_defs m\<rparr>)"
    using db_get_run [OF o2 h', of rowid] mem by simp
  moreover have "tm_next_rowid m \<in> fst ` set ?cs" using mem(1) eq by force
  then have "fst (insert_direct crc table data' db2) = Inl (Fail (DuplicateKey rowid))"
    using insert_direct_taken [OF o2 _ h' new(3) again(1) _ uniq] again(2) op(3) eq by simp
  ultimately show ?thesis using op(1) t2 eq by auto
qed

lemma crash_forgets_insert_witness:
  "\<exists>db db1 db2 fs. create_table (\<lambda>_. 0) [84] first_columns fresh_db = (Inr (), db)
    \<and> insert_direct (\<lambda>_. 0) [84] [([110], Integer 5)] db = (Inr 1, db1)
    \<and> db_open (\<lambda>_. 0) \<lparr>fs_data = pf_disk (db_file db1), fs_wal = wal_file (db_wal db1)\<rparr> = Some (Inr db2, fs)
    \<and> fst (insert_direct (\<lambda>_. 0) [84] [([110], Integer 7)] db2) = Inl (Fail (DuplicateKey 1))"
proof -
  obtain db R where c: "create_table (\<lambda>_. 0) [84] first_columns fresh_db = (Inr (), db)" "db_reach (\<lambda>_. 0) db" "durable (\<lambda>_. 0) db"
    "db_tables db = [([84], first_meta)]" "db_next_table_id db = 2" "db_max_row_size db = 10485760"
    "table_open (\<lambda>_. 0) db [84] first_meta [] (BLeaf 1 []) {} []" "whole (\<lambda>_. 0) (db_file db)"
    "registry_in (view_page (\<lambda>_. 0) (db_file db)) R [first_meta] 2" "1 \<notin> R"
    "guard_next (db_file db) < 2000" "unat (wal_entry_count (db_wal db)) < 4000"
    using first_created [of "\<lambda>_. 0"] by blast
  have n: "tm_next_rowid first_meta = 1" "tm_row_count first_meta = 0" "tm_root_page first_meta = 1" by (simp_all add: table_meta_new_def)
  obtain db1 where i: "insert_direct (\<lambda>_. 0) [84] [([110], Integer 5)] db = (Inr 1, db1)" "\<not> log_full db1"
    using first_inserted [OF c(11,12,3,6,7), of 5] by blast
  have "\<exists>db2 fs. db_open (\<lambda>_. 0) \<lparr>fs_data = pf_disk (db_file db1), fs_wal = wal_file (db_wal db1)\<rparr> = Some (Inr db2, fs) \<and> table_of [84] db2 = Inr first_meta
    \<and> (\<exists>r. db_get (\<lambda>_. 0) [84] 1 db2 = Inr (Some r) \<and> row_data r = encode_row 1 (row_values first_meta [([110], Integer 5)]))
    \<and> fst (insert_direct (\<lambda>_. 0) [84] [([110], Integer 7)] db2) = Inl (Fail (DuplicateKey 1))"
  proof (rule crash_forgets_insert [OF c(2,8) _ c(7) _ _ _ _ _ _ _ _ _ i])
    show "named (db_tables db)" by (simp add: named_def c(4)) (simp add: table_meta_new_def)
    show "registry_in (view_page (\<lambda>_. 0) (db_file db)) R (map snd (db_tables db)) (db_next_table_id db)" using c(4,5,9) by simp
    show "R \<inter> table_pages (BLeaf 1 []) {} [] = {}" using c(10) by (simp add: table_pages_def tree_pages_def)
    show "crashed_log (\<lambda>_. 0) (db_wal db1) (wal_file (db_wal db1))" by (simp add: crashed_log_def)
  qed (use first_can_store [OF c(11,12,3)] first_root [OF c(11,7)] first_values c(6) n in \<open>simp_all add: sample_row_facts\<close>)
  then show ?thesis using c(1) i(1) by blast
qed

lemma row_request_recovered_witness:
  "\<exists>db db1 fs p. create_table (\<lambda>_. 0) [84] first_columns fresh_db = (Inr (), db)
    \<and> run_request (\<lambda>_. 0) (Insert_Row [84] [([110], Integer 5)]) db = (Inr (), db1)
    \<and> recover (\<lambda>_. 0) \<lparr>fs_data = pf_disk (db_file db1), fs_wal = wal_file (db_wal db1)\<rparr> = (Inr (), fs)
    \<and> view_page (\<lambda>_. 0) (db_file db1) 0 = Inr p \<and> view_page (\<lambda>_. 0) (page_file_open (fs_data fs)) 0 = Inr p"
proof -
  obtain db R where c: "create_table (\<lambda>_. 0) [84] first_columns fresh_db = (Inr (), db)" "db_reach (\<lambda>_. 0) db" "durable (\<lambda>_. 0) db"
    "db_max_row_size db = 10485760" "table_open (\<lambda>_. 0) db [84] first_meta [] (BLeaf 1 []) {} []" "whole (\<lambda>_. 0) (db_file db)"
    "guard_next (db_file db) < 2000" "unat (wal_entry_count (db_wal db)) < 4000"
    "registry_in (view_page (\<lambda>_. 0) (db_file db)) R [first_meta] 2"
    using first_created [of "\<lambda>_. 0"] by blast
  obtain db1 m' t' P' where i: "insert_direct (\<lambda>_. 0) [84] [([110], Integer 5)] db = (Inr 1, db1)" "\<not> log_full db1"
    "table_open (\<lambda>_. 0) db1 [84] m' [(1, encode_row 1 (sample_value 5))] t' P' []" "others_keep (\<lambda>_. 0) db [84] (BLeaf 1 []) {} [] db1"
    using first_inserted [OF c(7,8,3,4,5), of 5] by blast
  have r: "run_request (\<lambda>_. 0) (Insert_Row [84] [([110], Integer 5)]) db = (Inr (), db1)" using i(1) by (simp add: sm_bind_def)
  have "guard_clean (db_file db1)" using i(3) by (simp add: table_open_def)
  moreover have "wal_entry_count (db_wal db1) \<noteq> - 1" using i(2) by (simp add: log_full_def)
  moreover have "crashed_log (\<lambda>_. 0) (db_wal db1) (wal_file (db_wal db1))" by (simp add: crashed_log_def)
  moreover have "on_rows (Insert_Row [84] [([110], Integer 5)])" by simp
  ultimately have "whole (\<lambda>_. 0) (db_file db1) \<and> (\<exists>fs. recover (\<lambda>_. 0) \<lparr>fs_data = pf_disk (db_file db1), fs_wal = wal_file (db_wal db1)\<rparr> = (Inr (), fs)
    \<and> (\<forall>n p. view_page (\<lambda>_. 0) (db_file db1) n = Inr p \<longrightarrow> view_page (\<lambda>_. 0) (page_file_open (fs_data fs)) n = Inr p))"
    using row_request_recovered [OF c(2,6) _ r] by blast
  moreover obtain p where "view_page (\<lambda>_. 0) (db_file db) 0 = Inr p" using c(9) by (auto simp: registry_in_def)
  then have "view_page (\<lambda>_. 0) (db_file db1) 0 = Inr p"
    using i(4) view_below [of "\<lambda>_. 0" "db_file db" 0 p] by (simp add: others_keep_def table_pages_def tree_pages_def)
  ultimately show ?thesis using c(1) r by blast
qed

text \<open>C12. A commit is not atomic in the log. Its images are appended one by one, and each append counts its
  entry: there is no commit record. When the process dies between two appends, the recovery applies
  the images that were appended and leaves the other pages of the commit as they were before it.\<close>

theorem torn_commit_recovered:
  assumes "durable crc db" "\<not> log_full db" "commit_guard (db_file db) = (Inr images, f)"
    and "sm_fold (log_image crc t None) (take k images) (db\<lparr>db_file := f\<rparr>) = (Inr (), db')"
  shows "\<exists>fs. recover crc \<lparr>fs_data = pf_disk f, fs_wal = wal_file (db_wal db')\<rparr> = (Inr (), fs)
    \<and> (\<forall>n p. (case map_of (take k images) n of Some q \<Rightarrow> p = q | None \<Rightarrow> view_page crc (db_file db) n = Inr p) \<longrightarrow>
         view_page crc (page_file_open (fs_data fs)) n = page_from_bytes crc p)"
proof -
  let ?f = "db_file db"
  obtain ims where ims: "holds crc (db_wal db) ims" "images_small ims" "pages_logged crc ims ?f"
    using assms(1,2) by (auto simp: durable_def)
  have f: "guard_ok ?f" "tidy crc UNIV ?f" using assms(1) by (simp_all add: durable_def file_sound_def)
  have im: "images = pf_dirty ?f" "guard_next ?f < 2 ^ 32" "pf_disk f = pf_disk ?f"
    using commit_guard_outcome [OF f(1), of crc UNIV] assms(3) by (auto simp: on_disk_def)
  have pages: "\<forall>(n, p) \<in> set (take k images). page_ok p"
    using dirty_viewed [OF f(1), where crc = crc] f(2) im(1) by (fastforce simp: tidy_def dest: in_set_takeD)
  let ?d = "take k images"
  obtain r w' j where l: "sm_fold (log_image crc t None) ?d (db\<lparr>db_file := f\<rparr>) = (r, db\<lparr>db_file := f, db_wal := w'\<rparr>)"
    "holds crc w' (ims @ map (Pair t) (take j ?d))" "r = Inr () \<longrightarrow> j = length ?d"
    using log_images_outcome [of crc "db\<lparr>db_file := f\<rparr>" ims ?d t] ims(1) pages by auto
  have "take j ?d = ?d" using l(1,3) assms(4) by (simp del: take_take)
  then have w': "db' = db\<lparr>db_file := f, db_wal := w'\<rparr>" "holds crc w' (ims @ map (Pair t) ?d)" using l(1,2) assms(4) by simp_all
  let ?fs = "\<lparr>fs_data = pf_disk f, fs_wal = wal_file (db_wal db')\<rparr>"
  have "images_small (ims @ map (Pair t) ?d)" unfolding im(1) by (rule commit_small [OF f(1) im(2) ims(2)])
  then have i: "files_hold crc (ims @ map (Pair t) ?d) ?fs"
    using w' reopen_holds [OF w'(2)] assms(1) im(3) by (simp add: files_hold_def durable_def file_sound_def)
  obtain d' and w2 :: wal where o: "recover crc ?fs = (Inr (), \<lparr>fs_data = d', fs_wal = wal_file w2\<rparr>)"
    "\<forall>n p. page_on_disk (fs_data ?fs) (ims @ map (Pair t) ?d) n = Some p \<longrightarrow> view_page crc (page_file_open d') n = page_from_bytes crc p"
    using open_run [OF i] by blast
  have "distinct (map fst ?d)" using f(1) by (simp add: im(1) guard_ok_def take_map [symmetric] distinct_take)
  note img = image_of_commit [OF this, of t]
  have "page_on_disk (pf_disk f) (ims @ map (Pair t) ?d) n = Some p"
    if "case map_of ?d n of Some q \<Rightarrow> p = q | None \<Rightarrow> view_page crc ?f n = Inr p" for n p
  proof (cases "map_of ?d n")
    case None
    then have "page_on_disk (pf_disk ?f) ims n = Some p" using that ims(3) by (simp add: pages_logged_def)
    then show ?thesis using None im(3) by (simp add: page_on_disk_def image_of_append img)
  next
    case (Some q)
    then show ?thesis using that by (simp add: page_on_disk_def image_of_append img)
  qed
  then show ?thesis using o by (intro exI [of _ "\<lparr>fs_data = d', fs_wal = wal_file w2\<rparr>"]) simp
qed

lemma torn_commit_recovered_witness:
  "\<exists>db f images db' fs. on_file (with_page0 (btree_create (\<lambda>_. 0))) fresh_db = (Inr 1, db)
    \<and> commit_guard (db_file db) = (Inr images, f) \<and> map fst images = [0, 1]
    \<and> sm_fold (log_image (\<lambda>_. 0) 1 None) (take 1 images) (db\<lparr>db_file := f\<rparr>) = (Inr (), db')
    \<and> recover (\<lambda>_. 0) \<lparr>fs_data = pf_disk f, fs_wal = wal_file (db_wal db')\<rparr> = (Inr (), fs)
    \<and> view_page (\<lambda>_. 0) (page_file_open (fs_data fs)) 0 = page_from_bytes (\<lambda>_. 0) page_default"
proof -
  let ?f1 = "(page_file_open [])\<lparr>pf_new_count := 2, pf_dirty := [(0, page_default), (1, new_leaf (\<lambda>_. 0))]\<rparr>"
  let ?db = "fresh_db\<lparr>db_file := ?f1\<rparr>"
  have f1: "on_file (with_page0 (btree_create (\<lambda>_. 0))) fresh_db = (Inr 1, ?db)"
    using first_overlay by (simp add: on_file_def fresh_db_def new_database_def)
  have d: "durable (\<lambda>_. 0) ?db"
    by (rule keepsD [OF keeps_on_file fresh_durable f1]) (intro with_page0_safe with_page0_tidy safe tidy_intros)+
  then have g: "guard_ok ?f1" by (simp add: durable_def file_sound_def)
  have full: "\<not> log_full ?db" by (simp add: log_full_def)
  have "guard_next ?f1 < 2 ^ 32" by (simp add: guard_next_def) (simp add: page_file_open_def)
  from commit_guard_run [OF g this, of "\<lambda>_. 0"] obtain f where f: "commit_guard (db_file ?db) = (Inr [(0, page_default), (1, new_leaf (\<lambda>_. 0))], f)" by auto
  have "log_room (length (take 1 [(0 :: u32, page_default), (1, new_leaf (\<lambda>_. 0))])) (db_wal (?db\<lparr>db_file := f\<rparr>))"
    by (simp add: log_room_def) (simp add: fresh_db_def new_database_def fresh_wal_def)
  from log_images_run [OF this, of "\<lambda>_. 0" 1] obtain w' where
    w': "sm_fold (log_image (\<lambda>_. 0) 1 None) (take 1 [(0, page_default), (1, new_leaf (\<lambda>_. 0))]) (?db\<lparr>db_file := f\<rparr>) = (Inr (), ?db\<lparr>db_file := f, db_wal := w'\<rparr>)"
    by blast
  from torn_commit_recovered [OF d full f w'] obtain fs where fs:
    "recover (\<lambda>_. 0) \<lparr>fs_data = pf_disk f, fs_wal = wal_file (db_wal (?db\<lparr>db_file := f, db_wal := w'\<rparr>))\<rparr> = (Inr (), fs)"
    "\<forall>n p. (case map_of (take 1 [(0, page_default), (1, new_leaf (\<lambda>_. 0))]) n of Some q \<Rightarrow> p = q | None \<Rightarrow> view_page (\<lambda>_. 0) (db_file ?db) n = Inr p) \<longrightarrow>
         view_page (\<lambda>_. 0) (page_file_open (fs_data fs)) n = page_from_bytes (\<lambda>_. 0) p"
    by blast
  have "view_page (\<lambda>_. 0) (page_file_open (fs_data fs)) 0 = page_from_bytes (\<lambda>_. 0) page_default" using fs(2) by simp
  then show ?thesis using f1 f w' fs(1)
    by (intro exI [of _ ?db] exI [of _ f] exI [of _ "[(0, page_default), (1, new_leaf (\<lambda>_. 0))]"]
        exI [of _ "?db\<lparr>db_file := f, db_wal := w'\<rparr>"] exI [of _ fs] conjI) simp_all
qed

end
