(* ===== verification/Spec2Isabelle.thy ===== *)
theory Spec2Isabelle
  imports Row_Log Crash_Properties
begin

text \<open>
  A verification library of the boogy-db storage engine (\<^verbatim>\<open>src/\<close>): an embedded row store on
  4096-byte pages with B+ trees for rows and indexes, a write guard with an overlay of dirty pages,
  and a write-ahead log of page images.

  \<^bold>\<open>The program.\<close> A handle (\<^verbatim>\<open>BoogyDb\<close>, \<^verbatim>\<open>db.rs\<close>) owns a page file
  (\<^verbatim>\<open>file.rs\<close>), a log (\<^verbatim>\<open>wal.rs\<close>) and a map from table names to metadata
  (\<^verbatim>\<open>table.rs\<close>). A row operation finds the table, takes the write guard of the page file,
  changes the row tree (\<^verbatim>\<open>btree.rs\<close>) and the index trees (\<^verbatim>\<open>index.rs\<close>) in the
  overlay of the guard, commits (the page images go to the log, then the overlay to the shared cache) and
  updates the counters of the table in memory. Rows are encoded by \<^verbatim>\<open>row.rs\<close>; a row too long for a
  leaf continues on overflow pages (\<^verbatim>\<open>overflow.rs\<close>). The list of tables is kept in page 0 and a
  chain behind it (the system page of \<^verbatim>\<open>db.rs\<close>), which schema changes and a clean shutdown
  rewrite. Opening replays the log over the data file, cuts the log and reads the list.

  \<^bold>\<open>Theories and sources.\<close>
  \<^item> \<open>Prelude\<close>: words, bytes, the error type of \<^verbatim>\<open>error.rs\<close>, results (an error value or a panic on
    the left), slices with their bounds checks, integer codecs, the state-passing operations.
    \<open>Floats\<close> and \<open>Values\<close>: \<^verbatim>\<open>value.rs\<close>. \<open>Search\<close>: the binary search that four files write out.
  \<^item> \<open>Row_Codec\<close>: \<^verbatim>\<open>row.rs\<close>. \<open>Pages\<close>: \<^verbatim>\<open>page.rs\<close>. \<open>Page_File\<close>: \<^verbatim>\<open>file.rs\<close>.
    \<open>Overflow\<close>: \<^verbatim>\<open>overflow.rs\<close>. \<open>Filters\<close>: \<^verbatim>\<open>filter.rs\<close> and the row predicate of
    \<^verbatim>\<open>db.rs\<close>; \<open>Cut_Row\<close>: column lookups in the inline part of an overflow row.
  \<^item> \<^verbatim>\<open>btree.rs\<close>: page helpers in \<open>Leaf_Page\<close> and \<open>Branch_Page\<close>, \<^verbatim>\<open>BTreeReader\<close> in
    \<open>Btree_Reader\<close>, \<^verbatim>\<open>BTreeWriter\<close> in \<open>Page_Ops\<close> and \<open>Btree_Writer\<close>; \<open>Row_Tree\<close> has
    the tree as the guard sees it. \<^verbatim>\<open>index.rs\<close>: \<open>Index_Page\<close>, \<open>Index_Tree\<close>, \<open>Index_Key\<close>. What the two
    trees share is in \<open>Tree_Shape\<close> (abstract tree, order, leaf chain, descent, walk) and
    \<open>Tree_Edit\<close> (edits of a tree).
  \<^item> \<open>Wal_Log\<close>: \<^verbatim>\<open>wal.rs\<close>. \<open>Table_Meta\<close>: \<^verbatim>\<open>table.rs\<close>. \<open>System_Page\<close>: the byte format of
    the table list. \<open>Database\<close>: the handle and its row operations. \<open>Recovery\<close>: open, replay, close.
  \<^item> Over these definitions: \<open>Guard_Safe\<close> and \<open>Page_Seal\<close> (what every writer keeps of the guard and of page
    checksums), \<open>Table_State\<close>, \<open>Row_Ops\<close>, \<open>Unique_Index\<close>, \<open>Row_Properties\<close>, \<open>Row_Log\<close>
    (row operations), \<open>Crash_Safety\<close>, \<open>Registry\<close>, \<open>Whole_Files\<close>, \<open>Crash_Properties\<close>
    (recovery and the table list).
\<close>

text \<open>
  \<^bold>\<open>State.\<close> \<open>page_file\<close> is the file on disk (a byte string), the cache, the overlay of the guard and
  the page counts: the guard locks state that lives in the file, so one record holds both. \<open>wal\<close> is the
  log file and its counters. \<open>database\<close> holds a page file, a log, and the table map as an association list
  of names and \<open>table_meta\<close>. Operations pass this state explicitly; \<open>Inl\<close> is an error or a panic and the
  state comes back in both cases, so that what a failed operation leaves behind can be stated. A guard dropped on an
  error path keeps its overlay, since the code has no \<^verbatim>\<open>Drop\<close> for it. A reader is a function from
  page numbers to pages: \<open>view_page\<close> for published pages, \<open>guard_view\<close> for those under the guard.

  \<^bold>\<open>Abstractions.\<close> \<open>leaf_page\<close> and \<open>branch_page\<close> (\<open>idx_branch\<close>) read a page as a list of
  rows and as lists of children and keys; \<open>row_tree\<close>, \<open>tree_in\<close> and \<open>index_tree\<close> say that pages form
  a well-formed tree whose contents are a sorted list; \<open>table_open\<close> that a table's rows are such a
  list, that each index holds exactly the sorted keys of those rows, and that no two trees share a page. \<open>holds\<close>
  says which images the log has; \<open>registry_in\<close> which tables a reader of pages finds from page 0;
  \<open>db_reach\<close> and \<open>wal_reach\<close> are the states reached by requests, failures, shutdowns and crashes.

  \<^bold>\<open>Locales.\<close> \<open>fixed_codec\<close>, \<open>header_field\<close>, \<open>ordered_directory\<close> and
  \<open>strict_directory\<close>, \<open>page_store\<close>, \<open>branch_format\<close>, \<open>branch_ops\<close>, \<open>tree_insertion\<close>
  and \<open>parser_for\<close> state the interfaces between the parts, and each is interpreted on the code's own
  functions where these are defined: the row directory, leaf and index directories search with one loop; the
  row tree and the index tree insert by one argument over their two branch formats; the records of the
  table list parse by one argument each.

  \<^bold>\<open>Properties.\<close>
  \<^item> Row operations on a table: insertion with its log, update, deletion, lookup, uniqueness (C1 to C5), names
    and defaults of columns (C13), and a failed insertion whose changes a later commit publishes (C14).
  \<^item> Recovery: every published page survives a crash in every reachable state (C6, C7), close and open (C8),
    creating a table (C9), and three windows in which a crash loses what a user would expect
    to keep (C10 to C12).
  \<^item> Row and page formats, the page file (C15 to C22, C26).
  \<^item> The row tree: lookup, cursor, filtered scan, insertion, deletion, bulk deletion and update (C23 to C25,
    C27 to C31). The index tree and its keys (C32 to C36). The log (C37, C38). The table list (C39, C40).

  The insertion into the row tree, the filtered scan and the bulk update say on which inputs the code
  succeeds and on which it panics, fails or leaves rows unchanged: \<open>leaf_takes\<close> and \<open>leaf_refuses\<close>,
  \<open>filter_ready\<close> and \<open>cut_fault\<close>, the two calls of \<open>changes_where\<close>.
\<close>

text \<open>
  \<^bold>\<open>Bounds and fuel.\<close> Descents carry the levels left of \<open>MAX_TREE_DEPTH\<close> (64), as the code counts up to it;
  the tree theorems assume a height within it. Walks along a leaf chain carry the code's own bound, the number
  of pages, and \<open>leaves_bound\<close> shows that a well-formed tree has no more leaves than that. The chain of
  overflow pages of a row stops at the code's limit on the size of a reassembled row. The walk along the
  table list has no bound in the code: \<open>system_chain\<close> is a partial function whose value \<open>None\<close> is not
  returning. All other loops are structural or have a termination proof.

  \<^bold>\<open>Integers.\<close> \<^verbatim>\<open>u8\<close> to \<^verbatim>\<open>u64\<close> and \<^verbatim>\<open>i64\<close> are words of
  their width and casts truncate. \<^verbatim>\<open>usize\<close> is a natural number; arithmetic that overflows, and
  slices out of range, panic, as in a build with overflow checks. Error payloads keep the fixed part of their text.

  \<^bold>\<open>Parameters.\<close> The checksum (\<^verbatim>\<open>crc32fast::hash\<close>) is an argument \<open>crc\<close> of every
  definition that uses it; nothing is assumed of it. The cipher of an unlocked encrypted table is a function from page
  bytes to a page or an error, held in the state; the recovery theorems are about handles without one and with the log on.

  \<^bold>\<open>What modelling showed.\<close> Splitting a leaf by number of rows panics on rows of uneven sizes (C27), and an
  overflow row between two rows of a leaf always does (C31). The filtered scan fails on an overflow row whose
  column is cut (C25). A 16-bit column offset wraps (C20). A row can look as if it had a trailer (C26). Texts with a zero byte
  collide in composite keys (C36). A failed insertion is published later (C14). The table metadata is not recovered
  after a crash (C10), a crash inside the first creation of a table leaves a file that cannot be
  opened (C11), a commit is recovered in part (C12), and a page linked to itself makes opening loop (C40). Two more were
  seen in the source and are outside the theorems: index keys of more than 36 bytes are misrouted behind a
  split, and a crash inside the truncation of the log leaves a log that cannot be opened.

  \<^bold>\<open>Not modelled.\<close>
  \<^item> In \<^verbatim>\<open>db.rs\<close>: query planning and scans of the handle (\<^verbatim>\<open>find\<close>,
    \<^verbatim>\<open>scan_batch\<close>, \<^verbatim>\<open>count\<close>), the bulk and combined writes
    (\<^verbatim>\<open>update_where\<close>, \<^verbatim>\<open>delete_where\<close>, \<^verbatim>\<open>insert_many\<close>, \<^verbatim>\<open>upsert\<close>),
    which combine readers and writers that are modelled; schema changes of existing tables on the handle (their effect on the
    metadata is in \<open>Table_Meta\<close>); ACID and light transactions, so the row operations are those behind their first
    branch on ACID mode (\<open>insert_direct\<close> and its like).
  \<^item> Encryption (\<^verbatim>\<open>crypto.rs\<close>, a third-party cipher), vector collections
    (\<^verbatim>\<open>vector/\<close>: memory maps, 32-bit float arithmetic, random levels), the asynchronous wrapper.
  \<^item> Threads: an operation runs as it does while it holds its locks. I/O errors other than a short read.
    What fsync orders: a crash is that of a process, and leaves the bytes written. A crash may fall between
    operations, between two appends, and at any byte of a log entry; the update of the entry count and the truncation of the log are one step each.
\<close>

end
